(* ===== verification/HopPrelude.thy ===== *)
theory HopPrelude
  imports "HOL-Library.Code_Target_Nat" Main "HOL-Library.Word"
begin

text \<open>
  Shared vocabulary of the HopOS development: the machine integers of the Rust sources, the
  outcomes of fallible operations, checked arithmetic, and the generic lemmas on lists, sums and
  words that the component theories use.

  The kernel is compiled with \<^verbatim>\<open>overflow-checks = true\<close> and \<^verbatim>\<open>panic = "abort"\<close> (Cargo.toml), so
  an unchecked \<^verbatim>\<open>+\<close> that overflows is an abort and not a wrapped value.  Where a component's
  arithmetic is unchecked in the source, the model uses \<open>add64\<close>/\<open>sub64\<close> below, whose \<open>Panic\<close> branch
  is that abort; the component then proves that the branch is never taken.
\<close>

unbundle bit_operations_syntax

type_synonym u8 = "8 word"
type_synonym u16 = "16 word"
type_synonym u32 = "32 word"
type_synonym u64 = "64 word"

named_theorems res_simps \<open>equations and inversions of the result combinators\<close>
named_theorems chk_simps \<open>characterisations of checked arithmetic over natural numbers\<close>

section \<open>Results\<close>

text \<open>A Rust \<^verbatim>\<open>Result<T, E>\<close> is \<open>'e + 'a\<close>.  \<open>rbind\<close> is the \<^verbatim>\<open>?\<close> operator.\<close>

fun rbind :: "'e + 'a \<Rightarrow> ('a \<Rightarrow> 'e + 'b) \<Rightarrow> 'e + 'b" where
  "rbind (Inl e) f = Inl e"
| "rbind (Inr x) f = f x"

lemma rbind_cong [fundef_cong]:
  "r = r' \<Longrightarrow> (\<And>x. r' = Inr x \<Longrightarrow> f x = f' x) \<Longrightarrow> rbind r f = rbind r' f'"
  by (cases r') auto

lemma rbind_eq_Inr [res_simps]: "rbind r f = Inr y \<longleftrightarrow> (\<exists>x. r = Inr x \<and> f x = Inr y)"
  by (cases r) auto

lemma rbind_eq_Inl [res_simps]:
  "rbind r f = Inl e \<longleftrightarrow> r = Inl e \<or> (\<exists>x. r = Inr x \<and> f x = Inl e)"
  by (cases r) auto

lemma rbind_assoc: "rbind (rbind r f) g = rbind r (\<lambda>x. rbind (f x) g)"
  by (cases r) auto

text \<open>\<^verbatim>\<open>opt.ok_or(e)\<close>.\<close>

definition ok_or :: "'a option \<Rightarrow> 'e \<Rightarrow> 'e + 'a" where
  "ok_or x e = (case x of None \<Rightarrow> Inl e | Some v \<Rightarrow> Inr v)"

lemma ok_or_simps [simp]: "ok_or None e = Inl e" "ok_or (Some v) e = Inr v"
  by (simp_all add: ok_or_def)

lemma ok_or_eq_Inr [res_simps]: "ok_or x e = Inr v \<longleftrightarrow> x = Some v"
  by (cases x) auto

lemma ok_or_eq_Inl [res_simps]: "ok_or x e = Inl d \<longleftrightarrow> x = None \<and> d = e"
  by (cases x) auto

text \<open>An operation that can also abort: an error value of the code, or a panic.\<close>

datatype 'e fail = Err 'e | Panic

text \<open>An error return guarded by a condition: \<^verbatim>\<open>if bad { return Err(e) }\<close>.\<close>

definition reject_if :: "bool \<Rightarrow> 'e \<Rightarrow> 'e + unit" where
  "reject_if b e = (if b then Inl e else Inr ())"

lemma reject_if_simps [simp]: "reject_if True e = Inl e" "reject_if False e = Inr ()"
  by (simp_all add: reject_if_def)

lemma reject_if_eq_Inr [res_simps]: "reject_if b e = Inr u \<longleftrightarrow> \<not> b"
  by (simp add: reject_if_def)

lemma reject_if_eq_Inl [res_simps]: "reject_if b e = Inl d \<longleftrightarrow> b \<and> d = e"
  by (auto simp: reject_if_def)

section \<open>Checked arithmetic\<close>

definition checked_add :: "'n::len word \<Rightarrow> 'n word \<Rightarrow> 'n word option" where
  "checked_add a b = (if unat a + unat b < 2 ^ LENGTH('n) then Some (a + b) else None)"

definition checked_sub :: "'n::len word \<Rightarrow> 'n word \<Rightarrow> 'n word option" where
  "checked_sub a b = (if b \<le> a then Some (a - b) else None)"

definition saturating_add :: "'n::len word \<Rightarrow> 'n word \<Rightarrow> 'n word" where
  "saturating_add a b = (if unat a + unat b < 2 ^ LENGTH('n) then a + b else - 1)"

text \<open>The unchecked \<^verbatim>\<open>+\<close> and \<^verbatim>\<open>-\<close> of a build with overflow checks.\<close>

definition add64 :: "u64 \<Rightarrow> u64 \<Rightarrow> 'e fail + u64" where
  "add64 a b = (if unat a + unat b < 2 ^ 64 then Inr (a + b) else Inl Panic)"

definition sub64 :: "u64 \<Rightarrow> u64 \<Rightarrow> 'e fail + u64" where
  "sub64 a b = (if b \<le> a then Inr (a - b) else Inl Panic)"

lemma unat_add_exact: "unat a + unat b < 2 ^ LENGTH('n) \<Longrightarrow> unat (a + b) = unat a + unat b"
  for a b :: "'n::len word"
  by (simp add: unat_word_ariths)

lemma unat_sub_exact: "b \<le> a \<Longrightarrow> unat (a - b) = unat a - unat b"
  for a b :: "'n::len word"
  by (rule unat_sub)

lemma unat_less_pow: "unat c < 2 ^ LENGTH('n)"
  for c :: "'n::len word"
  by (rule unsigned_less)

lemma unat64_less: "unat (c :: u64) < 2 ^ 64"
  using unat_less_pow [of c] by simp

lemma checked_add_eq_Some [chk_simps]:
  "checked_add a b = Some c \<longleftrightarrow> unat c = unat a + unat b"
  for a b c :: "'n::len word"
proof (cases "unat a + unat b < 2 ^ LENGTH('n)")
  case True
  then show ?thesis by (auto simp: checked_add_def unat_add_exact word_unat_eq_iff)
next
  case False
  then have "unat c \<noteq> unat a + unat b"
    using unat_less_pow [of c] by linarith
  with False show ?thesis by (simp add: checked_add_def)
qed

lemma checked_add_eq_None [chk_simps]:
  "checked_add a b = None \<longleftrightarrow> 2 ^ LENGTH('n) \<le> unat a + unat b"
  for a b :: "'n::len word"
  by (simp add: checked_add_def)

lemma add64_eq_Inr [chk_simps]: "add64 a b = Inr c \<longleftrightarrow> unat c = unat a + unat b"
  using unat64_less [of c]
  by (auto simp: add64_def word_unat_eq_iff unat_word_ariths)

lemma add64_eq_Inl [chk_simps]: "add64 a b = Inl e \<longleftrightarrow> e = Panic \<and> 2 ^ 64 \<le> unat a + unat b"
  by (auto simp: add64_def)

lemma sub64_eq_Inr [chk_simps]:
  "sub64 a b = Inr c \<longleftrightarrow> unat b \<le> unat a \<and> unat c = unat a - unat b"
  by (auto simp: sub64_def word_le_nat_alt unat_sub
      intro: word_unat_eq_iff [THEN iffD2])

lemma sub64_eq_Inl [chk_simps]: "sub64 a b = Inl e \<longleftrightarrow> e = Panic \<and> unat a < unat b"
  by (auto simp: sub64_def word_le_nat_alt)

text \<open>Rounding down to a power of two and taking the remainder, as the code writes them.\<close>

lemma and_not_mask: "x AND NOT (mask n) = push_bit n (drop_bit n x)"
  for x :: "'n::len word"
  by (rule bit_word_eqI) (auto simp: bit_simps)

lemma unat_and_not_mask: "unat (x AND NOT (mask n)) = unat x div 2 ^ n * 2 ^ n"
  for x :: "'n::len word"
proof -
  have "unat x div 2 ^ n * 2 ^ n < 2 ^ LENGTH('n)"
    using unsigned_less [of x] by (rule le_less_trans [rotated]) simp
  then have "take_bit LENGTH('n) (push_bit n (drop_bit n (unat x))) = push_bit n (drop_bit n (unat x))"
    by (simp add: take_bit_nat_eq_self push_bit_eq_mult drop_bit_eq_div)
  then show ?thesis
    unfolding and_not_mask unsigned_push_bit_eq unat_drop_bit_eq
    by (simp add: push_bit_eq_mult drop_bit_eq_div)
qed

lemma unat_and_mask: "unat (x AND mask n) = unat x mod 2 ^ n"
  for x :: "'n::len word"
  unfolding take_bit_eq_mask [symmetric] by (metis take_bit_eq_mod unsigned_take_bit_eq)

section \<open>Lists\<close>

text \<open>\<^verbatim>\<open>slice.get(i)\<close>: out of range is \<open>None\<close>.\<close>

definition list_get :: "'a list \<Rightarrow> nat \<Rightarrow> 'a option" where
  "list_get xs i = (if i < length xs then Some (xs ! i) else None)"

lemma list_get_eq_Some: "list_get xs i = Some x \<longleftrightarrow> i < length xs \<and> xs ! i = x"
  by (auto simp: list_get_def)

text \<open>\<^verbatim>\<open>iter().position(p)\<close>: the first index whose element satisfies \<open>p\<close>.\<close>

fun position :: "('a \<Rightarrow> bool) \<Rightarrow> 'a list \<Rightarrow> nat option" where
  "position p [] = None"
| "position p (x # xs) = (if p x then Some 0 else map_option Suc (position p xs))"

lemma position_eq_None: "position p xs = None \<longleftrightarrow> (\<forall>x \<in> set xs. \<not> p x)"
  by (induction xs) auto

lemma position_eq_SomeD:
  "position p xs = Some i \<Longrightarrow> i < length xs \<and> p (xs ! i) \<and> (\<forall>j < i. \<not> p (xs ! j))"
proof (induction xs arbitrary: i)
  case Nil
  then show ?case by simp
next
  case (Cons x xs)
  show ?case
  proof (cases "p x")
    case True
    with Cons.prems show ?thesis by simp
  next
    case False
    with Cons.prems obtain k where k: "position p xs = Some k" "i = Suc k" by auto
    from Cons.IH [OF k(1)] False k(2) show ?thesis by (auto simp: less_Suc_eq_0_disj)
  qed
qed

lemma find_upt_least:
  assumes "find P [m..<n] = Some i"
  shows "P i" "m \<le> i" "i < n" "\<forall>j. m \<le> j \<and> j < i \<longrightarrow> \<not> P j"
proof -
  from assms obtain k where k: "k < length [m..<n]" "P ([m..<n] ! k)" "i = [m..<n] ! k"
    "\<forall>j < k. \<not> P ([m..<n] ! j)"
    by (auto simp: find_Some_iff)
  then show "P i" "m \<le> i" "i < n" by auto
  show "\<forall>j. m \<le> j \<and> j < i \<longrightarrow> \<not> P j"
  proof (intro allI impI)
    fix j assume j: "m \<le> j \<and> j < i"
    then have "j - m < k" "[m..<n] ! (j - m) = j" using k by auto
    with k(4) show "\<not> P j" by force
  qed
qed

end
