(* ===== verification/Bounded.thy ===== *)
theory Bounded
  imports HopPrelude
begin

text \<open>
  The bounded collections of \<^verbatim>\<open>bounded/src/lib.rs\<close>: \<open>BoundedVec<T, N>\<close>, an array of \<open>N\<close>
  possibly-uninitialised cells with a length, and \<open>Text<N>\<close>, a byte buffer that cuts what does not
  fit on a letter boundary.  A cell of type \<^verbatim>\<open>MaybeUninit<T>\<close> is an \<open>option\<close>; reading a \<open>None\<close> cell
  as initialised is undefined behaviour and is the explicit outcome \<open>UninitRead\<close>.  The locale
  \<open>bounded_seq\<close> is the contract the rest of the kernel relies on; it is interpreted both on the
  concrete vector and on plain lists with a capacity, which is the form the clients use.
\<close>

section \<open>BoundedVec\<close>

datatype ub = UninitRead

datatype 'a Full = Full 'a

record 'a BoundedVec =
  buf :: "'a option list"
  len :: nat

definition BoundedVec_new :: "nat \<Rightarrow> 'a BoundedVec" where
  "BoundedVec_new N = \<lparr>buf = replicate N None, len = 0\<rparr>"

definition BoundedVec_capacity :: "'a BoundedVec \<Rightarrow> nat" where
  "BoundedVec_capacity v = length (buf v)"

definition BoundedVec_is_empty :: "'a BoundedVec \<Rightarrow> bool" where
  "BoundedVec_is_empty v \<longleftrightarrow> len v = 0"

definition BoundedVec_is_full :: "'a BoundedVec \<Rightarrow> bool" where
  "BoundedVec_is_full v \<longleftrightarrow> len v = length (buf v)"

definition BoundedVec_push :: "'a BoundedVec \<Rightarrow> 'a \<Rightarrow> 'a Full + 'a BoundedVec" where
  "BoundedVec_push v x =
     (if len v = length (buf v) then Inl (Full x)
      else Inr (v\<lparr>buf := (buf v)[len v := Some x], len := len v + 1\<rparr>))"

text \<open>\<^verbatim>\<open>assume_init_read\<close>: defined only on a written cell.\<close>

definition assume_init_read :: "'a option \<Rightarrow> ub + 'a" where
  "assume_init_read c = ok_or c UninitRead"

definition BoundedVec_pop :: "'a BoundedVec \<Rightarrow> ub + 'a option \<times> 'a BoundedVec" where
  "BoundedVec_pop v =
     (if len v = 0 then Inr (None, v)
      else rbind (assume_init_read (buf v ! (len v - 1)))
             (\<lambda>x. Inr (Some x, v\<lparr>len := len v - 1\<rparr>)))"

text \<open>\<^verbatim>\<open>as_slice\<close> reinterprets the first \<open>len\<close> cells as initialised.\<close>

fun init_cells :: "'a option list \<Rightarrow> ub + 'a list" where
  "init_cells [] = Inr []"
| "init_cells (c # cs) =
     rbind (assume_init_read c) (\<lambda>x. rbind (init_cells cs) (\<lambda>xs. Inr (x # xs)))"

definition BoundedVec_as_slice :: "'a BoundedVec \<Rightarrow> ub + 'a list" where
  "BoundedVec_as_slice v = init_cells (take (len v) (buf v))"

text \<open>
  \<^verbatim>\<open>as_mut_slice\<close> lends the same cells for writing: \<open>f\<close> sees them initialised, and what it leaves goes
  back into the first \<open>len\<close> cells.
\<close>

definition BoundedVec_as_mut_slice :: "'a BoundedVec \<Rightarrow> ('a list \<Rightarrow> 'a list) \<Rightarrow> ub + 'a BoundedVec" where
  "BoundedVec_as_mut_slice v f =
     rbind (BoundedVec_as_slice v) (\<lambda>xs. Inr (v\<lparr>buf := map Some (f xs) @ drop (len v) (buf v)\<rparr>))"

definition slice_swap :: "'a list \<Rightarrow> nat \<Rightarrow> nat \<Rightarrow> 'a list" where
  "slice_swap xs i j = xs[i := xs ! j, j := xs ! i]"

definition BoundedVec_swap_remove :: "'a BoundedVec \<Rightarrow> nat \<Rightarrow> ub + 'a option \<times> 'a BoundedVec" where
  "BoundedVec_swap_remove v i =
     (if i \<ge> len v then Inr (None, v)
      else rbind (BoundedVec_as_mut_slice v (\<lambda>xs. slice_swap xs i (len v - 1))) BoundedVec_pop)"

text \<open>\<^verbatim>\<open>ptr::copy(base.add(i + 1), base.add(i), len - i - 1)\<close>: the tail moves one cell down and the
  old last cell keeps its bits.\<close>

definition cells_down :: "'a list \<Rightarrow> nat \<Rightarrow> nat \<Rightarrow> 'a list" where
  "cells_down cs i n = take i cs @ take (n - i - 1) (drop (i + 1) cs) @ drop (n - 1) cs"

definition BoundedVec_remove :: "'a BoundedVec \<Rightarrow> nat \<Rightarrow> ub + 'a option \<times> 'a BoundedVec" where
  "BoundedVec_remove v i =
     (if i \<ge> len v then Inr (None, v)
      else rbind (assume_init_read (buf v ! i))
             (\<lambda>x. Inr (Some x, v\<lparr>buf := cells_down (buf v) i (len v), len := len v - 1\<rparr>)))"

lemma pop_shrinks:
  "BoundedVec_pop v = Inr (x, v') \<Longrightarrow> 0 < len v \<Longrightarrow> len v' < len v"
  by (auto simp: BoundedVec_pop_def res_simps)

function BoundedVec_truncate :: "'a BoundedVec \<Rightarrow> nat \<Rightarrow> ub + 'a BoundedVec" where
  "BoundedVec_truncate v n =
     (if len v > n then rbind (BoundedVec_pop v) (\<lambda>r. BoundedVec_truncate (snd r) n) else Inr v)"
  by pat_completeness auto
termination
  by (relation "measure (\<lambda>(v, n). len v)") (auto dest: pop_shrinks)

declare BoundedVec_truncate.simps [simp del]

definition BoundedVec_clear :: "'a BoundedVec \<Rightarrow> ub + 'a BoundedVec" where
  "BoundedVec_clear v = BoundedVec_truncate v 0"

lemma remove_shrinks:
  "BoundedVec_remove v i = Inr (x, v') \<Longrightarrow> i < len v \<Longrightarrow> len v' = len v - 1"
  by (auto simp: BoundedVec_remove_def res_simps)

text \<open>\<^verbatim>\<open>retain\<close> takes an \<^verbatim>\<open>FnMut\<close>: the predicate threads a state \<open>s\<close> of its own.\<close>

function BoundedVec_retain_from ::
  "('s \<Rightarrow> 'a \<Rightarrow> bool \<times> 's) \<Rightarrow> 's \<Rightarrow> 'a BoundedVec \<Rightarrow> nat \<Rightarrow> ub + 'a BoundedVec \<times> 's" where
  "BoundedVec_retain_from keep s v i =
     (if i < len v then
        rbind (assume_init_read (buf v ! i)) (\<lambda>x.
          let (k, s') = keep s x in
          if k then BoundedVec_retain_from keep s' v (i + 1)
          else rbind (BoundedVec_remove v i) (\<lambda>r. BoundedVec_retain_from keep s' (snd r) i))
      else Inr (v, s))"
  by pat_completeness auto
termination
  by (relation "measure (\<lambda>(keep, s, v, i). len v - i)") (auto dest: remove_shrinks)

declare BoundedVec_retain_from.simps [simp del]

definition BoundedVec_retain ::
  "('s \<Rightarrow> 'a \<Rightarrow> bool \<times> 's) \<Rightarrow> 's \<Rightarrow> 'a BoundedVec \<Rightarrow> ub + 'a BoundedVec \<times> 's" where
  "BoundedVec_retain keep s v = BoundedVec_retain_from keep s v 0"

text \<open>The loop of \<^verbatim>\<open>Clone\<close>: push each element, stop at a full vector.\<close>

fun push_until_full :: "'a BoundedVec \<Rightarrow> 'a list \<Rightarrow> 'a BoundedVec" where
  "push_until_full v [] = v"
| "push_until_full v (x # xs) =
     (case BoundedVec_push v x of Inl _ \<Rightarrow> v | Inr v' \<Rightarrow> push_until_full v' xs)"

definition BoundedVec_clone :: "'a BoundedVec \<Rightarrow> ub + 'a BoundedVec" where
  "BoundedVec_clone v =
     rbind (BoundedVec_as_slice v) (\<lambda>xs. Inr (push_until_full (BoundedVec_new (length (buf v))) xs))"

text \<open>The documented invariant: the first \<open>len\<close> cells are initialised.\<close>

definition BoundedVec_inv :: "'a BoundedVec \<Rightarrow> bool" where
  "BoundedVec_inv v \<longleftrightarrow> len v \<le> length (buf v) \<and> (\<forall>i < len v. buf v ! i \<noteq> None)"

text \<open>The elements as a list: what \<^verbatim>\<open>as_slice\<close> yields under the invariant.\<close>

definition bv_list :: "'a BoundedVec \<Rightarrow> 'a list" where
  "bv_list v = map the (take (len v) (buf v))"

subsection \<open>Representation\<close>

text \<open>The normal form of a well-formed vector: its elements, then cells of no account.\<close>

definition bv_repr :: "'a BoundedVec \<Rightarrow> 'a list \<Rightarrow> bool" where
  "bv_repr v xs \<longleftrightarrow> len v = length xs \<and> (\<exists>rest. buf v = map Some xs @ rest)"

lemma bv_reprD:
  assumes "bv_repr v xs"
  shows "BoundedVec_inv v" "bv_list v = xs" "len v = length xs" "length xs \<le> length (buf v)"
proof -
  from assms obtain rest where b: "buf v = map Some xs @ rest" and l: "len v = length xs"
    by (auto simp: bv_repr_def)
  show "BoundedVec_inv v" using b l by (auto simp: BoundedVec_inv_def nth_append)
  show "bv_list v = xs" using b l by (simp add: bv_list_def o_def)
  show "len v = length xs" by (fact l)
  show "length xs \<le> length (buf v)" using b by simp
qed

lemma bv_reprI:
  assumes "BoundedVec_inv v"
  shows "bv_repr v (bv_list v)"
proof -
  have n: "len v \<le> length (buf v)" and c: "\<forall>i < len v. buf v ! i \<noteq> None"
    using assms by (auto simp: BoundedVec_inv_def)
  have "map Some (bv_list v) = take (len v) (buf v)"
    using n c by (auto simp: bv_list_def list_eq_iff_nth_eq)
  then have "buf v = map Some (bv_list v) @ drop (len v) (buf v)" by simp
  then show ?thesis using n by (auto simp: bv_repr_def bv_list_def)
qed

lemma bv_repr_cell:
  "bv_repr v xs \<Longrightarrow> i < length xs \<Longrightarrow> assume_init_read (buf v ! i) = Inr (xs ! i)"
  by (auto simp: bv_repr_def assume_init_read_def nth_append)

lemma init_cells_Some [simp]: "init_cells (map Some xs) = Inr xs"
  by (induction xs) (auto simp: assume_init_read_def)

lemma as_slice_repr: "bv_repr v xs \<Longrightarrow> BoundedVec_as_slice v = Inr xs"
  by (auto simp: bv_repr_def BoundedVec_as_slice_def)

lemma new_repr: "bv_repr (BoundedVec_new N) [] \<and> length (buf (BoundedVec_new N)) = N"
  by (simp add: bv_repr_def BoundedVec_new_def)

lemma push_repr:
  assumes "bv_repr v xs"
  shows "BoundedVec_push v x =
           (if length xs = length (buf v) then Inl (Full x)
            else Inr (v\<lparr>buf := (buf v)[len v := Some x], len := len v + 1\<rparr>))"
    and "length xs < length (buf v) \<Longrightarrow>
         bv_repr (v\<lparr>buf := (buf v)[len v := Some x], len := len v + 1\<rparr>) (xs @ [x])"
proof -
  from assms obtain rest where b: "buf v = map Some xs @ rest" and l: "len v = length xs"
    by (auto simp: bv_repr_def)
  show "BoundedVec_push v x =
           (if length xs = length (buf v) then Inl (Full x)
            else Inr (v\<lparr>buf := (buf v)[len v := Some x], len := len v + 1\<rparr>))"
    using l by (simp add: BoundedVec_push_def)
  show "bv_repr (v\<lparr>buf := (buf v)[len v := Some x], len := len v + 1\<rparr>) (xs @ [x])"
    if "length xs < length (buf v)"
  proof -
    from that b obtain r rs where "rest = r # rs" by (cases rest) auto
    then show ?thesis using b l by (simp add: bv_repr_def list_update_append)
  qed
qed

lemma pop_repr:
  assumes "bv_repr v xs"
  shows "\<exists>v'. BoundedVec_pop v = Inr (if xs = [] then None else Some (last xs), v') \<and>
           bv_repr v' (butlast xs) \<and> length (buf v') = length (buf v)"
proof (cases xs rule: rev_cases)
  case Nil
  with assms show ?thesis by (simp add: BoundedVec_pop_def bv_repr_def)
next
  case (snoc ys y)
  have "assume_init_read (buf v ! (len v - 1)) = Inr y"
    using bv_repr_cell [OF assms, of "length ys"] assms snoc by (simp add: bv_repr_def nth_append)
  then show ?thesis
    using assms snoc by (auto simp: BoundedVec_pop_def bv_repr_def)
qed

lemma swap_remove_repr:
  assumes "bv_repr v xs"
  shows "\<exists>v'. BoundedVec_swap_remove v i =
             Inr (if i < length xs then Some (xs ! i) else None, v') \<and>
           bv_repr v' (if i < length xs then butlast (xs[i := last xs]) else xs) \<and>
           length (buf v') = length (buf v)"
proof (cases "i < length xs")
  case False
  with assms show ?thesis by (auto simp: BoundedVec_swap_remove_def bv_repr_def)
next
  case True
  let ?n = "length xs - 1"
  let ?ys = "slice_swap xs i ?n"
  from assms obtain rest where b: "buf v = map Some xs @ rest" and l: "len v = length xs"
    by (auto simp: bv_repr_def)
  have ne: "xs \<noteq> []" and lt: "?n < length xs" using True by auto
  let ?w = "v\<lparr>buf := map Some ?ys @ rest\<rparr>"
  have sw: "BoundedVec_as_mut_slice v (\<lambda>xs. slice_swap xs i (len v - 1)) = Inr ?w"
    using as_slice_repr [OF assms] by (simp add: BoundedVec_as_mut_slice_def b l)
  have r: "bv_repr ?w ?ys" using l by (simp add: bv_repr_def slice_swap_def)
  have ys: "?ys \<noteq> []" "last ?ys = xs ! i" "butlast ?ys = butlast (xs[i := last xs])"
  proof -
    show "?ys \<noteq> []" using ne by (simp add: slice_swap_def)
    show "last ?ys = xs ! i" using ne lt True
      by (simp add: slice_swap_def last_conv_nth nth_list_update)
    show "butlast ?ys = butlast (xs[i := last xs])"
      using ne by (simp add: slice_swap_def butlast_list_update last_conv_nth)
  qed
  have e: "BoundedVec_swap_remove v i = BoundedVec_pop ?w" using True l sw by (simp add: BoundedVec_swap_remove_def)
  have "length (buf ?w) = length (buf v)" by (simp add: b slice_swap_def)
  then show ?thesis using pop_repr [OF r] ys True unfolding e by auto
qed

lemma remove_repr:
  assumes "bv_repr v xs"
  shows "\<exists>v'. BoundedVec_remove v i =
             Inr (if i < length xs then Some (xs ! i) else None, v') \<and>
           bv_repr v' (take i xs @ drop (i + 1) xs) \<and> length (buf v') = length (buf v)"
proof (cases "i < length xs")
  case False
  with assms show ?thesis by (auto simp: BoundedVec_remove_def bv_repr_def)
next
  case True
  from assms obtain rest where b: "buf v = map Some xs @ rest" and l: "len v = length xs"
    by (auto simp: bv_repr_def)
  have "cells_down (buf v) i (length xs) =
      map Some (take i xs @ drop (i + 1) xs) @ drop (length xs - 1) (buf v)"
    using True by (simp add: cells_down_def b take_map drop_map)
  moreover have "length (cells_down (buf v) i (length xs)) = length (buf v)"
    using True b by (simp add: cells_down_def)
  ultimately show ?thesis
    using True l bv_repr_cell [OF assms True]
    by (auto simp: BoundedVec_remove_def bv_repr_def)
qed

lemma truncate_repr:
  "bv_repr v xs \<Longrightarrow> \<exists>v'. BoundedVec_truncate v n = Inr v' \<and> bv_repr v' (take n xs) \<and>
     length (buf v') = length (buf v)"
proof (induction "length xs - n" arbitrary: v xs)
  case 0
  then have "\<not> n < len v" by (simp add: bv_repr_def)
  then show ?case using 0 by (simp add: BoundedVec_truncate.simps [of v n])
next
  case (Suc k)
  then have n: "n < length xs" by simp
  from pop_repr [OF Suc.prems] obtain x v'
    where p: "BoundedVec_pop v = Inr (x, v')" "bv_repr v' (butlast xs)"
      "length (buf v') = length (buf v)" by blast
  have "k = length (butlast xs) - n" using Suc.hyps(2) by simp
  from Suc.hyps(1) [OF this p(2)] n p(3) obtain w
    where "BoundedVec_truncate v' n = Inr w" "bv_repr w (take n xs)" "length (buf w) = length (buf v)"
    by (auto simp: take_butlast)
  then show ?case
    using n Suc.prems p(1) by (simp add: BoundedVec_truncate.simps [of v n] bv_repr_def)
qed

text \<open>\<open>filter\<close> with a stateful predicate, in element order.\<close>

fun filter_st :: "('s \<Rightarrow> 'a \<Rightarrow> bool \<times> 's) \<Rightarrow> 's \<Rightarrow> 'a list \<Rightarrow> 'a list \<times> 's" where
  "filter_st keep s [] = ([], s)"
| "filter_st keep s (x # xs) =
     (let (k, s') = keep s x; (ys, t) = filter_st keep s' xs in (if k then x # ys else ys, t))"

lemma filter_st_pure: "filter_st (\<lambda>s x. (p x, s)) s xs = (filter p xs, s)"
  by (induction xs) auto

lemma retain_from_repr:
  "bv_repr v (xs @ ys) \<Longrightarrow>
     \<exists>v'. BoundedVec_retain_from keep s v (length xs) = Inr (v', snd (filter_st keep s ys)) \<and>
       bv_repr v' (xs @ fst (filter_st keep s ys)) \<and> length (buf v') = length (buf v)"
proof (induction ys arbitrary: v xs s)
  case Nil
  then show ?case by (simp add: BoundedVec_retain_from.simps [of keep s v] bv_repr_def)
next
  case (Cons y ys)
  obtain k s' where ks: "keep s y = (k, s')" by fastforce
  obtain zs t where zt: "filter_st keep s' ys = (zs, t)" by fastforce
  have i: "length xs < len v" and
    y: "assume_init_read (buf v ! length xs) = Inr y"
    using Cons.prems bv_repr_cell [OF Cons.prems, of "length xs"] by (auto simp: bv_repr_def)
  show ?case
  proof (cases k)
    case True
    from Cons.prems have "bv_repr v ((xs @ [y]) @ ys)" by simp
    from Cons.IH [OF this, of s'] show ?thesis
      using i y ks True zt
      by (auto simp: BoundedVec_retain_from.simps [of keep s v "length xs"] split: prod.splits)
  next
    case False
    from remove_repr [OF Cons.prems, of "length xs"] obtain v'
      where r: "BoundedVec_remove v (length xs) = Inr (Some y, v')" "bv_repr v' (xs @ ys)"
        "length (buf v') = length (buf v)"
      by auto
    from Cons.IH [OF r(2), of s'] show ?thesis
      using i y ks False zt r
      by (auto simp: BoundedVec_retain_from.simps [of keep s v "length xs"] split: prod.splits)
  qed
qed

subsection \<open>The contract of a bounded sequence\<close>

text \<open>The loop \<^verbatim>\<open>for x in xs { v.push(x)?; }\<close> over any push operation.\<close>

fun push_all :: "('v \<Rightarrow> 'a \<Rightarrow> 'f + 'v) \<Rightarrow> 'v \<Rightarrow> 'a list \<Rightarrow> 'f + 'v" where
  "push_all push v [] = Inr v"
| "push_all push v (x # xs) = rbind (push v x) (\<lambda>v'. push_all push v' xs)"

locale bounded_seq =
  fixes abs :: "'v \<Rightarrow> 'a list"
    and inv :: "'v \<Rightarrow> bool"
    and cap :: "'v \<Rightarrow> nat"
    and push :: "'v \<Rightarrow> 'a \<Rightarrow> 'a Full + 'v"
  assumes abs_bounded: "inv v \<Longrightarrow> length (abs v) \<le> cap v"
    and push_full: "inv v \<Longrightarrow> length (abs v) = cap v \<Longrightarrow> push v x = Inl (Full x)"
    and push_room: "inv v \<Longrightarrow> length (abs v) < cap v \<Longrightarrow>
      \<exists>v'. push v x = Inr v' \<and> inv v' \<and> abs v' = abs v @ [x] \<and> cap v' = cap v"
begin

lemma push_all_fits:
  "inv v \<Longrightarrow> length (abs v) + length xs \<le> cap v \<Longrightarrow>
     \<exists>v'. push_all push v xs = Inr v' \<and> inv v' \<and> abs v' = abs v @ xs \<and> cap v' = cap v"
proof (induction xs arbitrary: v)
  case Nil
  then show ?case by simp
next
  case (Cons x xs)
  then have "length (abs v) < cap v" by simp
  from push_room [OF Cons.prems(1) this, of x] obtain w
    where w: "push v x = Inr w" "inv w" "abs w = abs v @ [x]" "cap w = cap v" by blast
  from Cons.IH [OF w(2)] Cons.prems(2) w show ?case by auto
qed

lemma push_all_overflows:
  "inv v \<Longrightarrow> cap v < length (abs v) + length xs \<Longrightarrow>
     push_all push v xs = Inl (Full (xs ! (cap v - length (abs v))))"
proof (induction xs arbitrary: v)
  case Nil
  with abs_bounded [OF Nil.prems(1)] show ?case by simp
next
  case (Cons x xs)
  show ?case
  proof (cases "length (abs v) = cap v")
    case True
    with push_full [OF Cons.prems(1)] show ?thesis by simp
  next
    case False
    with abs_bounded [OF Cons.prems(1)] have lt: "length (abs v) < cap v" by simp
    from push_room [OF Cons.prems(1) lt, of x] obtain w
      where w: "push v x = Inr w" "inv w" "abs w = abs v @ [x]" "cap w = cap v" by blast
    have "cap w < length (abs w) + length xs" using Cons.prems(2) w by simp
    from Cons.IH [OF w(2) this] w lt show ?thesis
      by (simp add: nth_Cons' Suc_diff_Suc)
  qed
qed

lemma push_all_cases:
  assumes "inv v"
  shows "push_all push v xs =
      Inl (Full (xs ! (cap v - length (abs v)))) \<and> cap v < length (abs v) + length xs \<or>
    (\<exists>v'. push_all push v xs = Inr v' \<and> inv v' \<and> abs v' = abs v @ xs \<and> cap v' = cap v \<and>
       length (abs v) + length xs \<le> cap v)"
  using push_all_fits [OF assms, of xs] push_all_overflows [OF assms, of xs] by (meson not_le)

end

interpretation bv: bounded_seq bv_list BoundedVec_inv BoundedVec_capacity BoundedVec_push
proof
  fix v :: "'a BoundedVec" and x
  assume i: "BoundedVec_inv v"
  note r = bv_reprI [OF i]
  show "length (bv_list v) \<le> BoundedVec_capacity v"
    using bv_reprD(4) [OF r] by (simp add: BoundedVec_capacity_def)
  show "BoundedVec_push v x = Inl (Full x)" if "length (bv_list v) = BoundedVec_capacity v"
    using push_repr(1) [OF r] that by (simp add: BoundedVec_capacity_def)
  show "\<exists>v'. BoundedVec_push v x = Inr v' \<and> BoundedVec_inv v' \<and>
      bv_list v' = bv_list v @ [x] \<and> BoundedVec_capacity v' = BoundedVec_capacity v"
    if "length (bv_list v) < BoundedVec_capacity v"
    using push_repr [OF r, of x] that by (auto simp: BoundedVec_capacity_def dest: bv_reprD)
qed

text \<open>
  The form the clients use: a list with a capacity.  Every bounded vector of the kernel's tables is
  a list in the models below; \<open>bv_run_refines\<close> is what makes that faithful.
\<close>

definition blist_push :: "nat \<Rightarrow> 'a list \<Rightarrow> 'a \<Rightarrow> 'a Full + 'a list" where
  "blist_push N xs x = (if length xs = N then Inl (Full x) else Inr (xs @ [x]))"

interpretation blist: bounded_seq "\<lambda>xs. xs" "\<lambda>xs. length xs \<le> N" "\<lambda>_. N" "blist_push N" for N
  by unfold_locales (auto simp: blist_push_def)

subsection \<open>Refinement: any sequence of operations\<close>

datatype 'a bv_op =
    OpPush 'a | OpPop | OpSwapRemove nat | OpRemove nat | OpTruncate nat | OpClear

datatype 'a bv_out = OutFull 'a | OutUnit | OutElem "'a option"

fun bv_step :: "'a bv_op \<Rightarrow> 'a BoundedVec \<Rightarrow> ub + 'a bv_out \<times> 'a BoundedVec" where
  "bv_step (OpPush x) v =
     (case BoundedVec_push v x of Inl (Full y) \<Rightarrow> Inr (OutFull y, v) | Inr v' \<Rightarrow> Inr (OutUnit, v'))"
| "bv_step OpPop v = rbind (BoundedVec_pop v) (\<lambda>(x, v'). Inr (OutElem x, v'))"
| "bv_step (OpSwapRemove i) v = rbind (BoundedVec_swap_remove v i) (\<lambda>(x, v'). Inr (OutElem x, v'))"
| "bv_step (OpRemove i) v = rbind (BoundedVec_remove v i) (\<lambda>(x, v'). Inr (OutElem x, v'))"
| "bv_step (OpTruncate n) v = rbind (BoundedVec_truncate v n) (\<lambda>v'. Inr (OutUnit, v'))"
| "bv_step OpClear v = rbind (BoundedVec_clear v) (\<lambda>v'. Inr (OutUnit, v'))"

text \<open>The specification: a list of at most \<open>N\<close> elements.\<close>

fun list_step :: "nat \<Rightarrow> 'a bv_op \<Rightarrow> 'a list \<Rightarrow> 'a bv_out \<times> 'a list" where
  "list_step N (OpPush x) xs = (if length xs < N then (OutUnit, xs @ [x]) else (OutFull x, xs))"
| "list_step N OpPop xs = (OutElem (if xs = [] then None else Some (last xs)), butlast xs)"
| "list_step N (OpSwapRemove i) xs =
     (if i < length xs then (OutElem (Some (xs ! i)), butlast (xs[i := last xs]))
      else (OutElem None, xs))"
| "list_step N (OpRemove i) xs =
     (OutElem (if i < length xs then Some (xs ! i) else None), take i xs @ drop (i + 1) xs)"
| "list_step N (OpTruncate n) xs = (OutUnit, take n xs)"
| "list_step N OpClear xs = (OutUnit, [])"

fun bv_run :: "'a bv_op list \<Rightarrow> 'a BoundedVec \<Rightarrow> ub + 'a bv_out list \<times> 'a BoundedVec" where
  "bv_run [] v = Inr ([], v)"
| "bv_run (p # ps) v =
     rbind (bv_step p v) (\<lambda>(o1, v'). rbind (bv_run ps v') (\<lambda>(os, w). Inr (o1 # os, w)))"

fun list_run :: "nat \<Rightarrow> 'a bv_op list \<Rightarrow> 'a list \<Rightarrow> 'a bv_out list \<times> 'a list" where
  "list_run N [] xs = ([], xs)"
| "list_run N (p # ps) xs =
     (let (o1, ys) = list_step N p xs; (os, zs) = list_run N ps ys in (o1 # os, zs))"

lemma bv_step_simulates:
  assumes r: "bv_repr v xs" and N: "length (buf v) = N"
  shows "\<exists>v'. bv_step p v = Inr (fst (list_step N p xs), v') \<and>
           bv_repr v' (snd (list_step N p xs)) \<and> length (buf v') = N"
proof (cases p)
  case (OpPush x)
  then show ?thesis
    using push_repr [OF r, of x] bv_reprD(4) [OF r] r N by auto
next
  case OpPop
  then show ?thesis using pop_repr [OF r] N by auto
next
  case (OpSwapRemove i)
  then show ?thesis using swap_remove_repr [OF r, of i] N by (auto split: if_splits)
next
  case (OpRemove i)
  then show ?thesis using remove_repr [OF r, of i] N by auto
next
  case (OpTruncate n)
  then show ?thesis using truncate_repr [OF r, of n] N by auto
next
  case OpClear
  then show ?thesis using truncate_repr [OF r, of 0] N by (auto simp: BoundedVec_clear_def)
qed

lemma bv_run_simulates:
  "bv_repr v xs \<Longrightarrow> length (buf v) = N \<Longrightarrow>
     \<exists>v'. bv_run ps v = Inr (fst (list_run N ps xs), v') \<and> bv_repr v' (snd (list_run N ps xs))"
proof (induction ps arbitrary: v xs)
  case Nil
  then show ?case by simp
next
  case (Cons p ps)
  obtain o1 ys where ls: "list_step N p xs = (o1, ys)" by fastforce
  obtain os zs where lr: "list_run N ps ys = (os, zs)" by fastforce
  from bv_step_simulates [OF Cons.prems, of p] ls obtain w
    where w: "bv_step p v = Inr (o1, w)" "bv_repr w ys" "length (buf w) = N" by auto
  from Cons.IH [OF w(2,3)] w(1) ls lr show ?case by auto
qed

lemma clone_repr:
  assumes "bv_repr v xs"
  shows "\<exists>w. BoundedVec_clone v = Inr w \<and> bv_repr w xs \<and> length (buf w) = length (buf v)"
proof -
  have "\<exists>w. push_until_full u ys = w \<and> bv_repr w (zs @ ys) \<and> length (buf w) = length (buf u)"
    if "bv_repr u zs" "length (zs @ ys) \<le> length (buf u)" for u :: "'a BoundedVec" and zs ys
    using that
  proof (induction ys arbitrary: u zs)
    case Nil
    then show ?case by simp
  next
    case (Cons y ys)
    from push_repr [OF Cons.prems(1), of y] Cons.prems(2) obtain u'
      where u: "BoundedVec_push u y = Inr u'" "bv_repr u' (zs @ [y])" "length (buf u') = length (buf u)"
      by auto
    from Cons.IH [OF u(2)] Cons.prems(2) u show ?case by auto
  qed
  note pushed = this
  have n: "bv_repr (BoundedVec_new (length (buf v))) []"
    "length (buf (BoundedVec_new (length (buf v)) :: 'a BoundedVec)) = length (buf v)"
    using new_repr [of "length (buf v)"] by auto
  from pushed [OF n(1), of xs] n(2) bv_reprD(4) [OF assms] as_slice_repr [OF assms]
  show ?thesis by (simp add: BoundedVec_clone_def)
qed

section \<open>Text\<close>

record Text =
  tbuf :: "u8 list"
  tlen :: nat

definition Text_new :: "nat \<Rightarrow> Text" where
  "Text_new N = \<lparr>tbuf = replicate N 0, tlen = 0\<rparr>"

text \<open>\<^verbatim>\<open>buf.get(..len).unwrap_or_default()\<close>\<close>

definition Text_as_bytes :: "Text \<Rightarrow> u8 list" where
  "Text_as_bytes t = (if tlen t \<le> length (tbuf t) then take (tlen t) (tbuf t) else [])"

text \<open>\<^verbatim>\<open>u8::is_utf8_char_boundary\<close>: not a continuation byte.\<close>

definition char_boundary :: "u8 \<Rightarrow> bool" where
  "char_boundary b \<longleftrightarrow> b < 0x80 \<or> 0xC0 \<le> b"

text \<open>\<^verbatim>\<open>str::floor_char_boundary\<close>: step down to the nearest boundary.\<close>

fun boundary_down :: "u8 list \<Rightarrow> nat \<Rightarrow> nat" where
  "boundary_down s 0 = 0"
| "boundary_down s (Suc i) = (if char_boundary (s ! Suc i) then Suc i else boundary_down s i)"

definition floor_char_boundary :: "u8 list \<Rightarrow> nat \<Rightarrow> nat" where
  "floor_char_boundary s i = (if i \<ge> length s then length s else boundary_down s i)"

text \<open>The \<open>bool\<close> is \<^verbatim>\<open>Ok(())\<close>; \<open>N - len\<close> is an unchecked subtraction.\<close>

definition Text_write_str :: "Text \<Rightarrow> u8 list \<Rightarrow> unit fail + bool \<times> Text" where
  "Text_write_str t s =
     (if length (tbuf t) < tlen t then Inl Panic
      else let n = floor_char_boundary s (length (tbuf t) - tlen t) in
        if tlen t + n \<le> length (tbuf t) \<and> n \<le> length s
        then Inr (n = length s,
               t\<lparr>tbuf := take (tlen t) (tbuf t) @ take n s @ drop (tlen t + n) (tbuf t),
                 tlen := tlen t + n\<rparr>)
        else Inr (False, t))"

text \<open>A letter: a leading byte and its continuation bytes.  A \<^verbatim>\<open>&str\<close> is a concatenation of letters.\<close>

definition utf8_letter :: "u8 list \<Rightarrow> bool" where
  "utf8_letter c \<longleftrightarrow> c \<noteq> [] \<and> char_boundary (hd c) \<and> (\<forall>b \<in> set (tl c). \<not> char_boundary b)"

text \<open>The longest run of whole letters that fits in \<open>m\<close> bytes.\<close>

fun whole_letters :: "nat \<Rightarrow> u8 list list \<Rightarrow> u8 list list" where
  "whole_letters m [] = []"
| "whole_letters m (c # cs) =
     (if length c \<le> m then c # whole_letters (m - length c) cs else [])"

lemma boundary_down_le: "boundary_down s i \<le> i"
  by (induction i) (auto simp: le_SucI)

lemma boundary_down_inside:
  "(\<forall>j. 0 < j \<and> j \<le> i \<longrightarrow> \<not> char_boundary (s ! j)) \<Longrightarrow> boundary_down s i = 0"
  by (induction i) auto

lemma boundary_down_shift:
  "c \<noteq> [] \<Longrightarrow> s \<noteq> [] \<Longrightarrow> char_boundary (s ! 0) \<Longrightarrow>
     boundary_down (c @ s) (length c + i) = length c + boundary_down s i"
proof (induction i)
  case 0
  then obtain k where k: "length c = Suc k" by (cases c) auto
  have "(c @ s) ! Suc k = s ! 0" using k by (simp add: nth_append)
  then show ?case using 0 k by simp
next
  case (Suc i)
  then show ?case by (simp add: nth_append)
qed

lemma floor_letters:
  "\<forall>c \<in> set cs. utf8_letter c \<Longrightarrow>
     floor_char_boundary (concat cs) m = length (concat (whole_letters m cs))"
proof (induction cs arbitrary: m)
  case Nil
  then show ?case by (simp add: floor_char_boundary_def)
next
  case (Cons c cs)
  have c: "utf8_letter c" using Cons.prems by simp
  have IH: "floor_char_boundary (concat cs) n = length (concat (whole_letters n cs))" for n
    using Cons by simp
  show ?case
  proof (cases "length c \<le> m")
    case False
    have "\<not> char_boundary (concat (c # cs) ! j)" if "0 < j" "j \<le> m" for j
    proof -
      have "concat (c # cs) ! j = tl c ! (j - 1)" "j - 1 < length (tl c)"
        using that False by (auto simp: nth_append nth_tl)
      then show ?thesis using c by (auto simp: utf8_letter_def)
    qed
    with False show ?thesis
      using boundary_down_inside [of m "concat (c # cs)"] by (simp add: floor_char_boundary_def)
  next
    case True
    show ?thesis
    proof (cases "m < length (concat (c # cs))")
      case False
      then have "length (concat cs) \<le> m - length c" using True by simp
      with False True IH [of "m - length c"] show ?thesis by (simp add: floor_char_boundary_def)
    next
      case lt: True
      then have s2: "m - length c < length (concat cs)" using True by simp
      then have "0 < length (concat cs)" by linarith
      then have s: "concat cs \<noteq> []" "m - length c < length (concat cs)" using s2 by blast+
      from s obtain d ds where d: "cs = d # ds" by (cases cs) auto
      then have "d \<noteq> []" "char_boundary (hd d)" using Cons.prems by (auto simp: utf8_letter_def)
      then have "char_boundary (concat cs ! 0)" using d by (simp add: nth_append hd_conv_nth)
      moreover have "c \<noteq> []" using c by (simp add: utf8_letter_def)
      ultimately have "boundary_down (c @ concat cs) m = length c + boundary_down (concat cs) (m - length c)"
        using boundary_down_shift [of c "concat cs" "m - length c"] s True by simp
      with lt s True IH [of "m - length c"] show ?thesis by (simp add: floor_char_boundary_def)
    qed
  qed
qed

lemma whole_letters_prefix:
  "\<exists>k. whole_letters m cs = take k cs" "length (concat (whole_letters m cs)) \<le> m"
proof -
  show "length (concat (whole_letters m cs)) \<le> m"
  proof (induction cs arbitrary: m)
    case (Cons c cs)
    from Cons [of "m - length c"] show ?case by auto
  qed simp
  show "\<exists>k. whole_letters m cs = take k cs"
  proof (induction cs arbitrary: m)
    case Nil
    then show ?case by simp
  next
    case (Cons c cs)
    from Cons [of "m - length c"] obtain k where "whole_letters (m - length c) cs = take k cs" ..
    then show ?case by (intro exI [of _ "if length c \<le> m then Suc k else 0"]) simp
  qed
qed

lemma whole_letters_concat:
  "take (length (concat (whole_letters m cs))) (concat cs) = concat (whole_letters m cs)"
  by (induction cs arbitrary: m) auto

lemma whole_letters_all:
  "\<forall>c \<in> set cs. utf8_letter c \<Longrightarrow>
     length (concat (whole_letters m cs)) = length (concat cs) \<longleftrightarrow> whole_letters m cs = cs"
proof (induction cs arbitrary: m)
  case (Cons c cs)
  then show ?case by (auto simp: utf8_letter_def)
qed simp

section \<open>Properties\<close>

text \<open>
  C9. Starting from an empty vector of capacity \<open>N\<close>, any sequence of push, pop, swap_remove, remove,
  truncate and clear runs without ever reading an uninitialised cell, returns exactly what the same
  sequence returns on a list of at most \<open>N\<close> elements, and leaves a vector whose slice is that list.
\<close>

theorem bv_run_refines:
  "\<exists>v. bv_run ps (BoundedVec_new N) = Inr (fst (list_run N ps []), v) \<and>
       BoundedVec_as_slice v = Inr (snd (list_run N ps [])) \<and> BoundedVec_inv v"
  using bv_run_simulates [of "BoundedVec_new N" "[]" N ps] new_repr [of N]
    as_slice_repr bv_reprD(1) by blast

text \<open>
  \<^verbatim>\<open>retain\<close> on a well-formed vector keeps exactly the elements its (stateful) predicate accepts,
  asked once each in order, in their original order, and reads no uninitialised cell although it
  removes while it walks.
\<close>

theorem retain_filters:
  assumes "BoundedVec_inv v"
  shows "\<exists>v'. BoundedVec_retain keep s v = Inr (v', snd (filter_st keep s (bv_list v))) \<and>
           BoundedVec_inv v' \<and> bv_list v' = fst (filter_st keep s (bv_list v))"
  using retain_from_repr [of v "[]" "bv_list v" keep s] bv_reprI [OF assms]
  by (auto simp: BoundedVec_retain_def dest: bv_reprD)

theorem retain_filters_witness:
  "BoundedVec_inv \<lparr>buf = [Some 1, Some 2, Some (3 :: nat), None], len = 3\<rparr> \<and>
   (\<exists>v'. BoundedVec_retain (\<lambda>n x. (odd n, Suc n)) (1 :: nat)
      \<lparr>buf = [Some 1, Some 2, Some (3 :: nat), None], len = 3\<rparr> = Inr (v', 4) \<and>
      BoundedVec_inv v' \<and> bv_list v' = [1, 3])"
proof -
  let ?v = "\<lparr>buf = [Some 1, Some 2, Some (3 :: nat), None], len = 3\<rparr> :: nat BoundedVec"
  have i: "BoundedVec_inv ?v"
    by (auto simp: BoundedVec_inv_def less_Suc_eq numeral_3_eq_3)
  have "bv_list ?v = [1, 2, 3]" by (simp add: bv_list_def numeral_3_eq_3)
  then have "filter_st (\<lambda>n x. (odd n, Suc n)) (1 :: nat) (bv_list ?v) = ([1, 3], 4)"
    by simp
  with i retain_filters [OF i, of "\<lambda>n x. (odd n, Suc n)" 1] show ?thesis by simp
qed

text \<open>
  Writing a string to a \<^verbatim>\<open>Text\<close> never panics while its length is within its buffer; it appends
  the longest run of whole letters that fits, never half a letter, never past the buffer, and says
  \<^verbatim>\<open>Ok\<close> exactly when the whole string went in.
\<close>

theorem write_str_cuts_on_letter:
  assumes fits: "tlen t \<le> length (tbuf t)"
    and letters: "\<forall>c \<in> set cs. utf8_letter c"
  shows "\<exists>t'. Text_write_str t (concat cs) =
             Inr (whole_letters (length (tbuf t) - tlen t) cs = cs, t') \<and>
           Text_as_bytes t' = Text_as_bytes t @ concat (whole_letters (length (tbuf t) - tlen t) cs) \<and>
           length (tbuf t') = length (tbuf t) \<and> tlen t' \<le> length (tbuf t')"
proof -
  let ?m = "length (tbuf t) - tlen t"
  let ?w = "concat (whole_letters ?m cs)"
  have n: "floor_char_boundary (concat cs) ?m = length ?w" by (rule floor_letters [OF letters])
  have le: "length ?w \<le> ?m" by (rule whole_letters_prefix)
  have "length ?w \<le> length (concat cs)"
    using whole_letters_concat [of ?m cs] by (metis length_take min.cobounded1)
  moreover have "take (length ?w) (concat cs) = ?w" by (rule whole_letters_concat)
  ultimately have "Text_write_str t (concat cs) = Inr (length ?w = length (concat cs),
      t\<lparr>tbuf := take (tlen t) (tbuf t) @ ?w @ drop (tlen t + length ?w) (tbuf t),
        tlen := tlen t + length ?w\<rparr>)"
    using fits le le_diff_conv2 [OF fits, of "length ?w"]
    by (simp add: Text_write_str_def n Let_def add.commute)
  then show ?thesis
    using fits le le_diff_conv2 [OF fits, of "length ?w"]
    by (simp add: Text_as_bytes_def whole_letters_all [OF letters] add.commute)
qed

theorem write_str_cuts_on_letter_witness:
  "\<exists>t'. Text_write_str \<lparr>tbuf = [0x61, 0x62, 0x31, 0x32, 0, 0], tlen = 4\<rparr> [0xC3, 0xA9, 0xC3, 0xAB] =
      Inr (False, t') \<and>
    Text_as_bytes t' = [0x61, 0x62, 0x31, 0x32, 0xC3, 0xA9]"
proof -
  let ?t = "\<lparr>tbuf = [0x61, 0x62, 0x31, 0x32, 0, 0], tlen = 4\<rparr> :: Text"
  let ?cs = "[[0xC3, 0xA9], [0xC3, 0xAB]] :: u8 list list"
  have "tlen ?t \<le> length (tbuf ?t)" by simp
  moreover have "\<forall>c \<in> set ?cs. utf8_letter c"
    by (simp add: utf8_letter_def char_boundary_def)
  moreover have "Text_as_bytes ?t = [0x61, 0x62, 0x31, 0x32]"
    by (simp add: Text_as_bytes_def numeral_eq_Suc)
  ultimately show ?thesis
    using write_str_cuts_on_letter [of ?t ?cs] by auto
qed

end
