(* ===== verification/Abi.thy ===== *)
theory Abi
  imports Bounded
begin

text \<open>
  The vocabulary of the kernel/app contract (\<^verbatim>\<open>abi/src/lib.rs\<close>, \<^verbatim>\<open>abi/src/layout/mod.rs\<close>): memory
  regions, the ABI errors with the numbers they carry, and slot numbers.
\<close>

definition ABI_VERSION :: u32 where
  "ABI_VERSION = 1"

record Region =
  base :: u64
  rsize :: u64

definition Region_new :: "u64 \<Rightarrow> u64 \<Rightarrow> Region" where
  "Region_new b n = \<lparr>base = b, rsize = n\<rparr>"

definition Region_end :: "Region \<Rightarrow> u64 option" where
  "Region_end r = checked_add (base r) (rsize r)"

definition Region_overlaps :: "Region \<Rightarrow> Region \<Rightarrow> bool" where
  "Region_overlaps r s =
     (if rsize r = 0 \<or> rsize s = 0 then False
      else case (Region_end r, Region_end s) of
             (Some a, Some b) \<Rightarrow> base r < b \<and> base s < a
           | _ \<Rightarrow> True)"

datatype AbiError =
    RegionOverflow u64 u64
  | Misaligned string u64 u64
  | Missing string
  | EmptyPool
  | Overlap Region Region
  | TooMany string nat
  | OutOfPlan nat nat
  | RingBacking u64 u64
  | RecordTooLarge u64 u64
  | RingFull u64 u64
  | RingIndices u64 u64
  | Short nat nat
  | BadMagic u32
  | BadVersion u8 u8
  | BadKind u8
  | PayloadTooLarge nat nat
  | PlaceWindow u64 u64 u64 u64
  | ImageSize u64
  | EntryOutside u64 u64 u64
  | SegmentBounds u64 u64 u64 u64
  | NoSegments
  | SymbolBad string u64
  | NoAbiStamp u32
  | AbiMismatch u64 u32

text \<open>The bytes of a region, as natural numbers: what \<^verbatim>\<open>overlaps\<close> is about.\<close>

definition region_bytes :: "Region \<Rightarrow> nat set" where
  "region_bytes r = {unat (base r) ..< unat (base r) + unat (rsize r)}"

lemma Region_end_Some: "Region_end r = Some e \<longleftrightarrow> unat e = unat (base r) + unat (rsize r)"
  by (simp add: Region_end_def chk_simps)

lemma overlaps_iff_share_byte:
  assumes "Region_end r \<noteq> None" "Region_end s \<noteq> None"
  shows "Region_overlaps r s \<longleftrightarrow> region_bytes r \<inter> region_bytes s \<noteq> {}"
proof -
  from assms obtain a b where ab: "Region_end r = Some a" "Region_end s = Some b" by auto
  then have u: "unat a = unat (base r) + unat (rsize r)" "unat b = unat (base s) + unat (rsize s)"
    by (simp_all add: Region_end_Some)
  have z: "rsize r = 0 \<longleftrightarrow> unat (rsize r) = 0" "rsize s = 0 \<longleftrightarrow> unat (rsize s) = 0"
    by (simp_all add: unat_eq_0)
  have "{m..<n} \<inter> {i..<j} \<noteq> {} \<longleftrightarrow> max m i < min n j" for m n i j :: nat
    by auto
  then show ?thesis
    using ab u z by (auto simp: Region_overlaps_def region_bytes_def word_less_nat_alt)
qed

section \<open>Slots\<close>

definition SLOT_MAX :: nat where
  "SLOT_MAX = 0xFFFF - 2"

typedef Slot = "{i :: nat. 1 \<le> i \<and> i \<le> SLOT_MAX}"
  morphisms Slot_get Slot_of
  by (rule exI [of _ 1]) (simp add: SLOT_MAX_def)

setup_lifting type_definition_Slot

definition Slot_new :: "nat \<Rightarrow> Slot option" where
  "Slot_new i = (if i = 0 \<or> i > SLOT_MAX then None else Some (Slot_of i))"

lift_definition Slot_FIRST :: Slot is 1
  by (simp add: SLOT_MAX_def)

lemma Slot_new_eq_Some: "Slot_new i = Some s \<longleftrightarrow> 1 \<le> i \<and> i \<le> SLOT_MAX \<and> Slot_get s = i"
  using Slot_of_inverse Slot_get_inverse Slot_get [of s] by (auto simp: Slot_new_def)

lemma Slot_get_of [simp]: "1 \<le> i \<Longrightarrow> i \<le> SLOT_MAX \<Longrightarrow> Slot_get (Slot_of i) = i"
  by (simp add: Slot_of_inverse)

lemma Slot_get_range: "1 \<le> Slot_get s" "Slot_get s \<le> SLOT_MAX"
  by (transfer, simp)+

lemma Slot_eq_iff: "s = t \<longleftrightarrow> Slot_get s = Slot_get t"
  by (simp add: Slot_get_inject)

instantiation Slot :: equal
begin

definition equal_Slot :: "Slot \<Rightarrow> Slot \<Rightarrow> bool" where
  "equal_Slot s t \<longleftrightarrow> Slot_get s = Slot_get t"

instance
  by standard (simp add: equal_Slot_def Slot_eq_iff)

end

instantiation Slot :: linorder
begin

definition less_eq_Slot :: "Slot \<Rightarrow> Slot \<Rightarrow> bool" where
  "less_eq_Slot s t \<longleftrightarrow> Slot_get s \<le> Slot_get t"

definition less_Slot :: "Slot \<Rightarrow> Slot \<Rightarrow> bool" where
  "less_Slot s t \<longleftrightarrow> Slot_get s < Slot_get t"

instance
  by standard (auto simp: less_eq_Slot_def less_Slot_def Slot_eq_iff)

end

end
