(* ===== verification/Place.thy ===== *)
theory Place
  imports Abi
begin

text \<open>
  The placement check of an app image (\<^verbatim>\<open>abi/src/place.rs\<close>): which PT_LOAD segments go where, which
  symbols are patched with which values, and every refusal in the order of the code.  The numbers
  come from an image off the network.  Unchecked additions and subtractions of the source go through
  \<open>add64\<close>/\<open>sub64\<close>, whose overflow is an abort of the kernel.
\<close>

definition SYM_RAM_START :: string where
  "SYM_RAM_START = ''runtime/goos.RamStart''"

definition SYM_RAM_SIZE :: string where
  "SYM_RAM_SIZE = ''runtime/goos.RamSize''"

definition GO_ABI_VERSION :: u64 where
  "GO_ABI_VERSION = 10"

definition LINK_BASE :: u64 where
  "LINK_BASE = 0x50000000"

definition MAX_SEGMENTS :: nat where
  "MAX_SEGMENTS = 16"

definition MAX_PATCHES :: nat where
  "MAX_PATCHES = 3"

record Segment =
  paddr :: u64
  off :: u64
  filesz :: u64
  memsz :: u64

record Symbols =
  ram_start :: "u64 option"
  ram_size :: "u64 option"
  slot_hint :: "u64 option"
  abi_stamp :: "u64 option"

record Image =
  img_size :: u64
  img_entry :: u64
  img_segments :: "Segment list"
  symbols :: Symbols

record Window =
  link_base :: u64
  app_ram :: u64
  lo_off :: u64
  top_off :: u64

definition Window_canonical :: "u64 \<Rightarrow> u64 \<Rightarrow> u64 \<Rightarrow> Window" where
  "Window_canonical ram lo tp = \<lparr>link_base = LINK_BASE, app_ram = ram, lo_off = lo, top_off = tp\<rparr>"

type_synonym 'a place_res = "AbiError fail + 'a"

definition Window_check :: "Window \<Rightarrow> unit place_res" where
  "Window_check w =
     reject_if (app_ram w < 8 \<or> checked_add (link_base w) (app_ram w) = None \<or>
                lo_off w \<ge> top_off w \<or> top_off w > app_ram w)
       (Err (PlaceWindow (link_base w) (app_ram w) (lo_off w) (top_off w)))"

definition Window_end :: "Window \<Rightarrow> u64 place_res" where
  "Window_end w = add64 (link_base w) (app_ram w)"

text \<open>\<^verbatim>\<open>&&\<close> is lazy: the end of the window is computed only for an aligned address above the base.\<close>

definition Window_holds_word :: "Window \<Rightarrow> u64 \<Rightarrow> bool place_res" where
  "Window_holds_word w addr =
     (if unat addr mod 8 = 0 \<and> addr \<ge> link_base w
      then rbind (Window_end w) (\<lambda>e. rbind (sub64 e 8) (\<lambda>l. Inr (addr \<le> l)))
      else Inr False)"

record Patch =
  patch_addr :: u64
  patch_val :: u64

record Placement =
  entry :: u64
  segments :: "Segment list"
  patches :: "Patch list"

definition check_segment :: "Segment \<Rightarrow> Window \<Rightarrow> u64 \<Rightarrow> unit place_res" where
  "check_segment s w isz =
     (let bad = Err (SegmentBounds (paddr s) (memsz s) (filesz s) (off s)) in
      rbind (add64 (link_base w) (lo_off w)) (\<lambda>lo.
      rbind (if filesz s > memsz s \<or> memsz s > app_ram w \<or> paddr s < lo then Inr True
             else rbind (Window_end w) (\<lambda>e. rbind (sub64 e (memsz s)) (\<lambda>m. Inr (paddr s > m))))
        (\<lambda>out. rbind (reject_if out bad) (\<lambda>_.
      rbind (if off s > isz then Inr True
             else rbind (sub64 isz (off s)) (\<lambda>r. Inr (filesz s > r)))
        (\<lambda>out. rbind (reject_if out bad) (\<lambda>_.
      rbind (add64 (paddr s) (memsz s)) (\<lambda>e.
      rbind (add64 (link_base w) (top_off w)) (\<lambda>t.
      reject_if (e > t) bad))))))))"

definition push_patch :: "Placement \<Rightarrow> u64 \<Rightarrow> u64 \<Rightarrow> Placement place_res" where
  "push_patch p a v =
     (case blist_push MAX_PATCHES (patches p) \<lparr>patch_addr = a, patch_val = v\<rparr> of
        Inl _ \<Rightarrow> Inl (Err (TooMany ''patches'' MAX_PATCHES))
      | Inr ps \<Rightarrow> Inr (p\<lparr>patches := ps\<rparr>))"

fun add_segments :: "Window \<Rightarrow> u64 \<Rightarrow> Segment list \<Rightarrow> Placement \<Rightarrow> Placement place_res" where
  "add_segments w isz [] p = Inr p"
| "add_segments w isz (s # ss) p =
     rbind (check_segment s w isz) (\<lambda>_.
       case blist_push MAX_SEGMENTS (segments p) s of
         Inl _ \<Rightarrow> Inl (Err (TooMany ''PT_LOAD segments'' MAX_SEGMENTS))
       | Inr ss' \<Rightarrow> add_segments w isz ss (p\<lparr>segments := ss'\<rparr>))"

text \<open>One round of the loop over the two mandatory RAM symbols.\<close>

definition patch_required ::
  "Window \<Rightarrow> string \<Rightarrow> u64 option \<Rightarrow> u64 \<Rightarrow> Placement \<Rightarrow> Placement place_res" where
  "patch_required w name addr val p =
     (case addr of
        None \<Rightarrow> Inl (Err (SymbolBad name 0))
      | Some a \<Rightarrow> rbind (Window_holds_word w a) (\<lambda>ok.
          if ok then push_patch p a val else Inl (Err (SymbolBad name a))))"

definition patch_hint :: "Window \<Rightarrow> u64 option \<Rightarrow> Slot \<Rightarrow> Placement \<Rightarrow> Placement place_res" where
  "patch_hint w addr slot p =
     (case addr of
        None \<Rightarrow> Inr p
      | Some a \<Rightarrow> rbind (Window_holds_word w a) (\<lambda>ok.
          if ok then push_patch p a (word_of_nat (Slot_get slot)) else Inr p))"

definition check_abi :: "u64 option \<Rightarrow> u32 option \<Rightarrow> Placement \<Rightarrow> Placement place_res" where
  "check_abi stamp abi p =
     (case abi of
        None \<Rightarrow> Inr p
      | Some want \<Rightarrow>
          (case stamp of
             None \<Rightarrow> Inl (Err (NoAbiStamp want))
           | Some v \<Rightarrow> if v \<noteq> ucast want \<and> v \<noteq> GO_ABI_VERSION
                       then Inl (Err (AbiMismatch v want)) else Inr p))"

text \<open>The second half of \<^verbatim>\<open>build\<close>: the symbols and the stamp, once the segments stand.\<close>

definition patch_symbols ::
  "Image \<Rightarrow> Window \<Rightarrow> Slot \<Rightarrow> u32 option \<Rightarrow> Placement \<Rightarrow> Placement place_res" where
  "patch_symbols img w slot abi p =
     rbind (patch_required w SYM_RAM_START (ram_start (symbols img)) (link_base w) p) (\<lambda>p.
     rbind (patch_required w SYM_RAM_SIZE (ram_size (symbols img)) (app_ram w) p) (\<lambda>p.
     rbind (patch_hint w (slot_hint (symbols img)) slot p) (\<lambda>p.
     check_abi (abi_stamp (symbols img)) abi p)))"

definition build :: "Image \<Rightarrow> Window \<Rightarrow> Slot \<Rightarrow> u32 option \<Rightarrow> Placement place_res" where
  "build img w slot abi =
     rbind (Window_check w) (\<lambda>_.
     rbind (reject_if (img_size img = 0) (Err (ImageSize (img_size img)))) (\<lambda>_.
     rbind (add64 (link_base w) (lo_off w)) (\<lambda>lo.
     rbind (if img_entry img < lo then Inr True
            else rbind (Window_end w) (\<lambda>e. Inr (img_entry img \<ge> e))) (\<lambda>out.
     rbind (reject_if out (Err (EntryOutside (img_entry img) (link_base w) (app_ram w)))) (\<lambda>_.
     rbind (add_segments w (img_size img) (img_segments img)
              \<lparr>entry = img_entry img, segments = [], patches = []\<rparr>) (\<lambda>p.
     rbind (reject_if (segments p = []) (Err NoSegments)) (\<lambda>_.
     patch_symbols img w slot abi p)))))))"

section \<open>What a valid placement is\<close>

text \<open>
  The specification, in unbounded arithmetic over the 64-bit numbers: no overflow can hide in it.
\<close>

definition window_ok :: "Window \<Rightarrow> bool" where
  "window_ok w \<longleftrightarrow> 8 \<le> unat (app_ram w) \<and> unat (link_base w) + unat (app_ram w) < 2 ^ 64 \<and>
     unat (lo_off w) < unat (top_off w) \<and> unat (top_off w) \<le> unat (app_ram w)"

definition segment_ok :: "Window \<Rightarrow> nat \<Rightarrow> Segment \<Rightarrow> bool" where
  "segment_ok w isz s \<longleftrightarrow>
     unat (filesz s) \<le> unat (memsz s) \<and>
     unat (link_base w) + unat (lo_off w) \<le> unat (paddr s) \<and>
     unat (paddr s) + unat (memsz s) \<le> unat (link_base w) + unat (top_off w) \<and>
     unat (off s) + unat (filesz s) \<le> isz"

definition word_in_window :: "Window \<Rightarrow> u64 \<Rightarrow> bool" where
  "word_in_window w a \<longleftrightarrow> 8 dvd unat a \<and> unat (link_base w) \<le> unat a \<and>
     unat a + 8 \<le> unat (link_base w) + unat (app_ram w)"

definition stamp_ok :: "u64 option \<Rightarrow> u32 option \<Rightarrow> bool" where
  "stamp_ok stamp abi \<longleftrightarrow>
     (case abi of None \<Rightarrow> True
      | Some want \<Rightarrow> (\<exists>v. stamp = Some v \<and> (v = ucast want \<or> v = GO_ABI_VERSION)))"

definition image_ok :: "Image \<Rightarrow> Window \<Rightarrow> u32 option \<Rightarrow> bool" where
  "image_ok img w abi \<longleftrightarrow>
     window_ok w \<and> img_size img \<noteq> 0 \<and>
     unat (link_base w) + unat (lo_off w) \<le> unat (img_entry img) \<and>
     unat (img_entry img) < unat (link_base w) + unat (app_ram w) \<and>
     img_segments img \<noteq> [] \<and> length (img_segments img) \<le> MAX_SEGMENTS \<and>
     (\<forall>s \<in> set (img_segments img). segment_ok w (unat (img_size img)) s) \<and>
     (\<exists>a. ram_start (symbols img) = Some a \<and> word_in_window w a) \<and>
     (\<exists>a. ram_size (symbols img) = Some a \<and> word_in_window w a) \<and>
     stamp_ok (abi_stamp (symbols img)) abi"

definition hint_patches :: "Image \<Rightarrow> Window \<Rightarrow> Slot \<Rightarrow> Patch list" where
  "hint_patches img w slot =
     (case slot_hint (symbols img) of
        Some a \<Rightarrow> if word_in_window w a
                  then [\<lparr>patch_addr = a, patch_val = word_of_nat (Slot_get slot)\<rparr>] else []
      | None \<Rightarrow> [])"

definition the_plan :: "Image \<Rightarrow> Window \<Rightarrow> Slot \<Rightarrow> Placement" where
  "the_plan img w slot =
     \<lparr>entry = img_entry img, segments = img_segments img,
      patches = [\<lparr>patch_addr = the (ram_start (symbols img)), patch_val = link_base w\<rparr>,
                 \<lparr>patch_addr = the (ram_size (symbols img)), patch_val = app_ram w\<rparr>]
        @ hint_patches img w slot\<rparr>"

section \<open>The checks, exactly\<close>

lemma add64_exact:
  "unat a + unat b < 2 ^ 64 \<Longrightarrow> add64 a b = Inr (a + b) \<and> unat (a + b) = unat a + unat b"
  by (simp add: add64_def unat_word_ariths)

lemma sub64_exact:
  "unat b \<le> unat a \<Longrightarrow> sub64 a b = Inr (a - b) \<and> unat (a - b) = unat a - unat b"
  by (simp add: sub64_def word_le_nat_alt unat_sub)

text \<open>The same at the result type of this module.\<close>

lemmas add64_place = add64_exact [where ?'a = AbiError]
lemmas sub64_place = sub64_exact [where ?'a = AbiError]

lemma Window_check_iff:
  "Window_check w =
     (if window_ok w then Inr ()
      else Inl (Err (PlaceWindow (link_base w) (app_ram w) (lo_off w) (top_off w))))"
  by (auto simp: Window_check_def window_ok_def checked_add_eq_None reject_if_def
      word_less_nat_alt word_le_nat_alt)

lemma window_ok_ends:
  assumes "window_ok w"
  shows "Window_end w = Inr (link_base w + app_ram w)"
    and "unat (link_base w + app_ram w) = unat (link_base w) + unat (app_ram w)"
    and "(add64 (link_base w) (lo_off w) :: u64 place_res) = Inr (link_base w + lo_off w)"
    and "unat (link_base w + lo_off w) = unat (link_base w) + unat (lo_off w)"
    and "(add64 (link_base w) (top_off w) :: u64 place_res) = Inr (link_base w + top_off w)"
    and "unat (link_base w + top_off w) = unat (link_base w) + unat (top_off w)"
proof -
  have r: "unat (link_base w) + unat (app_ram w) < 2 ^ 64"
    "unat (link_base w) + unat (lo_off w) < 2 ^ 64"
    "unat (link_base w) + unat (top_off w) < 2 ^ 64"
    using assms by (auto simp: window_ok_def)
  show "Window_end w = Inr (link_base w + app_ram w)"
    "(add64 (link_base w) (lo_off w) :: u64 place_res) = Inr (link_base w + lo_off w)"
    "(add64 (link_base w) (top_off w) :: u64 place_res) = Inr (link_base w + top_off w)"
    using r [THEN add64_exact] r by (simp_all add: Window_end_def add64_def)
  show "unat (link_base w + app_ram w) = unat (link_base w) + unat (app_ram w)"
    "unat (link_base w + lo_off w) = unat (link_base w) + unat (lo_off w)"
    "unat (link_base w + top_off w) = unat (link_base w) + unat (top_off w)"
    using r [THEN add64_exact] by blast+
qed

lemma holds_word_iff:
  assumes "window_ok w"
  shows "Window_holds_word w a = Inr (word_in_window w a)"
proof -
  note e = window_ok_ends [OF assms]
  have "unat (8 :: u64) \<le> unat (link_base w + app_ram w)"
    using assms e(2) by (simp add: window_ok_def)
  then have s: "(sub64 (link_base w + app_ram w) 8 :: u64 place_res) = Inr (link_base w + app_ram w - 8)"
    "unat (link_base w + app_ram w - 8) = unat (link_base w) + unat (app_ram w) - 8"
    using sub64_exact [of 8 "link_base w + app_ram w"] e(2) by auto
  show ?thesis
    using e(1) s assms
    by (auto simp: Window_holds_word_def word_in_window_def window_ok_def word_le_nat_alt
        mod_eq_0_iff_dvd)
qed

lemma check_segment_iff:
  assumes w: "window_ok w"
  shows "check_segment s w isz =
           (if segment_ok w (unat isz) s then Inr ()
            else Inl (Err (SegmentBounds (paddr s) (memsz s) (filesz s) (off s))))"
proof -
  note e = window_ok_ends [OF w]
  let ?out1 = "filesz s > memsz s \<or> memsz s > app_ram w \<or> paddr s < link_base w + lo_off w"
  let ?bad = "Err (SegmentBounds (paddr s) (memsz s) (filesz s) (off s))"
  consider (1) ?out1
    | (2) "\<not> ?out1" "unat (paddr s) + unat (memsz s) > unat (link_base w) + unat (app_ram w)"
    | (3) "\<not> ?out1" "unat (paddr s) + unat (memsz s) \<le> unat (link_base w) + unat (app_ram w)"
    by linarith
  then show ?thesis
  proof cases
    case 1
    with e w show ?thesis
      by (auto simp: check_segment_def segment_ok_def window_ok_def word_less_nat_alt Let_def)
  next
    case 2
    have m: "unat (memsz s) \<le> unat (link_base w + app_ram w)"
      using 2 e(2) by (simp add: word_less_nat_alt)
    have "paddr s > link_base w + app_ram w - memsz s"
      using 2(2) conjunct2 [OF sub64_place [OF m]] m e(2) unfolding word_less_nat_alt by linarith
    with 2 e sub64_place [OF m] w show ?thesis
      by (auto simp: check_segment_def segment_ok_def window_ok_def Let_def)
  next
    case 3
    have m: "unat (memsz s) \<le> unat (link_base w + app_ram w)"
      using 3 e(2) by (simp add: word_less_nat_alt)
    have in1: "\<not> paddr s > link_base w + app_ram w - memsz s"
      using 3(2) conjunct2 [OF sub64_place [OF m]] m e(2) unfolding word_less_nat_alt by linarith
    have "unat (paddr s) + unat (memsz s) < 2 ^ 64"
      using 3(2) w by (simp add: window_ok_def)
    note pm = add64_place [OF this]
    have ffit: "(if off s > isz then Inr True
        else rbind (sub64 isz (off s)) (\<lambda>r. Inr (filesz s > r)) :: bool place_res) =
        Inr (unat isz < unat (off s) + unat (filesz s))"
    proof (cases "off s > isz")
      case False
      then have "unat (off s) \<le> unat isz" by (simp add: word_less_nat_alt)
      from sub64_place [OF this] this show ?thesis
        using False by (auto simp: word_less_nat_alt)
    qed (auto simp: word_less_nat_alt)
    have "check_segment s w isz =
        rbind (reject_if (unat isz < unat (off s) + unat (filesz s)) ?bad)
          (\<lambda>_. reject_if (paddr s + memsz s > link_base w + top_off w) ?bad)"
      using 3(1) e sub64_place [OF m] in1 pm ffit by (simp add: check_segment_def Let_def)
    moreover have "segment_ok w (unat isz) s \<longleftrightarrow>
        \<not> unat isz < unat (off s) + unat (filesz s) \<and>
        \<not> paddr s + memsz s > link_base w + top_off w"
      using 3(1) pm e by (auto simp: segment_ok_def word_less_nat_alt)
    ultimately show ?thesis by (auto simp: reject_if_def)
  qed
qed

lemma add_segments_Inr:
  assumes w: "window_ok w"
  shows "length (segments p) \<le> MAX_SEGMENTS \<Longrightarrow>
    add_segments w isz ss p = Inr q \<longleftrightarrow>
      (\<forall>s \<in> set ss. segment_ok w (unat isz) s) \<and>
      length (segments p) + length ss \<le> MAX_SEGMENTS \<and> q = p\<lparr>segments := segments p @ ss\<rparr>"
proof (induction ss arbitrary: p)
  case Nil
  then show ?case by auto
next
  case (Cons s ss)
  show ?case
  proof (cases "segment_ok w (unat isz) s \<and> length (segments p) < MAX_SEGMENTS")
    case True
    with Cons.IH [of "p\<lparr>segments := segments p @ [s]\<rparr>"] show ?thesis
      by (auto simp: check_segment_iff [OF w] blist_push_def)
  next
    case False
    with Cons.prems show ?thesis
      by (auto simp: check_segment_iff [OF w] blist_push_def split: if_splits)
  qed
qed

lemma add_segments_no_panic: "window_ok w \<Longrightarrow> add_segments w isz ss p \<noteq> Inl Panic"
  by (induction ss arbitrary: p)
    (auto simp: check_segment_iff blist_push_def split: if_splits)

lemma push_patch_room:
  "length (patches p) < MAX_PATCHES \<Longrightarrow>
     push_patch p a v = Inr (p\<lparr>patches := patches p @ [\<lparr>patch_addr = a, patch_val = v\<rparr>]\<rparr>)"
  by (simp add: push_patch_def blist_push_def)

lemma patch_required_room:
  "window_ok w \<Longrightarrow> length (patches p) < MAX_PATCHES \<Longrightarrow>
     patch_required w name addr val p =
       (case addr of None \<Rightarrow> Inl (Err (SymbolBad name 0))
        | Some a \<Rightarrow> if word_in_window w a
            then Inr (p\<lparr>patches := patches p @ [\<lparr>patch_addr = a, patch_val = val\<rparr>]\<rparr>)
            else Inl (Err (SymbolBad name a)))"
  by (auto simp: patch_required_def holds_word_iff push_patch_room split: option.splits)

lemma patch_hint_room:
  "window_ok w \<Longrightarrow> length (patches p) < MAX_PATCHES \<Longrightarrow>
     patch_hint w (slot_hint (symbols img)) slot p =
       Inr (p\<lparr>patches := patches p @ hint_patches img w slot\<rparr>)"
  by (auto simp: patch_hint_def holds_word_iff push_patch_room hint_patches_def split: option.splits)

lemma check_abi_iff:
  "check_abi stamp abi p = Inr q \<longleftrightarrow> q = p \<and> stamp_ok stamp abi"
  "check_abi stamp abi p \<noteq> Inl Panic"
  by (auto simp: check_abi_def stamp_ok_def split: option.splits)

text \<open>What is left of \<open>build\<close> once the window is valid.\<close>

lemma build_window_ok:
  assumes w: "window_ok w"
  shows "build img w slot abi =
    rbind (reject_if (img_size img = 0) (Err (ImageSize (img_size img)))) (\<lambda>_.
    rbind (reject_if (unat (img_entry img) < unat (link_base w) + unat (lo_off w) \<or>
             unat (link_base w) + unat (app_ram w) \<le> unat (img_entry img))
             (Err (EntryOutside (img_entry img) (link_base w) (app_ram w)))) (\<lambda>_.
    rbind (add_segments w (img_size img) (img_segments img)
             \<lparr>entry = img_entry img, segments = [], patches = []\<rparr>) (\<lambda>p.
    rbind (reject_if (segments p = []) (Err NoSegments)) (\<lambda>_.
    patch_symbols img w slot abi p))))"
proof -
  note e = window_ok_ends [OF w]
  show ?thesis
    using w e
    by (cases "unat (img_entry img) < unat (link_base w) + unat (lo_off w)")
      (simp_all add: build_def Window_check_iff word_less_nat_alt word_le_nat_alt)
qed

lemma patch_symbols_iff:
  assumes w: "window_ok w" and p: "patches p = []"
  shows "patch_symbols img w slot abi p = Inr q \<longleftrightarrow>
         (\<exists>x y. ram_start (symbols img) = Some x \<and> ram_size (symbols img) = Some y \<and>
            word_in_window w x \<and> word_in_window w y \<and> stamp_ok (abi_stamp (symbols img)) abi \<and>
            q = p\<lparr>patches := [\<lparr>patch_addr = x, patch_val = link_base w\<rparr>,
                              \<lparr>patch_addr = y, patch_val = app_ram w\<rparr>]
                  @ hint_patches img w slot\<rparr>)"
    and "patch_symbols img w slot abi p \<noteq> Inl Panic"
proof -
  show "patch_symbols img w slot abi p = Inr q \<longleftrightarrow>
         (\<exists>x y. ram_start (symbols img) = Some x \<and> ram_size (symbols img) = Some y \<and>
            word_in_window w x \<and> word_in_window w y \<and> stamp_ok (abi_stamp (symbols img)) abi \<and>
            q = p\<lparr>patches := [\<lparr>patch_addr = x, patch_val = link_base w\<rparr>,
                              \<lparr>patch_addr = y, patch_val = app_ram w\<rparr>]
                  @ hint_patches img w slot\<rparr>)"
    using w p
    by (auto simp: patch_symbols_def patch_required_room patch_hint_room MAX_PATCHES_def
        check_abi_iff split: option.splits)
  show "patch_symbols img w slot abi p \<noteq> Inl Panic"
    using w p
    by (auto simp: patch_symbols_def patch_required_room patch_hint_room MAX_PATCHES_def
        check_abi_iff split: option.splits)
qed

section \<open>Properties\<close>

text \<open>
  C10. No image, window, slot or stamp makes the placement check abort: whatever numbers an image
  from the network carries, every unchecked 64-bit addition and subtraction stays in range.
\<close>

theorem build_never_panics: "build img w slot abi \<noteq> Inl Panic"
proof (cases "window_ok w")
  case False
  then show ?thesis by (simp add: build_def Window_check_iff)
next
  case True
  let ?p0 = "\<lparr>entry = img_entry img, segments = [], patches = []\<rparr> :: Placement"
  have "add_segments w (img_size img) (img_segments img) ?p0 \<noteq> Inl Panic"
    by (rule add_segments_no_panic [OF True])
  moreover have "patches p = []"
    if "add_segments w (img_size img) (img_segments img) ?p0 = Inr p" for p
    using that add_segments_Inr [OF True, of ?p0] by auto
  ultimately show ?thesis
    using patch_symbols_iff(2) [OF True]
    by (auto simp: build_window_ok [OF True] res_simps)
qed

text \<open>
  C11. The placement check accepts exactly the valid images, and the plan it returns is determined:
  the image's own entry and segments, the RAM base and RAM size at their symbols, and the slot hint
  when its address is usable.  Validity is stated in unbounded arithmetic: every segment inside the
  window between the low and the top offset, its file part inside the image, the entry inside the
  window, the mandatory symbols aligned and inside, at most 16 segments, and a matching stamp.
\<close>

theorem build_accepts_iff:
  "build img w slot abi = Inr p \<longleftrightarrow> image_ok img w abi \<and> p = the_plan img w slot"
proof (cases "window_ok w")
  case False
  then show ?thesis by (simp add: build_def Window_check_iff image_ok_def)
next
  case True
  let ?p0 = "\<lparr>entry = img_entry img, segments = [], patches = []\<rparr> :: Placement"
  have seg: "add_segments w (img_size img) (img_segments img) ?p0 = Inr q \<longleftrightarrow>
      (\<forall>s \<in> set (img_segments img). segment_ok w (unat (img_size img)) s) \<and>
      length (img_segments img) \<le> MAX_SEGMENTS \<and> q = ?p0\<lparr>segments := img_segments img\<rparr>" for q
    using add_segments_Inr [OF True, of ?p0] by simp
  have "build img w slot abi = Inr p \<longleftrightarrow>
      img_size img \<noteq> 0 \<and>
      \<not> (unat (img_entry img) < unat (link_base w) + unat (lo_off w) \<or>
         unat (link_base w) + unat (app_ram w) \<le> unat (img_entry img)) \<and>
      (\<forall>s \<in> set (img_segments img). segment_ok w (unat (img_size img)) s) \<and>
      length (img_segments img) \<le> MAX_SEGMENTS \<and> img_segments img \<noteq> [] \<and>
      (\<exists>x y. ram_start (symbols img) = Some x \<and> ram_size (symbols img) = Some y \<and>
        word_in_window w x \<and> word_in_window w y \<and>
        p = the_plan img w slot \<and> stamp_ok (abi_stamp (symbols img)) abi)"
    by (auto simp: build_window_ok [OF True] res_simps seg
        patch_symbols_iff(1) [OF True] the_plan_def)
  then show ?thesis using True by (auto simp: image_ok_def not_less not_le)
qed

end
