(* ===== verification/Kern.thy ===== *)
theory Kern
  imports Abi
begin

text \<open>
  The vocabulary of the kernel crate: its errors (\<^verbatim>\<open>kern/src/error.rs\<close>), logical core numbers
  (\<^verbatim>\<open>kern/src/lib.rs\<close>), the core hardware as the placement sees it (\<^verbatim>\<open>kern/src/cage.rs\<close>) and the table
  indexed by slot number (\<^verbatim>\<open>kern/src/slotvec.rs\<close>).  The heap behind a growing table is a parameter:
  \<open>grow n\<close> says whether \<^verbatim>\<open>try_reserve(n)\<close> succeeds.  The locale \<open>slot_table\<close> is what the tables of the
  kernel promise their owners.
\<close>

section \<open>Errors\<close>

datatype KernError =
    SlotRange nat nat
  | CoreRange nat nat
  | PartitionSize u64
  | NoPartition u64
  | StillOwned nat
  | NotOwned nat
  | NotLive nat
  | NotFree u64 u64
  | TableFull nat
  | OutOfMemory nat
  | PoolSize nat nat
  | NoCores nat
  | ClassMismatch nat
  | CoreBusy nat
  | CageRefused nat u32
  | BadRange u64 u64
  | CorruptAt nat
  | BadVersionWord u64 u64
  | TooLarge nat nat
  | NoEnt
  | WrongKind
  | NotEmpty
  | BadPath
  | Denied
  | IoAt u64
  | DeviceFailed string
  | DiskFull u64
  | ConnGone
  | NeedsPrivilege nat
  | MailboxBusy
  | PortTaken nat u16 nat
  | PortRefused nat u16

section \<open>Cores\<close>

definition CORE_CAP :: nat where
  "CORE_CAP = 256"

text \<open>A logical core number; 0 is the OS core, which \<open>Core_new\<close> never gives.\<close>

type_synonym Core = nat

definition Core_OS :: Core where
  "Core_OS = 0"

definition Core_new :: "nat \<Rightarrow> Core option" where
  "Core_new c = (if 1 \<le> c \<and> c \<le> CORE_CAP then Some c else None)"

lemma Core_new_eq_Some: "Core_new c = Some k \<longleftrightarrow> k = c \<and> 1 \<le> c \<and> c \<le> CORE_CAP"
  by (auto simp: Core_new_def)

datatype CoreClass = Small | Mid | Big

text \<open>The part of the \<^verbatim>\<open>Cores\<close> trait the placement reads: the board fills it in.\<close>

record Cores =
  app_cores :: nat
  core_class :: "Core \<Rightarrow> CoreClass option"

section \<open>SlotVec\<close>

type_synonym 'a SlotVec = "'a option list"

definition SlotVec_new :: "'a SlotVec" where
  "SlotVec_new = []"

definition SlotVec_get :: "'a SlotVec \<Rightarrow> Slot \<Rightarrow> 'a option" where
  "SlotVec_get v s = Option.bind (list_get v (Slot_get s)) id"

text \<open>The number of bytes in the error depends on the layout of \<open>Option<T>\<close>: \<open>esz\<close>.\<close>

definition SlotVec_insert ::
  "(nat \<Rightarrow> bool) \<Rightarrow> nat \<Rightarrow> 'a SlotVec \<Rightarrow> Slot \<Rightarrow> 'a \<Rightarrow> KernError + 'a option \<times> 'a SlotVec" where
  "SlotVec_insert grow esz v s x =
     (let i = Slot_get s in
      if i \<ge> length v then
        (let more = i + 1 - length v in
         if grow more then
           (let v' = v @ replicate more None in Inr (v' ! i, v'[i := Some x]))
         else Inl (OutOfMemory (more * esz)))
      else Inr (v ! i, v[i := Some x]))"

text \<open>\<^verbatim>\<open>while last().is_some_and(is_none) { pop() }\<close>\<close>

fun trim_none :: "'a option list \<Rightarrow> 'a option list" where
  "trim_none v = (if v \<noteq> [] \<and> last v = None then trim_none (butlast v) else v)"

declare trim_none.simps [simp del]

definition SlotVec_remove :: "'a SlotVec \<Rightarrow> Slot \<Rightarrow> 'a option \<times> 'a SlotVec" where
  "SlotVec_remove v s =
     (let i = Slot_get s in
      if i < length v then (v ! i, trim_none (v[i := None])) else (None, v))"

definition SlotVec_iter :: "'a SlotVec \<Rightarrow> (Slot \<times> 'a) list" where
  "SlotVec_iter v =
     List.map_filter (\<lambda>(i, o1). Option.bind (Slot_new i) (\<lambda>s. map_option (Pair s) o1))
       (enumerate 0 v)"

definition SlotVec_lowest_free :: "'a SlotVec \<Rightarrow> (Slot \<Rightarrow> bool) \<Rightarrow> Slot option" where
  "SlotVec_lowest_free v free =
     find (\<lambda>s. SlotVec_get v s = None \<and> free s) (List.map_filter Slot_new [1..<SLOT_MAX + 1])"

subsection \<open>The contract of a slot table\<close>

locale slot_table =
  fixes get :: "'t \<Rightarrow> Slot \<Rightarrow> 'a option"
    and put :: "'t \<Rightarrow> Slot \<Rightarrow> 'a \<Rightarrow> KernError + 'a option \<times> 't"
    and take_out :: "'t \<Rightarrow> Slot \<Rightarrow> 'a option \<times> 't"
  assumes get_put: "put t s x = Inr (y, t') \<Longrightarrow> get t' r = (if r = s then Some x else get t r)"
    and put_old: "put t s x = Inr (y, t') \<Longrightarrow> y = get t s"
    and get_take: "get (snd (take_out t s)) r = (if r = s then None else get t r)"
    and take_old: "fst (take_out t s) = get t s"
begin

text \<open>How many entries satisfy a predicate, and how that number moves.\<close>

definition count :: "'t \<Rightarrow> ('a \<Rightarrow> bool) \<Rightarrow> nat" where
  "count t p = card {s. \<exists>x. get t s = Some x \<and> p x}"

lemma finite_slots: "finite (A :: Slot set)"
proof -
  have "Slot_get ` UNIV \<subseteq> {..SLOT_MAX}" using Slot_get_range(2) by auto
  then have "finite (Slot_get ` UNIV)" by (rule finite_subset) simp
  moreover have "inj Slot_get" by (simp add: inj_on_def Slot_get_inject)
  ultimately have "finite (UNIV :: Slot set)" by (rule finite_imageD)
  then show ?thesis by (rule finite_subset [rotated]) simp
qed

lemma card_slots: "card (A :: Slot set) \<le> SLOT_MAX"
proof -
  have "Slot_get ` A \<subseteq> {1..SLOT_MAX}" using Slot_get_range by auto
  then have "card (Slot_get ` A) \<le> card {1..SLOT_MAX}" by (rule card_mono [rotated]) simp
  moreover have "card (Slot_get ` A) = card A"
    by (rule card_image) (simp add: inj_on_def Slot_get_inject)
  ultimately show ?thesis by simp
qed

lemma count_bound: "count t p \<le> SLOT_MAX"
  by (simp add: count_def card_slots)

lemma count_put:
  assumes "put t s x = Inr (y, t')" and "get t s = None"
  shows "count t' p = count t p + (if p x then 1 else 0)"
proof -
  let ?A = "\<lambda>u. {r. \<exists>z. get u r = Some z \<and> p z}"
  have "?A t' = (if p x then insert s (?A t) else ?A t)"
    using get_put [OF assms(1)] assms(2) by auto
  moreover have "s \<notin> ?A t" using assms(2) by simp
  ultimately show ?thesis by (simp add: count_def finite_slots)
qed

lemma count_take:
  assumes "get t s = Some x"
  shows "count t p = count (snd (take_out t s)) p + (if p x then 1 else 0)"
proof -
  let ?A = "\<lambda>u. {r. \<exists>z. get u r = Some z \<and> p z}"
  let ?B = "?A (snd (take_out t s))"
  have "?A t = (if p x then insert s ?B else ?B)" "s \<notin> ?B"
    using assms by (auto simp: get_take)
  then show ?thesis by (simp add: count_def finite_slots)
qed

lemma count_eq_0: "count t p = 0 \<longleftrightarrow> (\<forall>s x. get t s = Some x \<longrightarrow> \<not> p x)"
  by (auto simp: count_def finite_slots)

lemma count_pos: "get t s = Some x \<Longrightarrow> p x \<Longrightarrow> 0 < count t p"
  using count_eq_0 [of t p] by auto

lemma count_1_unique:
  "count t p = 1 \<Longrightarrow> get t s = Some x \<Longrightarrow> p x \<Longrightarrow> get t r = Some y \<Longrightarrow> p y \<Longrightarrow> s = r"
proof -
  assume a: "count t p = 1" "get t s = Some x" "p x" "get t r = Some y" "p y"
  then obtain z where z: "{s. \<exists>x. get t s = Some x \<and> p x} = {z}"
    by (auto simp: count_def card_1_singleton_iff)
  have "s \<in> {z}" "r \<in> {z}" using a unfolding z [symmetric] by auto
  then show "s = r" by simp
qed

end

subsection \<open>SlotVec keeps the contract\<close>

definition slot_entry :: "'a option list \<Rightarrow> nat \<Rightarrow> 'a option" where
  "slot_entry v i = (if i < length v then v ! i else None)"

lemma SlotVec_get_entry: "SlotVec_get v s = slot_entry v (Slot_get s)"
  by (simp add: SlotVec_get_def slot_entry_def list_get_def)

lemma slot_entry_trim [simp]: "slot_entry (trim_none v) i = slot_entry v i"
proof (induction v rule: trim_none.induct)
  case (1 v)
  show ?case
  proof (cases "v \<noteq> [] \<and> last v = None")
    case True
    then have "slot_entry (butlast v) i = slot_entry v i"
      by (auto simp: slot_entry_def nth_butlast last_conv_nth) (metis Suc_pred less_SucE length_greater_0_conv)
    with 1 True show ?thesis by (simp add: trim_none.simps [of v])
  next
    case False
    then show ?thesis by (auto simp: trim_none.simps [of v])
  qed
qed

lemma trim_none_trimmed: "trim_none v = [] \<or> last (trim_none v) \<noteq> None"
proof (induction v rule: trim_none.induct)
  case (1 v)
  then show ?case by (cases "v \<noteq> [] \<and> last v = None") (auto simp: trim_none.simps [of v])
qed

interpretation sv: slot_table SlotVec_get "SlotVec_insert grow esz" SlotVec_remove for grow esz
proof
  fix t :: "'a SlotVec" and s r x y t'
  assume "SlotVec_insert grow esz t s x = Inr (y, t')"
  then show "SlotVec_get t' r = (if r = s then Some x else SlotVec_get t r)" "y = SlotVec_get t s"
    by (auto simp: SlotVec_insert_def SlotVec_get_entry slot_entry_def Let_def Slot_eq_iff nth_append
        nth_list_update split: if_splits)
next
  fix t :: "'a SlotVec" and s r
  show "SlotVec_get (snd (SlotVec_remove t s)) r = (if r = s then None else SlotVec_get t r)"
    by (auto simp: SlotVec_remove_def SlotVec_get_entry Let_def Slot_eq_iff)
      (auto simp: slot_entry_def)
  show "fst (SlotVec_remove t s) = SlotVec_get t s"
    by (auto simp: SlotVec_remove_def SlotVec_get_entry slot_entry_def Let_def)
qed

lemma SlotVec_insert_cases:
  "(\<exists>n. SlotVec_insert grow esz v s x = Inl (OutOfMemory n)) \<or>
   (\<exists>v'. SlotVec_insert grow esz v s x = Inr (SlotVec_get v s, v'))"
  by (auto simp: SlotVec_insert_def SlotVec_get_entry slot_entry_def Let_def nth_append)

lemma map_filter_Slot_new: "i \<le> SLOT_MAX + 1 \<Longrightarrow>
    List.map_filter Slot_new [1..<i] = map Slot_of [1..<i]"
  by (induction i) (auto simp: List.map_filter_def Slot_new_def)

lemma find_map_eq: "find P (map f xs) = map_option f (find (\<lambda>x. P (f x)) xs)"
  by (induction xs) auto

text \<open>\<open>lowest_free\<close> gives the lowest slot that is unused and acceptable, or says there is none.\<close>

lemma lowest_free_least:
  "SlotVec_lowest_free v free = Some s \<Longrightarrow>
     SlotVec_get v s = None \<and> free s \<and>
     (\<forall>r. Slot_get r < Slot_get s \<longrightarrow> SlotVec_get v r \<noteq> None \<or> \<not> free r)"
  "SlotVec_lowest_free v free = None \<Longrightarrow> SlotVec_get v r \<noteq> None \<or> \<not> free r"
proof -
  let ?P = "\<lambda>s. SlotVec_get v s = None \<and> free s"
  have e: "SlotVec_lowest_free v free = map_option Slot_of (find (\<lambda>i. ?P (Slot_of i)) [1..<SLOT_MAX + 1])"
    unfolding SlotVec_lowest_free_def map_filter_Slot_new [OF order_refl] find_map_eq ..
  have of_get: "Slot_of (Slot_get r) = r" for r by (rule Slot_get_inverse)
  {
    assume "SlotVec_lowest_free v free = Some s"
    then obtain i where i: "find (\<lambda>i. ?P (Slot_of i)) [1..<SLOT_MAX + 1] = Some i" "s = Slot_of i"
      by (auto simp: e)
    note f = find_upt_least [OF i(1)]
    have si: "Slot_get s = i" using f i(2) by simp
    have "SlotVec_get v r \<noteq> None \<or> \<not> free r" if "Slot_get r < Slot_get s" for r
      using f(4) that si Slot_get_range(1) [of r] of_get [of r] by (metis (no_types, lifting))
    then show "SlotVec_get v s = None \<and> free s \<and>
     (\<forall>r. Slot_get r < Slot_get s \<longrightarrow> SlotVec_get v r \<noteq> None \<or> \<not> free r)"
      using f(1) i(2) by blast
  }
  assume "SlotVec_lowest_free v free = None"
  then have "\<forall>i \<in> set [1..<SLOT_MAX + 1]. \<not> ?P (Slot_of i)"
    by (simp add: e find_None_iff del: upt_Suc)
  moreover have "Slot_get r \<in> set [1..<SLOT_MAX + 1]" using Slot_get_range [of r] by auto
  ultimately show "SlotVec_get v r \<noteq> None \<or> \<not> free r" using of_get [of r] by metis
qed

end
