(* ===== verification/Pool.thy ===== *)
theory Pool
  imports Kern
begin

text \<open>
  The core placement (\<^verbatim>\<open>kern/src/pool.rs\<close>): which physical cores a cage gets.  \<open>Places\<close> is the state of
  the lifecycle actor; every operation returns its result and the new state, because an error can
  come after part of the state has changed.  The heap behind the cage table is the parameter
  \<open>Alloc\<close>; the board's cores are the parameter \<open>Cores\<close>.
\<close>

definition MAX_GROUP_NAME :: nat where
  "MAX_GROUP_NAME = 256"

definition MAX_GROUPS :: nat where
  "MAX_GROUPS = 32"

definition MAX_GROUP_CORES :: nat where
  "MAX_GROUP_CORES = 64"

definition MAX_OS_GROUPS :: nat where
  "MAX_OS_GROUPS = 4"

type_synonym GroupName = "u8 list"

record Placement =
  group :: "GroupName option"
  pool_cores :: nat
  cores :: nat
  pclass :: "CoreClass option"
  pprefer :: "CoreClass option"

definition HOP_GROUP :: GroupName where
  "HOP_GROUP = [0x68, 0x6f, 0x70]"

definition SYSTEM_GROUP :: GroupName where
  "SYSTEM_GROUP = [0x73, 0x79, 0x73, 0x74, 0x65, 0x6d]"

definition group_name :: "u8 list \<Rightarrow> KernError + GroupName" where
  "group_name name =
     (case push_all (blist_push MAX_GROUP_NAME) [] name of
        Inl _ \<Rightarrow> Inl (TooLarge (length name) MAX_GROUP_NAME)
      | Inr g \<Rightarrow> Inr g)"

section \<open>The group of Hop\<close>

text \<open>The two statics of the boot-time choice: a row of bytes and its length.\<close>

record HopGroup =
  hop_bytes :: "u8 list"
  hop_len :: nat

definition HopGroup_init :: HopGroup where
  "HopGroup_init = \<lparr>hop_bytes = replicate MAX_GROUP_NAME 0, hop_len = 0\<rparr>"

definition set_hop_group :: "HopGroup \<Rightarrow> u8 list \<Rightarrow> KernError + HopGroup" where
  "set_hop_group h name =
     rbind (group_name name) (\<lambda>_.
       Inr (h\<lparr>hop_bytes := take (length (hop_bytes h)) name @ drop (length name) (hop_bytes h),
              hop_len := length name\<rparr>))"

definition hop_group :: "HopGroup \<Rightarrow> GroupName" where
  "hop_group h = (if hop_len h = 0 then HOP_GROUP else []) @ take (hop_len h) (hop_bytes h)"

definition Placement_hop :: "HopGroup \<Rightarrow> Placement" where
  "Placement_hop h =
     \<lparr>group = Some (hop_group h), pool_cores = 1, cores = 1, pclass = None, pprefer = None\<rparr>"

section \<open>The state\<close>

record Group =
  gname :: GroupName
  gcores :: "Core list"

record CagePlace =
  primary :: Core
  span :: nat
  cgroup :: "nat option"

record Places =
  os_groups :: "GroupName list"
  groups :: "Group option list"
  core_group :: "nat option list"
  core_apps :: "nat list"
  cages :: "CagePlace SlotVec"

text \<open>The heap behind \<^verbatim>\<open>SlotVec<CagePlace>\<close>: whether it can grow, and the size of an entry.\<close>

record Alloc =
  can_grow :: "nat \<Rightarrow> bool"
  entry_bytes :: nat

type_synonym 'a pool_res = "(KernError + 'a) \<times> Places"

definition Places_new :: Places where
  "Places_new = \<lparr>os_groups = [], groups = replicate MAX_GROUPS None,
     core_group = replicate (CORE_CAP + 1) None, core_apps = replicate (CORE_CAP + 1) 0,
     cages = SlotVec_new\<rparr>"

definition Places_os_group :: "Places \<Rightarrow> u8 list \<Rightarrow> bool" where
  "Places_os_group pl name \<longleftrightarrow> list_ex (\<lambda>g. g = name) (os_groups pl)"

definition Places_share_os_core :: "Places \<Rightarrow> u8 list \<Rightarrow> unit pool_res" where
  "Places_share_os_core pl name =
     (if Places_os_group pl name then (Inr (), pl)
      else case group_name name of
        Inl e \<Rightarrow> (Inl e, pl)
      | Inr g \<Rightarrow> (case blist_push MAX_OS_GROUPS (os_groups pl) g of
          Inl _ \<Rightarrow> (Inl (TableFull MAX_OS_GROUPS), pl)
        | Inr gs \<Rightarrow> (Inr (), pl\<lparr>os_groups := gs\<rparr>)))"

definition Places_is_app_core :: "Cores \<Rightarrow> nat \<Rightarrow> bool" where
  "Places_is_app_core cs c \<longleftrightarrow> 1 \<le> c \<and> c \<le> min (app_cores cs) CORE_CAP"

definition Places_class_ok :: "Cores \<Rightarrow> nat \<Rightarrow> CoreClass option \<Rightarrow> bool" where
  "Places_class_ok cs c cl =
     (case (cl, Core_new c) of
        (None, _) \<Rightarrow> True
      | (Some want, Some k) \<Rightarrow> core_class cs k = Some want
      | (Some _, None) \<Rightarrow> False)"

definition Places_core_free :: "Places \<Rightarrow> nat \<Rightarrow> bool" where
  "Places_core_free pl c \<longleftrightarrow>
     (case list_get (core_group pl) c of Some None \<Rightarrow> True | _ \<Rightarrow> False) \<and>
     list_get (core_apps pl) c = Some 0"

definition Places_run_free :: "Cores \<Rightarrow> Places \<Rightarrow> nat \<Rightarrow> nat \<Rightarrow> CoreClass option \<Rightarrow> bool" where
  "Places_run_free cs pl p n cl \<longleftrightarrow>
     list_all (\<lambda>c. Places_is_app_core cs c \<and> Places_core_free pl c \<and> Places_class_ok cs c cl)
       [p..<p + n]"

text \<open>The loop over a core run: an in-range cell is updated, the rest is skipped.\<close>

definition on_run :: "(nat \<Rightarrow> nat) \<Rightarrow> nat \<Rightarrow> nat \<Rightarrow> nat list \<Rightarrow> nat list" where
  "on_run f p n xs = fold (\<lambda>c ys. if c < length ys then ys[c := f (ys ! c)] else ys) [p..<p + n] xs"

text \<open>\<^verbatim>\<open>u16::saturating_add(1)\<close> and \<^verbatim>\<open>saturating_sub(1)\<close>.\<close>

definition inc16 :: "nat \<Rightarrow> nat" where
  "inc16 n = min (n + 1) 0xFFFF"

definition dec16 :: "nat \<Rightarrow> nat" where
  "dec16 n = n - 1"

definition Places_reserve ::
  "Alloc \<Rightarrow> Places \<Rightarrow> Slot \<Rightarrow> Core \<Rightarrow> nat \<Rightarrow> nat option \<Rightarrow> Core pool_res" where
  "Places_reserve al pl slot p n g =
     (case SlotVec_insert (can_grow al) (entry_bytes al) (cages pl) slot
             \<lparr>primary = p, span = n, cgroup = g\<rparr> of
        Inl e \<Rightarrow> (Inl e, pl)
      | Inr (_, cs) \<Rightarrow>
          (Inr p, pl\<lparr>cages := cs, core_apps := on_run inc16 p n (core_apps pl)\<rparr>))"

definition Places_group_id :: "Places \<Rightarrow> GroupName \<Rightarrow> nat option" where
  "Places_group_id pl name =
     position (\<lambda>g. case g of None \<Rightarrow> False | Some g \<Rightarrow> gname g = name) (groups pl)"

definition Places_place_os ::
  "Alloc \<Rightarrow> Cores \<Rightarrow> Places \<Rightarrow> Slot \<Rightarrow> GroupName \<Rightarrow> Placement \<Rightarrow> Core pool_res" where
  "Places_place_os al cs pl slot name spec =
     (if max (cores spec) 1 > 1 \<or> max (pool_cores spec) 1 > 1
      then (Inl (PoolSize 1 (max (cores spec) (pool_cores spec))), pl)
      else if pclass spec \<noteq> None \<and> core_class cs Core_OS \<noteq> pclass spec
      then (Inl (ClassMismatch 0), pl)
      else case Places_group_id pl name of
        Some g \<Rightarrow> Places_reserve al pl slot Core_OS 1 (Some g)
      | None \<Rightarrow>
          (case position (\<lambda>g. g = None) (groups pl) of
             None \<Rightarrow> (Inl (TableFull MAX_GROUPS), pl)
           | Some gid \<Rightarrow>
               Places_reserve al
                 (pl\<lparr>groups := (groups pl)[gid := Some \<lparr>gname = name, gcores = [Core_OS]\<rparr>]\<rparr>)
                 slot Core_OS 1 (Some gid)))"

text \<open>One pass of \<^verbatim>\<open>new_group\<close> over the app cores, for one wanted class.\<close>

fun scan_cores ::
  "Cores \<Rightarrow> Places \<Rightarrow> CoreClass option \<Rightarrow> nat \<Rightarrow> CoreClass option \<Rightarrow> nat list \<Rightarrow> Core list \<Rightarrow>
     KernError + Core list" where
  "scan_cores cs pl cl n want [] ms = Inr ms"
| "scan_cores cs pl cl n want (c # rest) ms =
     (if length ms = n then Inr ms
      else if Places_core_free pl c \<and> Places_class_ok cs c cl \<and> Places_class_ok cs c want \<and>
              \<not> list_ex (\<lambda>m. m = c) ms \<and> Core_new c \<noteq> None
      then (case blist_push MAX_GROUP_CORES ms c of
              Inl _ \<Rightarrow> Inl (TableFull MAX_GROUP_CORES)
            | Inr ms' \<Rightarrow> scan_cores cs pl cl n want rest ms')
      else scan_cores cs pl cl n want rest ms)"

definition claim_cores :: "nat \<Rightarrow> Core list \<Rightarrow> nat option list \<Rightarrow> nat option list" where
  "claim_cores gid ms cg =
     fold (\<lambda>c ys. if c < length ys then ys[c := (if gid < 256 then Some gid else None)] else ys) ms cg"

definition Places_new_group ::
  "Cores \<Rightarrow> Places \<Rightarrow> GroupName \<Rightarrow> nat \<Rightarrow> Placement \<Rightarrow> nat pool_res" where
  "Places_new_group cs pl name n spec =
     (case position (\<lambda>g. g = None) (groups pl) of
        None \<Rightarrow> (Inl (TableFull MAX_GROUPS), pl)
      | Some gid \<Rightarrow>
          (let all = [1..<min (app_cores cs) CORE_CAP + 1] in
           case rbind (scan_cores cs pl (pclass spec) n (pprefer spec) all [])
                  (scan_cores cs pl (pclass spec) n None all) of
             Inl e \<Rightarrow> (Inl e, pl)
           | Inr ms \<Rightarrow>
               if length ms < n then (Inl (NoCores n), pl)
               else (Inr gid, pl\<lparr>core_group := claim_cores gid ms (core_group pl),
                                 groups := (groups pl)[gid := Some \<lparr>gname = name, gcores = ms\<rparr>]\<rparr>)))"

definition Places_place_dedicated ::
  "Alloc \<Rightarrow> Cores \<Rightarrow> Places \<Rightarrow> Slot \<Rightarrow> nat \<Rightarrow> CoreClass option \<Rightarrow> Core pool_res" where
  "Places_place_dedicated al cs pl slot n cl =
     (case find (\<lambda>c. Places_run_free cs pl c n cl \<and> Core_new c \<noteq> None)
             [1..<min (app_cores cs) CORE_CAP + 1] of
        Some c \<Rightarrow> Places_reserve al pl slot c n None
      | None \<Rightarrow> (Inl (NoCores n), pl))"

text \<open>The load of a core, and the first least-loaded member of a pool.\<close>

definition core_load :: "Places \<Rightarrow> Core \<Rightarrow> nat" where
  "core_load pl c = (case list_get (core_apps pl) c of Some n \<Rightarrow> n | None \<Rightarrow> 0xFFFF)"

fun least_loaded :: "Places \<Rightarrow> Core option \<Rightarrow> Core list \<Rightarrow> Core option" where
  "least_loaded pl best [] = best"
| "least_loaded pl best (c # rest) =
     least_loaded pl
       (case best of None \<Rightarrow> Some c
        | Some b \<Rightarrow> if core_load pl c < core_load pl b then Some c else best) rest"

text \<open>The rest of \<^verbatim>\<open>place\<close> once the group id is known.\<close>

definition place_in_group ::
  "Alloc \<Rightarrow> Cores \<Rightarrow> Places \<Rightarrow> Slot \<Rightarrow> nat \<Rightarrow> nat \<Rightarrow> CoreClass option \<Rightarrow> Core pool_res" where
  "place_in_group al cs pl slot gid n cl =
     (case Option.bind (list_get (groups pl) gid) id of
        None \<Rightarrow> (Inl (TableFull MAX_GROUPS), pl)
      | Some g \<Rightarrow>
          if length (gcores g) \<noteq> n then (Inl (PoolSize (length (gcores g)) n), pl)
          else case find (\<lambda>c. \<not> Places_class_ok cs c cl) (gcores g) of
            Some bad \<Rightarrow> (Inl (ClassMismatch bad), pl)
          | None \<Rightarrow>
              (case least_loaded pl None (gcores g) of
                 None \<Rightarrow> (Inl (NoCores 1), pl)
               | Some c \<Rightarrow> Places_reserve al pl slot c 1 (Some gid)))"

definition Places_place ::
  "Alloc \<Rightarrow> Cores \<Rightarrow> Places \<Rightarrow> Slot \<Rightarrow> Placement \<Rightarrow> Core pool_res" where
  "Places_place al cs pl slot spec =
     (case SlotVec_get (cages pl) slot of
        Some p \<Rightarrow> (Inr (primary p), pl)
      | None \<Rightarrow>
          (let npool = max (pool_cores spec) 1; n = max (cores spec) 1 in
           case group spec of
             None \<Rightarrow> Places_place_dedicated al cs pl slot n (pclass spec)
           | Some name \<Rightarrow>
               if Places_os_group pl name then Places_place_os al cs pl slot name spec
               else if n > 1 then (Inl (PoolSize 1 n), pl)
               else case Places_group_id pl name of
                 Some gid \<Rightarrow> place_in_group al cs pl slot gid npool (pclass spec)
               | None \<Rightarrow>
                   (case Places_new_group cs pl name npool spec of
                      (Inl e, pl') \<Rightarrow> (Inl e, pl')
                    | (Inr gid, pl') \<Rightarrow> place_in_group al cs pl' slot gid npool (pclass spec))))"

definition Places_place_anywhere ::
  "Alloc \<Rightarrow> Cores \<Rightarrow> Places \<Rightarrow> Slot \<Rightarrow> Placement \<Rightarrow> (Core \<times> bool) pool_res" where
  "Places_place_anywhere al cs pl slot spec =
     (case Places_place al cs pl slot spec of
        (Inl (NoCores k), pl') \<Rightarrow>
          if group spec \<noteq> None \<or> max (cores spec) 1 > 1 \<or>
             (pclass spec \<noteq> None \<and> core_class cs Core_OS \<noteq> pclass spec) \<or>
             \<not> Places_os_group pl' SYSTEM_GROUP
          then (Inl (NoCores k), pl')
          else (case group_name SYSTEM_GROUP of
             Inl e \<Rightarrow> (Inl e, pl')
           | Inr sys \<Rightarrow>
               (case Places_place al cs pl' slot
                       \<lparr>group = Some sys, pool_cores = 1, cores = 1, pclass = pclass spec,
                        pprefer = None\<rparr> of
                  (Inl e, pl'') \<Rightarrow> (Inl e, pl'')
                | (Inr c, pl'') \<Rightarrow> (Inr (c, True), pl'')))
      | (Inl e, pl') \<Rightarrow> (Inl e, pl')
      | (Inr c, pl') \<Rightarrow> (Inr (c, False), pl'))"

definition free_cores :: "Core list \<Rightarrow> nat option list \<Rightarrow> nat option list" where
  "free_cores ms cg = fold (\<lambda>c ys. if c < length ys then ys[c := None] else ys) ms cg"

definition Places_release :: "Places \<Rightarrow> Slot \<Rightarrow> Places" where
  "Places_release pl slot =
     (case SlotVec_remove (cages pl) slot of
        (None, _) \<Rightarrow> pl\<lparr>cages := snd (SlotVec_remove (cages pl) slot)\<rparr>
      | (Some p, cs) \<Rightarrow>
          (let pl1 = pl\<lparr>cages := cs,
                        core_apps := on_run dec16 (primary p) (max (span p) 1) (core_apps pl)\<rparr> in
           case cgroup p of
             None \<Rightarrow> pl1
           | Some gid \<Rightarrow>
               (case Option.bind (list_get (groups pl1) gid) id of
                  None \<Rightarrow> pl1
                | Some g \<Rightarrow>
                    if list_all (\<lambda>c. case list_get (core_apps pl1) c of None \<Rightarrow> True | Some n \<Rightarrow> n = 0)
                         (gcores g)
                    then pl1\<lparr>groups := (groups pl1)[gid := None],
                             core_group := free_cores (gcores g) (core_group pl1)\<rparr>
                    else pl1)))"

definition Places_group_of :: "Places \<Rightarrow> Slot \<Rightarrow> (GroupName \<times> Core list) option" where
  "Places_group_of pl slot =
     Option.bind (SlotVec_get (cages pl) slot) (\<lambda>p.
     Option.bind (cgroup p) (\<lambda>gid.
     Option.bind (list_get (groups pl) gid) (\<lambda>og.
     map_option (\<lambda>g. (gname g, gcores g)) og)))"

text \<open>\<^verbatim>\<open>adopt\<close> claims the cores of a new group one by one, before the table check of the next.\<close>

fun adopt_members ::
  "nat \<Rightarrow> Core list \<Rightarrow> Core list \<Rightarrow> nat option list \<Rightarrow> (KernError + Core list) \<times> nat option list" where
  "adopt_members gid [] ms cg = (Inr ms, cg)"
| "adopt_members gid (c # rest) ms cg =
     (case blist_push MAX_GROUP_CORES ms c of
        Inl _ \<Rightarrow> (Inl (TableFull MAX_GROUP_CORES), cg)
      | Inr ms' \<Rightarrow> adopt_members gid rest ms' (claim_cores gid [c] cg))"

definition Places_adopt ::
  "Alloc \<Rightarrow> Places \<Rightarrow> Slot \<Rightarrow> Core \<Rightarrow> nat \<Rightarrow> (GroupName \<times> Core list) option \<Rightarrow> unit pool_res" where
  "Places_adopt al pl slot p n grp =
     (let reserve = (\<lambda>pl g. case Places_reserve al pl slot p n g of
                       (Inl e, pl') \<Rightarrow> (Inl e, pl') | (Inr _, pl') \<Rightarrow> (Inr (), pl')) in
      case grp of
        None \<Rightarrow> reserve pl None
      | Some (name, members) \<Rightarrow>
          (case Places_group_id pl name of
             Some g \<Rightarrow> reserve pl (Some g)
           | None \<Rightarrow>
               (case position (\<lambda>g. g = None) (groups pl) of
                  None \<Rightarrow> (Inl (TableFull MAX_GROUPS), pl)
                | Some gid \<Rightarrow>
                    (case adopt_members gid members [] (core_group pl) of
                       (Inl e, cg) \<Rightarrow> (Inl e, pl\<lparr>core_group := cg\<rparr>)
                     | (Inr ms, cg) \<Rightarrow>
                         reserve (pl\<lparr>core_group := cg,
                                    groups := (groups pl)[gid := Some \<lparr>gname = name, gcores = ms\<rparr>]\<rparr>)
                           (Some gid)))))"

end
