(* ===== verification/PoolInv.thy ===== *)
theory PoolInv
  imports Pool
begin

text \<open>
  What the core placement guarantees: the load counters are exact, a dedicated cage has its cores to
  itself, a pool core serves only its own group, and the OS core serves only groups that were allowed
  on it.  The invariant \<open>places_inv\<close> is proved for every operation of \<open>Places\<close> and lifted to every
  reachable state.
\<close>

section \<open>The loops\<close>

lemma on_run_length [simp]: "length (on_run f p n xs) = length xs"
proof -
  have "length (fold (\<lambda>c ys. if c < length ys then ys[c := f (ys ! c)] else ys) cs xs) = length xs"
    for cs by (induction cs arbitrary: xs) auto
  then show ?thesis by (simp add: on_run_def)
qed

lemma on_run_nth:
  "c < length xs \<Longrightarrow> on_run f p n xs ! c = (if p \<le> c \<and> c < p + n then f (xs ! c) else xs ! c)"
proof (induction n)
  case 0
  then show ?case by (simp add: on_run_def)
next
  case (Suc n)
  have "on_run f p (Suc n) xs =
      (let ys = on_run f p n xs in if p + n < length ys then ys[p + n := f (ys ! (p + n))] else ys)"
    by (simp add: on_run_def Let_def)
  with Suc show ?case by (auto simp: Let_def nth_list_update)
qed

lemma set_cells_length:
  "length (fold (\<lambda>c ys. if c < length ys then ys[c := v] else ys) ms xs) = length xs"
  by (induction ms arbitrary: xs) auto

lemma set_cells_nth:
  "c < length xs \<Longrightarrow>
     fold (\<lambda>c ys. if c < length ys then ys[c := v] else ys) ms xs ! c =
       (if c \<in> set ms then v else xs ! c)"
proof (induction ms arbitrary: xs)
  case (Cons m ms)
  from Cons.IH [of "if m < length xs then xs[m := v] else xs"] Cons.prems show ?case
    by (auto simp: nth_list_update)
qed simp

lemma claim_cores_simps [simp]:
  "length (claim_cores gid ms cg) = length cg"
  "gid < 256 \<Longrightarrow> c < length cg \<Longrightarrow>
     claim_cores gid ms cg ! c = (if c \<in> set ms then Some gid else cg ! c)"
  by (simp_all add: claim_cores_def set_cells_length set_cells_nth)

lemma free_cores_simps [simp]:
  "length (free_cores ms cg) = length cg"
  "c < length cg \<Longrightarrow> free_cores ms cg ! c = (if c \<in> set ms then None else cg ! c)"
  by (simp_all add: free_cores_def set_cells_length set_cells_nth)

lemma least_loaded_mem: "least_loaded pl b ms = Some c \<Longrightarrow> b = Some c \<or> c \<in> set ms"
  by (induction ms arbitrary: b) (auto split: option.splits if_splits)

lemma least_loaded_None: "least_loaded pl b ms = None \<longleftrightarrow> b = None \<and> ms = []"
  by (induction ms arbitrary: b) (auto split: option.splits if_splits)

lemma least_loaded_least:
  "least_loaded pl b ms = Some c \<Longrightarrow>
     (\<forall>m \<in> set ms. core_load pl c \<le> core_load pl m) \<and>
     (\<forall>x. b = Some x \<longrightarrow> core_load pl c \<le> core_load pl x)"
proof (induction ms arbitrary: b)
  case (Cons m ms)
  let ?b = "case b of None \<Rightarrow> Some m
            | Some x \<Rightarrow> if core_load pl m < core_load pl x then Some m else b"
  from Cons have "least_loaded pl ?b ms = Some c" by simp
  from Cons.IH [OF this] show ?case by (auto split: option.splits if_splits)
qed simp

section \<open>The invariant\<close>

definition covers :: "CagePlace \<Rightarrow> Core \<Rightarrow> bool" where
  "covers p c \<longleftrightarrow> primary p \<le> c \<and> c < primary p + span p"

lemma covers_new [simp]:
  "covers \<lparr>primary = p, span = n, cgroup = g\<rparr> c \<longleftrightarrow> p \<le> c \<and> c < p + n"
  by (simp add: covers_def)

lemma covers_ge: "covers q c \<Longrightarrow> primary q \<le> c"
  by (simp add: covers_def)

abbreviation cage_of :: "Places \<Rightarrow> Slot \<Rightarrow> CagePlace option" where
  "cage_of pl s \<equiv> SlotVec_get (cages pl) s"

abbreviation group_at :: "Places \<Rightarrow> nat \<Rightarrow> Group \<Rightarrow> bool" where
  "group_at pl gid g \<equiv> gid < length (groups pl) \<and> groups pl ! gid = Some g"

abbreviation cage_load :: "Places \<Rightarrow> Core \<Rightarrow> nat" where
  "cage_load pl c \<equiv> sv.count (cages pl) (\<lambda>p. covers p c)"

definition inv_shape :: "Places \<Rightarrow> bool" where
  "inv_shape pl \<longleftrightarrow> length (groups pl) = MAX_GROUPS \<and> length (core_group pl) = CORE_CAP + 1 \<and>
     length (core_apps pl) = CORE_CAP + 1"

definition inv_counts :: "Places \<Rightarrow> bool" where
  "inv_counts pl \<longleftrightarrow> (\<forall>c \<le> CORE_CAP. core_apps pl ! c = cage_load pl c)"

definition inv_groups :: "Places \<Rightarrow> bool" where
  "inv_groups pl \<longleftrightarrow> (\<forall>gid g. group_at pl gid g \<longrightarrow>
     (\<forall>c \<in> set (gcores g). c \<le> CORE_CAP \<and> (c \<noteq> Core_OS \<longrightarrow> core_group pl ! c = Some gid)))"

definition inv_owned :: "Places \<Rightarrow> bool" where
  "inv_owned pl \<longleftrightarrow> (\<forall>c gid. c \<le> CORE_CAP \<and> core_group pl ! c = Some gid \<longrightarrow>
     (\<exists>g. group_at pl gid g \<and> c \<in> set (gcores g)))"

definition inv_os :: "Places \<Rightarrow> bool" where
  "inv_os pl \<longleftrightarrow> (\<forall>gid g. group_at pl gid g \<longrightarrow>
     (Core_OS \<in> set (gcores g) \<longleftrightarrow> Places_os_group pl (gname g)) \<and>
     (Core_OS \<in> set (gcores g) \<longrightarrow> gcores g = [Core_OS]))"

definition inv_names :: "Places \<Rightarrow> bool" where
  "inv_names pl \<longleftrightarrow> (\<forall>i j g h. group_at pl i g \<and> group_at pl j h \<and> gname g = gname h \<longrightarrow> i = j)"

definition inv_members :: "Places \<Rightarrow> bool" where
  "inv_members pl \<longleftrightarrow> (\<forall>s p gid. cage_of pl s = Some p \<and> cgroup p = Some gid \<longrightarrow>
     span p = 1 \<and> (\<exists>g. group_at pl gid g \<and> primary p \<in> set (gcores g)))"

definition inv_dedicated :: "Places \<Rightarrow> bool" where
  "inv_dedicated pl \<longleftrightarrow> (\<forall>s p. cage_of pl s = Some p \<and> cgroup p = None \<longrightarrow>
     1 \<le> span p \<and> 1 \<le> primary p \<and> primary p + span p \<le> CORE_CAP + 1 \<and>
     (\<forall>c. covers p c \<longrightarrow> core_group pl ! c = None \<and> cage_load pl c = 1))"

lemmas inv_defs = inv_shape_def inv_counts_def inv_groups_def inv_owned_def inv_os_def
  inv_names_def inv_members_def inv_dedicated_def

definition places_inv :: "Places \<Rightarrow> bool" where
  "places_inv pl \<longleftrightarrow> inv_shape pl \<and> inv_counts pl \<and> inv_groups pl \<and> inv_owned pl \<and> inv_os pl \<and>
     inv_names pl \<and> inv_members pl \<and> inv_dedicated pl"

lemma places_invD:
  assumes "places_inv pl"
  shows "inv_shape pl" "inv_counts pl" "inv_groups pl" "inv_owned pl" "inv_os pl" "inv_names pl"
    "inv_members pl" "inv_dedicated pl"
  using assms by (simp_all add: places_inv_def)

lemma dedicatedD:
  assumes "inv_dedicated pl" "cage_of pl s = Some q" "cgroup q = None"
  shows "1 \<le> span q" "1 \<le> primary q" "primary q + span q \<le> CORE_CAP + 1"
    "covers q c \<Longrightarrow> core_group pl ! c = None" "covers q c \<Longrightarrow> cage_load pl c = 1"
    "covers q c \<Longrightarrow> c \<noteq> Core_OS"
proof -
  note d = assms(1) [unfolded inv_dedicated_def, rule_format, of s q] 
  show "1 \<le> span q" "1 \<le> primary q" "primary q + span q \<le> CORE_CAP + 1"
    "covers q c \<Longrightarrow> core_group pl ! c = None" "covers q c \<Longrightarrow> cage_load pl c = 1"
    using d assms(2,3) by blast+
  show "covers q c \<Longrightarrow> c \<noteq> Core_OS"
    using covers_ge [of q c] \<open>1 \<le> primary q\<close> by (simp add: Core_OS_def)
qed

lemma inv_dedicatedI:
  assumes "\<And>s q. cage_of pl s = Some q \<Longrightarrow> cgroup q = None \<Longrightarrow>
      1 \<le> span q \<and> 1 \<le> primary q \<and> primary q + span q \<le> CORE_CAP + 1"
    and "\<And>s q c. cage_of pl s = Some q \<Longrightarrow> cgroup q = None \<Longrightarrow> covers q c \<Longrightarrow>
      core_group pl ! c = None \<and> cage_load pl c = 1"
  shows "inv_dedicated pl"
  unfolding inv_dedicated_def using assms by blast

lemma core_free_iff:
  assumes "places_inv pl" "c \<le> CORE_CAP"
  shows "Places_core_free pl c \<longleftrightarrow> core_group pl ! c = None \<and> cage_load pl c = 0"
  using assms
  by (auto simp: Places_core_free_def places_inv_def inv_shape_def inv_counts_def list_get_def
      split: option.splits)

lemma group_id_Some:
  "Places_group_id pl name = Some gid \<Longrightarrow> \<exists>g. group_at pl gid g \<and> gname g = name"
  by (auto simp: Places_group_id_def dest!: position_eq_SomeD split: option.splits)

lemma group_id_None:
  "Places_group_id pl name = None \<Longrightarrow> group_at pl gid g \<Longrightarrow> gname g \<noteq> name"
  by (force simp: Places_group_id_def position_eq_None in_set_conv_nth split: option.splits)

lemma free_gid:
  "position (\<lambda>g. g = None) (groups pl) = Some gid \<Longrightarrow> gid < length (groups pl) \<and> groups pl ! gid = None"
  by (auto dest: position_eq_SomeD)

lemma new_inv: "places_inv Places_new"
proof -
  have n: "SlotVec_get (SlotVec_new :: CagePlace SlotVec) s = None" for s :: Slot
    by (simp add: SlotVec_new_def SlotVec_get_def list_get_def)
  then have "sv.count (SlotVec_new :: CagePlace SlotVec) P = 0" for P
    by (simp add: sv.count_eq_0)
  with n show ?thesis
    by (auto simp: places_inv_def inv_defs Places_new_def nth_replicate simp del: replicate.simps)
qed

section \<open>Reserving\<close>

text \<open>What only reads the groups does not change with the cages and the counters.\<close>

lemma places_inv_cages:
  assumes "places_inv pl" "length xs = length (core_apps pl)"
    and "inv_counts (pl\<lparr>cages := cs, core_apps := xs\<rparr>)"
    and "inv_members (pl\<lparr>cages := cs, core_apps := xs\<rparr>)"
    and "inv_dedicated (pl\<lparr>cages := cs, core_apps := xs\<rparr>)"
  shows "places_inv (pl\<lparr>cages := cs, core_apps := xs\<rparr>)"
proof -
  let ?pl = "pl\<lparr>cages := cs, core_apps := xs\<rparr>"
  note D = places_invD [OF assms(1)]
  have "inv_shape ?pl" using D(1) assms(2) by (simp add: inv_shape_def)
  moreover have "inv_groups ?pl" using D(3) by (simp add: inv_groups_def)
  moreover have "inv_owned ?pl" using D(4) by (simp add: inv_owned_def)
  moreover have "inv_os ?pl" using D(5) by (simp add: inv_os_def Places_os_group_def)
  moreover have "inv_names ?pl" using D(6) by (simp add: inv_names_def)
  ultimately show ?thesis using assms(3-5) unfolding places_inv_def by blast
qed

lemma inc16_load: "inc16 (cage_load pl c) = cage_load pl c + 1"
  using sv.count_bound [of "cages pl" "\<lambda>p. covers p c"] by (simp add: inc16_def SLOT_MAX_def)

lemma reserve_cases:
  assumes "cage_of pl slot = None"
  obtains (fail) n where "Places_reserve al pl slot p n1 g = (Inl (OutOfMemory n), pl)"
  | (done1) cs where "Places_reserve al pl slot p n1 g =
        (Inr p, pl\<lparr>cages := cs, core_apps := on_run inc16 p n1 (core_apps pl)\<rparr>)"
      "\<And>r. SlotVec_get cs r =
         (if r = slot then Some \<lparr>primary = p, span = n1, cgroup = g\<rparr> else cage_of pl r)"
      "\<And>P. sv.count cs P = sv.count (cages pl) P +
         (if P \<lparr>primary = p, span = n1, cgroup = g\<rparr> then 1 else 0)"
proof (cases "SlotVec_insert (can_grow al) (entry_bytes al) (cages pl) slot
    \<lparr>primary = p, span = n1, cgroup = g\<rparr>")
  case (Inl e)
  then have "\<exists>n. e = OutOfMemory n"
    using SlotVec_insert_cases [of "can_grow al" "entry_bytes al" "cages pl" slot
        "\<lparr>primary = p, span = n1, cgroup = g\<rparr>"] by auto
  with Inl fail show ?thesis by (auto simp: Places_reserve_def)
next
  case (Inr y)
  obtain old cs where y: "y = (old, cs)" by fastforce
  note ins = Inr [unfolded y]
  show ?thesis
    by (rule done1 [of cs])
      (simp_all add: Places_reserve_def ins sv.get_put [OF ins] sv.count_put [OF ins assms])
qed

text \<open>A new member of a group: the group exists and the core is one of its pool.\<close>

lemma reserve_member_inv:
  assumes inv: "places_inv pl" and none: "cage_of pl slot = None"
    and g: "group_at pl gid g" "p \<in> set (gcores g)"
  shows "places_inv (snd (Places_reserve al pl slot p 1 (Some gid)))"
  using none
proof (cases rule: reserve_cases [where al = al and p = p and ?n1.0 = 1 and g = "Some gid"])
  case (fail n)
  with inv show ?thesis by simp
next
  case (done1 cs)
  let ?q = "\<lparr>primary = p, span = 1, cgroup = Some gid\<rparr> :: CagePlace"
  let ?pl = "pl\<lparr>cages := cs, core_apps := on_run inc16 p 1 (core_apps pl)\<rparr>"
  note D = places_invD [OF inv]
  have load: "sv.count cs (\<lambda>p. covers p c) = cage_load pl c + (if c = p then 1 else 0)" for c
  proof -
    have "(p \<le> c \<and> c < p + 1) = (c = p)" by linarith
    with done1(3) [of "\<lambda>p. covers p c"] show ?thesis by (simp only: covers_new)
  qed
  have "inv_counts ?pl"
    using D(1,2) by (auto simp: inv_counts_def inv_shape_def load on_run_nth inc16_load)
  moreover have "inv_members ?pl"
    using D(7) g done1(2) by (auto simp: inv_members_def)
  moreover have "inv_dedicated ?pl"
  proof (rule inv_dedicatedI)
    fix s q assume q: "cage_of ?pl s = Some q" "cgroup q = None"
    then have q': "cage_of pl s = Some q" using done1(2) [of s] by (auto split: if_splits)
    note d = dedicatedD [OF D(8) q' q(2)]
    show "1 \<le> span q \<and> 1 \<le> primary q \<and> primary q + span q \<le> CORE_CAP + 1"
      using d(1,2,3) by simp
    fix c assume c: "covers q c"
    have "p \<noteq> Core_OS \<longrightarrow> core_group pl ! p = Some gid"
      using D(3) g by (auto simp: inv_groups_def)
    then have "c \<noteq> p" using d(4,6) [OF c] by auto
    then show "core_group ?pl ! c = None \<and> cage_load ?pl c = 1"
      using d(4,5) [OF c] by (simp add: load)
  qed
  ultimately have "places_inv ?pl"
    by (rule places_inv_cages [OF inv on_run_length])
  with done1(1) show ?thesis by simp
qed

text \<open>A dedicated run: every core of it was free.\<close>

lemma reserve_run_inv:
  assumes inv: "places_inv pl" and none: "cage_of pl slot = None"
    and run: "1 \<le> n1" "1 \<le> p" "p + n1 \<le> CORE_CAP + 1"
      "\<And>c. p \<le> c \<Longrightarrow> c < p + n1 \<Longrightarrow> Places_core_free pl c"
  shows "places_inv (snd (Places_reserve al pl slot p n1 None))"
  using none
proof (cases rule: reserve_cases [where al = al and p = p and ?n1.0 = n1 and g = None])
  case (fail n)
  with inv show ?thesis by simp
next
  case (done1 cs)
  let ?q = "\<lparr>primary = p, span = n1, cgroup = None\<rparr> :: CagePlace"
  let ?pl = "pl\<lparr>cages := cs, core_apps := on_run inc16 p n1 (core_apps pl)\<rparr>"
  note D = places_invD [OF inv]
  have free: "core_group pl ! c = None" "cage_load pl c = 0" if "p \<le> c" "c < p + n1" for c
    using run(4) [OF that] core_free_iff [OF inv, of c] that run(3) by auto
  have load: "sv.count cs (\<lambda>p. covers p c) = cage_load pl c + (if p \<le> c \<and> c < p + n1 then 1 else 0)" for c
    using done1(3) [of "\<lambda>p. covers p c"] by (simp only: covers_new)
  have "inv_counts ?pl"
    using D(1,2) by (auto simp: inv_counts_def inv_shape_def load on_run_nth inc16_load)
  moreover have "inv_members ?pl"
    using D(7) done1(2) by (auto simp: inv_members_def)
  moreover have "inv_dedicated ?pl"
  proof (rule inv_dedicatedI)
    fix s q assume q: "cage_of ?pl s = Some q" "cgroup q = None"
    consider (new) "s = slot" "q = ?q" | (old) "cage_of pl s = Some q"
    proof (cases "s = slot")
      case True
      then have "q = ?q" using q(1) done1(2) [of s] by simp
      with True that(1) show ?thesis by blast
    next
      case False
      then have "cage_of pl s = Some q" using q(1) done1(2) [of s] by simp
      then show ?thesis by (rule that(2))
    qed
    note qc = this
    show "1 \<le> span q \<and> 1 \<le> primary q \<and> primary q + span q \<le> CORE_CAP + 1"
      using qc by cases (use run dedicatedD [OF D(8) _ q(2)] in auto)
    fix c assume c: "covers q c"
    from qc show "core_group ?pl ! c = None \<and> cage_load ?pl c = 1"
    proof cases
      case new
      with c free [of c] show ?thesis by (simp add: load)
    next
      case old
      note d = dedicatedD [OF D(8) old q(2)]
      have "\<not> (p \<le> c \<and> c < p + n1)" using free(2) [of c] d(5) [OF c] by auto
      then show ?thesis using d(4,5) [OF c] by (auto simp: load)
    qed
  qed
  ultimately have "places_inv ?pl"
    by (rule places_inv_cages [OF inv on_run_length])
  with done1(1) show ?thesis by simp
qed

section \<open>A new group\<close>

lemma add_group_inv:
  assumes inv: "places_inv pl"
    and gid: "gid < length (groups pl)" "groups pl ! gid = None"
    and fresh: "\<And>i h. group_at pl i h \<Longrightarrow> gname h \<noteq> name"
    and ms: "\<And>c. c \<in> set ms \<Longrightarrow> c \<le> CORE_CAP"
      "\<And>c. c \<in> set ms \<Longrightarrow> c \<noteq> Core_OS \<Longrightarrow> Places_core_free pl c"
    and os: "Core_OS \<in> set ms \<longleftrightarrow> Places_os_group pl name" "Core_OS \<in> set ms \<Longrightarrow> ms = [Core_OS]"
    and cg: "length cg = length (core_group pl)"
      "\<And>c. c \<le> CORE_CAP \<Longrightarrow> c \<noteq> Core_OS \<Longrightarrow>
         cg ! c = (if c \<in> set ms then Some gid else core_group pl ! c)"
      "cg ! Core_OS = core_group pl ! Core_OS \<or> Core_OS \<in> set ms \<and> cg ! Core_OS = Some gid"
  shows "places_inv (pl\<lparr>core_group := cg, groups := (groups pl)[gid := Some \<lparr>gname = name, gcores = ms\<rparr>]\<rparr>)"
    (is "places_inv ?pl")
proof -
  note D = places_invD [OF inv]
  let ?g = "\<lparr>gname = name, gcores = ms\<rparr> :: Group"
  have at: "group_at ?pl i h \<longleftrightarrow> (if i = gid then h = ?g else group_at pl i h)" for i h
    using gid by (auto simp: nth_list_update)
  have unowned: "core_group pl ! c \<noteq> Some i" "cage_load pl c = 0"
    if "c \<in> set ms" "c \<noteq> Core_OS" for c i
    using core_free_iff [OF inv ms(1)] ms(2) that by auto
  have "inv_shape ?pl" using D(1) cg(1) by (simp add: inv_shape_def)
  moreover have "inv_counts ?pl" using D(2) by (simp add: inv_counts_def)
  moreover have "inv_groups ?pl"
    unfolding inv_groups_def
  proof (intro allI impI ballI)
    fix i h c assume h: "group_at ?pl i h" and c: "c \<in> set (gcores h)"
    show "c \<le> CORE_CAP \<and> (c \<noteq> Core_OS \<longrightarrow> core_group ?pl ! c = Some i)"
    proof (cases "i = gid")
      case True
      then have "h = ?g" using h at by metis
      then show ?thesis using c ms(1) cg(2) True by simp
    next
      case False
      then have "group_at pl i h" using h at by metis
      then have "c \<le> CORE_CAP" "c \<noteq> Core_OS \<longrightarrow> core_group pl ! c = Some i"
        using D(3) c unfolding inv_groups_def by blast+
      then show ?thesis using cg(2) [of c] unowned(1) [of c i] by auto
    qed
  qed
  moreover have "inv_owned ?pl"
    unfolding inv_owned_def
  proof (intro allI impI)
    fix c i assume a: "c \<le> CORE_CAP \<and> core_group ?pl ! c = Some i"
    show "\<exists>h. group_at ?pl i h \<and> c \<in> set (gcores h)"
    proof (cases "c \<in> set ms \<and> cg ! c = Some gid")
      case True
      then have "i = gid" using a by simp
      then show ?thesis using True at by (intro exI [of _ ?g]) simp
    next
      case False
      then have "core_group pl ! c = Some i"
        using a cg(2) [of c] cg(3) by (cases "c = Core_OS") (auto split: if_splits)
      then obtain h where "group_at pl i h" "c \<in> set (gcores h)"
        using D(4) a unfolding inv_owned_def by blast
      moreover then have "i \<noteq> gid" using gid by auto
      ultimately show ?thesis using at by auto
    qed
  qed
  moreover have "inv_os ?pl"
    unfolding inv_os_def
  proof (intro allI impI)
    fix i h assume h: "group_at ?pl i h"
    have same: "Places_os_group ?pl x = Places_os_group pl x" for x by (simp add: Places_os_group_def)
    show "(Core_OS \<in> set (gcores h) \<longleftrightarrow> Places_os_group ?pl (gname h)) \<and>
        (Core_OS \<in> set (gcores h) \<longrightarrow> gcores h = [Core_OS])"
    proof (cases "i = gid")
      case True
      then have "h = ?g" using h at by metis
      then show ?thesis using os same by simp
    next
      case False
      then have "group_at pl i h" using h at by metis
      then show ?thesis using D(5) same unfolding inv_os_def by simp
    qed
  qed
  moreover have "inv_names ?pl"
    unfolding inv_names_def
  proof (intro allI impI)
    fix i j g h assume a: "group_at ?pl i g \<and> group_at ?pl j h \<and> gname g = gname h"
    show "i = j"
    proof (cases "i = gid \<or> j = gid")
      case True
      then show ?thesis using a at fresh by (metis Group.select_convs(1))
    next
      case False
      then have "group_at pl i g" "group_at pl j h" using a at by metis+
      then show ?thesis using a D(6) unfolding inv_names_def by blast
    qed
  qed
  moreover have "inv_members ?pl"
    unfolding inv_members_def
  proof (intro allI impI)
    fix s p i assume a: "cage_of ?pl s = Some p \<and> cgroup p = Some i"
    then obtain h where "span p = 1" "group_at pl i h" "primary p \<in> set (gcores h)"
      using D(7) unfolding inv_members_def by (simp, blast)
    moreover then have "i \<noteq> gid" using gid by auto
    ultimately show "span p = 1 \<and> (\<exists>h. group_at ?pl i h \<and> primary p \<in> set (gcores h))"
      using at by auto
  qed
  moreover have "inv_dedicated ?pl"
  proof (rule inv_dedicatedI)
    fix s q assume q: "cage_of ?pl s = Some q" "cgroup q = None"
    then have q': "cage_of pl s = Some q" by simp
    note d = dedicatedD [OF D(8) q' q(2)]
    show "1 \<le> span q \<and> 1 \<le> primary q \<and> primary q + span q \<le> CORE_CAP + 1"
      using d(1,2,3) by simp
    fix c assume c: "covers q c"
    have "c \<le> CORE_CAP" using c d(3) by (simp add: covers_def)
    moreover have "\<not> (c \<in> set ms \<and> c \<noteq> Core_OS)" using unowned(2) [of c] d(5) [OF c] by auto
    ultimately show "core_group ?pl ! c = None \<and> cage_load ?pl c = 1"
      using d(4,5,6) [OF c] cg(2) by simp
  qed
  ultimately show ?thesis unfolding places_inv_def by blast
qed

lemma scan_cores_members:
  assumes "scan_cores cs pl cl n want todo ms = Inr ms'" "length ms \<le> n"
  shows "length ms' \<le> n \<and>
    (\<forall>c \<in> set ms'. c \<in> set ms \<or> (Places_core_free pl c \<and> 1 \<le> c \<and> c \<le> CORE_CAP \<and> c \<in> set todo))"
  using assms
proof (induction todo arbitrary: ms)
  case (Cons c todo)
  show ?case
  proof (cases "length ms = n")
    case True
    with Cons.prems show ?thesis by simp
  next
    case False
    note ne = this
    show ?thesis
    proof (cases "Places_core_free pl c \<and> Places_class_ok cs c cl \<and> Places_class_ok cs c want \<and>
              \<not> list_ex (\<lambda>m. m = c) ms \<and> Core_new c \<noteq> None")
      case True
      with Cons.prems ne have "scan_cores cs pl cl n want todo (ms @ [c]) = Inr ms'"
        by (auto simp: blist_push_def split: if_splits)
      from Cons.IH [OF this] ne Cons.prems(2) True show ?thesis
        by (auto simp: Core_new_def split: if_splits)
    next
      case False
      with Cons.prems ne have "scan_cores cs pl cl n want todo ms = Inr ms'"
        by (simp only: scan_cores.simps if_False)
      from Cons.IH [OF this Cons.prems(2)] show ?thesis by auto
    qed
  qed
qed simp

lemma new_group_inv:
  assumes inv: "places_inv pl" and none: "Places_group_id pl name = None"
    and nos: "\<not> Places_os_group pl name" and n: "1 \<le> n"
  shows "places_inv (snd (Places_new_group cs pl name n spec))"
    and "Places_new_group cs pl name n spec = (Inr gid, pl') \<Longrightarrow>
      cages pl' = cages pl \<and> (\<exists>g. group_at pl' gid g \<and> gname g = name \<and> length (gcores g) = n)"
proof -
  let ?all = "[1..<min (app_cores cs) CORE_CAP + 1]"
  let ?scan = "rbind (scan_cores cs pl (pclass spec) n (pprefer spec) ?all [])
                  (scan_cores cs pl (pclass spec) n None ?all)"
  have members: "length ms \<le> n \<and> (\<forall>c \<in> set ms. Places_core_free pl c \<and> 1 \<le> c \<and> c \<le> CORE_CAP)"
    if scan: "?scan = Inr ms" for ms
  proof -
    from scan obtain m1 where m1: "scan_cores cs pl (pclass spec) n (pprefer spec) ?all [] = Inr m1"
      "scan_cores cs pl (pclass spec) n None ?all m1 = Inr ms" by (auto simp: res_simps)
    from scan_cores_members [OF m1(1)] scan_cores_members [OF m1(2)] show ?thesis by auto
  qed
  have len: "length (groups pl) = 32" using places_invD(1) [OF inv] by (simp add: inv_shape_def MAX_GROUPS_def)
  have step: "places_inv (pl\<lparr>core_group := claim_cores i ms (core_group pl),
      groups := (groups pl)[i := Some \<lparr>gname = name, gcores = ms\<rparr>]\<rparr>)"
    if i: "position (\<lambda>g. g = None) (groups pl) = Some i" and scan: "?scan = Inr ms" for i ms
  proof (rule add_group_inv [OF inv])
    show "i < length (groups pl)" "groups pl ! i = None" using free_gid [OF i] by auto
    then have "i < 256" using len by simp
    show "gname h \<noteq> name" if "group_at pl j h" for j h by (rule group_id_None [OF none that])
    show "c \<le> CORE_CAP" "Places_core_free pl c" if "c \<in> set ms" for c
      using members [OF scan] that by auto
    show "Core_OS \<in> set ms \<longleftrightarrow> Places_os_group pl name"
      using members [OF scan] nos by (auto simp: Core_OS_def)
    show "ms = [Core_OS]" if "Core_OS \<in> set ms"
      using members [OF scan] that by (auto simp: Core_OS_def)
    show "length (claim_cores i ms (core_group pl)) = length (core_group pl)" by simp
    show "claim_cores i ms (core_group pl) ! c = (if c \<in> set ms then Some i else core_group pl ! c)"
      if "c \<le> CORE_CAP" for c
      using that \<open>i < 256\<close> places_invD(1) [OF inv] by (simp add: inv_shape_def)
    then show "claim_cores i ms (core_group pl) ! Core_OS = core_group pl ! Core_OS \<or>
        Core_OS \<in> set ms \<and> claim_cores i ms (core_group pl) ! Core_OS = Some i"
      by (simp add: Core_OS_def)
  qed
  let ?upd = "\<lambda>i ms. pl\<lparr>core_group := claim_cores i ms (core_group pl),
      groups := (groups pl)[i := Some \<lparr>gname = name, gcores = ms\<rparr>]\<rparr>"
  consider (err) e where "Places_new_group cs pl name n spec = (Inl e, pl)"
    | (ok) i ms where "position (\<lambda>g. g = None) (groups pl) = Some i" "?scan = Inr ms"
        "\<not> length ms < n" "Places_new_group cs pl name n spec = (Inr i, ?upd i ms)"
  proof (cases "position (\<lambda>g. g = None) (groups pl)")
    case None
    then show ?thesis using err by (simp add: Places_new_group_def)
  next
    case (Some i)
    note i = this
    show ?thesis
    proof (cases ?scan)
      case (Inl e)
      then show ?thesis using err i by (simp add: Places_new_group_def Let_def)
    next
      case (Inr ms)
      then show ?thesis using err ok i
        by (cases "length ms < n") (simp_all add: Places_new_group_def Let_def)
    qed
  qed
  note outcome = this
  show "places_inv (snd (Places_new_group cs pl name n spec))"
    using outcome by cases (simp_all only: snd_conv inv step)
  show "cages pl' = cages pl \<and> (\<exists>g. group_at pl' gid g \<and> gname g = name \<and> length (gcores g) = n)"
    if new: "Places_new_group cs pl name n spec = (Inr gid, pl')"
    using outcome
  proof cases
    case (err e)
    with new show ?thesis by simp
  next
    case (ok i ms)
    have "(Inr gid :: KernError + nat, pl') = (Inr i, ?upd i ms)"
      by (rule trans [OF new [symmetric] ok(4)])
    then have i: "gid = i" and pl': "pl' = ?upd i ms" by blast+
    have "length ms = n" using members [OF ok(2)] ok(3) by simp
    then show ?thesis
      using free_gid [OF ok(1)]
      by (intro conjI exI [of _ "\<lparr>gname = name, gcores = ms\<rparr>"]) (simp_all add: i pl')
  qed
qed

section \<open>The operations keep the invariant\<close>

lemma share_os_core_inv:
  assumes inv: "places_inv pl" and no: "Places_group_id pl name = None"
  shows "places_inv (snd (Places_share_os_core pl name))"
proof -
  note D = places_invD [OF inv]
  have step: "places_inv (pl\<lparr>os_groups := os_groups pl @ [name]\<rparr>)" (is "places_inv ?pl")
  proof -
    have "inv_os ?pl"
      unfolding inv_os_def
    proof (intro allI impI)
      fix i h assume "group_at ?pl i h"
      then have h: "group_at pl i h" by simp
      have "gname h \<noteq> name" by (rule group_id_None [OF no h])
      moreover have "(Core_OS \<in> set (gcores h) \<longleftrightarrow> Places_os_group pl (gname h)) \<and>
          (Core_OS \<in> set (gcores h) \<longrightarrow> gcores h = [Core_OS])"
        using D(5) h unfolding inv_os_def by blast
      ultimately show "(Core_OS \<in> set (gcores h) \<longleftrightarrow> Places_os_group ?pl (gname h)) \<and>
          (Core_OS \<in> set (gcores h) \<longrightarrow> gcores h = [Core_OS])"
        by (auto simp: Places_os_group_def)
    qed
    moreover have "inv_shape ?pl" using D(1) by (simp add: inv_shape_def)
    moreover have "inv_counts ?pl" using D(2) by (simp add: inv_counts_def)
    moreover have "inv_groups ?pl" using D(3) by (simp add: inv_groups_def)
    moreover have "inv_owned ?pl" using D(4) by (simp add: inv_owned_def)
    moreover have "inv_names ?pl" using D(6) by (simp add: inv_names_def)
    moreover have "inv_members ?pl" using D(7) by (auto simp: inv_members_def)
    moreover have "inv_dedicated ?pl" using D(8) by (auto simp: inv_dedicated_def)
    ultimately show ?thesis unfolding places_inv_def by blast
  qed
  have "group_name name = Inr g \<Longrightarrow> g = name" for g
    using blist.push_all_cases [of "[]" MAX_GROUP_NAME name]
    by (auto simp: group_name_def split: sum.splits)
  note name = this
  show ?thesis
  proof (cases "group_name name")
    case (Inl e)
    with inv show ?thesis by (simp add: Places_share_os_core_def)
  next
    case (Inr g)
    with name have "group_name name = Inr name" by simp
    with inv step show ?thesis
      by (simp add: Places_share_os_core_def blist_push_def)
  qed
qed

lemma place_os_inv:
  assumes inv: "places_inv pl" and none: "cage_of pl slot = None" and os: "Places_os_group pl name"
  shows "places_inv (snd (Places_place_os al cs pl slot name spec))"
proof (cases "Places_group_id pl name")
  case (Some gid)
  then obtain g where g: "group_at pl gid g" "gname g = name" using group_id_Some by blast
  then have "Core_OS \<in> set (gcores g)"
    using places_invD(5) [OF inv] os unfolding inv_os_def by blast
  from reserve_member_inv [OF inv none g(1) this] inv Some show ?thesis
    by (simp add: Places_place_os_def)
next
  case None
  show ?thesis
  proof (cases "position (\<lambda>g. g = None) (groups pl)")
    case None
    with inv \<open>Places_group_id pl name = None\<close> show ?thesis by (simp add: Places_place_os_def)
  next
    case (Some gid)
    let ?g = "\<lparr>gname = name, gcores = [Core_OS]\<rparr> :: Group"
    let ?pl = "pl\<lparr>core_group := core_group pl, groups := (groups pl)[gid := Some ?g]\<rparr>"
    note gid = free_gid [OF Some]
    have p: "places_inv ?pl"
    proof (rule add_group_inv [OF inv])
      show "gid < length (groups pl)" "groups pl ! gid = None" using gid by auto
      show "gname h \<noteq> name" if "group_at pl j h" for j h by (rule group_id_None [OF None that])
    qed (use os in \<open>auto simp: Core_OS_def\<close>)
    have "places_inv (snd (Places_reserve al ?pl slot Core_OS 1 (Some gid)))"
      by (rule reserve_member_inv [OF p, of slot gid ?g]) (use none gid in simp_all)
    with inv None Some show ?thesis by (simp add: Places_place_os_def)
  qed
qed

lemma place_dedicated_inv:
  assumes inv: "places_inv pl" and none: "cage_of pl slot = None" and n: "1 \<le> n"
  shows "places_inv (snd (Places_place_dedicated al cs pl slot n cl))"
proof (cases "find (\<lambda>c. Places_run_free cs pl c n cl \<and> Core_new c \<noteq> None)
             [1..<min (app_cores cs) CORE_CAP + 1]")
  case None
  with inv show ?thesis by (simp add: Places_place_dedicated_def)
next
  case (Some p)
  from find_upt_least(1) [OF Some] have run: "Places_run_free cs pl p n cl" and p: "1 \<le> p"
    by (auto simp: Core_new_def split: if_splits)
  have all: "Places_is_app_core cs c" "Places_core_free pl c" if "p \<le> c" "c < p + n" for c
    using run that by (auto simp: Places_run_free_def list_all_iff)
  have "p + n - 1 \<le> CORE_CAP"
    using all(1) [of "p + n - 1"] n by (simp add: Places_is_app_core_def)
  then have "p + n \<le> CORE_CAP + 1" by linarith
  from reserve_run_inv [OF inv none n p this all(2)] Some show ?thesis
    by (simp add: Places_place_dedicated_def)
qed

lemma place_in_group_inv:
  assumes inv: "places_inv pl" and none: "cage_of pl slot = None"
  shows "places_inv (snd (place_in_group al cs pl slot gid n cl))"
proof (cases "Option.bind (list_get (groups pl) gid) id")
  case None
  with inv show ?thesis by (simp add: place_in_group_def)
next
  case (Some g)
  then have g: "group_at pl gid g" by (auto simp: list_get_def split: if_splits)
  show ?thesis
  proof (cases "least_loaded pl None (gcores g)")
    case None
    with inv Some show ?thesis by (auto simp: place_in_group_def split: option.splits)
  next
    case (Some c)
    then have "c \<in> set (gcores g)" using least_loaded_mem by fastforce
    from reserve_member_inv [OF inv none g this] have
      "places_inv (snd (Places_reserve al pl slot c 1 (Some gid)))" .
    with inv Some \<open>Option.bind (list_get (groups pl) gid) id = Some g\<close> show ?thesis
      by (auto simp: place_in_group_def split: option.splits)
  qed
qed

lemma place_inv:
  assumes inv: "places_inv pl"
  shows "places_inv (snd (Places_place al cs pl slot spec))"
proof (cases "cage_of pl slot")
  case (Some p)
  with inv show ?thesis by (simp add: Places_place_def)
next
  case None
  note none = this
  show ?thesis
  proof (cases "group spec")
    case None
    with none place_dedicated_inv [OF inv none, of "max (cores spec) 1"] show ?thesis
      by (simp add: Places_place_def Let_def)
  next
    case (Some name)
    note name = this
    consider (os) "Places_os_group pl name" | (smp) "\<not> Places_os_group pl name" "max (cores spec) 1 > 1"
      | (grp) "\<not> Places_os_group pl name" "\<not> max (cores spec) 1 > 1" by blast
    then show ?thesis
    proof cases
      case os
      with none name place_os_inv [OF inv none os] show ?thesis by (simp add: Places_place_def Let_def)
    next
      case smp
      then have "1 < cores spec" by simp
      with none name inv smp(1) show ?thesis
        by (simp add: Places_place_def Let_def less_max_iff_disj)
    next
      case grp
      let ?n = "max (pool_cores spec) 1"
      show ?thesis
      proof (cases "Places_group_id pl name")
        case (Some gid)
        with none name grp place_in_group_inv [OF inv none] show ?thesis
          by (simp add: Places_place_def Let_def)
      next
        case None
        obtain r pl' where new: "Places_new_group cs pl name ?n spec = (r, pl')" by fastforce
        have inv': "places_inv pl'"
          using new_group_inv(1) [OF inv None grp(1), of ?n cs spec] new by simp
        show ?thesis
        proof (cases r)
          case (Inl e)
          with none name grp None new inv' show ?thesis by (simp add: Places_place_def Let_def)
        next
          case (Inr gid)
          have "cages pl' = cages pl"
            using new_group_inv(2) [OF inv None grp(1), of ?n cs spec gid pl'] new Inr by simp
          then have "cage_of pl' slot = None" using none by simp
          from place_in_group_inv [OF inv' this] none name grp None new Inr show ?thesis
            by (simp add: Places_place_def Let_def)
        qed
      qed
    qed
  qed
qed

lemma place_anywhere_inv:
  assumes "places_inv pl"
  shows "places_inv (snd (Places_place_anywhere al cs pl slot spec))"
proof -
  have "places_inv (snd (Places_place al cs p slot s))" if "places_inv p" for p s
    by (rule place_inv [OF that])
  note this [OF assms, of spec] this
  then show ?thesis
    unfolding Places_place_anywhere_def
    by (auto split: prod.splits sum.splits KernError.splits) (metis snd_conv)+
qed

section \<open>Releasing\<close>

lemma drop_group_inv:
  assumes inv: "places_inv pl" and g: "group_at pl gid g"
    and idle: "\<And>c. c \<in> set (gcores g) \<Longrightarrow> cage_load pl c = 0"
  shows "places_inv (pl\<lparr>groups := (groups pl)[gid := None],
                        core_group := free_cores (gcores g) (core_group pl)\<rparr>)"
    (is "places_inv ?pl")
proof -
  note D = places_invD [OF inv]
  have at: "group_at ?pl i h \<longleftrightarrow> i \<noteq> gid \<and> group_at pl i h" for i h
    using g by (auto simp: nth_list_update)
  have cg: "core_group ?pl ! c = (if c \<in> set (gcores g) then None else core_group pl ! c)"
    if "c \<le> CORE_CAP" for c
    using D(1) that by (simp add: inv_shape_def)
  have "inv_shape ?pl" using D(1) by (simp add: inv_shape_def)
  moreover have "inv_counts ?pl" using D(2) by (simp add: inv_counts_def)
  moreover have "inv_groups ?pl"
    unfolding inv_groups_def
  proof (intro allI impI ballI)
    fix i h c assume h: "group_at ?pl i h" and c: "c \<in> set (gcores h)"
    then have h': "i \<noteq> gid" "group_at pl i h" using at by blast+
    have hc: "c \<le> CORE_CAP" "c \<noteq> Core_OS \<longrightarrow> core_group pl ! c = Some i"
      using D(3) h'(2) c unfolding inv_groups_def by blast+
    have "c \<in> set (gcores g) \<Longrightarrow> c \<noteq> Core_OS \<Longrightarrow> core_group pl ! c = Some gid"
      using D(3) g unfolding inv_groups_def by blast
    then show "c \<le> CORE_CAP \<and> (c \<noteq> Core_OS \<longrightarrow> core_group ?pl ! c = Some i)"
      using hc cg [OF hc(1)] h'(1) by auto
  qed
  moreover have "inv_owned ?pl"
    unfolding inv_owned_def
  proof (intro allI impI)
    fix c i assume a: "c \<le> CORE_CAP \<and> core_group ?pl ! c = Some i"
    then have c: "c \<notin> set (gcores g)" "core_group pl ! c = Some i"
      using cg [of c] by (auto split: if_splits)
    then obtain h where "group_at pl i h" "c \<in> set (gcores h)"
      using D(4) a unfolding inv_owned_def by blast
    moreover then have "i \<noteq> gid" using c(1) g by auto
    ultimately show "\<exists>h. group_at ?pl i h \<and> c \<in> set (gcores h)" using at by blast
  qed
  moreover have "inv_os ?pl"
    unfolding inv_os_def
  proof (intro allI impI)
    fix i h assume "group_at ?pl i h"
    then have "group_at pl i h" using at by blast
    moreover have "Places_os_group ?pl x = Places_os_group pl x" for x by (simp add: Places_os_group_def)
    ultimately show "(Core_OS \<in> set (gcores h) \<longleftrightarrow> Places_os_group ?pl (gname h)) \<and>
        (Core_OS \<in> set (gcores h) \<longrightarrow> gcores h = [Core_OS])"
      using D(5) unfolding inv_os_def by simp
  qed
  moreover have "inv_names ?pl"
    using D(6) at unfolding inv_names_def by blast
  moreover have "inv_members ?pl"
    unfolding inv_members_def
  proof (intro allI impI)
    fix s p i assume a: "cage_of ?pl s = Some p \<and> cgroup p = Some i"
    then obtain h where h: "span p = 1" "group_at pl i h" "primary p \<in> set (gcores h)"
      using D(7) unfolding inv_members_def by (simp, blast)
    have "0 < cage_load pl (primary p)"
      using sv.count_pos [of "cages pl" s p "\<lambda>q. covers q (primary p)"] a h(1) by (simp add: covers_def)
    then have "i \<noteq> gid" using idle h g by fastforce
    with h show "span p = 1 \<and> (\<exists>h. group_at ?pl i h \<and> primary p \<in> set (gcores h))"
      using at by blast
  qed
  moreover have "inv_dedicated ?pl"
  proof (rule inv_dedicatedI)
    fix s q assume q: "cage_of ?pl s = Some q" "cgroup q = None"
    then have q': "cage_of pl s = Some q" by simp
    note d = dedicatedD [OF D(8) q' q(2)]
    show "1 \<le> span q \<and> 1 \<le> primary q \<and> primary q + span q \<le> CORE_CAP + 1"
      using d(1,2,3) by simp
    fix c assume c: "covers q c"
    have "c \<le> CORE_CAP" using c d(3) by (simp add: covers_def)
    then show "core_group ?pl ! c = None \<and> cage_load ?pl c = 1"
      using d(4,5) [OF c] cg [of c] by simp
  qed
  ultimately show ?thesis unfolding places_inv_def by blast
qed

text \<open>The state after the cage has gone and before its group is looked at.\<close>

definition drop_cage :: "Places \<Rightarrow> Slot \<Rightarrow> CagePlace \<Rightarrow> Places" where
  "drop_cage pl slot p =
     pl\<lparr>cages := snd (SlotVec_remove (cages pl) slot),
        core_apps := on_run dec16 (primary p) (max (span p) 1) (core_apps pl)\<rparr>"

lemma span_pos:
  assumes "places_inv pl" "cage_of pl s = Some p"
  shows "1 \<le> span p"
proof (cases "cgroup p")
  case None
  then show ?thesis using dedicatedD(1) [OF places_invD(8) [OF assms(1)] assms(2)] by simp
next
  case (Some gid)
  then show ?thesis using places_invD(7) [OF assms(1)] assms(2) unfolding inv_members_def by fastforce
qed

lemma drop_cage_load:
  assumes "cage_of pl slot = Some p"
  shows "cage_load pl c = cage_load (drop_cage pl slot p) c + (if covers p c then 1 else 0)"
  using sv.count_take [OF assms, of "\<lambda>q. covers q c"] by (simp add: drop_cage_def)

lemma drop_cage_inv:
  assumes inv: "places_inv pl" and p: "cage_of pl slot = Some p"
  shows "places_inv (drop_cage pl slot p)"
proof -
  note D = places_invD [OF inv]
  let ?pl = "drop_cage pl slot p"
  have get: "cage_of ?pl r = (if r = slot then None else cage_of pl r)" for r
    by (simp add: drop_cage_def sv.get_take)
  note load = drop_cage_load [OF p]
  have cov: "covers p c \<longleftrightarrow> primary p \<le> c \<and> c < primary p + max (span p) 1" for c
    using span_pos [OF inv p] by (auto simp: covers_def max_def)
  have "inv_counts ?pl"
    unfolding inv_counts_def
  proof (intro allI impI)
    fix c assume c: "c \<le> CORE_CAP"
    then have "core_apps pl ! c = cage_load pl c" "c < length (core_apps pl)"
      using D(1,2) by (auto simp: inv_counts_def inv_shape_def)
    then show "core_apps ?pl ! c = cage_load ?pl c"
      using load [of c] cov [of c] by (simp add: drop_cage_def on_run_nth dec16_def split: if_splits)
  qed
  moreover have "inv_members ?pl"
    unfolding inv_members_def
  proof (intro allI impI)
    fix s q gid assume a: "cage_of ?pl s = Some q \<and> cgroup q = Some gid"
    then have "cage_of pl s = Some q" using get [of s] by (auto split: if_splits)
    then have "span q = 1 \<and> (\<exists>g. group_at pl gid g \<and> primary q \<in> set (gcores g))"
      using D(7) a unfolding inv_members_def by blast
    then show "span q = 1 \<and> (\<exists>g. group_at ?pl gid g \<and> primary q \<in> set (gcores g))"
      by (simp add: drop_cage_def)
  qed
  moreover have "inv_dedicated ?pl"
  proof (rule inv_dedicatedI)
    fix s q assume q: "cage_of ?pl s = Some q" "cgroup q = None"
    then have q': "cage_of pl s = Some q" "s \<noteq> slot" using get [of s] by (auto split: if_splits)
    note d = dedicatedD [OF D(8) q'(1) q(2)]
    show "1 \<le> span q \<and> 1 \<le> primary q \<and> primary q + span q \<le> CORE_CAP + 1"
      using d(1,2,3) by simp
    fix c assume c: "covers q c"
    have "\<not> covers p c"
      using sv.count_1_unique [OF d(5) [OF c] q'(1) c p] q'(2) by blast
    then show "core_group ?pl ! c = None \<and> cage_load ?pl c = 1"
      using d(4,5) [OF c] load [of c] by (simp add: drop_cage_def)
  qed
  ultimately show ?thesis
    using places_inv_cages [OF inv on_run_length] unfolding drop_cage_def by blast
qed

lemma release_none:
  assumes "cage_of pl slot = None"
  shows "Places_release pl slot = pl\<lparr>cages := snd (SlotVec_remove (cages pl) slot)\<rparr>"
proof -
  have "SlotVec_remove (cages pl) slot = (None, snd (SlotVec_remove (cages pl) slot))"
    using sv.take_old [of "cages pl" slot] assms by (metis prod.collapse)
  then show ?thesis unfolding Places_release_def by (metis (no_types, lifting) case_prod_conv option.case(1))
qed

lemma release_some:
  assumes "cage_of pl slot = Some p"
  shows "cgroup p = None \<Longrightarrow> Places_release pl slot = drop_cage pl slot p"
    and "cgroup p = Some gid \<Longrightarrow> group_at pl gid g \<Longrightarrow>
      Places_release pl slot =
        (if list_all (\<lambda>c. case list_get (core_apps (drop_cage pl slot p)) c of None \<Rightarrow> True | Some n \<Rightarrow> n = 0) (gcores g)
         then (drop_cage pl slot p)\<lparr>groups := (groups pl)[gid := None],
                core_group := free_cores (gcores g) (core_group pl)\<rparr>
         else drop_cage pl slot p)"
proof -
  have r: "SlotVec_remove (cages pl) slot = (Some p, snd (SlotVec_remove (cages pl) slot))"
    using sv.take_old [of "cages pl" slot] assms by (metis prod.collapse)
  have u: "Places_release pl slot =
      (case cgroup p of
         None \<Rightarrow> drop_cage pl slot p
       | Some gid \<Rightarrow>
           (case Option.bind (list_get (groups (drop_cage pl slot p)) gid) id of
              None \<Rightarrow> drop_cage pl slot p
            | Some g \<Rightarrow>
                if list_all (\<lambda>c. case list_get (core_apps (drop_cage pl slot p)) c of None \<Rightarrow> True | Some n \<Rightarrow> n = 0)
                     (gcores g)
                then (drop_cage pl slot p)\<lparr>groups := (groups (drop_cage pl slot p))[gid := None],
                         core_group := free_cores (gcores g) (core_group (drop_cage pl slot p))\<rparr>
                else drop_cage pl slot p))"
    unfolding Places_release_def by (subst r) (simp only: prod.case option.case Let_def drop_cage_def [symmetric])
  show "cgroup p = None \<Longrightarrow> Places_release pl slot = drop_cage pl slot p"
    by (simp add: u)
  have same: "groups (drop_cage pl slot p) = groups pl" "core_group (drop_cage pl slot p) = core_group pl"
    by (simp_all add: drop_cage_def)
  show "Places_release pl slot =
        (if list_all (\<lambda>c. case list_get (core_apps (drop_cage pl slot p)) c of None \<Rightarrow> True | Some n \<Rightarrow> n = 0) (gcores g)
         then (drop_cage pl slot p)\<lparr>groups := (groups pl)[gid := None],
                core_group := free_cores (gcores g) (core_group pl)\<rparr>
         else drop_cage pl slot p)"
    if gid: "cgroup p = Some gid" and g: "group_at pl gid g"
  proof -
    have "Option.bind (list_get (groups pl) gid) id = Some g" using g by (simp add: list_get_def)
    then show ?thesis by (simp only: u gid same option.case)
  qed
qed

text \<open>In a state that keeps the invariant, the idle test of \<open>release\<close> reads the real loads.\<close>

lemma idle_iff:
  assumes inv: "places_inv pl" and g: "group_at pl gid g"
  shows "list_all (\<lambda>c. case list_get (core_apps pl) c of None \<Rightarrow> True | Some n \<Rightarrow> n = 0) (gcores g) \<longleftrightarrow>
    (\<forall>c \<in> set (gcores g). cage_load pl c = 0)"
proof -
  have "c < length (core_apps pl) \<and> core_apps pl ! c = cage_load pl c" if "c \<in> set (gcores g)" for c
  proof -
    have "c \<le> CORE_CAP" using places_invD(3) [OF inv] g that unfolding inv_groups_def by blast
    then show ?thesis using places_invD(1,2) [OF inv] by (simp add: inv_shape_def inv_counts_def)
  qed
  then show ?thesis by (auto simp: list_all_iff list_get_def)
qed

lemma release_inv:
  assumes inv: "places_inv pl"
  shows "places_inv (Places_release pl slot)"
proof (cases "cage_of pl slot")
  case None
  let ?cs = "snd (SlotVec_remove (cages pl) slot)"
  let ?pl = "pl\<lparr>cages := ?cs, core_apps := core_apps pl\<rparr>"
  note D = places_invD [OF inv]
  have get: "SlotVec_get ?cs r = cage_of pl r" for r using None by (simp add: sv.get_take)
  have cnt: "sv.count ?cs P = sv.count (cages pl) P" for P by (simp add: sv.count_def get)
  have "places_inv ?pl"
  proof (rule places_inv_cages [OF inv refl])
    show "inv_counts ?pl" using D(2) by (simp add: inv_counts_def cnt)
    show "inv_members ?pl" using D(7) by (auto simp: inv_members_def get)
    show "inv_dedicated ?pl" using D(8) by (auto simp: inv_dedicated_def get cnt)
  qed
  then show ?thesis by (simp add: release_none [OF None])
next
  case (Some p)
  note inv1 = drop_cage_inv [OF inv Some]
  show ?thesis
  proof (cases "cgroup p")
    case None
    with inv1 show ?thesis by (simp add: release_some(1) [OF Some])
  next
    case gid: (Some gid)
    then obtain g where g: "group_at pl gid g"
      using places_invD(7) [OF inv] Some unfolding inv_members_def by blast
    have same: "groups (drop_cage pl slot p) = groups pl" "core_group (drop_cage pl slot p) = core_group pl"
      by (simp_all add: drop_cage_def)
    have g1: "group_at (drop_cage pl slot p) gid g" using g by (simp add: same)
    note d = drop_group_inv [OF inv1 g1, unfolded same]
    show ?thesis
      unfolding release_some(2) [OF Some gid g] idle_iff [OF inv1 g1]
      using d inv1 by (simp split: if_splits)
  qed
qed

section \<open>Adopting\<close>

lemma adopt_members_fits:
  assumes "length ms + length members \<le> MAX_GROUP_CORES"
  shows "adopt_members gid members ms cg = (Inr (ms @ members), claim_cores gid members cg)"
  using assms
proof (induction members arbitrary: ms cg)
  case (Cons c rest)
  then have "blist_push MAX_GROUP_CORES ms c = Inr (ms @ [c])" by (simp add: blist_push_def)
  with Cons show ?case by (simp add: claim_cores_def)
qed (simp add: claim_cores_def)

text \<open>
  What \<open>adopt\<close> needs to keep the invariant: a dedicated run is free, a pool member sits on a core
  of its pool, and a pool that is not yet known claims free cores, or the OS core exactly when the
  group may share it.  What the kernel checks before it calls \<open>adopt\<close>, and how far that gives this, is
  the subject of the theory on adoption.
\<close>

definition adopt_ok :: "Places \<Rightarrow> Slot \<Rightarrow> Core \<Rightarrow> nat \<Rightarrow> (GroupName \<times> Core list) option \<Rightarrow> bool" where
  "adopt_ok pl slot p n grp \<longleftrightarrow> cage_of pl slot = None \<and>
     (case grp of
        None \<Rightarrow> 1 \<le> n \<and> 1 \<le> p \<and> p + n \<le> CORE_CAP + 1 \<and> list_all (Places_core_free pl) [p..<p + n]
      | Some (name, members) \<Rightarrow> n = 1 \<and>
          (case Places_group_id pl name of
             Some gid \<Rightarrow> (case groups pl ! gid of Some g \<Rightarrow> p \<in> set (gcores g) | None \<Rightarrow> False)
           | None \<Rightarrow> p \<in> set members \<and> length members \<le> MAX_GROUP_CORES \<and>
               list_all (\<lambda>c. c \<le> CORE_CAP \<and> (c \<noteq> Core_OS \<longrightarrow> Places_core_free pl c)) members \<and>
               (if Places_os_group pl name then members = [Core_OS] else Core_OS \<notin> set members)))"

lemma adopt_group_inv:
  assumes inv: "places_inv pl" and ok: "adopt_ok pl slot p 1 (Some (name, members))"
    and none: "Places_group_id pl name = None" and gid: "position (\<lambda>g. g = None) (groups pl) = Some gid"
  shows "places_inv (snd (Places_reserve al (pl\<lparr>core_group := claim_cores gid members (core_group pl),
           groups := (groups pl)[gid := Some \<lparr>gname = name, gcores = members\<rparr>]\<rparr>) slot p 1 (Some gid)))"
proof -
  let ?g = "\<lparr>gname = name, gcores = members\<rparr> :: Group"
  let ?pl = "pl\<lparr>core_group := claim_cores gid members (core_group pl), groups := (groups pl)[gid := Some ?g]\<rparr>"
  note g = free_gid [OF gid]
  have len: "gid < 256"
    using g places_invD(1) [OF inv] by (simp add: inv_shape_def MAX_GROUPS_def)
  from ok none have m: "p \<in> set members" "cage_of pl slot = None"
    "\<And>c. c \<in> set members \<Longrightarrow> c \<le> CORE_CAP \<and> (c \<noteq> Core_OS \<longrightarrow> Places_core_free pl c)"
    "if Places_os_group pl name then members = [Core_OS] else Core_OS \<notin> set members"
    by (simp_all add: adopt_ok_def list_all_iff)
  have cell: "claim_cores gid members (core_group pl) ! c =
      (if c \<in> set members then Some gid else core_group pl ! c)" if "c \<le> CORE_CAP" for c
    using that len places_invD(1) [OF inv] by (simp add: inv_shape_def)
  have "places_inv ?pl"
  proof (rule add_group_inv [OF inv])
    show "gid < length (groups pl)" "groups pl ! gid = None" using g by auto
    show "gname h \<noteq> name" if "group_at pl j h" for j h by (rule group_id_None [OF none that])
    show "c \<le> CORE_CAP" if "c \<in> set members" for c using m(3) that by blast
    show "Places_core_free pl c" if "c \<in> set members" "c \<noteq> Core_OS" for c using m(3) that by blast
    show "Core_OS \<in> set members \<longleftrightarrow> Places_os_group pl name" using m(4) by (auto split: if_splits)
    show "members = [Core_OS]" if "Core_OS \<in> set members" using m(4) that by (auto split: if_splits)
    show "length (claim_cores gid members (core_group pl)) = length (core_group pl)" by simp
    show "claim_cores gid members (core_group pl) ! c =
        (if c \<in> set members then Some gid else core_group pl ! c)" if "c \<le> CORE_CAP" for c
      by (rule cell [OF that])
    show "claim_cores gid members (core_group pl) ! Core_OS = core_group pl ! Core_OS \<or>
        Core_OS \<in> set members \<and> claim_cores gid members (core_group pl) ! Core_OS = Some gid"
      using cell [of Core_OS] by (simp add: Core_OS_def)
  qed
  then show ?thesis
    by (rule reserve_member_inv [where g = ?g]) (use m(1,2) g in simp_all)
qed

lemma adopt_inv:
  assumes inv: "places_inv pl" and ok: "adopt_ok pl slot p n grp"
  shows "places_inv (snd (Places_adopt al pl slot p n grp))"
proof -
  let ?res = "\<lambda>pl g. Places_reserve al pl slot p n g"
  have drop: "snd (case x of (Inl e, pl') \<Rightarrow> (Inl e, pl') | (Inr _, pl') \<Rightarrow> (Inr (), pl')) = snd x"
    for x :: "Core pool_res" by (auto split: prod.splits sum.splits)
  have free: "cage_of pl slot = None" using ok by (simp add: adopt_ok_def)
  show ?thesis
  proof (cases grp)
    case None
    with ok have "1 \<le> n" "1 \<le> p" "p + n \<le> CORE_CAP + 1"
      "\<And>c. p \<le> c \<Longrightarrow> c < p + n \<Longrightarrow> Places_core_free pl c"
      by (simp_all add: adopt_ok_def list_all_iff)
    from reserve_run_inv [OF inv free this] None show ?thesis by (simp add: Places_adopt_def drop)
  next
    case (Some ng)
    then obtain name members where grp: "grp = Some (name, members)" by (cases ng) simp
    then have n: "n = 1" using ok by (simp add: adopt_ok_def)
    show ?thesis
    proof (cases "Places_group_id pl name")
      case (Some gid)
      then obtain g where g: "group_at pl gid g" using group_id_Some by blast
      then have "p \<in> set (gcores g)" using ok Some grp by (simp add: adopt_ok_def)
      from reserve_member_inv [OF inv free g this] show ?thesis
        by (simp add: Places_adopt_def grp n Some drop)
    next
      case None
      show ?thesis
      proof (cases "position (\<lambda>g. g = None) (groups pl)")
        case None
        with \<open>Places_group_id pl name = None\<close> inv show ?thesis by (simp add: Places_adopt_def grp)
      next
        case (Some gid)
        have "length members \<le> MAX_GROUP_CORES" using ok None grp by (simp add: adopt_ok_def)
        then have "adopt_members gid members [] (core_group pl) =
            (Inr members, claim_cores gid members (core_group pl))"
          using adopt_members_fits [of "[]" members gid] by simp
        with adopt_group_inv [OF inv ok [unfolded grp n] None Some] show ?thesis
          by (simp add: Places_adopt_def grp n None Some drop)
      qed
    qed
  qed
qed

end
