(* ===== verification/PartMem.thy ===== *)
theory PartMem
  imports Kern
begin

unbundle bit_operations_syntax

text \<open>
  The partition pool (\<^verbatim>\<open>kern/src/partmem.rs\<close>): the physical memory of the board, handed out to slots
  and devices.  The state is the free list, the ledger of owned partitions, the capacity and the
  translation rules of the architecture; the capacity of the vector behind the free list is part of
  the state, because a claim is to reserve the room for its own return.

  The heap behind the vectors is the parameter \<open>PHeap\<close>: which allocations it grants.  An operation
  gives its result and the new state; an unchecked addition that overflows is \<open>Panic\<close>.
\<close>

section \<open>The granule\<close>

definition GRAIN_2M :: u64 where
  "GRAIN_2M = push_bit 20 2"

definition grain_down :: "u64 \<Rightarrow> u64" where
  "grain_down x = x AND NOT (GRAIN_2M - 1)"

definition align_grain :: "u64 \<Rightarrow> u64 option" where
  "align_grain n = map_option grain_down (checked_add n (GRAIN_2M - 1))"

section \<open>State and tokens\<close>

record Geometry =
  link_window :: "u64 \<Rightarrow> u64"
  reserve :: "u64 \<Rightarrow> u64"

definition Geometry_FLAT :: Geometry where
  "Geometry_FLAT = \<lparr>link_window = (\<lambda>n. n), reserve = (\<lambda>_. 0)\<rparr>"

text \<open>The typestates of a partition, and the token that carries one as a phantom.\<close>

typedecl Free
typedecl Owned

datatype Stopped = Stopped_confirmed (stopped_slot: Slot)

datatype 's Partition = Partition (part_slot: Slot) (part_region: Region)

definition Partition_to :: "'s Partition \<Rightarrow> 't Partition" where
  "Partition_to p = Partition (part_slot p) (part_region p)"

record PartitionPool =
  pfree :: "Region list"
  pfree_cap :: nat
  capacity :: u64
  owners :: "Region SlotVec"
  geo :: Geometry

record PHeap =
  grants_free :: "nat \<Rightarrow> bool"
  grants_fresh :: "nat \<Rightarrow> bool"
  grants_owner :: "nat \<Rightarrow> bool"
  owner_bytes :: nat

type_synonym 'a part_res = "(KernError fail + 'a) \<times> PartitionPool"

text \<open>\<^verbatim>\<open>size_of::<Region>()\<close>.\<close>

definition REGION_BYTES :: nat where
  "REGION_BYTES = 16"

text \<open>\<^verbatim>\<open>Vec::try_reserve(k)\<close> at length \<open>n\<close>: nothing to do within the capacity, otherwise amortised growth.\<close>

definition vec_try_reserve :: "(nat \<Rightarrow> bool) \<Rightarrow> nat \<Rightarrow> nat \<Rightarrow> nat \<Rightarrow> nat option" where
  "vec_try_reserve grants cap n k =
     (if n + k \<le> cap then Some cap
      else let cap' = max (max (2 * cap) (n + k)) 4 in if grants cap' then Some cap' else None)"

text \<open>\<^verbatim>\<open>slots::try_push\<close> on the free list.\<close>

definition try_push :: "PHeap \<Rightarrow> PartitionPool \<Rightarrow> Region \<Rightarrow> unit part_res" where
  "try_push h p r =
     (case vec_try_reserve (grants_free h) (pfree_cap p) (length (pfree p)) 1 of
        None \<Rightarrow> (Inl (Err (OutOfMemory REGION_BYTES)), p)
      | Some cap \<Rightarrow> (Inr (), p\<lparr>pfree := pfree p @ [r], pfree_cap := cap\<rparr>))"

section \<open>Building the pool\<close>

text \<open>What is left of a source without the kernel's own region.\<close>

definition source_pieces :: "Region \<Rightarrow> Region \<Rightarrow> Region list" where
  "source_pieces src own =
     (if rsize own \<noteq> 0 \<and> Region_overlaps src own then
        (let s_end = (case Region_end src of Some e \<Rightarrow> e | None \<Rightarrow> - 1);
             o_end = (case Region_end own of Some e \<Rightarrow> e | None \<Rightarrow> - 1) in
         (if base own > base src then [Region_new (base src) (base own - base src)] else []) @
         (if o_end < s_end then [Region_new o_end (s_end - o_end)] else []))
      else [src])"

definition carve_piece :: "PHeap \<Rightarrow> PartitionPool \<Rightarrow> Region \<Rightarrow> unit part_res" where
  "carve_piece h p r =
     (let pad = (- base r) AND (GRAIN_2M - 1) in
      if pad \<ge> rsize r then (Inr (), p)
      else case add64 (base r) pad of
        Inl e \<Rightarrow> (Inl e, p)
      | Inr b \<Rightarrow>
          (let e = grain_down (case Region_end r of Some e \<Rightarrow> e | None \<Rightarrow> - 1) in
           if e > b then
             (case try_push h p (Region_new b (e - b)) of
                (Inl f, p') \<Rightarrow> (Inl f, p')
              | (Inr _, p') \<Rightarrow>
                  (case add64 (capacity p') (e - b) of
                     Inl f \<Rightarrow> (Inl f, p')
                   | Inr c \<Rightarrow> (Inr (), p'\<lparr>capacity := c\<rparr>)))
           else (Inr (), p)))"

fun carve_pieces :: "PHeap \<Rightarrow> PartitionPool \<Rightarrow> Region list \<Rightarrow> unit part_res" where
  "carve_pieces h p [] = (Inr (), p)"
| "carve_pieces h p (r # rs) =
     (case carve_piece h p r of
        (Inl e, p') \<Rightarrow> (Inl e, p')
      | (Inr _, p') \<Rightarrow> carve_pieces h p' rs)"

definition PartitionPool_carve_source :: "PHeap \<Rightarrow> PartitionPool \<Rightarrow> Region \<Rightarrow> Region \<Rightarrow> unit part_res" where
  "PartitionPool_carve_source h p src own = carve_pieces h p (source_pieces src own)"

fun carve_sources :: "PHeap \<Rightarrow> PartitionPool \<Rightarrow> Region list \<Rightarrow> Region \<Rightarrow> unit part_res" where
  "carve_sources h p [] own = (Inr (), p)"
| "carve_sources h p (s # ss) own =
     (case PartitionPool_carve_source h p s own of
        (Inl e, p') \<Rightarrow> (Inl e, p')
      | (Inr _, p') \<Rightarrow> carve_sources h p' ss own)"

text \<open>The sources that count: empty ones are skipped, one that wraps is refused.\<close>

fun take_sources :: "PHeap \<Rightarrow> nat \<Rightarrow> Region list \<Rightarrow> Region list \<Rightarrow> KernError + Region list" where
  "take_sources h cap acc [] = Inr acc"
| "take_sources h cap acc (r # rs) =
     (if rsize r = 0 then take_sources h cap acc rs
      else if Region_end r = None then Inl (BadRange (base r) (rsize r))
      else case vec_try_reserve (grants_fresh h) cap (length acc) 1 of
        None \<Rightarrow> Inl (OutOfMemory REGION_BYTES)
      | Some cap' \<Rightarrow> take_sources h cap' (acc @ [r]) rs)"

definition PartitionPool_new :: "PHeap \<Rightarrow> Region list \<Rightarrow> Region \<Rightarrow> Geometry \<Rightarrow> KernError fail + PartitionPool" where
  "PartitionPool_new h pool own g =
     (let p = \<lparr>pfree = [], pfree_cap = 0, capacity = 0, owners = SlotVec_new, geo = g\<rparr> in
      case take_sources h 0 [] pool of
        Inl e \<Rightarrow> Inl (Err e)
      | Inr sources \<Rightarrow>
          (case carve_sources h p sources own of
             (Inl e, _) \<Rightarrow> Inl e
           | (Inr _, p') \<Rightarrow> Inr (p'\<lparr>pfree := sort_key base (pfree p')\<rparr>)))"

section \<open>The free list\<close>

definition region_top :: "Region \<Rightarrow> KernError fail + u64" where
  "region_top r = add64 (base r) (rsize r)"

text \<open>Whether an aligned claim fits in a piece, and where: the highest aligned base.\<close>

definition piece_base :: "Region \<Rightarrow> u64 \<Rightarrow> KernError fail + u64" where
  "piece_base r claim = rbind (region_top r) (\<lambda>t. rbind (sub64 t claim) (\<lambda>d. Inr (grain_down d)))"

definition piece_fits :: "Region \<Rightarrow> u64 \<Rightarrow> KernError fail + bool" where
  "piece_fits r claim =
     (if rsize r < claim then Inr False
      else rbind (piece_base r claim) (\<lambda>b. Inr (base r \<le> b)))"

text \<open>The reverse walk of \<^verbatim>\<open>best_fit\<close>, from index \<open>n\<close> down.\<close>

fun best_fit_loop :: "Region list \<Rightarrow> u64 \<Rightarrow> nat \<Rightarrow> nat option \<Rightarrow> KernError fail + nat option" where
  "best_fit_loop fs claim 0 best = Inr best"
| "best_fit_loop fs claim (Suc i) best =
     rbind (piece_fits (fs ! i) claim) (\<lambda>ok.
       if \<not> ok then best_fit_loop fs claim i best
       else case best of
         Some b \<Rightarrow>
           (if (case list_get fs b of Some x \<Rightarrow> rsize x \<le> rsize (fs ! i) | None \<Rightarrow> False)
            then best_fit_loop fs claim i best
            else best_fit_loop fs claim i (Some i))
       | None \<Rightarrow> best_fit_loop fs claim i (Some i))"

definition best_fit :: "PartitionPool \<Rightarrow> u64 \<Rightarrow> KernError fail + nat option" where
  "best_fit p claim = best_fit_loop (pfree p) claim (length (pfree p)) None"

definition free_span_loop :: "Region list \<Rightarrow> u64 \<Rightarrow> u64 \<Rightarrow> KernError fail + bool" where
  "free_span_loop fs b e =
     foldr (\<lambda>r acc. if base r \<le> b
                    then rbind (region_top r) (\<lambda>t. if e \<le> t then Inr True else acc)
                    else acc) fs (Inr False)"

definition free_span :: "PartitionPool \<Rightarrow> u64 \<Rightarrow> u64 \<Rightarrow> KernError fail + bool" where
  "free_span p b e = free_span_loop (pfree p) b e"

text \<open>The new list of \<^verbatim>\<open>take_range\<close> and the number of bytes it took.\<close>

fun take_pieces :: "u64 \<Rightarrow> u64 \<Rightarrow> Region list \<Rightarrow> u64 \<Rightarrow> KernError fail + Region list \<times> u64" where
  "take_pieces b e [] took = Inr ([], took)"
| "take_pieces b e (r # rs) took =
     rbind (region_top r) (\<lambda>r_end.
       if e \<le> base r \<or> r_end \<le> b then
         rbind (take_pieces b e rs took) (\<lambda>(next, t). Inr (r # next, t))
       else
         rbind (sub64 (min e r_end) (max b (base r))) (\<lambda>d.
         rbind (add64 took d) (\<lambda>took'.
         rbind (take_pieces b e rs took') (\<lambda>(next, t).
           Inr ((if b > base r then [Region_new (base r) (b - base r)] else []) @
                (if e < r_end then [Region_new e (r_end - e)] else []) @ next, t)))))"

definition take_range :: "PHeap \<Rightarrow> PartitionPool \<Rightarrow> u64 \<Rightarrow> u64 \<Rightarrow> u64 part_res" where
  "take_range h p b e =
     (if e \<le> b then (Inr 0, p)
      else
        (let n = length (pfree p) + 1; cap = max (pfree_cap p) n in
         if \<not> grants_fresh h cap then (Inl (Err (OutOfMemory (n * REGION_BYTES))), p)
         else case take_pieces b e (pfree p) 0 of
           Inl f \<Rightarrow> (Inl f, p)
         | Inr (next, took) \<Rightarrow> (Inr took, p\<lparr>pfree := next, pfree_cap := cap\<rparr>)))"

definition carve :: "PHeap \<Rightarrow> PartitionPool \<Rightarrow> u64 \<Rightarrow> u64 option part_res" where
  "carve h p claim =
     (case best_fit p claim of
        Inl e \<Rightarrow> (Inl e, p)
      | Inr None \<Rightarrow> (Inr None, p)
      | Inr (Some best) \<Rightarrow>
          (case list_get (pfree p) best of
             None \<Rightarrow> (Inr None, p)
           | Some r \<Rightarrow>
               (case piece_base r claim of
                  Inl e \<Rightarrow> (Inl e, p)
                | Inr b \<Rightarrow>
                    (case add64 b claim of
                       Inl e \<Rightarrow> (Inl e, p)
                     | Inr e \<Rightarrow>
                         (case take_range h p b e of
                            (Inl Panic, p') \<Rightarrow> (Inl Panic, p')
                          | (Inl (Err _), p') \<Rightarrow> (Inr None, p')
                          | (Inr _, p') \<Rightarrow> (Inr (Some b), p'))))))"

text \<open>Two adjacent pieces at \<open>i\<close> and \<open>i + 1\<close> become one.\<close>

definition merge_at :: "Region list \<Rightarrow> nat \<Rightarrow> KernError fail + Region list" where
  "merge_at fs i =
     (case (list_get fs i, list_get fs (i + 1)) of
        (Some a, Some b) \<Rightarrow>
          rbind (region_top a) (\<lambda>t.
            if t = base b then
              rbind (add64 (rsize a) (rsize b)) (\<lambda>n.
                Inr (take (i + 1) (fs[i := a\<lparr>rsize := n\<rparr>]) @ drop (i + 2) fs))
            else Inr fs)
      | _ \<Rightarrow> Inr fs)"

definition insert_free :: "PHeap \<Rightarrow> PartitionPool \<Rightarrow> Region \<Rightarrow> unit part_res" where
  "insert_free h p r =
     (let pos = (case position (\<lambda>f. base f \<ge> base r) (pfree p) of None \<Rightarrow> length (pfree p) | Some i \<Rightarrow> i) in
      case try_push h p r of
        (Inl e, p') \<Rightarrow> (Inl e, p')
      | (Inr _, p') \<Rightarrow>
          (let fs = take pos (pfree p) @ [r] @ drop pos (pfree p) in
           case merge_at fs pos of
             Inl e \<Rightarrow> (Inl e, p'\<lparr>pfree := fs\<rparr>)
           | Inr fs1 \<Rightarrow>
               (case (if pos > 0 then merge_at fs1 (pos - 1) else Inr fs1) of
                  Inl e \<Rightarrow> (Inl e, p'\<lparr>pfree := fs1\<rparr>)
                | Inr fs2 \<Rightarrow> (Inr (), p'\<lparr>pfree := fs2\<rparr>))))"

section \<open>Partitions\<close>

definition claim_size :: "PartitionPool \<Rightarrow> u64 \<Rightarrow> KernError + u64" where
  "claim_size p n =
     (if n = 0 \<or> n > link_window (geo p) n then Inl (PartitionSize n)
      else if reserve (geo p) n mod GRAIN_2M \<noteq> 0 then Inl (PartitionSize n)
      else ok_or (checked_add n (reserve (geo p) n)) (PartitionSize n))"

definition room_for_claim :: "PHeap \<Rightarrow> PartitionPool \<Rightarrow> unit part_res" where
  "room_for_claim h p =
     (case vec_try_reserve (grants_free h) (pfree_cap p) (length (pfree p)) 2 of
        None \<Rightarrow> (Inl (Err (OutOfMemory (2 * REGION_BYTES))), p)
      | Some cap \<Rightarrow> (Inr (), p\<lparr>pfree_cap := cap\<rparr>))"

text \<open>The rollback of a claim the ledger could not take: the result of the return is discarded.\<close>

definition put_back :: "PHeap \<Rightarrow> PartitionPool \<Rightarrow> Region \<Rightarrow> KernError \<Rightarrow> 'a part_res" where
  "put_back h p r err =
     (case insert_free h p r of
        (Inl Panic, p') \<Rightarrow> (Inl Panic, p')
      | (_, p') \<Rightarrow> (Inl (Err err), p'))"

definition enter_ledger ::
  "PHeap \<Rightarrow> PartitionPool \<Rightarrow> Slot \<Rightarrow> u64 \<Rightarrow> u64 \<Rightarrow> u64 \<Rightarrow> 's Partition part_res" where
  "enter_ledger h p s b n claim =
     (case SlotVec_insert (grants_owner h) (owner_bytes h) (owners p) s (Region_new b n) of
        Inl e \<Rightarrow> put_back h p (Region_new b claim) e
      | Inr (_, own) \<Rightarrow> (Inr (Partition s (Region_new b n)), p\<lparr>owners := own\<rparr>))"

definition grain_size :: "u64 \<Rightarrow> KernError + u64" where
  "grain_size n =
     (case align_grain n of
        Some k \<Rightarrow> if k \<noteq> 0 then Inr k else Inl (PartitionSize n)
      | None \<Rightarrow> Inl (PartitionSize n))"

definition PartitionPool_alloc :: "PHeap \<Rightarrow> PartitionPool \<Rightarrow> Slot \<Rightarrow> u64 \<Rightarrow> Free Partition part_res" where
  "PartitionPool_alloc h p s size0 =
     (case rbind (grain_size size0) (\<lambda>n. rbind (claim_size p n) (\<lambda>c. Inr (n, c))) of
        Inl e \<Rightarrow> (Inl (Err e), p)
      | Inr (n, claim) \<Rightarrow>
          if SlotVec_get (owners p) s \<noteq> None then (Inl (Err (StillOwned (Slot_get s))), p)
          else case room_for_claim h p of
            (Inl e, p') \<Rightarrow> (Inl e, p')
          | (Inr _, p1) \<Rightarrow>
              (case carve h p1 claim of
                 (Inl e, p') \<Rightarrow> (Inl e, p')
               | (Inr None, p') \<Rightarrow> (Inl (Err (NoPartition n)), p')
               | (Inr (Some b), p2) \<Rightarrow> enter_ledger h p2 s b n claim))"

definition release_ledger :: "PHeap \<Rightarrow> PartitionPool \<Rightarrow> Slot \<Rightarrow> unit part_res" where
  "release_ledger h p s =
     (case SlotVec_remove (owners p) s of
        (None, _) \<Rightarrow> (Inr (), p)
      | (Some l, own) \<Rightarrow>
          (case add64 (rsize l) (reserve (geo p) (rsize l)) of
             Inl e \<Rightarrow> (Inl e, p\<lparr>owners := own\<rparr>)
           | Inr n \<Rightarrow>
               (case insert_free h (p\<lparr>owners := own\<rparr>) (Region_new (base l) n) of
                  (Inl Panic, p') \<Rightarrow> (Inl Panic, p')
                | (_, p') \<Rightarrow> (Inr (), p'))))"

definition Partition_dispatched :: "Free Partition \<Rightarrow> Owned Partition" where
  "Partition_dispatched t = Partition_to t"

definition Partition_abandon :: "PHeap \<Rightarrow> Free Partition \<Rightarrow> PartitionPool \<Rightarrow> unit part_res" where
  "Partition_abandon h t p = release_ledger h p (part_slot t)"

definition Partition_release :: "PHeap \<Rightarrow> Owned Partition \<Rightarrow> PartitionPool \<Rightarrow> Stopped \<Rightarrow> unit part_res" where
  "Partition_release h t p proof1 =
     (if stopped_slot proof1 \<noteq> part_slot t
      then (Inl (Err (NotOwned (Slot_get (stopped_slot proof1)))), p)
      else release_ledger h p (part_slot t))"

text \<open>A range must be free in one piece; then it is cut out.\<close>

definition take_free_range :: "PHeap \<Rightarrow> PartitionPool \<Rightarrow> u64 \<Rightarrow> u64 \<Rightarrow> KernError \<Rightarrow> unit part_res" where
  "take_free_range h p b e notfree =
     (case free_span p b e of
        Inl f \<Rightarrow> (Inl f, p)
      | Inr False \<Rightarrow> (Inl (Err notfree), p)
      | Inr True \<Rightarrow>
          (case room_for_claim h p of
             (Inl f, p') \<Rightarrow> (Inl f, p')
           | (Inr _, p1) \<Rightarrow>
               (case take_range h p1 b e of
                  (Inl f, p') \<Rightarrow> (Inl f, p')
                | (Inr _, p2) \<Rightarrow> (Inr (), p2))))"

definition PartitionPool_adopt ::
  "PHeap \<Rightarrow> PartitionPool \<Rightarrow> Slot \<Rightarrow> u64 \<Rightarrow> u64 \<Rightarrow> Owned Partition part_res" where
  "PartitionPool_adopt h p s b n =
     (if n = 0 \<or> b mod GRAIN_2M \<noteq> 0 \<or> n mod GRAIN_2M \<noteq> 0 \<or> checked_add b n = None
      then (Inl (Err (BadRange b n)), p)
      else case rbind (claim_size p n) (\<lambda>c. rbind (ok_or (checked_add b c) (BadRange b n)) (\<lambda>e. Inr (c, e))) of
        Inl e \<Rightarrow> (Inl (Err e), p)
      | Inr (claim, e) \<Rightarrow>
          if SlotVec_get (owners p) s \<noteq> None then (Inl (Err (StillOwned (Slot_get s))), p)
          else case take_free_range h p b e (NotFree b n) of
            (Inl f, p') \<Rightarrow> (Inl f, p')
          | (Inr _, p2) \<Rightarrow> enter_ledger h p2 s b n claim)"

section \<open>Devices\<close>

definition reserve_device :: "PHeap \<Rightarrow> PartitionPool \<Rightarrow> u64 \<Rightarrow> u64 part_res" where
  "reserve_device h p size0 =
     (case grain_size size0 of
        Inl e \<Rightarrow> (Inl (Err e), p)
      | Inr n \<Rightarrow>
          (case room_for_claim h p of
             (Inl e, p') \<Rightarrow> (Inl e, p')
           | (Inr _, p1) \<Rightarrow>
               (case carve h p1 n of
                  (Inl e, p') \<Rightarrow> (Inl e, p')
                | (Inr None, p') \<Rightarrow> (Inl (Err (NoPartition n)), p')
                | (Inr (Some b), p2) \<Rightarrow>
                    (Inr b, p2\<lparr>capacity := (if n \<le> capacity p2 then capacity p2 - n else 0)\<rparr>))))"

definition adopt_device :: "PHeap \<Rightarrow> PartitionPool \<Rightarrow> u64 \<Rightarrow> u64 \<Rightarrow> unit part_res" where
  "adopt_device h p b n =
     (case checked_add b n of
        None \<Rightarrow> (Inl (Err (BadRange b n)), p)
      | Some e \<Rightarrow>
          if n = 0 \<or> b mod GRAIN_2M \<noteq> 0 \<or> n mod GRAIN_2M \<noteq> 0 then (Inl (Err (BadRange b n)), p)
          else case take_free_range h p b e (NotFree b n) of
            (Inl f, p') \<Rightarrow> (Inl f, p')
          | (Inr _, p2) \<Rightarrow>
              (Inr (), p2\<lparr>capacity := (if n \<le> capacity p2 then capacity p2 - n else 0)\<rparr>))"

definition release_device :: "PHeap \<Rightarrow> PartitionPool \<Rightarrow> u64 \<Rightarrow> u64 \<Rightarrow> unit part_res" where
  "release_device h p b size0 =
     (case align_grain size0 of
        None \<Rightarrow> (Inr (), p)
      | Some n \<Rightarrow>
          if n = 0 then (Inr (), p)
          else case insert_free h p (Region_new b n) of
            (Inl e, p') \<Rightarrow> (Inl e, p')
          | (Inr _, p') \<Rightarrow>
              (case add64 (capacity p') n of
                 Inl e \<Rightarrow> (Inl e, p')
               | Inr c \<Rightarrow> (Inr (), p'\<lparr>capacity := c\<rparr>)))"

section \<open>Questions\<close>

definition partition_of :: "PartitionPool \<Rightarrow> Slot \<Rightarrow> Region option" where
  "partition_of p s = SlotVec_get (owners p) s"

definition reserve_of :: "PartitionPool \<Rightarrow> u64 \<Rightarrow> u64" where
  "reserve_of p n = reserve (geo p) n"

definition pool_owners :: "PartitionPool \<Rightarrow> (Slot \<times> Region) list" where
  "pool_owners p = SlotVec_iter (owners p)"

text \<open>The loop of \<^verbatim>\<open>largest\<close>: granules come off until the aligned base is inside the piece.\<close>

function shrink_to_fit :: "Region \<Rightarrow> u64 \<Rightarrow> KernError fail + u64" where
  "shrink_to_fit r n =
     (if n = 0 then Inr 0
      else rbind (piece_base r n) (\<lambda>b.
        if b < base r then (if n < GRAIN_2M then Inl Panic else shrink_to_fit r (n - GRAIN_2M))
        else Inr n))"
  by pat_completeness auto

termination
proof (relation "measure (\<lambda>(r, n). unat n)")
  fix r :: Region and n b :: u64
  assume "\<not> n < GRAIN_2M"
  then have "GRAIN_2M \<le> n" by simp
  then have "unat (n - GRAIN_2M) = unat n - unat GRAIN_2M" by (rule unat_sub)
  moreover have "unat GRAIN_2M = 2 ^ 21" by (simp add: GRAIN_2M_def)
  moreover have "unat GRAIN_2M \<le> unat n" using \<open>GRAIN_2M \<le> n\<close> by (simp add: word_le_nat_alt)
  ultimately show "((r, n - GRAIN_2M), r, n) \<in> measure (\<lambda>(r, n). unat n)" by simp
qed simp

declare shrink_to_fit.simps [simp del]

fun largest_loop :: "Geometry \<Rightarrow> Region list \<Rightarrow> u64 \<Rightarrow> KernError fail + u64" where
  "largest_loop g [] best = Inr best"
| "largest_loop g (r # rs) best =
     rbind (shrink_to_fit r (grain_down (rsize r))) (\<lambda>n0.
       let n = link_window g n0; extra = reserve g n; n' = (if extra \<le> n then n - extra else 0) in
       largest_loop g rs (max best n'))"

definition largest :: "PartitionPool \<Rightarrow> KernError fail + u64" where
  "largest p = rbind (largest_loop (geo p) (pfree p) 0) (\<lambda>best. Inr (link_window (geo p) best))"

end
