(* ===== verification/Adopt.thy ===== *)
theory Adopt
  imports PoolInv PartMem
begin

text \<open>
  The adoption of the residents of the previous kernel (\<^verbatim>\<open>kern/src/slots.rs\<close>): the check of the handoff and
  the loop of \<^verbatim>\<open>Lifecycle::adopt\<close> that restores the claims on partitions and cores.  It runs once, at boot, on
  a placement that holds nothing but the groups that may share the OS core; an error stops the boot.
\<close>

definition MAX_FLIP_JOB :: nat where
  "MAX_FLIP_JOB = 256"

text \<open>The fields of the handoff that say who owns what; the rest (job, ports, mounts, cage block) names no owner.\<close>

record SlotState =
  st_share_group :: "u8 list"
  st_group_cores :: "nat list"
  st_slot :: nat
  st_part_base :: u64
  st_part_size :: u64
  st_core :: nat
  st_cores :: nat

section \<open>The check\<close>

definition is_app :: "Cores \<Rightarrow> nat \<Rightarrow> bool" where
  "is_app cs c \<longleftrightarrow> 1 \<le> c \<and> c \<le> app_cores cs"

definition on_os :: "Places \<Rightarrow> SlotState \<Rightarrow> bool" where
  "on_os pl s \<longleftrightarrow> st_core s = Core_OS \<and> st_cores s = 1 \<and> Places_os_group pl (st_share_group s) \<and> st_group_cores s = [Core_OS]"

text \<open>The partition: its shape, and the length of its claim.\<close>

definition check_part :: "PartitionPool \<Rightarrow> SlotState \<Rightarrow> KernError + u64" where
  "check_part parts s =
     (let bad = BadRange (st_part_base s) (st_part_size s) in
      if Slot_new (st_slot s) = None \<or> st_part_size s = 0 \<or> checked_add (st_part_base s) (st_part_size s) = None \<or>
         st_part_base s mod GRAIN_2M \<noteq> 0 \<or> st_part_size s mod GRAIN_2M \<noteq> 0
      then Inl bad
      else rbind (ok_or (checked_add (st_part_size s) (reserve_of parts (st_part_size s))) bad) (\<lambda>claim.
           rbind (ok_or (checked_add (st_part_base s) claim) bad) (\<lambda>_. Inr claim)))"

text \<open>The cores; the difference does not wrap, because the tests before it bound the core.\<close>

definition check_core :: "Cores \<Rightarrow> Places \<Rightarrow> SlotState \<Rightarrow> KernError + unit" where
  "check_core cs pl s =
     reject_if (st_cores s < 1 \<or> \<not> (is_app cs (st_core s) \<or> on_os pl s) \<or> st_cores s > app_cores cs + 1 - st_core s)
       (CoreRange (st_core s) (app_cores cs))"

fun check_members :: "Cores \<Rightarrow> Places \<Rightarrow> SlotState \<Rightarrow> nat list \<Rightarrow> nat list \<Rightarrow> KernError + unit" where
  "check_members cs pl s before [] = Inr ()"
| "check_members cs pl s before (c # rest) =
     (if \<not> (is_app cs c \<or> on_os pl s) \<or> c \<in> set before then Inl (CoreRange c (app_cores cs))
      else check_members cs pl s (before @ [c]) rest)"

definition check_group :: "Cores \<Rightarrow> Places \<Rightarrow> SlotState \<Rightarrow> KernError + unit" where
  "check_group cs pl s =
     (if st_share_group s = [] then reject_if (st_group_cores s \<noteq> []) (PoolSize (length (st_group_cores s)) 0)
      else if length (st_share_group s) > MAX_FLIP_JOB \<or> st_cores s \<noteq> 1 \<or> st_core s \<notin> set (st_group_cores s)
      then Inl (PoolSize (length (st_group_cores s)) (st_cores s))
      else check_members cs pl s [] (st_group_cores s))"

definition owns :: "SlotState \<Rightarrow> nat \<Rightarrow> bool" where
  "owns v c \<longleftrightarrow> (st_core v \<le> c \<and> c < st_core v + st_cores v) \<or> c \<in> set (st_group_cores v)"

fun check_pairs :: "Cores \<Rightarrow> PartitionPool \<Rightarrow> SlotState \<Rightarrow> u64 \<Rightarrow> SlotState list \<Rightarrow> KernError + unit" where
  "check_pairs cs parts s claim [] = Inr ()"
| "check_pairs cs parts s claim (p # ps) =
     (let p_claim = saturating_add (st_part_size p) (reserve_of parts (st_part_size p)) in
      if st_slot s = st_slot p \<or>
         (st_part_base s < saturating_add (st_part_base p) p_claim \<and> st_part_base p < saturating_add (st_part_base s) claim)
      then Inl (NotFree (st_part_base s) (st_part_size s))
      else if st_share_group s \<noteq> [] \<and> st_share_group s = st_share_group p
      then (if st_group_cores s \<noteq> st_group_cores p
            then Inl (PoolSize (length (st_group_cores p)) (length (st_group_cores s)))
            else check_pairs cs parts s claim ps)
      else case find (\<lambda>c. owns s c \<and> owns p c) [1..<app_cores cs + 1] of
             Some c \<Rightarrow> Inl (CoreBusy c)
           | None \<Rightarrow> check_pairs cs parts s claim ps)"

fun validate_loop :: "Cores \<Rightarrow> Places \<Rightarrow> PartitionPool \<Rightarrow> SlotState list \<Rightarrow> SlotState list \<Rightarrow> KernError + unit" where
  "validate_loop cs pl parts before [] = Inr ()"
| "validate_loop cs pl parts before (s # rest) =
     rbind (check_part parts s) (\<lambda>claim.
     rbind (check_core cs pl s) (\<lambda>_.
     rbind (check_group cs pl s) (\<lambda>_.
     rbind (check_pairs cs parts s claim before) (\<lambda>_. validate_loop cs pl parts (before @ [s]) rest))))"

definition validate_adoption :: "SlotState list \<Rightarrow> Cores \<Rightarrow> Places \<Rightarrow> PartitionPool \<Rightarrow> KernError + unit" where
  "validate_adoption states cs pl parts = validate_loop cs pl parts [] states"

section \<open>The claims\<close>

definition adopted_core :: "nat \<Rightarrow> Core option" where
  "adopted_core c = (if c = Core_OS then Some Core_OS else Core_new c)"

text \<open>
  What the heap answers on the way: whether the list of group cores can grow at a length, and whether the
  entry of the resident (its name, mounts and ports) can be stored after the claims.
\<close>

record AHeap =
  grants_core :: "nat \<Rightarrow> bool"
  core_bytes :: nat
  resident :: "SlotState \<Rightarrow> KernError + unit"
  part_heap :: PHeap
  cage_heap :: Alloc

fun adopt_cores :: "AHeap \<Rightarrow> nat list \<Rightarrow> Core list \<Rightarrow> KernError + Core list" where
  "adopt_cores h [] ms = Inr ms"
| "adopt_cores h (c # rest) ms =
     (case adopted_core c of
        None \<Rightarrow> Inl (CoreRange c 0)
      | Some k \<Rightarrow> if grants_core h (length ms) then adopt_cores h rest (ms @ [k]) else Inl (OutOfMemory (core_bytes h)))"

text \<open>One round of the loop, and the loop: it stops at the first error, with what was claimed until then.\<close>

definition adopt_state ::
  "AHeap \<Rightarrow> Cores \<Rightarrow> SlotState \<Rightarrow> PartitionPool \<Rightarrow> Places \<Rightarrow> (KernError fail + unit) \<times> PartitionPool \<times> Places" where
  "adopt_state h cs st parts pl =
     (case Slot_new (st_slot st) of
        None \<Rightarrow> (Inl (Err (SlotRange (st_slot st) SLOT_MAX)), parts, pl)
      | Some slot \<Rightarrow>
     (case adopted_core (st_core st) of
        None \<Rightarrow> (Inl (Err (CoreRange (st_core st) (app_cores cs))), parts, pl)
      | Some core \<Rightarrow>
     (case PartitionPool_adopt (part_heap h) parts slot (st_part_base st) (st_part_size st) of
        (Inl e, parts1) \<Rightarrow> (Inl e, parts1, pl)
      | (Inr _, parts1) \<Rightarrow>
     (case adopt_cores h (st_group_cores st) [] of
        Inl e \<Rightarrow> (Inl (Err e), parts1, pl)
      | Inr members \<Rightarrow>
     (case push_all (blist_push MAX_GROUP_NAME) [] (st_share_group st) of
        Inl _ \<Rightarrow> (Inl (Err (TooLarge (length (st_share_group st)) MAX_GROUP_NAME)), parts1, pl)
      | Inr name \<Rightarrow>
     (case Places_adopt (cage_heap h) pl slot core (st_cores st)
             (if st_share_group st \<noteq> [] then Some (name, members) else None) of
        (Inl e, pl1) \<Rightarrow> (Inl (Err e), parts1, pl1)
      | (Inr _, pl1) \<Rightarrow>
     (case resident h st of
        Inl e \<Rightarrow> (Inl (Err e), parts1, pl1)
      | Inr _ \<Rightarrow> (Inr (), parts1, pl1))))))))"

fun adopt_loop ::
  "(SlotState \<Rightarrow> AHeap) \<Rightarrow> Cores \<Rightarrow> SlotState list \<Rightarrow> PartitionPool \<Rightarrow> Places \<Rightarrow>
     (KernError fail + unit) \<times> PartitionPool \<times> Places" where
  "adopt_loop h cs [] parts pl = (Inr (), parts, pl)"
| "adopt_loop h cs (st # rest) parts pl =
     (case adopt_state (h st) cs st parts pl of
        (Inl e, parts1, pl1) \<Rightarrow> (Inl e, parts1, pl1)
      | (Inr _, parts1, pl1) \<Rightarrow> adopt_loop h cs rest parts1 pl1)"

section \<open>What the check establishes\<close>

definition state_ok :: "Cores \<Rightarrow> Places \<Rightarrow> SlotState \<Rightarrow> bool" where
  "state_ok cs pl s \<longleftrightarrow> 1 \<le> st_cores s \<and> (is_app cs (st_core s) \<or> on_os pl s) \<and> st_core s + st_cores s \<le> app_cores cs + 1 \<and>
     (if st_share_group s = [] then st_group_cores s = []
      else st_cores s = 1 \<and> st_core s \<in> set (st_group_cores s) \<and> (\<forall>c \<in> set (st_group_cores s). is_app cs c \<or> on_os pl s))"

definition pair_ok :: "Cores \<Rightarrow> SlotState \<Rightarrow> SlotState \<Rightarrow> bool" where
  "pair_ok cs p s \<longleftrightarrow> st_slot s \<noteq> st_slot p \<and>
     (if st_share_group s \<noteq> [] \<and> st_share_group s = st_share_group p then st_group_cores s = st_group_cores p
      else \<forall>c. is_app cs c \<longrightarrow> \<not> (owns s c \<and> owns p c))"

lemma check_members_ok:
  "check_members cs pl s before ms = Inr () \<Longrightarrow> c \<in> set ms \<Longrightarrow> is_app cs c \<or> on_os pl s"
  by (induction cs pl s before ms rule: check_members.induct) (auto split: if_splits)

lemma check_pairs_ok: "check_pairs cs parts s claim ps = Inr () \<Longrightarrow> p \<in> set ps \<Longrightarrow> pair_ok cs p s"
proof (induction cs parts s claim ps rule: check_pairs.induct)
  case (2 cs parts s claim q ps)
  note d = 2(3) [unfolded check_pairs.simps Let_def]
  have n: "\<not> (st_slot s = st_slot q \<or> (st_part_base s < saturating_add (st_part_base q)
      (saturating_add (st_part_size q) (reserve_of parts (st_part_size q))) \<and> st_part_base q < saturating_add (st_part_base s) claim))"
    using d by (metis Inl_Inr_False)
  note d = d [unfolded if_not_P [OF n]]
  show ?case
  proof (cases "st_share_group s \<noteq> [] \<and> st_share_group s = st_share_group q")
    case True
    note d = d [unfolded if_P [OF True]]
    have g: "st_group_cores s = st_group_cores q" and rest: "check_pairs cs parts s claim ps = Inr ()"
      using d by (auto split: if_splits)
    have q: "pair_ok cs q s" unfolding pair_ok_def if_P [OF True] using g n by blast
    have "pair_ok cs p s" if "p \<in> set ps" by (rule 2(1) [OF refl n True _ rest that]) (use g in simp)
    then show ?thesis using q 2(4) by auto
  next
    case False
    note d = d [unfolded if_not_P [OF False]]
    have f: "find (\<lambda>c. owns s c \<and> owns q c) [1..<app_cores cs + 1] = None" and rest: "check_pairs cs parts s claim ps = Inr ()"
      using d by (auto split: option.splits)
    have "\<not> (owns s c \<and> owns q c)" if "is_app cs c" for c
      using f that unfolding find_None_iff is_app_def by auto
    then have q: "pair_ok cs q s" unfolding pair_ok_def if_not_P [OF False] using n by blast
    have "pair_ok cs p s" if "p \<in> set ps" by (rule 2(2) [OF refl n False f rest that])
    then show ?thesis using q 2(4) by auto
  qed
qed simp

lemma check_state_ok:
  assumes "check_core cs pl s = Inr ()" "check_group cs pl s = Inr ()"
  shows "state_ok cs pl s"
proof -
  have c: "1 \<le> st_cores s" "is_app cs (st_core s) \<or> on_os pl s" "st_cores s \<le> app_cores cs + 1 - st_core s"
    using assms(1) by (auto simp: check_core_def reject_if_def not_less split: if_splits)
  have "if st_share_group s = [] then st_group_cores s = []
      else st_cores s = 1 \<and> st_core s \<in> set (st_group_cores s) \<and> (\<forall>c \<in> set (st_group_cores s). is_app cs c \<or> on_os pl s)"
    using assms(2) check_members_ok [of cs pl s "[]" "st_group_cores s"]
    by (auto simp: check_group_def reject_if_def split: if_splits)
  then show ?thesis using c unfolding state_ok_def by linarith
qed

lemma validate_ok:
  "validate_loop cs pl parts before ss = Inr () \<Longrightarrow> ss = pre @ s # rest \<Longrightarrow>
     state_ok cs pl s \<and> (\<forall>p \<in> set before \<union> set pre. pair_ok cs p s)"
proof (induction cs pl parts before ss arbitrary: pre rule: validate_loop.induct)
  case (2 cs pl parts before x ss)
  obtain claim where c: "check_part parts x = Inr claim" "check_core cs pl x = Inr ()" "check_group cs pl x = Inr ()"
    "check_pairs cs parts x claim before = Inr ()" "validate_loop cs pl parts (before @ [x]) ss = Inr ()"
    using 2(2) by (auto simp: rbind_eq_Inr)
  show ?case
  proof (cases pre)
    case Nil
    then have "s = x" using 2(3) by simp
    then show ?thesis using check_state_ok [OF c(2,3)] check_pairs_ok [OF c(4)] Nil by auto
  next
    case (Cons y ys)
    then have "ss = ys @ s # rest" "y = x" using 2(3) by simp_all
    then show ?thesis using 2(1) [OF c(1-4) c(5)] Cons by auto
  qed
qed simp

section \<open>What the loop restores\<close>

lemma adopted_core_id: "adopted_core c = Some k \<Longrightarrow> k = c"
  by (auto simp: adopted_core_def Core_new_eq_Some split: if_splits)

lemma adopt_cores_id: "adopt_cores h xs ms = Inr ms' \<Longrightarrow> ms' = ms @ xs"
  by (induction h xs ms rule: adopt_cores.induct) (auto dest: adopted_core_id split: option.splits if_splits)

lemma adopt_state_ok:
  assumes "adopt_state h cs st parts pl = (Inr (), parts', pl')"
  obtains slot where "Slot_new (st_slot st) = Some slot"
    "Places_adopt (cage_heap h) pl slot (st_core st) (st_cores st)
       (if st_share_group st \<noteq> [] then Some (st_share_group st, st_group_cores st) else None) = (Inr (), pl')"
proof -
  obtain slot where 1: "Slot_new (st_slot st) = Some slot" using assms by (cases "Slot_new (st_slot st)") (simp_all add: adopt_state_def)
  obtain core where 2: "adopted_core (st_core st) = Some core" using assms 1 by (cases "adopted_core (st_core st)") (simp_all add: adopt_state_def)
  obtain tok parts1 where 3: "PartitionPool_adopt (part_heap h) parts slot (st_part_base st) (st_part_size st) = (Inr tok, parts1)"
    using assms 1 2 by (auto simp: adopt_state_def split: prod.splits sum.splits)
  obtain members where 4: "adopt_cores h (st_group_cores st) [] = Inr members"
    using assms 1 2 3 by (cases "adopt_cores h (st_group_cores st) []") (simp_all add: adopt_state_def)
  obtain name where 5: "push_all (blist_push MAX_GROUP_NAME) [] (st_share_group st) = Inr name"
    using assms 1 2 3 4 by (cases "push_all (blist_push MAX_GROUP_NAME) [] (st_share_group st)") (simp_all add: adopt_state_def)
  have ids: "core = st_core st" "members = st_group_cores st" "name = st_share_group st"
    using adopted_core_id [OF 2] adopt_cores_id [OF 4] 5 blist.push_all_cases [of "[]" MAX_GROUP_NAME "st_share_group st"]
    by (auto split: if_splits)
  note d = assms [unfolded adopt_state_def 1 2 3 4 5 option.case prod.case sum.case ids]
  show thesis by (rule that [OF 1]) (use d in \<open>auto split: prod.splits sum.splits\<close>)
qed

lemma adopt_members_done:
  "adopt_members gid xs ms cg = (Inr ms', cg') \<Longrightarrow> length ms \<le> MAX_GROUP_CORES \<Longrightarrow>
     ms' = ms @ xs \<and> cg' = claim_cores gid xs cg \<and> length ms' \<le> MAX_GROUP_CORES"
proof (induction xs arbitrary: ms cg)
  case (Cons c rest)
  have "length ms < MAX_GROUP_CORES" using Cons.prems by (auto simp: blist_push_def split: if_splits)
  then have "ms' = (ms @ [c]) @ rest \<and> cg' = claim_cores gid rest (claim_cores gid [c] cg) \<and> length ms' \<le> MAX_GROUP_CORES"
    using Cons.prems by (intro Cons.IH) (simp_all add: blist_push_def)
  then show ?case by (auto simp: claim_cores_def)
qed (auto simp: claim_cores_def)

text \<open>The effect of an adoption that succeeds on cages and groups.\<close>

lemma adopt_effect:
  assumes free: "cage_of pl slot = None" and ok: "Places_adopt al pl slot p n grp = (Inr (), pl')"
  obtains g where "os_groups pl' = os_groups pl"
    "\<And>r. cage_of pl' r = (if r = slot then Some \<lparr>primary = p, span = n, cgroup = g\<rparr> else cage_of pl r)"
    "case grp of None \<Rightarrow> groups pl' = groups pl
     | Some (name, members) \<Rightarrow> (case Places_group_id pl name of Some gid \<Rightarrow> groups pl' = groups pl
        | None \<Rightarrow> length members \<le> MAX_GROUP_CORES \<and>
            (\<exists>gid < length (groups pl). groups pl ! gid = None \<and>
               groups pl' = (groups pl)[gid := Some \<lparr>gname = name, gcores = members\<rparr>]))"
proof -
  have res: "os_groups pl' = os_groups q \<and> groups pl' = groups q \<and>
      (\<forall>r. cage_of pl' r = (if r = slot then Some \<lparr>primary = p, span = n, cgroup = g\<rparr> else cage_of pl r))"
    if q: "(case Places_reserve al q slot p n g of (Inl e, pl') \<Rightarrow> (Inl e, pl') | (Inr _, pl') \<Rightarrow> (Inr (), pl')) = (Inr (), pl')"
      "cages q = cages pl" for q g
  proof -
    have "cage_of q slot = None" using free q(2) by simp
    then show ?thesis
    proof (cases rule: reserve_cases [where al = al and p = p and ?n1.0 = n and g = g])
      case (fail k)
      then show ?thesis using q(1) by simp
    next
      case (done1 cs')
      then show ?thesis using q by auto
    qed
  qed
  show thesis
  proof (cases grp)
    case None
    note d = ok [unfolded Places_adopt_def Let_def None option.case]
    show thesis by (rule that [where g = None]) (use res [OF d refl] None in auto)
  next
    case (Some ng)
    obtain name members where g: "ng = (name, members)" by (cases ng)
    note d = ok [unfolded Places_adopt_def Let_def Some g option.case prod.case]
    show thesis
    proof (cases "Places_group_id pl name")
      case (Some gid)
      note d = d [unfolded Some option.case]
      show thesis by (rule that [where g = "Some gid"]) (use res [OF d refl] \<open>grp = Some ng\<close> g Some in auto)
    next
      case None
      note d = d [unfolded None option.case]
      obtain gid where gid: "position (\<lambda>g. g = None) (groups pl) = Some gid" using d by (auto split: option.splits)
      note d = d [unfolded gid option.case]
      obtain ms cg where m: "adopt_members gid members [] (core_group pl) = (Inr ms, cg)"
        using d by (auto split: prod.splits sum.splits)
      note d = d [unfolded m prod.case sum.case]
      have ms: "ms = members" "length members \<le> MAX_GROUP_CORES" using adopt_members_done [OF m] by auto
      note r = res [OF d]
      show thesis
        by (rule that [where g = "Some gid"])
          (use r free_gid [OF gid] ms \<open>grp = Some ng\<close> g None in auto)
    qed
  qed
qed

text \<open>
  The claims that belong to the states \<open>D\<close>: every cage has the cores of its state, every group is the
  pool of one of them, and the group of each is known.
\<close>

definition restored :: "SlotState set \<Rightarrow> Places \<Rightarrow> bool" where
  "restored D pl \<longleftrightarrow> places_inv pl \<and>
     (\<forall>slot p. cage_of pl slot = Some p \<longrightarrow> (\<exists>st \<in> D. Slot_new (st_slot st) = Some slot \<and> primary p = st_core st \<and> span p = st_cores st)) \<and>
     (\<forall>gid g. group_at pl gid g \<longrightarrow> (\<exists>st \<in> D. st_share_group st \<noteq> [] \<and> st_share_group st = gname g \<and> st_group_cores st = gcores g)) \<and>
     (\<forall>st \<in> D. st_share_group st \<noteq> [] \<longrightarrow> Places_group_id pl (st_share_group st) \<noteq> None)"

lemma restoredD:
  assumes "restored D pl"
  shows "places_inv pl"
    "cage_of pl slot = Some p \<Longrightarrow> \<exists>st \<in> D. Slot_new (st_slot st) = Some slot \<and> primary p = st_core st \<and> span p = st_cores st"
    "group_at pl gid g \<Longrightarrow> \<exists>st \<in> D. st_share_group st \<noteq> [] \<and> st_share_group st = gname g \<and> st_group_cores st = gcores g"
    "st \<in> D \<Longrightarrow> st_share_group st \<noteq> [] \<Longrightarrow> Places_group_id pl (st_share_group st) \<noteq> None"
  using assms unfolding restored_def by blast+

lemma restored_busy:
  assumes r: "restored D pl" and c: "c \<le> CORE_CAP" "\<not> Places_core_free pl c"
  obtains st where "st \<in> D" "owns st c"
proof -
  note inv = restoredD(1) [OF r]
  consider gid where "core_group pl ! c = Some gid" | "cage_load pl c \<noteq> 0"
    using c(2) unfolding core_free_iff [OF inv c(1)] by (cases "core_group pl ! c") auto
  then show thesis
  proof cases
    case 1
    then obtain g where g: "group_at pl gid g" "c \<in> set (gcores g)" using places_invD(4) [OF inv] c(1) unfolding inv_owned_def by blast
    obtain st where "st \<in> D" "st_group_cores st = gcores g" using restoredD(3) [OF r g(1)] by blast
    then show thesis using that g(2) by (simp add: owns_def)
  next
    case 2
    then obtain slot p where p: "cage_of pl slot = Some p" "covers p c" by (auto simp: sv.count_eq_0)
    obtain st where "st \<in> D" "primary p = st_core st" "span p = st_cores st" using restoredD(2) [OF r p(1)] by blast
    then show thesis using that p(2) by (simp add: owns_def covers_def)
  qed
qed

text \<open>The handoff fits the trust of this kernel: a group that may share the OS core was pooled on it, and on nothing else.\<close>

definition os_pools :: "GroupName list \<Rightarrow> SlotState list \<Rightarrow> bool" where
  "os_pools gs states \<longleftrightarrow> list_all (\<lambda>s. st_share_group s \<in> set gs \<and> st_share_group s \<noteq> [] \<longrightarrow> st_group_cores s = [Core_OS]) states"

lemma restored_adoptable:
  assumes r: "restored D pl" and s: "state_ok cs pl s" and d: "\<And>p. p \<in> D \<Longrightarrow> pair_ok cs p s" and app: "app_cores cs \<le> CORE_CAP"
    and os: "Places_os_group pl (st_share_group s) \<Longrightarrow> st_share_group s \<noteq> [] \<Longrightarrow> st_group_cores s = [Core_OS]"
    and slot: "Slot_new (st_slot s) = Some slot"
    and len: "st_share_group s \<noteq> [] \<Longrightarrow> Places_group_id pl (st_share_group s) = None \<Longrightarrow> length (st_group_cores s) \<le> MAX_GROUP_CORES"
  shows "adopt_ok pl slot (st_core s) (st_cores s)
    (if st_share_group s \<noteq> [] then Some (st_share_group s, st_group_cores s) else None)"
proof -
  have none: "cage_of pl slot = None"
  proof (rule ccontr)
    assume "cage_of pl slot \<noteq> None"
    then obtain p st where "st \<in> D" "Slot_new (st_slot st) = Some slot" using restoredD(2) [OF r] by blast
    then have "st \<in> D" "st_slot st = st_slot s" using slot by (auto simp: Slot_new_eq_Some)
    then show False using d [of st] by (simp add: pair_ok_def)
  qed
  have busy: "Places_core_free pl c" if c: "is_app cs c" "owns s c"
    "\<And>p. p \<in> D \<Longrightarrow> \<not> (st_share_group s \<noteq> [] \<and> st_share_group s = st_share_group p)" for c
  proof (rule ccontr)
    assume "\<not> Places_core_free pl c"
    moreover have "c \<le> CORE_CAP" using c(1) app by (simp add: is_app_def)
    ultimately obtain st where st: "st \<in> D" "owns st c" using restored_busy [OF r] by blast
    then show False using d [OF st(1)] c(1,2) unfolding pair_ok_def if_not_P [OF c(3) [OF st(1)]] by blast
  qed
  note ok = s [unfolded state_ok_def]
  show ?thesis
  proof (cases "st_share_group s = []")
    case True
    then have e: "st_group_cores s = []" using ok by simp
    then have ia: "is_app cs (st_core s)" using ok by (auto simp: on_os_def)
    have "Places_core_free pl c" if "st_core s \<le> c" "c < st_core s + st_cores s" for c
      by (rule busy) (use that ia ok True in \<open>auto simp: is_app_def owns_def\<close>)
    then show ?thesis using none True ok ia app by (auto simp: adopt_ok_def list_all_iff is_app_def)
  next
    case False
    then have g: "st_cores s = 1" "st_core s \<in> set (st_group_cores s)" "\<And>c. c \<in> set (st_group_cores s) \<Longrightarrow> is_app cs c \<or> on_os pl s"
      using ok by auto
    show ?thesis
    proof (cases "Places_group_id pl (st_share_group s)")
      case (Some gid)
      obtain h where h: "group_at pl gid h" "gname h = st_share_group s" using group_id_Some [OF Some] by blast
      obtain st where st: "st \<in> D" "st_share_group st = gname h" "st_group_cores st = gcores h" using restoredD(3) [OF r h(1)] by blast
      have "st_group_cores s = gcores h" using d [OF st(1)] False st(2,3) h(2) by (simp add: pair_ok_def)
      then show ?thesis using none False g(1,2) Some h(1) by (simp add: adopt_ok_def)
    next
      case None
      have fresh: "\<not> (st_share_group s \<noteq> [] \<and> st_share_group s = st_share_group p)" if "p \<in> D" for p
        using restoredD(4) [OF r that] None by auto
      have mem: "c \<le> CORE_CAP \<and> (c \<noteq> Core_OS \<longrightarrow> Places_core_free pl c)" if c: "c \<in> set (st_group_cores s)" for c
      proof (cases "is_app cs c")
        case True
        have "Places_core_free pl c" by (rule busy [OF True _ fresh]) (simp add: owns_def c)
        then show ?thesis using True app by (simp add: is_app_def)
      next
        case no: False
        then have "on_os pl s" using g(3) [OF c] by blast
        then show ?thesis using c by (simp add: on_os_def Core_OS_def)
      qed
      have "if Places_os_group pl (st_share_group s) then st_group_cores s = [Core_OS] else Core_OS \<notin> set (st_group_cores s)"
      proof (cases "Places_os_group pl (st_share_group s)")
        case True
        then show ?thesis using os False by simp
      next
        case no: False
        then show ?thesis using g(3) [of Core_OS] by (auto simp: on_os_def is_app_def Core_OS_def)
      qed
      then show ?thesis using none False g(1,2) None mem len by (simp add: adopt_ok_def list_all_iff)
    qed
  qed
qed

lemma group_id_at:
  assumes "group_at pl gid g"
  shows "Places_group_id pl (gname g) \<noteq> None"
  using group_id_None [of pl "gname g" gid g] assms by blast

lemma restored_step:
  assumes r: "restored D pl" and s: "state_ok cs pl s" and d: "\<And>p. p \<in> D \<Longrightarrow> pair_ok cs p s" and app: "app_cores cs \<le> CORE_CAP"
    and os: "Places_os_group pl (st_share_group s) \<Longrightarrow> st_share_group s \<noteq> [] \<Longrightarrow> st_group_cores s = [Core_OS]"
    and slot: "Slot_new (st_slot s) = Some slot"
    and ok: "Places_adopt al pl slot (st_core s) (st_cores s)
      (if st_share_group s \<noteq> [] then Some (st_share_group s, st_group_cores s) else None) = (Inr (), pl')"
  shows "restored (insert s D) pl' \<and> os_groups pl' = os_groups pl"
proof -
  let ?grp = "if st_share_group s \<noteq> [] then Some (st_share_group s, st_group_cores s) else None"
  have none: "cage_of pl slot = None"
  proof (rule ccontr)
    assume "cage_of pl slot \<noteq> None"
    then obtain st where "st \<in> D" "Slot_new (st_slot st) = Some slot" using restoredD(2) [OF r] by blast
    then have "st \<in> D" "st_slot st = st_slot s" using slot by (auto simp: Slot_new_eq_Some)
    then show False using d [of st] by (simp add: pair_ok_def)
  qed
  obtain g where e: "os_groups pl' = os_groups pl"
    "\<And>r. cage_of pl' r = (if r = slot then Some \<lparr>primary = st_core s, span = st_cores s, cgroup = g\<rparr> else cage_of pl r)"
    "case ?grp of None \<Rightarrow> groups pl' = groups pl
     | Some (name, members) \<Rightarrow> (case Places_group_id pl name of Some gid \<Rightarrow> groups pl' = groups pl
        | None \<Rightarrow> length members \<le> MAX_GROUP_CORES \<and>
            (\<exists>gid < length (groups pl). groups pl ! gid = None \<and>
               groups pl' = (groups pl)[gid := Some \<lparr>gname = name, gcores = members\<rparr>]))"
    using adopt_effect [OF none ok] by metis
  have inv: "places_inv pl'"
  proof -
    have "adopt_ok pl slot (st_core s) (st_cores s) ?grp"
      by (rule restored_adoptable [OF r s d app os slot]) (use e(3) in auto)
    from adopt_inv [OF restoredD(1) [OF r] this, of al] show ?thesis by (simp add: ok)
  qed
  have same: "groups pl' = groups pl \<and> (st_share_group s \<noteq> [] \<longrightarrow> Places_group_id pl (st_share_group s) \<noteq> None) \<or>
    (\<exists>gid < length (groups pl). groups pl ! gid = None \<and> st_share_group s \<noteq> [] \<and>
       groups pl' = (groups pl)[gid := Some \<lparr>gname = st_share_group s, gcores = st_group_cores s\<rparr>])"
    using e(3) by (auto split: if_splits option.splits)
  have new: "group_at pl j h \<or> (st_share_group s \<noteq> [] \<and> h = \<lparr>gname = st_share_group s, gcores = st_group_cores s\<rparr>)" if "group_at pl' j h" for j h
    using same that by (auto simp: nth_list_update split: if_splits)
  have kept: "group_at pl' j h" if "group_at pl j h" for j h
    using same that by (auto simp: nth_list_update)
  have own: "Places_group_id pl' (st_share_group s) \<noteq> None" if ne: "st_share_group s \<noteq> []"
  proof -
    have "\<exists>j h. group_at pl' j h \<and> gname h = st_share_group s"
    proof (cases "Places_group_id pl (st_share_group s)")
      case (Some gid)
      then show ?thesis using group_id_Some [OF Some] kept by blast
    next
      case None
      then obtain gid where "gid < length (groups pl)"
        "groups pl' = (groups pl)[gid := Some \<lparr>gname = st_share_group s, gcores = st_group_cores s\<rparr>]" using same ne by blast
      then have "group_at pl' gid \<lparr>gname = st_share_group s, gcores = st_group_cores s\<rparr>" by simp
      moreover have "gname \<lparr>gname = st_share_group s, gcores = st_group_cores s\<rparr> = st_share_group s" by simp
      ultimately show ?thesis by blast
    qed
    then show ?thesis using group_id_at by metis
  qed
  have "restored (insert s D) pl'"
    unfolding restored_def
  proof (intro conjI allI impI ballI inv)
    fix r p assume "cage_of pl' r = Some p"
    then show "\<exists>st \<in> insert s D. Slot_new (st_slot st) = Some r \<and> primary p = st_core st \<and> span p = st_cores st"
      using restoredD(2) [OF \<open>restored D pl\<close>, of r p] slot e(2) [of r] by (cases "r = slot") auto
  next
    fix j h assume "group_at pl' j h"
    from new [OF this] show "\<exists>st \<in> insert s D. st_share_group st \<noteq> [] \<and> st_share_group st = gname h \<and> st_group_cores st = gcores h"
      using restoredD(3) [OF r, of j h] by auto
  next
    fix st assume st: "st \<in> insert s D" "st_share_group st \<noteq> []"
    show "Places_group_id pl' (st_share_group st) \<noteq> None"
    proof (cases "st = s")
      case True
      then show ?thesis using own st(2) by simp
    next
      case False
      then have "Places_group_id pl (st_share_group st) \<noteq> None" using restoredD(4) [OF r _ st(2)] st(1) by simp
      then obtain j h where "group_at pl j h" "gname h = st_share_group st" using group_id_Some by blast
      then show ?thesis using group_id_at [OF kept] by metis
    qed
  qed
  then show ?thesis using e(1) by blast
qed

text \<open>From the placement at boot, a validated handoff that the loop took whole leaves a placement with its invariant.\<close>

lemma state_ok_os: "os_groups pl' = os_groups pl \<Longrightarrow> state_ok cs pl' s = state_ok cs pl s"
  by (simp add: state_ok_def on_os_def Places_os_group_def)

lemma adopt_loop_restored:
  assumes v: "validate_loop cs pl0 parts0 [] states = Inr ()" and app: "app_cores cs \<le> CORE_CAP"
    and os: "os_pools (os_groups pl0) states"
  shows "states = pre @ rest \<Longrightarrow> restored (set pre) pl \<Longrightarrow> os_groups pl = os_groups pl0 \<Longrightarrow>
    adopt_loop h cs rest parts pl = (Inr (), parts', pl') \<Longrightarrow> restored (set states) pl' \<and> os_groups pl' = os_groups pl0"
proof (induction rest arbitrary: pre parts pl)
  case Nil
  then show ?case by simp
next
  case (Cons s rest)
  obtain parts1 pl1 where a: "adopt_state (h s) cs s parts pl = (Inr (), parts1, pl1)" "adopt_loop h cs rest parts1 pl1 = (Inr (), parts', pl')"
    using Cons.prems(4) by (auto split: prod.splits sum.splits)
  obtain slot where slot: "Slot_new (st_slot s) = Some slot"
    "Places_adopt (cage_heap (h s)) pl slot (st_core s) (st_cores s)
       (if st_share_group s \<noteq> [] then Some (st_share_group s, st_group_cores s) else None) = (Inr (), pl1)"
    by (rule adopt_state_ok [OF a(1)])
  note ok = validate_ok [OF v Cons.prems(1)]
  have s: "state_ok cs pl s" using ok Cons.prems(3) state_ok_os [of pl pl0 cs s] by simp
  have o: "st_group_cores s = [Core_OS]" if "Places_os_group pl (st_share_group s)" "st_share_group s \<noteq> []"
    using os that Cons.prems(1,3) by (auto simp: os_pools_def Places_os_group_def list_ex_iff)
  have r: "restored (insert s (set pre)) pl1 \<and> os_groups pl1 = os_groups pl"
    by (rule restored_step [OF Cons.prems(2) s _ app o slot]) (use ok in simp_all)
  show ?case by (rule Cons.IH [of "pre @ [s]" pl1 parts1]) (use Cons.prems(1,3) r a(2) in simp_all)
qed

lemma boot_restored: "restored {} (Places_new\<lparr>os_groups := gs\<rparr>)"
proof -
  let ?pl = "Places_new\<lparr>os_groups := gs\<rparr>"
  have f: "groups ?pl = groups Places_new" "core_group ?pl = core_group Places_new" "core_apps ?pl = core_apps Places_new"
    "cages ?pl = cages Places_new" by simp_all
  have g: "\<not> group_at ?pl gid g" for gid g
  proof
    assume "group_at ?pl gid g"
    then have "gid < MAX_GROUPS" "replicate MAX_GROUPS None ! gid = Some g" unfolding f Places_new_def Places.simps length_replicate by blast+
    then show False by (simp only: nth_replicate option.distinct)
  qed
  have c: "cage_of ?pl slot = None" for slot unfolding f by (simp add: Places_new_def SlotVec_new_def SlotVec_get_def list_get_def)
  note D = places_invD [OF new_inv]
  have "inv_os ?pl" unfolding inv_os_def by (intro allI impI, erule notE [OF g])
  moreover have "inv_shape ?pl" "inv_counts ?pl" using D(1,2) unfolding inv_shape_def inv_counts_def f .
  moreover have "inv_groups ?pl" "inv_owned ?pl" "inv_names ?pl" using D(3,4,6) unfolding inv_groups_def inv_owned_def inv_names_def f .
  moreover have "inv_members ?pl" "inv_dedicated ?pl" using D(7,8) unfolding inv_members_def inv_dedicated_def f .
  ultimately have "places_inv ?pl" unfolding places_inv_def by blast
  then show ?thesis unfolding restored_def c
    by (intro conjI allI impI ballI) (assumption, simp only: option.distinct, erule notE [OF g], simp only: empty_iff)
qed

lemma validated_adoption_inv:
  assumes "validate_adoption states cs (Places_new\<lparr>os_groups := gs\<rparr>) parts = Inr ()" "app_cores cs \<le> CORE_CAP"
    "os_pools gs states" "adopt_loop h cs states parts1 (Places_new\<lparr>os_groups := gs\<rparr>) = (Inr (), parts2, pl)"
  shows "places_inv pl"
  using adopt_loop_restored [OF assms(1) [unfolded validate_adoption_def] assms(2), of "[]" states _ h parts1 parts2 pl]
    boot_restored [of gs] assms(3,4) restoredD(1) [of "set states" pl] by simp

end
