(* ===== verification/PoolSafe.thy ===== *)
theory PoolSafe
  imports Adopt
begin

text \<open>
  The promises of the core placement over every history of the lifecycle actor: \<open>pool_reach\<close> is the
  set of states that boot, the adoption of the residents of the previous kernel, placements and releases can
  produce, with any heap behind the tables at each step.

  The adoption happens once, on the placement at boot, for a handoff that \<open>validate_adoption\<close> accepted and that
  the loop took whole: any error stops the boot.  One condition on the handoff is not checked by the code:
  \<open>os_pools\<close>, that a group which may share the OS core with this kernel was pooled on the OS core alone.  A
  kernel that trusts the same groups hands over nothing else (\<open>handoff_os_pools\<close>); one that trusts fewer can,
  and then the promise breaks (\<open>adopt_foreign_pool\<close>).
\<close>

section \<open>Reachable states\<close>

inductive pool_reach :: "Cores \<Rightarrow> Places \<Rightarrow> bool" for cs where
  reach_new: "pool_reach cs Places_new"
| reach_share: "pool_reach cs pl \<Longrightarrow> Places_group_id pl name = None \<Longrightarrow>
    pool_reach cs (snd (Places_share_os_core pl name))"
| reach_place: "pool_reach cs pl \<Longrightarrow> pool_reach cs (snd (Places_place al cs pl slot spec))"
| reach_anywhere: "pool_reach cs pl \<Longrightarrow> pool_reach cs (snd (Places_place_anywhere al cs pl slot spec))"
| reach_release: "pool_reach cs pl \<Longrightarrow> pool_reach cs (Places_release pl slot)"
| reach_adopt: "validate_adoption states cs (Places_new\<lparr>os_groups := gs\<rparr>) parts = Inr () \<Longrightarrow> app_cores cs \<le> CORE_CAP \<Longrightarrow>
    os_pools gs states \<Longrightarrow> adopt_loop h cs states parts1 (Places_new\<lparr>os_groups := gs\<rparr>) = (Inr (), parts2, pl) \<Longrightarrow> pool_reach cs pl"

lemma reach_inv: "pool_reach cs pl \<Longrightarrow> places_inv pl"
proof (induction rule: pool_reach.induct)
  case (reach_adopt states gs parts h parts1 parts2 pl)
  then show ?case by (rule validated_adoption_inv)
qed (simp_all add: new_inv share_os_core_inv place_inv place_anywhere_inv release_inv)

text \<open>A kernel hands over its cages with the pools of their groups; where it trusts the same groups, \<open>os_pools\<close> holds.\<close>

definition hands_over :: "Places \<Rightarrow> SlotState \<Rightarrow> bool" where
  "hands_over pl st \<longleftrightarrow> (\<exists>slot. Slot_new (st_slot st) = Some slot \<and>
     (case Places_group_of pl slot of
        None \<Rightarrow> st_share_group st = [] \<and> st_group_cores st = []
      | Some (name, members) \<Rightarrow> st_share_group st = name \<and> st_group_cores st = members))"

lemma handoff_os_pools:
  assumes "pool_reach cs old" "list_all (hands_over old) states"
  shows "os_pools (os_groups old) states"
  unfolding os_pools_def list_all_iff
proof (intro ballI impI, elim conjE)
  fix st assume st: "st \<in> set states" "st_share_group st \<in> set (os_groups old)" "st_share_group st \<noteq> []"
  have "hands_over old st" using assms(2) st(1) by (simp add: list_all_iff)
  then obtain slot name members where g: "Places_group_of old slot = Some (name, members)" "st_share_group st = name" "st_group_cores st = members"
    using st(3) by (auto simp: hands_over_def split: option.splits)
  then obtain gid h where h: "group_at old gid h" "gname h = name" "gcores h = members"
    by (auto simp: Places_group_of_def list_get_def bind_eq_Some_conv split: if_splits)
  have os: "Places_os_group old (gname h)" using st(2) g(2) h(2) by (auto simp: Places_os_group_def list_ex_iff)
  have "(Core_OS \<in> set (gcores h)) = Places_os_group old (gname h) \<and> (Core_OS \<in> set (gcores h) \<longrightarrow> gcores h = [Core_OS])"
    using places_invD(5) [OF reach_inv [OF assms(1)], unfolded inv_os_def, rule_format, OF h(1)] .
  then show "st_group_cores st = [Core_OS]" using os h(3) g(3) by simp
qed

lemma member_core:
  assumes inv: "places_inv pl" and p: "cage_of pl s = Some p" "cgroup p = Some gid" "covers p c"
  obtains g where "group_at pl gid g" "c \<in> set (gcores g)" "c = primary p"
proof -
  obtain g where g: "span p = 1" "group_at pl gid g" "primary p \<in> set (gcores g)"
    using places_invD(7) [OF inv] p(1,2) unfolding inv_members_def by blast
  then have "c = primary p" using p(3) by (simp add: covers_def)
  with g that show ?thesis by blast
qed

lemma shared_core_groups:
  assumes inv: "places_inv pl"
    and p: "cage_of pl s = Some p" "covers p c" and q: "cage_of pl r = Some q" "covers q c"
    and ne: "s \<noteq> r"
  shows "\<exists>i j g h. cgroup p = Some i \<and> cgroup q = Some j \<and> group_at pl i g \<and> group_at pl j h \<and>
    (i = j \<or> c = Core_OS \<and> Places_os_group pl (gname g) \<and> Places_os_group pl (gname h))"
proof -
  note D = places_invD [OF inv]
  have "cgroup p \<noteq> None"
    using dedicatedD(5) [OF D(8) p(1) _ p(2)] sv.count_1_unique [OF _ p q] ne by auto
  then obtain i where i: "cgroup p = Some i" by blast
  have "cgroup q \<noteq> None"
    using dedicatedD(5) [OF D(8) q(1) _ q(2)] sv.count_1_unique [OF _ q p] ne by auto
  then obtain j where j: "cgroup q = Some j" by blast
  obtain g where g: "group_at pl i g" "c \<in> set (gcores g)" by (rule member_core [OF inv p(1) i p(2)])
  obtain h where h: "group_at pl j h" "c \<in> set (gcores h)" by (rule member_core [OF inv q(1) j q(2)])
  have "i = j \<or> c = Core_OS \<and> Places_os_group pl (gname g) \<and> Places_os_group pl (gname h)"
  proof (cases "c = Core_OS")
    case True
    then show ?thesis using D(5) g h unfolding inv_os_def by blast
  next
    case False
    then have "core_group pl ! c = Some i" "core_group pl ! c = Some j"
      using D(3) g h unfolding inv_groups_def by blast+
    then show ?thesis by simp
  qed
  with i j g(1) h(1) show ?thesis by blast
qed

section \<open>Errors\<close>

lemma scan_cores_class:
  assumes "scan_cores cs pl cl n want todo ms = Inr ms'" "\<forall>c \<in> set ms. Places_class_ok cs c cl"
  shows "\<forall>c \<in> set ms'. Places_class_ok cs c cl"
  using assms
proof (induction todo arbitrary: ms)
  case (Cons c todo)
  let ?take = "Places_core_free pl c \<and> Places_class_ok cs c cl \<and> Places_class_ok cs c want \<and>
              \<not> list_ex (\<lambda>m. m = c) ms \<and> Core_new c \<noteq> None"
  consider (stop) "length ms = n" | (push) "length ms \<noteq> n" ?take | (skip) "length ms \<noteq> n" "\<not> ?take"
    by blast
  then show ?case
  proof cases
    case stop
    with Cons.prems show ?thesis by simp
  next
    case push
    with Cons.prems(1) have "scan_cores cs pl cl n want todo (ms @ [c]) = Inr ms'"
      by (cases "length ms = MAX_GROUP_CORES") (simp_all add: blist_push_def)
    from Cons.IH [OF this] push(2) Cons.prems(2) show ?thesis by simp
  next
    case skip
    with Cons.prems(1) have "scan_cores cs pl cl n want todo ms = Inr ms'"
      by (simp only: scan_cores.simps if_False)
    from Cons.IH [OF this Cons.prems(2)] show ?thesis .
  qed
qed simp

lemma new_group_class:
  assumes "Places_new_group cs pl name n spec = (Inr gid, pl')"
  shows "\<exists>g. Option.bind (list_get (groups pl') gid) id = Some g \<and>
    find (\<lambda>c. \<not> Places_class_ok cs c (pclass spec)) (gcores g) = None"
proof -
  let ?all = "[1..<min (app_cores cs) CORE_CAP + 1]"
  let ?scan = "rbind (scan_cores cs pl (pclass spec) n (pprefer spec) ?all [])
                  (scan_cores cs pl (pclass spec) n None ?all)"
  note new = assms [unfolded Places_new_group_def Let_def]
  obtain i where pos: "position (\<lambda>g. g = None) (groups pl) = Some i"
    using new by (cases "position (\<lambda>g. g = None) (groups pl)") simp_all
  obtain ms where scan: "?scan = Inr ms"
    using new pos by (cases ?scan) simp_all
  have "\<not> length ms < n" using new pos scan by (cases "length ms < n") simp_all
  with new pos scan have gid: "gid = i" and pl': "groups pl' = (groups pl)[i := Some \<lparr>gname = name, gcores = ms\<rparr>]"
    by auto
  from scan obtain m1 where m: "scan_cores cs pl (pclass spec) n (pprefer spec) ?all [] = Inr m1"
    "scan_cores cs pl (pclass spec) n None ?all m1 = Inr ms"
    unfolding rbind_eq_Inr by blast
  have "\<forall>c \<in> set ms. Places_class_ok cs c (pclass spec)"
    using scan_cores_class [OF m(2) scan_cores_class [OF m(1)]] by simp
  then show ?thesis
    using pl' gid free_gid [OF pos] by (simp add: list_get_def find_None_iff)
qed

lemma reserve_error:
  assumes "Places_reserve al pl slot p n g = (Inl e, pl')"
  shows "pl' = pl \<and> (\<exists>k. e = OutOfMemory k)"
  using assms SlotVec_insert_cases [of "can_grow al" "entry_bytes al" "cages pl" slot
        "\<lparr>primary = p, span = n, cgroup = g\<rparr>"]
  by (auto simp: Places_reserve_def split: sum.splits prod.splits)

lemma place_in_group_error:
  assumes "place_in_group al cs pl slot gid n cl = (Inl e, pl')"
  shows "pl' = pl"
  using assms reserve_error
  by (auto simp: place_in_group_def split: option.splits if_splits)

lemma place_in_new_group_error:
  assumes inv: "places_inv pl" and none: "Places_group_id pl name = None"
    and nos: "\<not> Places_os_group pl name" and n: "1 \<le> n"
    and new: "Places_new_group cs pl name n spec = (Inr gid, pl1)"
    and err: "place_in_group al cs pl1 slot gid n (pclass spec) = (Inl e, pl')"
  shows "\<exists>k. e = OutOfMemory k"
proof -
  obtain g where g: "Option.bind (list_get (groups pl1) gid) id = Some g"
    "find (\<lambda>c. \<not> Places_class_ok cs c (pclass spec)) (gcores g) = None"
    using new_group_class [OF new] by blast
  then have at: "group_at pl1 gid g" by (auto simp: list_get_def split: if_splits)
  then have len: "length (gcores g) = n" using new_group_inv(2) [OF inv none nos n new] by auto
  then have "least_loaded pl1 None (gcores g) \<noteq> None" using n by (auto simp: least_loaded_None)
  then obtain c where "least_loaded pl1 None (gcores g) = Some c" by blast
  with err g len have "Places_reserve al pl1 slot c 1 (Some gid) = (Inl e, pl')"
    by (simp add: place_in_group_def)
  from reserve_error [OF this] show ?thesis by blast
qed

lemma new_group_error: "Places_new_group cs pl name n spec = (Inl e, pl') \<Longrightarrow> pl' = pl"
  unfolding Places_new_group_def Let_def
  by (cases "position (\<lambda>g. g = None) (groups pl)") (simp_all split: sum.splits if_splits)

lemma place_os_error:
  assumes "Places_place_os al cs pl slot name spec = (Inl e, pl')" "\<forall>k. e \<noteq> OutOfMemory k"
  shows "pl' = pl"
  using assms reserve_error unfolding Places_place_os_def
  by (simp split: if_splits option.splits) blast+

lemma place_dedicated_error:
  "Places_place_dedicated al cs pl slot n cl = (Inl e, pl') \<Longrightarrow> pl' = pl"
  using reserve_error unfolding Places_place_dedicated_def by (simp split: option.splits)

lemma place_group_error:
  assumes inv: "places_inv pl" and nos: "\<not> Places_os_group pl name" and n: "1 \<le> n"
    and err: "(case Places_group_id pl name of
                 Some gid \<Rightarrow> place_in_group al cs pl slot gid n (pclass spec)
               | None \<Rightarrow>
                   (case Places_new_group cs pl name n spec of
                      (Inl e, pl') \<Rightarrow> (Inl e, pl')
                    | (Inr gid, pl') \<Rightarrow> place_in_group al cs pl' slot gid n (pclass spec))) = (Inl e, pl')"
    and oom: "\<forall>k. e \<noteq> OutOfMemory k"
  shows "pl' = pl"
proof (cases "Places_group_id pl name")
  case (Some gid)
  with err place_in_group_error show ?thesis by simp
next
  case None
  obtain r pl1 where new: "Places_new_group cs pl name n spec = (r, pl1)" by fastforce
  show ?thesis
  proof (cases r)
    case (Inl e1)
    with err None new have "pl' = pl1" by simp
    with new_group_error new Inl show ?thesis by simp
  next
    case (Inr gid)
    with err None new have "place_in_group al cs pl1 slot gid n (pclass spec) = (Inl e, pl')" by simp
    from place_in_new_group_error [OF inv None nos n new [unfolded Inr] this] oom show ?thesis by blast
  qed
qed

lemma place_error:
  assumes inv: "places_inv pl" and err: "Places_place al cs pl slot spec = (Inl e, pl')"
    and oom: "\<forall>k. e \<noteq> OutOfMemory k"
  shows "pl' = pl"
proof (cases "cage_of pl slot")
  case (Some p)
  with err show ?thesis by (simp add: Places_place_def)
next
  case None
  note err = err [unfolded Places_place_def None Let_def option.case]
  show ?thesis
  proof (cases "group spec")
    case None
    with err place_dedicated_error show ?thesis by simp
  next
    case (Some name)
    note err = err [unfolded Some option.case]
    show ?thesis
    proof (cases "Places_os_group pl name")
      case True
      with err oom place_os_error show ?thesis by simp
    next
      case False
      show ?thesis
      proof (cases "1 < max (cores spec) 1")
        case True
        with err False show ?thesis by (simp only: if_False if_True prod.inject)
      next
        case smp: False
        with err False place_group_error [OF inv False _ _ oom] show ?thesis
          by (simp only: if_False) (meson max.cobounded2)
      qed
    qed
  qed
qed

section \<open>Placing and releasing again\<close>

definition same_places :: "Places \<Rightarrow> Places \<Rightarrow> bool" where
  "same_places pl pl' \<longleftrightarrow> os_groups pl = os_groups pl' \<and> groups pl = groups pl' \<and>
     core_group pl = core_group pl' \<and> core_apps pl = core_apps pl' \<and>
     (\<forall>s. cage_of pl s = cage_of pl' s)"

text \<open>A pool that is in the table because a cage lives on it.\<close>

definition pools_in_use :: "Places \<Rightarrow> bool" where
  "pools_in_use pl \<longleftrightarrow> (\<forall>gid g. group_at pl gid g \<longrightarrow> (\<exists>c \<in> set (gcores g). core_apps pl ! c \<noteq> 0))"

lemma on_run_dec_inc:
  assumes "\<forall>c < length xs. xs ! c < 0xFFFF" "1 \<le> n"
  shows "on_run dec16 p (max n 1) (on_run inc16 p n xs) = xs"
proof (rule nth_equalityI)
  fix i assume i: "i < length (on_run dec16 p (max n 1) (on_run inc16 p n xs))"
  then have "xs ! i < 0xFFFF" "max n 1 = n" using assms by simp_all
  with i show "on_run dec16 p (max n 1) (on_run inc16 p n xs) ! i = xs ! i"
    by (simp add: on_run_nth dec16_def inc16_def min_def)
qed simp

lemma core_apps_small:
  assumes "places_inv pl" "c < length (core_apps pl)"
  shows "core_apps pl ! c < 0xFFFF"
  using assms sv.count_bound [of "cages pl" "\<lambda>p. covers p c"]
  by (simp add: places_inv_def inv_shape_def inv_counts_def SLOT_MAX_def)

lemma reserve_drop:
  assumes inv: "places_inv pl" and none: "cage_of pl slot = None" and n: "1 \<le> n"
    and res: "Places_reserve al pl slot p n g = (Inr c, pl')"
  shows "same_places (drop_cage pl' slot \<lparr>primary = p, span = n, cgroup = g\<rparr>) pl"
    and "cage_of pl' slot = Some \<lparr>primary = p, span = n, cgroup = g\<rparr>"
    and "groups pl' = groups pl" "core_group pl' = core_group pl"
proof -
  have "cage_of pl' slot = Some \<lparr>primary = p, span = n, cgroup = g\<rparr> \<and> groups pl' = groups pl \<and>
      core_group pl' = core_group pl \<and> os_groups pl' = os_groups pl \<and>
      core_apps pl' = on_run inc16 p n (core_apps pl) \<and> (\<forall>r. r \<noteq> slot \<longrightarrow> cage_of pl' r = cage_of pl r)"
    using none
  proof (cases rule: reserve_cases [where al = al and p = p and ?n1.0 = n and g = g])
    case (fail k)
    with res show ?thesis by simp
  next
    case (done1 cs)
    then have "pl' = pl\<lparr>cages := cs, core_apps := on_run inc16 p n (core_apps pl)\<rparr>" using res by simp
    with done1(2) show ?thesis by simp
  qed
  then show "same_places (drop_cage pl' slot \<lparr>primary = p, span = n, cgroup = g\<rparr>) pl"
    and "cage_of pl' slot = Some \<lparr>primary = p, span = n, cgroup = g\<rparr>"
    and "groups pl' = groups pl" "core_group pl' = core_group pl"
    using none n on_run_dec_inc [of "core_apps pl" n p] core_apps_small [OF inv]
    by (simp_all add: same_places_def drop_cage_def sv.get_take)
qed

lemma member_release:
  assumes inv: "places_inv pl" and none: "cage_of pl slot = None" and g: "group_at pl gid g"
    and res: "Places_reserve al pl slot p 1 (Some gid) = (Inr c, pl')"
  shows "(\<exists>c \<in> set (gcores g). core_apps pl ! c \<noteq> 0) \<Longrightarrow> same_places (Places_release pl' slot) pl"
    and "\<forall>c \<in> set (gcores g). core_apps pl ! c = 0 \<Longrightarrow>
      same_places (Places_release pl' slot)
        (pl\<lparr>groups := (groups pl)[gid := None], core_group := free_cores (gcores g) (core_group pl)\<rparr>)"
proof -
  let ?q = "\<lparr>primary = p, span = 1, cgroup = Some gid\<rparr> :: CagePlace"
  note R = reserve_drop [OF inv none order_refl res]
  have g': "group_at pl' gid g" using g R(3) by simp
  have apps: "core_apps (drop_cage pl' slot ?q) = core_apps pl" using R(1) by (simp add: same_places_def)
  have "c < length (core_apps pl)" if "c \<in> set (gcores g)" for c
    using places_invD(1,3) [OF inv] g that unfolding inv_groups_def inv_shape_def by force
  then have idle: "list_all (\<lambda>c. case list_get (core_apps (drop_cage pl' slot ?q)) c of None \<Rightarrow> True | Some n \<Rightarrow> n = 0)
      (gcores g) \<longleftrightarrow> (\<forall>c \<in> set (gcores g). core_apps pl ! c = 0)"
    unfolding apps by (auto simp: list_all_iff list_get_def)
  note rel = release_some(2) [OF R(2) _ g', unfolded idle]
  show "same_places (Places_release pl' slot) pl" if "\<exists>c \<in> set (gcores g). core_apps pl ! c \<noteq> 0"
    using rel R(1) that by auto
  show "same_places (Places_release pl' slot)
        (pl\<lparr>groups := (groups pl)[gid := None], core_group := free_cores (gcores g) (core_group pl)\<rparr>)"
    if "\<forall>c \<in> set (gcores g). core_apps pl ! c = 0"
    using rel R that by (simp add: same_places_def)
qed

lemma new_group_okE:
  assumes new: "Places_new_group cs pl name n spec = (Inr gid, pl')"
  obtains ms where "position (\<lambda>g. g = None) (groups pl) = Some gid" "n \<le> length ms"
    "\<And>c. c \<in> set ms \<Longrightarrow> Places_core_free pl c \<and> 1 \<le> c \<and> c \<le> CORE_CAP"
    "pl' = pl\<lparr>core_group := claim_cores gid ms (core_group pl),
              groups := (groups pl)[gid := Some \<lparr>gname = name, gcores = ms\<rparr>]\<rparr>"
proof -
  let ?all = "[1..<min (app_cores cs) CORE_CAP + 1]"
  let ?scan = "rbind (scan_cores cs pl (pclass spec) n (pprefer spec) ?all [])
                  (scan_cores cs pl (pclass spec) n None ?all)"
  note new = new [unfolded Places_new_group_def Let_def]
  obtain i where pos: "position (\<lambda>g. g = None) (groups pl) = Some i"
    using new by (cases "position (\<lambda>g. g = None) (groups pl)") simp_all
  obtain ms where scan: "?scan = Inr ms" using new pos by (cases ?scan) simp_all
  have len: "\<not> length ms < n" using new pos scan by (cases "length ms < n") simp_all
  note new' = new [unfolded pos scan option.case sum.case if_not_P [OF len] prod.inject sum.inject]
  from scan obtain m1 where m: "scan_cores cs pl (pclass spec) n (pprefer spec) ?all [] = Inr m1"
    "scan_cores cs pl (pclass spec) n None ?all m1 = Inr ms"
    unfolding rbind_eq_Inr by blast
  have "Places_core_free pl c \<and> 1 \<le> c \<and> c \<le> CORE_CAP" if "c \<in> set ms" for c
    using scan_cores_members [OF m(1)] scan_cores_members [OF m(2)] that by auto
  with pos len new' that show ?thesis by (metis not_less)
qed

lemma new_group_release:
  assumes inv: "places_inv pl" and none: "cage_of pl slot = None"
    and nid: "Places_group_id pl name = None" and nos: "\<not> Places_os_group pl name" and n: "1 \<le> n"
    and new: "Places_new_group cs pl name n spec = (Inr gid, pl1)"
    and res: "Places_reserve al pl1 slot p 1 (Some gid) = (Inr c, pl')"
  shows "same_places (Places_release pl' slot) pl"
proof -
  from new obtain ms where pos: "position (\<lambda>g. g = None) (groups pl) = Some gid"
    and "n \<le> length ms" and ms: "\<And>c. c \<in> set ms \<Longrightarrow> Places_core_free pl c \<and> 1 \<le> c \<and> c \<le> CORE_CAP"
    and pl1: "pl1 = pl\<lparr>core_group := claim_cores gid ms (core_group pl),
              groups := (groups pl)[gid := Some \<lparr>gname = name, gcores = ms\<rparr>]\<rparr>"
    using new_group_okE by blast
  note g = free_gid [OF pos]
  have inv1: "places_inv pl1" using new_group_inv(1) [OF inv nid nos n, of cs spec] new by simp
  have cells: "core_group pl ! c = None" "core_apps pl ! c = 0" if "c \<in> set ms" for c
    using ms [OF that] core_free_iff [OF inv, of c] places_invD(2) [OF inv] by (auto simp: inv_counts_def)
  have len: "gid < 256" using g places_invD(1) [OF inv] by (simp add: inv_shape_def MAX_GROUPS_def)
  have "free_cores ms (claim_cores gid ms (core_group pl)) = core_group pl"
    using len cells(1) by (intro nth_equalityI) simp_all
  moreover have "(groups pl)[gid := None] = groups pl" using g by (metis list_update_id)
  moreover have "same_places (Places_release pl' slot) (pl1\<lparr>groups := (groups pl1)[gid := None],
      core_group := free_cores ms (core_group pl1)\<rparr>)"
    using member_release(2) [OF inv1 _ _ res, of "\<lparr>gname = name, gcores = ms\<rparr>"] none g cells(2)
    by (simp add: pl1)
  ultimately show ?thesis by (simp add: pl1 same_places_def)
qed

lemma place_in_group_okE:
  assumes "place_in_group al cs pl slot gid n cl = (Inr c, pl')"
  obtains g where "group_at pl gid g" "length (gcores g) = n"
    "\<forall>c \<in> set (gcores g). Places_class_ok cs c cl" "least_loaded pl None (gcores g) = Some c"
    "Places_reserve al pl slot c 1 (Some gid) = (Inr c, pl')"
proof -
  note a = assms [unfolded place_in_group_def]
  obtain g where g: "Option.bind (list_get (groups pl) gid) id = Some g"
    using a by (cases "Option.bind (list_get (groups pl) gid) id") simp_all
  note a = a [unfolded g option.case]
  have len: "length (gcores g) = n" using a by (cases "length (gcores g) = n") simp_all
  note a = a [unfolded len]
  have cl: "find (\<lambda>c. \<not> Places_class_ok cs c cl) (gcores g) = None"
    using a by (cases "find (\<lambda>c. \<not> Places_class_ok cs c cl) (gcores g)") simp_all
  note a = a [unfolded cl option.case]
  obtain k where k: "least_loaded pl None (gcores g) = Some k"
    using a by (cases "least_loaded pl None (gcores g)") simp_all
  have res: "Places_reserve al pl slot k 1 (Some gid) = (Inr c, pl')" using a k by simp
  then have "k = c" by (auto simp: Places_reserve_def split: sum.splits prod.splits)
  with that g len cl k res show ?thesis by (auto simp: list_get_def find_None_iff split: if_splits)
qed

lemma place_release:
  assumes inv: "places_inv pl" and none: "cage_of pl slot = None" and use: "pools_in_use pl"
    and nos: "\<forall>name. group spec = Some name \<longrightarrow> \<not> Places_os_group pl name"
    and ok: "Places_place al cs pl slot spec = (Inr c, pl')"
  shows "same_places (Places_release pl' slot) pl"
proof -
  let ?n = "max (pool_cores spec) 1"
  note ok = ok [unfolded Places_place_def none Let_def option.case]
  show ?thesis
  proof (cases "group spec")
    case None
    note ok = ok [unfolded None option.case Places_place_dedicated_def]
    then obtain k where "Places_reserve al pl slot k (max (cores spec) 1) None = (Inr c, pl')"
      by (auto split: option.splits)
    note R = reserve_drop [OF inv none _ this]
    show ?thesis using R(1) release_some(1) [OF R(2)] by simp
  next
    case (Some name)
    with nos have name: "\<not> Places_os_group pl name" by simp
    note ok = ok [unfolded Some option.case if_not_P [OF name]]
    have smp: "\<not> 1 < max (cores spec) 1" using ok by (metis Inr_Inl_False prod.inject)
    note ok = ok [unfolded if_not_P [OF smp]]
    show ?thesis
    proof (cases "Places_group_id pl name")
      case (Some gid)
      with ok have "place_in_group al cs pl slot gid ?n (pclass spec) = (Inr c, pl')" by simp
      then obtain g where g: "group_at pl gid g" "Places_reserve al pl slot c 1 (Some gid) = (Inr c, pl')"
        by (rule place_in_group_okE)
      then show ?thesis using member_release(1) [OF inv none] use unfolding pools_in_use_def by blast
    next
      case None
      obtain r pl1 where new: "Places_new_group cs pl name ?n spec = (r, pl1)" by fastforce
      with ok None obtain gid where r: "r = Inr gid" by (cases r) simp_all
      from ok None new r have "place_in_group al cs pl1 slot gid ?n (pclass spec) = (Inr c, pl')" by simp
      then have "Places_reserve al pl1 slot c 1 (Some gid) = (Inr c, pl')" by (rule place_in_group_okE)
      from new_group_release [OF inv none None name _ new [unfolded r] this] show ?thesis by simp
    qed
  qed
qed

section \<open>The promises\<close>

text \<open>
  C1: isolation of cores.  In every state the lifecycle actor can reach by boot, a validated adoption,
  placements and releases, two cages that run on one and the same core both belong to a core group: to the
  same group, or, on the core of the OS, to groups that were allowed to share it.  So a cage without a group
  has its cores to itself, and a pool core serves only its own pool.  The adoption is the code's own check and
  loop, under the one condition that it leaves to the previous kernel: a group that may share the OS core
  comes over pooled on the OS core alone.
\<close>

theorem pool_isolation:
  assumes "pool_reach cs pl"
    and "SlotVec_get (cages pl) s = Some p" "covers p c"
    and "SlotVec_get (cages pl) r = Some q" "covers q c" "s \<noteq> r"
  shows "\<exists>i j g h. cgroup p = Some i \<and> cgroup q = Some j \<and> groups pl ! i = Some g \<and> groups pl ! j = Some h \<and>
    (i = j \<or> c = Core_OS \<and> Places_os_group pl (gname g) \<and> Places_os_group pl (gname h))"
  using shared_core_groups [OF reach_inv [OF assms(1)] assms(2-6)] by blast

text \<open>
  Exact load counters.  In every reachable state the counter of a core is the number of cages on
  it: the saturating \<^verbatim>\<open>u16\<close> arithmetic never saturates and no release is counted twice.
\<close>

theorem pool_loads_exact:
  assumes "pool_reach cs pl" "c \<le> CORE_CAP"
  shows "core_apps pl ! c = card {s. \<exists>p. SlotVec_get (cages pl) s = Some p \<and> covers p c}"
  using places_invD(2) [OF reach_inv [OF assms(1)]] assms(2) by (simp add: inv_counts_def sv.count_def)

text \<open>
  A dedicated placement takes the lowest run of free app cores of the wanted class, records it
  for the slot and leaves every other cage alone.
\<close>

theorem place_lowest_run:
  assumes "pool_reach cs pl" "SlotVec_get (cages pl) slot = None" "group spec = None"
    and "Places_place al cs pl slot spec = (Inr c, pl')"
  shows "Places_run_free cs pl c (max (cores spec) 1) (pclass spec) \<and>
    (\<forall>d. 1 \<le> d \<and> d < c \<longrightarrow> \<not> Places_run_free cs pl d (max (cores spec) 1) (pclass spec)) \<and>
    SlotVec_get (cages pl') slot = Some \<lparr>primary = c, span = max (cores spec) 1, cgroup = None\<rparr> \<and>
    (\<forall>s. s \<noteq> slot \<longrightarrow> SlotVec_get (cages pl') s = SlotVec_get (cages pl) s)"
proof -
  let ?n = "max (cores spec) 1"
  let ?P = "\<lambda>c. Places_run_free cs pl c ?n (pclass spec) \<and> Core_new c \<noteq> None"
  note ok = assms(4) [unfolded Places_place_def assms(2,3) Let_def option.case Places_place_dedicated_def]
  obtain k where k: "find ?P [1..<min (app_cores cs) CORE_CAP + 1] = Some k"
    "Places_reserve al pl slot k ?n None = (Inr c, pl')"
    using ok by (cases "find ?P [1..<min (app_cores cs) CORE_CAP + 1]") simp_all
  have get: "k = c \<and> (\<forall>r. cage_of pl' r =
      (if r = slot then Some \<lparr>primary = c, span = ?n, cgroup = None\<rparr> else cage_of pl r))"
    using assms(2)
  proof (cases rule: reserve_cases [where al = al and p = k and ?n1.0 = ?n and g = None])
    case (fail j)
    with k(2) show ?thesis by simp
  next
    case (done1 cs')
    then have "k = c" "cages pl' = cs'" using k(2) by auto
    with done1(2) show ?thesis by simp
  qed
  note f = find_upt_least [OF k(1)]
  have "\<not> Places_run_free cs pl d ?n (pclass spec)" if "1 \<le> d" "d < c" for d
  proof -
    have "Core_new d \<noteq> None" using f(3) that get by (simp add: Core_new_def)
    then show ?thesis using f(4) that get by blast
  qed
  with f(1) get show ?thesis by auto
qed

text \<open>
  A placement in a known pool takes a core of that pool with the least load, and counts it.
\<close>

theorem place_least_loaded:
  assumes reach: "pool_reach cs pl" and none: "SlotVec_get (cages pl) slot = None"
    and name: "group spec = Some name" "\<not> Places_os_group pl name" "Places_group_id pl name = Some gid"
    and ok: "Places_place al cs pl slot spec = (Inr c, pl')"
  shows "\<exists>g. groups pl ! gid = Some g \<and> gname g = name \<and> c \<in> set (gcores g) \<and>
    (\<forall>m \<in> set (gcores g). core_apps pl ! c \<le> core_apps pl ! m) \<and>
    core_apps pl' = (core_apps pl)[c := core_apps pl ! c + 1]"
proof -
  note inv = reach_inv [OF reach]
  note ok = ok [unfolded Places_place_def none name Let_def option.case if_not_P [OF name(2)]]
  have smp: "\<not> 1 < max (cores spec) 1" using ok by (metis Inr_Inl_False prod.inject)
  have "place_in_group al cs pl slot gid (max (pool_cores spec) 1) (pclass spec) = (Inr c, pl')"
    using ok by (simp only: if_not_P [OF smp])
  then obtain g where g: "group_at pl gid g" and l: "least_loaded pl None (gcores g) = Some c"
    and res: "Places_reserve al pl slot c 1 (Some gid) = (Inr c, pl')"
    by (rule place_in_group_okE)
  have len: "m < length (core_apps pl)" if "m \<in> set (gcores g)" for m
    using places_invD(1,3) [OF inv] g that unfolding inv_groups_def inv_shape_def by force
  have mem: "c \<in> set (gcores g)" using least_loaded_mem [OF l] by simp
  have "core_apps pl ! c \<le> core_apps pl ! m" if "m \<in> set (gcores g)" for m
    using least_loaded_least [OF l] that len mem by (simp add: core_load_def list_get_def)
  moreover have "gname g = name" using group_id_Some [OF name(3)] g by auto
  moreover have "core_apps pl' = on_run inc16 c 1 (core_apps pl)"
    using res by (auto simp: Places_reserve_def split: sum.splits prod.splits)
  then have "core_apps pl' = (core_apps pl)[c := core_apps pl ! c + 1]"
    using len [OF mem] core_apps_small [OF inv len [OF mem]] by (simp add: on_run_def inc16_def)
  ultimately show ?thesis using g mem by blast
qed

text \<open>
  A placement that is refused changes nothing, unless the heap was full.
\<close>

theorem place_refused_unchanged:
  assumes "pool_reach cs pl" "Places_place al cs pl slot spec = (Inl e, pl')" "\<forall>k. e \<noteq> OutOfMemory k"
  shows "pl' = pl"
  by (rule place_error [OF reach_inv [OF assms(1)] assms(2,3)])

text \<open>
  Round trip.  Placing a cage on app cores and releasing it again gives the same groups, core
  claims, counters and cages, when every pool of the table had a cage.
\<close>

theorem place_release_roundtrip:
  assumes "pool_reach cs pl" "SlotVec_get (cages pl) slot = None" "pools_in_use pl"
    and "\<forall>name. group spec = Some name \<longrightarrow> \<not> Places_os_group pl name"
    and "Places_place al cs pl slot spec = (Inr c, pl')"
  shows "same_places (Places_release pl' slot) pl"
  by (rule place_release [OF reach_inv [OF assms(1)] assms(2-5)])

section \<open>Concrete histories\<close>

definition two_cores :: Cores where
  "two_cores = \<lparr>app_cores = 2, core_class = (\<lambda>_. None)\<rparr>"

definition heap_free :: Alloc where
  "heap_free = \<lparr>can_grow = (\<lambda>_. True), entry_bytes = 40\<rparr>"

definition heap_full :: Alloc where
  "heap_full = \<lparr>can_grow = (\<lambda>_. False), entry_bytes = 40\<rparr>"

definition alone :: "nat \<Rightarrow> Placement" where
  "alone n = \<lparr>group = None, pool_cores = 1, cores = n, pclass = None, pprefer = None\<rparr>"

lift_definition Slot_2 :: Slot is 2
  by (simp add: SLOT_MAX_def)

lift_definition Slot_3 :: Slot is 3
  by (simp add: SLOT_MAX_def)

definition hop1 :: Places where
  "hop1 = snd (Places_place heap_free two_cores Places_new Slot_FIRST (Placement_hop HopGroup_init))"

definition hop2 :: Places where
  "hop2 = snd (Places_place heap_free two_cores hop1 Slot_2 (Placement_hop HopGroup_init))"

lemma hop_reach: "pool_reach two_cores hop1" "pool_reach two_cores hop2"
  unfolding hop2_def hop1_def by (rule reach_place reach_new)+

lemma hop_cages:
  "SlotVec_get (cages hop2) Slot_FIRST = Some \<lparr>primary = 1, span = 1, cgroup = Some 0\<rparr>"
  "SlotVec_get (cages hop2) Slot_2 = Some \<lparr>primary = 1, span = 1, cgroup = Some 0\<rparr>"
  "SlotVec_get (cages hop1) Slot_2 = None"
  by code_simp+

theorem pool_isolation_witness:
  "\<exists>i j g h. Some 0 = Some i \<and> Some 0 = Some j \<and> groups hop2 ! i = Some g \<and> groups hop2 ! j = Some h \<and>
    (i = j \<or> 1 = Core_OS \<and> Places_os_group hop2 (gname g) \<and> Places_os_group hop2 (gname h))"
proof -
  have "Slot_FIRST \<noteq> Slot_2" by code_simp
  with pool_isolation [OF hop_reach(2) hop_cages(1) _ hop_cages(2), of 1] show ?thesis by simp
qed

theorem pool_loads_exact_witness:
  "card {s. \<exists>p. SlotVec_get (cages hop2) s = Some p \<and> covers p 1} = 2"
proof -
  have "core_apps hop2 ! 1 = 2" by code_simp
  with pool_loads_exact [OF hop_reach(2), of 1] show ?thesis by (simp add: CORE_CAP_def)
qed

theorem place_lowest_run_witness:
  "Places_run_free two_cores Places_new 1 2 None \<and>
    SlotVec_get (cages (snd (Places_place heap_free two_cores Places_new Slot_FIRST (alone 2)))) Slot_FIRST =
      Some \<lparr>primary = 1, span = 2, cgroup = None\<rparr>"
proof -
  have none: "SlotVec_get (cages Places_new) Slot_FIRST = None" by code_simp
  have "fst (Places_place heap_free two_cores Places_new Slot_FIRST (alone 2)) = Inr 1" by code_simp
  then have ok: "Places_place heap_free two_cores Places_new Slot_FIRST (alone 2) =
      (Inr 1, snd (Places_place heap_free two_cores Places_new Slot_FIRST (alone 2)))"
    by (metis prod.collapse)
  have spec: "group (alone 2) = None" "max (cores (alone 2)) 1 = 2" "pclass (alone 2) = None"
    by (simp_all add: alone_def)
  from place_lowest_run [OF reach_new none spec(1) ok] show ?thesis unfolding spec by blast
qed

theorem place_least_loaded_witness:
  "\<exists>g. groups hop1 ! 0 = Some g \<and> gname g = HOP_GROUP \<and> 1 \<in> set (gcores g) \<and>
    (\<forall>m \<in> set (gcores g). core_apps hop1 ! 1 \<le> core_apps hop1 ! m) \<and>
    core_apps hop2 = (core_apps hop1)[1 := core_apps hop1 ! 1 + 1]"
proof -
  have "fst (Places_place heap_free two_cores hop1 Slot_2 (Placement_hop HopGroup_init)) = Inr 1" by code_simp
  then have "Places_place heap_free two_cores hop1 Slot_2 (Placement_hop HopGroup_init) = (Inr 1, hop2)"
    unfolding hop2_def by (metis prod.collapse)
  moreover have "group (Placement_hop HopGroup_init) = Some HOP_GROUP" by code_simp
  moreover have "\<not> Places_os_group hop1 HOP_GROUP" by code_simp
  moreover have "Places_group_id hop1 HOP_GROUP = Some 0" by code_simp
  ultimately show ?thesis using place_least_loaded [OF hop_reach(1) hop_cages(3)] by blast
qed

theorem place_refused_unchanged_witness:
  "snd (Places_place heap_free two_cores hop2 Slot_3 (alone 2)) = hop2"
proof -
  have "fst (Places_place heap_free two_cores hop2 Slot_3 (alone 2)) = Inl (NoCores 2)"
    by code_simp
  then have "Places_place heap_free two_cores hop2 Slot_3 (alone 2) =
      (Inl (NoCores 2), snd (Places_place heap_free two_cores hop2 Slot_3 (alone 2)))"
    by (metis prod.collapse)
  from place_refused_unchanged [OF hop_reach(2) this] show ?thesis by simp
qed

theorem place_release_roundtrip_witness:
  "same_places (Places_release hop1 Slot_FIRST) Places_new"
proof -
  have "fst (Places_place heap_free two_cores Places_new Slot_FIRST (Placement_hop HopGroup_init)) = Inr 1"
    by code_simp
  then have "Places_place heap_free two_cores Places_new Slot_FIRST (Placement_hop HopGroup_init) = (Inr 1, hop1)"
    unfolding hop1_def by (metis prod.collapse)
  moreover have "SlotVec_get (cages Places_new) Slot_FIRST = None" by code_simp
  moreover have "pools_in_use Places_new"
    by (auto simp: pools_in_use_def Places_new_def nth_replicate simp del: replicate.simps)
  moreover have "\<not> Places_os_group Places_new name" for name
    by (simp add: Places_os_group_def Places_new_def)
  ultimately show ?thesis using place_release_roundtrip [OF reach_new] by blast
qed

text \<open>
  When the cage table cannot grow, the pool that \<open>place\<close> made for the cage stays behind: the core is
  claimed by a group that has no cage, and no release can free it.
\<close>

lemma place_oom_leaks_pool:
  "Places_place heap_full two_cores Places_new Slot_FIRST (Placement_hop HopGroup_init) = (r, pl) \<Longrightarrow>
     r = Inl (OutOfMemory 80) \<and> SlotVec_get (cages pl) s = None \<and> \<not> Places_core_free pl 1"
proof -
  assume "Places_place heap_full two_cores Places_new Slot_FIRST (Placement_hop HopGroup_init) = (r, pl)"
  moreover have "(case Places_place heap_full two_cores Places_new Slot_FIRST (Placement_hop HopGroup_init) of
      (r, pl) \<Rightarrow> r = Inl (OutOfMemory 80) \<and> cages pl = [] \<and> \<not> Places_core_free pl 1)" by code_simp
  ultimately show ?thesis by (simp add: SlotVec_get_def list_get_def)
qed

text \<open>
  What \<open>validate_adoption\<close> leaves open.  The previous kernel did not let Hop share the OS core, this one does:
  Hop comes over on app core 1, which the check accepts.  Its next cage goes to the OS core; when the first
  leaves, the group is dropped although it has a cage; the number of the group goes to the next pool, and
  the cage on the OS core counts as a member of that pool.
\<close>

definition foreign_state :: SlotState where
  "foreign_state = \<lparr>st_share_group = HOP_GROUP, st_group_cores = [1], st_slot = 1, st_part_base = 0x40000000,
     st_part_size = 0x200000, st_core = 1, st_cores = 1\<rparr>"

definition trusting :: Places where
  "trusting = Places_new\<lparr>os_groups := [HOP_GROUP, SYSTEM_GROUP]\<rparr>"

definition foreign1 :: Places where
  "foreign1 = snd (Places_adopt heap_free trusting Slot_FIRST 1 1 (Some (HOP_GROUP, [1])))"

definition foreign2 :: Places where
  "foreign2 = snd (Places_place heap_free two_cores foreign1 Slot_2 (Placement_hop HopGroup_init))"

definition foreign3 :: Places where
  "foreign3 = snd (Places_place heap_free two_cores (Places_release foreign2 Slot_FIRST) Slot_3
     \<lparr>group = Some [0x78], pool_cores = 1, cores = 1, pclass = None, pprefer = None\<rparr>)"

lemma adopt_foreign_pool:
  "validate_adoption [foreign_state] two_cores trusting \<lparr>pfree = [], pfree_cap = 0, capacity = 0, owners = [],
     geo = \<lparr>link_window = id, reserve = (\<lambda>_. 0)\<rparr>\<rparr> = Inr ()"
  "fst (Places_adopt heap_free trusting Slot_FIRST 1 1 (Some (HOP_GROUP, [1]))) = Inr ()"
  "SlotVec_get (cages foreign3) Slot_2 = Some \<lparr>primary = Core_OS, span = 1, cgroup = Some 0\<rparr>"
  "groups foreign3 ! 0 = Some \<lparr>gname = [0x78], gcores = [1]\<rparr>"
proof -
  show "validate_adoption [foreign_state] two_cores trusting \<lparr>pfree = [], pfree_cap = 0, capacity = 0, owners = [],
     geo = \<lparr>link_window = id, reserve = (\<lambda>_. 0)\<rparr>\<rparr> = Inr ()"
    by (simp add: validate_adoption_def check_part_def check_core_def check_group_def foreign_state_def two_cores_def
        is_app_def Slot_new_def SLOT_MAX_def GRAIN_2M_def reserve_of_def checked_add_def ok_or_def MAX_FLIP_JOB_def HOP_GROUP_def)
  show "fst (Places_adopt heap_free trusting Slot_FIRST 1 1 (Some (HOP_GROUP, [1]))) = Inr ()" by code_simp
  show "SlotVec_get (cages foreign3) Slot_2 = Some \<lparr>primary = Core_OS, span = 1, cgroup = Some 0\<rparr>" by code_simp
  show "groups foreign3 ! 0 = Some \<lparr>gname = [0x78], gcores = [1]\<rparr>" by code_simp
qed

end
