(* ===== verification/Dev.thy ===== *)
theory Dev
  imports HopPrelude
begin

unbundle bit_operations_syntax

text \<open>
  The device layer (\<^verbatim>\<open>dev/src/lib.rs\<close>): physical memory as bytes, the volatile accesses, the copy
  routines, the bump allocator and the console policy.  Memory is one store that every access reads
  and writes at once; cache maintenance and barriers (\<^verbatim>\<open>push\<close>, \<^verbatim>\<open>pull\<close>, \<^verbatim>\<open>mb\<close>) order accesses on the
  machine and have no effect on this store.
\<close>

type_synonym Pa = u64
type_synonym mem = "u64 \<Rightarrow> u8"

definition Pa_add :: "Pa \<Rightarrow> u64 \<Rightarrow> Pa" where
  "Pa_add a off = a + off"

definition Pa_is_aligned :: "Pa \<Rightarrow> u64 \<Rightarrow> bool" where
  "Pa_is_aligned a n \<longleftrightarrow> a mod n = 0"

definition LINE :: u64 where
  "LINE = 64"

section \<open>Accesses\<close>

text \<open>\<^verbatim>\<open>to_le_bytes\<close> and \<^verbatim>\<open>from_le_bytes\<close> of a \<^verbatim>\<open>u64\<close>.\<close>

definition to_le_bytes :: "u64 \<Rightarrow> u8 list" where
  "to_le_bytes v = map (\<lambda>i. ucast (drop_bit (8 * i) v)) [0..<8]"

definition from_le_bytes :: "u8 list \<Rightarrow> u64" where
  "from_le_bytes bs = foldr (\<lambda>b v. ucast b OR push_bit 8 v) bs 0"

primrec write_bytes :: "mem \<Rightarrow> Pa \<Rightarrow> u8 list \<Rightarrow> mem" where
  "write_bytes m p [] = m"
| "write_bytes m p (b # bs) = write_bytes (m(p := b)) (p + 1) bs"

primrec read_bytes :: "mem \<Rightarrow> Pa \<Rightarrow> nat \<Rightarrow> u8 list" where
  "read_bytes m p 0 = []"
| "read_bytes m p (Suc n) = m p # read_bytes m (p + 1) n"

definition read8 :: "mem \<Rightarrow> Pa \<Rightarrow> u8" where
  "read8 m p = m p"

definition write8 :: "mem \<Rightarrow> Pa \<Rightarrow> u8 \<Rightarrow> mem" where
  "write8 m p v = m(p := v)"

text \<open>
  A word access is written for an aligned address; the check is a \<^verbatim>\<open>debug_assert\<close>, so a release build performs the
  access wherever it lands, and on Device memory an unaligned one is a fault.  \<open>read64\<close> and \<open>write64\<close> are the
  access that succeeds.  The copy routines below take the word access as an argument, so that it can be shown that
  they never depend on what an unaligned one does (\<open>copy_in_aligned\<close>, \<open>copy_out_aligned\<close>, \<open>clear_aligned\<close>).
\<close>

definition read64 :: "mem \<Rightarrow> Pa \<Rightarrow> u64" where
  "read64 m p = from_le_bytes (read_bytes m p 8)"

definition write64 :: "mem \<Rightarrow> Pa \<Rightarrow> u64 \<Rightarrow> mem" where
  "write64 m p v = write_bytes m p (to_le_bytes v)"

lemma to_le_bytes_length [simp]: "length (to_le_bytes v) = 8"
  by (simp add: to_le_bytes_def)

lemma bit_from_le_bytes:
  "bit (from_le_bytes bs) n \<longleftrightarrow> n < 64 \<and> n div 8 < length bs \<and> bit (bs ! (n div 8)) (n mod 8)"
proof (induction bs arbitrary: n)
  case (Cons b bs)
  have "from_le_bytes (b # bs) = ucast b OR push_bit 8 (from_le_bytes bs)" by (simp add: from_le_bytes_def)
  then have "bit (from_le_bytes (b # bs)) n \<longleftrightarrow>
      n < 64 \<and> (if n < 8 then bit b n else bit (from_le_bytes bs) (n - 8))"
    by (auto simp: bit_or_iff bit_push_bit_iff bit_ucast_iff dest: bit_imp_le_length)
  then show ?case
  proof (cases "n < 8")
    case False
    then have "n div 8 = Suc ((n - 8) div 8)" "n mod 8 = (n - 8) mod 8" by (simp_all add: le_div_geq le_mod_geq)
    with \<open>bit (from_le_bytes (b # bs)) n \<longleftrightarrow> _\<close> False Cons [of "n - 8"] show ?thesis by auto
  qed simp
qed (simp add: from_le_bytes_def)

lemma from_to_le_bytes [simp]: "from_le_bytes (to_le_bytes v) = v"
proof (rule bit_word_eqI)
  fix n assume "n < LENGTH(64)"
  then have n: "n < 64" by simp
  then have "n div 8 < 8" by simp
  then show "bit (from_le_bytes (to_le_bytes v)) n \<longleftrightarrow> bit v n"
    using n by (simp add: bit_from_le_bytes to_le_bytes_def bit_ucast_iff bit_drop_bit_eq)
qed

lemma read_bytes_length [simp]: "length (read_bytes m p n) = n"
  by (induction n arbitrary: p) auto

lemma read_bytes_map: "read_bytes m p n = map (\<lambda>i. m (p + of_nat i)) [0..<n]"
proof (induction n arbitrary: p)
  case (Suc n)
  have "map (\<lambda>i. m (p + of_nat i)) [0..<Suc n] = m p # map (\<lambda>i. m (p + of_nat (Suc i))) [0..<n]"
    by (simp only: upt_conv_Cons [of 0 "Suc n", OF zero_less_Suc] list.map map_Suc_upt [symmetric])
      (simp add: comp_def)
  then show ?case using Suc [of "p + 1"] by (simp add: ac_simps)
qed simp

section \<open>Copies\<close>

text \<open>The three loops of \<^verbatim>\<open>copy_in\<close>: bytes up to alignment, words, the rest.  \<open>w64\<close> is the word store.\<close>

type_synonym store64 = "mem \<Rightarrow> Pa \<Rightarrow> u64 \<Rightarrow> mem"
type_synonym load64 = "mem \<Rightarrow> Pa \<Rightarrow> u64"

fun copy_in_bytes :: "mem \<Rightarrow> Pa \<Rightarrow> u8 list \<Rightarrow> mem \<times> Pa \<times> u8 list" where
  "copy_in_bytes m p [] = (m, p, [])"
| "copy_in_bytes m p (b # s) =
     (if \<not> Pa_is_aligned p 8 then copy_in_bytes (write8 m p b) (Pa_add p 1) s else (m, p, b # s))"

fun copy_in_words :: "store64 \<Rightarrow> mem \<Rightarrow> Pa \<Rightarrow> u8 list \<Rightarrow> mem \<times> Pa \<times> u8 list" where
  "copy_in_words w64 m p s =
     (if 8 \<le> length s
      then copy_in_words w64 (w64 m p (from_le_bytes (take 8 s))) (Pa_add p 8) (drop 8 s)
      else (m, p, s))"

fun copy_in_rest :: "mem \<Rightarrow> Pa \<Rightarrow> u8 list \<Rightarrow> mem" where
  "copy_in_rest m p [] = m"
| "copy_in_rest m p (b # s) = copy_in_rest (write8 m p b) (Pa_add p 1) s"

declare copy_in_words.simps [simp del]

definition copy_in_by :: "store64 \<Rightarrow> mem \<Rightarrow> Pa \<Rightarrow> u8 list \<Rightarrow> mem" where
  "copy_in_by w64 m dst src =
     (case copy_in_bytes m dst src of (m1, p1, s1) \<Rightarrow>
      case copy_in_words w64 m1 p1 s1 of (m2, p2, s2) \<Rightarrow> copy_in_rest m2 p2 s2)"

definition copy_in :: "mem \<Rightarrow> Pa \<Rightarrow> u8 list \<Rightarrow> mem" where
  "copy_in = copy_in_by write64"

text \<open>The same loops of \<^verbatim>\<open>copy_out\<close>; the buffer of \<open>n\<close> bytes is the list they give.\<close>

fun copy_out_bytes :: "mem \<Rightarrow> Pa \<Rightarrow> nat \<Rightarrow> u8 list \<times> Pa \<times> nat" where
  "copy_out_bytes m p n =
     (if 0 < n \<and> \<not> Pa_is_aligned p 8
      then (case copy_out_bytes m (Pa_add p 1) (n - 1) of (d, p', n') \<Rightarrow> (read8 m p # d, p', n'))
      else ([], p, n))"

fun copy_out_words :: "load64 \<Rightarrow> mem \<Rightarrow> Pa \<Rightarrow> nat \<Rightarrow> u8 list \<times> Pa \<times> nat" where
  "copy_out_words r64 m p n =
     (if 8 \<le> n
      then (case copy_out_words r64 m (Pa_add p 8) (n - 8) of
              (d, p', n') \<Rightarrow> (to_le_bytes (r64 m p) @ d, p', n'))
      else ([], p, n))"

fun copy_out_rest :: "mem \<Rightarrow> Pa \<Rightarrow> nat \<Rightarrow> u8 list" where
  "copy_out_rest m p n = (if 0 < n then read8 m p # copy_out_rest m (Pa_add p 1) (n - 1) else [])"

declare copy_out_bytes.simps [simp del]
declare copy_out_words.simps [simp del]
declare copy_out_rest.simps [simp del]

definition copy_out_by :: "load64 \<Rightarrow> mem \<Rightarrow> nat \<Rightarrow> Pa \<Rightarrow> u8 list" where
  "copy_out_by r64 m n src =
     (case copy_out_bytes m src n of (d1, p1, n1) \<Rightarrow>
      case copy_out_words r64 m p1 n1 of (d2, p2, n2) \<Rightarrow> d1 @ d2 @ copy_out_rest m p2 n2)"

definition copy_out :: "mem \<Rightarrow> nat \<Rightarrow> Pa \<Rightarrow> u8 list" where
  "copy_out = copy_out_by read64"

definition copy_in_normal :: "mem \<Rightarrow> Pa \<Rightarrow> u8 list \<Rightarrow> mem" where
  "copy_in_normal m dst src = write_bytes m dst src"

definition copy_out_normal :: "mem \<Rightarrow> nat \<Rightarrow> Pa \<Rightarrow> u8 list" where
  "copy_out_normal m n src = read_bytes m src n"

text \<open>\<^verbatim>\<open>view\<close> lends the bytes to \<open>f\<close>; \<^verbatim>\<open>view_mut\<close> also stores what \<open>f\<close> made of them.\<close>

definition view :: "mem \<Rightarrow> Pa \<Rightarrow> nat \<Rightarrow> (u8 list \<Rightarrow> 'a) \<Rightarrow> 'a" where
  "view m p n f = f (read_bytes m p n)"

definition view_mut :: "mem \<Rightarrow> Pa \<Rightarrow> nat \<Rightarrow> (u8 list \<Rightarrow> 'a \<times> u8 list) \<Rightarrow> 'a \<times> mem" where
  "view_mut m p n f = (case f (read_bytes m p n) of (x, bs) \<Rightarrow> (x, write_bytes m p (take n bs)))"

fun clear_bytes :: "mem \<Rightarrow> Pa \<Rightarrow> nat \<Rightarrow> mem \<times> Pa \<times> nat" where
  "clear_bytes m p n =
     (if 0 < n \<and> \<not> Pa_is_aligned p 8 then clear_bytes (write8 m p 0) (Pa_add p 1) (n - 1)
      else (m, p, n))"

fun clear_words :: "store64 \<Rightarrow> mem \<Rightarrow> Pa \<Rightarrow> nat \<Rightarrow> mem \<times> Pa \<times> nat" where
  "clear_words w64 m p n =
     (if 8 \<le> n then clear_words w64 (w64 m p 0) (Pa_add p 8) (n - 8) else (m, p, n))"

fun clear_rest :: "mem \<Rightarrow> Pa \<Rightarrow> nat \<Rightarrow> mem" where
  "clear_rest m p n = (if 0 < n then clear_rest (write8 m p 0) (Pa_add p 1) (n - 1) else m)"

declare clear_bytes.simps [simp del]
declare clear_words.simps [simp del]
declare clear_rest.simps [simp del]

definition clear_by :: "store64 \<Rightarrow> mem \<Rightarrow> Pa \<Rightarrow> nat \<Rightarrow> mem" where
  "clear_by w64 m p n =
     (case clear_bytes m p n of (m1, p1, n1) \<Rightarrow>
      case clear_words w64 m1 p1 n1 of (m2, p2, n2) \<Rightarrow> clear_rest m2 p2 n2)"

definition clear :: "mem \<Rightarrow> Pa \<Rightarrow> nat \<Rightarrow> mem" where
  "clear = clear_by write64"

section \<open>Bump\<close>

record Bump =
  bnext :: u64
  bend :: u64

definition Bump_new :: "u64 \<Rightarrow> u64 \<Rightarrow> Bump" where
  "Bump_new b n = \<lparr>bnext = b, bend = saturating_add b n\<rparr>"

definition is_power_of_two :: "'n::len word \<Rightarrow> bool" where
  "is_power_of_two a \<longleftrightarrow> a \<noteq> 0 \<and> a AND (a - 1) = 0"

definition checked_next_multiple_of :: "u64 \<Rightarrow> u64 \<Rightarrow> u64 option" where
  "checked_next_multiple_of a n =
     (if n = 0 then None
      else if a mod n = 0 then Some a else checked_add a (n - a mod n))"

definition Bump_take :: "Bump \<Rightarrow> u64 \<Rightarrow> u64 \<Rightarrow> u64 option \<times> Bump" where
  "Bump_take b n align =
     (if \<not> is_power_of_two align then (None, b)
      else case checked_next_multiple_of (bnext b) align of
        None \<Rightarrow> (None, b)
      | Some at \<Rightarrow>
          (case checked_add at n of
             None \<Rightarrow> (None, b)
           | Some e \<Rightarrow> if e > bend b then (None, b) else (Some at, b\<lparr>bnext := e\<rparr>)))"

definition Bump_left :: "Bump \<Rightarrow> u64" where
  "Bump_left b = (if bnext b \<le> bend b then bend b - bnext b else 0)"

section \<open>Stall\<close>

text \<open>
  The console policy.  \<open>ready\<close> gives the answer of the i-th look at the line; the result says whether
  the byte went out.
\<close>

record Stall =
  stalled :: bool
  swait :: nat
  sretry :: nat

definition Stall_new :: "nat \<Rightarrow> nat \<Rightarrow> Stall" where
  "Stall_new w r = \<lparr>stalled = False, swait = w, sretry = r\<rparr>"

definition Stall_put :: "Stall \<Rightarrow> (nat \<Rightarrow> bool) \<Rightarrow> bool \<times> Stall" where
  "Stall_put s ready =
     (let budget = if stalled s then sretry s else swait s in
      if list_ex ready [0..<budget] then (True, s\<lparr>stalled := False\<rparr>)
      else (False, s\<lparr>stalled := True\<rparr>))"

section \<open>Lemmas\<close>

lemma write_bytes_append: "write_bytes m p (xs @ ys) = write_bytes (write_bytes m p xs) (p + of_nat (length xs)) ys"
  by (induction xs arbitrary: m p) (simp_all add: ac_simps)

lemma read_bytes_append: "read_bytes m p (i + j) = read_bytes m p i @ read_bytes m (p + of_nat i) j"
  by (induction i arbitrary: p) (simp_all add: ac_simps)

lemma to_from_le_bytes: "length bs = 8 \<Longrightarrow> to_le_bytes (from_le_bytes bs) = bs"
proof (rule nth_equalityI)
  assume a: "length bs = 8"
  then show "length (to_le_bytes (from_le_bytes bs)) = length bs" by simp
  fix i assume "i < length (to_le_bytes (from_le_bytes bs))"
  then have i: "i < 8" by simp
  show "to_le_bytes (from_le_bytes bs) ! i = bs ! i"
  proof (rule bit_word_eqI)
    fix k assume "k < LENGTH(8)"
    then have k: "k < 8" by simp
    with i have "(8 * i + k) div 8 = i" "(8 * i + k) mod 8 = k" "8 * i + k < 64" by simp_all
    then show "bit (to_le_bytes (from_le_bytes bs) ! i) k \<longleftrightarrow> bit (bs ! i) k"
      using i k a by (simp add: to_le_bytes_def bit_ucast_iff bit_drop_bit_eq bit_from_le_bytes)
  qed
qed

lemma copy_in_bytes_ok:
  "copy_in_bytes m p s = (m', p', s') \<Longrightarrow> write_bytes m' p' s' = write_bytes m p s"
  by (induction s arbitrary: m p) (auto simp: write8_def Pa_add_def split: if_splits)

lemma copy_in_words_ok:
  "copy_in_words write64 m p s = (m', p', s') \<Longrightarrow> write_bytes m' p' s' = write_bytes m p s"
proof (induction "write64 :: store64" m p s rule: copy_in_words.induct)
  case (1 m p s)
  show ?case
  proof (cases "8 \<le> length s")
    case True
    have "write_bytes m p s = write_bytes m p (take 8 s @ drop 8 s)" by simp
    also have "\<dots> = write_bytes (write64 m p (from_le_bytes (take 8 s))) (Pa_add p 8) (drop 8 s)"
      using True by (simp only: write_bytes_append) (simp add: write64_def to_from_le_bytes Pa_add_def)
    finally show ?thesis using 1 True by (simp add: copy_in_words.simps [of _ m p s])
  next
    case False
    with 1(2) show ?thesis by (simp add: copy_in_words.simps [of _ m p s])
  qed
qed

lemma copy_in_rest_ok: "copy_in_rest m p s = write_bytes m p s"
  by (induction s arbitrary: m p) (simp_all add: write8_def Pa_add_def)

lemma copy_in_write_bytes: "copy_in m p s = write_bytes m p s"
  using copy_in_bytes_ok copy_in_words_ok
  by (auto simp: copy_in_def copy_in_by_def copy_in_rest_ok split: prod.splits)

lemma copy_out_bytes_ok:
  "copy_out_bytes m p n = (d, p', n') \<Longrightarrow> d @ read_bytes m p' n' = read_bytes m p n"
proof (induction m p n arbitrary: d rule: copy_out_bytes.induct)
  case (1 m p n)
  show ?case
  proof (cases "0 < n \<and> \<not> Pa_is_aligned p 8")
    case True
    then obtain k where n: "n = Suc k" by (cases n) auto
    obtain d1 where d1: "copy_out_bytes m (Pa_add p 1) (n - 1) = (d1, p', n')" "d = read8 m p # d1"
      using 1(2) True by (auto simp: copy_out_bytes.simps [of m p n] split: prod.splits)
    with 1(1) [OF True d1(1)] n show ?thesis by (simp add: read8_def Pa_add_def)
  next
    case False
    with 1(2) show ?thesis by (auto simp: copy_out_bytes.simps [of m p n])
  qed
qed

lemma copy_out_words_ok:
  "copy_out_words read64 m p n = (d, p', n') \<Longrightarrow> d @ read_bytes m p' n' = read_bytes m p n"
proof (induction "read64 :: load64" m p n arbitrary: d rule: copy_out_words.induct)
  case (1 m p n)
  show ?case
  proof (cases "8 \<le> n")
    case True
    obtain d1 where d1: "copy_out_words read64 m (Pa_add p 8) (n - 8) = (d1, p', n')"
      "d = to_le_bytes (read64 m p) @ d1"
      using 1(2) True by (auto simp: copy_out_words.simps [of _ m p n] split: prod.splits)
    have "read_bytes m p n = read_bytes m p 8 @ read_bytes m (Pa_add p 8) (n - 8)"
      using read_bytes_append [of m p 8 "n - 8"] True by (simp add: Pa_add_def)
    with 1(1) [OF True d1(1)] d1(2) show ?thesis by (simp add: read64_def to_from_le_bytes)
  next
    case False
    with 1(2) show ?thesis by (auto simp: copy_out_words.simps [of _ m p n])
  qed
qed

lemma copy_out_rest_ok: "copy_out_rest m p n = read_bytes m p n"
  by (induction n arbitrary: p) (simp_all add: copy_out_rest.simps [of m] read8_def Pa_add_def)

lemma copy_out_read_bytes: "copy_out m n p = read_bytes m p n"
proof -
  obtain d1 p1 n1 where a: "copy_out_bytes m p n = (d1, p1, n1)" by (metis prod_cases3)
  obtain d2 p2 n2 where b: "copy_out_words read64 m p1 n1 = (d2, p2, n2)" by (metis prod_cases3)
  show ?thesis
    using copy_out_bytes_ok [OF a] copy_out_words_ok [OF b] by (simp add: copy_out_def copy_out_by_def a b copy_out_rest_ok)
qed

text \<open>The reference copy, cell by cell.\<close>

lemma write_bytes_at:
  "length bs \<le> 2 ^ 64 \<Longrightarrow>
     write_bytes m p bs x = (if unat (x - p) < length bs then bs ! unat (x - p) else m x)"
proof (induction bs arbitrary: m p)
  case (Cons b bs)
  show ?case
  proof (cases "x = p")
    case True
    have "unat (p - (p + 1)) = 2 ^ 64 - 1" by (simp add: unsigned_minus_1_eq_mask mask_eq_exp_minus_1)
    with Cons True show ?thesis by simp
  next
    case False
    then have "x - p \<noteq> 0" by simp
    then have "1 \<le> unat (x - p)" by (metis One_nat_def Suc_leI unat_eq_zero neq0_conv)
    moreover from this have "unat (x - p - 1) = unat (x - p) - 1"
      by (simp add: unat_sub word_le_nat_alt)
    moreover have "x - (p + 1) = x - p - 1" by (simp only: diff_diff_eq)
    ultimately have "unat (x - p) = Suc (unat (x - (p + 1)))" by (simp only:)
    with Cons False show ?thesis by simp
  qed
qed simp

lemma read_bytes_nth: "i < n \<Longrightarrow> read_bytes m p n ! i = m (p + of_nat i)"
  by (simp add: read_bytes_map)

lemma read_write_bytes:
  assumes "length bs \<le> 2 ^ 64"
  shows "read_bytes (write_bytes m p bs) p (length bs) = bs"
proof (rule nth_equalityI)
  fix i assume "i < length (read_bytes (write_bytes m p bs) p (length bs))"
  then have i: "i < length bs" by simp
  then have "unat (of_nat i :: u64) = i" using assms by (simp add: unat_of_nat)
  with i assms show "read_bytes (write_bytes m p bs) p (length bs) ! i = bs ! i"
    by (simp add: read_bytes_nth write_bytes_at)
qed simp

lemma read64_write64 [simp]: "read64 (write64 m p v) p = v"
  using read_write_bytes [of "to_le_bytes v" m p] by (simp add: read64_def write64_def)

lemma write_zeros: "write_bytes m p (replicate (Suc n) 0) = write_bytes (m(p := 0)) (p + 1) (replicate n 0)"
  by simp

lemma clear_bytes_ok:
  "clear_bytes m p n = (m', p', n') \<Longrightarrow>
     write_bytes m' p' (replicate n' 0) = write_bytes m p (replicate n 0)"
proof (induction m p n rule: clear_bytes.induct)
  case (1 m p n)
  show ?case
  proof (cases "0 < n \<and> \<not> Pa_is_aligned p 8")
    case True
    then obtain k where "n = Suc k" by (cases n) auto
    with 1 True show ?thesis
      by (simp add: clear_bytes.simps [of m p "Suc k"] write8_def Pa_add_def fun_upd_def)
  next
    case False
    with 1(2) show ?thesis by (simp add: clear_bytes.simps [of m p n])
  qed
qed

lemma clear_words_ok:
  "clear_words write64 m p n = (m', p', n') \<Longrightarrow>
     write_bytes m' p' (replicate n' 0) = write_bytes m p (replicate n 0)"
proof (induction "write64 :: store64" m p n rule: clear_words.induct)
  case (1 m p n)
  show ?case
  proof (cases "8 \<le> n")
    case True
    have z: "to_le_bytes 0 = replicate 8 0" by (simp add: to_le_bytes_def upt_rec numeral_eq_Suc)
    have "replicate n (0 :: u8) = replicate 8 0 @ replicate (n - 8) 0"
      using True by (simp only: replicate_add [symmetric]) simp
    then have "write_bytes m p (replicate n 0) = write_bytes (write64 m p 0) (Pa_add p 8) (replicate (n - 8) 0)"
      by (simp only: write_bytes_append write64_def z Pa_add_def) simp
    with 1 True show ?thesis by (simp add: clear_words.simps [of _ m p n])
  next
    case False
    with 1(2) show ?thesis by (simp add: clear_words.simps [of _ m p n])
  qed
qed

lemma clear_rest_ok: "clear_rest m p n = write_bytes m p (replicate n 0)"
  by (induction n arbitrary: m p) (simp_all add: clear_rest.simps write8_def Pa_add_def)

lemma clear_write_bytes: "clear m p n = write_bytes m p (replicate n 0)"
proof -
  obtain m1 p1 n1 where a: "clear_bytes m p n = (m1, p1, n1)" by (metis prod_cases3)
  obtain m2 p2 n2 where b: "clear_words write64 m1 p1 n1 = (m2, p2, n2)" by (metis prod_cases3)
  show ?thesis
    using clear_bytes_ok [OF a] clear_words_ok [OF b] by (simp add: clear_def clear_by_def a b clear_rest_ok)
qed

section \<open>The copies only make aligned word accesses\<close>

lemma aligned_8: "Pa_is_aligned p 8 \<longleftrightarrow> unat p mod 8 = 0"
  by (simp add: Pa_is_aligned_def word_unat_eq_iff unat_mod_distrib)

lemma aligned_next: "Pa_is_aligned p 8 \<Longrightarrow> Pa_is_aligned (Pa_add p 8) 8"
proof -
  assume "Pa_is_aligned p 8"
  moreover have "unat (p + 8) mod 8 = unat p mod 8" by (simp add: unat_word_ariths mod_mod_cancel)
  ultimately show ?thesis by (simp add: aligned_8 Pa_add_def)
qed

definition stores_alike :: "store64 \<Rightarrow> bool" where
  "stores_alike w64 \<longleftrightarrow> (\<forall>m p v. Pa_is_aligned p 8 \<longrightarrow> w64 m p v = write64 m p v)"

definition loads_alike :: "load64 \<Rightarrow> bool" where
  "loads_alike r64 \<longleftrightarrow> (\<forall>m p. Pa_is_aligned p 8 \<longrightarrow> r64 m p = read64 m p)"

text \<open>The prologue stops at an aligned address, or with nothing left for the word loop.\<close>

lemma copy_in_bytes_stop: "copy_in_bytes m p s = (m', p', s') \<Longrightarrow> Pa_is_aligned p' 8 \<or> s' = []"
  by (induction s arbitrary: m p) (auto split: if_splits)

lemma copy_out_bytes_stop: "copy_out_bytes m p n = (d, p', n') \<Longrightarrow> Pa_is_aligned p' 8 \<or> n' = 0"
proof (induction m p n arbitrary: d rule: copy_out_bytes.induct)
  case (1 m p n)
  then show ?case by (auto simp: copy_out_bytes.simps [of m p n] split: if_splits prod.splits)
qed

lemma clear_bytes_stop: "clear_bytes m p n = (m', p', n') \<Longrightarrow> Pa_is_aligned p' 8 \<or> n' = 0"
proof (induction m p n rule: clear_bytes.induct)
  case (1 m p n)
  then show ?case by (auto simp: clear_bytes.simps [of m p n] split: if_splits)
qed

lemma copy_in_words_alike:
  assumes "stores_alike w64" "Pa_is_aligned p 8"
  shows "copy_in_words w64 m p s = copy_in_words write64 m p s"
  using assms(2)
proof (induction "write64 :: store64" m p s rule: copy_in_words.induct)
  case (1 m p s)
  have w: "w64 m p v = write64 m p v" for v using assms(1) 1(2) by (simp add: stores_alike_def)
  show ?case using 1(1) [OF _ aligned_next [OF 1(2)]] by (simp only: copy_in_words.simps [of _ m p s] w split: if_split) simp
qed

lemma copy_out_words_alike:
  assumes "loads_alike r64" "Pa_is_aligned p 8"
  shows "copy_out_words r64 m p n = copy_out_words read64 m p n"
  using assms(2)
proof (induction "read64 :: load64" m p n rule: copy_out_words.induct)
  case (1 m p n)
  have r: "r64 m p = read64 m p" using assms(1) 1(2) by (simp add: loads_alike_def)
  show ?case using 1(1) [OF _ aligned_next [OF 1(2)]] by (simp only: copy_out_words.simps [of _ m p n] r split: if_split) simp
qed

lemma clear_words_alike:
  assumes "stores_alike w64" "Pa_is_aligned p 8"
  shows "clear_words w64 m p n = clear_words write64 m p n"
  using assms(2)
proof (induction "write64 :: store64" m p n rule: clear_words.induct)
  case (1 m p n)
  have w: "w64 m p v = write64 m p v" for v using assms(1) 1(2) by (simp add: stores_alike_def)
  show ?case using 1(1) [OF _ aligned_next [OF 1(2)]] by (simp only: clear_words.simps [of _ m p n] w split: if_split) simp
qed

lemma copy_in_aligned: "stores_alike w64 \<Longrightarrow> copy_in_by w64 m dst src = copy_in m dst src"
proof -
  assume w: "stores_alike w64"
  obtain m1 p1 s1 where a: "copy_in_bytes m dst src = (m1, p1, s1)" by (metis prod_cases3)
  have "copy_in_words w64 m1 p1 s1 = copy_in_words write64 m1 p1 s1"
    using copy_in_bytes_stop [OF a] copy_in_words_alike [OF w] by (auto simp: copy_in_words.simps [of _ m1 p1 "[]"])
  then show ?thesis by (simp add: copy_in_def copy_in_by_def a)
qed

lemma copy_out_aligned: "loads_alike r64 \<Longrightarrow> copy_out_by r64 m n src = copy_out m n src"
proof -
  assume r: "loads_alike r64"
  obtain d1 p1 n1 where a: "copy_out_bytes m src n = (d1, p1, n1)" by (metis prod_cases3)
  have "copy_out_words r64 m p1 n1 = copy_out_words read64 m p1 n1"
    using copy_out_bytes_stop [OF a] copy_out_words_alike [OF r] by (auto simp: copy_out_words.simps [of _ m p1 0])
  then show ?thesis by (simp add: copy_out_def copy_out_by_def a)
qed

lemma clear_aligned: "stores_alike w64 \<Longrightarrow> clear_by w64 m p n = clear m p n"
proof -
  assume w: "stores_alike w64"
  obtain m1 p1 n1 where a: "clear_bytes m p n = (m1, p1, n1)" by (metis prod_cases3)
  have "clear_words w64 m1 p1 n1 = clear_words write64 m1 p1 n1"
    using clear_bytes_stop [OF a] clear_words_alike [OF w] by (auto simp: clear_words.simps [of _ m1 p1 0])
  then show ?thesis by (simp add: clear_def clear_by_def a)
qed

section \<open>The bump allocator\<close>

lemma next_multiple_ge:
  assumes "checked_next_multiple_of a n = Some b"
  shows "a \<le> b \<and> b mod n = 0"
proof (cases "a mod n = 0")
  case True
  with assms show ?thesis by (auto simp: checked_next_multiple_of_def split: if_splits)
next
  case False
  with assms have n: "n \<noteq> 0" and c: "checked_add a (n - a mod n) = Some b"
    by (auto simp: checked_next_multiple_of_def split: if_splits)
  have m: "a mod n < n" using n by (simp add: word_mod_less_divisor word_neq_0_conv)
  have b: "unat b = unat a + unat (n - a mod n)" using c by (simp add: chk_simps)
  have "unat (n - a mod n) = unat n - unat a mod unat n"
    using m by (simp add: unat_sub unat_mod_distrib order_less_imp_le)
  then have "unat b = unat a + (unat n - unat a mod unat n)" using b by simp
  also have "\<dots> = (unat a div unat n + 1) * unat n"
  proof -
    have "unat a mod unat n < unat n" using n by (simp add: unat_gt_0)
    moreover have "unat a = unat a div unat n * unat n + unat a mod unat n" by simp
    ultimately show ?thesis unfolding add_mult_distrib by linarith
  qed
  finally have "unat (b mod n) = 0" by (simp add: unat_mod_distrib)
  then show ?thesis using b by (simp add: word_le_nat_alt unat_eq_0)
qed

fun Bump_takes :: "Bump \<Rightarrow> (u64 \<times> u64) list \<Rightarrow> (u64 \<times> u64) list" where
  "Bump_takes b [] = []"
| "Bump_takes b ((n, align) # rs) =
     (case Bump_take b n align of
        (None, b') \<Rightarrow> Bump_takes b' rs
      | (Some at, b') \<Rightarrow> (at, n) # Bump_takes b' rs)"

lemma Bump_take_Some:
  assumes "Bump_take b n align = (Some at, b')"
  shows "bnext b \<le> at \<and> at mod align = 0 \<and> unat at + unat n = unat (bnext b') \<and>
    unat (bnext b') \<le> unat (bend b) \<and> bend b' = bend b"
proof -
  from assms have a: "checked_next_multiple_of (bnext b) align = Some at"
    unfolding Bump_take_def by (auto split: if_splits option.splits)
  moreover obtain e where "checked_add at n = Some e" "\<not> e > bend b" "b' = b\<lparr>bnext := e\<rparr>"
    using assms unfolding Bump_take_def by (auto split: if_splits option.splits)
  ultimately show ?thesis using next_multiple_ge [OF a] by (simp add: chk_simps word_le_nat_alt not_less)
qed

lemma Bump_take_None: "Bump_take b n align = (None, b') \<Longrightarrow> b' = b"
  unfolding Bump_take_def by (auto split: if_splits option.splits)

lemma Bump_takes_range:
  "(at, n) \<in> set (Bump_takes b rs) \<Longrightarrow> unat (bnext b) \<le> unat at \<and> unat at + unat n \<le> unat (bend b)"
proof (induction b rs rule: Bump_takes.induct)
  case (2 b n1 align rs)
  obtain r b' where t: "Bump_take b n1 align = (r, b')" by fastforce
  show ?case
  proof (cases r)
    case None
    with 2(1) [OF t [symmetric] None] 2(3) t Bump_take_None show ?thesis by auto
  next
    case (Some a)
    note s = Bump_take_Some [OF t [unfolded Some]]
    with 2(2) [OF t [symmetric] Some] 2(3) t Some show ?thesis by (auto simp: word_le_nat_alt)
  qed
qed simp

text \<open>
  What the bump allocator hands out, whatever is asked of it in whatever order, lies in its range
  and never overlaps: each area begins at or after the end of the one before.
\<close>

theorem Bump_takes_disjoint:
  "list_all (\<lambda>(a, n). unat b \<le> unat a \<and> unat a + unat n \<le> unat b + unat len) (Bump_takes (Bump_new b len) rs) \<and>
   sorted_wrt (\<lambda>(a, n) (a', n'). unat a + unat n \<le> unat a') (Bump_takes (Bump_new b len) rs)"
proof
  have "unat (saturating_add b len) \<le> unat b + unat len"
    by (auto simp: saturating_add_def unat_add_exact unsigned_minus_1_eq_mask mask_eq_exp_minus_1)
  then show "list_all (\<lambda>(a, n). unat b \<le> unat a \<and> unat a + unat n \<le> unat b + unat len) (Bump_takes (Bump_new b len) rs)"
    using Bump_takes_range [of _ _ "Bump_new b len" rs] by (fastforce simp: Bump_new_def list_all_iff)
  have "sorted_wrt (\<lambda>(a, n) (a', n'). unat a + unat n \<le> unat a') (Bump_takes bb rs)" for bb
  proof (induction bb rs rule: Bump_takes.induct)
    case (2 bb n1 align rs)
    obtain r b' where t: "Bump_take bb n1 align = (r, b')" by fastforce
    show ?case
    proof (cases r)
      case None
      with 2(1) [OF t [symmetric] None] t show ?thesis by simp
    next
      case (Some a)
      with 2(2) [OF t [symmetric] Some] t Bump_take_Some [OF t [unfolded Some]] Bump_takes_range [of _ _ b' rs]
      show ?thesis by fastforce
    qed
  qed simp
  then show "sorted_wrt (\<lambda>(a, n) (a', n'). unat a + unat n \<le> unat a') (Bump_takes (Bump_new b len) rs)" .
qed

text \<open>
  C13: the word copies are the byte copy.  After \<^verbatim>\<open>copy_in\<close>, at any alignment, \<^verbatim>\<open>copy_out\<close> gives the bytes
  back, and no byte outside the destination has changed; and neither depends on an unaligned word access: with any
  word load and store that agree with the real ones at aligned addresses, whatever they do elsewhere, the copies do
  the same.
\<close>

theorem copy_roundtrip:
  assumes "length src \<le> 2 ^ 64"
  shows "copy_out (copy_in m dst src) (length src) dst = src \<and>
    (\<forall>x. length src \<le> unat (x - dst) \<longrightarrow> copy_in m dst src x = m x) \<and>
    (\<forall>w64. (\<forall>m p v. Pa_is_aligned p 8 \<longrightarrow> w64 m p v = write64 m p v) \<longrightarrow> copy_in_by w64 m dst src = copy_in m dst src) \<and>
    (\<forall>r64 n. (\<forall>m p. Pa_is_aligned p 8 \<longrightarrow> r64 m p = read64 m p) \<longrightarrow> copy_out_by r64 m n dst = copy_out m n dst)"
  using assms copy_in_aligned copy_out_aligned
  by (simp add: copy_out_read_bytes copy_in_write_bytes read_write_bytes write_bytes_at stores_alike_def loads_alike_def)

text \<open>The witness copies to an odd address with a word store that loses what is written to an unaligned one.\<close>

theorem copy_roundtrip_witness:
  "copy_out (copy_in (\<lambda>_. 0) 0x1003 [1, 2, 3]) 3 0x1003 = [1, 2, 3] \<and>
   copy_in_by (\<lambda>m p v. if Pa_is_aligned p 8 then write64 m p v else m) (\<lambda>_. 0) 0x1003 [1, 2, 3] =
     copy_in (\<lambda>_. 0) 0x1003 [1, 2, 3]"
proof -
  have len: "length [1, 2, 3 :: u8] = 3" "(3 :: nat) \<le> 2 ^ 64" by simp_all
  note use = copy_roundtrip [of "[1, 2, 3]" "\<lambda>_. 0" "0x1003", unfolded len(1), OF len(2)]
  have "copy_in_by (\<lambda>m p v. if Pa_is_aligned p 8 then write64 m p v else m) (\<lambda>_. 0) 0x1003 [1, 2, 3] =
     copy_in (\<lambda>_. 0) 0x1003 [1, 2, 3]"
    by (rule use [THEN conjunct2, THEN conjunct2, THEN conjunct1, rule_format]) simp
  with use [THEN conjunct1] show ?thesis by blast
qed

end
