(* ===== verification/Ring.thy ===== *)
theory Ring
  imports Abi Dev
begin

text \<open>
  The single-producer single-consumer ring of the slot ABI (\<^verbatim>\<open>abi/src/ring.rs\<close>) over shared memory.
  Both sides work on the byte store of \<open>Dev\<close>; indices are \<^verbatim>\<open>u64\<close> words that wrap, every other sum is
  checked and panics on overflow.
\<close>

unbundle bit_operations_syntax

definition HEAD_OFF :: u64 where "HEAD_OFF = 0x00"
definition PRODUCER_WB_OFF :: u64 where "PRODUCER_WB_OFF = 0x08"
definition SIZE_OFF :: u64 where "SIZE_OFF = 0x10"
definition TAIL_OFF :: u64 where "TAIL_OFF = 0x40"
definition CONSUMER_WB_OFF :: u64 where "CONSUMER_WB_OFF = 0x48"
definition DATA_OFF :: u64 where "DATA_OFF = 0x80"
definition REC_HDR :: u64 where "REC_HDR = 8"

definition WB_WORD :: u64 where
  "WB_WORD = from_le_bytes [0x48, 0x4f, 0x50, 0x52, 0x42, 0x2d, 0x57, 0x42]"

lemmas ring_offs = HEAD_OFF_def PRODUCER_WB_OFF_def SIZE_OFF_def TAIL_OFF_def CONSUMER_WB_OFF_def
  DATA_OFF_def REC_HDR_def

type_synonym Kind = u32

definition Kind_LOG :: Kind where "Kind_LOG = 1"
definition Kind_FRAME :: Kind where "Kind_FRAME = 5"
definition Kind_PAD :: u32 where "Kind_PAD = 0"

definition Kind_new :: "u32 \<Rightarrow> Kind option" where
  "Kind_new raw = (if raw = Kind_PAD then None else Some raw)"

datatype Coherence = Maintained | Hardware

definition promise :: "mem \<Rightarrow> Pa \<Rightarrow> u64 \<Rightarrow> Coherence \<Rightarrow> mem" where
  "promise m b off local = (if local = Hardware then write64 m (Pa_add b off) WB_WORD else m)"

definition align8 :: "u64 \<Rightarrow> u64" where
  "align8 n = saturating_add n 7 AND NOT 7"

definition check_backing :: "Pa \<Rightarrow> u64 \<Rightarrow> AbiError + unit" where
  "check_backing b n =
     (let fits = Option.bind (checked_add b DATA_OFF) (\<lambda>d. checked_add d n) \<noteq> None in
      if n < 2 * REC_HDR \<or> n mod 8 \<noteq> 0 \<or> \<not> Pa_is_aligned b 8 \<or> \<not> fits
      then Inl (RingBacking b n) else Inr ())"

definition init :: "mem \<Rightarrow> Pa \<Rightarrow> u64 \<Rightarrow> AbiError + mem" where
  "init m b n =
     rbind (check_backing b n) (\<lambda>_.
       Inr (write64 (clear m b (unat DATA_OFF)) (Pa_add b SIZE_OFF) n))"

section \<open>Geometry\<close>

record Geom =
  gbase :: Pa
  gsize :: u64

definition Geom_head :: "mem \<Rightarrow> Geom \<Rightarrow> u64" where
  "Geom_head m g = read64 m (Pa_add (gbase g) HEAD_OFF)"

definition Geom_tail :: "mem \<Rightarrow> Geom \<Rightarrow> u64" where
  "Geom_tail m g = read64 m (Pa_add (gbase g) TAIL_OFF)"

definition Geom_set_head :: "mem \<Rightarrow> Geom \<Rightarrow> u64 \<Rightarrow> mem" where
  "Geom_set_head m g v = write64 m (Pa_add (gbase g) HEAD_OFF) v"

definition Geom_set_tail :: "mem \<Rightarrow> Geom \<Rightarrow> u64 \<Rightarrow> mem" where
  "Geom_set_tail m g v = write64 m (Pa_add (gbase g) TAIL_OFF) v"

definition Geom_peer_wb :: "mem \<Rightarrow> Geom \<Rightarrow> u64 \<Rightarrow> bool" where
  "Geom_peer_wb m g off \<longleftrightarrow> read64 m (Pa_add (gbase g) off) = WB_WORD"

definition Geom_peer :: "mem \<Rightarrow> Geom \<Rightarrow> u64 \<Rightarrow> u64 \<Rightarrow> bool \<Rightarrow> u64 \<times> bool" where
  "Geom_peer m g off wb_off hw =
     (if hw \<and> read64 m (Pa_add (gbase g) wb_off) = WB_WORD
      then (read64 m (Pa_add (gbase g) off), True)
      else (read64 m (Pa_add (gbase g) off), hw \<and> Geom_peer_wb m g wb_off))"

text \<open>\<^verbatim>\<open>DATA_OFF + off % self.size\<close> is a checked sum; it cannot overflow for a checked backing.\<close>

definition Geom_at :: "Geom \<Rightarrow> u64 \<Rightarrow> 'e fail + Pa" where
  "Geom_at g off = rbind (add64 DATA_OFF (off mod gsize g)) (\<lambda>o1. Inr (Pa_add (gbase g) o1))"

section \<open>Writer\<close>

record Reserved =
  rhead :: u64
  was_empty :: bool
  rhw :: bool

record Writer =
  wg :: Geom
  wlocal :: Coherence
  whead :: u64

definition Writer_open_with :: "mem \<Rightarrow> Pa \<Rightarrow> u64 \<Rightarrow> Coherence \<Rightarrow> AbiError + Writer \<times> mem" where
  "Writer_open_with m b n local =
     rbind (check_backing b n) (\<lambda>_.
       let m1 = promise m b PRODUCER_WB_OFF local; g = \<lparr>gbase = b, gsize = n\<rparr> in
       Inr (\<lparr>wg = g, wlocal = local, whead = Geom_head m1 g\<rparr>, m1))"

definition Writer_open :: "mem \<Rightarrow> Pa \<Rightarrow> u64 \<Rightarrow> AbiError + Writer \<times> mem" where
  "Writer_open m b n = Writer_open_with m b n Maintained"

text \<open>A length is a \<^verbatim>\<open>usize\<close>: \<open>n as u64\<close> keeps it.\<close>

definition Writer_fits :: "Writer \<Rightarrow> nat \<Rightarrow> AbiError fail + bool" where
  "Writer_fits w n = rbind (add64 REC_HDR (align8 (of_nat n))) (\<lambda>need. Inr (need \<le> gsize (wg w) div 2))"

definition Writer_put_hdr :: "mem \<Rightarrow> Writer \<Rightarrow> u64 \<Rightarrow> u64 \<Rightarrow> u32 \<Rightarrow> AbiError fail + mem" where
  "Writer_put_hdr m w off plen kind =
     rbind (Geom_at (wg w) off) (\<lambda>at. Inr (write64 m at (plen OR push_bit 32 (ucast kind))))"

definition Writer_reserve :: "mem \<Rightarrow> Writer \<Rightarrow> nat \<Rightarrow> AbiError fail + Reserved \<times> mem" where
  "Writer_reserve m w plen =
     (let size = gsize (wg w) in
      rbind (add64 REC_HDR (align8 (of_nat plen))) (\<lambda>need.
      if need > size div 2 then Inl (Err (RecordTooLarge need (size div 2)))
      else
        (let head = whead w;
             (tail, hw) = Geom_peer m (wg w) TAIL_OFF CONSUMER_WB_OFF (wlocal w = Hardware);
             used = head - tail in
         if used > size then Inl (Err (RingIndices head tail))
         else
           rbind (sub64 size (head mod size)) (\<lambda>contig.
           rbind
             (if need > contig then
                (if contig < REC_HDR then Inl (Err (RingIndices head tail))
                 else
                   rbind (sub64 size used) (\<lambda>free.
                   rbind (add64 contig need) (\<lambda>want.
                   if free < want then Inl (Err (RingFull want free))
                   else
                     rbind (sub64 contig REC_HDR) (\<lambda>pad.
                     rbind (Writer_put_hdr m w head pad Kind_PAD) (\<lambda>m1.
                     Inr (head + contig, m1))))))
              else Inr (head, m)) (\<lambda>(head', m').
           rbind (sub64 size (head' - tail)) (\<lambda>free.
           if free < need then Inl (Err (RingFull need free))
           else Inr (\<lparr>rhead = head', was_empty = (head = tail), rhw = hw\<rparr>, m')))))))"

text \<open>
  When \<open>reserve\<close> gives up after it wrote a pad header, the pad stays in memory past the published head.
  \<open>reserve\<close> never does so: its last test cannot fail after a pad (\<open>reserve_pad_fits\<close>).
\<close>

definition Writer_publish :: "mem \<Rightarrow> Writer \<Rightarrow> Reserved \<Rightarrow> Kind \<Rightarrow> nat \<Rightarrow> AbiError fail + Writer \<times> mem" where
  "Writer_publish m w r kind plen =
     rbind (Writer_put_hdr m w (rhead r) (of_nat plen) kind) (\<lambda>m1.
     rbind (add64 REC_HDR (align8 (of_nat plen))) (\<lambda>need.
       let h = rhead r + need in
       Inr (w\<lparr>whead := h\<rparr>, Geom_set_head m1 (wg w) h)))"

definition Writer_write :: "mem \<Rightarrow> Writer \<Rightarrow> Kind \<Rightarrow> u8 list \<Rightarrow> AbiError fail + bool \<times> Writer \<times> mem" where
  "Writer_write m w kind p =
     rbind (Writer_reserve m w (length p)) (\<lambda>(r, m1).
     rbind (Geom_at (wg w) (rhead r)) (\<lambda>a.
       let at = Pa_add a REC_HDR;
           m2 = (if rhw r then copy_in_normal m1 at p else copy_in m1 at p) in
     rbind (Writer_publish m2 w r kind (length p)) (\<lambda>(w', m3).
     Inr (was_empty r, w', m3))))"

definition Writer_write_with_kind ::
  "mem \<Rightarrow> Writer \<Rightarrow> nat \<Rightarrow> (u8 list \<Rightarrow> (Kind \<times> nat) option \<times> u8 list) \<Rightarrow>
     AbiError fail + bool option \<times> Writer \<times> mem" where
  "Writer_write_with_kind m w mx f =
     rbind (Writer_reserve m w mx) (\<lambda>(r, m1).
     rbind (Geom_at (wg w) (rhead r)) (\<lambda>a.
       let at = Pa_add a REC_HDR in
       case view_mut m1 at mx f of
         (None, m2) \<Rightarrow> Inr (None, w, m2)
       | (Some (kind, n0), m2) \<Rightarrow>
           let n = min n0 mx in
           if n = 0 then Inr (None, w, m2)
           else rbind (Writer_publish m2 w r kind n) (\<lambda>(w', m3). Inr (Some (was_empty r), w', m3))))"

definition Writer_write_with ::
  "mem \<Rightarrow> Writer \<Rightarrow> Kind \<Rightarrow> nat \<Rightarrow> (u8 list \<Rightarrow> nat \<times> u8 list) \<Rightarrow>
     AbiError fail + bool option \<times> Writer \<times> mem" where
  "Writer_write_with m w kind mx f =
     Writer_write_with_kind m w mx (\<lambda>p. case f p of (n, bs) \<Rightarrow> (Some (kind, n), bs))"

section \<open>Reader\<close>

datatype Corrupt =
    HeadAhead u64 u64 u64
  | HeaderPastEdge u64 u64
  | BadHeader u64 u64 u64 u64 nat

record Record =
  kind :: Kind
  payload :: "u8 list"

record Next =
  nkind :: Kind
  nat_pa :: Pa
  nlen :: nat
  nend :: u64
  nhw :: bool

record Reader =
  rg :: Geom
  corrupt :: "Corrupt option"
  rlocal :: Coherence
  rtail :: u64

definition Reader_open_with :: "mem \<Rightarrow> Pa \<Rightarrow> u64 \<Rightarrow> Coherence \<Rightarrow> AbiError + Reader \<times> mem" where
  "Reader_open_with m b n local =
     rbind (check_backing b n) (\<lambda>_.
       let m1 = promise m b CONSUMER_WB_OFF local; g = \<lparr>gbase = b, gsize = n\<rparr> in
       Inr (\<lparr>rg = g, corrupt = None, rlocal = local, rtail = Geom_tail m1 g\<rparr>, m1))"

definition Reader_open :: "mem \<Rightarrow> Pa \<Rightarrow> u64 \<Rightarrow> AbiError + Reader \<times> mem" where
  "Reader_open m b n = Reader_open_with m b n Maintained"

definition Reader_is_corrupt :: "Reader \<Rightarrow> bool" where
  "Reader_is_corrupt r \<longleftrightarrow> corrupt r \<noteq> None"

definition Reader_mark :: "Reader \<Rightarrow> Corrupt \<Rightarrow> Reader" where
  "Reader_mark r why = (if corrupt r = None then r\<lparr>corrupt := Some why\<rparr> else r)"

definition Reader_head_pending :: "mem \<Rightarrow> Reader \<Rightarrow> u64 \<times> bool" where
  "Reader_head_pending m r =
     (let h = fst (Geom_peer m (rg r) HEAD_OFF PRODUCER_WB_OFF (rlocal r = Hardware));
          n = h - rtail r in (h, n \<noteq> 0 \<and> n \<le> gsize (rg r)))"

definition Reader_free :: "mem \<Rightarrow> Reader \<Rightarrow> u64 \<Rightarrow> bool \<Rightarrow> Reader \<times> mem" where
  "Reader_free m r e hw =
     (r\<lparr>rtail := e\<rparr>,
      if hw then write64 m (Pa_add (gbase (rg r)) TAIL_OFF) e else Geom_set_tail m (rg r) e)"

text \<open>
  One round of the loop of \<^verbatim>\<open>next\<close>: it ends, skips a pad, or aborts.  \<open>Reader_record\<close> is the part after
  the header word was read from its place.
\<close>

datatype round = Stop "Next option" Reader | Skip Reader mem | Abort

definition Reader_record :: "mem \<Rightarrow> Reader \<Rightarrow> nat \<Rightarrow> u64 \<Rightarrow> bool \<Rightarrow> Pa \<Rightarrow> u64 \<Rightarrow> round" where
  "Reader_record m r mx head hw at hdr =
     (case add64 REC_HDR (align8 (ucast (ucast hdr :: u32))) :: AbiError fail + u64 of
        Inl _ \<Rightarrow> Abort
      | Inr need \<Rightarrow>
     (case sub64 (gsize (rg r)) (rtail r mod gsize (rg r)) :: AbiError fail + u64 of
        Inl _ \<Rightarrow> Abort
      | Inr room \<Rightarrow>
          if need > head - rtail r \<or> need > room \<or> unat (ucast hdr :: u32) > mx
          then Stop None (Reader_mark r (BadHeader hdr head (rtail r) (gsize (rg r)) mx))
          else (case Kind_new (ucast (drop_bit 32 hdr)) of
                  None \<Rightarrow> (case Reader_free m r (rtail r + need) hw of (r', m') \<Rightarrow> Skip r' m')
                | Some k \<Rightarrow>
                    Stop (Some \<lparr>nkind = k, nat_pa = Pa_add at REC_HDR, nlen = unat (ucast hdr :: u32),
                                nend = rtail r + need, nhw = hw\<rparr>) r)))"

text \<open>
  The producer runs while the reader looks: each access of a round may find another memory.  \<open>seen\<close> holds
  the memory at each of them, in the order of the code: the promise word, the index, the promise word again,
  the header, and the memory into which the freed index is stored.
\<close>

record seen =
  seen_wb :: mem
  seen_index :: mem
  seen_again :: mem
  seen_hdr :: mem
  seen_store :: mem

definition peer_seen :: "seen \<Rightarrow> Geom \<Rightarrow> u64 \<Rightarrow> u64 \<Rightarrow> bool \<Rightarrow> u64 \<times> bool" where
  "peer_seen s g off wb_off hw =
     (if hw \<and> read64 (seen_wb s) (Pa_add (gbase g) wb_off) = WB_WORD
      then (read64 (seen_index s) (Pa_add (gbase g) off), True)
      else (read64 (seen_index s) (Pa_add (gbase g) off), hw \<and> Geom_peer_wb (seen_again s) g wb_off))"

definition Reader_round_seen :: "seen \<Rightarrow> Reader \<Rightarrow> nat \<Rightarrow> round" where
  "Reader_round_seen s r mx =
     (case peer_seen s (rg r) HEAD_OFF PRODUCER_WB_OFF (rlocal r = Hardware) of (head, hw) \<Rightarrow>
      if head = rtail r then Stop None r
      else if head - rtail r > gsize (rg r)
      then Stop None (Reader_mark r (HeadAhead head (rtail r) (gsize (rg r))))
      else (case sub64 (gsize (rg r)) REC_HDR :: AbiError fail + u64 of
              Inl _ \<Rightarrow> Abort
            | Inr edge \<Rightarrow>
                if rtail r mod gsize (rg r) > edge
                then Stop None (Reader_mark r (HeaderPastEdge (rtail r) (gsize (rg r))))
                else (case Geom_at (rg r) (rtail r) :: AbiError fail + Pa of
                        Inl _ \<Rightarrow> Abort
                      | Inr at \<Rightarrow> Reader_record (seen_store s) r mx head hw at (read64 (seen_hdr s) at))))"

text \<open>
  The loop of \<^verbatim>\<open>next\<close> beside a running producer: round \<open>i\<close> sees \<open>s i\<close>.  The result is where the call stands
  after at most \<open>n\<close> rounds, with the memory before and after each store that it made.
\<close>

datatype standing = Ended "Next option" Reader | Going Reader | Aborted

fun Reader_rounds :: "(nat \<Rightarrow> seen) \<Rightarrow> nat \<Rightarrow> nat \<Rightarrow> nat \<Rightarrow> Reader \<Rightarrow> standing \<times> (mem \<times> mem) list" where
  "Reader_rounds s mx i 0 r = (Going r, [])"
| "Reader_rounds s mx i (Suc n) r =
     (case Reader_round_seen (s i) r mx of
        Stop x r' \<Rightarrow> (Ended x r', [])
      | Abort \<Rightarrow> (Aborted, [])
      | Skip r' m' \<Rightarrow>
          (case Reader_rounds s mx (Suc i) n r' of (out, st) \<Rightarrow> (out, (seen_store (s i), m') # st)))"

definition Reader_next_seen :: "(nat \<Rightarrow> seen) \<Rightarrow> nat \<Rightarrow> nat \<Rightarrow> Reader \<Rightarrow> standing \<times> (mem \<times> mem) list" where
  "Reader_next_seen s mx n r = (if corrupt r \<noteq> None then (Ended None r, []) else Reader_rounds s mx 0 n r)"

text \<open>A round while the producer stands still: every access finds the same memory.\<close>

definition still :: "mem \<Rightarrow> seen" where
  "still m = \<lparr>seen_wb = m, seen_index = m, seen_again = m, seen_hdr = m, seen_store = m\<rparr>"

definition Reader_round :: "mem \<Rightarrow> Reader \<Rightarrow> nat \<Rightarrow> round" where
  "Reader_round m r mx = Reader_round_seen (still m) r mx"

lemma still_simps [simp]:
  "seen_wb (still m) = m" "seen_index (still m) = m" "seen_again (still m) = m" "seen_hdr (still m) = m" "seen_store (still m) = m"
  by (simp_all add: still_def)

lemma peer_still [simp]: "peer_seen (still m) = Geom_peer m"
  by (rule ext)+ (simp add: peer_seen_def Geom_peer_def)

lemmas Reader_round_eq = Reader_round_def Reader_round_seen_def peer_still still_simps

section \<open>The loop of the reader ends\<close>

lemma Geom_peer_fst [simp]: "fst (Geom_peer m g off wb hw) = read64 m (Pa_add (gbase g) off)"
  by (simp add: Geom_peer_def)

lemma Geom_peer_eq:
  "Geom_peer m g off wb hw =
     (read64 m (Pa_add (gbase g) off), hw \<and> read64 m (Pa_add (gbase g) wb) = WB_WORD)"
  by (simp add: Geom_peer_def Geom_peer_wb_def)

lemma read64_write64_other:
  assumes "8 \<le> unat (q - p)" "8 \<le> unat (p - q)"
  shows "read64 (write64 m p v) q = read64 m q"
proof -
  have "read_bytes (write64 m p v) q 8 = read_bytes m q 8"
  proof (rule nth_equalityI)
    fix i assume "i < length (read_bytes (write64 m p v) q 8)"
    then have i: "i < 8" by simp
    have "8 \<le> unat (q + of_nat i - p)"
    proof (rule ccontr)
      assume "\<not> 8 \<le> unat (q + of_nat i - p)"
      then have j: "unat (q + of_nat i - p) < 8" by simp
      have "p - q = of_nat i - (q + of_nat i - p)" by simp
      also have "\<dots> = of_nat i - of_nat (unat (q + of_nat i - p))" by simp
      finally have pq: "p - q = of_nat i - of_nat (unat (q + of_nat i - p))" .
      show False
      proof (cases "unat (q + of_nat i - p) \<le> i")
        case True
        then have "p - q = of_nat (i - unat (q + of_nat i - p))" using pq by (simp only: of_nat_diff)
        then have "unat (p - q) < 8" using i by (simp only:) (simp add: unat_of_nat)
        with assms show False by simp
      next
        case False
        then have "q - p = of_nat (unat (q + of_nat i - p) - i)"
          using pq by (metis minus_diff_eq nat_le_linear of_nat_diff)
        then have "unat (q - p) < 8" using j by (simp only:) (simp add: unat_of_nat)
        with assms show False by simp
      qed
    qed
    then show "read_bytes (write64 m p v) q 8 ! i = read_bytes m q 8 ! i"
      using i by (simp add: read_bytes_nth write64_def write_bytes_at)
  qed simp
  then show ?thesis by (simp add: read64_def)
qed

lemma head_set_tail [simp]:
  "read64 (write64 m (Pa_add b TAIL_OFF) v) (Pa_add b HEAD_OFF) = read64 m (Pa_add b HEAD_OFF)"
proof (rule read64_write64_other)
  have a: "Pa_add b HEAD_OFF - Pa_add b TAIL_OFF = - 0x40" "Pa_add b TAIL_OFF - Pa_add b HEAD_OFF = 0x40"
    by (simp_all add: Pa_add_def ring_offs)
  show "8 \<le> unat (Pa_add b HEAD_OFF - Pa_add b TAIL_OFF)" unfolding a by simp
  show "8 \<le> unat (Pa_add b TAIL_OFF - Pa_add b HEAD_OFF)" unfolding a by simp
qed

text \<open>What a skipped pad was: a header of kind 0 that fits in what was published.\<close>

lemma record_Skip:
  assumes "Reader_record m r mx head hw at hdr = Skip r' m'"
  shows "\<exists>need. r' = r\<lparr>rtail := rtail r + need\<rparr> \<and> m' = Geom_set_tail m (rg r) (rtail r + need) \<and>
    unat need = 8 + unat (align8 (ucast (ucast hdr :: u32))) \<and> need \<le> head - rtail r \<and>
    Kind_new (ucast (drop_bit 32 hdr)) = None"
proof -
  obtain need where need: "(add64 REC_HDR (align8 (ucast (ucast hdr :: u32))) :: AbiError fail + u64) = Inr need"
    using assms by (cases "add64 REC_HDR (align8 (ucast (ucast hdr :: u32))) :: AbiError fail + u64")
      (simp_all add: Reader_record_def)
  obtain room where room: "(sub64 (gsize (rg r)) (rtail r mod gsize (rg r)) :: AbiError fail + u64) = Inr room"
    using assms need by (cases "sub64 (gsize (rg r)) (rtail r mod gsize (rg r)) :: AbiError fail + u64")
      (simp_all add: Reader_record_def)
  note a = assms [unfolded Reader_record_def need room sum.case]
  have ok: "\<not> (need > head - rtail r \<or> need > room \<or> unat (ucast hdr :: u32) > mx)"
    using a by (metis round.distinct(1))
  note a = a [unfolded if_not_P [OF ok]]
  have k: "Kind_new (ucast (drop_bit 32 hdr)) = None"
    using a by (cases "Kind_new (ucast (drop_bit 32 hdr))") simp_all
  note a = a [unfolded k option.case Reader_free_def prod.case]
  have "unat need = 8 + unat (align8 (ucast (ucast hdr :: u32)))"
    using need by (simp add: add64_eq_Inr REC_HDR_def)
  moreover have "r' = r\<lparr>rtail := rtail r + need\<rparr> \<and> m' = Geom_set_tail m (rg r) (rtail r + need)"
    using a by (auto simp: Geom_set_tail_def split: if_splits)
  ultimately show ?thesis using ok k by (intro exI [of _ need]) (simp add: not_less)
qed

lemma seen_cases:
  obtains (empty) "Geom_head (seen_index s) (rg r) = rtail r" "Reader_round_seen s r mx = Stop None r"
  | (bad) why where "Reader_round_seen s r mx = Stop None (Reader_mark r why)"
  | (abort) "Reader_round_seen s r mx = Abort" "\<not> (8 \<le> gsize (rg r) \<and> unat (gsize (rg r)) < 2 ^ 64 - 0x80)"
  | (rec1) at where "Geom_head (seen_index s) (rg r) - rtail r \<le> gsize (rg r)" "8 \<le> gsize (rg r)"
      "rtail r mod gsize (rg r) \<le> gsize (rg r) - 8"
      "at = gbase (rg r) + (0x80 + rtail r mod gsize (rg r))"
      "Reader_round_seen s r mx = Reader_record (seen_store s) r mx (Geom_head (seen_index s) (rg r))
         (snd (peer_seen s (rg r) HEAD_OFF PRODUCER_WB_OFF (rlocal r = Hardware))) at (read64 (seen_hdr s) at)"
proof -
  let ?head = "Geom_head (seen_index s) (rg r)" and ?size = "gsize (rg r)"
  have d: "Reader_round_seen s r mx = (if ?head = rtail r then Stop None r
      else if ?head - rtail r > ?size then Stop None (Reader_mark r (HeadAhead ?head (rtail r) ?size))
      else (case sub64 ?size REC_HDR :: AbiError fail + u64 of
              Inl _ \<Rightarrow> Abort
            | Inr edge \<Rightarrow>
                if rtail r mod ?size > edge
                then Stop None (Reader_mark r (HeaderPastEdge (rtail r) ?size))
                else (case Geom_at (rg r) (rtail r) :: AbiError fail + Pa of
                        Inl _ \<Rightarrow> Abort
                      | Inr at \<Rightarrow> Reader_record (seen_store s) r mx ?head
                          (snd (peer_seen s (rg r) HEAD_OFF PRODUCER_WB_OFF (rlocal r = Hardware)))
                          at (read64 (seen_hdr s) at))))"
    unfolding Reader_round_seen_def peer_seen_def Geom_head_def
    by (cases "rlocal r = Hardware \<and> read64 (seen_wb s) (Pa_add (gbase (rg r)) PRODUCER_WB_OFF) = WB_WORD") (simp_all only: if_True if_False prod.case snd_conv simp_thms)
  show ?thesis
  proof (cases "?head = rtail r")
    case True
    show ?thesis by (rule empty [OF True]) (unfold d, rule if_P [OF True])
  next
    case ne: False
    note d = d [unfolded if_not_P [OF ne]]
    show ?thesis
    proof (cases "?head - rtail r > ?size")
      case True
      show ?thesis by (rule bad) (simp only: d True if_True)
    next
      case le: False
      note d = d [unfolded if_not_P [OF le]]
      show ?thesis
      proof (cases "8 \<le> ?size")
        case False
        then have e: "(sub64 ?size REC_HDR :: AbiError fail + u64) = Inl Panic" by (simp add: sub64_def REC_HDR_def)
        show ?thesis by (rule abort) (simp_all only: d e sum.case False simp_thms)
      next
        case True
        then have e: "(sub64 ?size REC_HDR :: AbiError fail + u64) = Inr (?size - 8)"
          by (simp add: sub64_def REC_HDR_def)
        note d = d [unfolded e sum.case]
        show ?thesis
        proof (cases "rtail r mod ?size > ?size - 8")
          case True
          show ?thesis by (rule bad) (simp only: d True if_True)
        next
          case edge: False
          note d = d [unfolded if_not_P [OF edge]]
          show ?thesis
          proof (cases "unat (0x80 :: u64) + unat (rtail r mod ?size) < 2 ^ 64")
            case fits: True
            then have at: "(Geom_at (rg r) (rtail r) :: AbiError fail + Pa) =
                Inr (gbase (rg r) + (0x80 + rtail r mod ?size))"
              unfolding Geom_at_def add64_def DATA_OFF_def by (simp only: if_True rbind.simps Pa_add_def)
            show ?thesis
              by (rule rec1 [OF le [unfolded not_less] True edge [unfolded not_less] refl])
                (simp only: d at sum.case)
          next
            case no: False
            then have at: "(Geom_at (rg r) (rtail r) :: AbiError fail + Pa) = Inl Panic"
              unfolding Geom_at_def add64_def DATA_OFF_def by (simp only: if_False rbind.simps)
            have "\<not> unat ?size < 2 ^ 64 - 0x80"
            proof -
              have "unat (rtail r mod ?size) \<le> unat ?size - 8"
                using edge True by (simp add: not_less word_le_nat_alt unat_sub)
              with no show ?thesis by simp
            qed
            then show ?thesis by (intro abort) (simp_all only: d at sum.case simp_thms)
          qed
        qed
      qed
    qed
  qed
qed

lemma round_cases:
  obtains (empty) "Geom_head m (rg r) = rtail r" "Reader_round m r mx = Stop None r"
  | (bad) why where "Reader_round m r mx = Stop None (Reader_mark r why)"
  | (abort) "Reader_round m r mx = Abort" "\<not> (8 \<le> gsize (rg r) \<and> unat (gsize (rg r)) < 2 ^ 64 - 0x80)"
  | (rec1) at where "Geom_head m (rg r) - rtail r \<le> gsize (rg r)" "8 \<le> gsize (rg r)"
      "rtail r mod gsize (rg r) \<le> gsize (rg r) - 8"
      "at = gbase (rg r) + (0x80 + rtail r mod gsize (rg r))"
      "Reader_round m r mx = Reader_record m r mx (Geom_head m (rg r))
         (rlocal r = Hardware \<and> read64 m (Pa_add (gbase (rg r)) PRODUCER_WB_OFF) = WB_WORD) at (read64 m at)"
proof -
  note seen = seen_cases [of "still m" r mx, unfolded still_simps peer_still Geom_peer_eq snd_conv, folded Reader_round_def]
  show thesis by (rule seen [OF empty bad abort rec1])
qed

lemma round_Skip:
  assumes "Reader_round m r mx = Skip r' m'"
  shows "\<exists>need. r' = r\<lparr>rtail := rtail r + need\<rparr> \<and> m' = Geom_set_tail m (rg r) (rtail r + need) \<and>
    8 \<le> unat need \<and> need \<le> Geom_head m (rg r) - rtail r"
proof (cases rule: round_cases [of m r mx])
  case (rec1 at)
  from record_Skip [OF assms [unfolded rec1(5)]] show ?thesis by force
qed (use assms in simp_all)

function (sequential) Reader_next_loop :: "mem \<Rightarrow> Reader \<Rightarrow> nat \<Rightarrow> AbiError fail + Next option \<times> Reader \<times> mem" where
  "Reader_next_loop m r mx =
     (case Reader_round m r mx of
        Stop n r' \<Rightarrow> Inr (n, r', m)
      | Skip r' m' \<Rightarrow> Reader_next_loop m' r' mx
      | Abort \<Rightarrow> Inl Panic)"
  by pat_completeness auto

termination
proof (relation "measure (\<lambda>(m, r, mx). unat (Geom_head m (rg r) - rtail r))")
  fix m r mx r' m'
  assume "Reader_round m r mx = Skip r' m'"
  from round_Skip [OF this] obtain need where n: "r' = r\<lparr>rtail := rtail r + need\<rparr>"
    "m' = Geom_set_tail m (rg r) (rtail r + need)" "8 \<le> unat need" "need \<le> Geom_head m (rg r) - rtail r"
    by blast
  have "Geom_head m' (rg r') = Geom_head m (rg r)" by (simp add: n Geom_head_def Geom_set_tail_def)
  then have "unat (Geom_head m' (rg r') - rtail r') = unat (Geom_head m (rg r) - rtail r - need)"
    by (simp add: n(1) diff_diff_eq)
  also have "\<dots> = unat (Geom_head m (rg r) - rtail r) - unat need" using n(4) by (rule unat_sub)
  finally show "((m', r', mx), m, r, mx) \<in> measure (\<lambda>(m, r, mx). unat (Geom_head m (rg r) - rtail r))"
    using n(3,4) by (simp add: word_le_nat_alt)
qed simp

declare Reader_next_loop.simps [simp del]

definition Reader_next :: "mem \<Rightarrow> Reader \<Rightarrow> nat \<Rightarrow> AbiError fail + Next option \<times> Reader \<times> mem" where
  "Reader_next m r mx = (if corrupt r \<noteq> None then Inr (None, r, m) else Reader_next_loop m r mx)"

definition Reader_read_into :: "mem \<Rightarrow> Reader \<Rightarrow> nat \<Rightarrow> AbiError fail + Record option \<times> Reader \<times> mem" where
  "Reader_read_into m r buf_len =
     rbind (Reader_next m r buf_len) (\<lambda>(n, r1, m1).
       case n of
         None \<Rightarrow> Inr (None, r1, m1)
       | Some n \<Rightarrow>
           (let p = (if nhw n then copy_out_normal m1 (nlen n) (nat_pa n)
                     else copy_out m1 (nlen n) (nat_pa n)) in
            case Reader_free m1 r1 (nend n) (nhw n) of (r2, m2) \<Rightarrow>
            Inr (Some \<lparr>kind = nkind n, payload = p\<rparr>, r2, m2)))"

definition Reader_read_with ::
  "mem \<Rightarrow> Reader \<Rightarrow> nat \<Rightarrow> (Kind \<Rightarrow> u8 list \<Rightarrow> 'a) \<Rightarrow> AbiError fail + 'a option \<times> Reader \<times> mem" where
  "Reader_read_with m r mx f =
     rbind (Reader_next m r mx) (\<lambda>(n, r1, m1).
       case n of
         None \<Rightarrow> Inr (None, r1, m1)
       | Some n \<Rightarrow>
           (let out = view m1 (nat_pa n) (nlen n) (f (nkind n)) in
            case Reader_free m1 r1 (nend n) (nhw n) of (r2, m2) \<Rightarrow> Inr (Some out, r2, m2)))"

end
