(* ===== verification/RingSafe.thy ===== *)
theory RingSafe
  imports Ring
begin

text \<open>
  What the ring promises.  Against a hostile peer: whatever the shared memory holds and however it
  changes between two accesses, the reader hands out only bytes of the data area and writes only its own
  index, and it ends once the head stays the same; the writer writes only the data area and its own index.  Between two honest sides: the ring is a FIFO queue of records.
\<close>

unbundle bit_operations_syntax

section \<open>Cells of a checked backing\<close>

abbreviation adr :: "Pa \<Rightarrow> nat \<Rightarrow> Pa" where
  "adr b k \<equiv> b + of_nat k"

definition backing :: "Pa \<Rightarrow> u64 \<Rightarrow> bool" where
  "backing b n \<longleftrightarrow> 16 \<le> unat n \<and> unat n mod 8 = 0 \<and> unat b + 0x80 + unat n < 2 ^ 64"

lemma check_backing_ok: "check_backing b n = Inr () \<Longrightarrow> backing b n"
proof -
  assume a: "check_backing b n = Inr ()"
  then have ok: "\<not> n < 16" "n mod 8 = 0" "Option.bind (checked_add b 0x80) (\<lambda>d. checked_add d n) \<noteq> None"
    unfolding check_backing_def Let_def DATA_OFF_def REC_HDR_def by (auto split: if_splits)
  from ok(3) obtain d e where "checked_add b 0x80 = Some d" "checked_add d n = Some e"
    by (auto simp: bind_eq_None_conv)
  then have "unat e = unat b + 0x80 + unat n" by (simp add: chk_simps)
  then have "unat b + 0x80 + unat n < 2 ^ 64" using unat64_less [of e] by simp
  moreover have "unat n mod 8 = unat (n mod 8)" by (simp add: unat_mod_distrib)
  ultimately show ?thesis using ok(1,2) by (simp add: backing_def word_less_nat_alt)
qed

lemma adr_unat: "unat b + k < 2 ^ 64 \<Longrightarrow> unat (adr b k) = unat b + k"
  by (simp add: unat_word_ariths unat_of_nat)

lemma unat_diff_up: "k < 2 ^ 64 \<Longrightarrow> k0 \<le> k \<Longrightarrow> unat (of_nat k - of_nat k0 :: u64) = k - k0"
proof -
  assume a: "k < 2 ^ 64" "k0 \<le> k"
  then have "of_nat k - of_nat k0 = (of_nat (k - k0) :: u64)" by (simp add: of_nat_diff)
  with a show ?thesis by (simp only: unat_of_nat) simp
qed

lemma unat_diff_down:
  "k0 < 2 ^ 64 \<Longrightarrow> k < k0 \<Longrightarrow> unat (of_nat k - of_nat k0 :: u64) = 2 ^ 64 - (k0 - k)"
proof -
  assume a: "k0 < 2 ^ 64" "k < k0"
  have "of_nat (2 ^ 64) = (0 :: u64)" by simp
  then have "of_nat k - of_nat k0 = (of_nat (2 ^ 64) + of_nat k) - (of_nat k0 :: u64)" by simp
  also have "\<dots> = of_nat (2 ^ 64 + k) - of_nat k0" by (simp only: of_nat_add)
  also have "\<dots> = of_nat (2 ^ 64 + k - k0)" using a by (subst of_nat_diff) simp_all
  finally have "of_nat k - of_nat k0 = (of_nat (2 ^ 64 - (k0 - k)) :: u64)" using a by simp
  with a show ?thesis by (simp only: unat_of_nat) simp
qed

text \<open>Writing bytes at a cell, read back at a cell.\<close>

lemma write_cell:
  assumes "unat b + (k0 + length bs) < 2 ^ 64" "unat b + k < 2 ^ 64"
  shows "write_bytes m (adr b k0) bs (adr b k) =
    (if k0 \<le> k \<and> k < k0 + length bs then bs ! (k - k0) else m (adr b k))"
proof -
  have d: "adr b k - adr b k0 = of_nat k - of_nat k0" by simp
  have l: "length bs \<le> 2 ^ 64" using assms(1) by simp
  show ?thesis
  proof (cases "k0 \<le> k")
    case True
    then have "unat (adr b k - adr b k0) = k - k0"
      unfolding d using assms(2) by (intro unat_diff_up) simp_all
    with True show ?thesis unfolding write_bytes_at [OF l] by auto
  next
    case False
    then have "unat (adr b k - adr b k0) = 2 ^ 64 - (k0 - k)"
      unfolding d using assms(1) by (intro unat_diff_down) simp_all
    moreover have "length bs \<le> 2 ^ 64 - (k0 - k)" using assms by simp
    ultimately show ?thesis using False unfolding write_bytes_at [OF l] by simp
  qed
qed

lemma read_cells: "read_bytes m (adr b k) n = map (\<lambda>i. m (adr b (k + i))) [0..<n]"
  by (simp add: read_bytes_map add.assoc)

lemma read_bytes_cong:
  "(\<And>i. i < n \<Longrightarrow> m (adr b (k + i)) = m' (adr b (k + i))) \<Longrightarrow>
     read_bytes m (adr b k) n = read_bytes m' (adr b k) n"
  by (simp add: read_cells)

lemma read64_cong:
  "(\<And>i. i < 8 \<Longrightarrow> m (adr b (k + i)) = m' (adr b (k + i))) \<Longrightarrow> read64 m (adr b k) = read64 m' (adr b k)"
  unfolding read64_def using read_bytes_cong [of 8 m b k m'] by simp

text \<open>What a write can change.\<close>

lemma write_bytes_changed:
  assumes "write_bytes m p bs x \<noteq> m x" "unat p + length bs \<le> 2 ^ 64"
  shows "unat p \<le> unat x \<and> unat x < unat p + length bs"
proof -
  have l: "unat (x - p) < length bs" using assms by (auto simp: write_bytes_at split: if_splits)
  have "x = p + (x - p)" by simp
  then have "unat x = unat p + unat (x - p)"
    using l assms(2) unat_add_exact [of p "x - p"] by simp
  with l show ?thesis by simp
qed

section \<open>The reader against any memory\<close>

lemma align8_ge: "unat n + 7 < 2 ^ 64 \<Longrightarrow> unat (align8 n) = (unat n + 7) div 8 * 8"
proof -
  assume a: "unat n + 7 < 2 ^ 64"
  then have s: "saturating_add n 7 = n + 7" by (simp add: saturating_add_def)
  have u: "unat (n + 7) = unat n + 7" using a by (simp add: unat_word_ariths)
  have "(n + 7) AND NOT 7 = push_bit 3 (drop_bit 3 (n + 7))"
  proof (rule bit_word_eqI)
    fix i assume i: "i < LENGTH(64)"
    have e: "(NOT 7 :: u64) = NOT (mask 3)" by (simp add: mask_eq_exp_minus_1)
    show "bit ((n + 7) AND NOT 7) i \<longleftrightarrow> bit (push_bit 3 (drop_bit 3 (n + 7))) i"
      unfolding e bit_and_iff bit_not_iff bit_mask_iff bit_push_bit_iff bit_drop_bit_eq comp_def
      using i by auto
  qed
  then have "align8 n = (n + 7) div 8 * 8"
    unfolding align8_def s by (simp add: push_bit_eq_mult drop_bit_eq_div)
  then have "unat (align8 n) = unat (n + 7) div 8 * 8"
    by (simp add: unat_word_ariths unat_div_distrib)
  then show ?thesis by (simp add: u)
qed

lemma align8_u32: "unat (align8 (ucast (w :: u32))) = (unat w + 7) div 8 * 8"
proof -
  have "unat (ucast w :: u64) = unat w" by (simp add: unsigned_ucast_eq take_bit_nat_eq_self unsigned_less less_le_trans [OF unsigned_less])
  moreover have "unat w < 2 ^ 32" using unat_less_pow [of w] by simp
  ultimately show ?thesis using align8_ge [of "ucast w"] by simp
qed

lemma need_u32: "8 + (k + 7) div 8 * 8 \<ge> 8 + k" for k :: nat
  by linarith

definition in_data :: "Geom \<Rightarrow> Pa \<Rightarrow> nat \<Rightarrow> bool" where
  "in_data g a n \<longleftrightarrow> unat (gbase g) + 0x80 \<le> unat a \<and> unat a + n \<le> unat (gbase g) + 0x80 + unat (gsize g)"

definition only_tail :: "Geom \<Rightarrow> mem \<Rightarrow> mem \<Rightarrow> bool" where
  "only_tail g m m' \<longleftrightarrow> (\<forall>x. m' x \<noteq> m x \<longrightarrow> unat (gbase g) + 0x40 \<le> unat x \<and> unat x < unat (gbase g) + 0x48)"

lemma set_tail_only:
  assumes "backing (gbase g) (gsize g)"
  shows "only_tail g m (Geom_set_tail m g v)"
  unfolding only_tail_def
proof (intro allI impI)
  fix x assume "Geom_set_tail m g v x \<noteq> m x"
  then have c: "write_bytes m (gbase g + 0x40) (to_le_bytes v) x \<noteq> m x"
    by (simp add: Geom_set_tail_def write64_def Pa_add_def TAIL_OFF_def)
  have u: "unat (gbase g + 0x40) = unat (gbase g) + 0x40"
    using adr_unat [of "gbase g" "0x40"] assms by (simp add: backing_def)
  have "unat (gbase g + 0x40) + length (to_le_bytes v) \<le> 2 ^ 64"
    using assms u by (simp add: backing_def)
  from write_bytes_changed [OF c this] show "unat (gbase g) + 0x40 \<le> unat x \<and> unat x < unat (gbase g) + 0x48"
    by (simp add: u)
qed

lemma only_tail_refl: "only_tail g m m"
  by (simp add: only_tail_def)

lemma only_tail_trans: "only_tail g m m' \<Longrightarrow> only_tail g m' m'' \<Longrightarrow> only_tail g m m''"
  unfolding only_tail_def by metis

text \<open>What a record that the reader accepts looks like.\<close>

lemma record_cases:
  fixes hdr :: u64
  defines "l \<equiv> unat (ucast hdr :: u32)"
  assumes size: "rtail r mod gsize (rg r) \<le> gsize (rg r)"
  obtains (reject) why where "Reader_record m r mx head hw at hdr = Stop None (Reader_mark r why)"
  | (pad) need where "unat need = 8 + (l + 7) div 8 * 8" "need \<le> head - rtail r"
      "unat need \<le> unat (gsize (rg r)) - unat (rtail r mod gsize (rg r))" "l \<le> mx"
      "ucast (drop_bit 32 hdr) = (0 :: u32)"
      "Reader_record m r mx head hw at hdr =
         Skip (r\<lparr>rtail := rtail r + need\<rparr>) (Geom_set_tail m (rg r) (rtail r + need))"
  | (found) need where "unat need = 8 + (l + 7) div 8 * 8" "need \<le> head - rtail r"
      "unat need \<le> unat (gsize (rg r)) - unat (rtail r mod gsize (rg r))" "l \<le> mx"
      "ucast (drop_bit 32 hdr) \<noteq> (0 :: u32)"
      "Reader_record m r mx head hw at hdr =
         Stop (Some \<lparr>nkind = ucast (drop_bit 32 hdr), nat_pa = at + 8, nlen = l, nend = rtail r + need, nhw = hw\<rparr>) r"
proof -
  have "unat (align8 (ucast (ucast hdr :: u32))) = (l + 7) div 8 * 8" by (simp add: align8_u32 l_def)
  moreover have "(l + 7) div 8 * 8 \<le> l + 7" by simp
  moreover have "l < 2 ^ 32" using unat_less_pow [of "ucast hdr :: u32"] by (simp add: l_def)
  ultimately have small: "unat (align8 (ucast (ucast hdr :: u32))) = (l + 7) div 8 * 8" "8 + (l + 7) div 8 * 8 < 2 ^ 64"
    by simp_all
  define need where "need = (8 :: u64) + align8 (ucast (ucast hdr :: u32))"
  have need: "(add64 REC_HDR (align8 (ucast (ucast hdr :: u32))) :: AbiError fail + u64) = Inr need"
    "unat need = 8 + (l + 7) div 8 * 8"
    using small by (simp_all add: add64_def REC_HDR_def need_def unat_word_ariths)
  let ?room = "gsize (rg r) - rtail r mod gsize (rg r)"
  have room: "(sub64 (gsize (rg r)) (rtail r mod gsize (rg r)) :: AbiError fail + u64) = Inr ?room"
    using size by (simp add: sub64_def)
  have ur: "unat ?room = unat (gsize (rg r)) - unat (rtail r mod gsize (rg r))"
    using size by (rule unat_sub)
  let ?bad = "need > head - rtail r \<or> need > ?room \<or> unat (ucast hdr :: u32) > mx"
  have d: "Reader_record m r mx head hw at hdr =
      (if ?bad then Stop None (Reader_mark r (BadHeader hdr head (rtail r) (gsize (rg r)) mx))
       else (case Kind_new (ucast (drop_bit 32 hdr)) of
               None \<Rightarrow> (case Reader_free m r (rtail r + need) hw of (r', m') \<Rightarrow> Skip r' m')
             | Some k \<Rightarrow>
                 Stop (Some \<lparr>nkind = k, nat_pa = Pa_add at REC_HDR, nlen = unat (ucast hdr :: u32),
                             nend = rtail r + need, nhw = hw\<rparr>) r))"
    unfolding Reader_record_def need(1) room sum.case ..
  show ?thesis
  proof (cases ?bad)
    case True
    show ?thesis by (rule reject) (unfold d, rule if_P [OF True])
  next
    case False
    then have ok: "need \<le> head - rtail r" "unat need \<le> unat (gsize (rg r)) - unat (rtail r mod gsize (rg r))" "l \<le> mx"
      by (auto simp: not_less word_le_nat_alt ur l_def)
    note d = d [unfolded if_not_P [OF False]]
    show ?thesis
    proof (cases "ucast (drop_bit 32 hdr) = (0 :: u32)")
      case True
      then have "Kind_new (ucast (drop_bit 32 hdr)) = None" by (simp add: Kind_new_def Kind_PAD_def)
      then have "Reader_record m r mx head hw at hdr =
         Skip (r\<lparr>rtail := rtail r + need\<rparr>) (Geom_set_tail m (rg r) (rtail r + need))"
        unfolding d by (simp add: Reader_free_def Geom_set_tail_def)
      with pad need(2) ok True show ?thesis by blast
    next
      case k: False
      then have "Kind_new (ucast (drop_bit 32 hdr)) = Some (ucast (drop_bit 32 hdr))"
        by (simp add: Kind_new_def Kind_PAD_def)
      then have "Reader_record m r mx head hw at hdr =
         Stop (Some \<lparr>nkind = ucast (drop_bit 32 hdr), nat_pa = at + 8, nlen = l, nend = rtail r + need, nhw = hw\<rparr>) r"
        unfolding d by (simp add: l_def Pa_add_def REC_HDR_def)
      with found need(2) ok k show ?thesis by blast
    qed
  qed
qed

text \<open>The outcome of the loop, whatever the memory holds.\<close>

definition safe_outcome :: "mem \<Rightarrow> Reader \<Rightarrow> nat \<Rightarrow> AbiError fail + Next option \<times> Reader \<times> mem \<Rightarrow> bool" where
  "safe_outcome m r mx out \<longleftrightarrow>
     (\<exists>n r' m'. out = Inr (n, r', m') \<and> rg r' = rg r \<and> rlocal r' = rlocal r \<and> only_tail (rg r) m m' \<and>
        (\<forall>x. n = Some x \<longrightarrow> nkind x \<noteq> 0 \<and> nlen x \<le> mx \<and> in_data (rg r) (nat_pa x) (nlen x)))"

lemma mark_rg [simp]: "rg (Reader_mark r why) = rg r" "rlocal (Reader_mark r why) = rlocal r"
  by (simp_all add: Reader_mark_def)

lemma record_in_data:
  assumes b: "backing (gbase g) (gsize g)" and t: "unat t < unat (gsize g)"
    and at: "a = gbase g + (0x80 + t)" and need: "8 + (l + 7) div 8 * 8 \<le> unat (gsize g) - unat t"
  shows "in_data g (a + 8) l"
proof -
  have a: "a + 8 = adr (gbase g) (0x88 + unat t)" by (simp add: at)
  have "l \<le> (l + 7) div 8 * 8" by linarith
  then have l: "8 + l \<le> unat (gsize g) - unat t" using need by linarith
  then have "8 + unat t \<le> unat (gsize g)" using t by linarith
  then have "unat (adr (gbase g) (0x88 + unat t)) = unat (gbase g) + (0x88 + unat t)"
    using b by (intro adr_unat) (simp add: backing_def)
  then show ?thesis unfolding in_data_def a using t l by simp
qed

lemma backing_size:
  assumes "backing b n"
  shows "8 \<le> n" "unat n < 2 ^ 64 - 0x80" "0 < unat n" "unat (t mod n) < unat n" "t mod n \<le> n"
proof -
  show "8 \<le> n" "unat n < 2 ^ 64 - 0x80" "0 < unat n" using assms by (auto simp: backing_def word_le_nat_alt)
  then show m: "unat (t mod n) < unat n" by (simp add: unat_mod_distrib)
  then show "t mod n \<le> n" by (simp add: word_le_nat_alt)
qed

lemma next_loop_safe:
  assumes "backing (gbase (rg r)) (gsize (rg r))"
  shows "safe_outcome m r mx (Reader_next_loop m r mx)"
  using assms
proof (induction m r mx rule: Reader_next_loop.induct)
  case (1 m r mx)
  note bs = backing_size [OF 1(2)]
  have stop: ?case if "Reader_round m r mx = Stop None r'" "rg r' = rg r" "rlocal r' = rlocal r" for r'
    using that by (simp add: Reader_next_loop.simps [of m r mx] safe_outcome_def only_tail_refl)
  show ?case
  proof (cases rule: round_cases [of m r mx])
    case empty
    then show ?thesis by (intro stop) simp_all
  next
    case (bad why)
    then show ?thesis by (rule stop) simp_all
  next
    case abort
    then show ?thesis using bs by simp
  next
    case (rec1 at)
    show ?thesis
      using bs(5) [of "rtail r"]
    proof (cases rule: record_cases [where m = m and mx = mx
        and head = "Geom_head m (rg r)" and at = at and hdr = "read64 m at" and
        hw = "rlocal r = Hardware \<and> read64 m (Pa_add (gbase (rg r)) PRODUCER_WB_OFF) = WB_WORD"])
      case (reject why)
      show ?thesis by (rule stop [OF trans [OF rec1(5) reject]]) simp_all
    next
      case (pad need)
      let ?r = "r\<lparr>rtail := rtail r + need\<rparr>" and ?m = "Geom_set_tail m (rg r) (rtail r + need)"
      have round: "Reader_round m r mx = Skip ?r ?m" using rec1(5) pad(6) by simp
      have "safe_outcome ?m ?r mx (Reader_next_loop ?m ?r mx)"
        by (rule 1(1) [OF round]) (use 1(2) in simp)
      then show ?thesis
        using set_tail_only [OF 1(2), of m "rtail r + need"] only_tail_trans
        by (simp add: Reader_next_loop.simps [of m r mx] round safe_outcome_def) blast
    next
      case (found need)
      have "in_data (rg r) (at + 8) (unat (ucast (read64 m at) :: u32))"
        using record_in_data [OF 1(2) bs(4) rec1(4)] found(1,3) by simp
      then show ?thesis
        using rec1(5) [unfolded found(6)] found(4,5)
        by (simp add: Reader_next_loop.simps [of m r mx] safe_outcome_def only_tail_refl)
    qed
  qed
qed

section \<open>The reader beside a running producer\<close>

text \<open>One round, whatever each of its accesses finds.\<close>

lemma seen_round_safe:
  assumes b: "backing (gbase (rg r)) (gsize (rg r))"
  obtains (none) r' where "Reader_round_seen s r mx = Stop None r'" "rg r' = rg r"
  | (given) x where "Reader_round_seen s r mx = Stop (Some x) r" "nkind x \<noteq> 0" "nlen x \<le> mx" "in_data (rg r) (nat_pa x) (nlen x)"
      "Geom_head (seen_index s) (rg r) - rtail r \<le> gsize (rg r)" "nend x - rtail r \<le> Geom_head (seen_index s) (rg r) - rtail r"
  | (skip) need where "Reader_round_seen s r mx =
        Skip (r\<lparr>rtail := rtail r + need\<rparr>) (Geom_set_tail (seen_store s) (rg r) (rtail r + need))"
      "8 \<le> unat need" "need \<le> Geom_head (seen_index s) (rg r) - rtail r"
      "Geom_head (seen_index s) (rg r) - rtail r \<le> gsize (rg r)"
proof -
  note bs = backing_size [OF b]
  show thesis
  proof (cases rule: seen_cases [of s r mx])
    case empty
    show thesis by (rule none [OF empty(2) refl])
  next
    case (bad why)
    show thesis by (rule none [OF bad]) simp
  next
    case abort
    then show thesis using bs by simp
  next
    case (rec1 at)
    show thesis
      using bs(5) [of "rtail r"]
    proof (cases rule: record_cases [where m = "seen_store s" and mx = mx
        and head = "Geom_head (seen_index s) (rg r)" and at = at and hdr = "read64 (seen_hdr s) at" and
        hw = "snd (peer_seen s (rg r) HEAD_OFF PRODUCER_WB_OFF (rlocal r = Hardware))"])
      case (reject why)
      show thesis by (rule none [OF trans [OF rec1(5) reject]]) simp
    next
      case (pad need)
      show thesis by (rule skip [OF trans [OF rec1(5) pad(6)] _ pad(2) rec1(1)]) (simp add: pad(1))
    next
      case (found need)
      have "in_data (rg r) (at + 8) (unat (ucast (read64 (seen_hdr s) at) :: u32))"
        using record_in_data [OF b bs(4) rec1(4)] found(1,3) by simp
      then show thesis by (intro given [OF trans [OF rec1(5) found(6)]]) (use found rec1(1) in simp_all)
    qed
  qed
qed

text \<open>Any number of rounds: no abort, every store is the tail word, a record that is handed out is inside.\<close>

fun standing_ok :: "Geom \<Rightarrow> nat \<Rightarrow> standing \<Rightarrow> bool" where
  "standing_ok g mx (Ended x r') \<longleftrightarrow> rg r' = g \<and>
     (\<forall>y. x = Some y \<longrightarrow> nkind y \<noteq> 0 \<and> nlen y \<le> mx \<and> in_data g (nat_pa y) (nlen y))"
| "standing_ok g mx (Going r') \<longleftrightarrow> rg r' = g"
| "standing_ok g mx Aborted \<longleftrightarrow> False"

lemma rounds_safe:
  assumes "backing (gbase (rg r)) (gsize (rg r))" "Reader_rounds s mx i n r = (out, st)"
  shows "standing_ok (rg r) mx out" "\<forall>p \<in> set st. only_tail (rg r) (fst p) (snd p)"
  using assms
proof (induction n arbitrary: i r out st)
  case (Suc n)
  {
    case 1
    from 1(1) show ?case
    proof (cases rule: seen_round_safe [where s = "s i" and mx = mx])
      case (skip need)
      let ?r = "r\<lparr>rtail := rtail r + need\<rparr>"
      obtain st' where st: "Reader_rounds s mx (Suc i) n ?r = (out, st')" using 1(2) skip(1) by (auto split: prod.splits)
      show ?thesis using Suc.IH(1) [OF _ st] 1(1) by simp
    qed (use 1(2) in auto)
  next
    case 2
    from 2(1) show ?case
    proof (cases rule: seen_round_safe [where s = "s i" and mx = mx])
      case (skip need)
      let ?r = "r\<lparr>rtail := rtail r + need\<rparr>" and ?m = "Geom_set_tail (seen_store (s i)) (rg r) (rtail r + need)"
      obtain st' where st: "Reader_rounds s mx (Suc i) n ?r = (out, st')" "st = (seen_store (s i), ?m) # st'"
        using 2(2) skip(1) by (auto split: prod.splits)
      have "only_tail (rg r) (seen_store (s i)) ?m" by (rule set_tail_only [OF 2(1)])
      then show ?thesis using Suc.IH(2) [OF _ st(1)] 2(1) by (simp add: st(2))
    qed (use 2(2) in auto)
  }
qed auto

text \<open>Rounds in two parts, and the end of a call whose producer publishes nothing more.\<close>

lemma rounds_add:
  "Reader_rounds s mx i (a + n) r =
     (case Reader_rounds s mx i a r of
        (Going r', st) \<Rightarrow> (case Reader_rounds s mx (i + a) n r' of (out, st') \<Rightarrow> (out, st @ st'))
      | x \<Rightarrow> x)"
proof (induction a arbitrary: i r)
  case (Suc a)
  show ?case
    by (cases "Reader_round_seen (s i) r mx") (auto simp: Suc.IH split: prod.splits standing.splits)
qed (simp split: prod.splits)

lemma rounds_end:
  assumes "backing (gbase (rg r)) (gsize (rg r))"
    and "\<And>j. i \<le> j \<Longrightarrow> j < i + n \<Longrightarrow> Geom_head (seen_index (s j)) (rg r) = H"
    and "unat (H - rtail r) < 8 * n \<or> H - rtail r > gsize (rg r) \<and> 0 < n"
  shows "\<exists>x r' st. Reader_rounds s mx i n r = (Ended x r', st)"
  using assms
proof (induction n arbitrary: i r)
  case (Suc n)
  have h: "Geom_head (seen_index (s i)) (rg r) = H" by (rule Suc.prems(2)) simp_all
  show ?case
    using Suc.prems(1)
  proof (cases rule: seen_round_safe [where s = "s i" and mx = mx])
    case (skip need)
    let ?r = "r\<lparr>rtail := rtail r + need\<rparr>"
    have lt: "unat (H - rtail r) < 8 * Suc n" using Suc.prems(3) skip(4) unfolding h by auto
    have "unat (H - rtail ?r) = unat (H - rtail r - need)" by (simp add: diff_diff_eq)
    also have "\<dots> = unat (H - rtail r) - unat need" using skip(3) unfolding h by (rule unat_sub)
    also have "\<dots> < 8 * n" using lt skip(2,3) unfolding h word_le_nat_alt mult_Suc_right by linarith
    finally have less: "unat (H - rtail ?r) < 8 * n" .
    obtain x r' st where "Reader_rounds s mx (Suc i) n ?r = (Ended x r', st)"
      using Suc.IH [of ?r "Suc i"] Suc.prems(1,2) less by auto
    then show ?thesis using skip(1) by simp
  qed auto
qed simp

lemma rounds_settle:
  assumes b: "backing (gbase (rg r)) (gsize (rg r))" and n: "i + unat (gsize (rg r)) div 8 < n"
    and h: "\<And>j. i \<le> j \<Longrightarrow> j < n \<Longrightarrow> Geom_head (seen_index (s j)) (rg r) = H"
  shows "\<exists>x r' st. Reader_rounds s mx 0 n r = (Ended x r', st)"
proof -
  obtain out st where o: "Reader_rounds s mx 0 i r = (out, st)" by fastforce
  note safe = rounds_safe [OF b o]
  have e: "Reader_rounds s mx 0 n r = Reader_rounds s mx 0 (i + (n - i)) r" using n by simp
  show ?thesis
  proof (cases out)
    case (Going r')
    have g: "rg r' = rg r" using safe(1) Going by simp
    have "unat (H - rtail r') < 8 * (n - i) \<or> H - rtail r' > gsize (rg r') \<and> 0 < n - i"
    proof (cases "H - rtail r' > gsize (rg r')")
      case False
      then have "unat (H - rtail r') \<le> unat (gsize (rg r))" by (simp add: g word_le_nat_alt not_less)
      then show ?thesis using n by linarith
    qed (use n in simp)
    then obtain x q st' where "Reader_rounds s mx i (n - i) r' = (Ended x q, st')"
      using rounds_end [of r' i "n - i" s H mx] b h by (auto simp: g)
    then show ?thesis unfolding e rounds_add o Going by simp
  next
    case (Ended x q)
    then show ?thesis unfolding e rounds_add o by simp
  next
    case Aborted
    then show ?thesis using safe(1) by simp
  qed
qed

text \<open>A producer that publishes one more pad before each look of the reader keeps it going.\<close>

definition pad_ahead :: "Geom \<Rightarrow> u64 \<Rightarrow> seen" where
  "pad_ahead g t = still (write64 (\<lambda>_. 0) (Pa_add (gbase g) HEAD_OFF) (t + 8))"

lemma pad_ahead_reads:
  assumes b: "backing (gbase g) (gsize g)" and u: "unat (u mod gsize g) + 8 \<le> unat (gsize g)"
  shows "Geom_head (seen_index (pad_ahead g t)) g = t + 8"
    "read64 (seen_hdr (pad_ahead g t)) (gbase g + (0x80 + u mod gsize g)) = 0"
proof -
  let ?m = "write64 (\<lambda>_. 0) (Pa_add (gbase g) HEAD_OFF) (t + 8)" and ?o = "0x80 + u mod gsize g"
  show "Geom_head (seen_index (pad_ahead g t)) g = t + 8" by (simp add: pad_ahead_def Geom_head_def)
  have zero: "read64 (\<lambda>_. 0) p = 0" for p by (simp add: read64_def read_bytes_map from_le_bytes_def numeral_eq_Suc)
  have o: "unat ?o = 0x80 + unat (u mod gsize g)"
    using b backing_size(4) [OF b, of u] by (simp add: backing_def unat_word_ariths)
  have lt: "unat ?o < 2 ^ 64 - 8" using o b u unfolding backing_def by linarith
  have "read64 ?m (gbase g + ?o) = read64 (\<lambda>_. 0) (gbase g + ?o)"
  proof (rule read64_write64_other)
    show "8 \<le> unat (gbase g + ?o - Pa_add (gbase g) HEAD_OFF)" using o by (simp add: Pa_add_def HEAD_OFF_def)
    have "Pa_add (gbase g) HEAD_OFF - (gbase g + ?o) = - ?o" by (simp add: Pa_add_def HEAD_OFF_def)
    moreover have "unat (of_nat 0 - of_nat (unat ?o) :: u64) = 2 ^ 64 - (unat ?o - 0)"
      by (rule unat_diff_down [OF unat64_less]) (use o in linarith)
    moreover have "of_nat 0 - of_nat (unat ?o) = - ?o" by simp
    ultimately show "8 \<le> unat (Pa_add (gbase g) HEAD_OFF - (gbase g + ?o))" using lt by simp
  qed
  then show "read64 (seen_hdr (pad_ahead g t)) (gbase g + ?o) = 0" by (simp add: pad_ahead_def zero)
qed

lemma pad_ahead_round:
  assumes b: "backing (gbase (rg r)) (gsize (rg r))" and t: "unat (rtail r) mod 8 = 0"
  shows "Reader_round_seen (pad_ahead (rg r) (rtail r)) r mx =
    Skip (r\<lparr>rtail := rtail r + 8\<rparr>) (Geom_set_tail (seen_store (pad_ahead (rg r) (rtail r))) (rg r) (rtail r + 8))"
proof -
  let ?s = "pad_ahead (rg r) (rtail r)" and ?n = "gsize (rg r)"
  note bs = backing_size [OF b]
  have m8: "unat (rtail r mod ?n) mod 8 = 0"
    using t b by (simp add: backing_def unat_mod_distrib dvd_mod dvd_eq_mod_eq_0 [symmetric])
  have n8: "unat ?n mod 8 = 0" "16 \<le> unat ?n" using b by (simp_all add: backing_def)
  have edge: "unat (rtail r mod ?n) + 8 \<le> unat ?n" using m8 n8 bs(4) [of "rtail r"] by presburger
  note rd = pad_ahead_reads [OF b edge, of "rtail r"]
  let ?at = "gbase (rg r) + (0x80 + rtail r mod ?n)"
  obtain hw where peer: "peer_seen ?s (rg r) HEAD_OFF PRODUCER_WB_OFF (rlocal r = Hardware) = (rtail r + 8, hw)"
    using rd(1) unfolding peer_seen_def Geom_head_def
    by (cases "rlocal r = Hardware \<and> read64 (seen_wb ?s) (Pa_add (gbase (rg r)) PRODUCER_WB_OFF) = WB_WORD") auto
  have ne: "\<not> rtail r + 8 = rtail r" by simp
  have d: "rtail r + 8 - rtail r = 8" by simp
  have le: "\<not> ?n < 8" using bs(1) by simp
  have sub: "(sub64 ?n REC_HDR :: AbiError fail + u64) = Inr (?n - 8)" using bs(1) by (simp add: sub64_def REC_HDR_def)
  have e: "\<not> ?n - 8 < rtail r mod ?n" using edge bs(1) by (simp add: word_less_nat_alt unat_sub)
  have at: "(Geom_at (rg r) (rtail r) :: AbiError fail + Pa) = Inr ?at"
    using bs(2) bs(4) [of "rtail r"] by (simp add: Geom_at_def add64_def DATA_OFF_def Pa_add_def)
  have "Reader_round_seen ?s r mx = Reader_record (seen_store ?s) r mx (rtail r + 8) hw ?at 0"
    unfolding Reader_round_seen_def peer prod.case if_not_P [OF ne] d if_not_P [OF le] sub sum.case if_not_P [OF e] at rd(2) ..
  also have "\<dots> = Skip (r\<lparr>rtail := rtail r + 8\<rparr>) (Geom_set_tail (seen_store ?s) (rg r) (rtail r + 8))"
  proof -
    have need: "(add64 REC_HDR (align8 (ucast (ucast (0 :: u64) :: u32))) :: AbiError fail + u64) = Inr 8"
      by (simp add: add64_def REC_HDR_def align8_def saturating_add_def)
    have room: "(sub64 ?n (rtail r mod ?n) :: AbiError fail + u64) = Inr (?n - rtail r mod ?n)"
      using bs(5) [of "rtail r"] by (simp add: sub64_def)
    have "\<not> ?n - rtail r mod ?n < 8" using edge bs(5) [of "rtail r"] by (simp add: word_less_nat_alt unat_sub)
    then show ?thesis unfolding Reader_record_def need room sum.case d
      by (simp add: Kind_new_def Kind_PAD_def Reader_free_def Geom_set_tail_def)
  qed
  finally show ?thesis .
qed

lemma pads_keep_going:
  assumes "backing (gbase (rg r)) (gsize (rg r))" "unat (rtail r) mod 8 = 0" "rtail r = t + of_nat i * 8"
  shows "\<exists>st. Reader_rounds (\<lambda>j. pad_ahead (rg r) (t + of_nat j * 8)) mx i n r =
      (Going (r\<lparr>rtail := rtail r + of_nat n * 8\<rparr>), st)"
  using assms
proof (induction n arbitrary: i r)
  case (Suc n)
  let ?r = "r\<lparr>rtail := rtail r + 8\<rparr>"
  let ?s = "\<lambda>j. pad_ahead (rg r) (t + of_nat j * 8)"
  have al: "unat (rtail ?r) mod 8 = 0"
  proof -
    have "unat (rtail r + 8) = (unat (rtail r) + 8) mod 2 ^ 64" by (simp add: unat_word_ariths)
    moreover have "(8 :: nat) dvd 2 ^ 64" by simp
    moreover have "8 dvd unat (rtail r) + 8" using Suc.prems(2) by (simp add: dvd_eq_mod_eq_0)
    ultimately have "8 dvd unat (rtail r + 8)" by (simp only: dvd_mod)
    then show ?thesis by (simp only: Reader.select_convs Reader.update_convs dvd_eq_mod_eq_0) simp
  qed
  have t: "rtail ?r = t + of_nat (Suc i) * 8" using Suc.prems(3) by (simp add: distrib_right)
  obtain st where st: "Reader_rounds ?s mx (Suc i) n ?r = (Going (?r\<lparr>rtail := rtail ?r + of_nat n * 8\<rparr>), st)"
    using Suc.IH [OF _ al t] Suc.prems(1) by auto
  have e: "?r\<lparr>rtail := rtail ?r + of_nat n * 8\<rparr> = r\<lparr>rtail := rtail r + of_nat (Suc n) * 8\<rparr>" by (simp add: distrib_right add.assoc)
  have here: "?s i = pad_ahead (rg r) (rtail r)" by (simp only: Suc.prems(3))
  show ?case unfolding Reader_rounds.simps here pad_ahead_round [OF Suc.prems(1,2)] round.case st e prod.case by blast
qed simp

text \<open>The reader on a memory that stands still is one of these runs.\<close>

lemma next_loop_is_run:
  "Reader_next_loop m r mx = Inr (x, r', m') \<Longrightarrow> \<exists>s n st. Reader_rounds s mx i n r = (Ended x r', st)"
proof (induction m r mx arbitrary: i rule: Reader_next_loop.induct)
  case (1 m r mx)
  note d = 1(2) [unfolded Reader_next_loop.simps [of m r mx]]
  show ?case
  proof (cases "Reader_round m r mx")
    case (Stop y q)
    then have "Reader_rounds (\<lambda>_. still m) mx i 1 r = (Ended x r', [])" using d by (simp add: Reader_round_def)
    then show ?thesis by blast
  next
    case (Skip q m1)
    then obtain s n st where s: "Reader_rounds s mx (Suc i) n q = (Ended x r', st)" using 1(1) [OF Skip] d by fastforce
    have "Reader_rounds (s(i := still m)) mx k n p = Reader_rounds s mx k n p" if "i < k" for k n p
      using that by (induction n arbitrary: k p) (auto split: round.splits)
    then have "Reader_rounds (s(i := still m)) mx i (Suc n) r = (Ended x r', (m, m1) # st)"
      using s Skip by (simp add: Reader_round_def)
    then show ?thesis by blast
  next
    case Abort
    then show ?thesis using d by simp
  qed
qed

text \<open>
  C3: the reader is safe against any producer that runs beside it.  Every access of every round of \<^verbatim>\<open>next\<close>
  may find another memory, chosen by the producer.  However many rounds it takes, the call never aborts, every
  store it makes changes nothing but its own tail word, and what it hands out is a record with a kind, no
  longer than the caller accepts, that lies wholly inside the data area of the ring.  It ends: once the
  head it sees stays the same from round \<open>i\<close> on, at most a number of further rounds that the size of the ring bounds.
  It need not end before that: a producer that publishes one more pad before every look keeps a
  reader with an aligned index in the loop for ever.
\<close>

theorem reader_next_safe:
  assumes "check_backing (gbase (rg r)) (gsize (rg r)) = Inr ()"
  shows "fst (Reader_next_seen s mx n r) \<noteq> Aborted \<and>
    (\<forall>(m, m') \<in> set (snd (Reader_next_seen s mx n r)). \<forall>x. m' x \<noteq> m x \<longrightarrow>
       unat (gbase (rg r)) + 0x40 \<le> unat x \<and> unat x < unat (gbase (rg r)) + 0x48) \<and>
    (\<forall>x r'. fst (Reader_next_seen s mx n r) = Ended (Some x) r' \<longrightarrow> rg r' = rg r \<and> nkind x \<noteq> 0 \<and> nlen x \<le> mx \<and>
       unat (gbase (rg r)) + 0x80 \<le> unat (nat_pa x) \<and>
       unat (nat_pa x) + nlen x \<le> unat (gbase (rg r)) + 0x80 + unat (gsize (rg r))) \<and>
    (\<forall>i H. i + unat (gsize (rg r)) div 8 < n \<and> (\<forall>j. i \<le> j \<and> j < n \<longrightarrow> Geom_head (seen_index (s j)) (rg r) = H) \<longrightarrow>
       (\<exists>x r'. fst (Reader_next_seen s mx n r) = Ended x r')) \<and>
    (corrupt r = None \<and> unat (rtail r) mod 8 = 0 \<longrightarrow> (\<exists>s. \<forall>n. \<exists>r'. fst (Reader_next_seen s mx n r) = Going r'))"
proof (cases "corrupt r")
  case None
  note b = check_backing_ok [OF assms]
  have e: "Reader_next_seen s mx n r = Reader_rounds s mx 0 n r" for s n by (simp add: Reader_next_seen_def None)
  obtain out st where o: "Reader_rounds s mx 0 n r = (out, st)" by fastforce
  note safe = rounds_safe [OF b o]
  have 1: "out \<noteq> Aborted" using safe(1) by auto
  have 2: "\<forall>(m, m') \<in> set st. \<forall>x. m' x \<noteq> m x \<longrightarrow> unat (gbase (rg r)) + 0x40 \<le> unat x \<and> unat x < unat (gbase (rg r)) + 0x48"
    using safe(2) unfolding only_tail_def by fastforce
  have 3: "rg r' = rg r \<and> nkind x \<noteq> 0 \<and> nlen x \<le> mx \<and> in_data (rg r) (nat_pa x) (nlen x)" if "out = Ended (Some x) r'" for x r'
    using safe(1) that by simp
  have 4: "\<exists>x r'. out = Ended x r'" if "i + unat (gsize (rg r)) div 8 < n"
    "\<forall>j. i \<le> j \<and> j < n \<longrightarrow> Geom_head (seen_index (s j)) (rg r) = H" for i H
    using rounds_settle [OF b that(1), of s H mx] that(2) o by auto
  have 5: "\<exists>s. \<forall>n. \<exists>r'. fst (Reader_rounds s mx 0 n r) = Going r'" if al: "unat (rtail r) mod 8 = 0"
  proof (intro exI allI)
    fix n
    obtain st where "Reader_rounds (\<lambda>j. pad_ahead (rg r) (rtail r + of_nat j * 8)) mx 0 n r =
        (Going (r\<lparr>rtail := rtail r + of_nat n * 8\<rparr>), st)" using pads_keep_going [OF b al, of "rtail r" 0 mx n] by auto
    then show "fst (Reader_rounds (\<lambda>j. pad_ahead (rg r) (rtail r + of_nat j * 8)) mx 0 n r) = Going (r\<lparr>rtail := rtail r + of_nat n * 8\<rparr>)"
      by simp
  qed
  show ?thesis
    unfolding e o fst_conv snd_conv
  proof (intro conjI)
    show "\<forall>x r'. out = Ended (Some x) r' \<longrightarrow> rg r' = rg r \<and> nkind x \<noteq> 0 \<and> nlen x \<le> mx \<and>
       unat (gbase (rg r)) + 0x80 \<le> unat (nat_pa x) \<and>
       unat (nat_pa x) + nlen x \<le> unat (gbase (rg r)) + 0x80 + unat (gsize (rg r))" using 3 unfolding in_data_def by blast
    show "\<forall>i H. i + unat (gsize (rg r)) div 8 < n \<and> (\<forall>j. i \<le> j \<and> j < n \<longrightarrow> Geom_head (seen_index (s j)) (rg r) = H) \<longrightarrow>
       (\<exists>x r'. out = Ended x r')" using 4 by blast
    show "corrupt r = None \<and> unat (rtail r) mod 8 = 0 \<longrightarrow> (\<exists>s. \<forall>n. \<exists>r'. fst (Reader_rounds s mx 0 n r) = Going r')"
      by (intro impI, elim conjE, rule 5)
  qed (rule 1, rule 2)
next
  case (Some c)
  then show ?thesis by (simp add: Reader_next_seen_def)
qed

text \<open>A corrupt ring gives nothing any more, and its reason stays.\<close>

lemma corrupt_final:
  assumes "corrupt r = Some why"
  shows "Reader_read_into m r n = Inr (None, r, m)" "corrupt (Reader_mark r why') = Some why"
  using assms by (simp_all add: Reader_read_into_def Reader_next_def Reader_mark_def)

section \<open>The writer\<close>

text \<open>The bytes a record of \<open>n\<close> payload bytes takes.\<close>

definition rec_need :: "nat \<Rightarrow> nat" where
  "rec_need n = 8 + (n + 7) div 8 * 8"

lemma rec_need_ge: "8 + n \<le> rec_need n" "rec_need n \<le> n + 15" "rec_need n mod 8 = 0"
proof -
  show "8 + n \<le> rec_need n" "rec_need n \<le> n + 15" unfolding rec_need_def by linarith+
  show "rec_need n mod 8 = 0" by (simp add: rec_need_def)
qed

lemma add_need:
  assumes "n < 2 ^ 63"
  obtains N where "(add64 REC_HDR (align8 (of_nat n)) :: 'e fail + u64) = Inr N" "unat N = rec_need n"
proof -
  have u: "unat (of_nat n :: u64) = n" using assms by (simp add: unat_of_nat)
  then have "unat (align8 (of_nat n)) = (n + 7) div 8 * 8" using assms align8_ge [of "of_nat n"] by simp
  moreover have "(n + 7) div 8 * 8 \<le> n + 7" by simp
  then have "rec_need n < 2 ^ 64" using assms rec_need_ge(2) [of n] by simp
  ultimately have "(add64 REC_HDR (align8 (of_nat n)) :: 'e fail + u64) = Inr (8 + align8 (of_nat n))"
    "unat (8 + align8 (of_nat n)) = rec_need n"
    by (simp_all add: add64_def REC_HDR_def rec_need_def unat_word_ariths)
  with that show ?thesis by blast
qed

lemma sub_exact:
  assumes "unat b \<le> unat a"
  obtains c where "(sub64 a b :: 'e fail + u64) = Inr c" "unat c = unat a - unat b" "c = a - b"
  using assms that [of "a - b"] by (simp add: sub64_def word_le_nat_alt unat_sub)

lemma add_exact:
  assumes "unat a + unat b < 2 ^ 64"
  obtains c where "(add64 a b :: 'e fail + u64) = Inr c" "unat c = unat a + unat b"
  using assms that [of "a + b"] by (simp add: add64_def unat_add_exact)

definition data_pa :: "Geom \<Rightarrow> u64 \<Rightarrow> Pa" where
  "data_pa g x = gbase g + (0x80 + x mod gsize g)"

lemma Geom_at_ok:
  assumes "backing (gbase g) (gsize g)"
  shows "(Geom_at g x :: 'e fail + Pa) = Inr (data_pa g x)"
proof -
  have "unat (0x80 :: u64) + unat (x mod gsize g) < 2 ^ 64"
    using backing_size(2) [OF assms] backing_size(4) [OF assms, of x] by simp
  then show ?thesis by (simp only: Geom_at_def add64_def DATA_OFF_def if_True rbind.simps Pa_add_def data_pa_def)
qed

abbreviation hdr_word :: "nat \<Rightarrow> u32 \<Rightarrow> u64" where
  "hdr_word n k \<equiv> of_nat n OR push_bit 32 (ucast k)"

definition contig :: "Writer \<Rightarrow> nat" where
  "contig w = unat (gsize (wg w)) - unat (whead w) mod unat (gsize (wg w))"

definition used :: "mem \<Rightarrow> Writer \<Rightarrow> nat" where
  "used m w = unat (whead w - Geom_tail m (wg w))"

definition pad_mem :: "mem \<Rightarrow> Writer \<Rightarrow> mem" where
  "pad_mem m w = write64 m (data_pa (wg w) (whead w)) (hdr_word (contig w - 8) 0)"

lemma writer_reserve_cases:
  fixes w :: Writer and m :: mem and n :: nat
  defines "s \<equiv> unat (gsize (wg w))" and "N \<equiv> rec_need n"
  assumes b: "backing (gbase (wg w)) (gsize (wg w))" and sz: "unat (gsize (wg w)) < 2 ^ 63" and n: "n < 2 ^ 63"
  obtains (large) x y where "Writer_reserve m w n = Inl (Err (RecordTooLarge x y))" "s div 2 < N"
  | (indices) x y where "Writer_reserve m w n = Inl (Err (RingIndices x y))" "s < used m w \<or> contig w < 8"
  | (full) x y where "Writer_reserve m w n = Inl (Err (RingFull x y))" "N \<le> s div 2" "used m w \<le> s"
      "s - used m w < (if contig w < N then contig w + N else N)"
  | (plain) hw where "N \<le> s div 2" "used m w \<le> s" "N \<le> contig w" "used m w + N \<le> s"
      "Writer_reserve m w n =
         Inr (\<lparr>rhead = whead w, was_empty = (whead w = Geom_tail m (wg w)), rhw = hw\<rparr>, m)"
  | (padded) hw C where "N \<le> s div 2" "8 \<le> contig w" "contig w < N" "used m w + contig w + N \<le> s"
      "unat C = contig w"
      "Writer_reserve m w n =
         Inr (\<lparr>rhead = whead w + C, was_empty = (whead w = Geom_tail m (wg w)), rhw = hw\<rparr>, pad_mem m w)"
proof -
  let ?size = "gsize (wg w)" and ?T = "Geom_tail m (wg w)" and ?H = "whead w"
  let ?hw = "wlocal w = Hardware \<and> read64 m (Pa_add (gbase (wg w)) CONSUMER_WB_OFF) = WB_WORD"
  obtain Nw where Nw: "(add64 REC_HDR (align8 (of_nat n)) :: AbiError fail + u64) = Inr Nw" "unat Nw = N"
    using add_need [OF n] unfolding N_def by blast
  obtain C where C: "(sub64 ?size (?H mod ?size) :: AbiError fail + u64) = Inr C"
    "unat C = s - unat (?H mod ?size)" "C = ?size - ?H mod ?size"
    using sub_exact [of "?H mod ?size" ?size] backing_size(4) [OF b, of ?H] unfolding s_def
    by (metis less_imp_le)
  have c: "unat C = contig w" using C(2) by (simp add: contig_def s_def unat_mod_distrib)
  have half: "unat (?size div 2) = s div 2" by (simp add: unat_div_distrib s_def)
  define R where "R = Writer_reserve m w n"
  have peer: "Geom_peer m (wg w) TAIL_OFF CONSUMER_WB_OFF (wlocal w = Hardware) = (?T, ?hw)"
    by (simp add: Geom_peer_eq Geom_tail_def)
  note R = R_def [unfolded Writer_reserve_def Let_def Nw(1) rbind.simps peer prod.case C(1)]
  show ?thesis
  proof (cases "Nw > ?size div 2")
    case True
    then have "R = Inl (Err (RecordTooLarge Nw (?size div 2)))" unfolding R by (rule if_P)
    moreover have "s div 2 < N" using True half Nw(2) by (simp add: word_less_nat_alt)
    ultimately show ?thesis using large unfolding R_def by blast
  next
    case F1: False
    then have small: "N \<le> s div 2" using half Nw(2) by (simp add: word_less_nat_alt not_less)
    note R = R [unfolded if_not_P [OF F1]]
    show ?thesis
    proof (cases "?H - ?T > ?size")
      case True
      then have "R = Inl (Err (RingIndices ?H ?T))" unfolding R by (rule if_P)
      moreover have "s < used m w" using True by (simp add: word_less_nat_alt used_def s_def)
      ultimately show ?thesis using indices unfolding R_def by blast
    next
      case F2: False
      then have us: "used m w \<le> s" by (simp add: word_less_nat_alt not_less used_def s_def)
      note R = R [unfolded if_not_P [OF F2]]
      obtain F where F: "(sub64 ?size (?H - ?T) :: AbiError fail + u64) = Inr F" "unat F = s - used m w"
        using sub_exact [of "?H - ?T" ?size] us unfolding used_def s_def by blast
      show ?thesis
      proof (cases "Nw > C")
        case False
        note R = R [unfolded if_not_P [OF False] rbind.simps prod.case F(1)]
        have le: "N \<le> contig w" using False c Nw(2) by (simp add: word_less_nat_alt not_less)
        show ?thesis
        proof (cases "F < Nw")
          case True
          then have "R = Inl (Err (RingFull Nw F))" unfolding R by (rule if_P)
          then show ?thesis using full True small us le F(2) Nw(2) unfolding R_def
            by (simp add: word_less_nat_alt)
        next
          case False
          then have "R = Inr (\<lparr>rhead = ?H, was_empty = (?H = ?T), rhw = ?hw\<rparr>, m)" unfolding R by (rule if_not_P)
          then show ?thesis using plain small us le F(2) Nw(2) False unfolding R_def
            by (simp add: word_less_nat_alt)
        qed
      next
        case T3: True
        note R = R [unfolded if_P [OF T3]]
        have lt: "contig w < N" using T3 c Nw(2) by (simp add: word_less_nat_alt)
        show ?thesis
        proof (cases "C < REC_HDR")
          case True
          then have "R = Inl (Err (RingIndices ?H ?T))" unfolding R by (simp only: if_True rbind.simps)
          moreover have "contig w < 8" using True c by (simp add: word_less_nat_alt REC_HDR_def)
          ultimately show ?thesis using indices unfolding R_def by blast
        next
          case F4: False
          then have c8: "8 \<le> contig w" using c by (simp add: word_less_nat_alt REC_HDR_def not_less)
          have cs: "contig w \<le> s" by (simp add: contig_def s_def)
          have "unat C + unat Nw < 2 ^ 64" using c Nw(2) cs small sz unfolding s_def by simp
          then obtain W where W: "(add64 C Nw :: AbiError fail + u64) = Inr W" "unat W = contig w + N"
            using add_exact [of C Nw] c Nw(2) by metis
          note R = R [unfolded if_not_P [OF F4] F(1) W(1) rbind.simps]
          show ?thesis
          proof (cases "F < W")
            case True
            then have "R = Inl (Err (RingFull W F))" unfolding R by (simp only: if_True rbind.simps)
            then show ?thesis using full True small us lt F(2) W(2) unfolding R_def
              by (simp add: word_less_nat_alt)
          next
            case F5: False
            then have room: "used m w + contig w + N \<le> s" using F(2) W(2) us by (simp add: word_less_nat_alt)
            obtain P where P: "(sub64 C REC_HDR :: AbiError fail + u64) = Inr P" "unat P = contig w - 8"
              using sub_exact [of REC_HDR C] c8 c by (auto simp: REC_HDR_def)
            have "P = of_nat (unat P)" by simp
            then have "P = of_nat (contig w - 8)" unfolding P(2) .
            then have put: "Writer_put_hdr m w ?H P Kind_PAD = Inr (pad_mem m w)"
              by (simp add: Writer_put_hdr_def Geom_at_ok [OF b] pad_mem_def Kind_PAD_def)
            have "?H + C - ?T = (?H - ?T) + C" by (simp only: add_diff_eq diff_add_eq)
            moreover have "unat ((?H - ?T) + C) = used m w + contig w"
              using room sz c unfolding used_def s_def by (subst unat_add_exact) simp_all
            ultimately have u': "unat (?H + C - ?T) = used m w + contig w" by (simp only:)
            obtain G where G: "(sub64 ?size (?H + C - ?T) :: AbiError fail + u64) = Inr G"
              "unat G = s - (used m w + contig w)"
              using sub_exact [of "?H + C - ?T" ?size] u' room unfolding s_def by auto
            note R = R [unfolded if_not_P [OF F5] P(1) put rbind.simps prod.case G(1)]
            have "\<not> G < Nw" using G(2) room Nw(2) by (simp add: word_less_nat_alt)
            then have "R = Inr (\<lparr>rhead = ?H + C, was_empty = (?H = ?T), rhw = ?hw\<rparr>, pad_mem m w)"
              unfolding R by (rule if_not_P)
            then show ?thesis using padded [OF small c8 lt room c] unfolding R_def by blast
          qed
        qed
      qed
    qed
  qed
qed

text \<open>The room at the reserved place, whatever the head was.\<close>

lemma reserved_room:
  assumes b: "backing (gbase (wg w)) (gsize (wg w))" and sz: "unat (gsize (wg w)) < 2 ^ 63" and n: "n < 2 ^ 63"
    and ok: "Writer_reserve m w n = Inr (r, m1)"
  shows "unat (rhead r mod gsize (wg w)) + rec_need n \<le> unat (gsize (wg w))"
proof -
  let ?s = "unat (gsize (wg w))" and ?a = "unat (whead w)"
  have s0: "0 < ?s" using backing_size(3) [OF b] .
  show ?thesis
    using b sz n
  proof (cases rule: writer_reserve_cases [where m = m])
    case (plain hw)
    then have "rhead r = whead w" using ok by simp
    moreover have "?a mod ?s < ?s" using s0 by simp
    ultimately show ?thesis using plain(3) by (simp add: contig_def unat_mod_distrib)
  next
    case (padded hw C)
    then have r: "rhead r = whead w + C" using ok by simp
    have ac: "?a + contig w = (?a div ?s + 1) * ?s"
    proof -
      have "?a mod ?s < ?s" using s0 by simp
      moreover have "?a = ?a div ?s * ?s + ?a mod ?s" by simp
      ultimately show ?thesis unfolding contig_def add_mult_distrib by linarith
    qed
    show ?thesis
    proof (cases "?a + contig w < 2 ^ 64")
      case True
      then have "unat (rhead r) = ?a + contig w" using r padded(5) unat_add_exact [of "whead w" C] by simp
      then have "unat (rhead r mod gsize (wg w)) = 0" by (simp add: unat_mod_distrib ac)
      then show ?thesis using padded(1) by simp
    next
      case False
      have "unat (rhead r) = (?a + contig w) mod 2 ^ 64" using r padded(5) by (simp add: unat_word_ariths)
      moreover have "?a < 2 ^ 64" by (rule unat64_less)
      moreover have "contig w \<le> ?s" by (simp add: contig_def)
      ultimately have "unat (rhead r) = ?a + contig w - 2 ^ 64" using False sz by (simp add: mod_if)
      then have q: "unat (rhead r) < contig w" using \<open>?a < 2 ^ 64\<close> False by linarith
      then have "unat (rhead r) mod ?s = unat (rhead r)" using \<open>contig w \<le> ?s\<close> by simp
      then show ?thesis using q padded(1,3) by (simp add: unat_mod_distrib)
    qed
  qed (use ok in simp_all)
qed

definition written :: "mem \<Rightarrow> Geom \<Rightarrow> u64 \<Rightarrow> Kind \<Rightarrow> u8 list \<Rightarrow> mem" where
  "written m1 g h k p =
     Geom_set_head (write64 (write_bytes m1 (data_pa g h + 8) p) (data_pa g h) (hdr_word (length p) k)) g
       (h + of_nat (rec_need (length p)))"

lemma write_eq:
  assumes b: "backing (gbase (wg w)) (gsize (wg w))" and n: "length p < 2 ^ 63"
  shows "Writer_write m w k p =
    rbind (Writer_reserve m w (length p)) (\<lambda>(r, m1).
      Inr (was_empty r, w\<lparr>whead := rhead r + of_nat (rec_need (length p))\<rparr>, written m1 (wg w) (rhead r) k p))"
proof -
  obtain N where N: "(add64 REC_HDR (align8 (of_nat (length p))) :: AbiError fail + u64) = Inr N"
    "unat N = rec_need (length p)" using add_need [OF n] by blast
  have N': "N = of_nat (rec_need (length p))" unfolding N(2) [symmetric] by simp
  have "Writer_publish m2 w r k (length p) =
      Inr (w\<lparr>whead := rhead r + N\<rparr>,
           Geom_set_head (write64 m2 (data_pa (wg w) (rhead r)) (hdr_word (length p) k)) (wg w) (rhead r + N))"
    for m2 r
    by (simp only: Writer_publish_def Writer_put_hdr_def Geom_at_ok [OF b] rbind.simps N(1) Let_def)
  then show ?thesis
    unfolding Writer_write_def Geom_at_ok [OF b] rbind.simps Let_def copy_in_write_bytes copy_in_normal_def
      if_cancel N' written_def Pa_add_def REC_HDR_def
    by (cases "Writer_reserve m w (length p)") (auto split: prod.splits)
qed

definition only_writer :: "Geom \<Rightarrow> mem \<Rightarrow> mem \<Rightarrow> bool" where
  "only_writer g m m' \<longleftrightarrow> (\<forall>x. m' x \<noteq> m x \<longrightarrow>
     unat (gbase g) \<le> unat x \<and> unat x < unat (gbase g) + 8 \<or>
     unat (gbase g) + 0x80 \<le> unat x \<and> unat x < unat (gbase g) + 0x80 + unat (gsize g))"

lemma only_writer_trans: "only_writer g m m' \<Longrightarrow> only_writer g m' m'' \<Longrightarrow> only_writer g m m''"
  unfolding only_writer_def by metis

lemma only_writer_data:
  assumes b: "backing (gbase g) (gsize g)" and k: "k + length bs \<le> unat (gsize g)"
  shows "only_writer g m (write_bytes m (adr (gbase g) (0x80 + k)) bs)"
  unfolding only_writer_def
proof (intro allI impI)
  fix x assume c: "write_bytes m (adr (gbase g) (0x80 + k)) bs x \<noteq> m x"
  have u: "unat (adr (gbase g) (0x80 + k)) = unat (gbase g) + (0x80 + k)"
    using b k unfolding backing_def by (intro adr_unat) linarith
  have "unat (adr (gbase g) (0x80 + k)) + length bs \<le> 2 ^ 64" using u b k unfolding backing_def by linarith
  from write_bytes_changed [OF c this] show "unat (gbase g) \<le> unat x \<and> unat x < unat (gbase g) + 8 \<or>
     unat (gbase g) + 0x80 \<le> unat x \<and> unat x < unat (gbase g) + 0x80 + unat (gsize g)"
    using u k by linarith
qed

lemma only_writer_head:
  assumes b: "backing (gbase g) (gsize g)"
  shows "only_writer g m (Geom_set_head m g v)"
  unfolding only_writer_def
proof (intro allI impI)
  fix x assume "Geom_set_head m g v x \<noteq> m x"
  then have c: "write_bytes m (gbase g) (to_le_bytes v) x \<noteq> m x"
    by (simp add: Geom_set_head_def write64_def Pa_add_def HEAD_OFF_def)
  have "unat (gbase g) + length (to_le_bytes v) \<le> 2 ^ 64" using b unfolding backing_def by simp
  from write_bytes_changed [OF c this] show "unat (gbase g) \<le> unat x \<and> unat x < unat (gbase g) + 8 \<or>
     unat (gbase g) + 0x80 \<le> unat x \<and> unat x < unat (gbase g) + 0x80 + unat (gsize g)"
    by simp
qed

lemma data_pa_adr: "data_pa g x = adr (gbase g) (0x80 + unat (x mod gsize g))"
  by (simp add: data_pa_def)

lemma data_pa_8: "data_pa g x + 8 = adr (gbase g) (0x80 + (unat (x mod gsize g) + 8))"
  by (simp add: data_pa_def)

lemma written_only:
  assumes b: "backing (gbase g) (gsize g)"
    and room: "unat (h mod gsize g) + rec_need (length p) \<le> unat (gsize g)"
  shows "only_writer g m (written m g h k p)"
proof -
  note ge = rec_need_ge(1) [of "length p"]
  let ?m1 = "write_bytes m (data_pa g h + 8) p"
  let ?m2 = "write64 ?m1 (data_pa g h) (hdr_word (length p) k)"
  have "only_writer g m ?m1"
    unfolding data_pa_8 by (rule only_writer_data [OF b]) (use room ge in linarith)
  moreover have "only_writer g ?m1 ?m2"
    unfolding write64_def data_pa_adr by (rule only_writer_data [OF b]) (use room ge in simp)
  moreover have "only_writer g ?m2 (written m g h k p)"
    unfolding written_def by (rule only_writer_head [OF b])
  ultimately show ?thesis using only_writer_trans by blast
qed

lemma pad_mem_only:
  assumes b: "backing (gbase (wg w)) (gsize (wg w))" and c: "8 \<le> contig w"
  shows "only_writer (wg w) m (pad_mem m w)"
proof -
  have "unat (whead w mod gsize (wg w)) + 8 \<le> unat (gsize (wg w))"
    using c by (simp add: contig_def unat_mod_distrib)
  then show ?thesis unfolding pad_mem_def write64_def data_pa_adr by (intro only_writer_data [OF b]) simp
qed

text \<open>
  C12: the writer is safe against any consumer.  For every content of the shared memory and every own
  index, \<^verbatim>\<open>write\<close> does not panic, and a write that succeeds changes only the data area and the head word.
\<close>

theorem writer_write_safe:
  assumes "check_backing (gbase (wg w)) (gsize (wg w)) = Inr ()"
    and "unat (gsize (wg w)) < 2 ^ 63" "length p < 2 ^ 63"
  shows "Writer_write m w k p \<noteq> Inl Panic \<and>
    (\<forall>e w' m'. Writer_write m w k p = Inr (e, w', m') \<longrightarrow> wg w' = wg w \<and>
      (\<forall>x. m' x \<noteq> m x \<longrightarrow>
         unat (gbase (wg w)) \<le> unat x \<and> unat x < unat (gbase (wg w)) + 8 \<or>
         unat (gbase (wg w)) + 0x80 \<le> unat x \<and> unat x < unat (gbase (wg w)) + 0x80 + unat (gsize (wg w))))"
proof -
  note b = check_backing_ok [OF assms(1)]
  note eq = write_eq [OF b assms(3), of m k]
  have fine: ?thesis if res: "Writer_reserve m w (length p) = Inr (r, m1)" and m1: "only_writer (wg w) m m1" for r m1
  proof -
    have "only_writer (wg w) m (written m1 (wg w) (rhead r) k p)"
      using only_writer_trans [OF m1 written_only [OF b reserved_room [OF b assms(2,3) res]]] .
    then show ?thesis unfolding eq res only_writer_def by simp
  qed
  have bad: ?thesis if "Writer_reserve m w (length p) = Inl (Err e)" for e
    unfolding eq that by simp
  show ?thesis
    using b assms(2,3)
  proof (cases rule: writer_reserve_cases [where m = m])
    case (plain hw)
    show ?thesis by (rule fine [OF plain(5)]) (simp add: only_writer_def)
  next
    case (padded hw C)
    show ?thesis by (rule fine [OF padded(6) pad_mem_only [OF b padded(2)]])
  qed (erule bad)+
qed

section \<open>Concrete rings\<close>

definition small_geom :: Geom where
  "small_geom = \<lparr>gbase = 0x1000, gsize = 64\<rparr>"

definition small_reader :: Reader where
  "small_reader = \<lparr>rg = small_geom, corrupt = None, rlocal = Maintained, rtail = 3\<rparr>"

definition small_writer :: Writer where
  "small_writer = \<lparr>wg = small_geom, wlocal = Maintained, whead = 0xFFFFFFFFFFFFFFF8\<rparr>"

lemma small_backing: "check_backing (gbase small_geom) (gsize small_geom) = Inr ()"
  by (simp add: check_backing_def small_geom_def ring_offs checked_add_def Pa_is_aligned_def)

theorem reader_next_safe_witness:
  "fst (Reader_next_seen (\<lambda>j. still (\<lambda>_. of_nat j)) 16 9 small_reader) \<noteq> Aborted \<and>
   (\<exists>x r'. fst (Reader_next_seen (\<lambda>j. still (\<lambda>_. 0xFF)) 16 9 small_reader) = Ended x r') \<and>
   (\<exists>s. \<forall>n. \<exists>r'. fst (Reader_next_seen s 16 n (small_reader\<lparr>rtail := 8\<rparr>)) = Going r')"
proof -
  have g: "rg small_reader = small_geom" "unat (gsize small_geom) = 64" "corrupt small_reader = None"
    by (simp_all add: small_reader_def small_geom_def)
  have b: "check_backing (gbase (rg small_reader)) (gsize (rg small_reader)) = Inr ()" unfolding g(1) by (rule small_backing)
  have b8: "check_backing (gbase (rg (small_reader\<lparr>rtail := 8\<rparr>))) (gsize (rg (small_reader\<lparr>rtail := 8\<rparr>))) = Inr ()" using b by simp
  note safe = reader_next_safe [OF b, where mx = 16 and n = 9]
  have "\<exists>x r'. fst (Reader_next_seen (\<lambda>j. still (\<lambda>_. 0xFF)) 16 9 small_reader) = Ended x r'"
    using safe [where s = "\<lambda>j. still (\<lambda>_. 0xFF)", THEN conjunct2, THEN conjunct2, THEN conjunct2, THEN conjunct1, rule_format, of 0 "Geom_head (\<lambda>_. 0xFF) small_geom"]
    by (simp add: g)
  moreover have "\<exists>s. \<forall>n. \<exists>r'. fst (Reader_next_seen s 16 n (small_reader\<lparr>rtail := 8\<rparr>)) = Going r'"
    using reader_next_safe [OF b8, where mx = 16] g(3) by simp
  ultimately show ?thesis using safe [THEN conjunct1] by blast
qed

theorem writer_write_safe_witness:
  "Writer_write (\<lambda>_. 0xFF) small_writer 5 [1, 2, 3] \<noteq> Inl Panic"
proof -
  have "wg small_writer = small_geom" "unat (gsize small_geom) = 64"
    by (simp_all add: small_writer_def small_geom_def)
  with writer_write_safe [of small_writer "[1, 2, 3]" "\<lambda>_. 0xFF" 5] small_backing show ?thesis by simp
qed

end
