(* ===== verification/RingFifo.thy ===== *)
theory RingFifo
  imports RingSafe
begin

text \<open>
  The ring between two honest sides is a FIFO queue.  \<open>ring_rel\<close> relates a writer, a reader and their
  memory to the list of records that are under way; writing appends a record, reading takes the first.
  Positions are the 64-bit indices read as numbers; the statements hold until the head index comes
  within one buffer of \<open>2^64\<close>.
\<close>

unbundle bit_operations_syntax

section \<open>The interface of a queue of records\<close>

text \<open>
  A channel with a sending and a receiving operation on one state.  \<open>rel s xs\<close> says that the records
  \<open>xs\<close> are under way in state \<open>s\<close>; \<open>open_for s x\<close> that the sender may send \<open>x\<close>.
\<close>

locale channel =
  fixes rel :: "'s \<Rightarrow> 'x list \<Rightarrow> bool"
    and open_for :: "'s \<Rightarrow> 'x \<Rightarrow> bool"
    and send :: "'s \<Rightarrow> 'x \<Rightarrow> 's option"
    and recv :: "'s \<Rightarrow> 'x option \<times> 's"
  assumes send_ok: "rel s xs \<Longrightarrow> open_for s x \<Longrightarrow> send s x = Some s' \<Longrightarrow> rel s' (xs @ [x])"
    and recv_empty: "rel s [] \<Longrightarrow> fst (recv s) = None \<and> rel (snd (recv s)) []"
    and recv_cons: "rel s (x # xs) \<Longrightarrow> fst (recv s) = Some x \<and> rel (snd (recv s)) xs"
begin

text \<open>A history: the sender offers a record, or the receiver asks for one.\<close>

fun run :: "'s \<Rightarrow> 'x option list \<Rightarrow> 'x list \<times> 'x list \<times> 's" where
  "run s [] = ([], [], s)"
| "run s (Some x # ops) =
     (case (if open_for s x then send s x else None) of
        None \<Rightarrow> run s ops
      | Some s' \<Rightarrow> (case run s' ops of (sent, got, t) \<Rightarrow> (x # sent, got, t)))"
| "run s (None # ops) =
     (case recv s of
        (None, s') \<Rightarrow> run s' ops
      | (Some x, s') \<Rightarrow> (case run s' ops of (sent, got, t) \<Rightarrow> (sent, x # got, t)))"

lemma run_fifo:
  "rel s xs \<Longrightarrow> run s ops = (sent, got, t) \<Longrightarrow> \<exists>ys. xs @ sent = got @ ys \<and> rel t ys"
proof (induction s ops arbitrary: xs sent got rule: run.induct)
  case (1 s)
  then show ?case by simp
next
  case (2 s x ops)
  show ?case
  proof (cases "if open_for s x then send s x else None")
    case None
    from 2(1) [OF None] 2(3,4) None show ?thesis by simp
  next
    case (Some s')
    then have rel: "rel s' (xs @ [x])" using send_ok [OF 2(3)] by (auto split: if_splits)
    obtain sent' where r: "run s' ops = (sent', got, t)" "sent = x # sent'"
      using 2(4) Some by (auto split: prod.splits)
    from 2(2) [OF Some rel r(1)] r(2) show ?thesis by simp
  qed
next
  case (3 s ops)
  show ?case
  proof (cases xs)
    case Nil
    then obtain s' where r: "recv s = (None, s')" "rel s' []"
      using recv_empty 3(3) by (metis prod.collapse)
    from 3(1) [OF r(1) [symmetric] refl r(2)] 3(4) r(1) Nil show ?thesis by simp
  next
    case (Cons x xs')
    then obtain s' where r: "recv s = (Some x, s')" "rel s' xs'"
      using recv_cons 3(3) by (metis prod.collapse)
    obtain got' where g: "run s' ops = (sent, got', t)" "got = x # got'"
      using 3(4) r(1) by (auto split: prod.splits)
    from 3(2) [OF r(1) [symmetric] refl r(2) g(1)] g(2) Cons show ?thesis by simp
  qed
qed

end

section \<open>Records in memory\<close>

type_synonym rec_item = "Kind \<times> u8 list"

text \<open>The cell of position \<open>x\<close>.\<close>

abbreviation cell :: "Geom \<Rightarrow> nat \<Rightarrow> Pa" where
  "cell g x \<equiv> adr (gbase g) (0x80 + x mod unat (gsize g))"

definition rec_at :: "mem \<Rightarrow> Geom \<Rightarrow> nat \<Rightarrow> rec_item \<Rightarrow> bool" where
  "rec_at m g t r \<longleftrightarrow> t mod unat (gsize g) + rec_need (length (snd r)) \<le> unat (gsize g) \<and>
     rec_need (length (snd r)) \<le> unat (gsize g) div 2 \<and>
     fst r \<noteq> 0 \<and> length (snd r) < 2 ^ 32 \<and>
     read64 m (cell g t) = hdr_word (length (snd r)) (fst r) \<and>
     read_bytes m (cell g t + 8) (length (snd r)) = snd r"

definition pad_at :: "mem \<Rightarrow> Geom \<Rightarrow> nat \<Rightarrow> bool" where
  "pad_at m g t \<longleftrightarrow> (let c = unat (gsize g) - t mod unat (gsize g) in
     8 \<le> c \<and> c \<le> unat (gsize g) div 2 \<and> c < 2 ^ 32 \<and> c mod 8 = 0 \<and> read64 m (cell g t) = hdr_word (c - 8) 0)"

definition edge_after :: "Geom \<Rightarrow> nat \<Rightarrow> nat" where
  "edge_after g t = t + (unat (gsize g) - t mod unat (gsize g))"

inductive holds :: "mem \<Rightarrow> Geom \<Rightarrow> nat \<Rightarrow> nat \<Rightarrow> rec_item list \<Rightarrow> bool" for m g h where
  holds_nil: "holds m g h h []"
| holds_rec: "rec_at m g t r \<Longrightarrow> holds m g h (t + rec_need (length (snd r))) rs \<Longrightarrow> holds m g h t (r # rs)"
| holds_pad: "pad_at m g t \<Longrightarrow> rec_at m g (edge_after g t) r \<Longrightarrow>
    holds m g h (edge_after g t + rec_need (length (snd r))) rs \<Longrightarrow> holds m g h t (r # rs)"

inductive_cases holds_NilE: "holds m g h t []"
inductive_cases holds_ConsE: "holds m g h t (r # rs)"

lemma holds_le: "holds m g h t rs \<Longrightarrow> t \<le> h"
  by (induction rule: holds.induct) (auto simp: edge_after_def)

lemma holds_snoc:
  "holds m g h t rs \<Longrightarrow> rec_at m g h r \<Longrightarrow> holds m g (h + rec_need (length (snd r))) t (rs @ [r])"
  by (induction rule: holds.induct) (auto intro: holds.intros)

lemma holds_snoc_pad:
  "holds m g h t rs \<Longrightarrow> pad_at m g h \<Longrightarrow> rec_at m g (edge_after g h) r \<Longrightarrow>
     holds m g (edge_after g h + rec_need (length (snd r))) t (rs @ [r])"
  by (induction rule: holds.induct) (auto intro: holds.intros)

section \<open>Frames\<close>

lemma read_bytes_write_other:
  assumes "unat b + (k0 + length bs) < 2 ^ 64" "unat b + (k + n) < 2 ^ 64"
    and "k0 + length bs \<le> k \<or> k + n \<le> k0"
  shows "read_bytes (write_bytes m (adr b k0) bs) (adr b k) n = read_bytes m (adr b k) n"
proof (rule read_bytes_cong)
  fix i assume "i < n"
  then show "write_bytes m (adr b k0) bs (adr b (k + i)) = m (adr b (k + i))"
    using assms by (subst write_cell) auto
qed

lemma read64_write_other:
  assumes "unat b + (k0 + length bs) < 2 ^ 64" "unat b + (k + 8) < 2 ^ 64"
    and "k0 + length bs \<le> k \<or> k + 8 \<le> k0"
  shows "read64 (write_bytes m (adr b k0) bs) (adr b k) = read64 m (adr b k)"
  unfolding read64_def using read_bytes_write_other [OF assms] by simp

lemma mod_shift: "t mod s + i < s \<Longrightarrow> (t + i) mod s = t mod s + i" for t s i :: nat
  by (metis mod_add_left_eq mod_less)

lemma cell_shift: "t mod unat (gsize g) + i < unat (gsize g) \<Longrightarrow>
    adr (gbase g) (0x80 + t mod unat (gsize g) + i) = cell g (t + i)"
  by (simp only: mod_shift add.assoc)

lemma cell_neq: "x < y \<Longrightarrow> y < x + s \<Longrightarrow> x mod s \<noteq> y mod s" for x y s :: nat
proof
  assume a: "x < y" "y < x + s" "x mod s = y mod s"
  then have "s dvd y - x" using mod_eq_dvd_iff_nat [of x y s] by simp
  with a show False using dvd_imp_le [of s "y - x"] by auto
qed

definition same_cells :: "Geom \<Rightarrow> nat \<Rightarrow> nat \<Rightarrow> mem \<Rightarrow> mem \<Rightarrow> bool" where
  "same_cells g t h m m' \<longleftrightarrow> (\<forall>x. t \<le> x \<and> x < h \<longrightarrow> m' (cell g x) = m (cell g x))"

lemma same_cells_mono: "same_cells g t h m m' \<Longrightarrow> t \<le> t' \<Longrightarrow> h' \<le> h \<Longrightarrow> same_cells g t' h' m m'"
  by (auto simp: same_cells_def)

lemma same_cells_trans: "same_cells g t h m m' \<Longrightarrow> same_cells g t h m' m'' \<Longrightarrow> same_cells g t h m m''"
  by (simp add: same_cells_def)

lemma same_read:
  assumes "same_cells g t h m m'" "t mod unat (gsize g) + d + n \<le> unat (gsize g)" "t + d + n \<le> h"
  shows "read_bytes m' (adr (gbase g) (0x80 + t mod unat (gsize g) + d)) n =
    read_bytes m (adr (gbase g) (0x80 + t mod unat (gsize g) + d)) n"
proof (rule read_bytes_cong)
  fix i assume "i < n"
  then have "adr (gbase g) (0x80 + t mod unat (gsize g) + d + i) = cell g (t + (d + i))"
    using assms(2) cell_shift [of t g "d + i"] by (simp only: add.assoc)
  moreover have "m' (cell g (t + (d + i))) = m (cell g (t + (d + i)))"
    using assms(1,3) \<open>i < n\<close> by (simp add: same_cells_def)
  ultimately show "m' (adr (gbase g) (0x80 + t mod unat (gsize g) + d + i)) =
      m (adr (gbase g) (0x80 + t mod unat (gsize g) + d + i))" by (simp only:)
qed

lemma cell_8: "cell g t + 8 = adr (gbase g) (0x80 + t mod unat (gsize g) + 8)"
  by simp

lemma same_rec_at:
  assumes "same_cells g t h m m'" "rec_at m g t r" "t + rec_need (length (snd r)) \<le> h"
  shows "rec_at m' g t r"
proof -
  note n = rec_need_ge(1) [of "length (snd r)"]
  have "read64 m' (cell g t) = read64 m (cell g t)"
    using same_read [OF assms(1), of 0 8] assms(2,3) n unfolding rec_at_def read64_def by simp
  moreover have "read_bytes m' (cell g t + 8) (length (snd r)) = read_bytes m (cell g t + 8) (length (snd r))"
    unfolding cell_8 by (rule same_read [OF assms(1)]) (use assms(2,3) n in \<open>auto simp: rec_at_def\<close>)
  ultimately show ?thesis using assms(2) unfolding rec_at_def by (simp only:) blast
qed

lemma same_pad_at:
  assumes "same_cells g t h m m'" "pad_at m g t" "edge_after g t \<le> h"
  shows "pad_at m' g t"
proof -
  have "t mod unat (gsize g) + 8 \<le> unat (gsize g)" "t + 8 \<le> h"
    using assms(2,3) unfolding pad_at_def edge_after_def Let_def by linarith+
  then have "read64 m' (cell g t) = read64 m (cell g t)"
    using same_read [OF assms(1), of 0 8] unfolding read64_def by simp
  then show ?thesis using assms(2) unfolding pad_at_def Let_def by (simp only:)
qed

lemma same_holds:
  assumes "holds m g h t rs" "same_cells g t h m m'"
  shows "holds m' g h t rs"
  using assms
proof (induction rule: holds.induct)
  case holds_nil
  show ?case by (rule holds.holds_nil)
next
  case (holds_rec t r rs)
  note le = holds_le [OF holds_rec(2)]
  show ?case
  proof (rule holds.holds_rec)
    show "rec_at m' g t r" by (rule same_rec_at [OF holds_rec(4,1) le])
    show "holds m' g h (t + rec_need (length (snd r))) rs"
      by (rule holds_rec(3)) (rule same_cells_mono [OF holds_rec(4)], simp_all)
  qed
next
  case (holds_pad t r rs)
  note le = holds_le [OF holds_pad(3)]
  have t: "t \<le> edge_after g t" by (simp add: edge_after_def)
  show ?case
  proof (rule holds.holds_pad)
    show "pad_at m' g t" by (rule same_pad_at [OF holds_pad(5,1)]) (use le in simp)
    show "rec_at m' g (edge_after g t) r"
      by (rule same_rec_at [OF same_cells_mono [OF holds_pad(5) t order_refl] holds_pad(2) le])
    show "holds m' g h (edge_after g t + rec_need (length (snd r))) rs"
      by (rule holds_pad(4)) (rule same_cells_mono [OF holds_pad(5)], use t in simp_all)
  qed
qed

text \<open>A write past the head leaves the cells of the records under way alone.\<close>

lemma write_same_cells:
  assumes b: "backing (gbase g) (gsize g)" and y: "y mod unat (gsize g) + d + length bs \<le> unat (gsize g)"
    and free: "h \<le> y + d" "y + d + length bs \<le> t + unat (gsize g)"
  shows "same_cells g t h m (write_bytes m (adr (gbase g) (0x80 + y mod unat (gsize g) + d)) bs)"
  unfolding same_cells_def
proof (intro allI impI)
  let ?s = "unat (gsize g)"
  fix x assume x: "t \<le> x \<and> x < h"
  have s0: "0 < ?s" using backing_size(3) [OF b] .
  have xs: "x mod ?s < ?s" using s0 by simp
  have "\<not> (0x80 + y mod ?s + d \<le> 0x80 + x mod ?s \<and> 0x80 + x mod ?s < 0x80 + y mod ?s + d + length bs)"
  proof
    assume a: "0x80 + y mod ?s + d \<le> 0x80 + x mod ?s \<and> 0x80 + x mod ?s < 0x80 + y mod ?s + d + length bs"
    define j where "j = x mod ?s - y mod ?s - d"
    have j: "x mod ?s = y mod ?s + (d + j)" "j < length bs" using a by (auto simp: j_def)
    then have "(y + (d + j)) mod ?s = x mod ?s" using y by (subst mod_shift) auto
    moreover have "x mod ?s \<noteq> (y + (d + j)) mod ?s"
      by (rule cell_neq) (use x free j(2) in linarith)+
    ultimately show False by simp
  qed
  note out = this
  have "unat (gbase g) + (0x80 + y mod ?s + d + length bs) < 2 ^ 64" "unat (gbase g) + (0x80 + x mod ?s) < 2 ^ 64"
    using b y xs unfolding backing_def by linarith+
  then show "write_bytes m (adr (gbase g) (0x80 + y mod ?s + d)) bs (cell g x) = m (cell g x)"
    by (rule trans [OF write_cell if_not_P [OF out]])
qed

lemma head_same_cells:
  assumes b: "backing (gbase g) (gsize g)"
  shows "same_cells g t h m (Geom_set_head m g v)" "same_cells g t h m (Geom_set_tail m g v)"
proof -
  have c: "unat (gbase g) + (0x80 + x mod unat (gsize g)) < 2 ^ 64" for x
    using b backing_size(3) [OF b] mod_less_divisor [of "unat (gsize g)" x] unfolding backing_def by linarith
  have o: "unat (gbase g) + (k0 + length (to_le_bytes v)) < 2 ^ 64" if "k0 \<le> 0x40" for k0
    using b that unfolding backing_def by simp
  have "write_bytes m (adr (gbase g) k0) (to_le_bytes v) (cell g x) = m (cell g x)" if "k0 \<le> 0x40" for k0 x
    using that by (subst write_cell [OF o [OF that] c]) simp
  from this [of 0] this [of "0x40"]
  show "same_cells g t h m (Geom_set_head m g v)" "same_cells g t h m (Geom_set_tail m g v)"
    by (simp_all add: same_cells_def Geom_set_head_def Geom_set_tail_def write64_def Pa_add_def HEAD_OFF_def TAIL_OFF_def)
qed

section \<open>Writing\<close>

lemma data_pa_cell: "data_pa g H = cell g (unat H)"
  by (simp add: data_pa_adr unat_mod_distrib)

lemma index_words:
  assumes b: "backing (gbase g) (gsize g)" and k: "k0 + length bs \<le> 0x80 + unat (gsize g)"
    and out: "8 \<le> k0 \<and> k0 + length bs \<le> 0x40 \<or> 0x48 \<le> k0"
  shows "Geom_head (write_bytes m (adr (gbase g) k0) bs) g = Geom_head m g"
    and "Geom_tail (write_bytes m (adr (gbase g) k0) bs) g = Geom_tail m g"
proof -
  have "unat (gbase g) + (k0 + length bs) < 2 ^ 64" using b k unfolding backing_def by linarith
  note r = read64_write_other [OF this]
  have "unat (gbase g) + (0 + 8) < 2 ^ 64" "unat (gbase g) + (0x40 + 8) < 2 ^ 64"
    using b unfolding backing_def by linarith+
  with r [of 0 m] r [of "0x40" m] out
  show "Geom_head (write_bytes m (adr (gbase g) k0) bs) g = Geom_head m g"
    and "Geom_tail (write_bytes m (adr (gbase g) k0) bs) g = Geom_tail m g"
    by (auto simp: Geom_head_def Geom_tail_def Pa_add_def HEAD_OFF_def TAIL_OFF_def)
qed

lemma set_head_words:
  assumes "backing (gbase g) (gsize g)"
  shows "Geom_head (Geom_set_head m g v) g = v" "Geom_tail (Geom_set_head m g v) g = Geom_tail m g"
proof -
  show "Geom_head (Geom_set_head m g v) g = v" by (simp add: Geom_head_def Geom_set_head_def)
  have "unat (gbase g) + (0 + length (to_le_bytes v)) < 2 ^ 64" "unat (gbase g) + (0x40 + 8) < 2 ^ 64"
    using assms unfolding backing_def by simp_all
  from read64_write_other [OF this] show "Geom_tail (Geom_set_head m g v) g = Geom_tail m g"
    by (simp add: Geom_tail_def Geom_set_head_def write64_def Pa_add_def HEAD_OFF_def TAIL_OFF_def)
qed

lemma set_tail_words:
  shows "Geom_tail (Geom_set_tail m g v) g = v" "Geom_head (Geom_set_tail m g v) g = Geom_head m g"
  by (simp_all add: Geom_head_def Geom_tail_def Geom_set_tail_def)

lemma written_facts:
  fixes g :: Geom and h t :: nat and p :: "u8 list"
  defines "s \<equiv> unat (gsize g)" and "N \<equiv> rec_need (length p)"
  assumes b: "backing (gbase g) (gsize g)" and y: "unat H mod s + N \<le> s"
    and half: "N \<le> s div 2" and len: "length p < 2 ^ 32" and k: "k \<noteq> 0"
  shows "rec_at (written m g H k p) g (unat H) (k, p)"
    and "Geom_head (written m g H k p) g = H + of_nat N"
    and "Geom_tail (written m g H k p) g = Geom_tail m g"
    and "h \<le> unat H \<Longrightarrow> unat H + N \<le> t + s \<Longrightarrow> same_cells g t h m (written m g H k p)"
proof -
  let ?o = "0x80 + unat H mod s"
  let ?m1 = "write_bytes m (adr (gbase g) (?o + 8)) p"
  let ?m2 = "write_bytes ?m1 (adr (gbase g) (?o + 0)) (to_le_bytes (hdr_word (length p) k))"
  have w: "written m g H k p = Geom_set_head ?m2 g (H + of_nat N)"
    unfolding written_def data_pa_cell cell_8 write64_def s_def N_def add_0_right ..
  note n = rec_need_ge(1) [of "length p", folded N_def]
  have fit: "unat (gbase g) + (?o + 8 + length p) < 2 ^ 64" "unat (gbase g) + (?o + 8) < 2 ^ 64"
    "?o + 8 + length p \<le> 0x80 + s"
    using b y n unfolding backing_def s_def by linarith+
  have same: "same_cells g (unat H) (unat H + N) ?m2 (written m g H k p)"
    unfolding w by (rule head_same_cells(1) [OF b])
  have hdr: "read64 ?m2 (cell g (unat H)) = hdr_word (length p) k"
    using read64_write64 [of ?m1 "cell g (unat H)" "hdr_word (length p) k"]
    unfolding write64_def s_def add_0_right .
  have "read_bytes ?m2 (adr (gbase g) (?o + 8)) (length p) = read_bytes ?m1 (adr (gbase g) (?o + 8)) (length p)"
  proof (rule read_bytes_write_other)
    show "unat (gbase g) + (?o + 0 + length (to_le_bytes (hdr_word (length p) k))) < 2 ^ 64"
      using fit(2) by (simp only: to_le_bytes_length add_0_right)
    show "unat (gbase g) + (?o + 8 + length p) < 2 ^ 64" by (rule fit(1))
    show "?o + 0 + length (to_le_bytes (hdr_word (length p) k)) \<le> ?o + 8 \<or> ?o + 8 + length p \<le> ?o + 0"
      by (simp only: to_le_bytes_length) simp
  qed
  also have "\<dots> = p" by (rule read_write_bytes) (use len in simp)
  finally have pay: "read_bytes ?m2 (cell g (unat H) + 8) (length p) = p" unfolding cell_8 s_def .
  have "rec_at ?m2 g (unat H) (k, p)"
    unfolding rec_at_def fst_conv snd_conv
    by (intro conjI y [unfolded s_def N_def] half [unfolded s_def N_def] k len hdr pay)
  then show "rec_at (written m g H k p) g (unat H) (k, p)"
    by (rule same_rec_at [OF same]) (simp add: N_def)
  show "Geom_head (written m g H k p) g = H + of_nat N" unfolding w by (rule set_head_words(1) [OF b])
  have "Geom_tail ?m2 g = Geom_tail ?m1 g"
    by (rule index_words(2) [OF b, unfolded s_def [symmetric]]; (unfold to_le_bytes_length)?)
      (use fit(3) in linarith, rule disjI2, linarith)
  moreover have "Geom_tail ?m1 g = Geom_tail m g"
    by (rule index_words(2) [OF b, unfolded s_def [symmetric]])
      (use fit(3) in linarith, rule disjI2, linarith)
  ultimately show "Geom_tail (written m g H k p) g = Geom_tail m g"
    unfolding w set_head_words(2) [OF b] by (rule trans)
  show "same_cells g t h m (written m g H k p)" if "h \<le> unat H" "unat H + N \<le> t + s"
  proof -
    have a: "same_cells g t h m ?m1"
      by (rule write_same_cells [OF b, of "unat H" 8 p, folded s_def]) (use y n that in linarith)+
    have b2: "same_cells g t h ?m1 ?m2"
      by (rule write_same_cells [OF b, of "unat H" 0 "to_le_bytes (hdr_word (length p) k)",
            unfolded to_le_bytes_length, folded s_def]) (use y n that in linarith)+
    have "same_cells g t h ?m2 (written m g H k p)" unfolding w by (rule head_same_cells(1) [OF b])
    then show ?thesis by (rule same_cells_trans [OF same_cells_trans [OF a b2]])
  qed
qed

section \<open>The relation\<close>

type_synonym ring = "mem \<times> Writer \<times> Reader"

definition ring_rel :: "ring \<Rightarrow> rec_item list \<Rightarrow> bool" where
  "ring_rel st rs \<longleftrightarrow> (case st of (m, w, r) \<Rightarrow>
     wg w = rg r \<and> backing (gbase (rg r)) (gsize (rg r)) \<and> unat (gsize (rg r)) < 2 ^ 32 \<and> corrupt r = None \<and>
     Geom_head m (rg r) = whead w \<and> Geom_tail m (rg r) = rtail r \<and> unat (whead w) mod 8 = 0 \<and>
     unat (whead w) \<le> unat (rtail r) + unat (gsize (rg r)) \<and>
     holds m (rg r) (unat (whead w)) (unat (rtail r)) rs)"

definition ring_open :: "ring \<Rightarrow> rec_item \<Rightarrow> bool" where
  "ring_open st x \<longleftrightarrow> (case st of (m, w, r) \<Rightarrow>
     fst x \<noteq> 0 \<and> length (snd x) < 2 ^ 63 \<and> unat (whead w) + unat (gsize (wg w)) < 2 ^ 64)"

definition ring_send :: "ring \<Rightarrow> rec_item \<Rightarrow> ring option" where
  "ring_send st x = (case st of (m, w, r) \<Rightarrow>
     (case Writer_write m w (fst x) (snd x) of
        Inl _ \<Rightarrow> None
      | Inr (_, w', m') \<Rightarrow> Some (m', w', r)))"

lemma used_nat:
  assumes "unat (rtail r) \<le> unat (whead w)" "Geom_tail m (wg w) = rtail r"
  shows "used m w = unat (whead w) - unat (rtail r)"
  using assms by (simp add: used_def unat_sub word_le_nat_alt)

lemma head_room:
  assumes b: "backing (gbase (wg w)) (gsize (wg w))" and h: "unat (whead w) mod 8 = 0"
  shows "8 \<le> contig w" "contig w mod 8 = 0"
proof -
  let ?s = "unat (gsize (wg w))"
  have s: "?s mod 8 = 0" "0 < ?s" using b backing_size(3) [OF b] by (auto simp: backing_def)
  have "unat (whead w) mod ?s mod 8 = 0" using h s(1) by (metis dvd_eq_mod_eq_0 dvd_mod)
  moreover have lt: "unat (whead w) mod ?s < ?s" using s(2) by simp
  ultimately show "contig w mod 8 = 0"
    unfolding contig_def using s(1) by (metis dvd_diff_nat dvd_eq_mod_eq_0)
  then show "8 \<le> contig w" using lt unfolding contig_def by (metis dvd_eq_mod_eq_0 dvd_imp_le zero_less_diff)
qed

text \<open>The two ways a write succeeds, both ending in the same relation.\<close>

lemma write_keeps_rel:
  assumes rel: "ring_rel (m, w, r) rs" and op: "ring_open (m, w, r) (k, p)"
    and ok: "Writer_write m w k p = Inr (e, w', m')"
  shows "ring_rel (m', w', r) (rs @ [(k, p)]) \<and> (e \<longleftrightarrow> whead w = rtail r)"
proof -
  define g where "g = rg r"
  define s where "s = unat (gsize g)"
  define N where "N = rec_need (length p)"
  define h where "h = unat (whead w)"
  define t where "t = unat (rtail r)"
  have g: "wg w = g" and b: "backing (gbase g) (gsize g)" and s32: "s < 2 ^ 32" and nc: "corrupt r = None"
    and tail: "Geom_tail m g = rtail r" and h8: "h mod 8 = 0" and hts: "h \<le> t + s"
    and holds: "holds m g h t rs"
    using rel by (simp_all add: ring_rel_def g_def s_def h_def t_def)
  have op': "k \<noteq> 0" "length p < 2 ^ 63" "h + s < 2 ^ 64"
    using op by (simp_all add: ring_open_def g s_def h_def)
  note bw = b [folded g]
  have th: "t \<le> h" using holds_le [OF holds] .
  have used: "used m w = h - t" using used_nat [of r w m] th tail by (simp add: g h_def t_def)
  have s63: "unat (gsize (wg w)) < 2 ^ 63" using s32 by (simp add: g s_def)
  note eq = write_eq [OF bw op'(2), of m k]
  have fin: ?thesis
    if H: "rhead rr = H" "unat H = h'" "was_empty rr = (whead w = rtail r)" "h' mod 8 = 0"
      and res: "Writer_reserve m w (length p) = Inr (rr, m1)"
      and room: "h' mod s + N \<le> s" "h \<le> h'" "h' + N \<le> t + s"
      and N: "N \<le> s div 2"
      and m1: "same_cells g t h m m1" "Geom_tail m1 g = rtail r"
      and pad: "h' = h \<or> h' = edge_after g h \<and> (\<forall>m2. same_cells g h h' m1 m2 \<longrightarrow> pad_at m2 g h)"
    for rr H h' m1
  proof -
    have len: "length p < 2 ^ 32" using N s32 rec_need_ge(1) [of "length p"] unfolding N_def by linarith
    have room': "unat H mod unat (gsize g) + rec_need (length p) \<le> unat (gsize g)"
      using room(1) by (simp add: H(2) s_def N_def)
    have half: "rec_need (length p) \<le> unat (gsize g) div 2" using N by (simp add: s_def N_def)
    note W = written_facts(1-3) [OF b room' half len op'(1), where m = m1, folded N_def s_def, unfolded H(2)]
    note W4 = written_facts(4) [OF b room' half len op'(1), where m = m1, folded N_def s_def, unfolded H(2)]
    have m': "m' = written m1 g H k p" "w' = w\<lparr>whead := H + of_nat N\<rparr>" "e = (whead w = rtail r)"
      using ok unfolding eq res by (simp_all add: H g N_def)
    have "h' + N < 2 ^ 64" using room(3) th op'(3) by linarith
    then have uN: "unat (H + of_nat N) = h' + N" by (simp add: unat_word_ariths unat_of_nat H(2))
    have "same_cells g t h m m'"
      unfolding m'(1) by (rule same_cells_trans [OF m1(1) W4 [OF room(2,3)]])
    then have old: "holds m' g h t rs" by (rule same_holds [OF holds])
    have new: "rec_at m' g h' (k, p)" unfolding m'(1) by (rule W(1))
    have "holds m' g (h' + N) t (rs @ [(k, p)])"
      using pad
    proof
      assume "h' = h"
      with holds_snoc [OF old, of "(k, p)"] new show ?thesis by (simp add: N_def)
    next
      assume p: "h' = edge_after g h \<and> (\<forall>m2. same_cells g h h' m1 m2 \<longrightarrow> pad_at m2 g h)"
      have "same_cells g h h' m1 m'"
        unfolding m'(1)
        by (rule W4) (use room th in linarith)+
      then have "pad_at m' g h" using p by blast
      with holds_snoc_pad [OF old, of "(k, p)"] new p show ?thesis by (simp add: N_def)
    qed
    moreover have "(h' + N) mod 8 = 0" using H(4) rec_need_ge(3) [of "length p"] by (simp add: N_def mod_add_eq [symmetric])
    moreover have "Geom_tail m' g = rtail r" "Geom_head m' g = H + of_nat N"
      unfolding m'(1) using W(2,3) m1(2) by simp_all
    ultimately show ?thesis
      using m'(2,3) b s32 nc room(3) uN g
      by (simp add: ring_rel_def g_def [symmetric] s_def [symmetric] t_def [symmetric])
  qed
  show ?thesis
    using bw s63 op'(2)
  proof (cases rule: writer_reserve_cases [where m = m])
    case (plain hw)
    show ?thesis
    proof (rule fin [OF _ _ _ _ plain(5)])
      show "h mod s + N \<le> s" using plain(3) mod_less_divisor [of s h] backing_size(3) [OF b]
        unfolding contig_def g s_def [symmetric] h_def [symmetric] N_def by linarith
      show "h + N \<le> t + s" using plain(4) used th unfolding g s_def [symmetric] N_def by linarith
    qed (use plain(1) h8 tail in \<open>simp_all add: h_def g s_def N_def same_cells_def\<close>)
  next
    case (padded hw C)
    note c8 = head_room [OF bw h8 [unfolded h_def]]
    have edge: "edge_after g h = h + contig w" by (simp add: edge_after_def contig_def g s_def h_def)
    have cs: "contig w \<le> s" by (simp add: contig_def g s_def)
    have u: "unat (whead w + C) = h + contig w"
      using op'(3) cs padded(5) by (simp add: unat_word_ariths h_def)
    have mod0: "(h + contig w) mod s = 0"
    proof -
      have "h mod s < s" using backing_size(3) [OF b] by (simp add: s_def)
      then have "h + contig w = h div s * s + s"
        unfolding contig_def g s_def [symmetric] h_def [symmetric] using div_mult_mod_eq [of h s] by linarith
      then show ?thesis by simp
    qed
    have room: "used m w + contig w + N \<le> s" using padded(4) by (simp add: g s_def N_def)
    let ?hdr = "to_le_bytes (hdr_word (contig w - 8) 0)"
    have pm: "pad_mem m w = write_bytes m (adr (gbase g) (0x80 + h mod s + 0)) ?hdr"
      unfolding pad_mem_def write64_def data_pa_cell g s_def h_def add_0_right ..
    have fit: "h mod s + 8 \<le> s" using padded(2) by (simp add: contig_def g s_def h_def)
    have small: "contig w \<le> s div 2" using padded(1,3) by (simp add: g s_def)
    show ?thesis
    proof (rule fin [OF _ u _ _ padded(6)])
      show "same_cells g t h m (pad_mem m w)"
        unfolding pm s_def
        by (rule write_same_cells [OF b]; (unfold to_le_bytes_length)?)
          (use fit room used th c8 in \<open>unfold s_def; linarith\<close>)+
      show "Geom_tail (pad_mem m w) g = rtail r"
        unfolding pm tail [symmetric]
        by (rule index_words(2) [OF b, folded s_def]; (unfold to_le_bytes_length)?)
          (use fit in linarith, rule disjI2, linarith)
      show "(h + contig w) mod 8 = 0" using h8 c8(2) by (simp add: mod_add_eq [symmetric])
      have hdr: "read64 (pad_mem m w) (cell g h) = hdr_word (contig w - 8) 0"
        unfolding pad_mem_def data_pa_cell g h_def by (rule read64_write64)
      have "pad_at (pad_mem m w) g h"
        unfolding pad_at_def Let_def
        using hdr c8 small s32 by (simp add: contig_def g s_def h_def)
      then have "\<forall>m2. same_cells g h (h + contig w) (pad_mem m w) m2 \<longrightarrow> pad_at m2 g h"
        using same_pad_at [of g h "h + contig w" "pad_mem m w"] edge by simp
      then show "h + contig w = h \<or> h + contig w = edge_after g h \<and>
          (\<forall>m2. same_cells g h (h + contig w) (pad_mem m w) m2 \<longrightarrow> pad_at m2 g h)"
        using edge by simp
    qed (use room used th padded(1) mod0 tail in \<open>simp_all add: g s_def N_def\<close>)
  qed (use ok in \<open>simp_all add: eq\<close>)
qed

section \<open>Reading\<close>

lemma bit_word_nat: "bit (of_nat n :: 'a::len word) i \<longleftrightarrow> i < LENGTH('a) \<and> bit n i"
  by transfer (simp add: bit_take_bit_iff bit_of_nat_iff_bit)

lemma hdr_len: "n < 2 ^ 32 \<Longrightarrow> unat (ucast (hdr_word n k) :: u32) = n"
proof -
  assume n: "n < 2 ^ 32"
  have "(ucast (hdr_word n k) :: u32) = ucast (of_nat n :: u64)"
  proof (rule bit_word_eqI)
    fix i assume "i < LENGTH(32)"
    then show "bit (ucast (hdr_word n k) :: u32) i \<longleftrightarrow> bit (ucast (of_nat n :: u64) :: u32) i"
      by (simp add: bit_ucast_iff bit_or_iff bit_push_bit_iff)
  qed
  also have "\<dots> = of_nat n"
    by (rule bit_word_eqI) (simp add: bit_ucast_iff bit_word_nat)
  finally show ?thesis using n by (simp add: unat_of_nat)
qed

lemma hdr_kind: "n < 2 ^ 32 \<Longrightarrow> (ucast (drop_bit 32 (hdr_word n k)) :: u32) = k"
proof (rule bit_word_eqI)
  fix i assume n: "n < 2 ^ 32" and i: "i < LENGTH(32)"
  have "\<not> bit n (32 + i)" using n by (metis bit_take_bit_iff not_add_less1 take_bit_nat_eq_self)
  then show "bit (ucast (drop_bit 32 (hdr_word n k)) :: u32) i \<longleftrightarrow> bit k i"
    using i by (simp add: bit_ucast_iff bit_drop_bit_eq bit_or_iff bit_push_bit_iff bit_word_nat)
qed

lemma record_at:
  assumes b: "backing (gbase (rg r)) (gsize (rg r))" and n: "n < 2 ^ 32" "n \<le> mx"
    and av: "rec_need n \<le> unat (head - rtail r)"
    and room: "rec_need n \<le> unat (gsize (rg r)) - unat (rtail r) mod unat (gsize (rg r))"
  shows "Reader_record m r mx head hw at (hdr_word n k) =
    (if k = 0 then Skip (r\<lparr>rtail := rtail r + of_nat (rec_need n)\<rparr>) (Geom_set_tail m (rg r) (rtail r + of_nat (rec_need n)))
     else Stop (Some \<lparr>nkind = k, nat_pa = at + 8, nlen = n, nend = rtail r + of_nat (rec_need n), nhw = hw\<rparr>) r)"
proof -
  let ?l = "ucast (ucast (hdr_word n k) :: u32) :: u64"
  have l: "unat (align8 ?l) = (n + 7) div 8 * 8" by (simp only: align8_u32 hdr_len [OF n(1)])
  have "rec_need n < 2 ^ 64" using n(1) rec_need_ge(2) [of n] by simp
  moreover have "unat (8 :: u64) + (n + 7) div 8 * 8 = rec_need n" by (simp add: rec_need_def)
  ultimately have N: "(add64 REC_HDR (align8 ?l) :: AbiError fail + u64) = Inr (8 + align8 ?l)"
    "unat (8 + align8 ?l) = rec_need n"
    by (simp_all add: add64_def REC_HDR_def l unat_word_ariths)
  have N': "8 + align8 ?l = of_nat (rec_need n)" unfolding N(2) [symmetric] by simp
  let ?room = "gsize (rg r) - rtail r mod gsize (rg r)"
  note bs = backing_size(5) [OF b, of "rtail r"]
  have R: "(sub64 (gsize (rg r)) (rtail r mod gsize (rg r)) :: AbiError fail + u64) = Inr ?room"
    using bs by (simp add: sub64_def)
  have ur: "unat ?room = unat (gsize (rg r)) - unat (rtail r) mod unat (gsize (rg r))"
    using bs by (simp add: unat_sub unat_mod_distrib)
  have ok: "\<not> (8 + align8 ?l > head - rtail r \<or> 8 + align8 ?l > ?room \<or> unat (ucast (hdr_word n k) :: u32) > mx)"
    unfolding word_less_nat_alt N(2) ur hdr_len [OF n(1)] de_Morgan_disj not_less
    by (intro conjI av room n(2))
  show ?thesis
    unfolding Reader_record_def N(1) R sum.case if_not_P [OF ok]
    unfolding hdr_kind [OF n(1)] hdr_len [OF n(1)] N'
    by (simp add: Kind_new_def Kind_PAD_def Reader_free_def Geom_set_tail_def Pa_add_def REC_HDR_def)
qed

lemma round_at:
  assumes b: "backing (gbase (rg r)) (gsize (rg r))"
    and av: "unat (rtail r) < unat (Geom_head m (rg r))"
      "unat (Geom_head m (rg r)) \<le> unat (rtail r) + unat (gsize (rg r))"
    and edge: "unat (rtail r) mod unat (gsize (rg r)) + 8 \<le> unat (gsize (rg r))"
  obtains hw where "Reader_round m r mx =
    Reader_record m r mx (Geom_head m (rg r)) hw (cell (rg r) (unat (rtail r))) (read64 m (cell (rg r) (unat (rtail r))))"
    "unat (Geom_head m (rg r) - rtail r) = unat (Geom_head m (rg r)) - unat (rtail r)"
proof -
  let ?H = "Geom_head m (rg r)" and ?size = "gsize (rg r)"
  have d: "unat (?H - rtail r) = unat ?H - unat (rtail r)"
    using av(1) by (simp add: unat_sub word_le_nat_alt)
  have 1: "?H \<noteq> rtail r" using av(1) by auto
  have 2: "\<not> ?H - rtail r > ?size" using d av(2) by (simp add: word_less_nat_alt)
  have 3: "(sub64 ?size REC_HDR :: AbiError fail + u64) = Inr (?size - 8)"
    using backing_size(1) [OF b] by (simp add: sub64_def REC_HDR_def)
  have 4: "\<not> rtail r mod ?size > ?size - 8"
    using edge backing_size(1) [OF b] by (simp add: word_less_nat_alt unat_sub unat_mod_distrib)
  have 5: "(Geom_at (rg r) (rtail r) :: AbiError fail + Pa) = Inr (cell (rg r) (unat (rtail r)))"
    unfolding Geom_at_ok [OF b] data_pa_cell ..
  show ?thesis
    by (rule that [OF _ d])
      (simp only: Reader_round_eq Geom_peer_eq prod.case Geom_head_def [symmetric] if_not_P [OF 1] if_not_P [OF 2] 3
        sum.case if_not_P [OF 4] 5)
qed

text \<open>The loop finds the first record, after at most one pad.\<close>

definition found_at :: "mem \<Rightarrow> Reader \<Rightarrow> rec_item \<Rightarrow> nat \<Rightarrow> AbiError fail + Next option \<times> Reader \<times> mem \<Rightarrow> bool" where
  "found_at m r x e out \<longleftrightarrow> (\<exists>n r' m'. out = Inr (Some n, r', m') \<and>
     nkind n = fst x \<and> nlen n = length (snd x) \<and> read_bytes m' (nat_pa n) (nlen n) = snd x \<and> unat (nend n) = e \<and>
     r' = r\<lparr>rtail := rtail r'\<rparr> \<and> Geom_head m' (rg r) = Geom_head m (rg r) \<and>
     (\<forall>t h. same_cells (rg r) t h m m'))"

lemma next_rec:
  assumes b: "backing (gbase (rg r)) (gsize (rg r))" and rec: "rec_at m (rg r) (unat (rtail r)) x"
    and av: "unat (rtail r) + rec_need (length (snd x)) \<le> unat (Geom_head m (rg r))"
      "unat (Geom_head m (rg r)) \<le> unat (rtail r) + unat (gsize (rg r))"
    and mx: "length (snd x) \<le> mx"
  shows "found_at m r x (unat (rtail r) + rec_need (length (snd x))) (Reader_next_loop m r mx)"
proof -
  let ?N = "rec_need (length (snd x))"
  note n = rec_need_ge(1) [of "length (snd x)"]
  obtain hw where r: "Reader_round m r mx = Reader_record m r mx (Geom_head m (rg r)) hw
      (cell (rg r) (unat (rtail r))) (read64 m (cell (rg r) (unat (rtail r))))"
    "unat (Geom_head m (rg r) - rtail r) = unat (Geom_head m (rg r)) - unat (rtail r)"
    by (rule round_at [OF b _ av(2)]) (use n av rec in \<open>auto simp: rec_at_def\<close>)
  have hdr: "read64 m (cell (rg r) (unat (rtail r))) = hdr_word (length (snd x)) (fst x)" "fst x \<noteq> 0"
    "length (snd x) < 2 ^ 32" "read_bytes m (cell (rg r) (unat (rtail r)) + 8) (length (snd x)) = snd x"
    "unat (rtail r) mod unat (gsize (rg r)) + ?N \<le> unat (gsize (rg r))"
    using rec by (simp_all add: rec_at_def)
  have "Reader_round m r mx = Stop (Some \<lparr>nkind = fst x, nat_pa = cell (rg r) (unat (rtail r)) + 8,
      nlen = length (snd x), nend = rtail r + of_nat ?N, nhw = hw\<rparr>) r"
    unfolding r(1) hdr(1)
    by (subst record_at [OF b hdr(3) mx]) (use r(2) av hdr(2,5) in simp_all)
  moreover have "unat (rtail r + of_nat ?N) = unat (rtail r) + ?N"
    using av(1) unat64_less [of "Geom_head m (rg r)"] by (simp add: unat_word_ariths unat_of_nat)
  ultimately show ?thesis
    unfolding found_at_def Reader_next_loop.simps [of m r mx]
    using hdr(4) by (simp add: same_cells_def)
qed

lemma next_first:
  assumes b: "backing (gbase (rg r)) (gsize (rg r))"
    and h: "holds m (rg r) (unat (Geom_head m (rg r))) (unat (rtail r)) (x # xs)"
    and av: "unat (Geom_head m (rg r)) \<le> unat (rtail r) + unat (gsize (rg r))"
    and mx: "unat (gsize (rg r)) div 2 \<le> mx" "length (snd x) \<le> mx"
  shows "\<exists>e. found_at m r x e (Reader_next_loop m r mx) \<and> unat (rtail r) < e \<and>
    holds m (rg r) (unat (Geom_head m (rg r))) e xs"
proof (rule holds_ConsE [OF h])
  assume 1: "rec_at m (rg r) (unat (rtail r)) x"
    "holds m (rg r) (unat (Geom_head m (rg r))) (unat (rtail r) + rec_need (length (snd x))) xs"
  note le = holds_le [OF 1(2)]
  have "unat (rtail r) < unat (rtail r) + rec_need (length (snd x))" by (simp add: rec_need_def)
  with next_rec [OF b 1(1) le av mx(2)] 1(2) show ?thesis by blast
next
  assume 2: "pad_at m (rg r) (unat (rtail r))" "rec_at m (rg r) (edge_after (rg r) (unat (rtail r))) x"
    "holds m (rg r) (unat (Geom_head m (rg r))) (edge_after (rg r) (unat (rtail r)) + rec_need (length (snd x))) xs"
  let ?g = "rg r" and ?t = "unat (rtail r)" and ?s = "unat (gsize (rg r))" and ?H = "Geom_head m (rg r)"
  let ?c = "?s - ?t mod ?s"
  have pad: "8 \<le> ?c" "?c \<le> ?s div 2" "?c < 2 ^ 32" "?c mod 8 = 0" "read64 m (cell ?g ?t) = hdr_word (?c - 8) 0"
    using 2(1) by (simp_all add: pad_at_def Let_def)
  have edge: "edge_after ?g ?t = ?t + ?c" by (simp add: edge_after_def)
  note le = holds_le [OF 2(3)]
  have need: "rec_need (?c - 8) = ?c"
  proof -
    obtain j where j: "?c = 8 * j" using pad(4) by (metis mod_0_imp_dvd dvdE)
    then have "1 \<le> j" using pad(1) by simp
    then show ?thesis unfolding rec_need_def j by (cases j) simp_all
  qed
  have tH: "?t + ?c < unat ?H" using le edge by (simp add: rec_need_def)
  obtain hw where r: "Reader_round m r mx = Reader_record m r mx ?H hw (cell ?g ?t) (read64 m (cell ?g ?t))"
    "unat (?H - rtail r) = unat ?H - ?t"
    by (rule round_at [OF b _ av]) (use tH pad(1) in linarith)+
  let ?r = "r\<lparr>rtail := rtail r + of_nat ?c\<rparr>" and ?m = "Geom_set_tail m ?g (rtail r + of_nat ?c)"
  have round: "Reader_round m r mx = Skip ?r ?m"
  proof -
    have "?c - 8 < 2 ^ 32" "?c - 8 \<le> mx" "rec_need (?c - 8) \<le> unat (?H - rtail r)" "rec_need (?c - 8) \<le> ?c"
      using pad(2,3) mx(1) tH r(2) need by linarith+
    from record_at [OF b this, of m hw "cell ?g ?t" 0] show ?thesis unfolding r(1) pad(5) need by simp
  qed
  have ut: "unat (rtail r + of_nat ?c) = ?t + ?c"
    using tH unat64_less [of ?H] by (simp add: unat_word_ariths unat_of_nat)
  have H: "Geom_head ?m ?g = ?H" by (rule set_tail_words(2))
  have same: "same_cells ?g t h m ?m" for t h by (rule head_same_cells(2) [OF b])
  have "rec_at ?m ?g (?t + ?c) x"
    using same_rec_at [OF same 2(2) order_refl] by (simp add: edge)
  then have "found_at ?m ?r x (?t + ?c + rec_need (length (snd x))) (Reader_next_loop ?m ?r mx)"
    using next_rec [of ?r ?m x mx] b H ut le edge av mx(2) by simp
  then have "found_at m r x (?t + ?c + rec_need (length (snd x))) (Reader_next_loop m r mx)"
    unfolding Reader_next_loop.simps [of m r mx] round round.case found_at_def
    using H same_cells_trans [OF same] by fastforce
  moreover have "holds m ?g (unat ?H) (?t + ?c + rec_need (length (snd x))) xs" using 2(3) by (simp add: edge)
  moreover have "?t < ?t + ?c + rec_need (length (snd x))" by (simp add: rec_need_def)
  ultimately show ?thesis by blast
qed

definition ring_recv :: "nat \<Rightarrow> ring \<Rightarrow> rec_item option \<times> ring" where
  "ring_recv mx st = (case st of (m, w, r) \<Rightarrow>
     (case Reader_read_into m r mx of
        Inl _ \<Rightarrow> (None, st)
      | Inr (rec, r', m') \<Rightarrow> (map_option (\<lambda>x. (kind x, payload x)) rec, (m', w, r'))))"

lemma read_first:
  assumes rel: "ring_rel (m, w, r) (x # xs)"
    and mx: "unat (gsize (rg r)) div 2 \<le> mx" "length (snd x) \<le> mx"
  shows "\<exists>r' m'. Reader_read_into m r mx = Inr (Some \<lparr>kind = fst x, payload = snd x\<rparr>, r', m') \<and>
    ring_rel (m', w, r') xs \<and> rg r' = rg r"
proof -
  have f: "wg w = rg r" "backing (gbase (rg r)) (gsize (rg r))" "unat (gsize (rg r)) < 2 ^ 32" "corrupt r = None"
    "Geom_head m (rg r) = whead w" "unat (whead w) mod 8 = 0"
    "unat (whead w) \<le> unat (rtail r) + unat (gsize (rg r))"
    "holds m (rg r) (unat (Geom_head m (rg r))) (unat (rtail r)) (x # xs)"
    using rel by (simp_all add: ring_rel_def)
  obtain e where e: "found_at m r x e (Reader_next_loop m r mx)" "unat (rtail r) < e"
    "holds m (rg r) (unat (Geom_head m (rg r))) e xs"
    using next_first [OF f(2,8) _ mx] f(5,7) by auto
  then obtain n r1 m1 where n: "Reader_next_loop m r mx = Inr (Some n, r1, m1)" "nkind n = fst x"
    "nlen n = length (snd x)" "read_bytes m1 (nat_pa n) (length (snd x)) = snd x" "unat (nend n) = e"
    "r1 = r\<lparr>rtail := rtail r1\<rparr>" "Geom_head m1 (rg r) = Geom_head m (rg r)" "same_cells (rg r) e (unat (whead w)) m m1"
    unfolding found_at_def by auto
  have r1: "rg r1 = rg r" "corrupt r1 = None" using n(6) f(4) by (metis Reader.select_convs Reader.update_convs(4) Reader.surjective)+
  let ?m2 = "Geom_set_tail m1 (rg r) (nend n)"
  have fr: "Reader_free m1 r1 (nend n) hw = (r1\<lparr>rtail := nend n\<rparr>, ?m2)" for hw
    by (simp add: Reader_free_def Geom_set_tail_def r1(1))
  have "Reader_read_into m r mx = Inr (Some \<lparr>kind = fst x, payload = snd x\<rparr>, r1\<lparr>rtail := nend n\<rparr>, ?m2)"
    by (simp add: Reader_read_into_def Reader_next_def f(4) n(1-4) fr copy_out_read_bytes copy_out_normal_def)
  moreover have "holds ?m2 (rg r) (unat (whead w)) e xs"
    using same_holds [OF e(3) [unfolded f(5)] same_cells_trans [OF n(8) head_same_cells(2) [OF f(2)]]] .
  then have "ring_rel (?m2, w, r1\<lparr>rtail := nend n\<rparr>) xs"
    using f r1 n(5,7) e(2) by (simp add: ring_rel_def set_tail_words)
  ultimately show ?thesis using r1(1) by auto
qed

lemma read_empty:
  assumes rel: "ring_rel (m, w, r) []"
  shows "Reader_read_into m r mx = Inr (None, r, m)"
proof -
  have "holds m (rg r) (unat (whead w)) (unat (rtail r)) []" "corrupt r = None" "Geom_head m (rg r) = whead w"
    using rel by (simp_all add: ring_rel_def)
  moreover from this(1) have "unat (whead w) = unat (rtail r)" by (rule holds_NilE) simp
  ultimately have "whead w = rtail r" "corrupt r = None" "Geom_head m (rg r) = whead w"
    by (simp_all only: word_unat_eq_iff)
  then have "Reader_round m r mx = Stop None r"
    by (simp add: Reader_round_eq Geom_peer_eq Geom_head_def)
  then show ?thesis
    using \<open>corrupt r = None\<close> by (simp add: Reader_read_into_def Reader_next_def Reader_next_loop.simps [of m r mx])
qed

section \<open>The ring is a channel\<close>

definition ring_queue :: "nat \<Rightarrow> ring \<Rightarrow> rec_item list \<Rightarrow> bool" where
  "ring_queue mx st rs \<longleftrightarrow> ring_rel st rs \<and> unat (gsize (rg (snd (snd st)))) div 2 \<le> mx"

lemma holds_first_short:
  assumes "holds m g h t (x # xs)"
  shows "length (snd x) \<le> unat (gsize g) div 2" "t < h"
proof -
  have rec: "\<exists>t'. t \<le> t' \<and> rec_at m g t' x \<and> t' + rec_need (length (snd x)) \<le> h"
  proof (rule holds_ConsE [OF assms])
    assume "rec_at m g t x" "holds m g h (t + rec_need (length (snd x))) xs"
    with holds_le show ?thesis by blast
  next
    assume "rec_at m g (edge_after g t) x" "holds m g h (edge_after g t + rec_need (length (snd x))) xs"
    with holds_le show ?thesis by (intro exI [of _ "edge_after g t"]) (auto simp: edge_after_def)
  qed
  then show "length (snd x) \<le> unat (gsize g) div 2"
    using rec_need_ge(1) [of "length (snd x)"] by (auto simp: rec_at_def)
  show "t < h" using rec rec_need_ge(1) [of "length (snd x)"] by auto
qed

interpretation rq: channel "ring_queue mx" ring_open ring_send "ring_recv mx" for mx
proof
  fix st xs x st'
  assume a: "ring_queue mx st xs" "ring_open st x" "ring_send st x = Some st'"
  obtain m w r where st: "st = (m, w, r)" by (metis prod_cases3)
  obtain k p where x: "x = (k, p)" by fastforce
  obtain e w' m' where w: "Writer_write m w k p = Inr (e, w', m')" "st' = (m', w', r)"
    using a(3) by (auto simp: ring_send_def st x split: sum.splits prod.splits)
  from write_keeps_rel [OF _ a(2) [unfolded st x] w(1), of xs] a(1)
  show "ring_queue mx st' (xs @ [x])" by (simp add: ring_queue_def st x w(2))
next
  fix st
  assume a: "ring_queue mx st []"
  obtain m w r where st: "st = (m, w, r)" by (metis prod_cases3)
  show "fst (ring_recv mx st) = None \<and> ring_queue mx (snd (ring_recv mx st)) []"
    using a read_empty [of m w r mx] by (simp add: ring_queue_def ring_recv_def st)
next
  fix st x xs
  assume a: "ring_queue mx st (x # xs)"
  obtain m w r where st: "st = (m, w, r)" by (metis prod_cases3)
  have rel: "ring_rel (m, w, r) (x # xs)" "unat (gsize (rg r)) div 2 \<le> mx" using a by (simp_all add: ring_queue_def st)
  then have "length (snd x) \<le> mx" using holds_first_short(1) by (fastforce simp: ring_rel_def)
  from read_first [OF rel this] rel(2)
  show "fst (ring_recv mx st) = Some x \<and> ring_queue mx (snd (ring_recv mx st)) xs"
    by (auto simp: ring_queue_def ring_recv_def st)
qed

section \<open>A fresh ring\<close>

lemma read_zeros:
  assumes b: "backing b n" and k: "k + 8 \<le> 0x80"
  shows "read64 (clear m b 0x80) (adr b k) = 0"
proof -
  have "clear m b 0x80 (adr b (k + i)) = 0" if "i < 8" for i
    using b k that write_cell [of b 0 "replicate 0x80 0" "k + i" m]
    unfolding clear_write_bytes backing_def by simp
  then have "read_bytes (clear m b 0x80) (adr b k) 8 = replicate 8 0"
    by (intro nth_equalityI) (simp_all only: read_cells length_map length_replicate length_upt, simp)
  then show ?thesis by (simp add: read64_def from_le_bytes_def numeral_eq_Suc)
qed

lemma index_words64:
  assumes "backing (gbase g) (gsize g)" "8 \<le> k0 \<and> k0 \<le> 0x38 \<or> k0 = 0x48"
  shows "Geom_head (write64 m (adr (gbase g) k0) v) g = Geom_head m g"
    and "Geom_tail (write64 m (adr (gbase g) k0) v) g = Geom_tail m g"
  unfolding write64_def using index_words [OF assms(1), of k0 "to_le_bytes v" m] assms(2) by auto

lemma fresh_ring:
  assumes i: "init m b n = Inr m0" and wo: "Writer_open_with m0 b n cw = Inr (w, m1)"
    and ro: "Reader_open_with m1 b n cr = Inr (r, m2)" and n: "unat n < 2 ^ 32"
  shows "ring_rel (m2, w, r) []" "whead w = 0" "wg w = \<lparr>gbase = b, gsize = n\<rparr>"
proof -
  let ?g = "\<lparr>gbase = b, gsize = n\<rparr> :: Geom"
  have cb: "check_backing b n = Inr ()" using i by (auto simp: init_def res_simps)
  note bk = check_backing_ok [OF cb]
  have bg: "backing (gbase ?g) (gsize ?g)" using bk by simp
  have m0: "m0 = write64 (clear m b 0x80) (adr (gbase ?g) 0x10) n"
    using i cb by (simp add: init_def DATA_OFF_def SIZE_OFF_def Pa_add_def)
  have z: "Geom_head (clear m b 0x80) ?g = 0" "Geom_tail (clear m b 0x80) ?g = 0"
    using read_zeros [OF bk, of 0 m] read_zeros [OF bk, of "0x40" m]
    by (simp_all add: Geom_head_def Geom_tail_def Pa_add_def HEAD_OFF_def TAIL_OFF_def)
  have h0: "Geom_head m0 ?g = 0" "Geom_tail m0 ?g = 0"
    using index_words64 [OF bg, of "0x10" "clear m b 0x80" n] z by (simp_all add: m0)
  have m1: "m1 = promise m0 b PRODUCER_WB_OFF cw" and w: "w = \<lparr>wg = ?g, wlocal = cw, whead = Geom_head m1 ?g\<rparr>"
    using wo cb by (auto simp: Writer_open_with_def Let_def)
  have h1: "Geom_head m1 ?g = 0" "Geom_tail m1 ?g = 0"
    using index_words64 [OF bg, of 8 m0 WB_WORD] h0 by (simp_all add: m1 promise_def Pa_add_def PRODUCER_WB_OFF_def)
  have m2: "m2 = promise m1 b CONSUMER_WB_OFF cr" and r: "r = \<lparr>rg = ?g, corrupt = None, rlocal = cr, rtail = Geom_tail m2 ?g\<rparr>"
    using ro cb by (auto simp: Reader_open_with_def Let_def)
  have h2: "Geom_head m2 ?g = 0" "Geom_tail m2 ?g = 0"
    using index_words64 [OF bg, of "0x48" m1 WB_WORD] h1 by (simp_all add: m2 promise_def Pa_add_def CONSUMER_WB_OFF_def)
  show "ring_rel (m2, w, r) []" "whead w = 0" "wg w = ?g"
    using bk n h1 h2 by (simp_all add: ring_rel_def w r holds_nil)
qed

text \<open>
  C4: the ring is a FIFO queue.  From a fresh ring, with any coherence promises of the two sides, and
  for any interleaving of offers and reads, what was read is a prefix of what was accepted, in order,
  with kinds and payloads intact, and the rest is still under way.
\<close>

theorem ring_is_fifo:
  assumes "init m b n = Inr m0" "Writer_open_with m0 b n cw = Inr (w, m1)"
    and "Reader_open_with m1 b n cr = Inr (r, m2)" "unat n < 2 ^ 32" "unat n div 2 \<le> mx"
    and "rq.run mx (m2, w, r) ops = (sent, got, st)"
  shows "\<exists>rest. sent = got @ rest \<and> ring_rel st rest"
proof -
  have "rg r = \<lparr>gbase = b, gsize = n\<rparr>" using assms(3) by (auto simp: Reader_open_with_def Let_def res_simps)
  with fresh_ring(1) [OF assms(1-4)] assms(5) have "ring_queue mx (m2, w, r) []" by (simp add: ring_queue_def)
  from rq.run_fifo [OF this assms(6)] show ?thesis by (auto simp: ring_queue_def)
qed

text \<open>
  The doorbell contract.  A write tells its caller to wake the reader exactly when no record was
  under way.
\<close>

theorem ring_write_wakes:
  assumes "ring_rel (m, w, r) rs" "ring_open (m, w, r) (k, p)" "Writer_write m w k p = Inr (e, w', m')"
  shows "e \<longleftrightarrow> rs = []"
proof -
  have h: "holds m (rg r) (unat (whead w)) (unat (rtail r)) rs" using assms(1) by (simp add: ring_rel_def)
  have "unat (whead w) = unat (rtail r) \<longleftrightarrow> rs = []"
  proof (cases rs)
    case Nil
    with h show ?thesis by (auto elim: holds_NilE)
  next
    case (Cons x xs)
    then show ?thesis using holds_first_short(2) [OF h [unfolded Cons]] by simp
  qed
  with write_keeps_rel [OF assms] show ?thesis by (auto simp: word_unat_eq_iff)
qed

lemma empty_accepts:
  assumes rel: "ring_rel (m, w, r) []" and op: "ring_open (m, w, r) (k, p)"
    and fits: "Writer_fits w (length p) = Inr True"
  shows "\<exists>w' m'. Writer_write m w k p = Inr (True, w', m')"
proof -
  let ?s = "unat (gsize (wg w))"
  have f: "wg w = rg r" "backing (gbase (wg w)) (gsize (wg w))" "?s < 2 ^ 32" "Geom_tail m (wg w) = rtail r"
    "unat (whead w) mod 8 = 0" "holds m (rg r) (unat (whead w)) (unat (rtail r)) []"
    using rel by (simp_all add: ring_rel_def)
  have len: "length p < 2 ^ 63" using op by (simp add: ring_open_def)
  have ht: "unat (whead w) = unat (rtail r)" using f(6) by (rule holds_NilE) simp
  then have "whead w = Geom_tail m (wg w)" using f(4) by (simp add: word_unat_eq_iff)
  then have used: "used m w = 0" by (simp add: used_def)
  obtain N where N: "(add64 REC_HDR (align8 (of_nat (length p))) :: AbiError fail + u64) = Inr N" "unat N = rec_need (length p)"
    using add_need [OF len] by blast
  then have half: "rec_need (length p) \<le> ?s div 2"
    using fits by (simp add: Writer_fits_def word_le_nat_alt unat_div_distrib)
  note eq = write_eq [OF f(2) len, of m k]
  note c8 = head_room(1) [OF f(2,5)]
  have wake: "whead w = Geom_tail m (wg w)" using ht f(4) by (simp add: word_unat_eq_iff)
  have s63: "?s < 2 ^ 63" using f(3) by simp
  show ?thesis
    using f(2) s63 len
  proof (cases rule: writer_reserve_cases [where m = m])
    case (full x y)
    then have "?s < (if contig w < rec_need (length p) then contig w + rec_need (length p) else rec_need (length p))"
      using used by simp
    then show ?thesis using half by (auto split: if_splits)
  qed (use half used c8 wake in \<open>simp_all add: eq\<close>)
qed

text \<open>
  No record starves.  A ring with nothing under way accepts every record that fits in half of it.
\<close>

theorem ring_empty_accepts:
  assumes "ring_rel (m, w, r) []" and "ring_open (m, w, r) (k, p)"
    and "Writer_fits w (length p) = Inr True"
  shows "\<exists>w' m'. Writer_write m w k p = Inr (True, w', m')"
  by (rule empty_accepts [OF assms])

section \<open>A concrete ring\<close>

definition mem0 :: mem where
  "mem0 = projr (init (\<lambda>_. 0xFF) 0x1000 64)"

definition opened_w :: "Writer \<times> mem" where
  "opened_w = projr (Writer_open_with mem0 0x1000 64 Hardware)"

definition opened_r :: "Reader \<times> mem" where
  "opened_r = projr (Reader_open_with (snd opened_w) 0x1000 64 Maintained)"

lemma opened:
  "init (\<lambda>_. 0xFF) 0x1000 64 = Inr mem0"
  "Writer_open_with mem0 0x1000 64 Hardware = Inr (fst opened_w, snd opened_w)"
  "Reader_open_with (snd opened_w) 0x1000 64 Maintained = Inr (fst opened_r, snd opened_r)"
  using small_backing
  by (simp_all add: small_geom_def mem0_def opened_w_def opened_r_def init_def Writer_open_with_def
      Reader_open_with_def Let_def)

lemma opened_rel:
  "ring_rel (snd opened_r, fst opened_w, fst opened_r) []" "whead (fst opened_w) = 0"
  "wg (fst opened_w) = \<lparr>gbase = 0x1000, gsize = 64\<rparr>"
  by (rule fresh_ring [OF opened]; simp)+

lemma opened_accepts:
  "ring_open (snd opened_r, fst opened_w, fst opened_r) (5, [1, 2, 3])"
  "Writer_fits (fst opened_w) (length [1, 2, 3 :: u8]) = Inr True"
proof -
  show "ring_open (snd opened_r, fst opened_w, fst opened_r) (5, [1, 2, 3])"
    by (simp add: ring_open_def opened_rel)
  show "Writer_fits (fst opened_w) (length [1, 2, 3 :: u8]) = Inr True"
    by (simp add: Writer_fits_def opened_rel add64_def REC_HDR_def align8_def saturating_add_def)
qed

theorem ring_is_fifo_witness:
  "\<exists>sent got st rest. rq.run 32 (snd opened_r, fst opened_w, fst opened_r) [Some (5, [1, 2, 3]), None] = (sent, got, st) \<and>
     sent = got @ rest \<and> ring_rel st rest"
proof -
  obtain sent got st where run: "rq.run 32 (snd opened_r, fst opened_w, fst opened_r) [Some (5, [1, 2, 3]), None] = (sent, got, st)"
    by (metis prod_cases3)
  with ring_is_fifo [OF opened _ _ run] show ?thesis by auto
qed

theorem ring_write_wakes_witness:
  "\<exists>e w' m'. Writer_write (snd opened_r) (fst opened_w) 5 [1, 2, 3] = Inr (e, w', m') \<and> e"
proof -
  obtain w' m' where w: "Writer_write (snd opened_r) (fst opened_w) 5 [1, 2, 3] = Inr (True, w', m')"
    using empty_accepts [OF opened_rel(1) opened_accepts] by blast
  from ring_write_wakes [OF opened_rel(1) opened_accepts(1) w] w show ?thesis by blast
qed

theorem ring_empty_accepts_witness:
  "\<exists>w' m'. Writer_write (snd opened_r) (fst opened_w) 5 [1, 2, 3] = Inr (True, w', m')"
  by (rule ring_empty_accepts [OF opened_rel(1) opened_accepts])

end
