(* ===== verification/Heap.thy ===== *)
theory Heap
  imports HopPrelude
begin

unbundle bit_operations_syntax

text \<open>
  The heap that kernel and apps share (\<^verbatim>\<open>heap/src/lib.rs\<close>): boundary tags, one doubly linked free
  list per size class and a bitmap of non-empty classes, all inside the region it manages.  A \<^verbatim>\<open>usize\<close>
  is a natural number below \<open>2^64\<close>; the words of the region are the field \<open>hmem\<close>.  An operation that would
  overflow aborts (\<open>Panic\<close>); that happens only on a broken region.
\<close>

definition HDR :: nat where "HDR = 16"
definition GRAIN :: nat where "GRAIN = 16"
definition MIN_BLOCK :: nat where "MIN_BLOCK = HDR + 16"
definition MAX_ALIGN :: nat where "MAX_ALIGN = 4096"
definition USED :: nat where "USED = 1"
definition SMALL_LIMIT :: nat where "SMALL_LIMIT = 1024"
definition SMALL_BINS :: nat where "SMALL_BINS = SMALL_LIMIT div GRAIN + 1"
definition BINS :: nat where "BINS = SMALL_BINS + 64"
definition NIL :: nat where "NIL = 0"

lemmas heap_consts = HDR_def GRAIN_def MIN_BLOCK_def MAX_ALIGN_def USED_def SMALL_LIMIT_def SMALL_BINS_def
  BINS_def NIL_def

record HeapStats =
  s_used :: nat
  s_peak :: nat
  s_capacity :: nat
  s_ceiling :: nat
  s_allocs :: nat
  s_frees :: nat
  s_failed :: nat
  s_bad_frees :: nat

record Walk =
  blocks :: nat
  free_blocks :: nat
  free_bytes :: nat
  largest_free :: nat

datatype HeapCorrupt = HeapCorrupt nat string

record HState =
  hstart :: nat
  hend :: nat
  ceiling :: nat
  bins :: "nat list"
  nonempty :: "u64 list"
  hused :: nat
  peak :: nat
  allocs :: nat
  frees :: nat
  failed :: nat
  bad_frees :: nat
  hmem :: "nat \<Rightarrow> nat"

text \<open>\<^verbatim>\<open>empty\<close>, over the memory that is there.\<close>

definition State_empty :: "(nat \<Rightarrow> nat) \<Rightarrow> HState" where
  "State_empty mm = \<lparr>hstart = 0, hend = 0, ceiling = 0, bins = replicate BINS NIL,
     nonempty = replicate ((BINS + 63) div 64) 0, hused = 0, peak = 0, allocs = 0, frees = 0, failed = 0,
     bad_frees = 0, hmem = mm\<rparr>"

text \<open>\<^verbatim>\<open>checked_add\<close>, \<^verbatim>\<open>checked_sub\<close> and the wrapping operations of \<^verbatim>\<open>usize\<close>; counters are \<^verbatim>\<open>u64\<close>.\<close>

definition uadd :: "nat \<Rightarrow> nat \<Rightarrow> nat option" where
  "uadd a b = (if a + b < 2 ^ 64 then Some (a + b) else None)"

definition usub :: "nat \<Rightarrow> nat \<Rightarrow> nat option" where
  "usub a b = (if b \<le> a then Some (a - b) else None)"

definition wrap :: "nat \<Rightarrow> nat" where
  "wrap n = n mod 2 ^ 64"

definition wrapping_sub :: "nat \<Rightarrow> nat \<Rightarrow> nat" where
  "wrapping_sub a b = (a + 2 ^ 64 - b) mod 2 ^ 64"

text \<open>The unchecked \<^verbatim>\<open>+\<close> of a build with overflow checks.\<close>

definition plus :: "nat \<Rightarrow> nat \<Rightarrow> unit fail + nat" where
  "plus a b = (if a + b < 2 ^ 64 then Inr (a + b) else Inl Panic)"

text \<open>\<^verbatim>\<open>x & !(a - 1)\<close> for a power of two \<open>a\<close>.\<close>

definition align_down :: "nat \<Rightarrow> nat \<Rightarrow> nat" where
  "align_down x a = x div a * a"

section \<open>Words in the region\<close>

definition word_ok :: "HState \<Rightarrow> nat \<Rightarrow> bool" where
  "word_ok st a \<longleftrightarrow> hstart st \<le> a \<and> a mod 8 = 0 \<and>
     (case uadd a 8 of None \<Rightarrow> False | Some e \<Rightarrow> e \<le> hend st)"

definition rd :: "HState \<Rightarrow> nat \<Rightarrow> nat" where
  "rd st a = (if \<not> word_ok st a then 0 else hmem st a)"

definition wr :: "HState \<Rightarrow> nat \<Rightarrow> nat \<Rightarrow> HState" where
  "wr st a v = (if \<not> word_ok st a then st else st\<lparr>hmem := (hmem st)(a := v)\<rparr>)"

section \<open>Headers and links\<close>

definition bsize :: "HState \<Rightarrow> nat \<Rightarrow> nat" where
  "bsize st b = align_down (rd st b) GRAIN"

definition is_used :: "HState \<Rightarrow> nat \<Rightarrow> bool" where
  "is_used st b \<longleftrightarrow> rd st b AND USED \<noteq> 0"

definition set_head :: "HState \<Rightarrow> nat \<Rightarrow> nat \<Rightarrow> bool \<Rightarrow> HState" where
  "set_head st b s u = wr st b (s OR of_bool u)"

definition prev_size :: "HState \<Rightarrow> nat \<Rightarrow> nat" where
  "prev_size st b = rd st (wrap (b + 8))"

definition set_prev_size :: "HState \<Rightarrow> nat \<Rightarrow> nat \<Rightarrow> HState" where
  "set_prev_size st b v = wr st (wrap (b + 8)) v"

definition next_free :: "HState \<Rightarrow> nat \<Rightarrow> nat" where
  "next_free st b = rd st (wrap (b + HDR))"

definition prev_free :: "HState \<Rightarrow> nat \<Rightarrow> nat" where
  "prev_free st b = rd st (wrap (b + (HDR + 8)))"

definition set_links :: "HState \<Rightarrow> nat \<Rightarrow> nat \<Rightarrow> nat \<Rightarrow> HState" where
  "set_links st b nxt prv = wr (wr st (wrap (b + HDR)) nxt) (wrap (b + (HDR + 8))) prv"

definition max_steps :: "HState \<Rightarrow> nat" where
  "max_steps st = (hend st - hstart st) div MIN_BLOCK + 1"

definition fix_follower :: "HState \<Rightarrow> nat \<Rightarrow> HState" where
  "fix_follower st b =
     (let s = bsize st b; n = min (b + s) (2 ^ 64 - 1) in
      if n < hend st then set_prev_size st n s else st)"

section \<open>Classes\<close>

text \<open>\<^verbatim>\<open>usize::BITS - 1 - leading_zeros\<close>: the position of the highest bit.\<close>

fun high_bit :: "nat \<Rightarrow> nat" where
  "high_bit n = (if n \<le> 1 then 0 else Suc (high_bit (n div 2)))"

declare high_bit.simps [simp del]

definition bin_of :: "nat \<Rightarrow> nat" where
  "bin_of s = (if s \<le> SMALL_LIMIT then s div GRAIN else SMALL_BINS + high_bit s)"

definition mark :: "HState \<Rightarrow> nat \<Rightarrow> bool \<Rightarrow> HState" where
  "mark st i ne =
     (case list_get (nonempty st) (i div 64) of
        None \<Rightarrow> st
      | Some w \<Rightarrow>
          st\<lparr>nonempty := (nonempty st)[i div 64 :=
               (if ne then w OR push_bit (i mod 64) 1 else w AND NOT (push_bit (i mod 64) 1))]\<rparr>)"

text \<open>\<^verbatim>\<open>trailing_zeros\<close> of a non-zero word.\<close>

definition trailing_zeros :: "u64 \<Rightarrow> nat" where
  "trailing_zeros w = (case find (bit w) [0..<64] of None \<Rightarrow> 64 | Some i \<Rightarrow> i)"

function next_bin_loop :: "u64 list \<Rightarrow> nat \<Rightarrow> u64 \<Rightarrow> nat option" where
  "next_bin_loop ws w bits =
     (if bits \<noteq> 0 then Some (w * 64 + trailing_zeros bits)
      else if w + 1 < length ws then next_bin_loop ws (w + 1) (ws ! (w + 1))
      else None)"
  by pat_completeness auto

termination
  by (relation "measure (\<lambda>(ws, w, bits). length ws - w)") auto

declare next_bin_loop.simps [simp del]

definition next_bin :: "HState \<Rightarrow> nat \<Rightarrow> nat option" where
  "next_bin st lo =
     (case list_get (nonempty st) (lo div 64) of
        None \<Rightarrow> None
      | Some x \<Rightarrow> next_bin_loop (nonempty st) (lo div 64) (x AND push_bit (lo mod 64) (NOT 0)))"

definition push :: "HState \<Rightarrow> nat \<Rightarrow> HState" where
  "push st b =
     (let i = bin_of (bsize st b) in
      case list_get (bins st) i of
        None \<Rightarrow> st
      | Some head \<Rightarrow>
          (let st1 = set_links st b head NIL;
               st2 = (if head \<noteq> NIL then set_links st1 head (next_free st1 head) b else st1);
               st3 = st2\<lparr>bins := (bins st2)[i := b]\<rparr> in
           mark st3 i True))"

definition unlink :: "HState \<Rightarrow> nat \<Rightarrow> HState" where
  "unlink st b =
     (let n = next_free st b; p = prev_free st b;
          st1 = (if p = NIL then
                   (let i = bin_of (bsize st b); st' = st\<lparr>bins := (bins st)[i := n]\<rparr> in
                    if n = NIL then mark st' i False else st')
                 else set_links st p n (prev_free st p)) in
      if n \<noteq> NIL then set_links st1 n (next_free st1 n) p else st1)"

section \<open>Allocating\<close>

definition State_init :: "HState \<Rightarrow> nat \<Rightarrow> nat \<Rightarrow> HState" where
  "State_init st0 a b =
     (let st = State_empty (hmem st0);
          s = map_option (\<lambda>v. align_down v GRAIN) (uadd a (GRAIN - 1));
          e = align_down b GRAIN in
      case s of
        None \<Rightarrow> st
      | Some s \<Rightarrow>
          if s \<noteq> 0 \<and> s \<le> e \<and> MIN_BLOCK \<le> e - s then
            push (set_prev_size (set_head (st\<lparr>hstart := s, hend := e, ceiling := e - s\<rparr>) s (e - s) False) s 0) s
          else st)"

definition block_need :: "nat \<Rightarrow> nat option" where
  "block_need n =
     Option.bind (uadd n (GRAIN - 1)) (\<lambda>v.
     Option.bind (uadd (align_down v GRAIN) HDR) (\<lambda>t. Some (max t MIN_BLOCK)))"

definition fit :: "HState \<Rightarrow> nat \<Rightarrow> nat \<Rightarrow> nat \<Rightarrow> nat option" where
  "fit st b need align =
     Option.bind (uadd b HDR) (\<lambda>body.
     Option.bind (uadd body (align - 1)) (\<lambda>v.
       let at0 = align_down v align in
     Option.bind (if at0 \<noteq> body \<and> at0 - body < MIN_BLOCK
                  then map_option (\<lambda>v. align_down v align) (uadd body (MIN_BLOCK + align - 1))
                  else Some at0) (\<lambda>at.
       let gap = at - body in
     Option.bind (uadd gap need) (\<lambda>t. if t \<le> bsize st b then Some gap else None))))"

datatype walk = Found nat nat | OutOfSteps | Rest nat

fun walk_list :: "HState \<Rightarrow> nat \<Rightarrow> nat \<Rightarrow> nat \<Rightarrow> nat \<Rightarrow> walk" where
  "walk_list st need align steps b =
     (if b = NIL then Rest steps
      else if steps = 0 then OutOfSteps
      else case fit st b need align of
        Some gap \<Rightarrow> Found b gap
      | None \<Rightarrow> walk_list st need align (steps - 1) (next_free st b))"

declare walk_list.simps [simp del]

lemma trailing_zeros_least:
  assumes "w \<noteq> 0"
  shows "trailing_zeros w < 64" "bit w (trailing_zeros w)" "j < trailing_zeros w \<Longrightarrow> \<not> bit w j"
proof -
  obtain k where k: "bit w k" using assms by (metis bit_eq_iff bit_0_eq bot_apply bot_bool_def)
  then have "k \<in> set [0..<64]" using bit_imp_le_length by fastforce
  then obtain i where i: "find (bit w) [0..<64] = Some i"
    using k by (metis find_None_iff not_Some_eq)
  note f = find_upt_least [OF i]
  have e: "trailing_zeros w = i" by (simp add: trailing_zeros_def i)
  show "trailing_zeros w < 64" "bit w (trailing_zeros w)" using f e by auto
  show "j < trailing_zeros w \<Longrightarrow> \<not> bit w j" using f(4) e by auto
qed

text \<open>The bitmap as a set of class numbers.\<close>

definition bit_at :: "u64 list \<Rightarrow> nat \<Rightarrow> bool" where
  "bit_at ws i \<longleftrightarrow> i div 64 < length ws \<and> bit (ws ! (i div 64)) (i mod 64)"

lemma next_bin_loop_spec:
  "w < length ws \<Longrightarrow>
     (case next_bin_loop ws w bits of
        Some i \<Rightarrow> w * 64 \<le> i \<and> bit_at (ws[w := bits]) i \<and> (\<forall>j. w * 64 \<le> j \<and> j < i \<longrightarrow> \<not> bit_at (ws[w := bits]) j)
      | None \<Rightarrow> \<forall>j. w * 64 \<le> j \<longrightarrow> \<not> bit_at (ws[w := bits]) j)"
proof (induction ws w bits rule: next_bin_loop.induct)
  case (1 ws w bits)
  have low: "j div 64 = w" if "w * 64 \<le> j" "j < (w + 1) * 64" for j
    using that by (metis div_nat_eqI mult.commute add.commute plus_1_eq_Suc)
  show ?case
  proof (cases "bits = 0")
    case False
    note tz = trailing_zeros_least [OF False]
    let ?i = "w * 64 + trailing_zeros bits"
    have i: "next_bin_loop ws w bits = Some ?i" using False by (simp add: next_bin_loop.simps [of ws w bits])
    have "?i div 64 = w" "?i mod 64 = trailing_zeros bits" using tz(1) by simp_all
    then have "bit_at (ws[w := bits]) ?i" using tz(2) 1(2) by (simp add: bit_at_def)
    moreover have "\<not> bit_at (ws[w := bits]) j" if j: "w * 64 \<le> j" "j < ?i" for j
    proof -
      have "j div 64 = w" using low j tz(1) by simp
      moreover from this have "j mod 64 < trailing_zeros bits" using j div_mult_mod_eq [of j 64] by linarith
      ultimately show ?thesis using tz(3) 1(2) by (simp add: bit_at_def)
    qed
    ultimately show ?thesis by (simp add: i)
  next
    case True
    have z: "\<not> bit_at (ws[w := bits]) j" if "j div 64 = w" for j using that True 1(2) by (simp add: bit_at_def)
    have up: "(w + 1) * 64 \<le> j" if "w * 64 \<le> j" "j div 64 \<noteq> w" for j using low that by (meson not_less)
    show ?thesis
    proof (cases "w + 1 < length ws")
      case True
      then have step: "next_bin_loop ws w bits = next_bin_loop ws (w + 1) (ws ! (w + 1))"
        using \<open>bits = 0\<close> by (simp add: next_bin_loop.simps [of ws w 0])
      have same: "bit_at (ws[w + 1 := ws ! (w + 1)]) j = bit_at (ws[w := bits]) j" if "(w + 1) * 64 \<le> j" for j
      proof -
        have "j div 64 \<noteq> w" using that by (metis div_le_mono div_mult_self_is_m not_less_eq_eq order_refl Suc_eq_plus1 zero_less_numeral)
        then show ?thesis by (simp add: bit_at_def)
      qed
      have n: "\<not> bits \<noteq> 0" using \<open>bits = 0\<close> by simp
      note IH = 1(1) [OF n True True]
      have low2: "\<not> bit_at (ws[w := bits]) j" if "w * 64 \<le> j" "\<not> (w + 1) * 64 \<le> j" for j
        by (rule z) (rule low, use that in simp_all)
      show ?thesis
      proof (cases "next_bin_loop ws (w + 1) (ws ! (w + 1))")
        case None
        with IH have "\<not> bit_at (ws[w + 1 := ws ! (w + 1)]) j" if "(w + 1) * 64 \<le> j" for j using that by simp
        then have "\<not> bit_at (ws[w := bits]) j" if "w * 64 \<le> j" for j using same low2 that by blast
        then show ?thesis unfolding step None by simp
      next
        case (Some i)
        with IH have i: "(w + 1) * 64 \<le> i" "bit_at (ws[w + 1 := ws ! (w + 1)]) i"
          "\<And>j. (w + 1) * 64 \<le> j \<Longrightarrow> j < i \<Longrightarrow> \<not> bit_at (ws[w + 1 := ws ! (w + 1)]) j" by auto
        have "\<not> bit_at (ws[w := bits]) j" if "w * 64 \<le> j" "j < i" for j using same low2 i(3) that by blast
        moreover have "w * 64 \<le> i" using i(1) by simp
        ultimately show ?thesis unfolding step Some using same [OF i(1)] i(2) by simp
      qed
    next
      case False
      then have "next_bin_loop ws w bits = None" using \<open>bits = 0\<close> by (simp add: next_bin_loop.simps [of ws w 0])
      moreover have "\<not> bit_at (ws[w := bits]) j" if j: "w * 64 \<le> j" for j
      proof (cases "j div 64 = w")
        case False
        then have "w + 1 \<le> j div 64" using up [OF j] by (simp add: less_eq_div_iff_mult_less_eq)
        then show ?thesis using \<open>\<not> w + 1 < length ws\<close> by (simp add: bit_at_def)
      qed (rule z)
      ultimately show ?thesis by simp
    qed
  qed
qed

lemma next_bin_spec:
  "case next_bin st lo of
     Some i \<Rightarrow> lo \<le> i \<and> bit_at (nonempty st) i \<and> (\<forall>j. lo \<le> j \<and> j < i \<longrightarrow> \<not> bit_at (nonempty st) j)
   | None \<Rightarrow> \<forall>j. lo \<le> j \<longrightarrow> \<not> bit_at (nonempty st) j"
proof (cases "lo div 64 < length (nonempty st)")
  case False
  have "\<not> bit_at (nonempty st) j" if "lo \<le> j" for j
  proof -
    have "lo div 64 \<le> j div 64" using that by (rule div_le_mono)
    then show ?thesis using False by (simp add: bit_at_def)
  qed
  with False show ?thesis by (simp add: next_bin_def list_get_def)
next
  case True
  let ?ws = "nonempty st" and ?w = "lo div 64"
  let ?bits = "?ws ! ?w AND push_bit (lo mod 64) (NOT 0)"
  let ?ws' = "?ws[?w := ?bits]"
  have nb: "next_bin st lo = next_bin_loop ?ws ?w ?bits" using True by (simp add: next_bin_def list_get_def)
  have wf: "?w * 64 \<le> lo" by simp
  have at: "bit_at ?ws' j \<longleftrightarrow> bit_at ?ws j \<and> lo \<le> j" if j: "?w * 64 \<le> j" for j
  proof (cases "j div 64 = ?w")
    case True
    have "lo \<le> j \<longleftrightarrow> lo mod 64 \<le> j mod 64"
      using div_mult_mod_eq [of j 64] div_mult_mod_eq [of lo 64] True by linarith
    moreover have "j mod 64 < 64" by simp
    ultimately show ?thesis
      using True \<open>?w < length ?ws\<close> by (auto simp: bit_at_def bit_and_iff bit_push_bit_iff bit_not_iff bit_mask_iff)
  next
    case False
    then have "?w < j div 64" using j by (metis div_le_mono div_mult_self_is_m le_neq_implies_less zero_less_numeral)
    then have "lo \<le> j" by (metis div_le_mono leD nat_le_linear)
    then show ?thesis using False by (simp add: bit_at_def)
  qed
  note spec = next_bin_loop_spec [OF True, of ?bits]
  show ?thesis
  proof (cases "next_bin st lo")
    case None
    have "\<not> bit_at ?ws j" if j: "lo \<le> j" for j
    proof -
      have w: "?w * 64 \<le> j" using wf j by linarith
      have "\<not> bit_at ?ws' j" using spec w unfolding nb [symmetric] None by simp
      then show ?thesis using at [OF w] j by blast
    qed
    then show ?thesis unfolding None by simp
  next
    case (Some i)
    note spec' = spec [unfolded nb [symmetric] Some option.case]
    have i: "?w * 64 \<le> i" "bit_at ?ws' i" "\<And>j. ?w * 64 \<le> j \<Longrightarrow> j < i \<Longrightarrow> \<not> bit_at ?ws' j"
      using spec' by blast+
    have "\<not> bit_at ?ws j" if "lo \<le> j" "j < i" for j
      using i(3) [of j] at [of j] that wf by linarith
    then show ?thesis using i at [of i] Some by simp
  qed
qed

lemma next_bin_SomeD:
  assumes "next_bin st lo = Some i"
  shows "lo \<le> i \<and> i < length (nonempty st) * 64" "bit_at (nonempty st) i"
    "\<And>j. lo \<le> j \<Longrightarrow> j < i \<Longrightarrow> \<not> bit_at (nonempty st) j"
proof -
  have le: "lo \<le> i"
    and r: "bit_at (nonempty st) i" "\<And>j. lo \<le> j \<Longrightarrow> j < i \<Longrightarrow> \<not> bit_at (nonempty st) j"
    using next_bin_spec [where st = st and lo = lo] assms by auto
  show "bit_at (nonempty st) i" "\<And>j. lo \<le> j \<Longrightarrow> j < i \<Longrightarrow> \<not> bit_at (nonempty st) j" by (fact r)+
  show "lo \<le> i \<and> i < length (nonempty st) * 64"
    using le r(1) by (auto simp: bit_at_def div_less_iff_less_mult)
qed

function find_from :: "HState \<Rightarrow> nat \<Rightarrow> nat \<Rightarrow> nat \<Rightarrow> nat \<Rightarrow> (nat \<times> nat) option" where
  "find_from st need align steps lo =
     (case next_bin st lo of
        None \<Rightarrow> None
      | Some i \<Rightarrow>
          (case list_get (bins st) i of
             None \<Rightarrow> None
           | Some b \<Rightarrow>
               (case walk_list st need align steps b of
                  Found b gap \<Rightarrow> Some (b, gap)
                | OutOfSteps \<Rightarrow> None
                | Rest k \<Rightarrow> find_from st need align k (i + 1))))"
  by pat_completeness auto

termination
  by (relation "measure (\<lambda>(st, need, align, steps, lo). length (nonempty st) * 64 - lo)")
    (auto dest!: next_bin_SomeD(1) intro!: diff_less_mono2)

declare find_from.simps [simp del]

definition find_block :: "HState \<Rightarrow> nat \<Rightarrow> nat \<Rightarrow> (nat \<times> nat) option" where
  "find_block st need align = find_from st need align (max_steps st) (bin_of need)"

definition take_block :: "HState \<Rightarrow> nat \<Rightarrow> nat \<Rightarrow> nat \<Rightarrow> unit fail + nat option \<times> HState" where
  "take_block st b gap need =
     (case Option.bind (usub (bsize st b) gap) (\<lambda>r. usub r need) of
        None \<Rightarrow> Inr (None, st)
      | Some rest \<Rightarrow>
          (let taken = (if MIN_BLOCK \<le> rest then need else need + rest) in
           case uadd (hused st) taken of
             None \<Rightarrow> Inr (None, st)
           | Some u \<Rightarrow>
               if u > ceiling st then Inr (None, st)
               else
                 rbind
                   (if 0 < gap then
                      rbind (plus b gap) (\<lambda>blk.
                        Inr (blk, set_prev_size (push (set_head (unlink st b) b gap False) b) blk gap))
                    else Inr (b, unlink st b)) (\<lambda>(blk, st1).
                 let st2 = set_head st1 blk taken True in
                 rbind
                   (if MIN_BLOCK \<le> rest then
                      rbind (plus blk taken) (\<lambda>t.
                        Inr (fix_follower (push (set_prev_size (set_head st2 t rest False) t taken) t) t))
                    else Inr (fix_follower st2 blk)) (\<lambda>st3.
                 rbind (plus blk HDR) (\<lambda>p.
                   Inr (Some p, st3\<lparr>hused := u, peak := max (peak st3) u,
                                    allocs := wrap (allocs st3 + 1)\<rparr>))))))"

definition is_pow2 :: "nat \<Rightarrow> bool" where
  "is_pow2 a \<longleftrightarrow> a \<noteq> 0 \<and> a AND (a - 1) = 0"

definition try_alloc :: "HState \<Rightarrow> nat \<Rightarrow> nat \<Rightarrow> unit fail + nat option \<times> HState" where
  "try_alloc st n align =
     (if hstart st = 0 \<or> \<not> is_pow2 align \<or> align > MAX_ALIGN then Inr (None, st)
      else case block_need n of
        None \<Rightarrow> Inr (None, st)
      | Some need \<Rightarrow>
          (case uadd (hused st) need of
             None \<Rightarrow> Inr (None, st)
           | Some u \<Rightarrow>
               if u > ceiling st then Inr (None, st)
               else case find_block st need (max align GRAIN) of
                 None \<Rightarrow> Inr (None, st)
               | Some (b, gap) \<Rightarrow> take_block st b gap need))"

definition State_alloc :: "HState \<Rightarrow> nat \<Rightarrow> nat \<Rightarrow> unit fail + nat option \<times> HState" where
  "State_alloc st n align =
     rbind (try_alloc st n align) (\<lambda>(r, st').
       Inr (r, if r = None then st'\<lparr>failed := wrap (failed st' + 1)\<rparr> else st'))"

section \<open>Freeing\<close>

definition plausible :: "HState \<Rightarrow> nat \<Rightarrow> bool" where
  "plausible st b \<longleftrightarrow>
     (let s = bsize st b in
      hstart st \<le> b \<and> b < hend st \<and> b mod GRAIN = 0 \<and> is_used st b \<and> MIN_BLOCK \<le> s \<and>
      (case uadd b s of None \<Rightarrow> False | Some e \<Rightarrow> e \<le> hend st))"

definition State_free :: "HState \<Rightarrow> nat \<Rightarrow> unit fail + HState" where
  "State_free st p =
     (let b = wrapping_sub p HDR in
      if p < HDR \<or> \<not> plausible st b then Inr (st\<lparr>bad_frees := wrap (bad_frees st + 1)\<rparr>)
      else
        (let s = bsize st b;
             st1 = st\<lparr>hused := hused st - s, frees := wrap (frees st + 1)\<rparr> in
         rbind (plus b s) (\<lambda>n.
         rbind (if n < hend st1 \<and> \<not> is_used st1 n
                then (let st' = unlink st1 n in rbind (plus s (bsize st' n)) (\<lambda>s'. Inr (s', st')))
                else Inr (s, st1)) (\<lambda>(s2, st2).
           let ps = prev_size st2 b; pb = wrapping_sub b ps in
         rbind (if ps \<noteq> 0 \<and> hstart st2 \<le> pb \<and> \<not> is_used st2 pb
                then (let st' = unlink st2 pb in rbind (plus s2 (bsize st' pb)) (\<lambda>s'. Inr (s', pb, st')))
                else Inr (s2, b, st2)) (\<lambda>(s3, blk, st3).
         Inr (fix_follower (push (set_head st3 blk s3 False) blk) blk))))))"

section \<open>The check\<close>

definition bad :: "nat \<Rightarrow> string \<Rightarrow> HeapCorrupt + 'a" where
  "bad at why = Inl (HeapCorrupt at why)"

text \<open>The walk over the blocks, from \<open>b\<close> on; the sums cannot overflow inside the region.\<close>

function check_blocks ::
  "HState \<Rightarrow> nat \<Rightarrow> nat \<Rightarrow> bool \<Rightarrow> nat \<Rightarrow> Walk \<Rightarrow> HeapCorrupt + nat \<times> nat \<times> Walk" where
  "check_blocks st b prev pfree used w =
     (if b < hend st then
        (let s = bsize st b in
         if s < MIN_BLOCK \<or> b mod GRAIN \<noteq> 0 \<or> (case uadd b s of None \<Rightarrow> True | Some e \<Rightarrow> e > hend st)
         then bad b ''block size out of range''
         else if prev_size st b \<noteq> prev then bad b ''prev_size does not match the neighbour''
         else if \<not> is_used st b \<and> pfree then bad b ''two free neighbours''
         else if \<not> is_used st b then
           check_blocks st (b + s) s True used
             (w\<lparr>blocks := blocks w + 1, free_blocks := free_blocks w + 1, free_bytes := free_bytes w + s,
                largest_free := max (largest_free w) s\<rparr>)
         else check_blocks st (b + s) s False (used + s) (w\<lparr>blocks := blocks w + 1\<rparr>))
      else Inr (b, used, w))"
  by pat_completeness auto

termination
  by (relation "measure (\<lambda>(st, b, prev, pfree, used, w). hend st - b)") (auto simp: heap_consts)

declare check_blocks.simps [simp del]

definition plausible_free :: "HState \<Rightarrow> nat \<Rightarrow> bool" where
  "plausible_free st b \<longleftrightarrow> hstart st \<le> b \<and> b < hend st \<and> b mod GRAIN = 0 \<and> \<not> is_used st b"

text \<open>One list of \<^verbatim>\<open>check_bins\<close>: it gives the number of blocks listed so far.\<close>

function check_list :: "HState \<Rightarrow> nat \<Rightarrow> nat \<Rightarrow> nat \<Rightarrow> nat \<Rightarrow> nat \<Rightarrow> HeapCorrupt + nat" where
  "check_list st nfree i b back listed =
     (if b = NIL then Inr listed
      else if listed + 1 > nfree then bad b ''more listed blocks than free blocks''
      else if \<not> plausible_free st b then bad b ''listed block is not a free block''
      else if bin_of (bsize st b) \<noteq> i then bad b ''free block in the wrong class''
      else if (case list_get (nonempty st) (i div 64) of
                 None \<Rightarrow> True | Some w \<Rightarrow> w AND push_bit (i mod 64) 1 = 0)
      then bad b ''non-empty class not marked''
      else if prev_free st b \<noteq> back then bad b ''broken back link''
      else check_list st nfree i (next_free st b) b (listed + 1))"
  by pat_completeness auto

termination
  by (relation "measure (\<lambda>(st, nfree, i, b, back, listed). nfree - listed)") auto

declare check_list.simps [simp del]

fun check_lists :: "HState \<Rightarrow> nat \<Rightarrow> nat \<Rightarrow> nat list \<Rightarrow> nat \<Rightarrow> HeapCorrupt + nat" where
  "check_lists st nfree i [] listed = Inr listed"
| "check_lists st nfree i (head # hs) listed =
     rbind (check_list st nfree i head NIL listed) (check_lists st nfree (i + 1) hs)"

definition check_bins :: "HState \<Rightarrow> nat \<Rightarrow> HeapCorrupt + unit" where
  "check_bins st nfree =
     rbind (check_lists st nfree 0 (bins st) 0) (\<lambda>listed.
       if listed \<noteq> nfree then bad listed ''free block missing from the lists'' else Inr ())"

definition State_check :: "HState \<Rightarrow> HeapCorrupt + Walk" where
  "State_check st =
     (let w0 = \<lparr>blocks = 0, free_blocks = 0, free_bytes = 0, largest_free = 0\<rparr> in
      if hstart st = 0 then Inr w0
      else rbind (check_blocks st (hstart st) 0 False 0 w0) (\<lambda>(b, used, w).
        if b \<noteq> hend st then bad b ''blocks overrun the end''
        else if used \<noteq> hused st then bad used ''used counter does not match the blocks''
        else if hused st > ceiling st then bad (hused st) ''used above the ceiling''
        else rbind (check_bins st (free_blocks w)) (\<lambda>_. Inr w)))"

definition State_stats :: "HState \<Rightarrow> HeapStats" where
  "State_stats st = \<lparr>s_used = hused st, s_peak = peak st, s_capacity = hend st - hstart st,
     s_ceiling = ceiling st, s_allocs = allocs st, s_frees = frees st, s_failed = failed st,
     s_bad_frees = bad_frees st\<rparr>"

end
