(* ===== verification/HeapView.thy ===== *)
theory HeapView
  imports Heap
begin

unbundle bit_operations_syntax

text \<open>
  The heap seen as a store of block records.  A block address has four words behind it: the head, the
  size of the predecessor and the two links.  On a set of addresses that lie at least the smallest block
  apart these are four independent functions, and every write of the allocator updates one of them.
\<close>

lemmas heap_nums = HDR_def GRAIN_def MIN_BLOCK_def NIL_def USED_def SMALL_LIMIT_def SMALL_BINS_def BINS_def

section \<open>Sites\<close>

definition region_ok :: "HState \<Rightarrow> bool" where
  "region_ok st \<longleftrightarrow> 0 < hstart st \<and> hstart st < hend st \<and> hstart st mod 16 = 0 \<and> hend st mod 16 = 0 \<and> hend st < 2 ^ 64"

definition site :: "HState \<Rightarrow> nat \<Rightarrow> bool" where
  "site st b \<longleftrightarrow> hstart st \<le> b \<and> b + 32 \<le> hend st \<and> b mod 16 = 0"

definition spaced :: "HState \<Rightarrow> nat set \<Rightarrow> bool" where
  "spaced st A \<longleftrightarrow> (\<forall>b \<in> A. site st b) \<and> (\<forall>b \<in> A. \<forall>c \<in> A. b < c \<longrightarrow> b + 32 \<le> c)"

lemma site_word:
  assumes "region_ok st" "site st b"
  shows "word_ok st b" "word_ok st (b + 8)" "word_ok st (b + 16)" "word_ok st (b + 24)"
    "wrap (b + 8) = b + 8" "wrap (b + 16) = b + 16" "wrap (b + 24) = b + 24"
proof -
  have b: "hstart st \<le> b" "b + 32 \<le> hend st" "hend st < 2 ^ 64" "b mod 16 = 0"
    using assms by (simp_all add: region_ok_def site_def)
  then have m: "b mod 8 = 0" by presburger
  have lt: "b + 32 < 2 ^ 64" using b by linarith
  have w: "word_ok st (b + k)" if "k mod 8 = 0" "k + 8 \<le> 32" for k
  proof -
    have "(b + k) mod 8 = 0" using m that(1) by presburger
    then show ?thesis using b lt that(2) by (simp add: word_ok_def uadd_def)
  qed
  show "word_ok st b" using w [of 0] by simp
  show "word_ok st (b + 8)" "word_ok st (b + 16)" "word_ok st (b + 24)" by (rule w; simp)+
  show "wrap (b + 8) = b + 8" "wrap (b + 16) = b + 16" "wrap (b + 24) = b + 24" using lt by (simp_all add: wrap_def)
qed

section \<open>What the words of the sites hold\<close>

definition sees :: "HState \<Rightarrow> nat set \<Rightarrow> (nat \<Rightarrow> nat) \<Rightarrow> (nat \<Rightarrow> nat) \<Rightarrow> (nat \<Rightarrow> nat) \<Rightarrow> (nat \<Rightarrow> nat) \<Rightarrow> bool" where
  "sees st A h p n v \<longleftrightarrow> region_ok st \<and> spaced st A \<and>
     (\<forall>c \<in> A. hmem st c = h c \<and> hmem st (c + 8) = p c \<and> hmem st (c + 16) = n c \<and> hmem st (c + 24) = v c)"

lemma sees_reads:
  assumes "sees st A h p n v" "b \<in> A"
  shows "rd st b = h b" "prev_size st b = p b" "next_free st b = n b" "prev_free st b = v b"
proof -
  have s: "region_ok st" "site st b" using assms by (auto simp: sees_def spaced_def)
  note w = site_word [OF s]
  show "rd st b = h b" "prev_size st b = p b" "next_free st b = n b" "prev_free st b = v b"
    using w assms by (simp_all add: rd_def prev_size_def next_free_def prev_free_def HDR_def sees_def)
qed

text \<open>Two words of the sites are the same only when site and offset are.\<close>

lemma words_apart:
  assumes "spaced st A" "b \<in> A" "c \<in> A" "i \<in> {0, 8, 16, 24}" "j \<in> {0, 8, 16, 24}"
  shows "b + i = c + j \<longleftrightarrow> b = c \<and> i = j"
proof (cases b c rule: linorder_cases)
  case less
  then have "b + 32 \<le> c" using assms by (auto simp: spaced_def)
  then show ?thesis using assms(4,5) less by auto
next
  case equal
  then show ?thesis by auto
next
  case greater
  then have "c + 32 \<le> b" using assms by (auto simp: spaced_def)
  then show ?thesis using assms(4,5) greater by auto
qed

lemma wr_site: "region_ok st \<Longrightarrow> word_ok st a \<Longrightarrow> wr st a x = st\<lparr>hmem := (hmem st)(a := x)\<rparr>"
  by (simp add: wr_def)

lemma sees_wr:
  assumes "sees st A h p n v" "b \<in> A"
  shows "sees (st\<lparr>hmem := (hmem st)(b := x)\<rparr>) A (h(b := x)) p n v"
    "sees (st\<lparr>hmem := (hmem st)(b + 8 := x)\<rparr>) A h (p(b := x)) n v"
    "sees (st\<lparr>hmem := (hmem st)(b + 16 := x)\<rparr>) A h p (n(b := x)) v"
    "sees (st\<lparr>hmem := (hmem st)(b + 24 := x)\<rparr>) A h p n (v(b := x))"
proof -
  have sp: "spaced st A" and r: "region_ok st" using assms(1) by (simp_all add: sees_def)
  have cells: "\<forall>c \<in> A. hmem st c = h c \<and> hmem st (c + 8) = p c \<and> hmem st (c + 16) = n c \<and> hmem st (c + 24) = v c"
    using assms(1) by (simp add: sees_def)
  have fld: "region_ok (st\<lparr>hmem := m\<rparr>) = region_ok st" "spaced (st\<lparr>hmem := m\<rparr>) A = spaced st A" for m
    by (simp_all add: region_ok_def spaced_def site_def)
  have e: "c + j = b + i \<longleftrightarrow> c = b \<and> j = i" if "c \<in> A" "i \<in> {0, 8, 16, 24}" "j \<in> {0, 8, 16, 24}" for c i j
    by (rule words_apart [OF sp that(1) assms(2) that(3,2)])
  have e0: "c = b + i \<longleftrightarrow> c = b \<and> i = 0" if "c \<in> A" "i \<in> {0, 8, 16, 24}" for c i
    using e [OF that, of 0] by auto
  have e1: "c + j = b \<longleftrightarrow> c = b \<and> j = 0" if "c \<in> A" "j \<in> {0, 8, 16, 24}" for c j
    using e [OF that(1) _ that(2), of 0] by auto
  show "sees (st\<lparr>hmem := (hmem st)(b := x)\<rparr>) A (h(b := x)) p n v"
    unfolding sees_def fld using sp r cells by (simp add: e1)
  show "sees (st\<lparr>hmem := (hmem st)(b + 8 := x)\<rparr>) A h (p(b := x)) n v"
    unfolding sees_def fld using sp r cells by (simp add: e0 e)
  show "sees (st\<lparr>hmem := (hmem st)(b + 16 := x)\<rparr>) A h p (n(b := x)) v"
    unfolding sees_def fld using sp r cells by (simp add: e0 e)
  show "sees (st\<lparr>hmem := (hmem st)(b + 24 := x)\<rparr>) A h p n (v(b := x))"
    unfolding sees_def fld using sp r cells by (simp add: e0 e)
qed

text \<open>Nothing else of the state changes in a write.\<close>

definition same_book :: "HState \<Rightarrow> HState \<Rightarrow> bool" where
  "same_book st st' \<longleftrightarrow> (\<exists>m. st' = st\<lparr>hmem := m\<rparr>)"

lemma same_bookD:
  assumes "same_book st st'"
  shows "hstart st' = hstart st" "hend st' = hend st" "ceiling st' = ceiling st" "bins st' = bins st" "nonempty st' = nonempty st"
    "hused st' = hused st" "peak st' = peak st" "allocs st' = allocs st" "frees st' = frees st" "failed st' = failed st"
    "bad_frees st' = bad_frees st"
  using assms by (auto simp: same_book_def)

lemma same_book_refl [simp]: "same_book st st"
  unfolding same_book_def by (rule exI [of _ "hmem st"]) simp

lemma same_book_upd [simp]: "same_book st (st\<lparr>hmem := m\<rparr>)"
  unfolding same_book_def by blast

lemma same_book_trans: "same_book a b \<Longrightarrow> same_book b c \<Longrightarrow> same_book a c"
  unfolding same_book_def by auto

lemma sees_set_head:
  assumes "sees st A h p n v" "b \<in> A" "s mod 16 = 0"
  shows "sees (set_head st b s u) A (h(b := s + of_bool u)) p n v" "same_book st (set_head st b s u)"
proof -
  have s: "region_ok st" "site st b" using assms by (auto simp: sees_def spaced_def)
  have "even s" using assms(3) by presburger
  then have "s OR of_bool u = s + of_bool u"
    using or_one_eq [of s] by (cases u) simp_all
  then have e: "set_head st b s u = st\<lparr>hmem := (hmem st)(b := s + of_bool u)\<rparr>"
    using site_word(1) [OF s] by (simp add: set_head_def wr_def)
  show "sees (set_head st b s u) A (h(b := s + of_bool u)) p n v" "same_book st (set_head st b s u)"
    unfolding e using sees_wr(1) [OF assms(1,2)] by simp_all
qed

lemma sees_set_prev:
  assumes "sees st A h p n v" "b \<in> A"
  shows "sees (set_prev_size st b x) A h (p(b := x)) n v" "same_book st (set_prev_size st b x)"
proof -
  have s: "region_ok st" "site st b" using assms by (auto simp: sees_def spaced_def)
  have e: "set_prev_size st b x = st\<lparr>hmem := (hmem st)(b + 8 := x)\<rparr>"
    using site_word [OF s] by (simp add: set_prev_size_def wr_def)
  show "sees (set_prev_size st b x) A h (p(b := x)) n v" "same_book st (set_prev_size st b x)"
    unfolding e using sees_wr(2) [OF assms(1,2)] by simp_all
qed

lemma sees_set_links:
  assumes "sees st A h p n v" "b \<in> A"
  shows "sees (set_links st b x y) A h p (n(b := x)) (v(b := y))" "same_book st (set_links st b x y)"
proof -
  have s: "region_ok st" "site st b" using assms by (auto simp: sees_def spaced_def)
  let ?s1 = "st\<lparr>hmem := (hmem st)(b + 16 := x)\<rparr>"
  have "word_ok ?s1 (b + 24)" using site_word(4) [OF s] by (simp add: word_ok_def split: option.splits)
  then have e: "set_links st b x y = ?s1\<lparr>hmem := (hmem ?s1)(b + 24 := y)\<rparr>"
    using site_word [OF s] by (simp add: set_links_def wr_def HDR_def)
  show "sees (set_links st b x y) A h p (n(b := x)) (v(b := y))"
    unfolding e by (rule sees_wr(4) [OF sees_wr(3) [OF assms] assms(2)])
  show "same_book st (set_links st b x y)" unfolding e by (rule same_book_trans [OF same_book_upd same_book_upd])
qed

lemma sees_book:
  assumes "sees st A h p n v" "hstart st' = hstart st" "hend st' = hend st" "hmem st' = hmem st"
  shows "sees st' A h p n v"
  using assms by (simp add: sees_def region_ok_def spaced_def site_def)

lemma sees_cong:
  assumes "sees st A h p n v" "\<And>c. c \<in> A \<Longrightarrow> h c = h' c \<and> p c = p' c \<and> n c = n' c \<and> v c = v' c"
  shows "sees st A h' p' n' v'"
  using assms by (simp add: sees_def)

lemma sees_sub: "sees st A h p n v \<Longrightarrow> B \<subseteq> A \<Longrightarrow> sees st B h p n v"
  unfolding sees_def spaced_def by (blast intro: subsetD)

lemma sees_self: "region_ok st \<Longrightarrow> spaced st A \<Longrightarrow>
    sees st A (hmem st) (\<lambda>c. hmem st (c + 8)) (\<lambda>c. hmem st (c + 16)) (\<lambda>c. hmem st (c + 24))"
  by (simp add: sees_def)

text \<open>A head word read back.\<close>

lemma head_read:
  assumes "sees st A h p n v" "b \<in> A" "h b = s + of_bool u" "s mod 16 = 0"
  shows "bsize st b = s" "is_used st b = u"
proof -
  have r: "rd st b = s + of_bool u" using sees_reads(1) [OF assms(1,2)] assms(3) by simp
  have "(s + of_bool u) div 16 * 16 = s"
  proof (cases u)
    case True
    then show ?thesis using assms(4) by simp presburger
  next
    case False
    then show ?thesis using assms(4) by auto
  qed
  then show "bsize st b = s" unfolding bsize_def r by (simp add: align_down_def GRAIN_def)
  have "even s" using assms(4) by presburger
  then have "(s + of_bool u) mod 2 = (of_bool u :: nat)" by (cases u) (simp, presburger, simp)
  then have "(s + of_bool u) AND 1 = (of_bool u :: nat)" by (simp only: and_one_eq)
  then show "is_used st b = u" unfolding is_used_def r USED_def by simp
qed

lemma site_spaced: "sees st A h p n v \<Longrightarrow> b \<in> A \<Longrightarrow> site st b \<and> 0 < b \<and> b < 2 ^ 64"
  by (auto simp: sees_def spaced_def site_def region_ok_def)

end
