(* ===== verification/HeapList.thy ===== *)
theory HeapList
  imports HeapView
begin

unbundle bit_operations_syntax

text \<open>
  The free lists: one doubly linked list per class, with the bitmap of non-empty classes.  The abstract
  content is a set of free blocks, address and size; \<open>push\<close> adds one and \<open>unlink\<close> removes one.
\<close>

section \<open>Classes\<close>

lemma high_bit_mono: "a \<le> b \<Longrightarrow> high_bit a \<le> high_bit b"
proof (induction b arbitrary: a rule: less_induct)
  case (less b)
  show ?case
  proof (cases "a \<le> 1")
    case True
    then show ?thesis by (simp add: high_bit.simps [of a])
  next
    case False
    then have b: "\<not> b \<le> 1" using less.prems by linarith
    have "high_bit (a div 2) \<le> high_bit (b div 2)" using less b by (simp add: div_le_mono)
    then show ?thesis using False b by (simp add: high_bit.simps [of a] high_bit.simps [of b])
  qed
qed

lemma high_bit_bound: "n < 2 ^ k \<Longrightarrow> high_bit n \<le> k - 1"
proof (induction k arbitrary: n)
  case 0
  then show ?case by (simp add: high_bit.simps)
next
  case (Suc k)
  show ?case
  proof (cases "n \<le> 1")
    case True
    then show ?thesis by (simp add: high_bit.simps)
  next
    case False
    then have "0 < k" using Suc.prems by (cases k) auto
    moreover have "high_bit (n div 2) \<le> k - 1" using Suc by (intro Suc.IH) auto
    ultimately show ?thesis using False by (simp add: high_bit.simps [of n])
  qed
qed

lemma bin_of_mono: "a \<le> b \<Longrightarrow> bin_of a \<le> bin_of b"
proof -
  assume "a \<le> b"
  then have "high_bit a \<le> high_bit b" "a div 16 \<le> b div 16" by (simp_all add: high_bit_mono div_le_mono)
  moreover have "a div 16 \<le> 64" if "a \<le> 1024" using div_le_mono [OF that, of 16] by simp
  ultimately show ?thesis using \<open>a \<le> b\<close> by (auto simp: bin_of_def heap_nums)
qed

lemma bin_of_bound: "s < 2 ^ 64 \<Longrightarrow> bin_of s < BINS"
proof -
  assume s: "s < 2 ^ 64"
  have "high_bit s \<le> 63" using high_bit_bound [OF s] by simp
  moreover have "s div 16 \<le> 64" if "s \<le> 1024" using div_le_mono [OF that, of 16] by simp
  ultimately show ?thesis by (auto simp: bin_of_def heap_nums)
qed

lemma bit_at_mark:
  assumes "length (nonempty st) = 3" "i < BINS"
  shows "bit_at (nonempty (mark st i ne)) j = (if j = i then ne else bit_at (nonempty st) j)"
    "length (nonempty (mark st i ne)) = 3"
proof -
  let ?w = "nonempty st ! (i div 64)"
  have lt: "i div 64 < 3" using assms(2) by (simp add: heap_nums)
  have g: "list_get (nonempty st) (i div 64) = Some ?w" using lt assms(1) by (simp add: list_get_def)
  let ?x = "if ne then ?w OR push_bit (i mod 64) 1 else ?w AND NOT (push_bit (i mod 64) 1)"
  have m: "nonempty (mark st i ne) = (nonempty st)[i div 64 := ?x]" by (simp add: mark_def g)
  have ij: "j = i \<longleftrightarrow> j div 64 = i div 64 \<and> j mod 64 = i mod 64" by (metis div_mult_mod_eq)
  have bit: "bit ?x k \<longleftrightarrow> (if k = i mod 64 then ne else bit ?w k)" if "k < 64" for k
    using that by (auto simp: bit_simps)
  show "bit_at (nonempty (mark st i ne)) j = (if j = i then ne else bit_at (nonempty st) j)"
  proof (cases "j div 64 = i div 64")
    case True
    then show ?thesis unfolding bit_at_def m using lt assms(1) bit [of "j mod 64"] ij by simp
  next
    case False
    then show ?thesis unfolding bit_at_def m using ij by simp
  qed
  show "length (nonempty (mark st i ne)) = 3" unfolding m by (simp add: assms(1))
qed

lemma mark_fields [simp]:
  "bins (mark st i ne) = bins st" "hstart (mark st i ne) = hstart st" "hend (mark st i ne) = hend st"
  "hmem (mark st i ne) = hmem st" "hused (mark st i ne) = hused st" "ceiling (mark st i ne) = ceiling st"
  "peak (mark st i ne) = peak st" "allocs (mark st i ne) = allocs st"
  by (simp_all add: mark_def split: option.splits)

section \<open>Doubly linked lists\<close>

fun hd0 :: "nat list \<Rightarrow> nat" where
  "hd0 [] = NIL"
| "hd0 (b # bs) = b"

fun dl :: "(nat \<Rightarrow> nat) \<Rightarrow> (nat \<Rightarrow> nat) \<Rightarrow> nat \<Rightarrow> nat list \<Rightarrow> bool" where
  "dl n v q [] = True"
| "dl n v q (b # bs) \<longleftrightarrow> v b = q \<and> n b = hd0 bs \<and> dl n v b bs"

lemma dl_cong: "(\<And>c. c \<in> set L \<Longrightarrow> n c = n' c \<and> v c = v' c) \<Longrightarrow> dl n v q L = dl n' v' q L"
  by (induction L arbitrary: q) auto

text \<open>A new head.\<close>

lemma dl_push:
  assumes "dl n v NIL L" "b \<notin> set L" "distinct L"
  shows "dl (n(b := hd0 L)) (if L = [] then v(b := NIL) else v(b := NIL, hd0 L := b)) NIL (b # L)"
proof (cases L)
  case Nil
  then show ?thesis by simp
next
  case (Cons c bs)
  then have "dl (n(b := c)) (v(b := NIL, c := b)) c bs = dl n v c bs"
    using assms(2,3) by (intro dl_cong) auto
  then show ?thesis using assms(1,2) Cons by auto
qed

text \<open>Removing an inner element: its neighbours are tied together.\<close>

lemma dl_at:
  assumes "dl n v q (xs @ b # ys)"
  shows "v b = (if xs = [] then q else last xs)" "n b = hd0 ys"
  using assms by (induction xs arbitrary: q) auto

lemma dl_remove:
  assumes "dl n v q (xs @ b # ys)" "distinct (xs @ b # ys)" "q \<notin> set ys"
  shows "dl (if xs = [] then n else n(last xs := n b)) (if ys = [] then v else v(hd0 ys := v b)) q (xs @ ys)"
  using assms
proof (induction xs arbitrary: q)
  case Nil
  show ?case
  proof (cases ys)
    case (Cons c zs)
    then have "dl n (v(c := v b)) c zs = dl n v c zs" using Nil.prems(2) by (intro dl_cong) auto
    then show ?thesis using Nil.prems Cons by (simp add: fun_upd_same del: fun_upd_apply)
  qed simp
next
  case (Cons a xs)
  let ?v = "if ys = [] then v else v(hd0 ys := v b)"
  have a: "a \<notin> set xs" "a \<noteq> b" "a \<notin> set ys" using Cons.prems(2) by auto
  have va: "?v a = q" using Cons.prems(1) a by (cases ys) auto
  show ?case
  proof (cases "xs = []")
    case True
    have "dl n ?v a ys" using Cons.IH [of a] Cons.prems True a by simp
    moreover have "dl (n(a := n b)) ?v a ys = dl n ?v a ys" using a by (intro dl_cong) auto
    ultimately show ?thesis using True va dl_at(2) [OF Cons.prems(1)] by (simp add: fun_upd_same del: fun_upd_apply)
  next
    case False
    have IH: "dl (n(last xs := n b)) ?v a (xs @ ys)" using Cons.IH [of a] Cons.prems False a by (simp del: fun_upd_apply)
    have "a \<noteq> last xs" using a False by (metis last_in_set)
    moreover have "n a = hd0 (xs @ ys)" using Cons.prems(1) False by (cases xs) auto
    ultimately show ?thesis using IH va False by (simp del: fun_upd_apply add: fun_upd_other)
  qed
qed

section \<open>The lists of the classes\<close>

text \<open>\<open>F\<close> is the set of free blocks, \<open>fl i\<close> the list of class \<open>i\<close>.\<close>

definition lists_ok ::
  "(nat \<Rightarrow> nat) \<Rightarrow> (nat \<Rightarrow> nat) \<Rightarrow> nat list \<Rightarrow> u64 list \<Rightarrow> (nat \<times> nat) set \<Rightarrow> (nat \<Rightarrow> nat list) \<Rightarrow> bool" where
  "lists_ok n v bn ne F fl \<longleftrightarrow>
     length bn = BINS \<and> length ne = 3 \<and>
     (\<forall>i < BINS. bn ! i = hd0 (fl i)) \<and> (\<forall>i. bit_at ne i \<longleftrightarrow> fl i \<noteq> []) \<and>
     (\<forall>i. dl n v NIL (fl i) \<and> distinct (fl i)) \<and>
     (\<forall>i x. x \<in> set (fl i) \<longleftrightarrow> (\<exists>s. (x, s) \<in> F \<and> bin_of s = i))"

text \<open>The free blocks: no address twice, never the empty link, sizes that have a class.\<close>

definition frees_ok :: "(nat \<times> nat) set \<Rightarrow> bool" where
  "frees_ok F \<longleftrightarrow> (\<forall>x s t. (x, s) \<in> F \<and> (x, t) \<in> F \<longrightarrow> s = t) \<and> (\<forall>x s. (x, s) \<in> F \<longrightarrow> x \<noteq> NIL \<and> s < 2 ^ 64)"

lemma lists_okD:
  assumes "lists_ok n v bn ne F fl"
  shows "length bn = BINS" "length ne = 3" "i < BINS \<Longrightarrow> bn ! i = hd0 (fl i)" "bit_at ne i \<longleftrightarrow> fl i \<noteq> []"
    "dl n v NIL (fl i)" "distinct (fl i)" "x \<in> set (fl i) \<longleftrightarrow> (\<exists>s. (x, s) \<in> F \<and> bin_of s = i)"
  using assms unfolding lists_ok_def by blast+

lemma lists_ok_cong:
  assumes "lists_ok n v bn ne F fl" "\<And>x s. (x, s) \<in> F \<Longrightarrow> n x = n' x \<and> v x = v' x"
  shows "lists_ok n' v' bn ne F fl"
proof -
  have "dl n' v' NIL (fl i)" for i
    using lists_okD(5) [OF assms(1), of i] dl_cong [of "fl i" n n' v v'] assms(2) lists_okD(7) [OF assms(1), of _ i] by blast
  then show ?thesis using assms(1) unfolding lists_ok_def by blast
qed

text \<open>One class changes: the others keep their lists because their blocks are other blocks.\<close>

lemma lists_ok_change:
  assumes ok: "lists_ok n v bn ne F fl" and F: "frees_ok F" and i: "i < BINS"
    and bn': "bn' = bn[i := hd0 L]" and ne': "length ne' = 3" "\<And>j. bit_at ne' j = (if j = i then L \<noteq> [] else bit_at ne j)"
    and L: "dl n' v' NIL L" "distinct L" "\<And>x. x \<in> set L \<longleftrightarrow> (\<exists>s. (x, s) \<in> F' \<and> bin_of s = i)"
    and same: "\<And>x s. bin_of s \<noteq> i \<Longrightarrow> (x, s) \<in> F' \<longleftrightarrow> (x, s) \<in> F"
    and frame: "\<And>x s. (x, s) \<in> F \<Longrightarrow> bin_of s \<noteq> i \<Longrightarrow> n' x = n x \<and> v' x = v x"
  shows "lists_ok n' v' bn' ne' F' (fl(i := L))"
proof -
  have d: "dl n' v' NIL (fl j)" if "j \<noteq> i" for j
  proof -
    have c: "n c = n' c \<and> v c = v' c" if "c \<in> set (fl j)" for c
      using that lists_okD(7) [OF ok, of c j] frame \<open>j \<noteq> i\<close> by metis
    have "dl n v NIL (fl j) = dl n' v' NIL (fl j)" by (rule dl_cong) (rule c)
    then show ?thesis using lists_okD(5) [OF ok, of j] by blast
  qed
  show ?thesis
    unfolding lists_ok_def
  proof (intro conjI allI impI)
    show "length bn' = BINS" using lists_okD(1) [OF ok] bn' by simp
    show "length ne' = 3" by (rule ne'(1))
    show "bn' ! j = hd0 ((fl(i := L)) j)" if "j < BINS" for j
      using that bn' lists_okD(1) [OF ok] lists_okD(3) [OF ok that] by (cases "j = i") simp_all
    show "bit_at ne' j \<longleftrightarrow> (fl(i := L)) j \<noteq> []" for j using ne'(2) lists_okD(4) [OF ok, of j] by simp
    show "dl n' v' NIL ((fl(i := L)) j)" for j using d L(1) by simp
    show "distinct ((fl(i := L)) j)" for j using lists_okD(6) [OF ok, of j] L(2) by simp
    show "x \<in> set ((fl(i := L)) j) \<longleftrightarrow> (\<exists>s. (x, s) \<in> F' \<and> bin_of s = j)" for j x
    proof (cases "j = i")
      case True
      then show ?thesis using L(3) by simp
    next
      case False
      then show ?thesis using lists_okD(7) [OF ok, of x j] same by auto
    qed
  qed
qed

section \<open>Adding and removing a free block\<close>

lemma hd0_mem: "L \<noteq> [] \<Longrightarrow> hd0 L \<in> set L"
  by (cases L) simp_all

lemma hd0_eq_NIL: "NIL \<notin> set L \<Longrightarrow> hd0 L = NIL \<longleftrightarrow> L = []"
  by (cases L) auto

lemma NIL_not_listed: "lists_ok n v bn ne F fl \<Longrightarrow> frees_ok F \<Longrightarrow> NIL \<notin> set (fl i)"
  using lists_okD(7) [of n v bn ne F fl NIL i] by (auto simp: frees_ok_def)

lemma listed_free: "lists_ok n v bn ne F fl \<Longrightarrow> set (fl i) \<subseteq> fst ` F"
  using lists_okD(7) [of n v bn ne F fl _ i] by force

lemma listed_iff:
  assumes "lists_ok n v bn ne F fl" "frees_ok F" "(x, t) \<in> F"
  shows "x \<in> set (fl i) \<longleftrightarrow> bin_of t = i"
proof -
  have "s = t" if "(x, s) \<in> F" for s using assms(2,3) that unfolding frees_ok_def by blast
  then show ?thesis unfolding lists_okD(7) [OF assms(1)] using assms(3) by blast
qed

text \<open>What an operation on the lists leaves alone: everything but the lists and the links.\<close>

definition same_heap :: "HState \<Rightarrow> HState \<Rightarrow> bool" where
  "same_heap st st' \<longleftrightarrow> hstart st' = hstart st \<and> hend st' = hend st \<and> ceiling st' = ceiling st \<and> hused st' = hused st \<and>
     peak st' = peak st \<and> allocs st' = allocs st"

lemma same_heap_book: "same_book st st' \<Longrightarrow> same_heap st st'"
  by (simp add: same_heap_def same_bookD)

lemma same_heap_trans: "same_heap a b \<Longrightarrow> same_heap b c \<Longrightarrow> same_heap a c"
  by (simp add: same_heap_def)

lemma push_spec:
  assumes see: "sees st A h p n v" and F: "frees_ok F" "fst ` F \<subseteq> A" and ok: "lists_ok n v (bins st) (nonempty st) F fl"
    and b: "b \<in> A" "h b = s" "s mod 16 = 0" "s < 2 ^ 64" "b \<notin> fst ` F"
  obtains n' v' fl' where "sees (push st b) A h p n' v'" "same_heap st (push st b)"
    "lists_ok n' v' (bins (push st b)) (nonempty (push st b)) (insert (b, s) F) fl'"
proof -
  define i where "i = bin_of s"
  have i: "i < BINS" using b(4) by (simp add: i_def bin_of_bound)
  have sz: "bsize st b = s" using head_read(1) [OF see b(1), of s False] b(2,3) by simp
  have len: "length (bins st) = BINS" "length (nonempty st) = 3" using lists_okD(1,2) [OF ok] by simp_all
  have hd: "bins st ! i = hd0 (fl i)" by (rule lists_okD(3) [OF ok i])
  define L where "L = fl i"
  have L: "dl n v NIL L" "distinct L" "NIL \<notin> set L" "set L \<subseteq> fst ` F"
    unfolding L_def using lists_okD(5,6) [OF ok, of i] NIL_not_listed [OF ok F(1)] listed_free [OF ok, of i]
    by blast+
  have bL: "b \<notin> set L" using L(4) b(5) by blast
  define st1 where "st1 = set_links st b (hd0 L) NIL"
  let ?n1 = "n(b := hd0 L)" and ?v1 = "v(b := NIL)"
  have s1: "sees st1 A h p ?n1 ?v1" "same_book st st1" unfolding st1_def by (rule sees_set_links [OF see b(1)])+
  define st2 where "st2 = (if hd0 L \<noteq> NIL then set_links st1 (hd0 L) (next_free st1 (hd0 L)) b else st1)"
  let ?v2 = "if L = [] then ?v1 else v(b := NIL, hd0 L := b)"
  have s2: "sees st2 A h p ?n1 ?v2 \<and> same_book st st2"
  proof (cases "L = []")
    case True
    then show ?thesis using s1 by (simp add: st2_def NIL_def)
  next
    case False
    then have hA: "hd0 L \<in> A" using hd0_mem L(4) F(2) by blast
    have "hd0 L \<noteq> b" using hd0_mem [OF False] bL by metis
    have e: "st2 = set_links st1 (hd0 L) (?n1 (hd0 L)) b"
      using False hd0_eq_NIL [OF L(3)] sees_reads(3) [OF s1(1) hA] by (simp add: st2_def)
    have "?n1(hd0 L := ?n1 (hd0 L)) = ?n1" by (rule fun_upd_triv)
    then show ?thesis
      using sees_set_links [OF s1(1) hA, of "?n1 (hd0 L)" b] same_book_trans [OF s1(2)] False unfolding e by simp
  qed
  define st3 where "st3 = st2\<lparr>bins := (bins st2)[i := b]\<rparr>"
  have g: "list_get (bins st) i = Some (hd0 L)" using len i hd by (simp add: list_get_def L_def)
  have pe: "push st b = mark st3 i True"
    unfolding push_def sz Let_def i_def [symmetric] g option.case st3_def st2_def st1_def ..
  have bk: "bins st2 = bins st" "nonempty st2 = nonempty st" "hstart st2 = hstart st" "hend st2 = hend st" "hused st2 = hused st"
    "ceiling st2 = ceiling st" "peak st2 = peak st" "allocs st2 = allocs st"
    by (rule same_bookD [OF conjunct2 [OF s2]])+
  have "sees (push st b) A h p ?n1 ?v2" unfolding pe by (rule sees_book [OF conjunct1 [OF s2]]) (simp_all add: st3_def)
  moreover have "same_heap st (push st b)" unfolding pe using bk by (simp add: same_heap_def st3_def)
  moreover have "lists_ok ?n1 ?v2 (bins (push st b)) (nonempty (push st b)) (insert (b, s) F) (fl(i := b # L))"
  proof (rule lists_ok_change [OF ok F(1) i])
    show "bins (push st b) = (bins st)[i := hd0 (b # L)]" unfolding pe using bk by (simp add: st3_def)
    show "length (nonempty (push st b)) = 3" unfolding pe using bk len i by (simp add: bit_at_mark(2) st3_def)
    show "bit_at (nonempty (push st b)) j = (if j = i then b # L \<noteq> [] else bit_at (nonempty st) j)" for j
      unfolding pe using bk len i by (simp add: bit_at_mark(1) st3_def)
    show "dl ?n1 ?v2 NIL (b # L)" by (rule dl_push [OF L(1) bL L(2)])
    show "distinct (b # L)" using bL L(2) by simp
    show "x \<in> set (b # L) \<longleftrightarrow> (\<exists>t. (x, t) \<in> insert (b, s) F \<and> bin_of t = i)" for x
      using lists_okD(7) [OF ok, of x i] by (auto simp: L_def i_def)
    show "(x, t) \<in> insert (b, s) F \<longleftrightarrow> (x, t) \<in> F" if "bin_of t \<noteq> i" for x t using that by (auto simp: i_def)
    show "?n1 x = n x \<and> ?v2 x = v x" if "(x, t) \<in> F" "bin_of t \<noteq> i" for x t
    proof -
      have x: "x \<noteq> b" using that(1) b(5) by force
      have "x \<notin> set L" using that(2) listed_iff [OF ok F(1) that(1), of i] by (simp add: L_def)
      then have "L = [] \<or> x \<noteq> hd0 L" using hd0_mem [of L] by metis
      then show ?thesis using x by (cases "L = []") simp_all
    qed
  qed
  ultimately show thesis by (rule that)
qed

lemma unlink_spec:
  assumes see: "sees st A h p n v" and F: "frees_ok F" "fst ` F \<subseteq> A" and ok: "lists_ok n v (bins st) (nonempty st) F fl"
    and b: "(b, s) \<in> F" "h b = s" "s mod 16 = 0"
  obtains n' v' fl' where "sees (unlink st b) A h p n' v'" "same_heap st (unlink st b)"
    "lists_ok n' v' (bins (unlink st b)) (nonempty (unlink st b)) (F - {(b, s)}) fl'"
proof -
  define i where "i = bin_of s"
  have bA: "b \<in> A" using b(1) F(2) by force
  have s64: "s < 2 ^ 64" using F(1) b(1) by (auto simp: frees_ok_def)
  have i: "i < BINS" using s64 by (simp add: i_def bin_of_bound)
  have sz: "bsize st b = s" using head_read(1) [OF see bA, of s False] b(2,3) by simp
  have len: "length (bins st) = BINS" "length (nonempty st) = 3" using lists_okD(1,2) [OF ok] by simp_all
  have mem: "b \<in> set (fl i)" using lists_okD(7) [OF ok, of b i] b(1) i_def by blast
  then obtain xs ys where L: "fl i = xs @ b # ys" by (auto simp: in_set_conv_decomp)
  have sub: "set (xs @ b # ys) \<subseteq> A" using listed_free [OF ok, of i] F(2) unfolding L by blast
  have dL: "dl n v NIL (xs @ b # ys)" and di: "distinct (xs @ b # ys)" and nil: "NIL \<notin> set (xs @ b # ys)"
    using lists_okD(5,6) [OF ok, of i] NIL_not_listed [OF ok F(1), of i] unfolding L by blast+
  have at: "v b = (if xs = [] then NIL else last xs)" "n b = hd0 ys" by (rule dl_at [OF dL])+
  have pn: "v b = NIL \<longleftrightarrow> xs = []" 
  proof (cases "xs = []")
    case False
    then have "last xs \<noteq> NIL" using nil last_in_set [OF False] by (metis Un_iff set_append)
    then show ?thesis using at(1) False by simp
  qed (simp add: at(1))
  have nn: "n b = NIL \<longleftrightarrow> ys = []" unfolding at(2) by (rule hd0_eq_NIL) (use nil in simp)
  have rd: "next_free st b = n b" "prev_free st b = v b" by (rule sees_reads [OF see bA])+
  let ?n = "if xs = [] then n else n(last xs := n b)" and ?v = "if ys = [] then v else v(hd0 ys := v b)"
  define st1 where "st1 = (if v b = NIL then
       (let st' = st\<lparr>bins := (bins st)[i := n b]\<rparr> in if n b = NIL then mark st' i False else st')
     else set_links st (v b) (n b) (prev_free st (v b)))"
  have s1: "sees st1 A h p ?n v \<and> same_heap st st1 \<and> bins st1 = (if xs = [] then (bins st)[i := n b] else bins st) \<and>
    length (nonempty st1) = 3 \<and>
    (\<forall>j. bit_at (nonempty st1) j = (if j = i then xs @ ys \<noteq> [] else bit_at (nonempty st) j))"
  proof (cases "xs = []")
    case True
    have e: "st1 = (let st' = st\<lparr>bins := (bins st)[i := n b]\<rparr> in if n b = NIL then mark st' i False else st')"
      using True pn by (simp add: st1_def)
    have "sees st1 A h p n v" by (rule sees_book [OF see]) (simp_all add: e Let_def)
    then have se: "sees st1 A h p ?n v" using True by simp
    have bt: "bit_at (nonempty st) i" using lists_okD(4) [OF ok, of i] L by simp
    show ?thesis
      using se True nn len i bt by (auto simp: e Let_def same_heap_def bit_at_mark)
  next
    case False
    have l: "v b = last xs" using False at(1) by simp
    have "last xs \<in> set (xs @ b # ys)" using last_in_set [OF False] by simp
    note l = l subsetD [OF sub this]
    have e: "st1 = set_links st (last xs) (n b) (v (last xs))"
      using False pn l sees_reads(4) [OF see l(2)] by (simp add: st1_def)
    have bt: "bit_at (nonempty st) i" using lists_okD(4) [OF ok, of i] L by simp
    have "sees st1 A h p (n(last xs := n b)) (v(last xs := v (last xs)))" "same_book st st1"
      unfolding e by (rule sees_set_links [OF see l(2)])+
    then show ?thesis using False len bt same_heap_book same_bookD(4,5) by simp
  qed
  define st2 where "st2 = (if n b \<noteq> NIL then set_links st1 (n b) (next_free st1 (n b)) (v b) else st1)"
  have u: "unlink st b = st2"
    unfolding unlink_def rd sz i_def [symmetric] Let_def st2_def st1_def ..
  have s2: "sees st2 A h p ?n ?v \<and> same_heap st1 st2 \<and> bins st2 = bins st1 \<and> nonempty st2 = nonempty st1"
  proof (cases "ys = []")
    case True
    then show ?thesis using s1 nn by (simp add: st2_def same_heap_def)
  next
    case False
    then have hA: "hd0 ys \<in> A" using hd0_mem [OF False] sub by auto
    have e: "st2 = set_links st1 (hd0 ys) (?n (hd0 ys)) (v b)"
      using False nn at(2) sees_reads(3) [of st1 A h p ?n v "hd0 ys"] s1 hA by (simp add: st2_def)
    have se: "sees st2 A h p (?n(hd0 ys := ?n (hd0 ys))) (v(hd0 ys := v b))" and bk: "same_book st1 st2"
      unfolding e using sees_set_links [of st1 A h p ?n v "hd0 ys"] s1 hA by blast+
    have "?n(hd0 ys := ?n (hd0 ys)) = ?n" by (rule fun_upd_triv)
    then show ?thesis using se bk False same_heap_book [OF bk] same_bookD(4,5) [OF bk] by simp
  qed
  have lo: "lists_ok ?n ?v (bins st2) (nonempty st2) (F - {(b, s)}) (fl(i := xs @ ys))"
  proof (rule lists_ok_change [OF ok F(1) i])
    show "bins st2 = (bins st)[i := hd0 (xs @ ys)]"
    proof (cases "xs = []")
      case True
      then show ?thesis using s1 s2 at(2) by simp
    next
      case False
      then have "hd0 (xs @ ys) = bins st ! i" using lists_okD(3) [OF ok i] L by (cases xs) auto
      then show ?thesis using s1 s2 False by simp
    qed
    show "length (nonempty st2) = 3" using s1 s2 by simp
    show "bit_at (nonempty st2) j = (if j = i then xs @ ys \<noteq> [] else bit_at (nonempty st) j)" for j using s1 s2 by simp
    show "dl ?n ?v NIL (xs @ ys)" by (rule dl_remove [OF dL di]) (use nil in simp)
    show "distinct (xs @ ys)" using di by simp
    show "x \<in> set (xs @ ys) \<longleftrightarrow> (\<exists>t. (x, t) \<in> F - {(b, s)} \<and> bin_of t = i)" for x
    proof -
      have "x \<in> set (xs @ ys) \<longleftrightarrow> x \<in> set (fl i) \<and> x \<noteq> b" using di unfolding L by auto
      moreover have "s = t" if "(b, t) \<in> F" for t using F(1) b(1) that unfolding frees_ok_def by blast
      ultimately show ?thesis unfolding lists_okD(7) [OF ok, of x i] by auto
    qed
    show "(x, t) \<in> F - {(b, s)} \<longleftrightarrow> (x, t) \<in> F" if "bin_of t \<noteq> i" for x t using that by (auto simp: i_def)
    show "?n x = n x \<and> ?v x = v x" if "(x, t) \<in> F" "bin_of t \<noteq> i" for x t
    proof -
      have "x \<notin> set (fl i)" using that(2) listed_iff [OF ok F(1) that(1), of i] by simp
      then have "x \<notin> set xs" "x \<notin> set ys" unfolding L by simp_all
      then have "xs = [] \<or> x \<noteq> last xs" "ys = [] \<or> x \<noteq> hd0 ys" using last_in_set [of xs] hd0_mem [of ys] by metis+
      then show ?thesis by (cases "xs = []"; cases "ys = []") simp_all
    qed
  qed
  have "same_heap st1 st2" "same_heap st st1" using s1 s2 by blast+
  then have sh: "same_heap st (unlink st b)" unfolding u using same_heap_trans by blast
  have se: "sees (unlink st b) A h p ?n ?v" unfolding u by (rule conjunct1 [OF s2])
  show thesis by (rule that [OF se sh lo [folded u]])
qed

end
