(* ===== verification/HeapInv.thy ===== *)
theory HeapInv
  imports HeapList
begin

unbundle bit_operations_syntax

text \<open>
  The invariant of the heap: the blocks tile the region, every block carries its size and that of its
  predecessor, no two free blocks are neighbours, and the free blocks are exactly the listed ones.
\<close>

type_synonym blk = "nat \<times> nat \<times> bool"

section \<open>Rows of blocks\<close>

fun tiles :: "nat \<Rightarrow> blk list \<Rightarrow> nat \<Rightarrow> bool" where
  "tiles a [] e \<longleftrightarrow> a = e"
| "tiles a ((b, s, u) # bs) e \<longleftrightarrow> b = a \<and> 32 \<le> s \<and> s mod 16 = 0 \<and> tiles (a + s) bs e"

fun span_of :: "blk list \<Rightarrow> nat" where
  "span_of [] = 0"
| "span_of ((b, s, u) # bs) = s + span_of bs"

fun last_size :: "nat \<Rightarrow> blk list \<Rightarrow> nat" where
  "last_size q [] = q"
| "last_size q ((b, s, u) # bs) = last_size s bs"

fun prevs :: "(nat \<Rightarrow> nat) \<Rightarrow> nat \<Rightarrow> blk list \<Rightarrow> bool" where
  "prevs p q [] = True"
| "prevs p q ((b, s, u) # bs) \<longleftrightarrow> p b = q \<and> prevs p s bs"

fun last_free :: "bool \<Rightarrow> blk list \<Rightarrow> bool" where
  "last_free f [] = f"
| "last_free f ((b, s, u) # bs) = last_free (\<not> u) bs"

fun calm :: "bool \<Rightarrow> blk list \<Rightarrow> bool" where
  "calm f [] = True"
| "calm f ((b, s, u) # bs) \<longleftrightarrow> \<not> (f \<and> \<not> u) \<and> calm (\<not> u) bs"

fun heads :: "(nat \<Rightarrow> nat) \<Rightarrow> blk list \<Rightarrow> bool" where
  "heads h [] = True"
| "heads h ((b, s, u) # bs) \<longleftrightarrow> h b = s + of_bool u \<and> heads h bs"

fun used_of :: "blk list \<Rightarrow> nat" where
  "used_of [] = 0"
| "used_of ((b, s, u) # bs) = (if u then s else 0) + used_of bs"

definition addrs :: "blk list \<Rightarrow> nat set" where
  "addrs bs = fst ` set bs"

definition free_of :: "blk list \<Rightarrow> (nat \<times> nat) set" where
  "free_of bs = {(b, s). (b, s, False) \<in> set bs}"

lemma addrs_simps [simp]:
  "addrs [] = {}" "addrs (x # bs) = insert (fst x) (addrs bs)" "addrs (xs @ ys) = addrs xs \<union> addrs ys"
  by (auto simp: addrs_def)

lemma free_of_simps [simp]:
  "free_of [] = {}" "free_of ((b, s, u) # bs) = (if u then free_of bs else insert (b, s) (free_of bs))"
  "free_of (xs @ ys) = free_of xs \<union> free_of ys"
  by (auto simp: free_of_def)

lemma row_append:
  "tiles a (xs @ ys) e \<longleftrightarrow> tiles a xs (a + span_of xs) \<and> tiles (a + span_of xs) ys e"
  "prevs p q (xs @ ys) \<longleftrightarrow> prevs p q xs \<and> prevs p (last_size q xs) ys"
  "calm f (xs @ ys) \<longleftrightarrow> calm f xs \<and> calm (last_free f xs) ys"
  "heads h (xs @ ys) \<longleftrightarrow> heads h xs \<and> heads h ys"
  "used_of (xs @ ys) = used_of xs + used_of ys"
  "span_of (xs @ ys) = span_of xs + span_of ys"
  "last_size q (xs @ ys) = last_size (last_size q xs) ys"
proof -
  show "tiles a (xs @ ys) e \<longleftrightarrow> tiles a xs (a + span_of xs) \<and> tiles (a + span_of xs) ys e"
    by (induction xs arbitrary: a) (auto simp: add.assoc)
  show "prevs p q (xs @ ys) \<longleftrightarrow> prevs p q xs \<and> prevs p (last_size q xs) ys" by (induction xs arbitrary: q) auto
  show "calm f (xs @ ys) \<longleftrightarrow> calm f xs \<and> calm (last_free f xs) ys" by (induction xs arbitrary: f) auto
  show "heads h (xs @ ys) \<longleftrightarrow> heads h xs \<and> heads h ys" by (induction xs) auto
  show "used_of (xs @ ys) = used_of xs + used_of ys" by (induction xs) auto
  show "span_of (xs @ ys) = span_of xs + span_of ys" by (induction xs) auto
  show "last_size q (xs @ ys) = last_size (last_size q xs) ys" by (induction xs arbitrary: q) auto
qed

lemma tiles_span: "tiles a bs e \<Longrightarrow> e = a + span_of bs"
proof (induction bs arbitrary: a)
  case (Cons x bs)
  obtain b s u where x: "x = (b, s, u)" by (cases x)
  show ?case using Cons.IH [of "a + s"] Cons.prems x by simp
qed simp

lemma tiles_bounds: "tiles a bs e \<Longrightarrow> (b, s, u) \<in> set bs \<Longrightarrow> a \<le> b \<and> b + s \<le> e \<and> 32 \<le> s \<and> s mod 16 = 0"
proof (induction bs arbitrary: a)
  case (Cons x bs)
  obtain b' s' u' where x: "x = (b', s', u')" by (cases x)
  show ?case
  proof (cases "(b, s, u) = x")
    case True
    then show ?thesis using Cons.prems tiles_span [of "a + s'" bs e] x by auto
  next
    case False
    then have "a + s' \<le> b \<and> b + s \<le> e \<and> 32 \<le> s \<and> s mod 16 = 0" using Cons x by auto
    then show ?thesis by linarith
  qed
qed simp

lemma tiles_aligned: "tiles a bs e \<Longrightarrow> a mod 16 = 0 \<Longrightarrow> (b, s, u) \<in> set bs \<Longrightarrow> b mod 16 = 0"
proof (induction bs arbitrary: a)
  case (Cons x bs)
  obtain b' s' u' where x: "x = (b', s', u')" by (cases x)
  have "(a + s') mod 16 = 0" using Cons.prems x by auto
  then show ?case using Cons x by auto
qed simp

lemma tiles_apart:
  "tiles a bs e \<Longrightarrow> (b, s, u) \<in> set bs \<Longrightarrow> (c, t, w) \<in> set bs \<Longrightarrow> b < c \<Longrightarrow> b + s \<le> c"
proof (induction bs arbitrary: a)
  case (Cons x bs)
  obtain b' s' u' where x: "x = (b', s', u')" by (cases x)
  have rest: "tiles (a + s') bs e" and a: "b' = a" using Cons.prems(1) x by auto
  show ?case
  proof (cases "(c, t, w) = x")
    case True
    then have "c = a" "(b, s, u) \<in> set bs" using Cons.prems x a by auto
    then show ?thesis using tiles_bounds [OF rest] Cons.prems(4) by fastforce
  next
    case c: False
    show ?thesis
    proof (cases "(b, s, u) = x")
      case True
      then show ?thesis using tiles_bounds [OF rest, of c t w] Cons.prems(3) c x a by auto
    next
      case False
      then show ?thesis using Cons.IH [OF rest] Cons.prems c by auto
    qed
  qed
qed simp

lemma tiles_unique: "tiles a bs e \<Longrightarrow> (b, s, u) \<in> set bs \<Longrightarrow> (b, t, w) \<in> set bs \<Longrightarrow> s = t \<and> u = w"
proof (induction bs arbitrary: a)
  case (Cons x bs)
  obtain b' s' u' where x: "x = (b', s', u')" by (cases x)
  have rest: "tiles (a + s') bs e" "b' = a" "32 \<le> s'" using Cons.prems(1) x by auto
  have "c \<noteq> a" if "(c, r, v) \<in> set bs" for c r v using tiles_bounds [OF rest(1) that] rest(3) by linarith
  then show ?case using Cons rest x by auto
qed simp

text \<open>The block after a prefix is the one the code reads.\<close>

lemma tiles_middle: "tiles a (xs @ (b, s, u) # ys) e \<Longrightarrow> b = a + span_of xs \<and> tiles (b + s) ys e \<and> tiles a xs b"
  by (auto simp: row_append)

lemma rows_cong:
  "(\<And>b. b \<in> addrs bs \<Longrightarrow> h b = h' b) \<Longrightarrow> heads h bs = heads h' bs"
  "(\<And>b. b \<in> addrs bs \<Longrightarrow> p b = p' b) \<Longrightarrow> prevs p q bs = prevs p' q bs"
  by (induction bs arbitrary: q) auto

lemma heads_at: "heads h bs \<Longrightarrow> (b, s, u) \<in> set bs \<Longrightarrow> h b = s + of_bool u"
  by (induction bs) auto

lemma used_span: "used_of bs \<le> span_of bs"
  by (induction bs) auto

lemma used_free: "(b, s, False) \<in> set bs \<Longrightarrow> used_of bs + s \<le> span_of bs"
proof (induction bs)
  case (Cons x bs)
  obtain b' s' u' where x: "x = (b', s', u')" by (cases x)
  show ?case using Cons x used_span [of bs] by auto
qed simp

section \<open>The invariant\<close>

definition blocks_ok :: "nat \<Rightarrow> nat \<Rightarrow> (nat \<Rightarrow> nat) \<Rightarrow> (nat \<Rightarrow> nat) \<Rightarrow> blk list \<Rightarrow> bool" where
  "blocks_ok lo hi h p bs \<longleftrightarrow> tiles lo bs hi \<and> heads h bs \<and> prevs p 0 bs \<and> calm False bs"

definition heap_ok :: "HState \<Rightarrow> blk list \<Rightarrow> bool" where
  "heap_ok st bs \<longleftrightarrow> region_ok st \<and> ceiling st = hend st - hstart st \<and> hused st = used_of bs \<and>
     blocks_ok (hstart st) (hend st) (hmem st) (\<lambda>c. hmem st (c + 8)) bs \<and>
     (\<exists>fl. lists_ok (\<lambda>c. hmem st (c + 16)) (\<lambda>c. hmem st (c + 24)) (bins st) (nonempty st) (free_of bs) fl)"

lemma tiles_spaced:
  assumes "region_ok st" "tiles (hstart st) bs (hend st)"
  shows "spaced st (addrs bs)"
proof -
  have a: "hstart st mod 16 = 0" using assms(1) by (simp add: region_ok_def)
  have "site st b" if b: "b \<in> addrs bs" for b
  proof -
    obtain s u where m: "(b, s, u) \<in> set bs" using b by (auto simp: addrs_def)
    have "b + 32 \<le> hend st" "hstart st \<le> b" using tiles_bounds [OF assms(2) m] by linarith+
    then show ?thesis unfolding site_def using tiles_aligned [OF assms(2) a m] by blast
  qed
  moreover have "b + 32 \<le> c" if bc: "b \<in> addrs bs" "c \<in> addrs bs" "b < c" for b c
  proof -
    obtain s u t w where "(b, s, u) \<in> set bs" "(c, t, w) \<in> set bs" using bc by (auto simp: addrs_def)
    then show ?thesis using tiles_apart [OF assms(2), of b s u c t w] tiles_bounds [OF assms(2), of b s u] bc(3) by linarith
  qed
  ultimately show ?thesis unfolding spaced_def by blast
qed

lemma free_of_ok:
  assumes "region_ok st" "tiles (hstart st) bs (hend st)"
  shows "frees_ok (free_of bs)" "fst ` free_of bs \<subseteq> addrs bs"
proof -
  show "fst ` free_of bs \<subseteq> addrs bs" by (force simp: free_of_def addrs_def)
  have "x \<noteq> NIL \<and> s < 2 ^ 64" if "(x, s) \<in> free_of bs" for x s
    using tiles_bounds [OF assms(2), of x s False] that assms(1) by (auto simp: free_of_def region_ok_def NIL_def)
  moreover have "s = t" if "(x, s) \<in> free_of bs" "(x, t) \<in> free_of bs" for x s t
    using tiles_unique [OF assms(2), of x s False t False] that by (simp add: free_of_def)
  ultimately show "frees_ok (free_of bs)" unfolding frees_ok_def by blast
qed

text \<open>How a changed heap is shown to be well-formed again.\<close>

lemma heap_okI:
  assumes "sees st A h p n v" "addrs bs \<subseteq> A" "blocks_ok (hstart st) (hend st) h p bs"
    and "lists_ok n v (bins st) (nonempty st) (free_of bs) fl"
    and "ceiling st = hend st - hstart st" "hused st = used_of bs"
  shows "heap_ok st bs"
proof -
  have r: "region_ok st" using assms(1) by (simp add: sees_def)
  have cell: "hmem st c = h c \<and> hmem st (c + 8) = p c \<and> hmem st (c + 16) = n c \<and> hmem st (c + 24) = v c" if "c \<in> addrs bs" for c
    using assms(1,2) that by (auto simp: sees_def)
  have "blocks_ok (hstart st) (hend st) (hmem st) (\<lambda>c. hmem st (c + 8)) bs"
    using assms(3) rows_cong(1) [of bs "hmem st" h] rows_cong(2) [of bs "\<lambda>c. hmem st (c + 8)" p 0] cell
    unfolding blocks_ok_def by blast
  moreover have "lists_ok (\<lambda>c. hmem st (c + 16)) (\<lambda>c. hmem st (c + 24)) (bins st) (nonempty st) (free_of bs) fl"
    by (rule lists_ok_cong [OF assms(4)]) (use cell in \<open>force simp: free_of_def addrs_def\<close>)
  ultimately show ?thesis using r assms(5,6) unfolding heap_ok_def by blast
qed

lemma heap_okD:
  assumes "heap_ok st bs"
  obtains fl where "region_ok st" "ceiling st = hend st - hstart st" "hused st = used_of bs"
    "blocks_ok (hstart st) (hend st) (hmem st) (\<lambda>c. hmem st (c + 8)) bs"
    "lists_ok (\<lambda>c. hmem st (c + 16)) (\<lambda>c. hmem st (c + 24)) (bins st) (nonempty st) (free_of bs) fl"
    "spaced st (addrs bs)"
proof -
  from assms obtain fl where "region_ok st" "ceiling st = hend st - hstart st" "hused st = used_of bs"
    and b: "blocks_ok (hstart st) (hend st) (hmem st) (\<lambda>c. hmem st (c + 8)) bs"
    and l: "lists_ok (\<lambda>c. hmem st (c + 16)) (\<lambda>c. hmem st (c + 24)) (bins st) (nonempty st) (free_of bs) fl"
    unfolding heap_ok_def by blast
  moreover have "spaced st (addrs bs)" using tiles_spaced calculation(1) b by (simp add: blocks_ok_def)
  ultimately show thesis by (intro that)
qed

section \<open>Which words an operation touches\<close>

text \<open>Header words of the sites in \<open>A\<close> and link words of those in \<open>L\<close>.\<close>

definition links_at :: "nat set \<Rightarrow> nat set" where
  "links_at L = (\<lambda>c. c + 16) ` L \<union> (\<lambda>c. c + 24) ` L"

definition books :: "nat set \<Rightarrow> nat set \<Rightarrow> nat set" where
  "books A L = A \<union> (\<lambda>c. c + 8) ` A \<union> links_at L"

lemma set_links_touch:
  "wrap (b + 16) = b + 16 \<Longrightarrow> wrap (b + 24) = b + 24 \<Longrightarrow> a \<notin> links_at {b} \<Longrightarrow> hmem (set_links st b x y) a = hmem st a"
  by (simp add: set_links_def wr_def HDR_def links_at_def)

lemma mark_mem [simp]: "hmem (mark st i ne) = hmem st"
  by (simp add: mark_def split: option.splits)

lemma links_at_mono: "a \<notin> links_at L \<Longrightarrow> b \<in> L \<Longrightarrow> a \<notin> links_at {b}"
  by (auto simp: links_at_def)

lemma links_touch:
  assumes "sees st A h p n v" "b \<in> A" "hstart st' = hstart st" "hend st' = hend st" "b \<in> L" "a \<notin> links_at L"
  shows "hmem (set_links st' b x y) a = hmem st' a"
proof -
  have "region_ok st" "site st b" using assms(1,2) by (auto simp: sees_def spaced_def)
  note w = site_word [OF this]
  show ?thesis by (rule set_links_touch [OF w(6,7) links_at_mono [OF assms(6,5)]])
qed

lemma push_touch:
  assumes see: "sees st A h p n v" and F: "frees_ok F" "fst ` F \<subseteq> A" and ok: "lists_ok n v (bins st) (nonempty st) F fl"
    and b: "b \<in> A" "h b = s" "s mod 16 = 0" "s < 2 ^ 64" and L: "insert b (fst ` F) \<subseteq> L" "a \<notin> links_at L"
  shows "hmem (push st b) a = hmem st a"
proof -
  let ?i = "bin_of s"
  have i: "?i < BINS" using b(4) by (rule bin_of_bound)
  have sz: "bsize st b = s" using head_read(1) [OF see b(1), of s False] b(2,3) by simp
  have g: "list_get (bins st) ?i = Some (hd0 (fl ?i))"
    using i lists_okD(1) [OF ok] lists_okD(3) [OF ok i] by (simp add: list_get_def)
  have hd: "hd0 (fl ?i) \<in> A \<and> hd0 (fl ?i) \<in> L" if "hd0 (fl ?i) \<noteq> NIL"
  proof -
    have "fl ?i \<noteq> []" using that by auto
    then have "hd0 (fl ?i) \<in> fst ` F" using hd0_mem listed_free [OF ok, of ?i] by blast
    then show ?thesis using F(2) L(1) by blast
  qed
  let ?s1 = "set_links st b (hd0 (fl ?i)) NIL"
  have bk: "same_book st ?s1" by (rule sees_set_links(2) [OF see b(1)])
  have 1: "hmem ?s1 a = hmem st a"
    by (rule links_touch [OF see b(1) _ _ _ L(2)]) (use L(1) in simp_all)
  have 2: "hmem (set_links ?s1 (hd0 (fl ?i)) x b) a = hmem st a" if "hd0 (fl ?i) \<noteq> NIL" for x
    unfolding 1 [symmetric]
    by (rule links_touch [OF see _ same_bookD(1,2) [OF bk] _ L(2)]) (use hd [OF that] in simp_all)
  show ?thesis unfolding push_def sz g Let_def option.case using 1 2 by (cases "hd0 (fl ?i) = NIL") simp_all
qed

lemma unlink_touch:
  assumes see: "sees st A h p n v" and F: "frees_ok F" "fst ` F \<subseteq> A" and ok: "lists_ok n v (bins st) (nonempty st) F fl"
    and b: "(b, s) \<in> F" and L: "fst ` F \<subseteq> L" "a \<notin> links_at L"
  shows "hmem (unlink st b) a = hmem st a"
proof -
  have bF: "b \<in> fst ` F" using b by force
  have bA: "b \<in> A" using bF F(2) by blast
  have "b \<in> set (fl (bin_of s))" using lists_okD(7) [OF ok] b by blast
  then obtain xs ys where l: "fl (bin_of s) = xs @ b # ys" by (auto simp: in_set_conv_decomp)
  have sub: "set (xs @ b # ys) \<subseteq> fst ` F" using listed_free [OF ok, of "bin_of s"] unfolding l .
  note at = dl_at [OF lists_okD(5) [OF ok, of "bin_of s", unfolded l]]
  define q where "q = (if xs = [] then NIL else last xs)"
  have n: "next_free st b = hd0 ys" and p: "prev_free st b = q"
    using sees_reads(3,4) [OF see bA] at by (simp_all add: q_def)
  have nF: "hd0 ys \<in> fst ` F" if "hd0 ys \<noteq> NIL" using that sub hd0_mem [of ys] by (cases ys) auto
  have pF: "q \<in> fst ` F" if "q \<noteq> NIL"
  proof -
    have "xs \<noteq> []" using that by (auto simp: q_def)
    then show ?thesis using sub last_in_set [of xs] by (auto simp: q_def)
  qed
  define s1 where "s1 = (if q = NIL then
                   (let i = bin_of (bsize st b); st' = st\<lparr>bins := (bins st)[i := hd0 ys]\<rparr> in
                    if hd0 ys = NIL then mark st' i False else st')
                 else set_links st q (hd0 ys) (prev_free st q))"
  have 1: "hmem s1 a = hmem st a" "hstart s1 = hstart st" "hend s1 = hend st"
  proof (atomize (full), cases "q = NIL")
    case True
    then show "hmem s1 a = hmem st a \<and> hstart s1 = hstart st \<and> hend s1 = hend st" by (simp add: Let_def s1_def)
  next
    case False
    have A: "q \<in> A" "q \<in> L" using pF [OF False] F(2) L(1) by blast+
    have e: "s1 = set_links st q (hd0 ys) (prev_free st q)" using False by (simp add: s1_def)
    have "same_book st s1" unfolding e by (rule sees_set_links(2) [OF see A(1)])
    moreover have "hmem s1 a = hmem st a" unfolding e
      by (rule links_touch [OF see A(1) refl refl A(2) L(2)])
    ultimately show "hmem s1 a = hmem st a \<and> hstart s1 = hstart st \<and> hend s1 = hend st" using same_bookD(1,2) by blast
  qed
  have e: "unlink st b = (if hd0 ys \<noteq> NIL then set_links s1 (hd0 ys) (next_free s1 (hd0 ys)) q else s1)"
    by (simp only: unlink_def n p Let_def s1_def)
  show ?thesis
  proof (cases "hd0 ys = NIL")
    case True
    then show ?thesis by (simp add: e 1)
  next
    case False
    have A: "hd0 ys \<in> A" "hd0 ys \<in> L" using nF [OF False] F(2) L(1) by blast+
    have "hmem (set_links s1 (hd0 ys) (next_free s1 (hd0 ys)) q) a = hmem s1 a"
      by (rule links_touch [OF see A(1) 1(2,3) A(2) L(2)])
    then show ?thesis using False by (simp add: e 1)
  qed
qed

end
