(* ===== verification/HeapMid.thy ===== *)
theory HeapMid
  imports HeapInv
begin

text \<open>
  The heap in the middle of an operation: what each elementary write of the allocator does to the heads,
  the predecessor sizes and the set of listed blocks, and which words it leaves alone.
\<close>

section \<open>The heap in the middle of an operation\<close>

text \<open>
  Heads \<open>h\<close>, predecessor sizes \<open>p\<close> and listed blocks \<open>F\<close> of a state on the way from \<open>st0\<close>: each
  elementary write changes one of the three.
\<close>

definition mid :: "HState \<Rightarrow> HState \<Rightarrow> nat set \<Rightarrow> nat set \<Rightarrow> (nat \<Rightarrow> nat) \<Rightarrow> (nat \<Rightarrow> nat) \<Rightarrow> (nat \<times> nat) set \<Rightarrow> bool" where
  "mid st0 st A L h p F \<longleftrightarrow> same_heap st0 st \<and> frees_ok F \<and> fst ` F \<subseteq> A \<and> fst ` F \<subseteq> L \<and>
     (\<forall>a. a \<notin> books A L \<longrightarrow> hmem st a = hmem st0 a) \<and>
     (\<exists>n v fl. sees st A h p n v \<and> lists_ok n v (bins st) (nonempty st) F fl)"

lemma midE:
  assumes "mid st0 st A L h p F"
  obtains n v fl where "same_heap st0 st" "frees_ok F" "fst ` F \<subseteq> A" "sees st A h p n v"
    "lists_ok n v (bins st) (nonempty st) F fl" "fst ` F \<subseteq> L" "\<And>a. a \<notin> books A L \<Longrightarrow> hmem st a = hmem st0 a"
  using assms unfolding mid_def by blast

lemma midI:
  "same_heap st0 st \<Longrightarrow> frees_ok F \<Longrightarrow> fst ` F \<subseteq> A \<Longrightarrow> sees st A h p n v \<Longrightarrow> lists_ok n v (bins st) (nonempty st) F fl \<Longrightarrow>
   fst ` F \<subseteq> L \<Longrightarrow> (\<And>a. a \<notin> books A L \<Longrightarrow> hmem st a = hmem st0 a) \<Longrightarrow> mid st0 st A L h p F"
  unfolding mid_def by blast

lemma mid_start:
  assumes "heap_ok st bs" "addrs bs \<subseteq> A" "spaced st A" "fst ` free_of bs \<subseteq> L"
  shows "mid st st A L (hmem st) (\<lambda>c. hmem st (c + 8)) (free_of bs)"
proof -
  obtain fl where r: "region_ok st"
    and b: "blocks_ok (hstart st) (hend st) (hmem st) (\<lambda>c. hmem st (c + 8)) bs"
    and l: "lists_ok (\<lambda>c. hmem st (c + 16)) (\<lambda>c. hmem st (c + 24)) (bins st) (nonempty st) (free_of bs) fl"
    using heap_okD [OF assms(1)] by blast
  have t: "tiles (hstart st) bs (hend st)" using b by (simp add: blocks_ok_def)
  have "fst ` free_of bs \<subseteq> A" using free_of_ok(2) [OF r t] assms(2) by blast
  then show ?thesis
    by (intro midI [OF _ free_of_ok(1) [OF r t] _ sees_self [OF r assms(3)] l assms(4)]) (simp_all add: same_heap_def)
qed

lemma mid_head:
  assumes "mid st0 st A L h p F" "b \<in> A" "s mod 16 = 0"
  shows "mid st0 (set_head st b s u) A L (h(b := s + of_bool u)) p F"
proof -
  obtain n v fl where m: "same_heap st0 st" "frees_ok F" "fst ` F \<subseteq> A" "sees st A h p n v"
    "lists_ok n v (bins st) (nonempty st) F fl" "fst ` F \<subseteq> L" "\<And>a. a \<notin> books A L \<Longrightarrow> hmem st a = hmem st0 a"
    using midE [OF assms(1)] by blast
  note w = sees_set_head [OF m(4) assms(2,3), of u]
  have "hmem (set_head st b s u) a = hmem st0 a" if a: "a \<notin> books A L" for a
    using m(7) [OF a] a assms(2) by (auto simp: set_head_def wr_def books_def)
  then show ?thesis
    by (rule midI [OF same_heap_trans [OF m(1) same_heap_book [OF w(2)]] m(2,3) w(1) m(5) [folded same_bookD(4,5) [OF w(2)]] m(6)])
qed

lemma mid_prev:
  assumes "mid st0 st A L h p F" "b \<in> A"
  shows "mid st0 (set_prev_size st b x) A L h (p(b := x)) F"
proof -
  obtain n v fl where m: "same_heap st0 st" "frees_ok F" "fst ` F \<subseteq> A" "sees st A h p n v"
    "lists_ok n v (bins st) (nonempty st) F fl" "fst ` F \<subseteq> L" "\<And>a. a \<notin> books A L \<Longrightarrow> hmem st a = hmem st0 a"
    using midE [OF assms(1)] by blast
  note w = sees_set_prev [OF m(4) assms(2), of x]
  have "region_ok st" "site st b" using m(4) assms(2) by (auto simp: sees_def spaced_def)
  note wb = site_word(5) [OF this]
  have "hmem (set_prev_size st b x) a = hmem st0 a" if a: "a \<notin> books A L" for a
    using m(7) [OF a] a assms(2) by (auto simp: set_prev_size_def wr_def books_def wb)
  then show ?thesis
    by (rule midI [OF same_heap_trans [OF m(1) same_heap_book [OF w(2)]] m(2,3) w(1) m(5) [folded same_bookD(4,5) [OF w(2)]] m(6)])
qed

lemma mid_push:
  assumes "mid st0 st A L h p F" "b \<in> A" "h b = s" "s mod 16 = 0" "s < 2 ^ 64" "b \<notin> fst ` F" "b \<in> L"
  shows "mid st0 (push st b) A L h p (insert (b, s) F)"
proof -
  obtain n v fl where m: "same_heap st0 st" "frees_ok F" "fst ` F \<subseteq> A" "sees st A h p n v"
    "lists_ok n v (bins st) (nonempty st) F fl" "fst ` F \<subseteq> L" "\<And>a. a \<notin> books A L \<Longrightarrow> hmem st a = hmem st0 a"
    using midE [OF assms(1)] by blast
  obtain n' v' fl' where w: "sees (push st b) A h p n' v'" "same_heap st (push st b)"
    "lists_ok n' v' (bins (push st b)) (nonempty (push st b)) (insert (b, s) F) fl'"
    using push_spec [OF m(4,2,3,5) assms(2-6)] by blast
  have b0: "b \<noteq> NIL" using site_spaced [OF m(4) assms(2)] by (simp add: NIL_def)
  have 1: "frees_ok (insert (b, s) F)" using m(2) assms(5,6) b0 unfolding frees_ok_def by force
  have 2: "fst ` insert (b, s) F \<subseteq> A" using m(3) assms(2) by simp
  have 3: "fst ` insert (b, s) F \<subseteq> L" and L: "insert b (fst ` F) \<subseteq> L" using m(6) assms(7) by simp_all
  have 4: "hmem (push st b) a = hmem st0 a" if a: "a \<notin> books A L" for a
    using push_touch [OF m(4,2,3,5) assms(2-5) L, of a] m(7) [OF a] a by (simp add: books_def)
  show ?thesis by (rule midI [OF same_heap_trans [OF m(1) w(2)] 1 2 w(1,3) 3 4])
qed

lemma mid_unlink:
  assumes "mid st0 st A L h p F" "(b, s) \<in> F" "h b = s" "s mod 16 = 0"
  shows "mid st0 (unlink st b) A L h p (F - {(b, s)})"
proof -
  obtain n v fl where m: "same_heap st0 st" "frees_ok F" "fst ` F \<subseteq> A" "sees st A h p n v"
    "lists_ok n v (bins st) (nonempty st) F fl" "fst ` F \<subseteq> L" "\<And>a. a \<notin> books A L \<Longrightarrow> hmem st a = hmem st0 a"
    using midE [OF assms(1)] by blast
  obtain n' v' fl' where w: "sees (unlink st b) A h p n' v'" "same_heap st (unlink st b)"
    "lists_ok n' v' (bins (unlink st b)) (nonempty (unlink st b)) (F - {(b, s)}) fl'"
    using unlink_spec [OF m(4,2,3,5) assms(2-4)] by blast
  have 1: "frees_ok (F - {(b, s)})" using m(2) unfolding frees_ok_def by blast
  have 2: "fst ` (F - {(b, s)}) \<subseteq> A" "fst ` (F - {(b, s)}) \<subseteq> L" using m(3,6) by blast+
  have 4: "hmem (unlink st b) a = hmem st0 a" if a: "a \<notin> books A L" for a
    using unlink_touch [OF m(4,2,3,5) assms(2) m(6), of a] m(7) [OF a] a by (simp add: books_def)
  show ?thesis by (rule midI [OF same_heap_trans [OF m(1) w(2)] 1 2(1) w(1,3) 2(2) 4])
qed

lemma mid_reads:
  assumes "mid st0 st A L h p F" "b \<in> A" "h b = s + of_bool u" "s mod 16 = 0"
  shows "bsize st b = s" "is_used st b = u" "prev_size st b = p b" "site st b" "b < 2 ^ 64"
proof -
  obtain n v fl where "same_heap st0 st" "frees_ok F" "fst ` F \<subseteq> A" and m: "sees st A h p n v"
    and "lists_ok n v (bins st) (nonempty st) F fl" "fst ` F \<subseteq> L" "\<And>a. a \<notin> books A L \<Longrightarrow> hmem st a = hmem st0 a"
    using midE [OF assms(1)] by blast
  note e = site_spaced [OF m assms(2)]
  show "bsize st b = s" by (rule head_read(1) [OF m assms(2-4)])
  show "is_used st b = u" by (rule head_read(2) [OF m assms(2-4)])
  show "prev_size st b = p b" by (rule sees_reads(2) [OF m assms(2)])
  show "site st b" by (rule conjunct1 [OF e])
  show "b < 2 ^ 64" by (rule conjunct2 [OF conjunct2 [OF e]])
qed

lemma mid_bounds: "mid st0 st A L h p F \<Longrightarrow> hstart st = hstart st0 \<and> hend st = hend st0 \<and> hend st < 2 ^ 64 \<and> 0 < hstart st"
  unfolding mid_def same_heap_def sees_def region_ok_def by blast

lemma mid_follow:
  assumes "mid st0 st A L h p F" "b \<in> A" "h b = s + of_bool u" "s mod 16 = 0" "b + s \<le> hend st" "b + s < hend st \<longrightarrow> b + s \<in> A"
  shows "mid st0 (fix_follower st b) A L h (if b + s < hend st then p(b + s := s) else p) F"
proof -
  have sz: "bsize st b = s" by (rule mid_reads(1) [OF assms(1-4)])
  have "b + s < 2 ^ 64" using assms(5) mid_bounds [OF assms(1)] by linarith
  then have "min (b + s) (2 ^ 64 - 1) = b + s" by (intro min_absorb1) linarith
  then have e: "fix_follower st b = (if b + s < hend st then set_prev_size st (b + s) s else st)"
    by (simp only: fix_follower_def sz Let_def)
  show ?thesis
  proof (cases "b + s < hend st")
    case True
    then show ?thesis unfolding e using mid_prev [OF assms(1), of "b + s" s] assms(6) by simp
  next
    case False
    then show ?thesis unfolding e using assms(1) by simp
  qed
qed

lemma heap_ok_mid:
  assumes "mid st0 st A L h p (free_of bs)" "addrs bs \<subseteq> A" "blocks_ok (hstart st) (hend st) h p bs"
    and "ceiling st = hend st - hstart st" "hused st = used_of bs"
  shows "heap_ok st bs"
proof -
  obtain n v fl where "same_heap st0 st" "frees_ok (free_of bs)" "fst ` free_of bs \<subseteq> A"
    and m: "sees st A h p n v" "lists_ok n v (bins st) (nonempty st) (free_of bs) fl"
    and "fst ` free_of bs \<subseteq> L" "\<And>a. a \<notin> books A L \<Longrightarrow> hmem st a = hmem st0 a"
    using midE [OF assms(1)] by blast
  show ?thesis by (rule heap_okI [OF m(1) assms(2,3) m(2) assms(4,5)])
qed

text \<open>The block after a changed one learns the new size of its predecessor.\<close>

lemma prevs_retarget:
  assumes "tiles e bs hi" "prevs p k0 bs"
  shows "prevs (if e < hi then p(e := k) else p) k bs"
proof (cases bs)
  case Nil
  then show ?thesis by simp
next
  case (Cons x ys)
  obtain b s u where x: "x = (b, s, u)" by (cases x)
  have t: "b = e" "32 \<le> s" "tiles (e + s) ys hi" using assms(1) Cons x by auto
  have "e + s \<le> hi" using tiles_span [OF t(3)] by simp
  then have lt: "e < hi" using t(2) by linarith
  have "e \<notin> addrs ys"
  proof
    assume "e \<in> addrs ys"
    then obtain s' u' where "(e, s', u') \<in> set ys" by (auto simp: addrs_def)
    from tiles_bounds [OF t(3) this] t(2) show False by linarith
  qed
  then have "prevs (p(e := k)) s ys = prevs p s ys" by (intro rows_cong) auto
  then show ?thesis using assms(2) Cons x t(1) lt by simp
qed

lemma tiles_distinct: "tiles a bs e \<Longrightarrow> distinct (map fst bs)"
proof (induction bs arbitrary: a)
  case (Cons x bs)
  obtain b s u where x: "x = (b, s, u)" by (cases x)
  have t: "b = a" "32 \<le> s" "tiles (a + s) bs e" using Cons.prems x by auto
  have "a \<notin> fst ` set bs"
  proof
    assume "a \<in> fst ` set bs"
    then obtain s' u' where "(a, s', u') \<in> set bs" by auto
    from tiles_bounds [OF t(3) this] t(2) show False by linarith
  qed
  then show ?case using Cons.IH [OF t(3)] x t(1) by simp
qed simp

end
