(* ===== verification/HeapAlloc.thy ===== *)
theory HeapAlloc
  imports HeapMid
begin

text \<open>
  Taking a block: what \<open>take_block\<close> does to a well-formed heap, and that \<open>find_block\<close> finds a fitting
  block whenever there is one.
\<close>

section \<open>Replacing part of a row\<close>

lemma row_replace:
  assumes ok: "blocks_ok lo hi h p (pre @ M @ post)" and b: "b = lo + span_of pre" and e: "e = b + span_of M"
    and M': "tiles b M' e" "heads h' M'" "prevs p' (last_size 0 pre) M'"
      "calm (last_free False pre) M'" "calm (last_free (last_free False pre) M') post"
    and h: "\<And>c. c \<in> addrs pre \<Longrightarrow> h' c = h c" "\<And>c. c \<in> addrs post \<Longrightarrow> h' c = h c"
    and p: "\<And>c. c \<in> addrs pre \<Longrightarrow> p' c = p c"
      "\<And>c. c \<in> addrs post \<Longrightarrow> p' c = (if c = e then last_size (last_size 0 pre) M' else p c)"
  shows "blocks_ok lo hi h' p' (pre @ M' @ post)"
proof -
  let ?k = "last_size (last_size 0 pre) M'"
  have t: "tiles lo pre b" "tiles e post hi" and hd: "heads h pre" "heads h post"
    and pv: "prevs p 0 pre" "prevs p (last_size (last_size 0 pre) M) post" and ca: "calm False pre"
    using ok b e unfolding blocks_ok_def row_append by simp_all
  have sp: "e = b + span_of M'" by (rule tiles_span [OF M'(1)])
  have 1: "tiles lo (pre @ M' @ post) hi" unfolding row_append using t M'(1) b sp by simp
  have 2: "heads h' (pre @ M' @ post)"
    unfolding row_append using hd M'(2) rows_cong(1) [of pre h' h] rows_cong(1) [of post h' h] h by simp
  have "prevs (if e < hi then p(e := ?k) else p) ?k post" by (rule prevs_retarget [OF t(2) pv(2)])
  moreover have "p' c = (if e < hi then p(e := ?k) else p) c" if c: "c \<in> addrs post" for c
  proof -
    obtain s u where "(c, s, u) \<in> set post" using c by (auto simp: addrs_def)
    from tiles_bounds [OF t(2) this] have "e < hi" by linarith
    then show ?thesis using p(2) [OF c] by simp
  qed
  ultimately have "prevs p' ?k post" using rows_cong(2) [of post p' "if e < hi then p(e := ?k) else p" ?k] by simp
  then have 3: "prevs p' 0 (pre @ M' @ post)"
    unfolding row_append using pv(1) M'(3) rows_cong(2) [of pre p' p 0] p(1) by simp
  have 4: "calm False (pre @ M' @ post)" unfolding row_append using ca M'(4,5) by simp
  show ?thesis unfolding blocks_ok_def by (intro conjI 1 2 3 4)
qed

text \<open>Where the addresses of the two outer parts lie.\<close>

lemma row_sides:
  assumes "tiles lo (pre @ M @ post) hi" "b = lo + span_of pre" "e = b + span_of M"
  shows "c \<in> addrs pre \<Longrightarrow> c + 32 \<le> b" "c \<in> addrs post \<Longrightarrow> e \<le> c \<and> e < hi" "b \<le> e" "e \<le> hi"
proof -
  have t: "tiles lo pre b" "tiles e post hi" using assms unfolding row_append by simp_all
  show "c \<in> addrs pre \<Longrightarrow> c + 32 \<le> b" using tiles_bounds [OF t(1)] by (fastforce simp: addrs_def)
  show "c \<in> addrs post \<Longrightarrow> e \<le> c \<and> e < hi" using tiles_bounds [OF t(2)] by (fastforce simp: addrs_def)
  show "b \<le> e" using assms(3) by simp
  show "e \<le> hi" using tiles_span [OF t(2)] by simp
qed

section \<open>Taking a block\<close>

definition gap_row :: "nat \<Rightarrow> nat \<Rightarrow> blk list" where
  "gap_row b gap = (if gap = 0 then [] else [(b, gap, False)])"

definition taken_of :: "nat \<Rightarrow> nat \<Rightarrow> nat" where
  "taken_of r need = (if 32 \<le> r - need then need else r)"

definition rest_row :: "nat \<Rightarrow> nat \<Rightarrow> blk list" where
  "rest_row t r = (if 32 \<le> r then [(t, r, False)] else [])"

text \<open>The row a free block of size \<open>s\<close> at \<open>b\<close> becomes.\<close>

definition cut :: "nat \<Rightarrow> nat \<Rightarrow> nat \<Rightarrow> nat \<Rightarrow> blk list" where
  "cut b s gap need = gap_row b gap @ (b + gap, taken_of (s - gap) need, True) #
     rest_row (b + gap + taken_of (s - gap) need) (s - gap - need)"

definition cut_ok :: "nat \<Rightarrow> nat \<Rightarrow> nat \<Rightarrow> bool" where
  "cut_ok s gap need \<longleftrightarrow> (gap = 0 \<or> 32 \<le> gap) \<and> gap mod 16 = 0 \<and> 32 \<le> need \<and> need mod 16 = 0 \<and> gap + need \<le> s \<and> s mod 16 = 0"

lemma cut_taken:
  assumes "cut_ok s gap need"
  shows "need \<le> taken_of (s - gap) need" "gap + taken_of (s - gap) need \<le> s" "taken_of (s - gap) need mod 16 = 0"
    "32 \<le> s - gap - need \<Longrightarrow> gap + taken_of (s - gap) need + (s - gap - need) = s"
    "\<not> 32 \<le> s - gap - need \<Longrightarrow> gap + taken_of (s - gap) need = s" "(s - gap - need) mod 16 = 0"
proof -
  have c: "gap + need \<le> s" "gap mod 16 = 0" "need mod 16 = 0" "s mod 16 = 0" using assms by (auto simp: cut_ok_def)
  have m: "(s - gap) mod 16 = 0" "(s - gap - need) mod 16 = 0" using c by presburger+
  show "(s - gap - need) mod 16 = 0" by (rule m(2))
  show "taken_of (s - gap) need mod 16 = 0" unfolding taken_of_def using c(3) m(1) by (cases "32 \<le> s - gap - need") simp_all
  show "need \<le> taken_of (s - gap) need" "gap + taken_of (s - gap) need \<le> s"
    "32 \<le> s - gap - need \<Longrightarrow> gap + taken_of (s - gap) need + (s - gap - need) = s"
    "\<not> 32 \<le> s - gap - need \<Longrightarrow> gap + taken_of (s - gap) need = s"
    unfolding taken_of_def using c(1) by (auto split: if_splits)
qed

lemma tiles_cut:
  assumes "gap = 0 \<or> 32 \<le> gap" "gap mod 16 = 0" "32 \<le> t" "t mod 16 = 0" "r mod 16 = 0"
    and "e = b + gap + t + (if 32 \<le> r then r else 0)"
  shows "tiles b (gap_row b gap @ (b + gap, t, True) # rest_row (b + gap + t) r) e"
  using assms by (auto simp: gap_row_def rest_row_def add.assoc)

lemma cut_facts:
  assumes "cut_ok s gap need"
  shows "tiles b (cut b s gap need) (b + s)" "span_of (cut b s gap need) = s"
    "used_of (cut b s gap need) = taken_of (s - gap) need" "b \<in> addrs (cut b s gap need)"
    "free_of (cut b s gap need) = free_of (gap_row b gap) \<union> free_of (rest_row (b + gap + taken_of (s - gap) need) (s - gap - need))"
    "calm False (cut b s gap need)"
proof -
  note t = cut_taken [OF assms]
  have c: "gap = 0 \<or> 32 \<le> gap" "gap mod 16 = 0" "32 \<le> need" using assms by (auto simp: cut_ok_def)
  show tl: "tiles b (cut b s gap need) (b + s)" unfolding cut_def
  proof (rule tiles_cut)
    show "gap = 0 \<or> 32 \<le> gap" "gap mod 16 = 0" by (fact c)+
    show "32 \<le> taken_of (s - gap) need" using c(3) t(1) by linarith
    show "b + s = b + gap + taken_of (s - gap) need + (if 32 \<le> s - gap - need then s - gap - need else 0)"
    proof (cases "32 \<le> s - gap - need")
      case True
      then show ?thesis unfolding if_P [OF True] using t(4) by linarith
    next
      case False
      then show ?thesis unfolding if_not_P [OF False] using t(5) by linarith
    qed
  qed (fact t)+
  show "span_of (cut b s gap need) = s" using tiles_span [OF tl] by simp
  show "used_of (cut b s gap need) = taken_of (s - gap) need" "b \<in> addrs (cut b s gap need)"
    "free_of (cut b s gap need) = free_of (gap_row b gap) \<union> free_of (rest_row (b + gap + taken_of (s - gap) need) (s - gap - need))"
    "calm False (cut b s gap need)"
    by (simp_all add: cut_def gap_row_def rest_row_def)
qed

text \<open>The two halves of \<open>take_block\<close>: the piece before the taken block, and the taken block with its rest.\<close>

definition take_front :: "HState \<Rightarrow> nat \<Rightarrow> nat \<Rightarrow> HState" where
  "take_front st b gap =
     (if 0 < gap then set_prev_size (push (set_head (unlink st b) b gap False) b) (b + gap) gap else unlink st b)"

definition take_back :: "HState \<Rightarrow> nat \<Rightarrow> nat \<Rightarrow> nat \<Rightarrow> HState" where
  "take_back st k t r =
     (if 32 \<le> r then fix_follower (push (set_prev_size (set_head (set_head st k t True) (k + t) r False) (k + t) t) (k + t)) (k + t)
      else fix_follower (set_head st k t True) k)"

lemma take_block_eq:
  assumes sz: "bsize st b = s" and c: "cut_ok s gap need" and b: "b + s < 2 ^ 64"
    and u: "hused st + taken_of (s - gap) need \<le> ceiling st" "ceiling st < 2 ^ 64"
  defines "st' \<equiv> take_back (take_front st b gap) (b + gap) (taken_of (s - gap) need) (s - gap - need)"
  shows "take_block st b gap need = Inr (Some (b + gap + 16),
    st'\<lparr>hused := hused st + taken_of (s - gap) need, peak := max (peak st') (hused st + taken_of (s - gap) need),
        allocs := wrap (allocs st' + 1)\<rparr>)"
proof -
  have n: "gap + need \<le> s" "32 \<le> need" using c by (auto simp: cut_ok_def)
  let ?r = "s - gap - need" and ?t = "taken_of (s - gap) need"
  have 1: "Option.bind (usub (bsize st b) gap) (\<lambda>r. usub r need) = Some ?r" using n(1) by (simp add: sz usub_def)
  have 2: "(if MIN_BLOCK \<le> ?r then need else need + ?r) = ?t" using n(1) by (simp add: taken_of_def heap_nums)
  have "hused st + ?t < 2 ^ 64" using u by linarith
  then have 3: "uadd (hused st) ?t = Some (hused st + ?t)" by (simp add: uadd_def)
  have lt: "b + gap < 2 ^ 64" "b + gap + 16 < 2 ^ 64" "b + gap + ?t < 2 ^ 64" using b cut_taken(2) [OF c] n by linarith+
  have 4: "(if 0 < gap then rbind (plus b gap) (\<lambda>blk. Inr (blk, set_prev_size (push (set_head (unlink st b) b gap False) b) blk gap))
            else Inr (b, unlink st b)) = Inr (b + gap, take_front st b gap)"
    using lt(1) by (simp add: plus_def take_front_def)
  have 5: "(if MIN_BLOCK \<le> ?r then rbind (plus (b + gap) ?t) (\<lambda>t.
                Inr (fix_follower (push (set_prev_size (set_head (set_head (take_front st b gap) (b + gap) ?t True) t ?r False) t ?t) t) t))
            else Inr (fix_follower (set_head (take_front st b gap) (b + gap) ?t True) (b + gap))) = Inr st'"
    using lt(3) by (simp add: plus_def st'_def take_back_def heap_nums)
  have 6: "plus (b + gap) HDR = Inr (b + gap + 16)" using lt(2) by (simp add: plus_def HDR_def)
  have 7: "\<not> hused st + ?t > ceiling st" using u(1) by simp
  show ?thesis
    unfolding take_block_def 1 option.case Let_def 2 3 4 rbind.simps prod.case 5 6 if_not_P [OF 7] ..
qed

lemma mid_front:
  assumes m: "mid st0 st A L h p F" and b: "(b, s) \<in> F" "h b = s" "s mod 16 = 0" "b \<in> A" "b \<in> L"
    and g: "gap mod 16 = 0" "gap < 2 ^ 64" "b + gap \<in> A"
  shows "mid st0 (take_front st b gap) A L (if 0 < gap then h(b := gap) else h) (if 0 < gap then p(b + gap := gap) else p)
    (F - {(b, s)} \<union> free_of (gap_row b gap))"
proof -
  have u: "mid st0 (unlink st b) A L h p (F - {(b, s)})" by (rule mid_unlink [OF m b(1-3)])
  have nF: "b \<notin> fst ` (F - {(b, s)})"
  proof
    assume "b \<in> fst ` (F - {(b, s)})"
    then obtain x where x: "(b, x) \<in> F - {(b, s)}" by fastforce
    then have "x = s" using b(1) m unfolding mid_def frees_ok_def by blast
    then show False using x by blast
  qed
  show ?thesis
  proof (cases "0 < gap")
    case True
    have e: "h(b := gap + of_bool False) = h(b := gap)" by simp
    have 1: "mid st0 (set_head (unlink st b) b gap False) A L (h(b := gap)) p (F - {(b, s)})"
      using mid_head [OF u b(4) g(1), of False] unfolding e .
    have 2: "mid st0 (push (set_head (unlink st b) b gap False) b) A L (h(b := gap)) p (insert (b, gap) (F - {(b, s)}))"
      by (rule mid_push [OF 1 b(4) _ g(1,2) nF b(5)]) simp
    show ?thesis using mid_prev [OF 2 g(3), of gap] True by (simp add: take_front_def gap_row_def)
  next
    case False
    then show ?thesis using u by (simp add: take_front_def gap_row_def)
  qed
qed

lemma mid_back:
  assumes m: "mid st0 st A L h p F" and k: "k \<in> A" "t mod 16 = 0" "32 \<le> t" "r mod 16 = 0" "r < 2 ^ 64"
    and R: "32 \<le> r \<Longrightarrow> k + t \<in> A \<and> k + t \<in> L \<and> k + t \<notin> fst ` F"
    and e: "e = k + t + (if 32 \<le> r then r else 0)" "e \<le> hend st0" "e < hend st0 \<longrightarrow> e \<in> A"
  defines "p' \<equiv> (if 32 \<le> r then p(k + t := t) else p)"
  shows "mid st0 (take_back st k t r) A L (if 32 \<le> r then h(k := t + 1, k + t := r) else h(k := t + 1))
    (if e < hend st0 then p'(e := (if 32 \<le> r then r else t)) else p') (F \<union> free_of (rest_row (k + t) r))"
proof -
  have 1: "mid st0 (set_head st k t True) A L (h(k := t + 1)) p F" using mid_head [OF m k(1,2), of True] by simp
  show ?thesis
  proof (cases "32 \<le> r")
    case True
    note RR = R [OF True]
    let ?s2 = "set_prev_size (set_head (set_head st k t True) (k + t) r False) (k + t) t"
    let ?h = "h(k := t + 1, k + t := r)"
    have 2: "mid st0 (set_head (set_head st k t True) (k + t) r False) A L ?h p F"
      using mid_head [OF 1 conjunct1 [OF RR] k(4), of False] by simp
    have 3: "mid st0 ?s2 A L ?h (p(k + t := t)) F" by (rule mid_prev [OF 2 conjunct1 [OF RR]])
    have hb: "?h (k + t) = r" by simp
    have 4: "mid st0 (push ?s2 (k + t)) A L ?h (p(k + t := t)) (insert (k + t, r) F)"
      by (rule mid_push [OF 3 conjunct1 [OF RR] hb k(4,5)]) (use RR in blast)+
    have he: "hend (push ?s2 (k + t)) = hend st0" using mid_bounds [OF 4] by blast
    have hb': "?h (k + t) = r + of_bool False" by simp
    have e': "k + t + r = e" using e(1) True by simp
    have R': "free_of (rest_row (k + t) r) = {(k + t, r)}" using True by (simp add: rest_row_def)
    have 5: "mid st0 (fix_follower (push ?s2 (k + t)) (k + t)) A L ?h
        (if e < hend st0 then (p(k + t := t))(e := r) else p(k + t := t)) (insert (k + t, r) F)"
      using mid_follow [OF 4 conjunct1 [OF RR] hb' k(4)] e(2,3) unfolding he e' by blast
    show ?thesis using 5 unfolding take_back_def p'_def R' if_P [OF True] by (simp only: Un_insert_right Un_empty_right)
  next
    case False
    have he: "hend (set_head st k t True) = hend st0" using mid_bounds [OF 1] by blast
    have hb: "(h(k := t + 1)) k = t + of_bool True" by simp
    have e': "k + t = e" using e(1) False by simp
    have R': "free_of (rest_row (k + t) r) = {}" using False by (simp add: rest_row_def)
    have 5: "mid st0 (fix_follower (set_head st k t True) k) A L (h(k := t + 1)) (if e < hend st0 then p(e := t) else p) F"
      using mid_follow [OF 1 k(1) hb k(2)] e(2,3) unfolding he e' by blast
    show ?thesis using 5 unfolding take_back_def p'_def R' if_not_P [OF False] by (simp only: Un_empty_right)
  qed
qed

lemma calm_weaken: "calm True bs \<Longrightarrow> calm f bs"
  by (cases "(f, bs)" rule: calm.cases) auto

lemma tiles_head: "tiles e bs hi \<Longrightarrow> e < hi \<Longrightarrow> e \<in> addrs bs"
  by (cases "(e, bs, hi)" rule: tiles.cases) auto

lemma cut_heads:
  assumes "gap = 0 \<or> 32 \<le> gap" "32 \<le> t" "k = b + gap"
  shows "heads (if 32 \<le> r then (if 0 < gap then h(b := gap) else h)(k := t + 1, k + t := r)
                else (if 0 < gap then h(b := gap) else h)(k := t + 1)) (gap_row b gap @ (k, t, True) # rest_row (k + t) r)"
  using assms by (auto simp: gap_row_def rest_row_def)

lemma cut_prevs:
  assumes "gap = 0 \<or> 32 \<le> gap" "32 \<le> t" "k = b + gap" "p b = q" "e = k + t + (if 32 \<le> r then r else 0)"
  defines "p1 \<equiv> (if 0 < gap then p(k := gap) else p)"
  defines "p2 \<equiv> (if 32 \<le> r then p1(k + t := t) else p1)"
  shows "prevs (if lim then p2(e := x) else p2) q (gap_row b gap @ (k, t, True) # rest_row (k + t) r)"
  using assms by (auto simp: gap_row_def rest_row_def)

lemma cut_last: "last_size q (gap_row b gap @ (k, t, True) # rest_row (k + t) r) = (if 32 \<le> r then r else t)"
  by (simp add: gap_row_def rest_row_def)

lemma cut_blocks:
  assumes ok: "blocks_ok lo hi h p (pre @ (b, s, False) # post)" and c: "cut_ok s gap need"
  defines "k \<equiv> b + gap" and "t \<equiv> taken_of (s - gap) need" and "r \<equiv> s - gap - need"
  defines "p1 \<equiv> (if 0 < gap then p(k := gap) else p)"
  defines "p2 \<equiv> (if 32 \<le> r then p1(k + t := t) else p1)"
  shows "blocks_ok lo hi
      (if 32 \<le> r then (if 0 < gap then h(b := gap) else h)(k := t + 1, k + t := r)
       else (if 0 < gap then h(b := gap) else h)(k := t + 1))
      (if b + s < hi then p2(b + s := (if 32 \<le> r then r else t)) else p2) (pre @ cut b s gap need @ post)"
proof -
  let ?h = "if 32 \<le> r then (if 0 < gap then h(b := gap) else h)(k := t + 1, k + t := r)
       else (if 0 < gap then h(b := gap) else h)(k := t + 1)"
  let ?p = "if b + s < hi then p2(b + s := (if 32 \<le> r then r else t)) else p2"
  have tl: "tiles lo (pre @ [(b, s, False)] @ post) hi" using ok by (simp add: blocks_ok_def)
  have b: "b = lo + span_of pre" using tl by (simp add: row_append)
  have e: "b + s = b + span_of [(b, s, False)]" by simp
  note sides = row_sides [OF tl b e]
  have g: "gap = 0 \<or> 32 \<le> gap" "32 \<le> need" "gap + need \<le> s" using c by (auto simp: cut_ok_def)
  have t: "32 \<le> t" "gap + t \<le> s" using cut_taken(1,2) [OF c] g(2) unfolding t_def by linarith+
  have r: "32 \<le> r \<Longrightarrow> k + t < b + s" "b + s = k + t + (if 32 \<le> r then r else 0)"
  proof -
    show "b + s = k + t + (if 32 \<le> r then r else 0)"
      using cut_taken(4,5) [OF c] unfolding r_def t_def k_def by (cases "32 \<le> s - gap - need") simp_all
    then show "32 \<le> r \<Longrightarrow> k + t < b + s" by simp
  qed
  have k: "b \<le> k" "k < b + s" using t g by (simp_all add: k_def)
  have cu: "cut b s gap need = gap_row b gap @ (k, t, True) # rest_row (k + t) r" by (simp add: cut_def k_def t_def r_def)
  have pb: "p b = last_size 0 pre" and ca: "\<not> last_free False pre" "calm True post"
    using ok unfolding blocks_ok_def by (auto simp: row_append)
  have "blocks_ok lo hi h p (pre @ [(b, s, False)] @ post)" using ok by simp
  then show ?thesis
  proof (rule row_replace [OF _ b e])
    show "tiles b (cut b s gap need) (b + s)" by (rule cut_facts(1) [OF c])
    show "heads ?h (cut b s gap need)" unfolding cu by (rule cut_heads [OF g(1) t(1) meta_eq_to_obj_eq [OF k_def]])
    show "prevs ?p (last_size 0 pre) (cut b s gap need)"
      unfolding cu p1_def p2_def by (rule cut_prevs [where p = p and b = b, OF g(1) t(1) meta_eq_to_obj_eq [OF k_def] pb r(2)])
    show "calm (last_free False pre) (cut b s gap need)" using ca(1) cut_facts(6) [OF c] by simp
    show "calm (last_free (last_free False pre) (cut b s gap need)) post" by (rule calm_weaken [OF ca(2)])
    show "?h c = h c" if "c \<in> addrs pre" for c using sides(1) [OF that] k by auto
    show "?h c = h c" if "c \<in> addrs post" for c using sides(2) [OF that] k r(1) t g by auto
    show "?p c = p c" if "c \<in> addrs pre" for c using sides(1) [OF that] k by (auto simp: p1_def p2_def)
    show "?p c = (if c = b + s then last_size (last_size 0 pre) (cut b s gap need) else p c)" if "c \<in> addrs post" for c
      using sides(2) [OF that] k r(1) unfolding cu cut_last p1_def p2_def by auto
  qed
qed

text \<open>
  The words an operation may touch when it turns one row into another: headers, and the links of every
  block that is not in use on both sides.
\<close>

definition spared :: "blk list \<Rightarrow> blk list \<Rightarrow> nat set" where
  "spared bs bs' = {c. \<exists>s. (c, s, True) \<in> set bs \<and> (c, s, True) \<in> set bs'}"

definition kept :: "HState \<Rightarrow> blk list \<Rightarrow> HState \<Rightarrow> blk list \<Rightarrow> bool" where
  "kept st bs st' bs' \<longleftrightarrow> hstart st' = hstart st \<and> hend st' = hend st \<and>
     (\<forall>a. a \<notin> books (addrs bs \<union> addrs bs') (addrs bs \<union> addrs bs' - spared bs bs') \<longrightarrow> hmem st' a = hmem st a)"

lemma keptI:
  assumes "hstart st' = hstart st" "hend st' = hend st" "\<And>a. a \<notin> books A L \<Longrightarrow> hmem st' a = hmem st a"
    and "A \<subseteq> addrs bs \<union> addrs bs'" "L \<subseteq> A" "L \<inter> spared bs bs' = {}"
  shows "kept st bs st' bs'"
proof -
  have "books A L \<subseteq> books (addrs bs \<union> addrs bs') (addrs bs \<union> addrs bs' - spared bs bs')"
    using assms(4-6) unfolding books_def links_at_def by (intro Un_mono image_mono) blast+
  then show ?thesis unfolding kept_def using assms(1-3) by blast
qed

text \<open>A free block of either row is not one of the blocks in use on both sides.\<close>

lemma spared_free:
  assumes "tiles lo bs hi" "tiles lo bs' hi"
  shows "fst ` free_of bs \<inter> spared bs bs' = {}" "fst ` free_of bs' \<inter> spared bs bs' = {}"
proof -
  have "c \<notin> spared bs bs'" if "(c, t, False) \<in> set bs \<or> (c, t, False) \<in> set bs'" for c t
  proof
    assume "c \<in> spared bs bs'"
    then obtain s where "(c, s, True) \<in> set bs" "(c, s, True) \<in> set bs'" unfolding spared_def by blast
    then show False using that tiles_unique [OF assms(1), of c s True t False] tiles_unique [OF assms(2), of c s True t False] by blast
  qed
  then show "fst ` free_of bs \<inter> spared bs bs' = {}" "fst ` free_of bs' \<inter> spared bs bs' = {}"
    unfolding free_of_def by force+
qed

lemma free_drop:
  assumes "tiles lo (pre @ (b, s, False) # post) hi"
  shows "free_of (pre @ (b, s, False) # post) - {(b, s)} = free_of pre \<union> free_of post"
    "(b, x) \<notin> free_of pre \<union> free_of post"
proof -
  have "distinct (map fst (pre @ (b, s, False) # post))" by (rule tiles_distinct [OF assms])
  then have "b \<notin> fst ` set pre" "b \<notin> fst ` set post" by auto
  then show "(b, x) \<notin> free_of pre \<union> free_of post" for x by (force simp: free_of_def)
  then show "free_of (pre @ (b, s, False) # post) - {(b, s)} = free_of pre \<union> free_of post" by auto
qed

lemma free_addrs: "fst ` free_of bs \<subseteq> addrs bs"
  by (force simp: free_of_def addrs_def)

lemma take_mid:
  assumes ok: "heap_ok st (pre @ (b, s, False) # post)" and c: "cut_ok s gap need"
  defines "k \<equiv> b + gap" and "t \<equiv> taken_of (s - gap) need" and "r \<equiv> s - gap - need"
  defines "st' \<equiv> take_back (take_front st b gap) k t r"
  defines "old \<equiv> pre @ (b, s, False) # post" and "new \<equiv> pre @ cut b s gap need @ post"
  obtains h p where "mid st st' (addrs new) (fst ` free_of old \<union> fst ` free_of new) h p (free_of new)"
    "blocks_ok (hstart st) (hend st) h p new" "addrs old \<subseteq> addrs new"
proof -
  let ?A = "addrs new" and ?L = "fst ` free_of old \<union> fst ` free_of new"
  obtain fl where reg: "region_ok st" and blk: "blocks_ok (hstart st) (hend st) (hmem st) (\<lambda>c. hmem st (c + 8)) old"
    using heap_okD [OF ok] unfolding old_def by blast
  note new_blk = cut_blocks [OF blk [unfolded old_def] c, folded new_def k_def t_def r_def]
  have tl: "tiles (hstart st) (pre @ [(b, s, False)] @ post) (hend st)" using blk by (simp add: blocks_ok_def old_def)
  have tn: "tiles (hstart st) new (hend st)" using new_blk by (simp add: blocks_ok_def)
  have b: "b = hstart st + span_of pre" using tl by (simp add: row_append)
  note sides = row_sides [OF tl b, of "b + s"]
  have g: "gap = 0 \<or> 32 \<le> gap" "32 \<le> need" "gap + need \<le> s" "gap mod 16 = 0" using c by (auto simp: cut_ok_def)
  note tk = cut_taken [OF c, folded t_def r_def]
  have t: "32 \<le> t" using tk(1) g(2) by linarith
  have lim: "b + s \<le> hend st" "hend st < 2 ^ 64" using sides(4) reg by (simp_all add: region_ok_def)
  have sub: "addrs old \<subseteq> ?A" unfolding new_def old_def using cut_facts(4) [OF c, of b] by auto
  have kA: "k \<in> ?A" by (simp add: new_def cut_def k_def)
  have bA: "b \<in> ?A" using sub by (auto simp: old_def)
  have bF: "(b, s) \<in> free_of old" by (simp add: old_def)
  have bL: "b \<in> ?L" using bF by force
  have hb: "hmem st b = s" using heads_at [of "hmem st" old b s False] blk by (simp add: blocks_ok_def old_def)
  have s16: "s mod 16 = 0" using c by (simp add: cut_ok_def)
  have g64: "gap < 2 ^ 64" "r < 2 ^ 64" using g(3) lim unfolding r_def by linarith+
  have m0: "mid st st ?A ?L (hmem st) (\<lambda>c. hmem st (c + 8)) (free_of old)"
    by (rule mid_start [OF ok [folded old_def] sub tiles_spaced [OF reg tn]]) blast
  note m1 = mid_front [OF m0 bF hb s16 bA bL g(4) g64(1) kA [unfolded k_def], folded k_def]
  have F1: "free_of old - {(b, s)} = free_of pre \<union> free_of post"
    unfolding old_def by (rule free_drop(1)) (use tl in simp)
  have R: "k + t \<in> ?A \<and> k + t \<in> ?L \<and> k + t \<notin> fst ` (free_of old - {(b, s)} \<union> free_of (gap_row b gap))" if r32: "32 \<le> r"
  proof -
    have "(k + t, r) \<in> free_of new" using r32 by (simp add: new_def cut_def rest_row_def k_def t_def r_def)
    then have 1: "k + t \<in> fst ` free_of new" by force
    have kt: "b < k + t" "k + t < b + s" using t tk(4) [OF r32] r32 unfolding k_def by linarith+
    have "k + t \<notin> addrs pre" "k + t \<notin> addrs post" using sides(1,2) [of "k + t"] kt by auto
    then have "k + t \<notin> fst ` (free_of pre \<union> free_of post)" using free_addrs by blast
    moreover have "k + t \<notin> fst ` free_of (gap_row b gap)" using kt(1) by (simp add: gap_row_def)
    ultimately show ?thesis using 1 free_addrs [of new] unfolding F1 by blast
  qed
  have e: "b + s = k + t + (if 32 \<le> r then r else 0)"
    using tk(4,5) unfolding k_def by (cases "32 \<le> r") simp_all
  have tp: "tiles (b + s) post (hend st)" using tl b by (simp add: row_append)
  have eA: "b + s < hend st \<longrightarrow> b + s \<in> ?A" using tiles_head [OF tp] by (simp add: new_def)
  note m2 = mid_back [OF m1 kA tk(3) t tk(6) g64(2) R e lim(1) eA, folded st'_def]
  have F2: "free_of old - {(b, s)} \<union> free_of (gap_row b gap) \<union> free_of (rest_row (k + t) r) = free_of new"
    unfolding F1 new_def free_of_simps cut_facts(5) [OF c] k_def t_def r_def by blast
  show thesis by (rule that [OF m2 [unfolded F2] new_blk sub])
qed

lemma take_block_spec:
  assumes ok: "heap_ok st (pre @ (b, s, False) # post)" and c: "cut_ok s gap need"
  obtains st' where "take_block st b gap need = Inr (Some (b + gap + 16), st')" "heap_ok st' (pre @ cut b s gap need @ post)"
    "kept st (pre @ (b, s, False) # post) st' (pre @ cut b s gap need @ post)"
proof -
  let ?old = "pre @ (b, s, False) # post" and ?new = "pre @ cut b s gap need @ post"
  let ?t = "taken_of (s - gap) need"
  obtain fl where reg: "region_ok st" and ce: "ceiling st = hend st - hstart st" and us: "hused st = used_of ?old"
    and blk: "blocks_ok (hstart st) (hend st) (hmem st) (\<lambda>c. hmem st (c + 8)) ?old" and spc: "spaced st (addrs ?old)"
    using heap_okD [OF ok] by blast
  define st1 where "st1 = take_back (take_front st b gap) (b + gap) ?t (s - gap - need)"
  obtain h p where m: "mid st st1 (addrs ?new) (fst ` free_of ?old \<union> fst ` free_of ?new) h p (free_of ?new)"
    and nb: "blocks_ok (hstart st) (hend st) h p ?new" and sub: "addrs ?old \<subseteq> addrs ?new"
    using take_mid [OF ok c, folded st1_def] by blast
  have tl: "tiles (hstart st) ?old (hend st)" using blk by (simp add: blocks_ok_def)
  have at: "(b, s, False) \<in> set ?old" by simp
  have bs: "b + s < 2 ^ 64" using tiles_bounds [OF tl at] reg unfolding region_ok_def by linarith
  have hb: "hmem st b = s + of_bool False" using heads_at [OF _ at, of "hmem st"] blk by (simp add: blocks_ok_def)
  have sz: "bsize st b = s"
    by (rule head_read(1) [OF sees_self [OF reg spc] _ hb]) (use c in \<open>simp_all add: cut_ok_def\<close>)
  have "used_of ?old + s \<le> hend st - hstart st" using used_free [OF at] tiles_span [OF tl] by simp
  moreover have "?t \<le> s" using cut_taken(2) [OF c] by simp
  ultimately have u: "hused st + ?t \<le> ceiling st" unfolding us ce by linarith
  have c64: "ceiling st < 2 ^ 64" using reg unfolding ce region_ok_def by linarith
  define st' where "st' = st1\<lparr>hused := hused st + ?t, peak := max (peak st1) (hused st + ?t), allocs := wrap (allocs st1 + 1)\<rparr>"
  have eq: "take_block st b gap need = Inr (Some (b + gap + 16), st')"
    using take_block_eq [OF sz c bs u c64] unfolding st'_def st1_def .
  obtain n v fl' where m': "same_heap st st1" "frees_ok (free_of ?new)" "fst ` free_of ?new \<subseteq> addrs ?new" "sees st1 (addrs ?new) h p n v"
    "lists_ok n v (bins st1) (nonempty st1) (free_of ?new) fl'" "fst ` free_of ?new \<subseteq> fst ` free_of ?old \<union> fst ` free_of ?new"
    "\<And>a. a \<notin> books (addrs ?new) (fst ` free_of ?old \<union> fst ` free_of ?new) \<Longrightarrow> hmem st1 a = hmem st a"
    using midE [OF m] by blast
  have f: "hstart st' = hstart st" "hend st' = hend st" "ceiling st' = ceiling st" "bins st' = bins st1" "nonempty st' = nonempty st1"
    "hmem st' = hmem st1" "hused st' = hused st + ?t" "hstart st1 = hstart st" "hend st1 = hend st"
    using m'(1) by (simp_all add: st'_def same_heap_def)
  have "heap_ok st' ?new"
  proof (rule heap_okI [where A = "addrs ?new"])
    show "sees st' (addrs ?new) h p n v" by (rule sees_book [OF m'(4)]) (simp_all add: f)
    show "blocks_ok (hstart st') (hend st') h p ?new" unfolding f(1,2) by (rule nb)
    show "lists_ok n v (bins st') (nonempty st') (free_of ?new) fl'" unfolding f(4,5) by (rule m'(5))
    show "ceiling st' = hend st' - hstart st'" using ce by (simp add: f)
    show "hused st' = used_of ?new" unfolding f(7) us row_append cut_facts(3) [OF c] by simp
  qed simp
  moreover have "kept st ?old st' ?new"
  proof (rule keptI [OF f(1,2), folded f(6)])
    show "hmem st' a = hmem st a" if "a \<notin> books (addrs ?new) (fst ` free_of ?old \<union> fst ` free_of ?new)" for a
      unfolding f(6) by (rule m'(7) [OF that])
    show "fst ` free_of ?old \<union> fst ` free_of ?new \<subseteq> addrs ?new" using sub free_addrs by blast
    have "tiles (hstart st) ?new (hend st)" using nb by (simp add: blocks_ok_def)
    from spared_free [OF tl this] show "(fst ` free_of ?old \<union> fst ` free_of ?new) \<inter> spared ?old ?new = {}" by blast
  qed blast
  ultimately show thesis using that [OF eq] by blast
qed

end
