(* ===== verification/HeapFind.thy ===== *)
theory HeapFind
  imports HeapAlloc
begin

unbundle bit_operations_syntax

text \<open>
  Finding a block: \<open>fit\<close> gives the least admissible gap, and the walk over the classes meets every free
  block that is large enough within the step budget.
\<close>

section \<open>Alignment\<close>

lemma align_up_least:
  assumes "0 < a"
  shows "x \<le> align_down (x + (a - 1)) a" "align_down (x + (a - 1)) a mod a = 0"
    "y mod a = 0 \<Longrightarrow> x \<le> y \<Longrightarrow> align_down (x + (a - 1)) a \<le> y"
proof -
  let ?v = "x + (a - 1)"
  have d: "?v div a * a + ?v mod a = ?v" by simp
  have m: "?v mod a < a" using assms by simp
  show "x \<le> align_down ?v a" unfolding align_down_def using d m by linarith
  show "align_down ?v a mod a = 0" by (simp add: align_down_def)
  assume y: "y mod a = 0" "x \<le> y"
  have "?v div a \<le> (y + (a - 1)) div a" using y(2) by (intro div_le_mono) simp
  also have "(y + (a - 1)) div a = y div a"
  proof -
    have "y = a * (y div a)" using y(1) by auto
    then have "(y + (a - 1)) div a = (a - 1 + a * (y div a)) div a" by (simp only: add.commute)
    also have "\<dots> = y div a" by (rule div_nat_eqI) (use assms in simp_all)
    finally show ?thesis .
  qed
  finally have "?v div a * a \<le> y div a * a" by (rule mult_le_mono1)
  also have "y div a * a = y" using y(1) by auto
  finally show "align_down ?v a \<le> y" unfolding align_down_def .
qed

lemma is_pow2_16:
  assumes "is_pow2 a"
  shows "max a 16 mod 16 = 0" "a dvd max a 16"
proof -
  have a: "a \<noteq> 0" "a AND (a - 1) = 0" using assms by (auto simp: is_pow2_def)
  show m: "max a 16 mod 16 = 0"
  proof (rule ccontr)
    assume n: "max a 16 mod 16 \<noteq> 0"
    then have big: "16 < a" "a mod 16 \<noteq> 0" by (auto simp: max_def split: if_splits)
    have "(a - 1) div 16 = a div 16"
    proof (rule div_nat_eqI)
      have "16 * (a div 16) + a mod 16 = a" "a mod 16 < 16" by simp_all
      then show "16 * (a div 16) \<le> a - 1" "a - 1 < 16 * Suc (a div 16)"
        using big(2) unfolding mult_Suc_right by linarith+
    qed
    then have "drop_bit 4 (a - 1) = drop_bit 4 a" by (simp add: drop_bit_eq_div)
    then have "drop_bit 4 (a AND (a - 1)) = drop_bit 4 a" by simp
    then have "a div 16 = 0" using a(2) by (simp add: drop_bit_eq_div)
    then show False using big(1) by simp
  qed
  show "a dvd max a 16"
  proof (cases "a < 16")
    case True
    then have "a = 1 \<or> a = 2 \<or> a = 3 \<or> a = 4 \<or> a = 5 \<or> a = 6 \<or> a = 7 \<or> a = 8 \<or> a = 9 \<or> a = 10 \<or> a = 11 \<or>
        a = 12 \<or> a = 13 \<or> a = 14 \<or> a = 15"
      using a(1) by presburger
    then show ?thesis using a(2) by auto
  qed (simp add: max_def)
qed

section \<open>The gap before the taken block\<close>

definition gap_ok :: "nat \<Rightarrow> nat \<Rightarrow> nat \<Rightarrow> bool" where
  "gap_ok b align gap \<longleftrightarrow> (gap = 0 \<or> 32 \<le> gap) \<and> (b + 16 + gap) mod align = 0"

lemma uadd_eq: "uadd a b = Some c \<longleftrightarrow> a + b < 2 ^ 64 \<and> c = a + b"
  unfolding uadd_def by (cases "a + b < 2 ^ 64") (simp_all only: if_True if_False option.inject option.distinct, blast+)

lemma fit_bind:
  assumes "fit st b need align = Some gap"
  defines "at0 \<equiv> align_down (b + 16 + (align - 1)) align"
  shows "gap + need \<le> bsize st b \<and> gap = (if at0 \<noteq> b + 16 \<and> at0 - (b + 16) < 32
        then align_down (b + 16 + (32 + align - 1)) align - (b + 16) else at0 - (b + 16))"
proof -
  have mb: "MIN_BLOCK = 32" by (simp add: heap_nums)
  obtain at where at: "(if at0 \<noteq> b + 16 \<and> at0 - (b + 16) < 32
      then map_option (\<lambda>v. align_down v align) (uadd (b + 16) (32 + align - 1)) else Some at0) = Some at"
    "Option.bind (uadd (at - (b + 16)) need) (\<lambda>t. if t \<le> bsize st b then Some (at - (b + 16)) else None) = Some gap"
    using assms(1) unfolding fit_def bind_eq_Some_conv Let_def uadd_eq at0_def HDR_def mb by blast
  have 1: "gap = at - (b + 16)" "gap + need \<le> bsize st b"
    using at(2) unfolding bind_eq_Some_conv uadd_eq by (auto split: if_splits)
  have 2: "at = (if at0 \<noteq> b + 16 \<and> at0 - (b + 16) < 32 then align_down (b + 16 + (32 + align - 1)) align else at0)"
    using at(1) by (auto simp: map_option_eq_Some uadd_eq split: if_splits)
  show ?thesis unfolding 1(1) 2 using 1 2 by simp
qed

lemma fit_some:
  assumes f: "fit st b need align = Some gap" and a: "0 < align"
  shows "gap_ok b align gap" "gap + need \<le> bsize st b" "gap_ok b align g \<Longrightarrow> gap \<le> g"
proof -
  let ?x = "b + 16"
  define at0 where "at0 = align_down (?x + (align - 1)) align"
  note up = align_up_least [OF a, where x = ?x, folded at0_def]
  define at1 where "at1 = align_down (?x + 32 + (align - 1)) align"
  note up1 = align_up_least [OF a, where x = "?x + 32", folded at1_def]
  have at1: "align_down (?x + (32 + align - 1)) align = at1" unfolding at1_def using a by (simp add: add.assoc)
  have e: "gap + need \<le> bsize st b"
    "gap = (if at0 \<noteq> ?x \<and> at0 - ?x < 32 then at1 - ?x else at0 - ?x)"
    using fit_bind [OF f] unfolding at0_def [symmetric] at1 by blast+
  show "gap + need \<le> bsize st b" by (rule e(1))
  have ok: "(gap = 0 \<or> 32 \<le> gap) \<and> (?x + gap) mod align = 0 \<and> (\<forall>g. gap_ok b align g \<longrightarrow> gap \<le> g)"
  proof (cases "at0 \<noteq> ?x \<and> at0 - ?x < 32")
    case True
    then have g: "?x + gap = at1" using e(2) up1(1) by simp
    have "gap \<le> g'" if g': "gap_ok b align g'" for g'
    proof -
      have "g' \<noteq> 0" using g' up(1) up(3) [of ?x] True by (auto simp: gap_ok_def)
      then show ?thesis using g' up1(3) [of "?x + g'"] g by (simp add: gap_ok_def)
    qed
    then show ?thesis using up1 g by simp
  next
    case False
    then have g: "?x + gap = at0" using e(2) up(1) by auto
    have "gap \<le> g'" if g': "gap_ok b align g'" for g' using g' up(3) [of "?x + g'"] g by (simp add: gap_ok_def)
    then show ?thesis using up g False by auto
  qed
  show "gap_ok b align gap" using ok by (simp add: gap_ok_def)
  show "gap_ok b align g \<Longrightarrow> gap \<le> g" using ok by blast
qed

lemma fit_none:
  assumes f: "fit st b need align = None" and a: "0 < align" "b + 48 + align \<le> 2 ^ 64"
    and s: "bsize st b < 2 ^ 64" and g: "gap_ok b align g" "g + need \<le> bsize st b"
  shows False
proof -
  let ?x = "b + 16"
  define at0 where "at0 = align_down (?x + (align - 1)) align"
  note up = align_up_least [OF a(1), where x = ?x, folded at0_def]
  define at1 where "at1 = align_down (?x + (32 + align - 1)) align"
  have "?x + (32 + align - 1) = ?x + 32 + (align - 1)" using a(1) by simp
  note up1 = align_up_least [OF a(1), where x = "?x + 32", folded this, folded at1_def]
  define gap where "gap = (if at0 \<noteq> ?x \<and> at0 - ?x < 32 then at1 - ?x else at0 - ?x)"
  have lt: "?x + (align - 1) < 2 ^ 64" "?x + (32 + align - 1) < 2 ^ 64" using a by linarith+
  have "gap \<le> g"
  proof (cases "at0 \<noteq> ?x \<and> at0 - ?x < 32")
    case True
    have "g \<noteq> 0" using g(1) up(1) up(3) [of ?x] True by (auto simp: gap_ok_def)
    then show ?thesis using g(1) up1(3) [of "?x + g"] True by (simp add: gap_ok_def gap_def)
  next
    case False
    then show ?thesis using g(1) up(3) [of "?x + g"] by (auto simp: gap_ok_def gap_def)
  qed
  then have n: "gap + need \<le> bsize st b" "gap + need < 2 ^ 64" using g(2) s by linarith+
  have 1: "uadd b HDR = Some ?x" "uadd ?x (align - 1) = Some (?x + (align - 1))"
    "uadd ?x (MIN_BLOCK + align - 1) = Some (?x + (32 + align - 1))" "uadd gap need = Some (gap + need)"
    using lt n(2) unfolding uadd_eq heap_nums by simp_all
  have mb: "MIN_BLOCK = 32" by (simp add: heap_nums)
  define at2 where "at2 = (if at0 \<noteq> ?x \<and> at0 - ?x < 32 then at1 else at0)"
  have gap: "at2 - ?x = gap" by (simp add: at2_def gap_def)
  have 2: "(if at0 \<noteq> ?x \<and> at0 - ?x < MIN_BLOCK then map_option (\<lambda>v. align_down v align) (uadd ?x (MIN_BLOCK + align - 1))
     else Some at0) = Some at2"
    unfolding 1(3) option.map at1_def [symmetric] unfolding mb at2_def by simp
  have "fit st b need align = Some gap"
    unfolding fit_def 1(1) bind.simps 1(2) Let_def at0_def [symmetric] 2 gap 1(4) using n(1) by simp
  then show False using f by simp
qed

section \<open>Walking the lists\<close>

lemma walk_list_spec:
  assumes "dl n v q L" "NIL \<notin> set L" "\<And>c. c \<in> set L \<Longrightarrow> next_free st c = n c" "length L \<le> steps"
  shows "(\<exists>c gap. walk_list st need align steps (hd0 L) = Found c gap \<and> c \<in> set L \<and> fit st c need align = Some gap) \<or>
    (walk_list st need align steps (hd0 L) = Rest (steps - length L) \<and> (\<forall>c \<in> set L. fit st c need align = None))"
  using assms
proof (induction L arbitrary: q steps)
  case Nil
  then show ?case by (simp add: walk_list.simps [of st need align steps])
next
  case (Cons c L)
  have c: "c \<noteq> NIL" "steps \<noteq> 0" "next_free st c = hd0 L" using Cons.prems by auto
  show ?case
  proof (cases "fit st c need align")
    case None
    have e: "walk_list st need align steps (hd0 (c # L)) = walk_list st need align (steps - 1) (hd0 L)"
      using c None by (simp add: walk_list.simps [of st need align steps c])
    have le: "length L \<le> steps - 1" using Cons.prems(4) by simp
    have "(\<exists>c gap. walk_list st need align (steps - 1) (hd0 L) = Found c gap \<and> c \<in> set L \<and> fit st c need align = Some gap) \<or>
      (walk_list st need align (steps - 1) (hd0 L) = Rest (steps - 1 - length L) \<and> (\<forall>c \<in> set L. fit st c need align = None))"
      by (rule Cons.IH [OF _ _ _ le, of c]) (use Cons.prems in auto)
    then show ?thesis unfolding e using None by auto
  next
    case (Some gap)
    then have "walk_list st need align steps (hd0 (c # L)) = Found c gap"
      using c by (simp add: walk_list.simps [of st need align steps c])
    then show ?thesis using Some by auto
  qed
qed

text \<open>The free blocks of a class and above.\<close>

definition above :: "nat \<Rightarrow> (nat \<times> nat) set \<Rightarrow> (nat \<times> nat) set" where
  "above lo F = {x \<in> F. lo \<le> bin_of (snd x)}"

lemma card_class:
  assumes ok: "lists_ok n v bn ne F fl" and F: "frees_ok F" "finite F"
    and lo: "lo \<le> i" "\<And>j. lo \<le> j \<Longrightarrow> j < i \<Longrightarrow> fl j = []"
  shows "card (above lo F) = length (fl i) + card (above (i + 1) F)"
proof -
  let ?C = "{x \<in> F. bin_of (snd x) = i}"
  have none: "bin_of (snd x) \<notin> {lo..<i}" if "x \<in> F" for x
    using lo(2) [of "bin_of (snd x)"] lists_okD(7) [OF ok, of "fst x" "bin_of (snd x)"] that by (cases x) force
  have u: "above lo F = ?C \<union> above (i + 1) F" using none lo(1) unfolding above_def by force
  have "inj_on fst ?C" using F(1) unfolding frees_ok_def inj_on_def by force
  moreover have "fst ` ?C = set (fl i)" using lists_okD(7) [OF ok, of _ i] by force
  ultimately have "card ?C = card (set (fl i))" using card_image by metis
  also have "\<dots> = length (fl i)" by (rule distinct_card [OF lists_okD(6) [OF ok]])
  finally have c: "card ?C = length (fl i)" .
  have "card (above lo F) = card ?C + card (above (i + 1) F)"
    unfolding u by (rule card_Un_disjoint) (use F(2) in \<open>auto simp: above_def\<close>)
  then show ?thesis unfolding c .
qed

lemma find_from_spec:
  assumes see: "sees st A h p n v" and F: "frees_ok F" "fst ` F \<subseteq> A" "finite F"
    and ok: "lists_ok n v (bins st) (nonempty st) F fl" and "card (above lo F) \<le> steps"
  shows "case find_from st need align steps lo of
      Some (b, gap) \<Rightarrow> (\<exists>s. (b, s) \<in> F) \<and> fit st b need align = Some gap
    | None \<Rightarrow> \<forall>b s. (b, s) \<in> F \<longrightarrow> lo \<le> bin_of s \<longrightarrow> fit st b need align = None"
  using assms(6)
proof (induction "length (nonempty st) * 64 - lo" arbitrary: lo steps rule: less_induct)
  case less
  show ?case
  proof (cases "next_bin st lo")
    case None
    have "\<not> lo \<le> bin_of s" if "(b, s) \<in> F" for b s
    proof
      assume "lo \<le> bin_of s"
      then have "\<not> bit_at (nonempty st) (bin_of s)" using next_bin_spec [where st = st and lo = lo] None by simp
      then have "fl (bin_of s) = []" using lists_okD(4) [OF ok, of "bin_of s"] by blast
      then show False using lists_okD(7) [OF ok, of b "bin_of s"] that by auto
    qed
    then show ?thesis using None by (auto simp: find_from.simps [of st need align steps lo])
  next
    case (Some i)
    note nb = next_bin_SomeD [OF Some]
    have ne: "fl i \<noteq> []" using lists_okD(4) [OF ok, of i] nb(2) by blast
    have em: "fl j = []" if "lo \<le> j" "j < i" for j using lists_okD(4) [OF ok, of j] nb(3) [OF that] by blast
    have "hd0 (fl i) \<in> set (fl i)" by (rule hd0_mem [OF ne])
    then obtain s where "(hd0 (fl i), s) \<in> F" "bin_of s = i" using lists_okD(7) [OF ok, of _ i] by blast
    then have "i < BINS" using F(1) bin_of_bound [of s] by (auto simp: frees_ok_def)
    then have g: "list_get (bins st) i = Some (hd0 (fl i))"
      using lists_okD(1) [OF ok] lists_okD(3) [OF ok] by (simp add: list_get_def)
    have lo: "lo \<le> i" using nb(1) by blast
    note cd = card_class [OF ok F(1,3) lo em]
    have nf: "next_free st c = n c" if "c \<in> set (fl i)" for c
      by (rule sees_reads(3) [OF see]) (use that listed_free [OF ok, of i] F(2) in blast)
    have le: "length (fl i) \<le> steps" using less.prems cd by linarith
    note step = find_from.simps [of st need align steps lo, unfolded Some g option.case]
    have "(\<exists>c gap. walk_list st need align steps (hd0 (fl i)) = Found c gap \<and> c \<in> set (fl i) \<and> fit st c need align = Some gap) \<or>
      (walk_list st need align steps (hd0 (fl i)) = Rest (steps - length (fl i)) \<and> (\<forall>c \<in> set (fl i). fit st c need align = None))"
      by (rule walk_list_spec [OF lists_okD(5) [OF ok, of i] NIL_not_listed [OF ok F(1)] _ le]) (rule nf)
    then show ?thesis
    proof (elim disjE exE conjE)
      fix c gap
      assume w: "walk_list st need align steps (hd0 (fl i)) = Found c gap" "c \<in> set (fl i)" "fit st c need align = Some gap"
      have "\<exists>s. (c, s) \<in> F" using lists_okD(7) [OF ok, of c i] w(2) by blast
      then show ?thesis using w(3) unfolding step w(1) by simp
    next
      assume w: "walk_list st need align steps (hd0 (fl i)) = Rest (steps - length (fl i))" "\<forall>c \<in> set (fl i). fit st c need align = None"
      have e: "find_from st need align steps lo = find_from st need align (steps - length (fl i)) (i + 1)"
        unfolding step w(1) by simp
      have m: "length (nonempty st) * 64 - (i + 1) < length (nonempty st) * 64 - lo" using nb(1) by linarith
      have c: "card (above (i + 1) F) \<le> steps - length (fl i)" using less.prems cd by linarith
      note IH = less.hyps [OF m c]
      have low: "fit st b need align = None" if bs: "(b, s) \<in> F" "lo \<le> bin_of s" "\<not> i + 1 \<le> bin_of s" for b s
      proof -
        have mem: "b \<in> set (fl (bin_of s))" using lists_okD(7) [OF ok, of b "bin_of s"] bs(1) by blast
        then have "bin_of s = i" using em [of "bin_of s"] bs(2,3) by (cases "bin_of s = i") auto
        then show ?thesis using w(2) mem by blast
      qed
      show ?thesis
      proof (cases "find_from st need align (steps - length (fl i)) (i + 1)")
        case None
        then show ?thesis using IH low unfolding e None option.case by blast
      next
        case (Some x)
        then show ?thesis using IH unfolding e by simp
      qed
    qed
  qed
qed

section \<open>Finding a block of the heap\<close>

lemma tiles_count: "tiles a bs e \<Longrightarrow> 32 * length bs \<le> span_of bs"
  by (induction bs arbitrary: a) fastforce+

lemma heap_reads:
  assumes "heap_ok st bs" "(b, s, u) \<in> set bs"
  shows "bsize st b = s" "is_used st b = u" "s mod 16 = 0" "32 \<le> s" "hstart st \<le> b" "b + s \<le> hend st" "hend st < 2 ^ 64" "b mod 16 = 0"
    "0 < hstart st"
proof -
  obtain fl where reg: "region_ok st"
    and blk: "blocks_ok (hstart st) (hend st) (hmem st) (\<lambda>c. hmem st (c + 8)) bs" and spc: "spaced st (addrs bs)"
    using heap_okD [OF assms(1)] by blast
  have tl: "tiles (hstart st) bs (hend st)" and hd: "heads (hmem st) bs" using blk by (simp_all add: blocks_ok_def)
  note t = tiles_bounds [OF tl assms(2)]
  show s: "s mod 16 = 0" "32 \<le> s" "hstart st \<le> b" "b + s \<le> hend st" using t by simp_all
  show "hend st < 2 ^ 64" "0 < hstart st" using reg by (simp_all add: region_ok_def)
  show "b mod 16 = 0" by (rule tiles_aligned [OF tl _ assms(2)]) (use reg in \<open>simp add: region_ok_def\<close>)
  have A: "b \<in> addrs bs" using assms(2) by (force simp: addrs_def)
  note r = head_read [OF sees_self [OF reg spc] A heads_at [OF hd assms(2)] s(1)]
  show "bsize st b = s" "is_used st b = u" by (rule r(1), rule r(2))
qed

lemma find_block_spec:
  assumes "heap_ok st bs" "0 < align"
  shows "case find_block st need align of
      Some (b, gap) \<Rightarrow> (\<exists>s. (b, s, False) \<in> set bs) \<and> fit st b need align = Some gap
    | None \<Rightarrow> \<forall>b s. (b, s, False) \<in> set bs \<longrightarrow> fit st b need align = None"
proof -
  let ?F = "free_of bs"
  obtain fl where reg: "region_ok st"
    and blk: "blocks_ok (hstart st) (hend st) (hmem st) (\<lambda>c. hmem st (c + 8)) bs" and spc: "spaced st (addrs bs)"
    and ls: "lists_ok (\<lambda>c. hmem st (c + 16)) (\<lambda>c. hmem st (c + 24)) (bins st) (nonempty st) ?F fl"
    using heap_okD [OF assms(1)] by blast
  have tl: "tiles (hstart st) bs (hend st)" using blk by (simp add: blocks_ok_def)
  have sub: "?F \<subseteq> (\<lambda>(b, s, u). (b, s)) ` set bs" by (force simp: free_of_def)
  have fin: "finite ?F" by (rule finite_subset [OF sub]) simp
  have "card (above (bin_of need) ?F) \<le> card ?F" by (rule card_mono [OF fin]) (auto simp: above_def)
  also have "\<dots> \<le> card (set bs)" by (rule order_trans [OF card_mono [OF _ sub]]) (simp_all add: card_image_le)
  also have "\<dots> \<le> length bs" by (rule card_length)
  also have "\<dots> \<le> max_steps st"
    using tiles_count [OF tl] tiles_span [OF tl] by (simp add: max_steps_def heap_nums less_eq_div_iff_mult_less_eq)
  finally have le: "card (above (bin_of need) ?F) \<le> max_steps st" .
  note sp = find_from_spec [OF sees_self [OF reg spc] free_of_ok(1,2) [OF reg tl] fin ls le, of need align, folded find_block_def]
  have small: "fit st b need align = None" if b: "(b, s, False) \<in> set bs" "\<not> bin_of need \<le> bin_of s" for b s
  proof (cases "fit st b need align")
    case (Some gap)
    have "need \<le> s" using fit_some(2) [OF Some assms(2)] heap_reads(1) [OF assms(1) b(1)] by simp
    then show ?thesis using bin_of_mono b(2) by blast
  qed
  show ?thesis
  proof (cases "find_block st need align")
    case None
    then show ?thesis using sp small unfolding None option.case by (auto simp: free_of_def)
  next
    case (Some x)
    then show ?thesis using sp by (auto simp: free_of_def)
  qed
qed

end
