(* ===== verification/HeapOps.thy ===== *)
theory HeapOps
  imports HeapFind
begin

text \<open>
  The operations of the heap on a well-formed one: allocating, freeing, creating and checking.
\<close>

section \<open>Allocating\<close>

lemma block_need_ok:
  assumes "block_need n = Some need"
  shows "32 \<le> need" "need mod 16 = 0" "n + 16 \<le> need" "need < 2 ^ 64"
proof -
  have e: "need = max (align_down (n + 15) 16 + 16) 32" "align_down (n + 15) 16 + 16 < 2 ^ 64"
    using assms by (auto simp: block_need_def bind_eq_Some_conv uadd_eq heap_nums)
  have up: "n \<le> align_down (n + 15) 16" "align_down (n + 15) 16 mod 16 = 0"
    using align_up_least(1,2) [of 16 n] by simp_all
  show "32 \<le> need" "n + 16 \<le> need" using e(1) up(1) by simp_all
  have "(align_down (n + 15) 16 + 16) mod 16 = 0" using up(2) by simp
  then show "need mod 16 = 0" unfolding e(1) max_def by simp
  show "need < 2 ^ 64" using e by (simp add: max_def)
qed

text \<open>A free block that could hold the request.\<close>

definition room :: "blk list \<Rightarrow> nat \<Rightarrow> nat \<Rightarrow> bool" where
  "room bs need align \<longleftrightarrow> (\<exists>b s g. (b, s, False) \<in> set bs \<and> gap_ok b (max align 16) g \<and> g + need \<le> s)"

definition taken_at :: "HState \<Rightarrow> blk list \<Rightarrow> nat \<Rightarrow> nat \<Rightarrow> nat \<Rightarrow> HState \<Rightarrow> blk list \<Rightarrow> bool" where
  "taken_at st bs need align x st' bs' \<longleftrightarrow>
     (\<exists>pre b s post gap. bs = pre @ (b, s, False) # post \<and> cut_ok s gap need \<and> gap_ok b (max align 16) gap \<and>
        x = b + gap + 16 \<and> bs' = pre @ cut b s gap need @ post) \<and> heap_ok st' bs' \<and> kept st bs st' bs'"

lemma try_alloc_spec:
  assumes ok: "heap_ok st bs" and a: "is_pow2 align" "align \<le> 4096" and n: "block_need n = Some need"
  obtains (taken) x st' bs' where "try_alloc st n align = Inr (Some x, st')" "taken_at st bs need align x st' bs'"
  | (full) "try_alloc st n align = Inr (None, st)" "hend st + 8192 \<le> 2 ^ 64 \<longrightarrow> \<not> room bs need align"
proof -
  let ?al = "max align 16"
  obtain fl where reg: "region_ok st" and ce: "ceiling st = hend st - hstart st" and us: "hused st = used_of bs"
    and blk: "blocks_ok (hstart st) (hend st) (hmem st) (\<lambda>c. hmem st (c + 8)) bs"
    using heap_okD [OF ok] by blast
  have tl: "tiles (hstart st) bs (hend st)" using blk by (simp add: blocks_ok_def)
  have h0: "hstart st \<noteq> 0" using reg by (simp add: region_ok_def)
  note nd = block_need_ok [OF n]
  have al: "0 < ?al" "?al mod 16 = 0" using is_pow2_16 [OF a(1)] by simp_all
  have g: "\<not> (hstart st = 0 \<or> \<not> is_pow2 align \<or> align > MAX_ALIGN)" using h0 a by (simp add: MAX_ALIGN_def)
  have gr: "max align GRAIN = ?al" by (simp add: GRAIN_def)
  note eq = try_alloc_def [of st n align, unfolded if_not_P [OF g] n option.case gr]
  have over: "\<not> room bs need align" if "ceiling st < hused st + need"
  proof
    assume "room bs need align"
    then obtain b s gp where r: "(b, s, False) \<in> set bs" "gp + need \<le> s" unfolding room_def by blast
    have "used_of bs + s \<le> hend st - hstart st" using used_free [OF r(1)] tiles_span [OF tl] by simp
    then show False using that r(2) unfolding us ce by linarith
  qed
  show thesis
  proof (cases "hused st + need \<le> ceiling st")
    case False
    have "try_alloc st n align = Inr (None, st)" unfolding eq uadd_def using False by (auto split: if_splits)
    then show thesis using full over False by simp
  next
    case True
    have "ceiling st < 2 ^ 64" using reg unfolding ce region_ok_def by linarith
    then have ua: "uadd (hused st) need = Some (hused st + need)" using True unfolding uadd_eq by linarith
    have ng: "\<not> hused st + need > ceiling st" using True by simp
    note eq' = eq [unfolded ua option.case if_not_P [OF ng]]
    note sp = find_block_spec [OF ok al(1), of need]
    show thesis
    proof (cases "find_block st need ?al")
      case None
      have "\<not> room bs need align" if top: "hend st + 8192 \<le> 2 ^ 64"
      proof
        assume "room bs need align"
        then obtain b s gp where r: "(b, s, False) \<in> set bs" "gap_ok b ?al gp" "gp + need \<le> s" unfolding room_def by blast
        note hr = heap_reads [OF ok r(1)]
        have 1: "fit st b need ?al = None" using sp r(1) unfolding None option.case by blast
        show False
          by (rule fit_none [OF 1 al(1) _ _ r(2)]) (use hr(1,4,6,7) a(2) top r(3) in \<open>simp_all add: max_def\<close>)
      qed
      then show thesis using full unfolding eq' None option.case by blast
    next
      case (Some y)
      obtain b gap where y: "y = (b, gap)" by (cases y)
      obtain s where s: "(b, s, False) \<in> set bs" and f: "fit st b need ?al = Some gap"
        using sp unfolding Some y option.case prod.case by blast
      note hr = heap_reads [OF ok s]
      note ft = fit_some [OF f al(1)]
      obtain pre post where sp: "bs = pre @ (b, s, False) # post" using split_list [OF s] by blast
      have "gap mod 16 = 0"
      proof -
        have "16 dvd ?al" using al(2) by auto
        then have "16 dvd b + 16 + gap" using ft(1) unfolding gap_ok_def by (meson dvd_trans mod_eq_0_iff_dvd)
        then show ?thesis using hr(8) by presburger
      qed
      then have c: "cut_ok s gap need" unfolding cut_ok_def using ft(1,2) hr(1,3) nd by (simp add: gap_ok_def)
      obtain st' where t: "take_block st b gap need = Inr (Some (b + gap + 16), st')" "heap_ok st' (pre @ cut b s gap need @ post)"
        "kept st bs st' (pre @ cut b s gap need @ post)"
        using take_block_spec [OF ok [unfolded sp] c] unfolding sp by blast
      have "taken_at st bs need align (b + gap + 16) st' (pre @ cut b s gap need @ post)"
        unfolding taken_at_def using t(2,3) sp c ft(1) by blast
      moreover have "try_alloc st n align = Inr (Some (b + gap + 16), st')" unfolding eq' Some y option.case prod.case by (rule t(1))
      ultimately show thesis using taken by blast
    qed
  qed
qed

section \<open>Freeing\<close>

text \<open>The counters of a state do not matter to the row and the lists.\<close>

lemma mid_reset:
  assumes "mid st0 st A L h p F" "hstart st' = hstart st" "hend st' = hend st" "hmem st' = hmem st" "bins st' = bins st"
    "nonempty st' = nonempty st"
  shows "mid st' st' A L h p F"
proof -
  obtain n v fl where m: "same_heap st0 st" "frees_ok F" "fst ` F \<subseteq> A" "sees st A h p n v"
    "lists_ok n v (bins st) (nonempty st) F fl" "fst ` F \<subseteq> L" "\<And>a. a \<notin> books A L \<Longrightarrow> hmem st a = hmem st0 a"
    using midE [OF assms(1)] by blast
  show ?thesis
    by (rule midI [OF _ m(2,3) sees_book [OF m(4) assms(2-4)] m(5) [folded assms(5,6)] m(6)]) (simp_all add: same_heap_def)
qed

definition merge_next :: "HState \<Rightarrow> nat \<Rightarrow> nat \<Rightarrow> nat \<times> HState" where
  "merge_next st b s =
     (if b + s < hend st \<and> \<not> is_used st (b + s) then (s + bsize (unlink st (b + s)) (b + s), unlink st (b + s)) else (s, st))"

definition merge_prev :: "HState \<Rightarrow> nat \<Rightarrow> nat \<Rightarrow> nat \<times> nat \<times> HState" where
  "merge_prev st b s =
     (let pb = b - prev_size st b in
      if prev_size st b \<noteq> 0 \<and> \<not> is_used st pb then (s + bsize (unlink st pb) pb, pb, unlink st pb) else (s, b, st))"

lemma mid_heads: "mid st0 st A L h p F \<Longrightarrow> heads h bs \<Longrightarrow> addrs bs \<subseteq> A \<Longrightarrow> (b, s, u) \<in> set bs \<Longrightarrow> s mod 16 = 0 \<Longrightarrow>
    bsize st b = s \<and> is_used st b = u"
  using mid_reads(1,2) [of st0 st A L h p F b s u] heads_at [of h bs b s u] by (force simp: addrs_def)

lemma mid_merge_next:
  assumes m: "mid st0 st A L h p F" and blk: "blocks_ok lo (hend st0) h p (pre @ (b, s, True) # post)"
    and A: "addrs (pre @ (b, s, True) # post) \<subseteq> A" and F: "F = free_of pre \<union> free_of post"
  obtains N post' st' where "post = N @ post'" "merge_next st b s = (s + span_of N, st')" "calm True post'"
    "mid st0 st' A L h p (free_of pre \<union> free_of post')" "N = [] \<or> (\<exists>t. N = [(b + s, t, False)])"
proof (cases post)
  case Nil
  have "tiles lo (pre @ (b, s, True) # post) (hend st0)" using blk by (simp add: blocks_ok_def)
  then have "hend st0 = b + s" using Nil by (auto simp: row_append)
  then have "merge_next st b s = (s, st)" using mid_bounds [OF m] by (simp add: merge_next_def)
  then show thesis using that [of "[]" "[]" st] m F Nil by simp
next
  case (Cons x ys)
  obtain n t u where x: "x = (n, t, u)" by (cases x)
  have tl: "tiles lo (pre @ (b, s, True) # post) (hend st0)" and hd: "heads h (pre @ (b, s, True) # post)"
    and ca: "calm False (pre @ (b, s, True) # post)" using blk by (simp_all add: blocks_ok_def)
  have n: "n = b + s" and mem: "(n, t, u) \<in> set (pre @ (b, s, True) # post)" using tl Cons x by (auto simp: row_append)
  note tb = tiles_bounds [OF tl mem]
  have lt: "b + s < hend st" using tb n mid_bounds [OF m] by linarith
  have t16: "t mod 16 = 0" using tb by blast
  note rd = mid_heads [OF m hd A mem t16]
  have us: "is_used st (b + s) = u" using rd n by simp
  show thesis
  proof (cases u)
    case True
    have "calm True post" using ca Cons x True by (auto simp: row_append)
    then show thesis using that [of "[]" post st] m F us True lt by (simp add: merge_next_def)
  next
    case False
    have nF: "(n, t) \<in> F" using F Cons x False by simp
    have nA: "n \<in> A" using A Cons x by simp
    have hn: "h n = t" using heads_at [OF hd mem] False by simp
    have m1: "mid st0 (unlink st n) A L h p (F - {(n, t)})" by (rule mid_unlink [OF m nF hn t16])
    have e: "free_of pre \<union> free_of post - {(n, t)} = free_of pre \<union> free_of ys"
      using free_drop [of lo "pre @ [(b, s, True)]" n t ys "hend st0"] tl Cons x False by auto
    have sz: "bsize (unlink st n) n = t" using mid_heads [OF m1 hd A mem t16] by blast
    have "merge_next st b s = (s + t, unlink st n)" using lt us False sz n by (simp add: merge_next_def)
    moreover have "calm True ys" using ca Cons x False by (auto simp: row_append)
    ultimately show thesis using that [of "[(n, t, False)]" ys "unlink st n"] m1 e Cons x False F n by simp
  qed
qed

lemma last_free_append: "last_free f (xs @ ys) = last_free (last_free f xs) ys"
  by (induction f xs rule: last_free.induct) auto

lemma mid_merge_prev:
  assumes m: "mid st0 st A L h p F" and blk: "blocks_ok (hstart st0) (hend st0) h p (pre @ (b, s, True) # post)"
    and A: "addrs (pre @ (b, s, True) # post) \<subseteq> A" and F: "F = free_of pre \<union> G" and G: "fst ` G \<subseteq> addrs post"
  obtains P pre' st' where "pre = pre' @ P" "merge_prev st b k = (k + span_of P, b - span_of P, st')" "\<not> last_free False pre'"
    "mid st0 st' A L h p (free_of pre' \<union> G)" "P = [] \<or> (\<exists>t. P = [(b - t, t, False)])" "span_of P \<le> b"
    "p (b - span_of P) = last_size 0 pre'" "b - span_of P \<in> A"
proof -
  have tl: "tiles (hstart st0) (pre @ (b, s, True) # post) (hend st0)" and hd: "heads h (pre @ (b, s, True) # post)"
    and ca: "calm False (pre @ (b, s, True) # post)" and pv: "prevs p 0 (pre @ (b, s, True) # post)"
    using blk by (simp_all add: blocks_ok_def)
  have bA: "b \<in> A" using A by simp
  have s16: "s mod 16 = 0" using tl by (auto simp: row_append)
  have hb: "h b = s + of_bool True" using heads_at [OF hd, of b s True] by simp
  have ps: "prev_size st b = last_size 0 pre"
    using mid_reads(3) [OF m bA hb s16] pv by (simp add: row_append)
  show thesis
  proof (cases pre rule: rev_cases)
    case Nil
    then have "merge_prev st b k = (k, b, st)" using ps by (simp add: merge_prev_def Let_def)
    then show thesis using that [of "[]" "[]" st] m F Nil pv bA by simp
  next
    case (snoc zs x)
    obtain c t u where x: "x = (c, t, u)" by (cases x)
    have mem: "(c, t, u) \<in> set (pre @ (b, s, True) # post)" using snoc x by simp
    note tb = tiles_bounds [OF tl mem]
    have cb: "c + t = b" using tl snoc x by (auto simp: row_append)
    have t0: "prev_size st b = t" "t \<noteq> 0" using ps snoc x tb by (auto simp: row_append)
    have t16: "t mod 16 = 0" using tb by blast
    have bt: "b - t = c" using cb by simp
    have us: "is_used st c = u" using mid_heads [OF m hd A mem t16] by blast
    show thesis
    proof (cases u)
      case True
      have "merge_prev st b k = (k, b, st)" using t0 bt us True by (simp add: merge_prev_def Let_def)
      moreover have "\<not> last_free False pre" unfolding snoc x using True by (simp add: last_free_append)
      ultimately show thesis using that [of pre "[]" st] m F pv bA by (simp add: row_append)
    next
      case False
      have cF: "(c, t) \<in> F" using F snoc x False by simp
      have cA: "c \<in> A" using A snoc x by simp
      have hc: "h c = t" using heads_at [OF hd mem] False by simp
      have m1: "mid st0 (unlink st c) A L h p (F - {(c, t)})" by (rule mid_unlink [OF m cF hc t16])
      have fd: "(c, t) \<notin> free_of zs" "c \<notin> addrs post"
      proof -
        have "distinct (map fst (zs @ (c, t, u) # (b, s, True) # post))" using tiles_distinct [OF tl] snoc x by simp
        then show "(c, t) \<notin> free_of zs" "c \<notin> addrs post" by (force simp: free_of_def addrs_def)+
      qed
      have "(c, t) \<notin> G" using G fd(2) by force
      then have e: "F - {(c, t)} = free_of zs \<union> G" using F snoc x False fd(1) by auto
      have sz: "bsize (unlink st c) c = t" using mid_heads [OF m1 hd A mem t16] by blast
      have "merge_prev st b k = (k + t, c, unlink st c)" using t0 bt us False sz by (simp add: merge_prev_def Let_def)
      moreover have "\<not> last_free False zs" using ca snoc x False by (auto simp: row_append)
      moreover have "p c = last_size 0 zs" using pv snoc x by (auto simp: row_append)
      ultimately show thesis using that [of zs "[(c, t, False)]" "unlink st c"] m1 [unfolded e] snoc x False bt cb cA by simp
    qed
  qed
qed

lemma last_size_le: "tiles a bs e \<Longrightarrow> last_size 0 bs \<le> e \<and> (last_size 0 bs \<noteq> 0 \<longrightarrow> a \<le> e - last_size 0 bs)"
proof (cases bs rule: rev_cases)
  case (snoc zs x)
  obtain c t u where x: "x = (c, t, u)" by (cases x)
  assume t: "tiles a bs e"
  have "c + t = e" using t unfolding snoc x row_append(1) by simp
  moreover have "a \<le> c" using tiles_bounds [OF t, of c t u] snoc x by simp
  ultimately show ?thesis unfolding snoc x row_append(7) by auto
qed simp

lemma free_eq:
  assumes p: "p = b + 16" "b + 16 < 2 ^ 64" and pl: "plausible st b" and sz: "bsize st b = s"
  defines "st1 \<equiv> st\<lparr>hused := hused st - s, frees := wrap (frees st + 1)\<rparr>"
  assumes n: "b + s < 2 ^ 64" and mn: "merge_next st1 b s = (s2, st2)" "s2 < 2 ^ 64"
    and ps: "prev_size st2 b \<le> b" "prev_size st2 b \<noteq> 0 \<Longrightarrow> hstart st2 \<le> b - prev_size st2 b"
    and mp: "merge_prev st2 b s2 = (s3, k, st3)" "s3 < 2 ^ 64"
  shows "State_free st p = Inr (fix_follower (push (set_head st3 k s3 False) k) k)"
proof -
  have w: "wrapping_sub p HDR = b" using p by (simp add: wrapping_sub_def HDR_def)
  have ng: "\<not> (p < HDR \<or> \<not> plausible st b)" using pl p(1) by (simp add: HDR_def)
  have 1: "plus b s = Inr (b + s)" using n by (simp add: plus_def)
  have 2: "(if b + s < hend st1 \<and> \<not> is_used st1 (b + s)
      then (let st' = unlink st1 (b + s) in rbind (plus s (bsize st' (b + s))) (\<lambda>s'. Inr (s', st'))) else Inr (s, st1)) = Inr (s2, st2)"
    using mn unfolding merge_next_def Let_def by (auto simp: plus_def split: if_splits)
  have pw: "wrapping_sub b (prev_size st2 b) = b - prev_size st2 b"
  proof -
    have "b + 2 ^ 64 - prev_size st2 b = b - prev_size st2 b + 2 ^ 64" using ps(1) by linarith
    moreover have "b - prev_size st2 b < 2 ^ 64" using p(2) by linarith
    ultimately show ?thesis by (simp only: wrapping_sub_def mod_add_self2 mod_less)
  qed
  have 3: "(if prev_size st2 b \<noteq> 0 \<and> hstart st2 \<le> b - prev_size st2 b \<and> \<not> is_used st2 (b - prev_size st2 b)
      then (let st' = unlink st2 (b - prev_size st2 b) in rbind (plus s2 (bsize st' (b - prev_size st2 b)))
             (\<lambda>s'. Inr (s', b - prev_size st2 b, st'))) else Inr (s2, b, st2)) = Inr (s3, k, st3)"
    using mp ps(2) unfolding merge_prev_def Let_def by (auto simp: plus_def split: if_splits)
  show ?thesis
    unfolding State_free_def Let_def w if_not_P [OF ng] sz st1_def [symmetric] 1 rbind.simps 2 [unfolded Let_def] prod.case pw 3 [unfolded Let_def] ..
qed

lemma merge_blocks:
  assumes ok: "blocks_ok lo hi h p (pre @ P @ (b, s, True) # N @ post)" and P: "span_of P \<le> b"
    and k: "k = b - span_of P" "r = s + span_of N + span_of P" "p k = last_size 0 pre"
    and ca: "\<not> last_free False pre" "calm True post"
  defines "e \<equiv> k + r"
  shows "blocks_ok lo hi (h(k := r)) (if e < hi then p(e := r) else p) (pre @ (k, r, False) # post)"
    "k = lo + span_of pre" "tiles e post hi" "e \<le> hi" "k < e" "r mod 16 = 0" "k \<notin> addrs pre" "k \<notin> addrs post"
proof -
  let ?M = "P @ (b, s, True) # N"
  have ok': "blocks_ok lo hi h p (pre @ ?M @ post)" using ok by simp
  have tl: "tiles lo (pre @ ?M @ post) hi" using ok' by (simp add: blocks_ok_def)
  have b: "b = lo + span_of pre + span_of P" using tl by (auto simp: row_append)
  show kl: "k = lo + span_of pre" using k(1) b by simp
  have e: "e = k + span_of ?M" unfolding e_def k(2) by (simp add: row_append)
  note sides = row_sides [OF tl kl e]
  have tm: "tiles k ?M e" using tl unfolding row_append(1) [of lo pre] row_append(1) [of _ ?M] kl [symmetric] e [symmetric] by blast
  show tp: "tiles e post hi" using tl unfolding row_append(1) [of lo pre] row_append(1) [of _ ?M] kl [symmetric] e [symmetric] by blast
  have s: "32 \<le> s" using tm by (auto simp: row_append)
  have d: "16 dvd span_of bs" if "tiles x bs y" for x y bs
    using that by (induction bs arbitrary: x) (fastforce intro: dvd_add)+
  have "16 dvd span_of ?M" by (rule d [OF tm])
  then show r16: "r mod 16 = 0" unfolding k(2) by (simp add: row_append add.commute add.left_commute)
  have r32: "32 \<le> r" using s k(2) by linarith
  show "e \<le> hi" by (rule sides(4))
  show ke: "k < e" using r32 by (simp add: e_def)
  show "k \<notin> addrs pre" using sides(1) [of k] by auto
  show "k \<notin> addrs post" using sides(2) [of k] ke by auto
  have "blocks_ok lo hi (h(k := r)) (if e < hi then p(e := r) else p) (pre @ [(k, r, False)] @ post)"
  proof (rule row_replace [OF ok' kl e])
    show "tiles k [(k, r, False)] e" using r16 r32 by (simp add: e_def)
    show "heads (h(k := r)) [(k, r, False)]" by simp
    show "prevs (if e < hi then p(e := r) else p) (last_size 0 pre) [(k, r, False)]" using k(3) ke by simp
    show "calm (last_free False pre) [(k, r, False)]" using ca(1) by simp
    show "calm (last_free (last_free False pre) [(k, r, False)]) post" by (rule calm_weaken [OF ca(2)])
    show "(h(k := r)) c = h c" if "c \<in> addrs pre" for c using sides(1) [OF that] by auto
    show "(h(k := r)) c = h c" if "c \<in> addrs post" for c using sides(2) [OF that] ke by auto
    show "(if e < hi then p(e := r) else p) c = p c" if "c \<in> addrs pre" for c using sides(1) [OF that] ke by auto
    show "(if e < hi then p(e := r) else p) c = (if c = e then last_size (last_size 0 pre) [(k, r, False)] else p c)"
      if "c \<in> addrs post" for c using sides(2) [OF that] by auto
  qed
  then show "blocks_ok lo hi (h(k := r)) (if e < hi then p(e := r) else p) (pre @ (k, r, False) # post)" by simp
qed

definition free_row :: "blk list \<Rightarrow> bool" where
  "free_row bs \<longleftrightarrow> bs = [] \<or> (\<exists>b t. bs = [(b, t, False)])"

lemma free_spec:
  assumes ok: "heap_ok st (pre @ (b, s, True) # post)"
  obtains P pre' N post' st' where "pre = pre' @ P" "post = N @ post'" "free_row P" "free_row N" "span_of P \<le> b"
    "State_free st (b + 16) = Inr st'" "heap_ok st' (pre' @ (b - span_of P, s + span_of N + span_of P, False) # post')"
    "kept st (pre @ (b, s, True) # post) st' (pre' @ (b - span_of P, s + span_of N + span_of P, False) # post')"
    "P \<noteq> [] \<Longrightarrow> bsize st' b = s \<and> is_used st' b"
proof -
  let ?old = "pre @ (b, s, True) # post" and ?A = "addrs (pre @ (b, s, True) # post)"
  let ?L = "insert b (fst ` free_of ?old)"
  have mem: "(b, s, True) \<in> set ?old" by simp
  note hr = heap_reads [OF ok mem]
  obtain fl where reg: "region_ok st" and ce: "ceiling st = hend st - hstart st" and us: "hused st = used_of ?old"
    and blk: "blocks_ok (hstart st) (hend st) (hmem st) (\<lambda>c. hmem st (c + 8)) ?old" and spc: "spaced st ?A"
    using heap_okD [OF ok] by blast
  define h p where "h = hmem st" and "p = (\<lambda>c. hmem st (c + 8))"
  define st1 where "st1 = st\<lparr>hused := hused st - s, frees := wrap (frees st + 1)\<rparr>"
  have f1: "hstart st1 = hstart st" "hend st1 = hend st" "hmem st1 = hmem st" "bins st1 = bins st" "nonempty st1 = nonempty st"
    "ceiling st1 = ceiling st" "hused st1 = hused st - s" by (simp_all add: st1_def)
  have m0: "mid st st ?A ?L h p (free_of ?old)" unfolding h_def p_def by (rule mid_start [OF ok order_refl spc]) blast
  have m1: "mid st1 st1 ?A ?L h p (free_of ?old)" by (rule mid_reset [OF m0 f1(1-5)])
  have F: "free_of ?old = free_of pre \<union> free_of post" by simp
  have blk1: "blocks_ok (hstart st1) (hend st1) h p ?old" unfolding f1 h_def p_def by (rule blk)
  obtain N post' st2 where N: "post = N @ post'" "merge_next st1 b s = (s + span_of N, st2)" "calm True post'"
    "mid st1 st2 ?A ?L h p (free_of pre \<union> free_of post')" "N = [] \<or> (\<exists>t. N = [(b + s, t, False)])"
    by (rule mid_merge_next [OF m1 blk1 order_refl F])
  have G: "fst ` free_of post' \<subseteq> addrs post" using free_addrs [of post'] N(1) by auto
  obtain P pre' st3 where P: "pre = pre' @ P" "merge_prev st2 b (s + span_of N) = (s + span_of N + span_of P, b - span_of P, st3)"
    "\<not> last_free False pre'" "mid st1 st3 ?A ?L h p (free_of pre' \<union> free_of post')" "P = [] \<or> (\<exists>t. P = [(b - t, t, False)])"
    "span_of P \<le> b" "p (b - span_of P) = last_size 0 pre'" "b - span_of P \<in> ?A"
    by (rule mid_merge_prev [OF N(4) blk1 order_refl refl G, of "s + span_of N"])
  define k r where "k = b - span_of P" and "r = s + span_of N + span_of P"
  have blk2: "blocks_ok (hstart st1) (hend st1) h p (pre' @ P @ (b, s, True) # N @ post')" using blk1 P(1) N(1) by simp
  note mb = merge_blocks [OF blk2 P(6) k_def r_def P(7) [folded k_def] P(3) N(3)]
  let ?new = "pre' @ (k, r, False) # post'"
  have kA: "k \<in> ?A" unfolding k_def by (rule P(8))
  have r64: "r < 2 ^ 64" using mb(4) hr(7) unfolding f1(2) by linarith
  have kF: "k \<notin> fst ` (free_of pre' \<union> free_of post')" using mb(7,8) free_addrs by blast
  have kL: "k \<in> ?L" using P(5) unfolding k_def P(1) by force
  have m4: "mid st1 (set_head st3 k r False) ?A ?L (h(k := r)) p (free_of pre' \<union> free_of post')"
    using mid_head [OF P(4) kA mb(6), of False] by simp
  have hk: "(h(k := r)) k = r" "(h(k := r)) k = r + of_bool False" by simp_all
  have m5: "mid st1 (push (set_head st3 k r False) k) ?A ?L (h(k := r)) p (insert (k, r) (free_of pre' \<union> free_of post'))"
    by (rule mid_push [OF m4 kA hk(1) mb(6) r64 kF kL])
  have he: "hend (push (set_head st3 k r False) k) = hend st1" using mid_bounds [OF m5] by blast
  have eA: "k + r < hend st1 \<longrightarrow> k + r \<in> ?A" using tiles_head [OF mb(3)] N(1) by auto
  define st' where "st' = fix_follower (push (set_head st3 k r False) k) k"
  have Fn: "insert (k, r) (free_of pre' \<union> free_of post') = free_of ?new" by auto
  have m6: "mid st1 st' ?A ?L (h(k := r)) (if k + r < hend st1 then p(k + r := r) else p) (free_of ?new)"
    using mid_follow [OF m5 kA hk(2) mb(6)] mb(4) eA unfolding he Fn st'_def by blast
  have bk: "hstart st' = hstart st1 \<and> hend st' = hend st1" using mid_bounds [OF m6] by blast
  have sh: "same_heap st1 st'" and fr: "\<And>a. a \<notin> books ?A ?L \<Longrightarrow> hmem st' a = hmem st1 a"
    using m6 unfolding mid_def by blast+
  have hk: "heap_ok st' ?new"
  proof (rule heap_ok_mid [OF m6])
    show "addrs ?new \<subseteq> ?A" using kA P(1) N(1) by auto
    show "blocks_ok (hstart st') (hend st') (h(k := r)) (if k + r < hend st1 then p(k + r := r) else p) ?new"
      using mb(1) bk by simp
    show "ceiling st' = hend st' - hstart st'" using sh ce by (simp add: same_heap_def f1)
    have z: "used_of P = 0" "used_of N = 0" using P(5) N(5) by auto
    have "hused st' = used_of ?old - s" using sh by (simp add: same_heap_def f1 us)
    then show "hused st' = used_of ?new" using z P(1) N(1) by (simp add: row_append)
  qed
  have kp: "kept st ?old st' ?new"
  proof (rule keptI)
    show "hstart st' = hstart st" "hend st' = hend st" using bk by (simp_all add: f1)
    show "hmem st' a = hmem st a" if "a \<notin> books ?A ?L" for a using fr [OF that] by (simp add: f1)
    show "?L \<subseteq> ?A" using free_addrs [of ?old] by simp
    have tn: "tiles (hstart st) ?old (hend st)" "tiles (hstart st) ?new (hend st)" using blk mb(1) by (simp_all add: blocks_ok_def f1)
    have "(b, t, True) \<notin> set ?new" for t
    proof
      assume a: "(b, t, True) \<in> set ?new"
      have i: "(k, r, False) \<in> set ?new" by simp
      have "k \<le> b" "b < k + r" using P(6) hr(4) unfolding k_def r_def by linarith+
      moreover have "k \<noteq> b" using tiles_unique [OF tn(2) a, of r False] i by blast
      ultimately show False using tiles_apart [OF tn(2) i a] by linarith
    qed
    then show "?L \<inter> spared ?old ?new = {}" using spared_free(1) [OF tn] by (auto simp: spared_def)
  qed blast
  have fe: "State_free st (b + 16) = Inr st'"
    unfolding st'_def
  proof (rule free_eq [OF refl _ _ hr(1) _ N(2) [unfolded st1_def] _ _ _ P(2) [folded k_def r_def]])
    show "b + 16 < 2 ^ 64" "b + s < 2 ^ 64" using hr by linarith+
    show "plausible st b" unfolding plausible_def Let_def using hr by (simp add: heap_nums uadd_def)
    show "s + span_of N < 2 ^ 64" "r < 2 ^ 64" using r64 unfolding r_def by linarith+
    have "prev_size st2 b = p b" by (rule mid_reads(3) [OF N(4) _ heads_at [OF _ mem] hr(3)]) (use blk1 in \<open>simp_all add: blocks_ok_def\<close>)
    also have "p b = last_size 0 pre" using blk1 by (auto simp: blocks_ok_def row_append)
    finally have q: "prev_size st2 b = last_size 0 pre" .
    have "tiles (hstart st) pre b" using tiles_middle [of "hstart st" pre b s True post "hend st"] blk unfolding blocks_ok_def by blast
    moreover have "hstart st2 = hstart st" using mid_bounds [OF N(4)] f1(1) by simp
    ultimately show "prev_size st2 b \<le> b" "prev_size st2 b \<noteq> 0 \<Longrightarrow> hstart st2 \<le> b - prev_size st2 b"
      using last_size_le [of "hstart st" pre b] unfolding q by simp_all
  qed
  have stale: "bsize st' b = s \<and> is_used st' b" if ne: "P \<noteq> []"
  proof -
    obtain t where t: "P = [(b - t, t, False)]" using ne P(5) by blast
    have "tiles (hstart st) ?old (hend st)" using blk by (simp add: blocks_ok_def)
    from tiles_bounds [OF this, of "b - t" t False] have "32 \<le> t" using t P(1) by simp
    then have "k \<noteq> b" using P(6) t unfolding k_def by simp
    then have hb: "(h(k := r)) b = s + of_bool True" using heads_at [OF _ mem] blk1 by (simp add: blocks_ok_def)
    show ?thesis using mid_reads(1,2) [OF m6 _ hb hr(3)] by simp
  qed
  have "free_row P" "free_row N" using P(5) N(5) unfolding free_row_def by blast+
  then show thesis using that [OF P(1) N(1)] P(6) fe hk kp stale unfolding k_def r_def by blast
qed

end
