(* ===== verification/HeapCheck.thy ===== *)
theory HeapCheck
  imports HeapOps
begin

unbundle bit_operations_syntax

text \<open>
  A fresh heap is well-formed, and the walk of \<^verbatim>\<open>check\<close> accepts every well-formed heap.
\<close>

section \<open>Creating a heap\<close>

lemma lists_ok_empty:
  "lists_ok n v (replicate BINS NIL) (replicate ((BINS + 63) div 64) 0) {} (\<lambda>_. [])"
proof -
  have "\<not> bit_at (replicate k 0) i" for k i by (auto simp: bit_at_def)
  then show ?thesis unfolding lists_ok_def by (simp add: heap_nums)
qed

lemma init_spec:
  assumes r: "s = align_down (a + 15) 16" "e = align_down b 16" and b: "a + 15 < 2 ^ 64" "b < 2 ^ 64" and s: "s \<noteq> 0" "s + 32 \<le> e"
  shows "heap_ok (State_init st0 a b) [(s, e - s, False)]" "hstart (State_init st0 a b) = s" "hend (State_init st0 a b) = e"
proof -
  define st where "st = (State_empty (hmem st0))\<lparr>hstart := s, hend := e, ceiling := e - s\<rparr>"
  have f: "hstart st = s" "hend st = e" "ceiling st = e - s" "bins st = replicate BINS NIL"
    "nonempty st = replicate ((BINS + 63) div 64) 0" "hused st = 0"
    by (simp_all add: st_def State_empty_def)
  have m16: "s mod 16 = 0" "e mod 16 = 0" unfolding r align_down_def by simp_all
  have e64: "e < 2 ^ 64" using b(2) div_mult_mod_eq [of b 16] unfolding r(2) align_down_def by linarith
  have lt: "0 < s" "s < e" using s by simp_all
  have reg: "region_ok st" unfolding region_ok_def f using lt m16 e64 by blast
  have spc: "spaced st {s}" using s(2) m16 by (simp add: spaced_def site_def f)
  have m0: "mid st st {s} {s} (hmem st) (\<lambda>c. hmem st (c + 8)) {}"
    by (rule midI [OF _ _ _ sees_self [OF reg spc] lists_ok_empty [folded f(4,5)]]) (simp_all add: same_heap_def frees_ok_def)
  let ?z = "e - s"
  have z: "?z mod 16 = 0" using m16 s(2) by presburger
  have z64: "?z < 2 ^ 64" using e64 by linarith
  have m1: "mid st (set_head st s ?z False) {s} {s} ((hmem st)(s := ?z)) (\<lambda>c. hmem st (c + 8)) {}"
    using mid_head [OF m0 _ z, of s False] by simp
  define p where "p = (\<lambda>c. hmem st (c + 8))(s := 0)"
  have m2: "mid st (set_prev_size (set_head st s ?z False) s 0) {s} {s} ((hmem st)(s := ?z)) p {}"
    unfolding p_def by (rule mid_prev [OF m1]) simp
  define st' where "st' = push (set_prev_size (set_head st s ?z False) s 0) s"
  have hs: "((hmem st)(s := ?z)) s = ?z" by simp
  have m3: "mid st st' {s} {s} ((hmem st)(s := ?z)) p {(s, ?z)}"
    unfolding st'_def by (rule mid_push [OF m2 _ hs z z64]) simp_all
  have sh: "same_heap st st'" using m3 unfolding mid_def by blast
  have eq: "State_init st0 a b = st'"
  proof -
    have u: "uadd a (GRAIN - 1) = Some (a + 15)" using b(1) by (simp add: uadd_eq GRAIN_def)
    have al: "align_down (a + 15) GRAIN = s" "align_down b GRAIN = e" unfolding r GRAIN_def by (rule refl)+
    have c: "s \<noteq> 0 \<and> s \<le> e \<and> MIN_BLOCK \<le> e - s" using s by (simp add: heap_nums)
    show ?thesis
      unfolding State_init_def Let_def u option.map al option.case if_P [OF c] st'_def st_def ..
  qed
  have g: "hstart st' = s" "hend st' = e" "ceiling st' = e - s" "hused st' = 0" using sh f by (simp_all add: same_heap_def)
  have fo: "free_of [(s, ?z, False)] = {(s, ?z)}" by simp
  show "hstart (State_init st0 a b) = s" "hend (State_init st0 a b) = e" unfolding eq by (rule g(1), rule g(2))
  show "heap_ok (State_init st0 a b) [(s, e - s, False)]" unfolding eq
  proof (rule heap_ok_mid [OF m3 [folded fo]])
    show "blocks_ok (hstart st') (hend st') ((hmem st)(s := ?z)) p [(s, ?z, False)]"
      unfolding g blocks_ok_def using s z by (simp add: p_def)
  qed (simp_all add: g)
qed

section \<open>The check\<close>

fun walk_add :: "Walk \<Rightarrow> blk list \<Rightarrow> Walk" where
  "walk_add w [] = w"
| "walk_add w ((b, s, u) # bs) =
     walk_add (if u then w\<lparr>blocks := blocks w + 1\<rparr>
       else w\<lparr>blocks := blocks w + 1, free_blocks := free_blocks w + 1, free_bytes := free_bytes w + s,
              largest_free := max (largest_free w) s\<rparr>) bs"

definition frees_in :: "blk list \<Rightarrow> nat" where
  "frees_in bs = length (filter (\<lambda>(b, s, u). \<not> u) bs)"

lemma walk_add_free: "free_blocks (walk_add w bs) = free_blocks w + frees_in bs"
  by (induction w bs rule: walk_add.induct) (auto simp: frees_in_def)

lemma check_blocks_row:
  assumes ok: "heap_ok st (pre @ bs)"
  shows "check_blocks st (hstart st + span_of pre) (last_size 0 pre) (last_free False pre) used w =
     Inr (hend st, used + used_of bs, walk_add w bs)"
  using ok
proof (induction bs arbitrary: pre used w)
  case Nil
  obtain fl where "blocks_ok (hstart st) (hend st) (hmem st) (\<lambda>c. hmem st (c + 8)) (pre @ [])"
    using heap_okD [OF Nil] by blast
  then have "hend st = hstart st + span_of pre" using tiles_span [of "hstart st" pre "hend st"] by (simp add: blocks_ok_def)
  then show ?case by (simp add: check_blocks.simps)
next
  case (Cons x bs)
  obtain b s u where x: "x = (b, s, u)" by (cases x)
  have mem: "(b, s, u) \<in> set (pre @ x # bs)" using x by simp
  note hr = heap_reads [OF Cons.prems mem]
  obtain fl where reg: "region_ok st" and spc: "spaced st (addrs (pre @ x # bs))"
    and blk: "blocks_ok (hstart st) (hend st) (hmem st) (\<lambda>c. hmem st (c + 8)) (pre @ x # bs)"
    using heap_okD [OF Cons.prems] by blast
  have b: "b = hstart st + span_of pre" and pv: "hmem st (b + 8) = last_size 0 pre" and ca: "\<not> (last_free False pre \<and> \<not> u)"
    using blk unfolding blocks_ok_def x by (auto simp: row_append)
  have "b \<in> addrs (pre @ x # bs)" using x by simp
  then have ps: "prev_size st b = last_size 0 pre" using sees_reads(2) [OF sees_self [OF reg spc]] pv by simp
  have ua: "uadd b s = Some (b + s)" using hr(6,7) unfolding uadd_eq by linarith
  have lt: "b < hend st" using hr(4,6) by linarith
  have g1: "\<not> (s < MIN_BLOCK \<or> b mod GRAIN \<noteq> 0 \<or> (case uadd b s of None \<Rightarrow> True | Some e \<Rightarrow> e > hend st))"
    unfolding ua option.case using hr(4,6,8) by (simp add: heap_nums)
  have g2: "\<not> last_size 0 pre \<noteq> last_size 0 pre" by simp
  have g3: "\<not> (\<not> u \<and> last_free False pre)" using ca by blast
  note step = check_blocks.simps [of st b "last_size 0 pre" "last_free False pre" used w,
      unfolded if_P [OF lt] Let_def hr(1,2) if_not_P [OF g1] ps if_not_P [OF g2] if_not_P [OF g3]]
  have a: "pre @ x # bs = (pre @ [x]) @ bs" by simp
  have e: "hstart st + span_of (pre @ [x]) = b + s" "last_size 0 (pre @ [x]) = s" "last_free False (pre @ [x]) = (\<not> u)"
    using b x by (simp_all add: row_append last_free_append)
  note IH = Cons.IH [OF Cons.prems [unfolded a], unfolded e]
  show ?case unfolding b [symmetric] step using IH x by (cases u) simp_all
qed

lemma mask_marked:
  assumes "bit_at ws i" "length ws = 3"
  shows "\<exists>w. list_get ws (i div 64) = Some w \<and> w AND push_bit (i mod 64) 1 \<noteq> 0"
proof -
  let ?w = "ws ! (i div 64)"
  have b: "i div 64 < length ws" "bit ?w (i mod 64)" using assms(1) by (auto simp: bit_at_def)
  have "bit (?w AND push_bit (i mod 64) 1) (i mod 64)"
    using b(2) by (simp add: bit_and_iff bit_push_bit_iff bit_exp_iff)
  then have "?w AND push_bit (i mod 64) 1 \<noteq> 0" by (metis bit_0_eq bot_apply bot_bool_def)
  then show ?thesis using b(1) by (simp add: list_get_def)
qed

lemma check_list_spec:
  assumes "dl n v q L" "NIL \<notin> set L"
    and c: "\<And>c. c \<in> set L \<Longrightarrow> plausible_free st c \<and> bin_of (bsize st c) = i \<and> next_free st c = n c \<and> prev_free st c = v c"
    and m: "L \<noteq> [] \<Longrightarrow> \<exists>w. list_get (nonempty st) (i div 64) = Some w \<and> w AND push_bit (i mod 64) 1 \<noteq> 0"
    and "listed + length L \<le> nfree"
  shows "check_list st nfree i (hd0 L) q listed = Inr (listed + length L)"
  using assms
proof (induction L arbitrary: q listed)
  case Nil
  then show ?case by (simp add: check_list.simps)
next
  case (Cons b L)
  have d: "v b = q" "n b = hd0 L" "dl n v b L" and b: "b \<noteq> NIL" using Cons.prems(1,2) by auto
  have cb: "plausible_free st b" "bin_of (bsize st b) = i" "next_free st b = n b" "prev_free st b = v b"
    using Cons.prems(3) [of b] by simp_all
  obtain w where w: "list_get (nonempty st) (i div 64) = Some w" "w AND push_bit (i mod 64) 1 \<noteq> 0"
    using Cons.prems(4) by blast
  have le: "listed + 1 + length L \<le> nfree" using Cons.prems(5) by simp
  have "check_list st nfree i (hd0 (b # L)) q listed = check_list st nfree i (hd0 L) b (listed + 1)"
    using b cb w d le by (simp add: check_list.simps [of st nfree i b])
  also have "\<dots> = Inr (listed + 1 + length L)"
    by (rule Cons.IH [OF d(3) _ _ _ le]) (use Cons.prems(2-4) w in auto)
  finally show ?case by simp
qed

lemma check_lists_spec:
  assumes see: "sees st A h p n v" and F: "frees_ok F" "fst ` F \<subseteq> A" "finite F"
    and ok: "lists_ok n v (bins st) (nonempty st) F fl"
    and c: "\<And>c s. (c, s) \<in> F \<Longrightarrow> plausible_free st c \<and> bsize st c = s"
    and nf: "nfree = card F"
  shows "i \<le> BINS \<Longrightarrow> listed + card (above i F) = nfree \<Longrightarrow> check_lists st nfree i (drop i (bins st)) listed = Inr nfree"
proof (induction "BINS - i" arbitrary: i listed)
  case 0
  have "bin_of s < i" if "(c, s) \<in> F" for c s
  proof -
    have "s < 2 ^ 64" using F(1) that unfolding frees_ok_def by blast
    then show ?thesis using bin_of_bound [of s] 0 by linarith
  qed
  then have "above i F = {}" unfolding above_def by fastforce
  then show ?case using 0 lists_okD(1) [OF ok] by simp
next
  case (Suc k)
  have i: "i < BINS" using Suc.hyps(2) by linarith
  then have dr: "drop i (bins st) = hd0 (fl i) # drop (i + 1) (bins st)"
    using lists_okD(1) [OF ok] lists_okD(3) [OF ok i] Cons_nth_drop_Suc [of i "bins st"] by simp
  have cd: "card (above i F) = length (fl i) + card (above (i + 1) F)"
    by (rule card_class [OF ok F(1,3) order_refl]) simp
  have "check_list st nfree i (hd0 (fl i)) NIL listed = Inr (listed + length (fl i))"
  proof (rule check_list_spec [OF lists_okD(5) [OF ok, of i] NIL_not_listed [OF ok F(1)]])
    fix x
    assume x: "x \<in> set (fl i)"
    then obtain s where s: "(x, s) \<in> F" "bin_of s = i" using lists_okD(7) [OF ok, of x i] by blast
    have "x \<in> A" using s(1) F(2) by force
    then show "plausible_free st x \<and> bin_of (bsize st x) = i \<and> next_free st x = n x \<and> prev_free st x = v x"
      using c [OF s(1)] s(2) sees_reads(3,4) [OF see] by simp
  next
    assume "fl i \<noteq> []"
    then show "\<exists>w. list_get (nonempty st) (i div 64) = Some w \<and> w AND push_bit (i mod 64) 1 \<noteq> 0"
      using mask_marked lists_okD(2) [OF ok] lists_okD(4) [OF ok, of i] by blast
  next
    show "listed + length (fl i) \<le> nfree" using Suc.prems(2) cd by linarith
  qed
  moreover have "check_lists st nfree (i + 1) (drop (i + 1) (bins st)) (listed + length (fl i)) = Inr nfree"
    by (rule Suc.hyps(1)) (use Suc.hyps(2) Suc.prems(2) cd i in linarith)+
  ultimately show ?case unfolding dr by simp
qed

lemma card_frees: "tiles a bs e \<Longrightarrow> card (free_of bs) = frees_in bs"
proof (induction bs arbitrary: a)
  case (Cons x bs)
  obtain b s u where x: "x = (b, s, u)" by (cases x)
  have t: "tiles (a + s) bs e" using Cons.prems x by auto
  have "(b, s) \<notin> free_of bs" using tiles_distinct [OF Cons.prems] x by (force simp: free_of_def)
  moreover have "finite (free_of bs)"
    by (rule finite_subset [of _ "(\<lambda>(b, s, u). (b, s)) ` set bs"]) (force simp: free_of_def, simp)
  ultimately show ?case using Cons.IH [OF t] x by (simp add: frees_in_def)
qed (simp add: frees_in_def)

lemma check_spec:
  assumes ok: "heap_ok st bs"
  shows "State_check st = Inr (walk_add \<lparr>blocks = 0, free_blocks = 0, free_bytes = 0, largest_free = 0\<rparr> bs)"
proof -
  let ?w = "\<lparr>blocks = 0, free_blocks = 0, free_bytes = 0, largest_free = 0\<rparr>" and ?F = "free_of bs"
  obtain fl where reg: "region_ok st" and ce: "ceiling st = hend st - hstart st" and us: "hused st = used_of bs"
    and blk: "blocks_ok (hstart st) (hend st) (hmem st) (\<lambda>c. hmem st (c + 8)) bs" and spc: "spaced st (addrs bs)"
    and ls: "lists_ok (\<lambda>c. hmem st (c + 16)) (\<lambda>c. hmem st (c + 24)) (bins st) (nonempty st) ?F fl"
    using heap_okD [OF ok] by blast
  have tl: "tiles (hstart st) bs (hend st)" using blk by (simp add: blocks_ok_def)
  have h0: "\<not> hstart st = 0" using reg by (simp add: region_ok_def)
  have cb: "check_blocks st (hstart st) 0 False 0 ?w = Inr (hend st, used_of bs, walk_add ?w bs)"
    using check_blocks_row [of st "[]" bs 0 ?w] ok by simp
  have nf: "free_blocks (walk_add ?w bs) = card ?F" by (simp add: walk_add_free card_frees [OF tl])
  have fin: "finite ?F" by (rule finite_subset [of _ "(\<lambda>(b, s, u). (b, s)) ` set bs"]) (force simp: free_of_def, simp)
  have pl: "plausible_free st c \<and> bsize st c = s" if "(c, s) \<in> ?F" for c s
  proof -
    have "(c, s, False) \<in> set bs" using that by (simp add: free_of_def)
    note hr = heap_reads [OF ok this]
    show ?thesis unfolding plausible_free_def using hr(1,2,4,5,6,8) by (simp add: GRAIN_def)
  qed
  have "above 0 ?F = ?F" by (simp add: above_def)
  then have "check_lists st (card ?F) 0 (drop 0 (bins st)) 0 = Inr (card ?F)"
    by (intro check_lists_spec [OF sees_self [OF reg spc] free_of_ok(1,2) [OF reg tl] fin ls pl refl]) simp_all
  then have bi: "check_bins st (card ?F) = Inr ()" by (simp add: check_bins_def)
  have "used_of bs \<le> hend st - hstart st" using used_span [of bs] tiles_span [OF tl] by simp
  then show ?thesis unfolding State_check_def Let_def if_not_P [OF h0] cb rbind.simps prod.case nf bi using us ce by simp
qed

end
