(* ===== verification/HeapReach.thy ===== *)
theory HeapReach
  imports HeapCheck
begin

text \<open>
  The heap in use: \<open>heap_reach st live\<close> holds when \<open>st\<close> is a state of a heap whose clients hold exactly the
  blocks of \<open>live\<close> (body address to requested size and alignment).  Clients may write anywhere inside
  their blocks between the calls.
\<close>

type_synonym lives = "nat \<Rightarrow> (nat \<times> nat) option"

inductive heap_reach :: "HState \<Rightarrow> lives \<Rightarrow> bool" where
  reach_init: "a < 2 ^ 64 \<Longrightarrow> b < 2 ^ 64 \<Longrightarrow> heap_reach (State_init st0 a b) (\<lambda>_. None)"
| reach_alloc: "heap_reach st live \<Longrightarrow> State_alloc st n align = Inr (Some x, st') \<Longrightarrow> heap_reach st' (live(x \<mapsto> (n, align)))"
| reach_full: "heap_reach st live \<Longrightarrow> State_alloc st n align = Inr (None, st') \<Longrightarrow> heap_reach st' live"
| reach_free: "heap_reach st live \<Longrightarrow> live x \<noteq> None \<Longrightarrow> State_free st x = Inr st' \<Longrightarrow> heap_reach st' (live(x := None))"
| reach_write: "heap_reach st live \<Longrightarrow> live x = Some (n, align) \<Longrightarrow> x \<le> a \<Longrightarrow> a < x + n \<Longrightarrow>
    heap_reach (st\<lparr>hmem := (hmem st)(a := v)\<rparr>) live"

section \<open>Blocks in use and live requests\<close>

definition bodies :: "blk list \<Rightarrow> (nat \<times> nat) set" where
  "bodies bs = {(b + 16, s) | b s. (b, s, True) \<in> set bs}"

definition live_ok :: "blk list \<Rightarrow> lives \<Rightarrow> bool" where
  "live_ok bs live \<longleftrightarrow> dom live = fst ` bodies bs \<and>
     (\<forall>x n al s. live x = Some (n, al) \<and> (x, s) \<in> bodies bs \<longrightarrow> n + 16 \<le> s \<and> x mod al = 0)"

definition heap_inv :: "HState \<Rightarrow> lives \<Rightarrow> bool" where
  "heap_inv st live \<longleftrightarrow> (hstart st = 0 \<and> hend st = 0 \<and> hused st = 0 \<and> live = (\<lambda>_. None)) \<or> (\<exists>bs. heap_ok st bs \<and> live_ok bs live)"

lemma bodies_append [simp]: "bodies (xs @ ys) = bodies xs \<union> bodies ys" "bodies [] = {}"
  "bodies ((b, s, True) # xs) = insert (b + 16, s) (bodies xs)" "bodies ((b, s, False) # xs) = bodies xs"
  by (auto simp: bodies_def)

lemma heap_row:
  assumes "heap_ok st bs"
  shows "tiles (hstart st) bs (hend st)" "region_ok st" "spaced st (addrs bs)"
proof -
  obtain fl where r: "region_ok st" "spaced st (addrs bs)"
    and b: "blocks_ok (hstart st) (hend st) (hmem st) (\<lambda>c. hmem st (c + 8)) bs"
    using heap_okD [OF assms] by blast
  show "region_ok st" "spaced st (addrs bs)" by (rule r)+
  show "tiles (hstart st) bs (hend st)" using b by (simp add: blocks_ok_def)
qed

text \<open>A word inside a block in use is none of the allocator's own.\<close>

lemma body_not_book:
  assumes t: "tiles lo bs hi" and c: "(c, s, True) \<in> set bs" "c + 16 \<le> a" "a < c + s"
    and A: "A \<subseteq> addrs bs" and L: "L \<subseteq> A" "c \<notin> L"
  shows "a \<notin> books A L"
proof -
  have far: "x + 32 \<le> c \<or> x = c \<or> c + s \<le> x" if x: "x \<in> A" for x
  proof -
    obtain y u where y: "(x, y, u) \<in> set bs" using x A by (force simp: addrs_def)
    show ?thesis
    proof (cases x c rule: linorder_cases)
      case less
      then show ?thesis using tiles_apart [OF t y c(1)] tiles_bounds [OF t y] by linarith
    next
      case greater
      then show ?thesis using tiles_apart [OF t c(1) y] by blast
    qed blast
  qed
  have "a \<noteq> x" "a \<noteq> x + 8" if "x \<in> A" for x using far [OF that] c(2,3) by linarith+
  moreover have "a \<noteq> x + 16" "a \<noteq> x + 24" if "x \<in> L" for x
  proof -
    have "x \<noteq> c" using that L(2) by blast
    then show "a \<noteq> x + 16" "a \<noteq> x + 24" using far [of x] that L(1) c(2,3) by auto
  qed
  ultimately show ?thesis unfolding books_def links_at_def by blast
qed

lemma heap_ok_write:
  assumes ok: "heap_ok st bs" and c: "(c, s, True) \<in> set bs" "c + 16 \<le> a" "a < c + s"
  shows "heap_ok (st\<lparr>hmem := (hmem st)(a := v)\<rparr>) bs"
proof -
  let ?m = "(hmem st)(a := v)"
  note row = heap_row [OF ok]
  obtain fl where ce: "ceiling st = hend st - hstart st" "hused st = used_of bs"
    and b: "blocks_ok (hstart st) (hend st) (hmem st) (\<lambda>c. hmem st (c + 8)) bs"
    and l: "lists_ok (\<lambda>c. hmem st (c + 16)) (\<lambda>c. hmem st (c + 24)) (bins st) (nonempty st) (free_of bs) fl"
    using heap_okD [OF ok] by blast
  have "c \<notin> fst ` free_of bs" using tiles_unique [OF row(1) c(1)] by (force simp: free_of_def)
  then have nb: "a \<notin> books (addrs bs) (fst ` free_of bs)"
    by (intro body_not_book [OF row(1) c order_refl free_addrs])
  have 1: "blocks_ok (hstart st) (hend st) ?m (\<lambda>c. ?m (c + 8)) bs"
  proof -
    have "heads ?m bs = heads (hmem st) bs" by (rule rows_cong(1)) (use nb in \<open>auto simp: books_def\<close>)
    moreover have "prevs (\<lambda>c. ?m (c + 8)) 0 bs = prevs (\<lambda>c. hmem st (c + 8)) 0 bs"
      by (rule rows_cong(2)) (use nb in \<open>auto simp: books_def\<close>)
    ultimately show ?thesis using b unfolding blocks_ok_def by blast
  qed
  have 2: "lists_ok (\<lambda>c. ?m (c + 16)) (\<lambda>c. ?m (c + 24)) (bins st) (nonempty st) (free_of bs) fl"
    by (rule lists_ok_cong [OF l]) (use nb in \<open>force simp: books_def links_at_def\<close>)
  show ?thesis unfolding heap_ok_def using row(2) ce 1 2 by (auto simp: region_ok_def)
qed

section \<open>Every step keeps the invariant\<close>

lemma kept_body:
  assumes k: "kept st bs st' bs'" and t: "tiles lo bs'' hi" "addrs bs \<union> addrs bs' \<subseteq> addrs bs''" "(c, s, True) \<in> set bs''"
    and c: "(c, s, True) \<in> set bs" "(c, s, True) \<in> set bs'" "c + 16 \<le> a" "a < c + s"
  shows "hmem st' a = hmem st a"
proof -
  have "c \<in> spared bs bs'" using c(1,2) unfolding spared_def by blast
  then have "a \<notin> books (addrs bs \<union> addrs bs') (addrs bs \<union> addrs bs' - spared bs bs')"
    by (intro body_not_book [OF t(1,3) c(3,4) t(2)]) blast+
  then show ?thesis using k unfolding kept_def by blast
qed

lemma heap_alloc_cases:
  assumes ok: "heap_ok st bs"
  obtains (taken) x st' bs' need where "State_alloc st n align = Inr (Some x, st')" "block_need n = Some need"
      "is_pow2 align" "align \<le> 4096" "taken_at st bs need align x st' bs'"
  | (full) f where "State_alloc st n align = Inr (None, st\<lparr>failed := f\<rparr>)"
      "\<And>need. is_pow2 align \<Longrightarrow> align \<le> 4096 \<Longrightarrow> block_need n = Some need \<Longrightarrow> hend st + 8192 \<le> 2 ^ 64 \<Longrightarrow> \<not> room bs need align"
proof (cases "is_pow2 align \<and> align \<le> 4096 \<and> block_need n \<noteq> None")
  case True
  then obtain need where a: "is_pow2 align" "align \<le> 4096" and n: "block_need n = Some need" by blast
  show thesis
  proof (rule try_alloc_spec [OF ok a n])
    fix x st' bs'
    assume t: "try_alloc st n align = Inr (Some x, st')" "taken_at st bs need align x st' bs'"
    have "State_alloc st n align = Inr (Some x, st')" by (simp add: State_alloc_def t(1))
    then show thesis using taken n a t(2) by blast
  next
    assume t: "try_alloc st n align = Inr (None, st)" "hend st + 8192 \<le> 2 ^ 64 \<longrightarrow> \<not> room bs need align"
    have "State_alloc st n align = Inr (None, st\<lparr>failed := wrap (failed st + 1)\<rparr>)" by (simp add: State_alloc_def t(1))
    then show thesis using full t(2) n by auto
  qed
next
  case False
  have "try_alloc st n align = Inr (None, st)"
    unfolding try_alloc_def using False by (auto simp: MAX_ALIGN_def)
  then have "State_alloc st n align = Inr (None, st\<lparr>failed := wrap (failed st + 1)\<rparr>)" by (simp add: State_alloc_def)
  then show thesis using full False by auto
qed

lemma heap_ok_counters: "heap_ok (st\<lparr>failed := f\<rparr>) bs = heap_ok st bs" "heap_ok (st\<lparr>bad_frees := f\<rparr>) bs = heap_ok st bs"
  by (simp_all add: heap_ok_def region_ok_def)

lemma empty_ops:
  assumes "hstart st = 0" "hend st = 0"
  shows "State_alloc st n align = Inr (None, st\<lparr>failed := wrap (failed st + 1)\<rparr>)"
    "State_free st p = Inr (st\<lparr>bad_frees := wrap (bad_frees st + 1)\<rparr>)"
  using assms by (simp_all add: State_alloc_def try_alloc_def State_free_def plausible_def Let_def)

lemma cut_bodies: "bodies (cut b s gap need) = {(b + gap + 16, taken_of (s - gap) need)}"
  by (auto simp: cut_def gap_row_def rest_row_def bodies_def)

lemma taken_live:
  assumes t: "taken_at st bs need align x st' bs'" and n: "block_need n = Some need" "is_pow2 align" and l: "live_ok bs live"
  shows "live_ok bs' (live(x \<mapsto> (n, align)))" "live x = None"
proof -
  obtain pre b s post gap where e: "bs = pre @ (b, s, False) # post" "cut_ok s gap need" "gap_ok b (max align 16) gap" "x = b + gap + 16"
    "bs' = pre @ cut b s gap need @ post" and ok: "heap_ok st' bs'"
    using t unfolding taken_at_def by blast
  let ?t = "taken_of (s - gap) need"
  have bo: "bodies bs' = insert (x, ?t) (bodies bs)" unfolding e(1,4,5) bodies_append cut_bodies by blast
  have "distinct (map fst bs')" by (rule tiles_distinct [OF heap_row(1) [OF ok]])
  then have nx: "b + gap \<notin> fst ` set (pre @ post)" unfolding e(5) cut_def by auto
  have fr: "(x, s') \<notin> bodies bs" for s'
  proof
    assume "(x, s') \<in> bodies bs"
    then have "(b + gap, s', True) \<in> set (pre @ post)" unfolding e(1,4) bodies_def by auto
    then show False using nx by force
  qed
  have d: "dom live = fst ` bodies bs" using l by (simp add: live_ok_def)
  show "live x = None" using fr d by (force simp: domIff)
  have "need \<le> ?t" by (rule cut_taken(1) [OF e(2)])
  then have big: "n + 16 \<le> ?t" using block_need_ok(3) [OF n(1)] by linarith
  have "(b + 16 + gap) mod max align 16 = 0" using e(3) by (simp add: gap_ok_def)
  then have "align dvd b + 16 + gap" using is_pow2_16(2) [OF n(2)] by (meson dvd_trans mod_eq_0_iff_dvd)
  moreover have "b + 16 + gap = x" using e(4) by simp
  ultimately have al: "x mod align = 0" by (metis dvd_imp_mod_0)
  show "live_ok bs' (live(x \<mapsto> (n, align)))"
    unfolding live_ok_def
  proof (intro conjI allI impI)
    show "dom (live(x \<mapsto> (n, align))) = fst ` bodies bs'" unfolding bo using d by simp
    fix y m al' s'
    assume h: "(live(x \<mapsto> (n, align))) y = Some (m, al') \<and> (y, s') \<in> bodies bs'"
    show "m + 16 \<le> s'"
    proof (cases "y = x")
      case True
      then show ?thesis using h big fr unfolding bo by auto
    next
      case False
      then show ?thesis using h l unfolding bo live_ok_def by auto
    qed
    show "y mod al' = 0"
    proof (cases "y = x")
      case True
      then show ?thesis using h al by auto
    next
      case False
      then show ?thesis using h l unfolding bo live_ok_def by auto
    qed
  qed
qed

lemma live_block:
  assumes "live_ok bs live" "live x = Some (n, al)"
  obtains b s where "(b, s, True) \<in> set bs" "x = b + 16" "n + 16 \<le> s" "x mod al = 0"
proof -
  have "x \<in> fst ` bodies bs" using assms unfolding live_ok_def by blast
  then obtain b s where b: "(b, s, True) \<in> set bs" "x = b + 16" unfolding bodies_def by auto
  then have m: "(x, s) \<in> bodies bs" unfolding bodies_def by blast
  note r = conjunct2 [OF assms(1) [unfolded live_ok_def], rule_format, OF conjI [OF assms(2) m]]
  show thesis by (rule that [OF b conjunct1 [OF r] conjunct2 [OF r]])
qed

definition released :: "HState \<Rightarrow> blk list \<Rightarrow> nat \<Rightarrow> HState \<Rightarrow> blk list \<Rightarrow> bool" where
  "released st bs x st' bs' \<longleftrightarrow> heap_ok st' bs' \<and> kept st bs st' bs' \<and> addrs bs' \<subseteq> addrs bs \<and>
     (\<forall>b s. (b, s, True) \<in> set bs' \<longleftrightarrow> (b, s, True) \<in> set bs \<and> b + 16 \<noteq> x)"

lemma free_cases:
  assumes ok: "heap_ok st bs" and b: "(b, s, True) \<in> set bs"
  obtains st' bs' where "State_free st (b + 16) = Inr st'" "released st bs (b + 16) st' bs'"
proof -
  obtain pre post where sp: "bs = pre @ (b, s, True) # post" using split_list [OF b] by blast
  obtain P pre' N post' st' where f: "pre = pre' @ P" "post = N @ post'" "free_row P" "free_row N" "span_of P \<le> b"
    "State_free st (b + 16) = Inr st'" "heap_ok st' (pre' @ (b - span_of P, s + span_of N + span_of P, False) # post')"
    "kept st bs st' (pre' @ (b - span_of P, s + span_of N + span_of P, False) # post')"
    using free_spec [OF ok [unfolded sp], folded sp] by metis
  let ?new = "pre' @ (b - span_of P, s + span_of N + span_of P, False) # post'"
  note tl = heap_row(1) [OF ok]
  have di: "distinct (map fst bs)" by (rule tiles_distinct [OF tl])
  have "b - span_of P \<in> addrs bs"
  proof (cases "P = []")
    case True
    then show ?thesis by (simp add: sp)
  next
    case False
    then obtain c t where P: "P = [(c, t, False)]" using f(3) by (auto simp: free_row_def)
    have "c + t = b" using tl unfolding sp f(1) P by (auto simp: row_append)
    then have "b - span_of P = c" using P by auto
    then show ?thesis by (simp add: sp f(1) P)
  qed
  then have a: "addrs ?new \<subseteq> addrs bs" by (auto simp: sp f(1,2))
  have u: "(c, t, True) \<notin> set P \<and> (c, t, True) \<notin> set N" for c t using f(3,4) by (auto simp: free_row_def)
  have "(c, t, True) \<in> set ?new \<longleftrightarrow> (c, t, True) \<in> set bs \<and> c + 16 \<noteq> b + 16" for c t
  proof (cases "c = b")
    case True
    have "b \<notin> fst ` set pre" "b \<notin> fst ` set post" using di unfolding sp by auto
    then have "(b, t, True) \<notin> set pre" "(b, t, True) \<notin> set post" by force+
    then show ?thesis unfolding True f(1,2) by auto
  next
    case False
    then show ?thesis using u unfolding sp f(1,2) by auto
  qed
  then show thesis using that [OF f(6)] f(7,8) a unfolding released_def by blast
qed

text \<open>The header of a block that was merged into its predecessor stays behind, with its mark of a block in use.\<close>

lemma free_leaves_header:
  assumes ok: "heap_ok st bs" and bs: "bs = pre @ (a, t, False) # (b, s, True) # post" and f: "State_free st (b + 16) = Inr st'"
  shows "bsize st' b = s" "is_used st' b" "hstart st' = hstart st" "hend st' = hend st"
proof -
  have sp: "bs = (pre @ [(a, t, False)]) @ (b, s, True) # post" using bs by simp
  obtain P pre' N post' st'' where g: "pre @ [(a, t, False)] = pre' @ P" "State_free st (b + 16) = Inr st''"
    "heap_ok st'' (pre' @ (b - span_of P, s + span_of N + span_of P, False) # post')"
    "kept st bs st'' (pre' @ (b - span_of P, s + span_of N + span_of P, False) # post')"
    "P \<noteq> [] \<Longrightarrow> bsize st'' b = s \<and> is_used st'' b"
    using free_spec [OF ok [unfolded sp], folded sp] by metis
  have e: "st'' = st'" using f g(2) by simp
  have "P \<noteq> []"
  proof
    assume "P = []"
    then have "calm False ((pre @ [(a, t, False)]) @ (b, s + span_of N, False) # post')"
      using g(1,3) by (simp add: heap_ok_def blocks_ok_def)
    then show False by (simp add: row_append last_free_append)
  qed
  then show "bsize st' b = s" "is_used st' b" using g(5) e by simp_all
  show "hstart st' = hstart st" "hend st' = hend st" using g(4) e by (simp_all add: kept_def)
qed

lemma released_live:
  assumes r: "released st bs x st' bs'" and l: "live_ok bs live"
  shows "live_ok bs' (live(x := None))"
proof -
  have u: "(b, s, True) \<in> set bs' \<longleftrightarrow> (b, s, True) \<in> set bs \<and> b + 16 \<noteq> x" for b s using r unfolding released_def by blast
  have bo: "(y, s) \<in> bodies bs' \<longleftrightarrow> (y, s) \<in> bodies bs \<and> y \<noteq> x" for y s unfolding bodies_def using u by auto
  have d: "dom live = fst ` bodies bs"
    and rest: "\<And>y n al s. live y = Some (n, al) \<Longrightarrow> (y, s) \<in> bodies bs \<Longrightarrow> n + 16 \<le> s \<and> y mod al = 0"
    using l unfolding live_ok_def by blast+
  have "dom (live(x := None)) = fst ` bodies bs'"
  proof -
    have "dom (live(x := None)) = fst ` bodies bs - {x}" using d by simp
    also have "\<dots> = fst ` bodies bs'" using bo by force
    finally show ?thesis .
  qed
  moreover have "n + 16 \<le> s \<and> y mod al = 0" if "(live(x := None)) y = Some (n, al)" "(y, s) \<in> bodies bs'" for y n al s
    using that rest [of y n al s] bo [of y s] by (auto split: if_splits)
  ultimately show ?thesis unfolding live_ok_def by blast
qed

lemma init_inv: "a < 2 ^ 64 \<Longrightarrow> b < 2 ^ 64 \<Longrightarrow> heap_inv (State_init st0 a b) (\<lambda>_. None)"
proof -
  assume b: "b < 2 ^ 64"
  let ?s = "align_down (a + 15) 16" and ?e = "align_down b 16"
  show ?thesis
  proof (cases "a + 15 < 2 ^ 64 \<and> ?s \<noteq> 0 \<and> ?s + 32 \<le> ?e")
    case True
    then have "heap_ok (State_init st0 a b) [(?s, ?e - ?s, False)]" using init_spec(1) [OF refl refl] b by blast
    then show ?thesis unfolding heap_inv_def by (intro disjI2 exI conjI) (assumption, simp add: live_ok_def)
  next
    case False
    have "State_init st0 a b = State_empty (hmem st0)"
    proof (cases "uadd a (GRAIN - 1)")
      case (Some v)
      then have "v = a + 15" "a + 15 < 2 ^ 64" by (simp_all add: uadd_eq GRAIN_def)
      note v = this
      have ng: "\<not> (?s \<noteq> 0 \<and> ?s \<le> ?e \<and> MIN_BLOCK \<le> ?e - ?s)" using False v(2) by (auto simp: heap_nums)
      have al: "align_down v GRAIN = ?s" "align_down b GRAIN = ?e" unfolding v(1) GRAIN_def by (rule refl)+
      show ?thesis unfolding State_init_def Let_def Some option.map option.case al if_not_P [OF ng] ..
    qed (simp add: State_init_def Let_def)
    then show ?thesis unfolding heap_inv_def by (simp add: State_empty_def)
  qed
qed

theorem heap_reach_inv: "heap_reach st live \<Longrightarrow> heap_inv st live"
proof (induction rule: heap_reach.induct)
  case (reach_init a b st0)
  then show ?case by (rule init_inv)
next
  case (reach_alloc st live n align x st')
  show ?case
  proof (cases "hstart st = 0 \<and> hend st = 0")
    case True
    then show ?thesis using reach_alloc.hyps(2) empty_ops(1) by simp
  next
    case False
    then obtain bs where ok: "heap_ok st bs" "live_ok bs live" using reach_alloc.IH unfolding heap_inv_def by blast
    from ok(1) show ?thesis
    proof (cases rule: heap_alloc_cases [where n = n and align = align])
      case (taken y st'' bs' need)
      have e: "y = x" "st'' = st'" using taken(1) reach_alloc.hyps(2) by simp_all
      have "heap_ok st' bs'" using taken(5) unfolding taken_at_def e by blast
      then show ?thesis using taken_live(1) [OF taken(5,2,3) ok(2)] unfolding heap_inv_def e by blast
    next
      case (full f)
      then show ?thesis using reach_alloc.hyps(2) by simp
    qed
  qed
next
  case (reach_full st live n align st')
  show ?case
  proof (cases "hstart st = 0 \<and> hend st = 0")
    case True
    have "live = (\<lambda>_. None) \<and> hused st = 0"
      using reach_full.IH True heap_row(2) [of st] unfolding heap_inv_def region_ok_def by fastforce
    then show ?thesis using reach_full.hyps(2) empty_ops(1) True unfolding heap_inv_def by auto
  next
    case False
    then obtain bs where ok: "heap_ok st bs" "live_ok bs live" using reach_full.IH unfolding heap_inv_def by blast
    from ok(1) show ?thesis
    proof (cases rule: heap_alloc_cases [where n = n and align = align])
      case (taken y st'' bs' need)
      then show ?thesis using reach_full.hyps(2) by simp
    next
      case (full f)
      then have "st' = st\<lparr>failed := f\<rparr>" using reach_full.hyps(2) by simp
      then show ?thesis using ok heap_ok_counters(1) unfolding heap_inv_def by blast
    qed
  qed
next
  case (reach_free st live x st')
  then obtain bs where ok: "heap_ok st bs" "live_ok bs live" unfolding heap_inv_def by auto
  obtain n al where "live x = Some (n, al)" using reach_free.hyps(2) by auto
  then obtain b s where b: "(b, s, True) \<in> set bs" "x = b + 16" using live_block [OF ok(2)] by metis
  obtain st'' bs' where r: "State_free st (b + 16) = Inr st''" "released st bs (b + 16) st'' bs'" by (rule free_cases [OF ok(1) b(1)])
  have e: "st'' = st'" using r(1) reach_free.hyps(3) b(2) by simp
  have "heap_ok st' bs'" using r(2) unfolding released_def e by blast
  then show ?case using released_live [OF r(2) [folded b(2)] ok(2)] unfolding heap_inv_def by blast
next
  case (reach_write st live x n align a v)
  then obtain bs where ok: "heap_ok st bs" "live_ok bs live" unfolding heap_inv_def by auto
  obtain b s where b: "(b, s, True) \<in> set bs" "x = b + 16" "n + 16 \<le> s" using live_block [OF ok(2) reach_write.hyps(2)] by metis
  have "heap_ok (st\<lparr>hmem := (hmem st)(a := v)\<rparr>) bs"
    by (rule heap_ok_write [OF ok(1) b(1)]) (use reach_write.hyps(3,4) b(2,3) in linarith)+
  then show ?case using ok(2) unfolding heap_inv_def by blast
qed

section \<open>The blocks of a heap, read off its memory\<close>

fun row_from :: "HState \<Rightarrow> nat \<Rightarrow> nat \<Rightarrow> blk list" where
  "row_from st 0 b = []"
| "row_from st (Suc k) b = (if b < hend st then (b, bsize st b, is_used st b) # row_from st k (b + bsize st b) else [])"

definition heap_blocks :: "HState \<Rightarrow> blk list" where
  "heap_blocks st = row_from st (max_steps st) (hstart st)"

lemma row_from_eq:
  assumes "\<And>b s u. (b, s, u) \<in> set bs \<Longrightarrow> bsize st b = s \<and> is_used st b = u" "tiles a bs (hend st)" "length bs \<le> k"
  shows "row_from st k a = bs"
  using assms
proof (induction bs arbitrary: a k)
  case Nil
  then show ?case by (cases k) simp_all
next
  case (Cons x bs)
  obtain b s u where x: "x = (b, s, u)" by (cases x)
  obtain j where k: "k = Suc j" "length bs \<le> j" using Cons.prems(3) by (cases k) auto
  have t: "b = a" "32 \<le> s" "tiles (a + s) bs (hend st)" using Cons.prems(2) x by auto
  have r: "bsize st a = s" "is_used st a = u" using Cons.prems(1) [of b s u] x t(1) by simp_all
  have "row_from st j (a + s) = bs" by (rule Cons.IH [OF _ t(3) k(2)]) (rule Cons.prems(1), simp)
  moreover have "a < hend st" using tiles_span [OF t(3)] t(2) by linarith
  ultimately show ?case using r x t(1) k(1) by simp
qed

lemma heap_blocks_eq:
  assumes "heap_ok st bs"
  shows "heap_blocks st = bs"
proof -
  note t = heap_row(1) [OF assms]
  have "length bs \<le> max_steps st"
    using tiles_count [OF t] tiles_span [OF t] by (simp add: max_steps_def heap_nums less_eq_div_iff_mult_less_eq)
  then show ?thesis unfolding heap_blocks_def by (intro row_from_eq [OF _ t]) (use heap_reads(1,2) [OF assms] in blast)+
qed

end
