(* ===== verification/HeapRun.thy ===== *)
theory HeapRun
  imports HeapReach
begin

unbundle bit_operations_syntax

text \<open>
  A concrete run on a heap of 256 bytes at 4096: three blocks of sixteen bytes are taken, the first two are
  freed, and the second is freed once more.
\<close>

section \<open>One allocation and one release by evaluation\<close>

lemma next_bin_loop_here: "bits \<noteq> 0 \<Longrightarrow> next_bin_loop ws w bits = Some (w * 64 + trailing_zeros bits)"
  by (simp add: next_bin_loop.simps)

lemma walk_list_here: "b \<noteq> 0 \<Longrightarrow> steps \<noteq> 0 \<Longrightarrow> fit st b need align = Some gap \<Longrightarrow> walk_list st need align steps b = Found b gap"
  by (simp add: walk_list.simps NIL_def)

lemma find_from_here: "next_bin st lo = Some i \<Longrightarrow> list_get (bins st) i = Some b \<Longrightarrow> walk_list st need align steps b = Found c gap \<Longrightarrow>
  find_from st need align steps lo = Some (c, gap)"
  by (simp add: find_from.simps [of st need align steps lo])

lemmas heval = heap_consts State_init_def State_empty_def uadd_def usub_def wrap_def plus_def align_down_def word_ok_def rd_def wr_def
  bsize_def is_used_def set_head_def prev_size_def set_prev_size_def next_free_def prev_free_def set_links_def
  max_steps_def fix_follower_def bin_of_def mark_def push_def list_get_def Let_def unlink_def wrapping_sub_def plausible_def

lemmas aeval = State_alloc_def try_alloc_def is_pow2_def block_need_def find_block_def next_bin_def next_bin_loop_here
  walk_list_here find_from_here fit_def take_block_def

lemma alloc_step:
  assumes "hstart st \<noteq> 0" "is_pow2 align" "align \<le> 4096" "block_need n = Some need"
    and fb: "find_block st need al = Some (b, gap)" "bsize st b = s" "cut_ok s gap need" "b + s < 2 ^ 64"
    and "hused st + taken_of (s - gap) need \<le> ceiling st" "ceiling st < 2 ^ 64"
    and "st1 = take_back (take_front st b gap) (b + gap) (taken_of (s - gap) need) (s - gap - need)"
    and "st' = st1\<lparr>hused := hused st + taken_of (s - gap) need, peak := max (peak st1) (hused st + taken_of (s - gap) need),
        allocs := wrap (allocs st1 + 1)\<rparr>"
    and al: "al = max align 16" and x: "x = b + gap + 16"
  shows "State_alloc st n align = Inr (Some x, st')"
proof -
  have g: "\<not> (hstart st = 0 \<or> \<not> is_pow2 align \<or> align > MAX_ALIGN)" using assms(1-3) by (simp add: MAX_ALIGN_def)
  have gr: "max align GRAIN = max align 16" by (simp add: GRAIN_def)
  have "need \<le> taken_of (s - gap) need" by (rule cut_taken(1) [OF assms(7)])
  then have u: "uadd (hused st) need = Some (hused st + need)" "\<not> hused st + need > ceiling st"
    using assms(9,10) unfolding uadd_eq by linarith+
  have "try_alloc st n align = Inr (Some x, st')"
    unfolding try_alloc_def if_not_P [OF g] assms(4) option.case u(1) if_not_P [OF u(2)] gr fb(1) [unfolded al] prod.case x
      take_block_eq [OF assms(6-10)] assms(12,11) ..
  then show ?thesis by (simp add: State_alloc_def)
qed

lemmas teval = take_front_def take_back_def taken_of_def cut_ok_def is_pow2_def block_need_def

definition hs :: "nat list \<Rightarrow> u64 \<Rightarrow> nat \<Rightarrow> nat \<Rightarrow> nat \<Rightarrow> (nat \<Rightarrow> nat) \<Rightarrow> HState" where
  "hs bn w us al fr m = \<lparr>hstart = 4096, hend = 4352, ceiling = 256, bins = bn, nonempty = (replicate 3 0)[0 := w],
     hused = us, peak = al * 32, allocs = al, frees = fr, failed = 0, bad_frees = 0, hmem = m\<rparr>"

definition h0 where "h0 = hs ((replicate 129 0)[16 := 4096]) 65536 0 0 0 ((\<lambda>_. 0)(4096 := 256, 4104 := 0, 4112 := 0, 4120 := 0))"

definition h1 where "h1 = hs ((replicate 129 0)[16 := 0, 14 := 4128]) 16384 32 1 0 ((\<lambda>_. 0)(4104 := 0, 4112 := 0, 4120 := 0, 4096 := 33,
    4128 := 224, 4136 := 32, 4144 := 0, 4152 := 0))"

definition h2 where "h2 = hs ((replicate 129 0)[16 := 0, 14 := 0, 12 := 4160]) 4096 64 2 0 ((\<lambda>_. 0)(4104 := 0, 4112 := 0, 4120 := 0, 4096 := 33,
    4136 := 32, 4144 := 0, 4152 := 0, 4128 := 33, 4160 := 192, 4168 := 32, 4176 := 0, 4184 := 0))"

definition h3 where "h3 = hs ((replicate 129 0)[16 := 0, 14 := 0, 12 := 0, 10 := 4192]) 1024 96 3 0 ((\<lambda>_. 0)(4104 := 0, 4112 := 0, 4120 := 0, 4096 := 33,
    4136 := 32, 4144 := 0, 4152 := 0, 4128 := 33, 4168 := 32, 4176 := 0, 4184 := 0, 4160 := 33, 4192 := 160, 4200 := 32, 4208 := 0, 4216 := 0))"

definition h4 where "h4 = hs ((replicate 129 0)[16 := 0, 14 := 0, 12 := 0, 10 := 4192, 2 := 4096]) 1028 64 3 1
   ((\<lambda>_. 0)(4104 := 0, 4144 := 0, 4152 := 0, 4128 := 33, 4168 := 32, 4176 := 0, 4184 := 0, 4160 := 33, 4192 := 160, 4200 := 32,
      4208 := 0, 4216 := 0, 4096 := 32, 4112 := 0, 4120 := 0, 4136 := 32))"

definition h5 where "h5 = hs ((replicate 129 0)[16 := 0, 14 := 0, 12 := 0, 10 := 4192, 2 := 0, 4 := 4096]) 1040 32 3 2
   ((\<lambda>_. 0)(4104 := 0, 4144 := 0, 4152 := 0, 4128 := 33, 4176 := 0, 4184 := 0, 4160 := 33, 4192 := 160, 4200 := 32,
      4208 := 0, 4216 := 0, 4136 := 32, 4096 := 64, 4112 := 0, 4120 := 0, 4168 := 64))"

definition h6 where "h6 = hs ((replicate 129 0)[16 := 0, 14 := 0, 12 := 0, 10 := 4192, 2 := 0, 4 := 0, 6 := 4096]) 1088 0 3 3
   ((\<lambda>_. 0)(4104 := 0, 4144 := 0, 4152 := 0, 4128 := 33, 4176 := 0, 4184 := 0, 4160 := 33, 4192 := 160,
      4208 := 0, 4216 := 0, 4136 := 32, 4168 := 64, 4096 := 96, 4112 := 0, 4120 := 0, 4200 := 96))"

lemma run_h0: "State_init (State_empty (\<lambda>_. 0)) 4096 4352 = h0" by (simp add: h0_def hs_def heval)

lemma tz_run: "trailing_zeros 65536 = 16" "trailing_zeros 16384 = 14" "trailing_zeros 4096 = 12" "trailing_zeros 1088 = 6" "trailing_zeros 1024 = 10" by code_simp+

lemma mask_run: "65536 AND NOT (mask 2) = (65536 :: u64)" "16384 AND NOT (mask 2) = (16384 :: u64)" "4096 AND NOT (mask 2) = (4096 :: u64)"
 "1088 AND NOT (mask 6) = (1088 :: u64)" by code_simp+

lemma find_h0: "find_block h0 32 16 = Some (4096, 0)" by (simp add: h0_def hs_def aeval heval mask_run tz_run)

lemma find_h1: "find_block h1 32 16 = Some (4128, 0)" by (simp add: h1_def hs_def aeval heval mask_run tz_run)

lemma run_a0: "State_alloc h0 16 8 = Inr (Some 4112, h1)"
  by (rule alloc_step [where s = 256, OF _ _ _ _ find_h0 _ _ _ _ _ refl])
    (simp_all add: h0_def h1_def hs_def teval heval)

lemma run_a1: "State_alloc h1 16 8 = Inr (Some 4144, h2)"
  by (rule alloc_step [where s = 224, OF _ _ _ _ find_h1 _ _ _ _ _ refl])
    (simp_all add: h1_def h2_def hs_def teval heval)

lemma find_h2: "find_block h2 32 16 = Some (4160, 0)" by (simp add: h2_def hs_def aeval heval mask_run tz_run)

lemma run_a2: "State_alloc h2 16 8 = Inr (Some 4176, h3)"
  by (rule alloc_step [where s = 192, OF _ _ _ _ find_h2 _ _ _ _ _ refl])
    (simp_all add: h2_def h3_def hs_def teval heval)

lemma free_step:
  assumes p: "p = b + 16" "b + 16 < 2 ^ 64" "plausible st b" "bsize st b = s" "b + s < 2 ^ 64"
  and "st1 = st\<lparr>hused := hused st - s, frees := wrap (frees st + 1)\<rparr>"
  and "merge_next st1 b s = (s, st1)"
  and "prev_size st1 b \<le> b" "prev_size st1 b \<noteq> 0 \<Longrightarrow> hstart st1 \<le> b - prev_size st1 b"
    and mp: "merge_prev st1 b s = (s3, k, st3)" "s3 < 2 ^ 64" and "st' = fix_follower (push (set_head st3 k s3 False) k) k"
  shows "State_free st p = Inr st'"
  unfolding assms(12) by (rule free_eq [OF assms(1-5) assms(7) [unfolded assms(6)] _ _ _ mp [unfolded assms(6)]]) (use assms in simp_all)

lemma run_f3: "State_free h3 4112 = Inr h4"
  by (rule free_step [where b = 4096 and s = 32, OF _ _ _ _ _ refl, where k = 4096 and ?s3.0 = 32 and ?st3.0 = "h3\<lparr>hused := 64, frees := 1\<rparr>"])
     (simp_all add: h3_def h4_def hs_def merge_next_def merge_prev_def heval)

lemma run_f4: "State_free h4 4144 = Inr h5"
  by (rule free_step [where b = 4128 and s = 32, OF _ _ _ _ _ refl, where k = 4096 and ?s3.0 = 64 and ?st3.0 = "unlink (h4\<lparr>hused := 32, frees := 2\<rparr>) 4096"])
     (simp_all add: h4_def h5_def hs_def merge_next_def merge_prev_def heval)

lemma run_f5: "State_free h5 4144 = Inr h6"
  by (rule free_step [where b = 4128 and s = 32, OF _ _ _ _ _ refl, where k = 4096 and ?s3.0 = 96 and ?st3.0 = "unlink (h5\<lparr>hused := 0, frees := 3\<rparr>) 4096"])
     (simp_all add: h5_def h6_def hs_def merge_next_def merge_prev_def heval)

lemma find_h6: "find_block h6 96 16 = Some (4096, 0)" by (simp add: h6_def hs_def aeval heval mask_run tz_run)

lemma run_a6: "\<exists>h7. State_alloc h6 80 8 = Inr (Some 4112, h7)"
  by (rule exI, rule alloc_step [where s = 96, OF _ _ _ _ find_h6 _ _ _ _ _ refl refl])
    (simp_all add: h6_def hs_def teval heval)

lemma reach_h2: "heap_reach h2 [4112 \<mapsto> (16, 8), 4144 \<mapsto> (16, 8)]"
proof -
  have "heap_reach h0 (\<lambda>_. None)" unfolding run_h0 [symmetric] by (rule reach_init) simp_all
  then have "heap_reach h1 [4112 \<mapsto> (16, 8)]" by (rule reach_alloc [OF _ run_a0])
  then show ?thesis by (rule reach_alloc [OF _ run_a1])
qed

end
