(* ===== verification/HeapProps.thy ===== *)
theory HeapProps
  imports HeapRun
begin

text \<open>
  What the heap promises its clients, for every sequence of calls and every content the clients write.
\<close>

section \<open>The shape of a heap follows from its blocks in use\<close>

lemma row_unique:
  assumes "tiles a bs e" "tiles a bs' e" "calm f bs" "calm f bs'"
    and "\<And>b s. (b, s, True) \<in> set bs \<longleftrightarrow> (b, s, True) \<in> set bs'"
  shows "bs = bs'"
  using assms
proof (induction bs arbitrary: a f bs')
  case Nil
  then show ?case using tiles_count [OF Nil.prems(2)] tiles_span [OF Nil.prems(2)] by simp
next
  case (Cons x bs)
  obtain b s u where x: "x = (b, s, u)" by (cases x)
  have t: "b = a" "32 \<le> s" "tiles (a + s) bs e" using Cons.prems(1) x by auto
  have lt: "a < e" using tiles_span [OF t(3)] t(2) by linarith
  obtain s' u' ys where y: "bs' = (a, s', u') # ys" and t': "32 \<le> s'" "tiles (a + s') ys e"
    using Cons.prems(2) lt by (cases bs') (auto split: prod.splits)
  have used: "(c, t, True) \<in> set (x # bs) \<longleftrightarrow> (c, t, True) \<in> set bs'" for c t using Cons.prems(5) by blast
  have mem: "(a, s, u) \<in> set (x # bs)" "(a, s', u') \<in> set bs'" using x y t(1) by simp_all
  have uu: "u = u' \<and> s = s'"
  proof (cases "u \<or> u'")
    case True
    then show ?thesis
    proof
      assume u: u
      then have "(a, s, True) \<in> set bs'" using mem(1) used [of a s] by simp
      from tiles_unique [OF Cons.prems(2) this mem(2)] show ?thesis using u by simp
    next
      assume u: u'
      then have "(a, s', True) \<in> set (x # bs)" using mem(2) used [of a s'] by simp
      from tiles_unique [OF Cons.prems(1) mem(1) this] show ?thesis using u by simp
    qed
  next
    case False
    have less: False if r: "tiles a ((a, p, False) # zs) e" "calm f ((a, p, False) # zs)" "tiles a ((a, q, False) # ws) e" "p < q"
        "\<And>b s. (b, s, True) \<in> set ((a, p, False) # zs) \<Longrightarrow> (b, s, True) \<in> set ((a, q, False) # ws)" for p q zs ws
    proof -
      have z: "tiles (a + p) zs e" and w: "32 \<le> q" "a + q \<le> e" using r(1,3) tiles_span [of "a + q" ws e] by auto
      have "a + p < e" using r(4) w by linarith
      then obtain p' v vs where zs: "zs = (a + p, p', v) # vs" using z by (cases zs) (auto split: prod.splits)
      have "v" using r(2) zs by simp
      then have "(a + p, p', True) \<in> set ((a, q, False) # ws)" using r(5) zs by simp
      moreover have "0 < p" using r(1) by simp
      ultimately have "a + q \<le> a + p" using tiles_apart [OF r(3), of a q False "a + p" p' True] by simp
      then show False using r(4) by simp
    qed
    have l: "u = False" "u' = False" using False by simp_all
    have X: "x # bs = (a, s, False) # bs" and Y: "bs' = (a, s', False) # ys" using x y t(1) l by simp_all
    note ux = used [unfolded X Y]
    have "\<not> s < s'"
    proof
      assume "s < s'"
      from less [OF Cons.prems(1) [unfolded X] Cons.prems(3) [unfolded X] Cons.prems(2) [unfolded Y] this ux [THEN iffD1]] show False .
    qed
    moreover have "\<not> s' < s"
    proof
      assume "s' < s"
      from less [OF Cons.prems(2) [unfolded Y] Cons.prems(4) [unfolded Y] Cons.prems(1) [unfolded X] this ux [THEN iffD2]] show False .
    qed
    ultimately show ?thesis using l by simp
  qed
  have "bs = ys"
  proof (rule Cons.IH [OF t(3)])
    show "tiles (a + s) ys e" using t'(2) uu by simp
    show "calm (\<not> u) bs" using Cons.prems(3) x by simp
    show "calm (\<not> u) ys" using Cons.prems(4) y uu by simp
    fix c d
    have n: "(a, d, True) \<notin> set bs" "(a, d, True) \<notin> set ys"
      using tiles_bounds [OF t(3), of a d True] tiles_bounds [OF t'(2), of a d True] t(2) t'(1) by auto
    show "(c, d, True) \<in> set bs \<longleftrightarrow> (c, d, True) \<in> set ys"
      using used [of c d] n x y t(1) by (cases "c = a") auto
  qed
  then show ?case using x y t(1) uu by simp
qed

lemma heap_unique:
  assumes "heap_ok st bs" "heap_ok st' bs'" "hstart st = hstart st'" "hend st = hend st'"
    and "\<And>b s. (b, s, True) \<in> set bs \<longleftrightarrow> (b, s, True) \<in> set bs'"
  shows "bs = bs'"
proof -
  have c: "calm False bs" "calm False bs'" using assms(1,2) by (simp_all add: heap_ok_def blocks_ok_def)
  show ?thesis
    by (rule row_unique [OF heap_row(1) [OF assms(1)] _ c assms(5)]) (use heap_row(1) [OF assms(2)] assms(3,4) in simp)
qed

section \<open>Facts of a reachable heap\<close>

lemma reach_ok:
  assumes "heap_reach st live" "hstart st \<noteq> 0"
  obtains bs where "heap_ok st bs" "live_ok bs live" "heap_blocks st = bs"
  using heap_reach_inv [OF assms(1)] assms(2) heap_blocks_eq unfolding heap_inv_def by blast

lemma reach_live:
  assumes "heap_reach st live" "live x = Some (n, al)"
  obtains bs b s where "heap_ok st bs" "live_ok bs live" "(b, s, True) \<in> set bs" "x = b + 16" "n + 16 \<le> s" "x mod al = 0"
proof -
  obtain bs where ok: "heap_ok st bs" "live_ok bs live" using heap_reach_inv [OF assms(1)] assms(2) unfolding heap_inv_def by auto
  obtain b s where "(b, s, True) \<in> set bs" "x = b + 16" "n + 16 \<le> s" "x mod al = 0" by (rule live_block [OF ok(2) assms(2)])
  then show thesis by (rule that [OF ok])
qed

lemma taken_used:
  assumes "taken_at st bs need align x st' bs'" "(c, t, True) \<in> set bs"
  shows "(c, t, True) \<in> set bs'" "c + 16 \<noteq> x" "addrs bs \<subseteq> addrs bs'"
proof -
  obtain pre b s post gap where e: "bs = pre @ (b, s, False) # post" "cut_ok s gap need" "x = b + gap + 16"
    "bs' = pre @ cut b s gap need @ post" and ok: "heap_ok st' bs'"
    using assms(1) unfolding taken_at_def by blast
  show m: "(c, t, True) \<in> set bs'" using assms(2) unfolding e(1,4) by auto
  show "addrs bs \<subseteq> addrs bs'" unfolding e(1,4) using cut_facts(4) [OF e(2), of b] by auto
  have "distinct (map fst bs')" by (rule tiles_distinct [OF heap_row(1) [OF ok]])
  then have "b + gap \<notin> fst ` set (pre @ post)" unfolding e(4) cut_def by auto
  moreover have "(c, t, True) \<in> set (pre @ post)" using assms(2) unfolding e(1) by auto
  ultimately show "c + 16 \<noteq> x" unfolding e(3) by force
qed

lemma walk_add_bytes: "free_bytes (walk_add w bs) + used_of bs = free_bytes w + span_of bs"
  by (induction w bs rule: walk_add.induct) auto

lemma heap_apart: "heap_reach st live \<Longrightarrow> live x = Some (n, al) \<Longrightarrow> live y = Some (m, bl) \<Longrightarrow> x \<noteq> y \<Longrightarrow> x + n \<le> y \<or> y + m \<le> x"
proof -
  assume r: "heap_reach st live" and l: "live x = Some (n, al)" "live y = Some (m, bl)" "x \<noteq> y"
  obtain bs b s where x: "heap_ok st bs" "live_ok bs live" "(b, s, True) \<in> set bs" "x = b + 16" "n + 16 \<le> s" "x mod al = 0"
    by (rule reach_live [OF r l(1)])
  obtain c t where y: "(c, t, True) \<in> set bs" "y = c + 16" "m + 16 \<le> t" by (rule live_block [OF x(2) l(2)])
  note ap = tiles_apart [OF heap_row(1) [OF x(1)]]
  show ?thesis using ap [OF x(3) y(1)] ap [OF y(1) x(3)] l(3) x(4,5) y(2,3) by linarith
qed

lemma reach_total:
  assumes "heap_reach st live"
  shows "(\<exists>r st'. State_alloc st n align = Inr (r, st')) \<and> (live x \<noteq> None \<longrightarrow> (\<exists>st'. State_free st x = Inr st'))"
proof (cases "hstart st = 0 \<and> hend st = 0")
  case True
  then show ?thesis using empty_ops by simp
next
  case False
  then obtain bs where ok: "heap_ok st bs" using heap_reach_inv [OF assms] unfolding heap_inv_def by blast
  have "\<exists>r st'. State_alloc st n align = Inr (r, st')"
    by (cases rule: heap_alloc_cases [OF ok, where n = n and align = align]) auto
  moreover have "\<exists>st'. State_free st x = Inr st'" if l: "live x \<noteq> None"
  proof -
    obtain n al where "live x = Some (n, al)" using l by auto
    from assms this obtain bs b s where r: "heap_ok st bs" "live_ok bs live" "(b, s, True) \<in> set bs" "x = b + 16" "n + 16 \<le> s" "x mod al = 0"
      by (rule reach_live)
    show ?thesis by (rule free_cases [OF r(1,3)]) (use r(4) in blast)
  qed
  ultimately show ?thesis by blast
qed

lemma row_from_num:
  "row_from st (numeral k) b = (if b < hend st then (b, bsize st b, is_used st b) # row_from st (pred_numeral k) (b + bsize st b) else [])"
  by (simp add: numeral_eq_Suc)

section \<open>The counters\<close>

text \<open>No step below the two operations touches the counters; each operation moves them once.\<close>

definition counts :: "HState \<Rightarrow> nat \<times> nat \<times> nat \<times> nat \<times> nat" where
  "counts st = (hused st, peak st, allocs st, frees st, bad_frees st)"

lemma counts_wr [simp]: "counts (wr st a v) = counts st"
  by (simp add: wr_def counts_def)

lemma counts_mark [simp]: "counts (mark st i b) = counts st"
  by (simp add: mark_def counts_def split: option.split)

lemma counts_fields [simp]: "counts (st\<lparr>bins := v\<rparr>) = counts st" "counts (st\<lparr>failed := f\<rparr>) = counts st"
  "counts (st\<lparr>hstart := a, hend := b, ceiling := c\<rparr>) = counts st"
  by (simp_all add: counts_def)

lemma counts_steps [simp]:
  "counts (set_head st b s u) = counts st" "counts (set_prev_size st b v) = counts st" "counts (set_links st b x y) = counts st"
  "counts (fix_follower st b) = counts st" "counts (push st b) = counts st" "counts (unlink st b) = counts st"
  by (simp_all add: set_head_def set_prev_size_def set_links_def fix_follower_def push_def unlink_def Let_def split: option.split)

lemma counts_parts:
  "hused st = fst (counts st)" "peak st = fst (snd (counts st))" "allocs st = fst (snd (snd (counts st)))"
  "frees st = fst (snd (snd (snd (counts st))))" "bad_frees st = snd (snd (snd (snd (counts st))))"
  by (simp_all add: counts_def)

lemma counts_alloc:
  "counts (st\<lparr>hused := u, peak := p, allocs := a\<rparr>) = (u, p, a, snd (snd (snd (counts st))))"
  by (simp add: counts_def)

lemma alloc_counts:
  assumes "State_alloc st n align = Inr (Some x, st')"
  shows "counts st' = (hused st', max (peak st) (hused st'), wrap (allocs st + 1), frees st, bad_frees st)"
proof -
  have "try_alloc st n align = Inr (Some x, st')"
    using assms by (cases "try_alloc st n align") (auto simp: State_alloc_def split: if_splits)
  then obtain b gap need where t: "take_block st b gap need = Inr (Some x, st')"
    by (auto simp: try_alloc_def split: if_splits option.splits)
  then have "counts st' = (hused st', max (peak st) (hused st'), wrap (allocs st + 1), snd (snd (snd (counts st))))"
    by (auto simp: take_block_def Let_def plus_def counts_alloc counts_parts split: option.splits if_splits)
  then show ?thesis by (simp add: counts_def)
qed

lemma free_counts:
  assumes "State_free st (b + 16) = Inr st'" "b + 16 < 2 ^ 64"
  shows "if plausible st b then counts st' = (hused st - bsize st b, peak st, allocs st, wrap (frees st + 1), bad_frees st)
    else st' = st\<lparr>bad_frees := wrap (bad_frees st + 1)\<rparr>"
proof -
  have b: "wrapping_sub (b + 16) HDR = b" using assms(2) by (simp add: wrapping_sub_def HDR_def)
  let ?s = "st\<lparr>hused := hused st - bsize st b, frees := wrap (frees st + 1)\<rparr>"
  show ?thesis
  proof (cases "plausible st b")
    case True
    have ng: "\<not> (b + 16 < HDR \<or> \<not> plausible st b)" using True by (simp add: HDR_def)
    have "counts st' = counts ?s"
      using assms(1) unfolding State_free_def Let_def b if_not_P [OF ng] by (auto simp: plus_def split: if_splits)
    then show ?thesis using True by (simp add: counts_def)
  next
    case False
    then show ?thesis using assms(1) unfolding State_free_def Let_def b by simp
  qed
qed

text \<open>A release of a block in use is plausible: a bad one would leave the block where it is.\<close>

lemma live_plausible:
  assumes ok: "heap_ok st bs" "live_ok bs live" and l: "live x = Some (n, al)" and f: "State_free st x = Inr st'"
  obtains b where "x = b + 16" "b + 16 < 2 ^ 64" "plausible st b"
proof -
  obtain b s where b: "(b, s, True) \<in> set bs" "x = b + 16" by (rule live_block [OF ok(2) l])
  obtain st'' bs' where r: "State_free st (b + 16) = Inr st''" "released st bs (b + 16) st'' bs'" by (rule free_cases [OF ok(1) b(1)])
  have e: "st'' = st'" using r(1) f b(2) by simp
  have tb: "b + s \<le> hend st \<and> 32 \<le> s" using tiles_bounds [OF heap_row(1) [OF ok(1)] b(1)] by blast
  have lt: "b + 16 < 2 ^ 64" using tb heap_row(2) [OF ok(1)] by (simp add: region_ok_def)
  have "plausible st b"
  proof (rule ccontr)
    assume np: "\<not> plausible st b"
    have "st' = st\<lparr>bad_frees := wrap (bad_frees st + 1)\<rparr>"
      using free_counts [OF f [unfolded b(2)] lt] np by simp
    then have "heap_ok st' bs" using ok(1) heap_ok_counters(2) by simp
    moreover have "heap_ok st' bs'" using r(2) unfolding released_def e by blast
    ultimately have "bs' = bs" using heap_blocks_eq by metis
    then show False using r(2) b(1) unfolding released_def by blast
  qed
  then show thesis by (rule that [OF b(2) lt])
qed

definition bounds :: "HState \<Rightarrow> nat \<times> nat \<times> nat" where
  "bounds st = (hstart st, hend st, ceiling st)"

definition books_ok :: "HState \<Rightarrow> lives \<Rightarrow> bool" where
  "books_ok st live \<longleftrightarrow> finite (dom live) \<and> ceiling st = hend st - hstart st \<and> hused st \<le> peak st \<and> peak st \<le> hend st - hstart st \<and>
     allocs st = wrap (frees st + card (dom live)) \<and> bad_frees st = 0"

lemma wrap_Suc: "wrap (wrap n + 1) = wrap (n + 1)"
  by (simp add: wrap_def mod_Suc_eq)

lemma reach_empty:
  assumes "heap_reach st live" "hstart st = 0"
  shows "hend st = 0 \<and> hused st = 0 \<and> live = (\<lambda>_. None)"
  using heap_reach_inv [OF assms(1)] heap_row(2) [of st] assms(2) unfolding heap_inv_def region_ok_def by fastforce

lemma reach_used:
  assumes "heap_reach st live"
  shows "hused st \<le> hend st - hstart st"
proof (cases "hstart st = 0")
  case True
  then show ?thesis using reach_empty [OF assms] by simp
next
  case False
  obtain bs where ok: "heap_ok st bs" "live_ok bs live" "heap_blocks st = bs" by (rule reach_ok [OF assms False])
  have "hused st = used_of bs" using ok(1) by (simp add: heap_ok_def)
  then show ?thesis using used_span [of bs] tiles_span [OF heap_row(1) [OF ok(1)]] by simp
qed

lemma ceiling_steps [simp]:
  "bounds (set_head st b s u) = bounds st" "bounds (set_prev_size st b v) = bounds st" "bounds (push st b) = bounds st"
proof -
  have w: "bounds (wr s a v) = bounds s" for s a v by (simp add: wr_def bounds_def)
  have m: "bounds (mark s i c) = bounds s" for s i c by (simp add: mark_def bounds_def split: option.split)
  have n: "bounds (s\<lparr>bins := v\<rparr>) = bounds s" for s v by (simp add: bounds_def)
  show "bounds (set_head st b s u) = bounds st" "bounds (set_prev_size st b v) = bounds st" "bounds (push st b) = bounds st"
    by (simp_all add: set_head_def set_prev_size_def set_links_def push_def Let_def w m n split: option.split)
qed

lemma books_init: "books_ok (State_init st0 a b) (\<lambda>_. None)"
proof -
  have "counts (State_empty m) = (0, 0, 0, 0, 0)" for m by (simp add: counts_def State_empty_def)
  then have "counts (State_init st0 a b) = (0, 0, 0, 0, 0)" by (simp add: State_init_def Let_def split: option.split)
  moreover have "\<exists>s e. bounds (State_init st0 a b) = (s, e, e - s)"
  proof -
    have "bounds (State_empty m) = (0, 0, 0 - 0)" "bounds (st\<lparr>hstart := s, hend := e, ceiling := e - s\<rparr>) = (s, e, e - s)" for m st s e
      by (simp_all add: bounds_def State_empty_def)
    then show ?thesis by (simp add: State_init_def Let_def split: option.split)
  qed
  ultimately show ?thesis by (auto simp: books_ok_def counts_def bounds_def wrap_def)
qed

lemma books_alloc:
  assumes r: "heap_reach st live" and b: "books_ok st live" and a: "State_alloc st n align = Inr (Some x, st')"
  shows "books_ok st' (live(x \<mapsto> (n, align)))"
proof -
  note r' = reach_alloc [OF r a]
  have "\<not> (hstart st = 0 \<and> hend st = 0)" using a empty_ops(1) [of st n align] by auto
  then obtain bs where ok: "heap_ok st bs" "live_ok bs live" using heap_reach_inv [OF r] unfolding heap_inv_def by blast
  from ok(1) have "live x = None \<and> hstart st' = hstart st \<and> hend st' = hend st \<and> ceiling st' = hend st' - hstart st'"
  proof (cases rule: heap_alloc_cases [where n = n and align = align])
    case (taken y st'' bs' need)
    have e: "y = x" "st'' = st'" using taken(1) a by simp_all
    have "kept st bs st' bs'" "ceiling st' = hend st' - hstart st'" using taken(5) unfolding taken_at_def heap_ok_def e by blast+
    then show ?thesis using taken_live(2) [OF taken(5,2,3) ok(2)] unfolding e kept_def by blast
  next
    case (full f)
    then show ?thesis using a by simp
  qed
  moreover have "hused st' \<le> hend st' - hstart st'" by (rule reach_used [OF r'])
  moreover have "card (insert x (dom live)) = Suc (card (dom live))" if "live x = None" "finite (dom live)"
    using that by (simp add: domIff)
  ultimately show ?thesis using b alloc_counts [OF a] wrap_Suc [of "frees st + card (dom live)"] by (simp add: books_ok_def counts_def)
qed

lemma books_free:
  assumes r: "heap_reach st live" and b: "books_ok st live" and l: "live x \<noteq> None" and f: "State_free st x = Inr st'"
  shows "books_ok st' (live(x := None))"
proof -
  obtain n al where x: "live x = Some (n, al)" using l by auto
  obtain bs d s where ok: "heap_ok st bs" "live_ok bs live" "(d, s, True) \<in> set bs" "x = d + 16" by (rule reach_live [OF r x])
  obtain st'' bs' where rl: "State_free st (d + 16) = Inr st''" "released st bs (d + 16) st'' bs'" by (rule free_cases [OF ok(1,3)])
  have "st'' = st'" using rl(1) f ok(4) by simp
  then have reg: "hstart st' = hstart st \<and> hend st' = hend st" using rl(2) unfolding released_def kept_def by blast
  obtain c where c: "x = c + 16" "c + 16 < 2 ^ 64" "plausible st c" by (rule live_plausible [OF ok(1,2) x f])
  have co: "counts st' = (hused st - bsize st c, peak st, allocs st, wrap (frees st + 1), bad_frees st)"
    using free_counts [OF f [unfolded c(1)] c(2)] c(3) by simp
  have fin: "finite (dom live)" using b by (simp add: books_ok_def)
  have "card (dom live) = Suc (card (dom live - {x}))" by (rule card_Suc_Diff1 [OF fin, symmetric]) (use x in blast)
  then have "wrap (wrap (frees st + 1) + card (dom live - {x})) = wrap (frees st + card (dom live))"
    by (simp add: wrap_def mod_add_left_eq)
  moreover have "hused st - bsize st c \<le> peak st" using b unfolding books_ok_def by linarith
  moreover have "ceiling st' = hend st' - hstart st'" using rl(2) \<open>st'' = st'\<close> unfolding released_def heap_ok_def by blast
  ultimately show ?thesis using b co reg fin by (simp add: books_ok_def counts_def)
qed

lemma reach_books: "heap_reach st live \<Longrightarrow> books_ok st live"
proof (induction rule: heap_reach.induct)
  case (reach_init a b st0)
  show ?case by (rule books_init)
next
  case (reach_alloc st live n align x st')
  then show ?case by (intro books_alloc)
next
  case (reach_full st live n align st')
  obtain f where "st' = st\<lparr>failed := f\<rparr>"
  proof (cases "hstart st = 0 \<and> hend st = 0")
    case True
    then have "st' = st\<lparr>failed := wrap (failed st + 1)\<rparr>" using reach_full.hyps(2) empty_ops(1) [of st n align] by simp
    then show thesis by (rule that)
  next
    case False
    then obtain bs where ok: "heap_ok st bs" using heap_reach_inv [OF reach_full.hyps(1)] unfolding heap_inv_def by blast
    then show thesis
      by (cases rule: heap_alloc_cases [where n = n and align = align]) (use that reach_full.hyps(2) in simp_all)
  qed
  then show ?case using reach_full.IH by (simp add: books_ok_def)
next
  case (reach_free st live x st')
  then show ?case by (intro books_free)
next
  case (reach_write st live x n align a v)
  then show ?case by (simp add: books_ok_def)
qed

text \<open>The blocks in use are the live requests, one each.\<close>

lemma live_dom: "live_ok bs live \<Longrightarrow> x \<in> dom live \<longleftrightarrow> (\<exists>b s. (b, s, True) \<in> set bs \<and> x = b + 16)"
proof -
  assume "live_ok bs live"
  then have "dom live = fst ` {(b + 16, s) | b s. (b, s, True) \<in> set bs}" unfolding live_ok_def bodies_def by (rule conjunct1)
  also have "\<dots> = {b + 16 | b s. (b, s, True) \<in> set bs}" by (auto simp: image_def)
  finally show ?thesis by auto
qed

lemma used_blocks_live:
  assumes "tiles a bs e" "live_ok bs live"
  shows "card (dom live) = length (filter (\<lambda>(b, s, u). u) bs)"
proof -
  let ?U = "map (\<lambda>x. fst x + 16) (filter (\<lambda>(b, s, u). u) bs)"
  have "distinct (map fst (filter (\<lambda>(b, s, u). u) bs))" by (rule distinct_map_filter [OF tiles_distinct [OF assms(1)]])
  then have "distinct (map (\<lambda>b. b + 16) (map fst (filter (\<lambda>(b, s, u). u) bs)))" by (simp add: distinct_map inj_on_def del: map_map)
  then have d: "distinct ?U" by (simp add: comp_def)
  have "dom live = set ?U"
  proof (rule set_eqI)
    fix x
    show "x \<in> dom live \<longleftrightarrow> x \<in> set ?U" unfolding live_dom [OF assms(2)] by (auto simp: image_iff)
  qed
  then show ?thesis using distinct_card [OF d] by simp
qed

section \<open>Properties\<close>

text \<open>
  C5.  Two live allocations never overlap: each lies inside the region, is aligned as requested, holds at
  least the requested bytes, and is disjoint from every other one.
\<close>

theorem heap_isolation:
  assumes "heap_reach st live" "live x = Some (n, al)"
  shows "hstart st \<le> x \<and> x + n \<le> hend st \<and> x mod al = 0 \<and>
    (\<forall>y m bl. live y = Some (m, bl) \<and> x \<noteq> y \<longrightarrow> x + n \<le> y \<or> y + m \<le> x)"
proof -
  obtain bs b s where x: "heap_ok st bs" "live_ok bs live" "(b, s, True) \<in> set bs" "x = b + 16" "n + 16 \<le> s" "x mod al = 0"
    by (rule reach_live [OF assms(1,2)])
  show ?thesis using heap_apart [OF assms] heap_reads(5,6) [OF x(1,3)] x(4-6) by auto
qed

theorem heap_isolation_witness:
  "heap_reach h2 [4112 \<mapsto> (16, 8), 4144 \<mapsto> (16, 8)] \<and> hstart h2 \<le> 4112 \<and> 4112 + 16 \<le> hend h2 \<and>
   ((4112::nat) + 16 \<le> 4144 \<or> (4144::nat) + 16 \<le> 4112)"
proof -
  let ?live = "[4112::nat \<mapsto> (16::nat, 8::nat), 4144 \<mapsto> (16, 8)]"
  have l: "?live 4112 = Some (16, 8)" "?live 4144 = Some (16, 8) \<and> (4112::nat) \<noteq> 4144" by simp_all
  note iso = heap_isolation [OF reach_h2 l(1)]
  note apart = iso [THEN conjunct2, THEN conjunct2, THEN conjunct2, rule_format, OF l(2)]
  show ?thesis by (intro conjI reach_h2 iso [THEN conjunct1] iso [THEN conjunct2, THEN conjunct1] apart)
qed

text \<open>
  No call on a reachable heap aborts: an allocation of any size and alignment returns, and so does the
  release of every live block.
\<close>

theorem heap_never_panics:
  assumes "heap_reach st live"
  shows "(\<exists>r st'. State_alloc st n align = Inr (r, st')) \<and> (live x \<noteq> None \<longrightarrow> (\<exists>st'. State_free st x = Inr st'))"
  by (rule reach_total [OF assms])

theorem heap_never_panics_witness:
  "(\<exists>r st'. State_alloc h2 100 64 = Inr (r, st')) \<and> (\<exists>st'. State_free h2 4144 = Inr st')"
  using heap_never_panics [OF reach_h2, of 100 64 4144] by simp

text \<open>
  C14.  Neither an allocation nor the release of another block changes a byte of a live allocation.
\<close>

theorem heap_bodies_kept:
  assumes "heap_reach st live" "live x = Some (n, al)" "x \<le> a" "a < x + n"
  shows "(State_alloc st m bl = Inr (r, st') \<longrightarrow> hmem st' a = hmem st a) \<and>
    (live y \<noteq> None \<and> y \<noteq> x \<and> State_free st y = Inr st'' \<longrightarrow> hmem st'' a = hmem st a)"
proof -
  obtain bs b s where x: "heap_ok st bs" "live_ok bs live" "(b, s, True) \<in> set bs" "x = b + 16" "n + 16 \<le> s" "x mod al = 0"
    by (rule reach_live [OF assms(1,2)])
  have a: "b + 16 \<le> a" "a < b + s" using assms(3,4) x(4,5) by linarith+
  have 1: "hmem st' a = hmem st a" if al: "State_alloc st m bl = Inr (r, st')"
    using x(1)
  proof (cases rule: heap_alloc_cases [where n = m and align = bl])
    case (taken z st1 bs' need)
    note u = taken_used [OF taken(5) x(3)]
    have e: "st1 = st'" using taken(1) al by simp
    have k: "kept st bs st' bs'" and ok: "heap_ok st' bs'" using taken(5) unfolding taken_at_def e by blast+
    show ?thesis by (rule kept_body [OF k heap_row(1) [OF ok] _ u(1) x(3) u(1) a]) (use u(3) in blast)
  next
    case (full f)
    then have "st' = st\<lparr>failed := f\<rparr>" using al by simp
    then show ?thesis by simp
  qed
  moreover have "hmem st'' a = hmem st a" if f: "live y \<noteq> None" "y \<noteq> x" "State_free st y = Inr st''"
  proof -
    obtain k kl where "live y = Some (k, kl)" using f(1) by auto
    from x(2) this obtain c t where y: "(c, t, True) \<in> set bs" "y = c + 16" "k + 16 \<le> t" "y mod kl = 0" by (rule live_block)
    obtain st1 bs' where r: "State_free st (c + 16) = Inr st1" "released st bs (c + 16) st1 bs'" by (rule free_cases [OF x(1) y(1)])
    have e: "st1 = st''" using r(1) f(3) y(2) by simp
    note rr = r(2) [unfolded released_def e]
    have k: "kept st bs st'' bs'" "addrs bs' \<subseteq> addrs bs" using rr by blast+
    have "b + 16 \<noteq> c + 16" using f(2) x(4) y(2) by simp
    then have m: "(b, s, True) \<in> set bs'" using rr x(3) by blast
    show ?thesis by (rule kept_body [OF k(1) heap_row(1) [OF x(1)] _ x(3) x(3) m a]) (use k(2) in blast)
  qed
  ultimately show ?thesis by blast
qed

theorem heap_bodies_kept_witness:
  "State_alloc h2 16 8 = Inr (Some 4176, h3) \<and> hmem h3 4120 = hmem h2 4120"
  using heap_bodies_kept [OF reach_h2, of 4112 16 8 4120 16 8 "Some 4176" h3] run_a2 by simp

text \<open>
  C15.  The search is complete: a well-formed request succeeds exactly when some free block of the heap has
  room for it at the requested alignment, with a gap in front that is empty or a block of its own.
\<close>

theorem heap_alloc_complete:
  assumes "heap_reach st live" "hstart st \<noteq> 0" "hend st + 8192 \<le> 2 ^ 64"
    and "is_pow2 align" "align \<le> 4096" "block_need n = Some need"
  shows "(\<exists>x st'. State_alloc st n align = Inr (Some x, st')) \<longleftrightarrow> room (heap_blocks st) need align"
proof -
  obtain bs where ok: "heap_ok st bs" "live_ok bs live" "heap_blocks st = bs" by (rule reach_ok [OF assms(1,2)])
  from ok(1) show ?thesis
  proof (cases rule: heap_alloc_cases [where n = n and align = align])
    case (taken x st' bs' need')
    then have n: "need' = need" using assms(6) by simp
    obtain pre b s post gap where e: "bs = pre @ (b, s, False) # post" "cut_ok s gap need" "gap_ok b (max align 16) gap"
      using taken(5) unfolding taken_at_def n by blast
    have "room bs need align" unfolding room_def using e by (intro exI [of _ b] exI [of _ s] exI [of _ gap]) (simp add: cut_ok_def)
    then show ?thesis using taken(1) ok(3) by blast
  next
    case (full f)
    then show ?thesis using full(2) [OF assms(4-6,3)] ok(3) by simp
  qed
qed

theorem heap_alloc_complete_witness:
  "(\<exists>x st'. State_alloc h2 16 8 = Inr (Some x, st')) \<longleftrightarrow> room (heap_blocks h2) 32 8"
proof -
  have "block_need 16 = Some 32" "is_pow2 8" "hstart h2 \<noteq> 0" "hend h2 + 8192 \<le> 2 ^ 64"
    by (simp_all add: heval teval h2_def hs_def)
  then show ?thesis using heap_alloc_complete [OF reach_h2, of 8 16 32] by simp
qed

text \<open>
  An allocation followed by its release restores the heap: the same blocks, in the same order, with the
  same state, so nothing is lost and no fragment is left behind.
\<close>

theorem heap_alloc_free_roundtrip:
  assumes "heap_reach st live" "State_alloc st n align = Inr (Some x, st1)"
  shows "\<exists>st2. State_free st1 x = Inr st2 \<and> heap_blocks st2 = heap_blocks st \<and> hused st2 = hused st"
proof -
  have h0: "hstart st \<noteq> 0"
  proof
    assume "hstart st = 0"
    then have "State_alloc st n align = Inr (None, st\<lparr>failed := wrap (failed st + 1)\<rparr>)"
      by (simp add: State_alloc_def try_alloc_def)
    then show False using assms(2) by simp
  qed
  obtain bs where ok: "heap_ok st bs" "live_ok bs live" "heap_blocks st = bs" by (rule reach_ok [OF assms(1) h0])
  from ok(1) show ?thesis
  proof (cases rule: heap_alloc_cases [where n = n and align = align])
    case (taken y st' bs1 need)
    have e: "y = x" "st' = st1" using taken(1) assms(2) by simp_all
    obtain pre b s post gap where c: "bs = pre @ (b, s, False) # post" "x = b + gap + 16" "bs1 = pre @ cut b s gap need @ post"
      using taken(5) unfolding taken_at_def e by blast
    have ok1: "heap_ok st1 bs1" "kept st bs st1 bs1" using taken(5) unfolding taken_at_def e by blast+
    have m: "(b + gap, taken_of (s - gap) need, True) \<in> set bs1" unfolding c(3) cut_def by simp
    obtain st2 bs2 where r: "State_free st1 (b + gap + 16) = Inr st2" "released st1 bs1 (b + gap + 16) st2 bs2"
      by (rule free_cases [OF ok1(1) m])
    have ok2: "heap_ok st2 bs2" "kept st1 bs1 st2 bs2" using r(2) unfolding released_def by blast+
    have reg: "hstart st2 = hstart st" "hend st2 = hend st" using ok1(2) ok2(2) unfolding kept_def by simp_all
    have u: "(d, t, True) \<in> set bs2 \<longleftrightarrow> (d, t, True) \<in> set bs" for d t
    proof -
      have "(d, t, True) \<in> set bs2 \<longleftrightarrow> (d, t, True) \<in> set bs1 \<and> d + 16 \<noteq> x" using r(2) unfolding released_def c(2) by blast
      moreover have "(d, t, True) \<in> set bs1 \<and> d + 16 \<noteq> x \<longleftrightarrow> (d, t, True) \<in> set bs"
        using taken_used(1,2) [OF taken(5) [unfolded e], of d t] unfolding c
        by (auto simp: cut_def gap_row_def rest_row_def split: if_splits)
      ultimately show ?thesis by blast
    qed
    have b2: "bs2 = bs" by (rule heap_unique [OF ok2(1) ok(1) reg u])
    then have "heap_blocks st2 = heap_blocks st" using heap_blocks_eq [OF ok2(1)] ok(3) by simp
    moreover have "hused st2 = hused st" using ok2(1) ok(1) unfolding b2 heap_ok_def by simp
    ultimately show ?thesis using r(1) unfolding c(2) by blast
  next
    case (full f)
    then show ?thesis using assms(2) by simp
  qed
qed

theorem heap_alloc_free_roundtrip_witness:
  "\<exists>st2. State_free h3 4176 = Inr st2 \<and> heap_blocks st2 = heap_blocks h2 \<and> hused st2 = hused h2"
  by (rule heap_alloc_free_roundtrip [OF reach_h2 run_a2])

text \<open>
  When every allocation has been released the region is one free block again, whatever the order of the
  calls was: neighbours are always merged, so the heap does not fragment for good.
\<close>

theorem heap_whole_again:
  assumes "heap_reach st (\<lambda>_. None)" "hstart st \<noteq> 0"
  shows "heap_blocks st = [(hstart st, hend st - hstart st, False)] \<and> hused st = 0"
proof -
  obtain bs where ok: "heap_ok st bs" "live_ok bs (\<lambda>_. None)" "heap_blocks st = bs" by (rule reach_ok [OF assms])
  have nu: "(b, s, True) \<notin> set bs" for b s using ok(2) unfolding live_ok_def bodies_def by auto
  have c: "calm False bs" and us: "hused st = used_of bs" using ok(1) by (simp_all add: heap_ok_def blocks_ok_def)
  note t = heap_row(1) [OF ok(1)]
  have "used_of bs = 0" using nu by (induction bs) auto
  moreover have "bs = [(hstart st, hend st - hstart st, False)]"
  proof (cases bs)
    case Nil
    then show ?thesis using t heap_row(2) [OF ok(1)] by (simp add: region_ok_def)
  next
    case (Cons x ys)
    obtain b s u where x: "x = (b, s, u)" by (cases x)
    have u: "u = False" using nu [of b s] Cons x by auto
    have "ys = []"
    proof (cases ys)
      case C: (Cons y zs)
      obtain d r v where y: "y = (d, r, v)" by (cases y)
      then show ?thesis using c nu [of d r] Cons x u C by auto
    qed simp
    then show ?thesis using t Cons x u by auto
  qed
  ultimately show ?thesis using ok(3) us by simp
qed

theorem heap_whole_again_witness:
  "heap_blocks h0 = [(4096, 256, False)] \<and> hused h0 = 0"
proof -
  have r: "heap_reach h0 (\<lambda>_. None)" unfolding run_h0 [symmetric] by (rule reach_init) simp_all
  show ?thesis using heap_whole_again [OF r] by (simp add: h0_def hs_def)
qed

text \<open>
  The self-check accepts every reachable heap, and its count of free bytes together with the bytes in
  use is the whole region.
\<close>

theorem heap_check_accepts:
  assumes "heap_reach st live"
  shows "\<exists>w. State_check st = Inr w \<and> free_bytes w + hused st = hend st - hstart st"
proof (cases "hstart st = 0")
  case True
  then have "hend st = 0 \<and> hused st = 0"
    using heap_reach_inv [OF assms] heap_row(2) [of st] unfolding heap_inv_def region_ok_def by fastforce
  then show ?thesis using True by (simp add: State_check_def)
next
  case False
  obtain bs where ok: "heap_ok st bs" "live_ok bs live" "heap_blocks st = bs" by (rule reach_ok [OF assms False])
  let ?w = "walk_add \<lparr>blocks = 0, free_blocks = 0, free_bytes = 0, largest_free = 0\<rparr> bs"
  have "free_bytes ?w + used_of bs = span_of bs" using walk_add_bytes [of "\<lparr>blocks = 0, free_blocks = 0, free_bytes = 0, largest_free = 0\<rparr>" bs] by simp
  moreover have "hused st = used_of bs" using ok(1) by (simp add: heap_ok_def)
  moreover have "hend st = hstart st + span_of bs" by (rule tiles_span [OF heap_row(1) [OF ok(1)]])
  ultimately show ?thesis using check_spec [OF ok(1)] by simp
qed

theorem heap_check_accepts_witness:
  "\<exists>w. State_check h2 = Inr w \<and> free_bytes w + 64 = 256"
  using heap_check_accepts [OF reach_h2] by (simp add: h2_def hs_def)

text \<open>
  The walk over a class never runs out of its step budget on a reachable heap: it ends with a block
  that fits or at the end of the list, having spent one step per listed block.
\<close>

theorem heap_walk_ends:
  assumes "heap_reach st live" "hstart st \<noteq> 0" "i < BINS"
  shows "(\<exists>c gap. walk_list st need align (max_steps st) (bins st ! i) = Found c gap \<and> fit st c need align = Some gap) \<or>
    (\<exists>k \<le> max_steps st. walk_list st need align (max_steps st) (bins st ! i) = Rest k)"
proof -
  obtain bs where ok: "heap_ok st bs" "live_ok bs live" "heap_blocks st = bs" by (rule reach_ok [OF assms(1,2)])
  let ?F = "free_of bs"
  obtain fl where reg: "region_ok st" and spc: "spaced st (addrs bs)"
    and ls: "lists_ok (\<lambda>c. hmem st (c + 16)) (\<lambda>c. hmem st (c + 24)) (bins st) (nonempty st) ?F fl"
    using heap_okD [OF ok(1)] by blast
  note tl = heap_row(1) [OF ok(1)]
  have sub: "set (fl i) \<subseteq> addrs bs" using listed_free [OF ls, of i] free_addrs by blast
  have "length (fl i) = card (set (fl i))" by (rule distinct_card [OF lists_okD(6) [OF ls], symmetric])
  also have "\<dots> \<le> card (addrs bs)" by (rule card_mono [OF _ sub]) (simp add: addrs_def)
  also have "\<dots> \<le> length bs" unfolding addrs_def by (rule order_trans [OF card_image_le card_length]) simp
  also have "\<dots> \<le> max_steps st"
    using tiles_count [OF tl] tiles_span [OF tl] by (simp add: max_steps_def heap_nums less_eq_div_iff_mult_less_eq)
  finally have le: "length (fl i) \<le> max_steps st" .
  have nf: "next_free st c = hmem st (c + 16)" if "c \<in> set (fl i)" for c
    by (rule sees_reads(3) [OF sees_self [OF reg spc]]) (use that sub in blast)
  have hd: "bins st ! i = hd0 (fl i)" by (rule lists_okD(3) [OF ls assms(3)])
  have "(\<exists>c gap. walk_list st need align (max_steps st) (hd0 (fl i)) = Found c gap \<and> c \<in> set (fl i) \<and> fit st c need align = Some gap) \<or>
    (walk_list st need align (max_steps st) (hd0 (fl i)) = Rest (max_steps st - length (fl i)) \<and> (\<forall>c \<in> set (fl i). fit st c need align = None))"
    by (rule walk_list_spec [OF lists_okD(5) [OF ls, of i] NIL_not_listed [OF ls free_of_ok(1) [OF reg tl]] _ le]) (rule nf)
  then show ?thesis unfolding hd by (elim disjE exE conjE) (blast, intro disjI2 exI conjI, rule diff_le_self)
qed

theorem heap_walk_ends_witness:
  "(\<exists>c gap. walk_list h2 32 16 9 4160 = Found c gap \<and> fit h2 c 32 16 = Some gap) \<or> (\<exists>k \<le> 9. walk_list h2 32 16 9 4160 = Rest k)"
proof -
  have "hstart h2 \<noteq> 0" "max_steps h2 = 9" "bins h2 ! 12 = 4160" by (simp_all add: h2_def hs_def heval)
  then show ?thesis using heap_walk_ends [OF reach_h2, of 12 32 16] by (simp add: heap_nums)
qed

text \<open>
  C16.  The statistics are exact.  In every reachable state the bytes in use are the sizes of the blocks that a
  walk over the headers finds in use, they and the free bytes of that walk make up the whole region, the
  high-water mark lies between them and the ceiling, and the ceiling is the region; the blocks in use
  are the live allocations, one each, allocations less releases (mod 2^64, as the counters wrap) are their number, and no
  release of a live block was ever counted as a bad one.
\<close>

theorem heap_accounts_exact:
  assumes "heap_reach st live"
  shows "s_used (State_stats st) = sum_list (map (\<lambda>(b, s, u). if u then s else 0) (heap_blocks st)) \<and>
    s_used (State_stats st) + sum_list (map (\<lambda>(b, s, u). if u then 0 else s) (heap_blocks st)) = s_capacity (State_stats st) \<and>
    s_used (State_stats st) \<le> s_peak (State_stats st) \<and> s_peak (State_stats st) \<le> s_ceiling (State_stats st) \<and>
    s_ceiling (State_stats st) = s_capacity (State_stats st) \<and>
    (live x \<noteq> None \<longleftrightarrow> (\<exists>b s. (b, s, True) \<in> set (heap_blocks st) \<and> x = b + HDR)) \<and>
    card (dom live) = length (filter (\<lambda>(b, s, u). u) (heap_blocks st)) \<and>
    s_allocs (State_stats st) = (s_frees (State_stats st) + card (dom live)) mod 2 ^ 64 \<and> s_bad_frees (State_stats st) = 0"
proof -
  have split: "used_of bs = sum_list (map (\<lambda>(b, s, u). if u then s else 0) bs)"
    "span_of bs = sum_list (map (\<lambda>(b, s, u). if u then s else 0) bs) + sum_list (map (\<lambda>(b, s, u). if u then 0 else s) bs)" for bs
    by (induction bs) auto
  note bk = reach_books [OF assms, unfolded books_ok_def wrap_def]
  show ?thesis
  proof (cases "hstart st = 0")
    case True
    then have z: "hend st = 0" "hused st = 0" "live = (\<lambda>_. None)" using reach_empty [OF assms] by simp_all
    have "heap_blocks st = []" using True z(1) by (simp add: heap_blocks_def max_steps_def)
    then show ?thesis using bk True z by (simp add: State_stats_def)
  next
    case False
    obtain bs where ok: "heap_ok st bs" "live_ok bs live" "heap_blocks st = bs" by (rule reach_ok [OF assms False])
    note t = heap_row(1) [OF ok(1)]
    have e: "hused st = used_of bs" "ceiling st = hend st - hstart st" using ok(1) by (simp_all add: heap_ok_def)
    have "live x \<noteq> None \<longleftrightarrow> (\<exists>b s. (b, s, True) \<in> set bs \<and> x = b + HDR)"
      using live_dom [OF ok(2), of x] unfolding HDR_def domIff .
    then show ?thesis using bk e split [of bs] tiles_span [OF t] used_blocks_live [OF t ok(2)] by (simp add: State_stats_def ok(3))
  qed
qed

theorem heap_accounts_exact_witness:
  "s_used (State_stats h2) = sum_list (map (\<lambda>(b, s, u). if u then s else 0) (heap_blocks h2)) \<and>
   s_used (State_stats h2) = 64 \<and> s_allocs (State_stats h2) = 2"
  using heap_accounts_exact [OF reach_h2, of 0] by (simp add: h2_def hs_def State_stats_def)

text \<open>
  C17.  A second release is not always caught, even when the block has not been handed out again.  In any
  reachable heap, release a block that lies behind a free one: the block is merged into its predecessor, its
  old header stays in memory, and releasing the same address once more passes the plausibility test.  It is
  not counted as a bad release but as a good one, and the bytes of the block leave the usage a second time.
\<close>

theorem double_free_uncaught:
  assumes "heap_reach st live" "heap_blocks st = pre @ (a, t, False) # (b, s, True) # post"
    and "State_free st (b + HDR) = Inr st1" "State_free st1 (b + HDR) = Inr st2"
  shows "live (b + HDR) \<noteq> None \<and> heap_reach st1 (live(b + HDR := None)) \<and>
    bad_frees st2 = bad_frees st1 \<and> frees st2 = (frees st1 + 1) mod 2 ^ 64 \<and> hused st2 = hused st1 - s"
proof -
  have "hstart st \<noteq> 0"
  proof
    assume z: "hstart st = 0"
    then have "heap_blocks st = []" using reach_empty [OF assms(1)] by (simp add: heap_blocks_def max_steps_def)
    then show False using assms(2) by simp
  qed
  then obtain bs where ok: "heap_ok st bs" "live_ok bs live" "heap_blocks st = bs" by (rule reach_ok [OF assms(1)])
  have bs: "bs = pre @ (a, t, False) # (b, s, True) # post" using assms(2) ok(3) by simp
  have hdr: "b + HDR = b + 16" by (simp add: HDR_def)
  have m: "(b, s, True) \<in> set bs" using bs by simp
  have l: "live (b + 16) \<noteq> None" using live_dom [OF ok(2), of "b + 16"] m unfolding domIff by blast
  have r1: "heap_reach st1 (live(b + 16 := None))" by (rule reach_free [OF assms(1) l assms(3) [unfolded hdr]])
  note st = free_leaves_header [OF ok(1) bs assms(3) [unfolded hdr]]
  have al: "b mod 16 = 0" using tiles_aligned [OF heap_row(1) [OF ok(1)] _ m] heap_row(2) [OF ok(1)] by (simp add: region_ok_def)
  have tb: "hstart st \<le> b" "b + s \<le> hend st" "32 \<le> s" using tiles_bounds [OF heap_row(1) [OF ok(1)] m] by simp_all
  have hi: "hend st < 2 ^ 64" using heap_row(2) [OF ok(1)] by (simp add: region_ok_def)
  have "plausible st1 b" unfolding plausible_def Let_def using st al tb hi by (simp add: heap_nums uadd_def)
  then have "counts st2 = (hused st1 - s, peak st1, allocs st1, wrap (frees st1 + 1), bad_frees st1)"
    using free_counts [OF assms(4) [unfolded hdr]] tb hi st(1) by simp
  then show ?thesis using l r1 unfolding hdr by (simp add: counts_def wrap_def)
qed

text \<open>
  The same on the heap of 256 bytes, with what comes of it: after the second release of 4144 the next
  allocation returns the bytes from 4112 to 4192, although the 16 bytes at 4176 are live.
\<close>

theorem double_free_uncaught_witness:
  "State_free h4 4144 = Inr h5 \<and> State_free h5 4144 = Inr h6 \<and> heap_reach h5 [4176 \<mapsto> (16, 8)] \<and>
   bad_frees h6 = bad_frees h5 \<and> frees h6 = 3 \<and> (\<exists>h7. State_alloc h6 80 8 = Inr (Some 4112, h7))"
proof -
  have "heap_reach h3 [4112 \<mapsto> (16, 8), 4144 \<mapsto> (16, 8), 4176 \<mapsto> (16, 8)]" by (rule reach_alloc [OF reach_h2 run_a2])
  then have r4: "heap_reach h4 ([4112 \<mapsto> (16, 8), 4144 \<mapsto> (16, 8), 4176 \<mapsto> (16, 8)](4112 := None))"
    by (rule reach_free [OF _ _ run_f3]) simp
  have b4: "heap_blocks h4 = [] @ (4096, 32, False) # (4128, 32, True) # [(4160, 32, True), (4192, 160, False)]"
    by (simp add: h4_def hs_def heap_blocks_def row_from_num heval)
  have f: "State_free h4 (4128 + HDR) = Inr h5" "State_free h5 (4128 + HDR) = Inr h6" using run_f4 run_f5 by (simp_all add: HDR_def)
  have e: "([4112 \<mapsto> (16, 8), 4144 \<mapsto> (16, 8), 4176 \<mapsto> (16, 8)](4112 := None, 4144 := None)) = ([4176 \<mapsto> (16, 8)] :: lives)"
    by (rule ext) simp
  have "frees h5 = 2" by (simp add: h5_def hs_def)
  then show ?thesis using double_free_uncaught [OF r4 b4 f] e run_f4 run_f5 run_a6 by (simp add: HDR_def)
qed

end
