(* ===== verification/HeapLock.thy ===== *)
theory HeapLock
  imports HeapProps
begin

text \<open>
  The lock around the heap and the calls that go through it (\<^verbatim>\<open>HeapLock\<close>, \<^verbatim>\<open>Heap\<close> and its \<^verbatim>\<open>GlobalAlloc\<close> in
  \<^verbatim>\<open>heap/src/lib.rs\<close>).  The cores interleave at the granularity of the atomic operations of \<^verbatim>\<open>with\<close>; a core may
  start another call on top of one that is under way, the way an interrupt handler would.  The closure under
  the lock is not one step: it works from the state it found when it started, the shared state may show
  anything while it works, and its result stands only at its end; another core that got in meanwhile would
  start from a torn state, or have its own result overwritten.  A core is named by its \<^verbatim>\<open>CoreId\<close>, which the
  trait requires to be different for different cores.
\<close>

section \<open>Calls\<close>

record LockStats =
  taken :: u64
  contended :: u64
  longest_spin :: u64
  reentered :: u64

definition LOCK_FREE :: u64 where
  "LOCK_FREE = - 1"

datatype heap_call = CInit nat nat | CAlloc nat nat | CFree nat | CStats | CCheck

datatype heap_answer = AUnit | AAlloc "nat option" | AStats HeapStats | ACheck "HeapCorrupt + Walk"

text \<open>The closures that \<^verbatim>\<open>Heap\<close> hands to \<^verbatim>\<open>with\<close>.\<close>

fun run_call :: "heap_call \<Rightarrow> HState \<Rightarrow> unit fail + heap_answer \<times> HState" where
  "run_call (CInit a b) st = Inr (AUnit, State_init st a b)"
| "run_call (CAlloc n al) st = rbind (State_alloc st n al) (\<lambda>(r, st'). Inr (AAlloc r, st'))"
| "run_call (CFree p) st = rbind (State_free st p) (\<lambda>st'. Inr (AUnit, st'))"
| "run_call CStats st = Inr (AStats (State_stats st), st)"
| "run_call CCheck st = Inr (ACheck (State_check st), st)"

text \<open>What the callers make of the answer: \<^verbatim>\<open>flatten\<close>, \<^verbatim>\<open>unwrap_or_default\<close>, \<^verbatim>\<open>unwrap_or\<close>, and the null pointer.\<close>

fun Heap_reserve :: "heap_answer option \<Rightarrow> nat option" where
  "Heap_reserve (Some (AAlloc r)) = r"
| "Heap_reserve _ = None"

fun Heap_stats :: "heap_answer option \<Rightarrow> HeapStats" where
  "Heap_stats (Some (AStats s)) = s"
| "Heap_stats _ = \<lparr>s_used = 0, s_peak = 0, s_capacity = 0, s_ceiling = 0, s_allocs = 0, s_frees = 0, s_failed = 0, s_bad_frees = 0\<rparr>"

fun Heap_check :: "heap_answer option \<Rightarrow> HeapCorrupt + Walk" where
  "Heap_check (Some (ACheck r)) = r"
| "Heap_check _ = Inl (HeapCorrupt 0 ''heap busy'')"

definition Heap_used :: "heap_answer option \<Rightarrow> nat" where
  "Heap_used a = s_used (Heap_stats a)"

definition Heap_capacity :: "heap_answer option \<Rightarrow> nat" where
  "Heap_capacity a = s_capacity (Heap_stats a)"

definition GlobalAlloc_alloc :: "heap_answer option \<Rightarrow> nat" where
  "GlobalAlloc_alloc a = (case Heap_reserve a of Some p \<Rightarrow> p | None \<Rightarrow> 0)"

section \<open>The lock\<close>

text \<open>Where a call stands in \<^verbatim>\<open>with\<close>; the number is \<^verbatim>\<open>spins\<close>.\<close>

datatype frame =
    Enter heap_call
  | Trying heap_call u64
  | Spinning heap_call u64
  | Holding heap_call
  | Working heap_call HState
  | Releasing heap_answer
  | Returned "heap_answer option"

record lock_sys =
  owner :: u64
  lst :: HState
  lstats :: LockStats
  frames :: "u64 \<Rightarrow> frame list"

definition lock_new :: "(nat \<Rightarrow> nat) \<Rightarrow> lock_sys" where
  "lock_new m = \<lparr>owner = LOCK_FREE, lst = State_empty m,
     lstats = \<lparr>taken = 0, contended = 0, longest_spin = 0, reentered = 0\<rparr>, frames = \<lambda>_. []\<rparr>"

definition refused :: "LockStats \<Rightarrow> LockStats" where
  "refused ls = ls\<lparr>reentered := reentered ls + 1\<rparr>"

definition got :: "u64 \<Rightarrow> LockStats \<Rightarrow> LockStats" where
  "got spins ls =
     (let ls1 = ls\<lparr>taken := taken ls + 1\<rparr> in
      if spins > 0 then ls1\<lparr>contended := contended ls1 + 1, longest_spin := max (longest_spin ls1) spins\<rparr> else ls1)"

definition set_top :: "lock_sys \<Rightarrow> u64 \<Rightarrow> frame \<Rightarrow> frame list \<Rightarrow> lock_sys" where
  "set_top s me f rest = s\<lparr>frames := (frames s)(me := f # rest)\<rparr>"

text \<open>
  One atomic step of core \<open>me\<close>; the third argument is the call whose closure ended in that step, if one did.
  A weak exchange may fail although the lock is free.  The frame \<open>Working\<close> is the closure under way, with the
  state it started from; \<open>step_touch\<close> is any store it makes on its way, \<open>step_done\<close> its last one.
\<close>

inductive lock_step :: "lock_sys \<Rightarrow> u64 \<Rightarrow> (heap_call \<times> heap_answer) option \<Rightarrow> lock_sys \<Rightarrow> bool" where
  step_call: "lock_step s me None (s\<lparr>frames := (frames s)(me := Enter c # frames s me)\<rparr>)"
| step_reserved: "frames s me = Enter c # rest \<Longrightarrow> me = LOCK_FREE \<Longrightarrow>
    lock_step s me None (set_top (s\<lparr>lstats := refused (lstats s)\<rparr>) me (Returned None) rest)"
| step_start: "frames s me = Enter c # rest \<Longrightarrow> me \<noteq> LOCK_FREE \<Longrightarrow> lock_step s me None (set_top s me (Trying c 0) rest)"
| step_take: "frames s me = Trying c k # rest \<Longrightarrow> owner s = LOCK_FREE \<Longrightarrow>
    lock_step s me None (set_top (s\<lparr>owner := me, lstats := got k (lstats s)\<rparr>) me (Holding c) rest)"
| step_own: "frames s me = Trying c k # rest \<Longrightarrow> owner s = me \<Longrightarrow>
    lock_step s me None (set_top (s\<lparr>lstats := refused (lstats s)\<rparr>) me (Returned None) rest)"
| step_fail: "frames s me = Trying c k # rest \<Longrightarrow> owner s \<noteq> me \<Longrightarrow> lock_step s me None (set_top s me (Spinning c k) rest)"
| step_spin: "frames s me = Spinning c k # rest \<Longrightarrow> owner s \<noteq> LOCK_FREE \<Longrightarrow>
    lock_step s me None (set_top s me (Spinning c (k + 1)) rest)"
| step_again: "frames s me = Spinning c k # rest \<Longrightarrow> owner s = LOCK_FREE \<Longrightarrow> lock_step s me None (set_top s me (Trying c k) rest)"
| step_begin: "frames s me = Holding c # rest \<Longrightarrow> lock_step s me None (set_top s me (Working c (lst s)) rest)"
| step_touch: "frames s me = Working c st # rest \<Longrightarrow> lock_step s me None (s\<lparr>lst := torn\<rparr>)"
| step_done: "frames s me = Working c st # rest \<Longrightarrow> run_call c st = Inr (a, st') \<Longrightarrow>
    lock_step s me (Some (c, a)) (set_top (s\<lparr>lst := st'\<rparr>) me (Releasing a) rest)"
| step_release: "frames s me = Releasing a # rest \<Longrightarrow>
    lock_step s me None (set_top (s\<lparr>owner := LOCK_FREE\<rparr>) me (Returned (Some a)) rest)"
| step_return: "frames s me = Returned r # rest \<Longrightarrow> lock_step s me None (s\<lparr>frames := (frames s)(me := rest)\<rparr>)"

text \<open>Reachable systems, with the calls that ran, in order.\<close>

inductive lock_reach :: "lock_sys \<Rightarrow> (heap_call \<times> heap_answer) list \<Rightarrow> bool" where
  lock_init: "lock_reach (lock_new m) []"
| lock_next: "lock_reach s log \<Longrightarrow> lock_step s me e s' \<Longrightarrow> lock_reach s' (log @ (case e of None \<Rightarrow> [] | Some x \<Rightarrow> [x]))"

text \<open>The sequential heap: the calls of a log one after the other, each with its answer.\<close>

fun replay :: "HState \<Rightarrow> (heap_call \<times> heap_answer) list \<Rightarrow> HState option" where
  "replay st [] = Some st"
| "replay st ((c, a) # log) =
     (case run_call c st of Inr (b, st') \<Rightarrow> if b = a then replay st' log else None | Inl _ \<Rightarrow> None)"

section \<open>At most one core is inside\<close>

fun inside :: "frame \<Rightarrow> bool" where
  "inside (Holding c) = True"
| "inside (Working c st) = True"
| "inside (Releasing a) = True"
| "inside _ = False"

definition holds :: "lock_sys \<Rightarrow> u64 \<Rightarrow> nat" where
  "holds s me = length (filter inside (frames s me))"

text \<open>A call that waits has no holding call of its own core underneath.\<close>

fun patient :: "frame list \<Rightarrow> bool" where
  "patient [] = True"
| "patient (Spinning c k # fs) \<longleftrightarrow> (\<forall>f \<in> set fs. \<not> inside f) \<and> patient fs"
| "patient (f # fs) = patient fs"

fun outside :: "frame \<Rightarrow> bool" where
  "outside (Enter c) = True"
| "outside (Returned r) = True"
| "outside _ = False"

definition lock_inv :: "lock_sys \<Rightarrow> bool" where
  "lock_inv s \<longleftrightarrow> (\<forall>me. holds s me = of_bool (me \<noteq> LOCK_FREE \<and> owner s = me)) \<and> (\<forall>me. patient (frames s me)) \<and>
     (\<forall>f \<in> set (frames s LOCK_FREE). outside f)"

lemma lock_invD:
  assumes "lock_inv s"
  shows "holds s c = of_bool (c \<noteq> LOCK_FREE \<and> owner s = c)" "patient (frames s c)" "f \<in> set (frames s LOCK_FREE) \<Longrightarrow> outside f"
proof -
  note i = assms [unfolded lock_inv_def]
  show "holds s c = of_bool (c \<noteq> LOCK_FREE \<and> owner s = c)" by (rule spec [OF conjunct1 [OF i]])
  show "patient (frames s c)" by (rule spec [OF conjunct1 [OF conjunct2 [OF i]]])
  show "f \<in> set (frames s LOCK_FREE) \<Longrightarrow> outside f" by (rule bspec [OF conjunct2 [OF conjunct2 [OF i]]])
qed

lemma lock_invI:
  assumes "\<And>c. holds s c = of_bool (c \<noteq> LOCK_FREE \<and> owner s = c)" "\<And>c. patient (frames s c)"
    "\<And>f. f \<in> set (frames s LOCK_FREE) \<Longrightarrow> outside f"
  shows "lock_inv s"
  unfolding lock_inv_def by (intro conjI allI ballI assms)

lemma set_top_simps [simp]:
  "owner (set_top s me f rest) = owner s" "lst (set_top s me f rest) = lst s"
  "frames (set_top s me f rest) = (frames s)(me := f # rest)"
  by (simp_all add: set_top_def)

lemma outside_not_inside: "outside f \<Longrightarrow> \<not> inside f"
  by (cases f) simp_all

lemma holds_zero: "holds s me = 0 \<longleftrightarrow> (\<forall>f \<in> set (frames s me). \<not> inside f)"
  unfolding holds_def by (simp add: filter_empty_conv)

lemma patient_tail: "patient (f # fs) \<Longrightarrow> patient fs"
  by (cases f) simp_all

lemma patient_push: "\<forall>c k. f \<noteq> Spinning c k \<Longrightarrow> patient (f # fs) = patient fs"
  by (cases f) simp_all

text \<open>A step that leaves the owner alone replaces the top of one stack by a frame that is as much inside as before.\<close>

lemma inv_swap:
  assumes inv: "lock_inv s" and o: "owner s' = owner s" "frames s' = (frames s)(me := g @ rest)" "frames s me = f @ rest"
    and i: "length (filter inside g) = length (filter inside f)"
    and p: "patient (g @ rest)" and z: "me = LOCK_FREE \<Longrightarrow> \<forall>x \<in> set g. outside x"
  shows "lock_inv s'"
proof -
  note d = lock_invD [OF inv]
  show ?thesis
  proof (rule lock_invI)
    fix c
    have "holds s' c = holds s c"
    proof (cases "c = me")
      case True
      show ?thesis unfolding holds_def True o(2,3) fun_upd_same filter_append length_append i ..
    next
      case False
      show ?thesis unfolding holds_def o(2) fun_upd_other [OF False] ..
    qed
    then show "holds s' c = of_bool (c \<noteq> LOCK_FREE \<and> owner s' = c)" unfolding o(1) d(1) [of c, symmetric] .
    show "patient (frames s' c)"
    proof (cases "c = me")
      case True
      show ?thesis unfolding True o(2) fun_upd_same by (rule p)
    next
      case False
      show ?thesis unfolding o(2) fun_upd_other [OF False] by (rule d(2))
    qed
  next
    fix x
    assume x: "x \<in> set (frames s' LOCK_FREE)"
    show "outside x"
    proof (cases "me = LOCK_FREE")
      case True
      then have "x \<in> set g \<or> x \<in> set (frames s LOCK_FREE)" using x o(2,3) by auto
      then show ?thesis using z [OF True] d(3) by blast
    next
      case False
      then have "x \<in> set (frames s LOCK_FREE)" using x o(2) by auto
      then show ?thesis by (rule d(3))
    qed
  qed
qed

lemma inv_top:
  assumes "lock_inv s" "owner s' = owner s" "frames s' = (frames s)(me := g # rest)" "frames s me = f # rest"
    "inside g = inside f" "\<And>c k. g \<noteq> Spinning c k" "me = LOCK_FREE \<Longrightarrow> outside g"
  shows "lock_inv s'"
proof (rule inv_swap [where g = "[g]" and f = "[f]" and rest = rest, OF assms(1,2)])
  have "patient (f # rest)" using lock_invD(2) [OF assms(1), of me] assms(4) by simp
  then show "patient ([g] @ rest)" using patient_tail [of f rest] patient_push [of g rest] assms(6) by simp
qed (use assms in simp_all)

text \<open>Only a core with an identity of its own gets past the first test.\<close>

lemma real_core: "lock_inv s \<Longrightarrow> frames s me = f # rest \<Longrightarrow> \<not> outside f \<Longrightarrow> me \<noteq> LOCK_FREE"
  using lock_invD(3) [of s f] by auto

lemma inv_owner:
  assumes inv: "lock_inv s" and me: "me \<noteq> LOCK_FREE" and f: "frames s' = (frames s)(me := g # rest)" "frames s me = f # rest"
    and g: "\<And>c k. g \<noteq> Spinning c k" and h: "\<And>c. holds s' c = of_bool (c \<noteq> LOCK_FREE \<and> owner s' = c)"
  shows "lock_inv s'"
proof (rule lock_invI [OF h])
  note d = lock_invD [OF inv]
  have "patient (g # rest)" using patient_tail [of f rest] patient_push [of g rest] g d(2) [of me] f(2) by simp
  then show "patient (frames s' c)" for c using d(2) [of c] by (cases "c = me") (simp_all add: f(1))
  show "outside x" if "x \<in> set (frames s' LOCK_FREE)" for x using d(3) [of x] that me by (simp add: f(1))
qed

lemma lock_step_inv: "lock_step s me e s' \<Longrightarrow> lock_inv s \<Longrightarrow> lock_inv s'"
proof (induction rule: lock_step.induct)
  case (step_call s me c)
  show ?case
    by (rule inv_swap [where g = "[Enter c]" and f = "[]" and rest = "frames s me", OF step_call])
      (use lock_invD(2) [OF step_call, of me] in simp_all)
next
  case (step_reserved s me c rest)
  show ?case by (rule inv_top [where g = "Returned None", OF step_reserved(3) _ _ step_reserved(1)]) simp_all
next
  case (step_start s me c rest)
  show ?case by (rule inv_top [where g = "Trying c 0", OF step_start(3) _ _ step_start(1)]) (use step_start(2) in simp_all)
next
  case (step_take s me c k rest)
  have me: "me \<noteq> LOCK_FREE" by (rule real_core [OF step_take(3,1)]) simp
  have z: "holds s x = 0" for x using lock_invD(1) [OF step_take(3), of x] step_take(2) by auto
  let ?s = "set_top (s\<lparr>owner := me, lstats := got k (lstats s)\<rparr>) me (Holding c) rest"
  have "holds ?s x = of_bool (x \<noteq> LOCK_FREE \<and> owner ?s = x)" for x
    using z [of x] z [of me] step_take(1) me by (cases "x = me") (auto simp: holds_def)
  then show ?case by (intro inv_owner [where g = "Holding c", OF step_take(3) me _ step_take(1)]) simp_all
next
  case (step_own s me c k rest)
  show ?case by (rule inv_top [where g = "Returned None", OF step_own(3) _ _ step_own(1)]) simp_all
next
  case (step_fail s me c k rest)
  have "holds s me = 0" using lock_invD(1) [OF step_fail(3), of me] step_fail(2) by simp
  then have n: "\<forall>f \<in> set rest. \<not> inside f" unfolding holds_zero step_fail(1) by simp
  have p: "patient (Trying c k # rest)" using lock_invD(2) [OF step_fail(3), of me] step_fail(1) by simp
  have me: "me \<noteq> LOCK_FREE" by (rule real_core [OF step_fail(3,1)]) simp
  show ?case
    by (rule inv_swap [where g = "[Spinning c k]" and f = "[Trying c k]" and rest = rest and me = me, OF step_fail(3)])
      (use step_fail(1) n p me in simp_all)
next
  case (step_spin s me c k rest)
  have p: "patient (Spinning c k # rest)" using lock_invD(2) [OF step_spin(3), of me] step_spin(1) by simp
  have me: "me \<noteq> LOCK_FREE" by (rule real_core [OF step_spin(3,1)]) simp
  show ?case
    by (rule inv_swap [where g = "[Spinning c (k + 1)]" and f = "[Spinning c k]" and rest = rest and me = me, OF step_spin(3)])
      (use step_spin(1) p me in simp_all)
next
  case (step_again s me c k rest)
  have me: "me \<noteq> LOCK_FREE" by (rule real_core [OF step_again(3,1)]) simp
  show ?case by (rule inv_top [where g = "Trying c k", OF step_again(3) _ _ step_again(1)]) (use me in simp_all)
next
  case (step_begin s me c rest)
  have me: "me \<noteq> LOCK_FREE" by (rule real_core [OF step_begin(2,1)]) simp
  show ?case by (rule inv_top [where g = "Working c (lst s)", OF step_begin(2) _ _ step_begin(1)]) (use me in simp_all)
next
  case (step_touch s me c st rest torn)
  show ?case
    by (rule inv_swap [where g = "[]" and f = "[]" and rest = "frames s me" and me = me, OF step_touch(2)])
      (use lock_invD(2) [OF step_touch(2), of me] in simp_all)
next
  case (step_done s me c st rest a st')
  have me: "me \<noteq> LOCK_FREE" by (rule real_core [OF step_done(3,1)]) simp
  show ?case by (rule inv_top [where g = "Releasing a", OF step_done(3) _ _ step_done(1)]) (use me in simp_all)
next
  case (step_release s me a rest)
  have me: "me \<noteq> LOCK_FREE" by (rule real_core [OF step_release(2,1)]) simp
  note h = lock_invD(1) [OF step_release(2)]
  have "0 < holds s me" using step_release(1) by (simp add: holds_def)
  then have o: "owner s = me" using h [of me] by (cases "owner s = me") simp_all
  let ?s = "set_top (s\<lparr>owner := LOCK_FREE\<rparr>) me (Returned (Some a)) rest"
  have "holds ?s x = of_bool (x \<noteq> LOCK_FREE \<and> owner ?s = x)" for x
    using h [of x] o step_release(1) me by (cases "x = me") (auto simp: holds_def)
  then show ?case by (intro inv_owner [where g = "Returned (Some a)", OF step_release(2) me _ step_release(1)]) simp_all
next
  case (step_return s me r rest)
  have p: "patient (Returned r # rest)" using lock_invD(2) [OF step_return(2), of me] step_return(1) by simp
  show ?case
    by (rule inv_swap [where g = "[]" and f = "[Returned r]" and rest = rest, OF step_return(2)])
      (use step_return(1) p in simp_all)
qed

lemma lock_reach_inv: "lock_reach s log \<Longrightarrow> lock_inv s"
proof (induction rule: lock_reach.induct)
  case (lock_init m)
  show ?case by (rule lock_invI) (auto simp: lock_new_def holds_def)
next
  case (lock_next s log me e s')
  then show ?case using lock_step_inv by blast
qed

section \<open>The calls run one after the other\<close>

lemma replay_snoc:
  "replay st (log @ [(c, a)]) =
     (case replay st log of None \<Rightarrow> None
      | Some st' \<Rightarrow> (case run_call c st' of Inr (b, st'') \<Rightarrow> if b = a then Some st'' else None | Inl _ \<Rightarrow> None))"
  by (induction st log rule: replay.induct) (auto split: sum.splits)

text \<open>
  The state that counts: the one the call under way started from, or the shared one when none is under way.
\<close>

fun working :: "frame \<Rightarrow> bool" where
  "working (Working c st) = True"
| "working _ = False"

lemma working_inside: "working f \<Longrightarrow> inside f"
  by (cases f) simp_all

definition settled :: "lock_sys \<Rightarrow> HState \<Rightarrow> bool" where
  "settled s st \<longleftrightarrow> ((\<forall>me. \<forall>f \<in> set (frames s me). \<not> working f) \<longrightarrow> lst s = st) \<and>
     (\<forall>me c st'. Working c st' \<in> set (frames s me) \<longrightarrow> st' = st)"

lemma settledI:
  assumes "(\<And>me f. f \<in> set (frames s me) \<Longrightarrow> \<not> working f) \<Longrightarrow> lst s = st"
    "\<And>me c st'. Working c st' \<in> set (frames s me) \<Longrightarrow> st' = st"
  shows "settled s st"
  unfolding settled_def using assms by blast

lemma settledD:
  assumes "settled s st"
  shows "(\<And>me f. f \<in> set (frames s me) \<Longrightarrow> \<not> working f) \<Longrightarrow> lst s = st"
    "Working c st' \<in> set (frames s me) \<Longrightarrow> st' = st"
  using assms unfolding settled_def by blast+

text \<open>This is where the lock does its work: with one call inside, no other is under way.\<close>

lemma inside_alone:
  assumes inv: "lock_inv s" and f: "frames s me = f # rest" "inside f" and x: "x \<in> set (frames s you)" "inside x"
  shows "you = me" "x = f" "\<forall>g \<in> set rest. \<not> inside g"
proof -
  note h = lock_invD(1) [OF inv]
  have "holds s me \<noteq> 0" unfolding holds_zero using f by auto
  moreover have "holds s you \<noteq> 0" unfolding holds_zero using x by blast
  ultimately show y: "you = me" using h [of me] h [of you] by (auto split: if_splits)
  have "holds s me \<le> 1" using h [of me] by simp
  then have "length (filter inside rest) = 0" using f by (simp add: holds_def)
  then show r: "\<forall>g \<in> set rest. \<not> inside g" by (simp add: filter_empty_conv)
  show "x = f" using x r unfolding y f(1) by auto
qed

lemma settled_same:
  assumes "settled s st" "lst s' = lst s" "\<And>me f. working f \<Longrightarrow> f \<in> set (frames s' me) \<longleftrightarrow> f \<in> set (frames s me)"
  shows "settled s' st"
proof (rule settledI)
  assume "\<And>me f. f \<in> set (frames s' me) \<Longrightarrow> \<not> working f"
  then have "lst s = st" by (intro settledD(1) [OF assms(1)]) (use assms(3) in blast)
  then show "lst s' = st" unfolding assms(2) .
next
  fix me c st' assume "Working c st' \<in> set (frames s' me)"
  then show "st' = st" using settledD(2) [OF assms(1), of c st' me] assms(3) [of "Working c st'" me] by simp
qed

lemma settled_top:
  assumes "settled s st" "frames s me = f # rest" "\<not> working f" "\<not> working g" "lst u = lst s" "frames u = frames s"
  shows "settled (set_top u me g rest) st"
  by (rule settled_same [OF assms(1)]) (use assms(2-6) in auto)

lemma settled_begin:
  assumes inv: "lock_inv s" and st: "settled s st" and top: "frames s me = Holding c # rest"
  shows "settled (set_top s me (Working c (lst s)) rest) st"
proof (rule settledI)
  note alone = inside_alone [OF inv top, simplified]
  have now: "lst s = st"
    by (rule settledD(1) [OF st]) (use alone(2) working_inside in fastforce)
  assume "\<And>x f. f \<in> set (frames (set_top s me (Working c (lst s)) rest) x) \<Longrightarrow> \<not> working f"
  from this [of "Working c (lst s)" me] show "lst (set_top s me (Working c (lst s)) rest) = st" by simp
next
  note alone = inside_alone [OF inv top, simplified]
  have now: "lst s = st"
    by (rule settledD(1) [OF st]) (use alone(2) working_inside in fastforce)
  fix x d st' assume w: "Working d st' \<in> set (frames (set_top s me (Working c (lst s)) rest) x)"
  show "st' = st"
  proof (cases "x = me \<and> Working d st' = Working c (lst s)")
    case True
    then show ?thesis using now by simp
  next
    case False
    then have "Working d st' \<in> set (frames s x)" using w top by (auto split: if_splits)
    then show ?thesis by (rule settledD(2) [OF st])
  qed
qed

lemma settled_touch:
  assumes "settled s st" "frames s me = Working c st' # rest"
  shows "settled (s\<lparr>lst := torn\<rparr>) st"
proof (rule settledI)
  assume "\<And>x f. f \<in> set (frames (s\<lparr>lst := torn\<rparr>) x) \<Longrightarrow> \<not> working f"
  from this [of "Working c st'" me] show "lst (s\<lparr>lst := torn\<rparr>) = st" using assms(2) by simp
next
  fix x d u assume "Working d u \<in> set (frames (s\<lparr>lst := torn\<rparr>) x)"
  then show "u = st" using settledD(2) [OF assms(1), of d u x] by simp
qed

lemma settled_done:
  assumes inv: "lock_inv s" and top: "frames s me = Working c st # rest"
  shows "settled (set_top (s\<lparr>lst := st'\<rparr>) me (Releasing a) rest) st'"
proof (rule settledI)
  show "lst (set_top (s\<lparr>lst := st'\<rparr>) me (Releasing a) rest) = st'" by simp
next
  note alone = inside_alone [OF inv top, simplified]
  fix x d u assume w: "Working d u \<in> set (frames (set_top (s\<lparr>lst := st'\<rparr>) me (Releasing a) rest) x)"
  show "u = st'"
  proof (cases "x = me")
    case True
    then have u: "Working d u \<in> set rest" using w by simp
    then have "Working d u \<in> set (frames s me)" using top by simp
    from alone(3) [OF this] u have "\<not> inside (Working d u)" by blast
    then show ?thesis by simp
  next
    case False
    then have "Working d u \<in> set (frames s x)" using w by simp
    from alone(1) [OF this] False show ?thesis by simp
  qed
qed

text \<open>A step keeps the state that counts, and the last step of a closure makes it the outcome of its call.\<close>

lemma lock_step_settled:
  "lock_step s me e s' \<Longrightarrow> lock_inv s \<Longrightarrow> settled s st \<Longrightarrow>
    (case e of None \<Rightarrow> settled s' st | Some (c, a) \<Rightarrow> \<exists>st'. run_call c st = Inr (a, st') \<and> settled s' st')"
proof (induction rule: lock_step.induct)
  case (step_call s me c)
  show ?case unfolding option.case by (rule settled_same [OF step_call(2)]) auto
next
  case (step_begin s me c rest)
  show ?case unfolding option.case by (rule settled_begin [OF step_begin(2,3,1)])
next
  case (step_touch s me c st' rest torn)
  show ?case unfolding option.case by (rule settled_touch [OF step_touch(3,1)])
next
  case (step_done s me c u rest a st')
  have "u = st" by (rule settledD(2) [OF step_done(4), of c u me]) (simp add: step_done(1))
  then show ?case unfolding option.case prod.case using step_done(2) settled_done [OF step_done(3,1)] by blast
next
  case (step_return s me r rest)
  show ?case unfolding option.case by (rule settled_same [OF step_return(3)]) (use step_return(1) in auto)
qed (unfold option.case, (erule (1) settled_top; simp)+)

lemma lock_reach_replay: "lock_reach s log \<Longrightarrow> \<exists>m st. replay (State_empty m) log = Some st \<and> settled s st"
proof (induction rule: lock_reach.induct)
  case (lock_init m)
  have "settled (lock_new m) (State_empty m)" by (rule settledI) (simp_all add: lock_new_def)
  then show ?case by auto
next
  case (lock_next s log me e s')
  then obtain m st where m: "replay (State_empty m) log = Some st" "settled s st" by blast
  note l = lock_step_settled [OF lock_next.hyps(2) lock_reach_inv [OF lock_next.hyps(1)] m(2)]
  show ?case
  proof (cases e)
    case None
    then show ?thesis using m l by auto
  next
    case (Some x)
    obtain c a where x: "x = (c, a)" by (cases x)
    obtain st' where r: "run_call c st = Inr (a, st')" "settled s' st'" using l unfolding Some x by auto
    have "replay (State_empty m) (log @ [(c, a)]) = Some st'" using m(1) r(1) unfolding replay_snoc by simp
    then show ?thesis using r(2) unfolding Some x by auto
  qed
qed

section \<open>The allocator behind the lock\<close>

text \<open>
  What the callers of an allocator rely on, and what follows for a whole log of polite calls: each release
  names a block that is live at that moment.
\<close>

locale allocator =
  fixes reach :: "'s \<Rightarrow> lives \<Rightarrow> bool"
    and alloc :: "'s \<Rightarrow> nat \<Rightarrow> nat \<Rightarrow> unit fail + nat option \<times> 's"
    and free :: "'s \<Rightarrow> nat \<Rightarrow> unit fail + 's"
  assumes alloc_some: "reach st live \<Longrightarrow> alloc st n al = Inr (Some x, st') \<Longrightarrow> reach st' (live(x \<mapsto> (n, al)))"
    and alloc_none: "reach st live \<Longrightarrow> alloc st n al = Inr (None, st') \<Longrightarrow> reach st' live"
    and free_live: "reach st live \<Longrightarrow> live x \<noteq> None \<Longrightarrow> free st x = Inr st' \<Longrightarrow> reach st' (live(x := None))"
    and apart: "reach st live \<Longrightarrow> live x = Some (n, al) \<Longrightarrow> live y = Some (m, bl) \<Longrightarrow> x \<noteq> y \<Longrightarrow> x + n \<le> y \<or> y + m \<le> x"
    and total: "reach st live \<Longrightarrow> (\<exists>r st'. alloc st n al = Inr (r, st')) \<and> (live x \<noteq> None \<longrightarrow> (\<exists>st'. free st x = Inr st'))"

fun live_after :: "lives \<Rightarrow> (heap_call \<times> heap_answer) list \<Rightarrow> lives" where
  "live_after live [] = live"
| "live_after live ((CAlloc n al, AAlloc (Some x)) # log) = live_after (live(x \<mapsto> (n, al))) log"
| "live_after live ((CFree p, a) # log) = live_after (live(p := None)) log"
| "live_after live (_ # log) = live_after live log"

fun polite :: "lives \<Rightarrow> (heap_call \<times> heap_answer) list \<Rightarrow> bool" where
  "polite live [] = True"
| "polite live ((CAlloc n al, AAlloc (Some x)) # log) \<longleftrightarrow> polite (live(x \<mapsto> (n, al))) log"
| "polite live ((CAlloc n al, AAlloc None) # log) \<longleftrightarrow> polite live log"
| "polite live ((CFree p, AUnit) # log) \<longleftrightarrow> live p \<noteq> None \<and> polite (live(p := None)) log"
| "polite live ((CStats, AStats x) # log) \<longleftrightarrow> polite live log"
| "polite live ((CCheck, ACheck x) # log) \<longleftrightarrow> polite live log"
| "polite live _ = False"

text \<open>A log on any allocator: the calls that only look do not change it.\<close>

fun exec :: "('s \<Rightarrow> nat \<Rightarrow> nat \<Rightarrow> unit fail + nat option \<times> 's) \<Rightarrow> ('s \<Rightarrow> nat \<Rightarrow> unit fail + 's) \<Rightarrow> 's \<Rightarrow>
    (heap_call \<times> heap_answer) list \<Rightarrow> 's option" where
  "exec al fr st [] = Some st"
| "exec al fr st ((CAlloc n g, AAlloc r) # log) =
     (case al st n g of Inr (r', st') \<Rightarrow> if r' = r then exec al fr st' log else None | Inl _ \<Rightarrow> None)"
| "exec al fr st ((CFree p, a) # log) = (case fr st p of Inr st' \<Rightarrow> exec al fr st' log | Inl _ \<Rightarrow> None)"
| "exec al fr st (_ # log) = exec al fr st log"

context allocator
begin

lemma exec_reach:
  "reach st live \<Longrightarrow> polite live log \<Longrightarrow> exec alloc free st log = Some st' \<Longrightarrow> reach st' (live_after live log)"
proof (induction live log arbitrary: st rule: polite.induct)
  case (2 live n al x log)
  obtain st1 where a: "alloc st n al = Inr (Some x, st1)" "exec alloc free st1 log = Some st'"
    using 2(4) by (auto split: sum.splits if_splits)
  show ?case using 2(1) [OF alloc_some [OF 2(2) a(1)] _ a(2)] 2(3) unfolding polite.simps live_after.simps by blast
next
  case (3 live n al log)
  obtain st1 where a: "alloc st n al = Inr (None, st1)" "exec alloc free st1 log = Some st'"
    using 3(4) by (auto split: sum.splits if_splits)
  show ?case using 3(1) [OF alloc_none [OF 3(2) a(1)] _ a(2)] 3(3) unfolding polite.simps live_after.simps by blast
next
  case (4 live p log)
  obtain st1 where a: "free st p = Inr st1" "exec alloc free st1 log = Some st'" using 4(4) by (auto split: sum.splits)
  have l: "live p \<noteq> None" using 4(3) by simp
  show ?case using 4(1) [OF free_live [OF 4(2) l a(1)] _ a(2)] 4(3) unfolding polite.simps live_after.simps by blast
qed simp_all

lemma exec_apart:
  assumes "reach st live" "polite live log" "exec alloc free st log = Some st'"
    "live_after live log x = Some (n, al)" "live_after live log y = Some (m, bl)" "x \<noteq> y"
  shows "x + n \<le> y \<or> y + m \<le> x"
  by (rule apart [OF exec_reach [OF assms(1-3)] assms(4-6)])

end

interpretation hp: allocator heap_reach State_alloc State_free
proof (unfold_locales)
  fix st live n al x st'
  assume r: "heap_reach st live"
  show "State_alloc st n al = Inr (Some x, st') \<Longrightarrow> heap_reach st' (live(x \<mapsto> (n, al)))" by (rule reach_alloc [OF r])
  show "State_alloc st n al = Inr (None, st') \<Longrightarrow> heap_reach st' live" by (rule reach_full [OF r])
  show "live x \<noteq> None \<Longrightarrow> State_free st x = Inr st' \<Longrightarrow> heap_reach st' (live(x := None))" by (rule reach_free [OF r])
  show "(\<exists>r st'. State_alloc st n al = Inr (r, st')) \<and> (live x \<noteq> None \<longrightarrow> (\<exists>st'. State_free st x = Inr st'))" by (rule reach_total [OF r])
  fix y m bl
  show "live x = Some (n, al) \<Longrightarrow> live y = Some (m, bl) \<Longrightarrow> x \<noteq> y \<Longrightarrow> x + n \<le> y \<or> y + m \<le> x" by (rule heap_apart [OF r])
qed

lemma replay_exec: "polite live log \<Longrightarrow> replay st log = Some st' \<Longrightarrow> exec State_alloc State_free st log = Some st'"
  by (induction live log arbitrary: st rule: polite.induct) (auto split: sum.splits if_splits)

lemma init_reach: "a < 2 ^ 64 \<Longrightarrow> b < 2 ^ 64 \<Longrightarrow> replay st ((CInit a b, AUnit) # log) = Some st' \<Longrightarrow>
    \<exists>st0. heap_reach st0 (\<lambda>_. None) \<and> replay st0 log = Some st'"
  by (rule exI [of _ "State_init st a b"]) (simp add: reach_init)

section \<open>One call on a free lock\<close>

definition calm_lock :: "lock_sys \<Rightarrow> u64 \<Rightarrow> (heap_call \<times> heap_answer) list \<Rightarrow> HState \<Rightarrow> bool" where
  "calm_lock s me log st \<longleftrightarrow> lock_reach s log \<and> owner s = LOCK_FREE \<and> frames s me = [] \<and> lst s = st"

lemma lock_quiet: "lock_reach s log \<Longrightarrow> lock_step s me None s' \<Longrightarrow> lock_reach s' log"
  using lock_next [of s log me None s'] by simp

text \<open>A call takes the lock when it is free.\<close>

lemma lock_enter:
  assumes "calm_lock s me log st" "me \<noteq> LOCK_FREE"
  obtains s' where "lock_reach s' log" "owner s' = me" "frames s' me = [Holding c]" "lst s' = st"
    "\<And>x. x \<noteq> me \<Longrightarrow> frames s' x = frames s x"
proof -
  let ?s1 = "s\<lparr>frames := (frames s)(me := Enter c # frames s me)\<rparr>"
  let ?s2 = "set_top ?s1 me (Trying c 0) []"
  let ?s3 = "set_top (?s2\<lparr>owner := me, lstats := got 0 (lstats ?s2)\<rparr>) me (Holding c) []"
  have s: "lock_reach s log" "owner s = LOCK_FREE" "frames s me = []" "lst s = st" using assms(1) by (simp_all add: calm_lock_def)
  have "lock_reach ?s1 log" by (rule lock_quiet [OF s(1) step_call])
  then have "lock_reach ?s2 log" by (rule lock_quiet [OF _ step_start]) (use s(3) assms(2) in simp_all)
  then have "lock_reach ?s3 log" by (rule lock_quiet [OF _ step_take]) (use s(2) in simp_all)
  then show thesis by (rule that) (use s in simp_all)
qed

lemma lock_call:
  assumes "calm_lock s me log st" "me \<noteq> LOCK_FREE" "run_call c st = Inr (a, st')"
  obtains s' where "calm_lock s' me (log @ [(c, a)]) st'"
proof -
  obtain s1 where s: "lock_reach s1 log" "owner s1 = me" "frames s1 me = [Holding c]" "lst s1 = st"
    by (rule lock_enter [OF assms(1,2)])
  let ?w = "set_top s1 me (Working c (lst s1)) []"
  let ?s2 = "set_top (?w\<lparr>lst := st'\<rparr>) me (Releasing a) []"
  let ?s3 = "set_top (?s2\<lparr>owner := LOCK_FREE\<rparr>) me (Returned (Some a)) []"
  let ?s4 = "?s3\<lparr>frames := (frames ?s3)(me := [])\<rparr>"
  have w: "lock_reach ?w log" by (rule lock_quiet [OF s(1) step_begin [OF s(3)]])
  have "lock_step ?w me (Some (c, a)) ?s2" by (rule step_done) (use s assms(3) in simp_all)
  then have "lock_reach ?s2 (log @ [(c, a)])" using lock_next [OF w, of me "Some (c, a)"] by simp
  then have "lock_reach ?s3 (log @ [(c, a)])" by (rule lock_quiet [OF _ step_release]) simp
  then have "lock_reach ?s4 (log @ [(c, a)])" by (rule lock_quiet [OF _ step_return]) simp
  then have "calm_lock ?s4 me (log @ [(c, a)]) st'" unfolding calm_lock_def by simp
  then show thesis by (rule that)
qed

lemma lock_run:
  obtains s where "calm_lock s 5 [(CInit 4096 4352, AUnit), (CAlloc 16 8, AAlloc (Some 4112)), (CAlloc 16 8, AAlloc (Some 4144))] h2"
proof -
  have me: "(5 :: u64) \<noteq> LOCK_FREE" by (simp add: LOCK_FREE_def)
  have 0: "calm_lock (lock_new (\<lambda>_. 0)) 5 [] (State_empty (\<lambda>_. 0))" by (simp add: calm_lock_def lock_init) (simp add: lock_new_def)
  have r: "run_call (CInit 4096 4352) (State_empty (\<lambda>_. 0)) = Inr (AUnit, h0)" "run_call (CAlloc 16 8) h0 = Inr (AAlloc (Some 4112), h1)"
    "run_call (CAlloc 16 8) h1 = Inr (AAlloc (Some 4144), h2)" by (simp_all add: run_h0 run_a0 run_a1)
  obtain s1 where 1: "calm_lock s1 5 ([] @ [(CInit 4096 4352, AUnit)]) h0" by (rule lock_call [OF 0 me r(1)])
  obtain s2 where 2: "calm_lock s2 5 (([] @ [(CInit 4096 4352, AUnit)]) @ [(CAlloc 16 8, AAlloc (Some 4112))]) h1" by (rule lock_call [OF 1 me r(2)])
  obtain s3 where 3: "calm_lock s3 5 ((([] @ [(CInit 4096 4352, AUnit)]) @ [(CAlloc 16 8, AAlloc (Some 4112))]) @ [(CAlloc 16 8, AAlloc (Some 4144))]) h2"
    by (rule lock_call [OF 2 me r(3)])
  show thesis by (rule that [OF 3 [simplified]])
qed

section \<open>Properties\<close>

text \<open>
  C18.  At any moment at most one call is between taking and releasing the lock, on the core whose identity
  the lock shows; this holds for every interleaving and for calls nested on one core.
\<close>

theorem lock_exclusive:
  assumes "lock_reach s log" "f \<in> set (frames s a)" "inside f" "g \<in> set (frames s b)" "inside g"
  shows "a = b \<and> owner s = a \<and> a \<noteq> LOCK_FREE \<and> length (filter inside (frames s a)) = 1"
proof -
  note h = lock_invD(1) [OF lock_reach_inv [OF assms(1)]]
  have "holds s a \<noteq> 0" "holds s b \<noteq> 0" unfolding holds_zero using assms(2-5) by blast+
  then show ?thesis using h [of a] h [of b] unfolding holds_def by (auto split: if_splits)
qed

theorem lock_exclusive_witness:
  "\<exists>s log. lock_reach s log \<and> owner s = 5 \<and> length (filter inside (frames s 5)) = 1"
proof -
  have me: "(5 :: u64) \<noteq> LOCK_FREE" by (simp add: LOCK_FREE_def)
  have 0: "calm_lock (lock_new (\<lambda>_. 0)) 5 [] (State_empty (\<lambda>_. 0))" by (simp add: calm_lock_def lock_init) (simp add: lock_new_def)
  obtain s where s: "lock_reach s []" "owner s = 5" "frames s 5 = [Holding CStats]" by (rule lock_enter [OF 0 me])
  show ?thesis using lock_exclusive [OF s(1), of "Holding CStats" 5 "Holding CStats" 5] s by auto
qed

text \<open>
  A core never waits for itself: a call that spins does so on a lock that another core holds, or that
  is free by now; a call on top of a holder is refused at its first attempt instead.
\<close>

theorem lock_no_self_wait:
  assumes "lock_reach s log" "frames s me = Spinning c k # rest"
  shows "owner s \<noteq> me \<and> me \<noteq> LOCK_FREE \<and> (\<forall>f \<in> set rest. \<not> inside f)"
proof -
  note inv = lock_reach_inv [OF assms(1)]
  have p: "patient (Spinning c k # rest)" using lock_invD(2) [OF inv, of me] assms(2) by simp
  have me: "me \<noteq> LOCK_FREE" by (rule real_core [OF inv assms(2)]) simp
  have "holds s me = 0" using p by (simp add: holds_def assms(2) filter_empty_conv)
  then have "owner s \<noteq> me" using lock_invD(1) [OF inv, of me] me by auto
  then show ?thesis using me p by simp
qed

theorem lock_no_self_wait_witness:
  "\<exists>s log c k rest. lock_reach s log \<and> frames s 6 = Spinning c k # rest \<and> owner s \<noteq> 6"
proof -
  have me: "(5 :: u64) \<noteq> LOCK_FREE" "(6 :: u64) \<noteq> LOCK_FREE" by (simp_all add: LOCK_FREE_def)
  have 0: "calm_lock (lock_new (\<lambda>_. 0)) 5 [] (State_empty (\<lambda>_. 0))" by (simp add: calm_lock_def lock_init) (simp add: lock_new_def)
  obtain s where s: "lock_reach s []" "owner s = 5" and f: "\<And>x. x \<noteq> 5 \<Longrightarrow> frames s x = frames (lock_new (\<lambda>_. 0)) x"
    by (rule lock_enter [OF 0 me(1)]) auto
  let ?s1 = "s\<lparr>frames := (frames s)(6 := Enter CStats # frames s 6)\<rparr>"
  let ?s2 = "set_top ?s1 6 (Trying CStats 0) []"
  have six: "frames s 6 = []" using f [of 6] by (simp add: lock_new_def)
  have "lock_reach ?s1 []" by (rule lock_quiet [OF s(1) step_call])
  then have "lock_reach ?s2 []" by (rule lock_quiet [OF _ step_start]) (use six me in simp_all)
  then have r: "lock_reach (set_top ?s2 6 (Spinning CStats 0) []) []" by (rule lock_quiet [OF _ step_fail]) (use s in simp_all)
  have t: "frames (set_top ?s2 6 (Spinning CStats 0) []) 6 = Spinning CStats 0 # []" by simp
  show ?thesis using lock_no_self_wait [OF r t] r t by blast
qed

text \<open>
  C19.  The lock makes the heap sequential: a call works on the shared state in many steps, from the state it
  found, and yet, whatever the interleaving and whatever the state shows on the way, no call starts from a
  half-done state and no result is lost.  The calls that ended, one after the other on an empty heap, each
  with the answer it got, give the state that a call under way started from, and the shared state whenever
  no call is under way.
\<close>

theorem lock_linearizes:
  assumes "lock_reach s log"
  shows "\<exists>m st. replay (State_empty m) log = Some st \<and>
    (\<forall>me c st'. Working c st' \<in> set (frames s me) \<longrightarrow> st' = st) \<and>
    ((\<forall>me c st'. Working c st' \<notin> set (frames s me)) \<longrightarrow> lst s = st)"
proof -
  obtain m st where m: "replay (State_empty m) log = Some st" "settled s st" using lock_reach_replay [OF assms] by blast
  have "lst s = st" if no: "\<forall>me c st'. Working c st' \<notin> set (frames s me)"
  proof (rule settledD(1) [OF m(2)])
    fix me f assume "f \<in> set (frames s me)"
    then show "\<not> working f" using no by (metis working.elims(2))
  qed
  then show ?thesis using m(1) settledD(2) [OF m(2)] by blast
qed

text \<open>A run in which one core is at work on a heap that two earlier calls left, with the shared state torn.\<close>

theorem lock_linearizes_witness:
  "\<exists>s m. lock_reach s [(CInit 4096 4352, AUnit), (CAlloc 16 8, AAlloc (Some 4112)), (CAlloc 16 8, AAlloc (Some 4144))] \<and>
    lst s \<noteq> h2 \<and> Working CStats h2 \<in> set (frames s 5) \<and>
    replay (State_empty m) [(CInit 4096 4352, AUnit), (CAlloc 16 8, AAlloc (Some 4112)), (CAlloc 16 8, AAlloc (Some 4144))] = Some h2"
proof -
  let ?log = "[(CInit 4096 4352, AUnit), (CAlloc 16 8, AAlloc (Some 4112)), (CAlloc 16 8, AAlloc (Some 4144))]"
  have me: "(5 :: u64) \<noteq> LOCK_FREE" by (simp add: LOCK_FREE_def)
  obtain s0 where 0: "calm_lock s0 5 ?log h2" by (rule lock_run)
  obtain s where s: "lock_reach s ?log" "frames s 5 = [Holding CStats]" "lst s = h2" by (rule lock_enter [OF 0 me])
  let ?w = "set_top s 5 (Working CStats (lst s)) []"
  let ?t = "?w\<lparr>lst := h2\<lparr>hused := hused h2 + 1\<rparr>\<rparr>"
  have w: "lock_reach ?w ?log" by (rule lock_quiet [OF s(1) step_begin [OF s(2)]])
  have t: "lock_reach ?t ?log" by (rule lock_quiet [OF w step_touch [where c = CStats and st = h2 and rest = "[]" and me = 5]]) (simp add: s(3))
  have in5: "Working CStats h2 \<in> set (frames ?t 5)" by (simp add: s(3))
  have torn: "lst ?t \<noteq> h2"
  proof
    assume "lst ?t = h2"
    from arg_cong [OF this, of hused] show False by simp
  qed
  obtain m st where r: "replay (State_empty m) ?log = Some st"
    and st: "\<forall>me c st'. Working c st' \<in> set (frames ?t me) \<longrightarrow> st' = st" using lock_linearizes [OF t] by auto
  have "h2 = st" using st [rule_format, OF in5] .
  then have "replay (State_empty m) ?log = Some h2" using r by simp
  then show ?thesis using t in5 torn by blast
qed

text \<open>
  Allocations of different cores never overlap: when the heap was given its region first and every release
  named a live block, the blocks that are live after any interleaving of the calls are pairwise disjoint.
\<close>

theorem lock_cores_apart:
  assumes "lock_reach s ((CInit lo hi, AUnit) # log)" "lo < 2 ^ 64" "hi < 2 ^ 64" "polite (\<lambda>_. None) log"
    and "live_after (\<lambda>_. None) log x = Some (n, al)" "live_after (\<lambda>_. None) log y = Some (m, bl)" "x \<noteq> y"
  shows "x + n \<le> y \<or> y + m \<le> x"
proof -
  obtain mm st where r: "replay (State_empty mm) ((CInit lo hi, AUnit) # log) = Some st" using lock_reach_replay [OF assms(1)] by blast
  obtain st0 where s: "heap_reach st0 (\<lambda>_. None)" "replay st0 log = Some st" using init_reach [OF assms(2,3) r] by blast
  show ?thesis by (rule hp.exec_apart [OF s(1) assms(4) replay_exec [OF assms(4) s(2)] assms(5-7)])
qed

theorem lock_cores_apart_witness:
  "(4112 :: nat) + 16 \<le> 4144 \<or> (4144 :: nat) + 16 \<le> 4112"
proof -
  let ?log = "[(CAlloc 16 8, AAlloc (Some 4112)), (CAlloc 16 8, AAlloc (Some 4144))]"
  obtain s where "calm_lock s 5 ((CInit 4096 4352, AUnit) # ?log) h2" by (rule lock_run)
  then have "lock_reach s ((CInit 4096 4352, AUnit) # ?log)" by (simp add: calm_lock_def)
  then show ?thesis by (rule lock_cores_apart [of s 4096 4352 ?log 4112 16 8 4144 16 8]) simp_all
qed

end
