(* ===== verification/PartSafe.thy ===== *)
theory PartSafe
  imports PartMem "HOL-Library.Disjoint_Sets"
begin

unbundle bit_operations_syntax

text \<open>
  The partition pool hands no byte out twice.  The memory of the pool is seen as a family of sets of
  bytes indexed by its holders: the free list, the slots and the devices.  Every operation moves a
  set from one holder to another, so the family stays disjoint and within the memory of the board
  without the kernel.
\<close>

section \<open>Granules as natural numbers\<close>

abbreviation grain :: nat where "grain \<equiv> 2097152"

definition aligned :: "nat \<Rightarrow> bool" where
  "aligned n \<longleftrightarrow> n mod grain = 0"

lemma aligned_add: "aligned a \<Longrightarrow> aligned b \<Longrightarrow> aligned (a + b)"
  by (simp add: aligned_def mod_eq_0_iff_dvd)

lemma aligned_diff: "aligned a \<Longrightarrow> aligned b \<Longrightarrow> aligned (a - b)"
  by (simp add: aligned_def mod_eq_0_iff_dvd dvd_diff_nat)

lemma GRAIN_mask: "GRAIN_2M - 1 = mask 21"
  by (simp add: GRAIN_2M_def mask_eq_exp_minus_1)

lemma unat_GRAIN: "unat GRAIN_2M = grain"
  by (simp add: GRAIN_2M_def)

lemma unat_grain_down: "unat (grain_down x) = unat x div grain * grain"
  unfolding grain_down_def GRAIN_mask unat_and_not_mask by simp

lemma unat_mod_GRAIN: "x mod GRAIN_2M = 0 \<longleftrightarrow> aligned (unat x)"
  unfolding aligned_def by (metis unat_GRAIN unat_eq_0 unat_mod)

lemma grain_down_aligned: "aligned (unat x) \<Longrightarrow> grain_down x = x"
  using div_mult_mod_eq [of "unat x" grain] by (simp add: word_unat_eq_iff unat_grain_down aligned_def)

lemma unat_grain_down_aligned: "aligned (unat (grain_down x))"
  by (simp add: unat_grain_down aligned_def)

lemma align_grain_Some:
  assumes "align_grain n = Some k"
  shows "aligned (unat k)" "unat n \<le> unat k" "unat k < unat n + grain"
proof -
  from assms obtain v where v: "checked_add n (GRAIN_2M - 1) = Some v" "k = grain_down v"
    by (auto simp: align_grain_def)
  have "unat (GRAIN_2M - 1) = grain - 1" by (simp add: GRAIN_2M_def)
  with v(1) have u: "unat v = unat n + (grain - 1)" by (simp add: chk_simps)
  show "aligned (unat k)" unfolding v(2) by (rule unat_grain_down_aligned)
  have "unat k = (unat n + (grain - 1)) div grain * grain" unfolding v(2) unat_grain_down u ..
  then show "unat n \<le> unat k" "unat k < unat n + grain" by linarith+
qed

section \<open>Pieces\<close>

abbreviation rlo :: "Region \<Rightarrow> nat" where "rlo r \<equiv> unat (base r)"
abbreviation rhi :: "Region \<Rightarrow> nat" where "rhi r \<equiv> unat (base r) + unat (rsize r)"

definition piece :: "Region \<Rightarrow> bool" where
  "piece r \<longleftrightarrow> 0 < unat (rsize r) \<and> rhi r < 2 ^ 64 \<and> aligned (rlo r) \<and> aligned (unat (rsize r))"

definition pieces :: "Region list \<Rightarrow> bool" where
  "pieces fs \<longleftrightarrow> sorted_wrt (\<lambda>a b. rhi a \<le> rlo b) fs \<and> list_all piece fs"

definition bytes :: "Region list \<Rightarrow> nat set" where
  "bytes fs = (\<Union>r \<in> set fs. region_bytes r)"

lemma bytes_simps [simp]:
  "bytes [] = {}" "bytes (r # fs) = region_bytes r \<union> bytes fs" "bytes (xs @ ys) = bytes xs \<union> bytes ys"
  by (auto simp: bytes_def)

lemma pieces_Nil [simp]: "pieces []"
  by (simp add: pieces_def)

lemma pieces_Cons [simp]: "pieces (r # fs) \<longleftrightarrow> piece r \<and> (\<forall>x \<in> set fs. rhi r \<le> rlo x) \<and> pieces fs"
  by (auto simp: pieces_def)

lemma pieces_append:
  "pieces (xs @ ys) \<longleftrightarrow> pieces xs \<and> pieces ys \<and> (\<forall>x \<in> set xs. \<forall>y \<in> set ys. rhi x \<le> rlo y)"
  by (auto simp: pieces_def sorted_wrt_append)

lemma region_bytes_new: "region_bytes (Region_new b n) = {unat b ..< unat b + unat n}"
  by (simp add: region_bytes_def Region_new_def)

lemma Region_new_simps [simp]: "base (Region_new b n) = b" "rsize (Region_new b n) = n"
  by (simp_all add: Region_new_def)

lemma finite_bytes [simp]: "finite (bytes fs)"
  by (simp add: bytes_def region_bytes_def)

lemma pieces_later: "pieces (r # fs) \<Longrightarrow> region_bytes r \<inter> bytes fs = {}"
  by (fastforce simp: bytes_def region_bytes_def)

lemma piece_top: "piece r \<Longrightarrow> \<exists>t. region_top r = Inr t \<and> unat t = rhi r"
proof -
  assume "piece r"
  then have "rhi r < 2 ^ 64" by (simp add: piece_def)
  then have "region_top r = Inr (base r + rsize r)" "unat (base r + rsize r) = rhi r"
    by (simp_all add: region_top_def add64_def unat_word_ariths)
  then show ?thesis by blast
qed

lemma piece_new:
  "0 < unat n \<Longrightarrow> unat b + unat n < 2 ^ 64 \<Longrightarrow> aligned (unat b) \<Longrightarrow> aligned (unat n) \<Longrightarrow>
   piece (Region_new b n)"
  by (simp add: piece_def)

lemma piece_between:
  assumes "rlo r \<le> unat x" "unat x < unat y" "unat y \<le> rhi r" "piece r" "aligned (unat x)" "aligned (unat y)"
  shows "piece (Region_new x (y - x))" "region_bytes (Region_new x (y - x)) = {unat x ..< unat y}"
    "rhi (Region_new x (y - x)) = unat y"
proof -
  have u: "unat (y - x) = unat y - unat x" using assms(2) by (intro unat_sub) (simp add: word_le_nat_alt)
  have m: "aligned (unat y - unat x)" using assms(5,6) by (intro aligned_diff)
  show "piece (Region_new x (y - x))"
    using assms u m by (intro piece_new) (auto simp: piece_def)
  show "region_bytes (Region_new x (y - x)) = {unat x ..< unat y}"
    using assms(2) u by (simp add: region_bytes_new)
  show "rhi (Region_new x (y - x)) = unat y" using assms(2) u by simp
qed

subsection \<open>Taking a range\<close>

lemma range_card: "card ({b..<e} \<inter> {l..<h}) = min e h - max b l" for b e l h :: nat
  by (simp add: Int_atLeastLessThan)

text \<open>What is left of one piece that meets the range.\<close>

lemma cut_piece:
  assumes r: "piece r" "region_top r = Inr t" "unat t = rhi r"
    and be: "unat b < unat e" "aligned (unat b)" "aligned (unat e)"
    and meet: "\<not> (e \<le> base r \<or> t \<le> b)"
  defines "left \<equiv> (if b > base r then [Region_new (base r) (b - base r)] else []) @
                    (if e < t then [Region_new e (t - e)] else [])"
  shows "pieces left" "bytes left = region_bytes r - {unat b ..< unat e}"
    "\<forall>x \<in> set left. rlo r \<le> rlo x \<and> rhi x \<le> rhi r"
proof -
  have m: "rlo r < unat e" "unat b < rhi r" using meet r(3) by (auto simp: word_le_nat_alt not_le)
  have rm: "aligned (rlo r)" "aligned (unat (rsize r))" using r(1) by (simp_all add: piece_def)
  then have tm: "aligned (unat t)" unfolding r(3) by (rule aligned_add)
  have c: "b > base r \<longleftrightarrow> rlo r < unat b" "e < t \<longleftrightarrow> unat e < rhi r"
    using r(3) by (auto simp: word_less_nat_alt)
  let ?A = "Region_new (base r) (b - base r)" and ?B = "Region_new e (t - e)"
  have A: "piece ?A" "region_bytes ?A = {rlo r ..< unat b}" "rhi ?A = unat b" if "rlo r < unat b"
    by (rule piece_between [of r]; use that m r rm be in simp)+
  have B: "piece ?B" "region_bytes ?B = {unat e ..< rhi r}" "rhi ?B = rhi r" if "unat e < rhi r"
    using piece_between [of r e t] that m(1) r(1) be(3) tm unfolding r(3) by (metis le_refl less_imp_le)+
  consider "rlo r < unat b" "unat e < rhi r" "left = [?A, ?B]"
    | "rlo r < unat b" "\<not> unat e < rhi r" "left = [?A]"
    | "\<not> rlo r < unat b" "unat e < rhi r" "left = [?B]"
    | "\<not> rlo r < unat b" "\<not> unat e < rhi r" "left = []"
    by (cases "b > base r"; cases "e < t") (simp_all add: left_def c)
  then have "pieces left \<and> bytes left = region_bytes r - {unat b ..< unat e} \<and>
    (\<forall>x \<in> set left. rlo r \<le> rlo x \<and> rhi x \<le> rhi r)"
  proof cases
    case 1
    then show ?thesis using A [OF 1(1)] B [OF 1(2)] be(1) m unfolding 1(3) by (auto simp: region_bytes_def)
  next
    case 2
    then show ?thesis using A [OF 2(1)] be(1) m unfolding 2(3) by (auto simp: region_bytes_def)
  next
    case 3
    then show ?thesis using B [OF 3(2)] be(1) m unfolding 3(3) by (auto simp: region_bytes_def)
  next
    case 4
    then show ?thesis unfolding 4(3) by (auto simp: region_bytes_def)
  qed
  then show "pieces left" "bytes left = region_bytes r - {unat b ..< unat e}"
    "\<forall>x \<in> set left. rlo r \<le> rlo x \<and> rhi x \<le> rhi r" by blast+
qed

lemma take_pieces_spec:
  assumes "pieces fs" "unat b < unat e" "aligned (unat b)" "aligned (unat e)"
    and "unat took + card ({unat b ..< unat e} \<inter> bytes fs) < 2 ^ 64"
  shows "\<exists>nxt t. take_pieces b e fs took = Inr (nxt, t) \<and> pieces nxt \<and>
    bytes nxt = bytes fs - {unat b ..< unat e} \<and>
    unat t = unat took + card ({unat b ..< unat e} \<inter> bytes fs) \<and>
    (\<forall>x \<in> set nxt. \<exists>y \<in> set fs. rlo y \<le> rlo x \<and> rhi x \<le> rhi y)"
  using assms(1,5)
proof (induction fs arbitrary: took)
  case Nil
  then show ?case by simp
next
  case (Cons r fs)
  let ?R = "{unat b ..< unat e}"
  have r: "piece r" and fs: "pieces fs" and after: "\<forall>x \<in> set fs. rhi r \<le> rlo x" using Cons.prems(1) by auto
  obtain t where t: "region_top r = Inr t" "unat t = rhi r" using piece_top [OF r] by blast
  have split: "card (?R \<inter> bytes (r # fs)) = card (?R \<inter> region_bytes r) + card (?R \<inter> bytes fs)"
    using pieces_later [OF Cons.prems(1)] unfolding bytes_simps Int_Un_distrib
    by (intro card_Un_disjoint) (auto simp: region_bytes_def)
  have inR: "card (?R \<inter> region_bytes r) = min (unat e) (rhi r) - max (unat b) (rlo r)"
    by (simp add: region_bytes_def range_card)
  show ?case
  proof (cases "e \<le> base r \<or> t \<le> b")
    case True
    then have out: "?R \<inter> region_bytes r = {}" using t(2) by (auto simp: region_bytes_def word_le_nat_alt)
    obtain nxt k where n: "take_pieces b e fs took = Inr (nxt, k)" "pieces nxt" "bytes nxt = bytes fs - ?R"
      "unat k = unat took + card (?R \<inter> bytes fs)" "\<forall>x \<in> set nxt. \<exists>y \<in> set fs. rlo y \<le> rlo x \<and> rhi x \<le> rhi y"
      using Cons.IH [OF fs, of took] Cons.prems(2) split by auto
    have "take_pieces b e (r # fs) took = Inr (r # nxt, k)" using t(1) True n(1) by simp
    moreover have "pieces (r # nxt)" using r n(2,5) after by (fastforce simp: piece_def)
    moreover have "bytes (r # nxt) = bytes (r # fs) - ?R" using n(3) out by auto
    moreover have "unat k = unat took + card (?R \<inter> bytes (r # fs))" using n(4) split out by simp
    ultimately show ?thesis using n(5) by auto
  next
    case False
    define left where "left = (if b > base r then [Region_new (base r) (b - base r)] else []) @
                    (if e < t then [Region_new e (t - e)] else [])"
    note cut = cut_piece [OF r t assms(2-4) False, folded left_def]
    have m: "rlo r < unat e" "unat b < rhi r" using False t(2) by (auto simp: word_le_nat_alt not_le)
    have "unat (min e t) = min (unat e) (rhi r)" "unat (max b (base r)) = max (unat b) (rlo r)"
      using t(2) by (auto simp: min_def max_def word_le_nat_alt)
    moreover have "max (unat b) (rlo r) \<le> min (unat e) (rhi r)" using m assms(2) r by (auto simp: piece_def)
    ultimately have d: "sub64 (min e t) (max b (base r)) = (Inr (min e t - max b (base r)) :: KernError fail + u64)"
      "unat (min e t - max b (base r)) = card (?R \<inter> region_bytes r)"
      unfolding inR by (simp_all add: sub64_def word_le_nat_alt unat_sub)
    let ?d = "min e t - max b (base r)"
    have "unat took + unat ?d < 2 ^ 64" using Cons.prems(2) split d(2) by linarith
    then have a: "add64 took ?d = (Inr (took + ?d) :: KernError fail + u64)" "unat (took + ?d) = unat took + unat ?d"
      by (simp_all add: add64_def unat_word_ariths)
    obtain nxt k where n: "take_pieces b e fs (took + ?d) = Inr (nxt, k)" "pieces nxt" "bytes nxt = bytes fs - ?R"
      "unat k = unat (took + ?d) + card (?R \<inter> bytes fs)" "\<forall>x \<in> set nxt. \<exists>y \<in> set fs. rlo y \<le> rlo x \<and> rhi x \<le> rhi y"
      using Cons.IH [OF fs, of "took + ?d"] Cons.prems(2) split d(2) a(2) by auto
    have "take_pieces b e (r # fs) took = Inr (left @ nxt, k)"
      using t(1) False d(1) a(1) n(1) by (simp add: left_def)
    moreover have "pieces (left @ nxt)"
      unfolding pieces_append using cut(1,3) n(2,5) after by fastforce
    moreover have "bytes (left @ nxt) = bytes (r # fs) - ?R" using n(3) cut(2) by auto
    moreover have "unat k = unat took + card (?R \<inter> bytes (r # fs))" using n(4) split d(2) a(2) by simp
    moreover have "\<forall>x \<in> set (left @ nxt). \<exists>y \<in> set (r # fs). rlo y \<le> rlo x \<and> rhi x \<le> rhi y"
      using cut(3) n(5) by auto
    ultimately show ?thesis by blast
  qed
qed

lemma bytes_below: "list_all piece fs \<Longrightarrow> bytes fs \<subseteq> {..< 2 ^ 64}"
  by (fastforce simp: bytes_def region_bytes_def piece_def list_all_iff)

lemma take_range_spec:
  assumes "pieces (pfree p)" "unat b < unat e" "aligned (unat b)" "aligned (unat e)"
  obtains (refused) n where "take_range h p b e = (Inl (Err (OutOfMemory n)), p)" "\<not> grants_fresh h (max (pfree_cap p) (length (pfree p) + 1))"
  | (taken) took fs cap where "take_range h p b e = (Inr took, p\<lparr>pfree := fs, pfree_cap := cap\<rparr>)"
      "pieces fs" "bytes fs = bytes (pfree p) - {unat b ..< unat e}"
      "unat took = card ({unat b ..< unat e} \<inter> bytes (pfree p))"
proof -
  let ?c = "max (pfree_cap p) (length (pfree p) + 1)"
  have lt: "\<not> e \<le> b" using assms(2) by (simp add: word_le_nat_alt)
  show thesis
  proof (cases "grants_fresh h ?c")
    case False
    then show thesis using lt by (intro refused) (simp_all add: take_range_def Let_def)
  next
    case True
    have "card ({unat b ..< unat e} \<inter> bytes (pfree p)) \<le> card {unat b ..< unat e}" by (rule card_mono) auto
    also have "\<dots> < 2 ^ 64" using unat64_less [of e] by simp
    finally have c: "unat (0 :: u64) + card ({unat b ..< unat e} \<inter> bytes (pfree p)) < 2 ^ 64" by simp
    obtain fs t where f: "take_pieces b e (pfree p) 0 = Inr (fs, t)" "pieces fs"
      "bytes fs = bytes (pfree p) - {unat b ..< unat e}" "unat t = card ({unat b ..< unat e} \<inter> bytes (pfree p))"
      using take_pieces_spec [OF assms c] by auto
    show thesis
      using True lt f(1) by (intro taken [OF _ f(2-4)]) (simp add: take_range_def Let_def)
  qed
qed

subsection \<open>Returning a piece\<close>

lemma merge_at_spec:
  assumes "pieces fs"
  shows "\<exists>fs'. merge_at fs i = Inr fs' \<and> pieces fs' \<and> bytes fs' = bytes fs"
proof (cases "i + 1 < length fs")
  case False
  then show ?thesis using assms by (auto simp: merge_at_def list_get_def split: option.splits)
next
  case True
  define a b xs ys where "a = fs ! i" and "b = fs ! (i + 1)" and "xs = take i fs" and "ys = drop (i + 2) fs"
  have fs: "fs = xs @ a # b # ys"
    using True id_take_nth_drop [of i fs] Cons_nth_drop_Suc [of "Suc i" fs] unfolding a_def b_def xs_def ys_def by simp
  have len: "length xs = i" using True by (simp add: xs_def)
  have pa: "piece a" "piece b" "rhi a \<le> rlo b" and ord: "pieces xs" "pieces ys" "\<forall>y \<in> set ys. rhi b \<le> rlo y"
     "\<forall>x \<in> set xs. rhi x \<le> rlo a" "\<forall>x \<in> set xs. \<forall>y \<in> set ys. rhi x \<le> rlo y"
    using assms unfolding fs pieces_append by auto
  obtain t where t: "region_top a = Inr t" "unat t = rhi a" using piece_top [OF pa(1)] by blast
  have m: "merge_at fs i = (if t = base b then
      rbind (add64 (rsize a) (rsize b)) (\<lambda>n. Inr (xs @ a\<lparr>rsize := n\<rparr> # ys)) else Inr fs)"
    using True t(1) len unfolding merge_at_def list_get_def a_def [symmetric] b_def [symmetric]
    by (simp add: fs list_update_append)
  show ?thesis
  proof (cases "t = base b")
    case False
    then show ?thesis using m assms by simp
  next
    case True
    then have e: "rhi a = rlo b" using t(2) by simp
    then have "unat (rsize a) + unat (rsize b) < 2 ^ 64" using pa(2) by (simp add: piece_def)
    then obtain n where n: "add64 (rsize a) (rsize b) = (Inr n :: KernError fail + u64)" "unat n = unat (rsize a) + unat (rsize b)"
      by (simp add: add64_def unat_word_ariths)
    let ?c = "a\<lparr>rsize := n\<rparr>"
    have hi: "rhi ?c = rhi b" using n(2) e by simp
    have "piece ?c" using pa e n(2) by (auto simp: piece_def intro: aligned_add)
    moreover have "region_bytes ?c = region_bytes a \<union> region_bytes b"
      using hi e pa by (auto simp: region_bytes_def)
    moreover from this have "bytes (xs @ ?c # ys) = bytes fs" unfolding fs by auto
    moreover have "pieces (xs @ ?c # ys)"
      unfolding pieces_append pieces_Cons using ord hi calculation(1) by auto
    ultimately show ?thesis using m True n(1) by auto
  qed
qed

lemma pieces_insert:
  assumes fs: "pieces fs" and r: "piece r" and dis: "region_bytes r \<inter> bytes fs = {}"
    and pos: "pos = (case position (\<lambda>f. base f \<ge> base r) fs of None \<Rightarrow> length fs | Some i \<Rightarrow> i)"
  shows "pieces (take pos fs @ [r] @ drop pos fs)"
proof -
  let ?xs = "take pos fs" and ?ys = "drop pos fs"
  have split: "fs = ?xs @ ?ys" by simp
  have low: "rlo x < rlo r" if "x \<in> set ?xs" for x
  proof (cases "position (\<lambda>f. base f \<ge> base r) fs")
    case None
    then have "\<forall>f \<in> set fs. \<not> base r \<le> base f" by (simp add: position_eq_None)
    then show ?thesis using in_set_takeD [OF that] by (simp add: word_le_nat_alt not_le)
  next
    case (Some i)
    then have "\<forall>j < pos. \<not> base r \<le> base (fs ! j)" using position_eq_SomeD [OF Some] pos by simp
    then show ?thesis using that by (auto simp: in_set_conv_nth word_le_nat_alt not_le)
  qed
  have high: "rlo r \<le> rlo y" if y: "y \<in> set ?ys" for y
  proof (cases "position (\<lambda>f. base f \<ge> base r) fs")
    case None
    then show ?thesis using that pos by simp
  next
    case (Some i)
    then have i: "i < length fs" "rlo r \<le> rlo (fs ! i)" "pos = i"
      using position_eq_SomeD [OF Some] pos by (simp_all add: word_le_nat_alt)
    then have e: "?ys = fs ! i # drop (Suc i) fs" by (simp add: Cons_nth_drop_Suc)
    have "pieces (fs ! i # drop (Suc i) fs)" using fs split e by (metis pieces_append)
    then show ?thesis using y i(2) unfolding e by fastforce
  qed
  have sep: "rhi x \<le> rlo r \<or> rhi r \<le> rlo x" if "x \<in> set fs" for x
  proof (rule ccontr)
    assume "\<not> ?thesis"
    moreover have "piece x" using fs that by (simp add: pieces_def list_all_iff)
    ultimately have "max (rlo x) (rlo r) \<in> region_bytes x \<inter> region_bytes r"
      using r by (auto simp: region_bytes_def piece_def)
    moreover have "region_bytes x \<subseteq> bytes fs" using that by (auto simp: bytes_def)
    ultimately show False using dis by blast
  qed
  have left: "rhi x \<le> rlo r" if "x \<in> set ?xs" for x
    using sep [OF in_set_takeD [OF that]] low [OF that] by linarith
  have pos0: "0 < unat (rsize x)" if "x \<in> set fs" for x
    using fs that by (simp add: pieces_def list_all_iff piece_def)
  have right: "rhi r \<le> rlo y" if "y \<in> set ?ys" for y
    using sep [OF in_set_dropD [OF that]] high [OF that] pos0 [OF in_set_dropD [OF that]] by linarith
  have "pieces ?xs" "pieces ?ys" "\<forall>x \<in> set ?xs. \<forall>y \<in> set ?ys. rhi x \<le> rlo y"
    using fs split by (metis pieces_append)+
  then show ?thesis unfolding pieces_append using left right r by simp
qed

lemma insert_free_spec:
  assumes "pieces (pfree p)" "piece r" "region_bytes r \<inter> bytes (pfree p) = {}"
  obtains (refused) "insert_free h p r = (Inl (Err (OutOfMemory REGION_BYTES)), p)"
      "vec_try_reserve (grants_free h) (pfree_cap p) (length (pfree p)) 1 = None"
  | (returned) fs cap where "insert_free h p r = (Inr (), p\<lparr>pfree := fs, pfree_cap := cap\<rparr>)"
      "pieces fs" "bytes fs = bytes (pfree p) \<union> region_bytes r"
      "vec_try_reserve (grants_free h) (pfree_cap p) (length (pfree p)) 1 \<noteq> None"
proof -
  define pos where "pos = (case position (\<lambda>f. base f \<ge> base r) (pfree p) of None \<Rightarrow> length (pfree p) | Some i \<Rightarrow> i)"
  let ?fs = "take pos (pfree p) @ [r] @ drop pos (pfree p)"
  have all: "bytes ?fs = bytes (pfree p) \<union> region_bytes r"
    unfolding bytes_simps using bytes_simps(3) [of "take pos (pfree p)" "drop pos (pfree p)"] by auto
  obtain f1 where f1: "merge_at ?fs pos = Inr f1" "pieces f1" "bytes f1 = bytes ?fs"
    using merge_at_spec [OF pieces_insert [OF assms pos_def]] by blast
  obtain f2 where f2: "(if pos > 0 then merge_at f1 (pos - 1) else Inr f1) = Inr f2" "pieces f2" "bytes f2 = bytes f1"
    using merge_at_spec [OF f1(2), of "pos - 1"] f1(2) by (cases "pos > 0") auto
  show thesis
  proof (cases "vec_try_reserve (grants_free h) (pfree_cap p) (length (pfree p)) 1")
    case None
    then show thesis by (intro refused) (simp_all add: insert_free_def try_push_def Let_def)
  next
    case (Some cap)
    then have "insert_free h p r = (Inr (), p\<lparr>pfree := f2, pfree_cap := cap\<rparr>)"
      unfolding insert_free_def Let_def pos_def [symmetric] try_push_def Some option.case prod.case sum.case f1(1) f2(1)
      by simp
    then show thesis using returned f2 f1(3) all Some by simp
  qed
qed

subsection \<open>Choosing a piece\<close>

definition claimable :: "u64 \<Rightarrow> bool" where
  "claimable c \<longleftrightarrow> 0 < unat c \<and> aligned (unat c)"

lemma piece_base_spec:
  assumes "piece r" "claimable c" "c \<le> rsize r"
  shows "\<exists>b. piece_base r c = Inr b \<and> unat b + unat c = rhi r \<and> aligned (unat b) \<and> base r \<le> b"
proof -
  obtain t where t: "region_top r = Inr t" "unat t = rhi r" using piece_top [OF assms(1)] by blast
  have le: "unat c \<le> unat (rsize r)" using assms(3) by (simp add: word_le_nat_alt)
  have u: "unat (t - c) = rhi r - unat c" unfolding t(2) [symmetric]
    by (rule unat_sub) (use le t(2) in \<open>simp add: word_le_nat_alt\<close>)
  have m: "aligned (unat (t - c))"
    unfolding u using assms(1,2) by (simp add: piece_def claimable_def aligned_diff aligned_add)
  have "piece_base r c = Inr (t - c)"
    using t le grain_down_aligned [OF m] by (simp add: piece_base_def sub64_def word_le_nat_alt)
  moreover have "unat (t - c) + unat c = rhi r" "base r \<le> t - c" using u le by (simp_all add: word_le_nat_alt)
  ultimately show ?thesis using m by blast
qed

lemma piece_fits_spec: "piece r \<Longrightarrow> claimable c \<Longrightarrow> piece_fits r c = Inr (c \<le> rsize r)"
  using piece_base_spec [of r c] by (auto simp: piece_fits_def not_less)

text \<open>The best of the pieces from index \<open>n\<close> on: the smallest that fits, the highest of equals.\<close>

definition is_best :: "Region list \<Rightarrow> u64 \<Rightarrow> nat \<Rightarrow> nat option \<Rightarrow> bool" where
  "is_best fs c n best \<longleftrightarrow>
     (case best of
        None \<Rightarrow> \<forall>j. n \<le> j \<and> j < length fs \<longrightarrow> \<not> c \<le> rsize (fs ! j)
      | Some i \<Rightarrow> n \<le> i \<and> i < length fs \<and> c \<le> rsize (fs ! i) \<and>
          (\<forall>j. n \<le> j \<and> j < length fs \<and> c \<le> rsize (fs ! j) \<longrightarrow>
             rsize (fs ! i) < rsize (fs ! j) \<or> rsize (fs ! i) = rsize (fs ! j) \<and> j \<le> i))"

lemma is_best_step:
  assumes "is_best fs c (Suc i) best" "Suc i \<le> length fs"
  shows "\<not> c \<le> rsize (fs ! i) \<Longrightarrow> is_best fs c i best"
    "c \<le> rsize (fs ! i) \<Longrightarrow> best = None \<Longrightarrow> is_best fs c i (Some i)"
    "c \<le> rsize (fs ! i) \<Longrightarrow> best = Some b \<Longrightarrow> rsize (fs ! b) \<le> rsize (fs ! i) \<Longrightarrow> is_best fs c i best"
    "c \<le> rsize (fs ! i) \<Longrightarrow> best = Some b \<Longrightarrow> \<not> rsize (fs ! b) \<le> rsize (fs ! i) \<Longrightarrow> is_best fs c i (Some i)"
proof -
  have le: "j = i \<or> Suc i \<le> j" if "i \<le> j" for j using that by auto
  have i: "i < length fs" using assms(2) by simp
  show "\<not> c \<le> rsize (fs ! i) \<Longrightarrow> is_best fs c i best"
    using assms(1) le unfolding is_best_def by (cases best) (simp, metis, simp, metis)
  show "c \<le> rsize (fs ! i) \<Longrightarrow> best = None \<Longrightarrow> is_best fs c i (Some i)"
    using assms(1) le i unfolding is_best_def by (simp, metis)
  {
    assume c: "c \<le> rsize (fs ! i)" and b: "best = Some b"
    then have best: "Suc i \<le> b" "b < length fs" "c \<le> rsize (fs ! b)"
      "\<And>j. Suc i \<le> j \<Longrightarrow> j < length fs \<Longrightarrow> c \<le> rsize (fs ! j) \<Longrightarrow>
         rsize (fs ! b) < rsize (fs ! j) \<or> rsize (fs ! b) = rsize (fs ! j) \<and> j \<le> b"
      using assms(1) by (simp_all add: is_best_def)
    show "is_best fs c i best" if k: "rsize (fs ! b) \<le> rsize (fs ! i)"
    proof -
      have "rsize (fs ! b) < rsize (fs ! j) \<or> rsize (fs ! b) = rsize (fs ! j) \<and> j \<le> b"
        if "i \<le> j" "j < length fs" "c \<le> rsize (fs ! j)" for j
        using le [OF that(1)] best(1) best(4) [OF _ that(2,3)] k by (auto simp: order_le_less)
      then show ?thesis using best(1-3) by (simp add: is_best_def b)
    qed
    show "is_best fs c i (Some i)" if k: "\<not> rsize (fs ! b) \<le> rsize (fs ! i)"
    proof -
      have "rsize (fs ! i) < rsize (fs ! j) \<or> rsize (fs ! i) = rsize (fs ! j) \<and> j \<le> i"
        if "i \<le> j" "j < length fs" "c \<le> rsize (fs ! j)" for j
        using le [OF that(1)] best(4) [OF _ that(2,3)] k by (auto simp: not_le intro: order_less_trans)
      then show ?thesis using c i unfolding is_best_def option.case by blast
    qed
  }
qed

lemma best_fit_loop_spec:
  assumes "list_all piece fs" "claimable c"
  shows "n \<le> length fs \<Longrightarrow> is_best fs c n best \<Longrightarrow> \<exists>r. best_fit_loop fs c n best = Inr r \<and> is_best fs c 0 r"
proof (induction n arbitrary: best)
  case 0
  then show ?case by simp
next
  case (Suc i)
  have f: "piece_fits (fs ! i) c = Inr (c \<le> rsize (fs ! i))"
    using assms Suc.prems(1) by (intro piece_fits_spec) (simp_all add: list_all_length)
  note step = is_best_step [OF Suc.prems(2,1)]
  show ?case
  proof (cases best)
    case None
    show ?thesis using Suc.IH [OF _ step(1)] Suc.IH [OF _ step(2)] Suc.prems(1) f None
      by (cases "c \<le> rsize (fs ! i)") simp_all
  next
    case (Some b)
    then have "b < length fs" using Suc.prems(2) by (simp add: is_best_def)
    then show ?thesis
      using Suc.IH [OF _ step(1)] Suc.IH [OF _ step(3)] Suc.IH [OF _ step(4)] Suc.prems(1) f Some
      by (cases "c \<le> rsize (fs ! i)"; cases "rsize (fs ! b) \<le> rsize (fs ! i)") (simp_all add: list_get_def)
  qed
qed

lemma best_fit_spec:
  assumes "pieces (pfree p)" "claimable c"
  obtains best where "best_fit p c = Inr best" "is_best (pfree p) c 0 best"
proof -
  have "is_best (pfree p) c (length (pfree p)) None" by (auto simp: is_best_def)
  with best_fit_loop_spec [of "pfree p" c "length (pfree p)" None] assms that show thesis
    by (auto simp: best_fit_def pieces_def)
qed

text \<open>\<^verbatim>\<open>carve\<close>: the top of the best piece leaves the free list, or nothing changes.\<close>

lemma carve_spec:
  assumes "pieces (pfree p)" "claimable c"
  obtains (no_piece) "carve h p c = (Inr None, p)" "\<forall>r \<in> set (pfree p). \<not> c \<le> rsize r"
  | (refused) "carve h p c = (Inr None, p)" "\<not> grants_fresh h (max (pfree_cap p) (length (pfree p) + 1))"
  | (carved) i b fs cap where "carve h p c = (Inr (Some b), p\<lparr>pfree := fs, pfree_cap := cap\<rparr>)"
      "is_best (pfree p) c 0 (Some i)" "unat b + unat c = rhi (pfree p ! i)" "rlo (pfree p ! i) \<le> unat b"
      "aligned (unat b)" "unat b + unat c < 2 ^ 64" "{unat b ..< unat b + unat c} \<subseteq> bytes (pfree p)"
      "pieces fs" "bytes fs = bytes (pfree p) - {unat b ..< unat b + unat c}"
proof -
  obtain best where best: "best_fit p c = Inr best" "is_best (pfree p) c 0 best"
    using best_fit_spec [OF assms] by blast
  show thesis
  proof (cases best)
    case None
    then have "\<forall>r \<in> set (pfree p). \<not> c \<le> rsize r" using best(2) by (auto simp: is_best_def in_set_conv_nth)
    moreover have "carve h p c = (Inr None, p)" using best(1) None by (simp add: carve_def)
    ultimately show thesis using no_piece by blast
  next
    case (Some i)
    let ?r = "pfree p ! i"
    have i: "i < length (pfree p)" "c \<le> rsize ?r" using best(2) Some by (simp_all add: is_best_def)
    have pr: "piece ?r" using assms(1) i(1) by (simp add: pieces_def list_all_length)
    obtain b where b: "piece_base ?r c = Inr b" "unat b + unat c = rhi ?r" "aligned (unat b)" "base ?r \<le> b"
      using piece_base_spec [OF pr assms(2) i(2)] by blast
    have lt: "unat b + unat c < 2 ^ 64" unfolding b(2) using pr by (simp add: piece_def)
    then obtain e where e: "add64 b c = (Inr e :: KernError fail + u64)" "unat e = unat b + unat c"
      by (simp add: add64_def unat_word_ariths)
    have em: "aligned (unat e)" unfolding e(2) b(2) using pr by (simp add: piece_def aligned_add)
    have be: "unat b < unat e" using e(2) assms(2) by (simp add: claimable_def)
    have sub: "{unat b ..< unat b + unat c} \<subseteq> bytes (pfree p)"
      using i(1) b(2,4) nth_mem [OF i(1)] by (force simp: bytes_def region_bytes_def word_le_nat_alt)
    have c: "carve h p c = (case take_range h p b e of (Inl Panic, p') \<Rightarrow> (Inl Panic, p')
      | (Inl (Err _), p') \<Rightarrow> (Inr None, p') | (Inr _, p') \<Rightarrow> (Inr (Some b), p'))"
      using best(1) Some i(1) b(1) e(1) by (simp add: carve_def list_get_def)
    show thesis
      using assms(1) be b(3) em
    proof (cases rule: take_range_spec [where h = h])
      case (refused n)
      then show thesis using c that(2) by simp
    next
      case (taken took fs cap)
      have "carve h p c = (Inr (Some b), p\<lparr>pfree := fs, pfree_cap := cap\<rparr>)" using c taken(1) by simp
      then show thesis
        by (rule that(3)) (use best(2) Some b lt sub taken(2,3) e(2) in \<open>simp_all add: word_le_nat_alt\<close>)
    qed
  qed
qed

section \<open>Holders\<close>

datatype holder = HFree | HSlot Slot | HDevice u64

text \<open>The whole claim of a partition: what the slot sees and the translation tables behind it.\<close>

definition claim_region :: "Geometry \<Rightarrow> Region \<Rightarrow> Region" where
  "claim_region g l = Region_new (base l) (rsize l + reserve g (rsize l))"

definition owner_ok :: "Geometry \<Rightarrow> Region \<Rightarrow> bool" where
  "owner_ok g l \<longleftrightarrow> piece (claim_region g l) \<and> 0 < unat (rsize l) \<and>
     unat (rsize l + reserve g (rsize l)) = unat (rsize l) + unat (reserve g (rsize l))"

fun claim_bytes :: "Geometry \<Rightarrow> Region option \<Rightarrow> nat set" where
  "claim_bytes g None = {}"
| "claim_bytes g (Some l) = region_bytes (claim_region g l)"

fun holds :: "PartitionPool \<Rightarrow> (u64 \<rightharpoonup> u64) \<Rightarrow> holder \<Rightarrow> nat set" where
  "holds p d HFree = bytes (pfree p)"
| "holds p d (HSlot s) = claim_bytes (geo p) (SlotVec_get (owners p) s)"
| "holds p d (HDevice b) = (case d b of None \<Rightarrow> {} | Some n \<Rightarrow> region_bytes (Region_new b n))"

definition part_ok :: "nat set \<Rightarrow> PartitionPool \<Rightarrow> (u64 \<rightharpoonup> u64) \<Rightarrow> bool" where
  "part_ok M p d \<longleftrightarrow> pieces (pfree p) \<and> disjoint_family (holds p d) \<and> (\<forall>h. holds p d h \<subseteq> M) \<and>
     (\<forall>s l. SlotVec_get (owners p) s = Some l \<longrightarrow> owner_ok (geo p) l) \<and>
     (\<forall>b n. d b = Some n \<longrightarrow> piece (Region_new b n))"

lemma part_okD:
  assumes "part_ok M p d"
  shows "pieces (pfree p)" "disjoint_family (holds p d)" "holds p d h \<subseteq> M"
    "SlotVec_get (owners p) s = Some l \<Longrightarrow> owner_ok (geo p) l" "d b = Some n \<Longrightarrow> piece (Region_new b n)"
  using assms by (auto simp: part_ok_def)

lemma holds_apart: "part_ok M p d \<Longrightarrow> h \<noteq> k \<Longrightarrow> holds p d h \<inter> holds p d k = {}"
  using part_okD(2) by (auto simp: disjoint_family_on_def)

text \<open>Bytes move between two holders, or leave one.\<close>

lemma disjoint_move:
  assumes "disjoint_family F" "X \<subseteq> F a" "F b = {}" "a \<noteq> b"
    and "F' a = F a - X" "F' b = X" "\<And>h. h \<noteq> a \<Longrightarrow> h \<noteq> b \<Longrightarrow> F' h = F h"
  shows "disjoint_family F'" "(\<Union>h. F' h) = (\<Union>h. F h)"
proof -
  have dis: "F h \<inter> F k = {}" if "h \<noteq> k" for h k using assms(1) that by (auto simp: disjoint_family_on_def)
  have F': "F' h = (if h = a then F a - X else if h = b then X else F h)" for h using assms(5-7) by simp
  have "F' h \<inter> F' k = {}" if "h \<noteq> k" for h k
    unfolding F' using that dis [of h k] dis [of a k] dis [of a h] assms(2) by auto
  then show "disjoint_family F'" by (simp add: disjoint_family_on_def)
  show "(\<Union>h. F' h) = (\<Union>h. F h)"
  proof (rule set_eqI)
    fix x
    show "x \<in> (\<Union>h. F' h) \<longleftrightarrow> x \<in> (\<Union>h. F h)"
    proof
      assume "x \<in> (\<Union>h. F' h)"
      then show "x \<in> (\<Union>h. F h)" using assms(2) by (auto simp: F' split: if_splits)
    next
      assume "x \<in> (\<Union>h. F h)"
      then obtain h where h: "x \<in> F h" by blast
      have "x \<in> F' h \<or> x \<in> F' b" using h assms(2-4) by (auto simp: F')
      then show "x \<in> (\<Union>h. F' h)" by blast
    qed
  qed
qed

lemma disjoint_shrink: "disjoint_family F \<Longrightarrow> (\<And>h. F' h \<subseteq> F h) \<Longrightarrow> disjoint_family F'"
  unfolding disjoint_family_on_def by blast

lemma disjoint_return:
  assumes "disjoint_family F" "a \<noteq> b"
    and "F' a = F a \<union> F b" "F' b = {}" "\<And>h. h \<noteq> a \<Longrightarrow> h \<noteq> b \<Longrightarrow> F' h = F h"
  shows "disjoint_family F'" "(\<Union>h. F' h) = (\<Union>h. F h)"
proof -
  have dis: "F h \<inter> F k = {}" if "h \<noteq> k" for h k using assms(1) that by (auto simp: disjoint_family_on_def)
  have F': "F' h = (if h = a then F a \<union> F b else if h = b then {} else F h)" for h using assms(3-5) by simp
  have "F' h \<inter> F' k = {}" if "h \<noteq> k" for h k
    unfolding F' using that dis [of h k] dis [of a k] dis [of b k] dis [of a h] dis [of b h] by auto
  then show "disjoint_family F'" by (simp add: disjoint_family_on_def)
  show "(\<Union>h. F' h) = (\<Union>h. F h)"
  proof (rule set_eqI)
    fix x
    show "x \<in> (\<Union>h. F' h) \<longleftrightarrow> x \<in> (\<Union>h. F h)"
    proof
      assume "x \<in> (\<Union>h. F' h)"
      then show "x \<in> (\<Union>h. F h)" by (auto simp: F' split: if_splits)
    next
      assume "x \<in> (\<Union>h. F h)"
      then obtain h where h: "x \<in> F h" by blast
      have "x \<in> F' h \<or> x \<in> F' a" using h by (auto simp: F')
      then show "x \<in> (\<Union>h. F' h)" by blast
    qed
  qed
qed

section \<open>The operations keep the holders apart\<close>

lemma holds_caps [simp]:
  "holds (p\<lparr>pfree_cap := c\<rparr>) d = holds p d" "holds (p\<lparr>capacity := k\<rparr>) d = holds p d"
proof -
  show "holds (p\<lparr>pfree_cap := c\<rparr>) d = holds p d" by (rule ext, rename_tac h, case_tac h) simp_all
  show "holds (p\<lparr>capacity := k\<rparr>) d = holds p d" by (rule ext, rename_tac h, case_tac h) simp_all
qed

lemma part_ok_caps [simp]:
  "part_ok M (p\<lparr>pfree_cap := c\<rparr>) d = part_ok M p d" "part_ok M (p\<lparr>capacity := k\<rparr>) d = part_ok M p d"
  unfolding part_ok_def by simp_all

lemma holds_free_upd: "h \<noteq> HFree \<Longrightarrow> holds (p\<lparr>pfree := fs, pfree_cap := c\<rparr>) d h = holds p d h"
  by (cases h) simp_all

text \<open>A piece that left the free list is held by nobody.\<close>

lemma part_ok_take:
  assumes "part_ok M p d" "pieces fs" "bytes fs \<subseteq> bytes (pfree p)"
  shows "part_ok M (p\<lparr>pfree := fs, pfree_cap := c\<rparr>) d"
proof -
  let ?p = "p\<lparr>pfree := fs, pfree_cap := c\<rparr>"
  have sub: "holds ?p d h \<subseteq> holds p d h" for h using assms(3) by (cases h) simp_all
  have "disjoint_family (holds ?p d)" by (rule disjoint_shrink [OF part_okD(2) [OF assms(1)] sub])
  moreover have "holds ?p d h \<subseteq> M" for h using sub part_okD(3) [OF assms(1)] by (rule order_trans)
  ultimately show ?thesis using assms(1,2) by (simp add: part_ok_def)
qed

text \<open>A piece nobody holds goes back to the free list.\<close>

lemma part_ok_give:
  assumes "part_ok M p d" "pieces fs" "bytes fs = bytes (pfree p) \<union> X" "X \<subseteq> M"
    and apart: "\<And>h. h \<noteq> HFree \<Longrightarrow> holds p d h \<inter> X = {}"
  shows "part_ok M (p\<lparr>pfree := fs, pfree_cap := c\<rparr>) d"
proof -
  let ?p = "p\<lparr>pfree := fs, pfree_cap := c\<rparr>"
  have free: "holds ?p d HFree = holds p d HFree \<union> X" using assms(3) by simp
  have others: "holds ?p d h = holds p d h" if "h \<noteq> HFree" for h using that by (rule holds_free_upd)
  have "holds ?p d h \<inter> holds ?p d k = {}" if "h \<noteq> k" for h k
  proof -
    have "holds p d h \<inter> holds p d k = {}" using holds_apart [OF assms(1) that] .
    then show ?thesis
      using apart [of h] apart [of k] that others [of h] others [of k] free
      by (cases "h = HFree"; cases "k = HFree") (auto simp del: holds.simps)
  qed
  moreover have "holds ?p d h \<subseteq> M" for h
    using part_okD(3) [OF assms(1), of h] part_okD(3) [OF assms(1), of HFree] others [of h] free assms(4)
    by (cases "h = HFree") (auto simp del: holds.simps)
  ultimately show ?thesis using assms(1,2) by (simp add: part_ok_def disjoint_family_on_def)
qed

lemma insert_free_ok:
  assumes "part_ok M p d" "piece r" "region_bytes r \<subseteq> M" "\<And>h. holds p d h \<inter> region_bytes r = {}"
    and "insert_free h p r = (res, p')"
  shows "res \<noteq> Inl Panic" "part_ok M p' d" "owners p' = owners p" "geo p' = geo p" "capacity p' = capacity p"
    "res = Inr u \<Longrightarrow> bytes (pfree p') = bytes (pfree p) \<union> region_bytes r"
    "res \<noteq> Inr () \<Longrightarrow> p' = p \<and> vec_try_reserve (grants_free h) (pfree_cap p) (length (pfree p)) 1 = None"
proof -
  have dis: "region_bytes r \<inter> bytes (pfree p) = {}" using assms(4) [of HFree] by auto
  have "res \<noteq> Inl Panic \<and> part_ok M p' d \<and> owners p' = owners p \<and> geo p' = geo p \<and> capacity p' = capacity p \<and>
    (res = Inr () \<longrightarrow> bytes (pfree p') = bytes (pfree p) \<union> region_bytes r) \<and>
    (res \<noteq> Inr () \<longrightarrow> p' = p \<and> vec_try_reserve (grants_free h) (pfree_cap p) (length (pfree p)) 1 = None)"
    using part_okD(1) [OF assms(1)] assms(2) dis
  proof (cases rule: insert_free_spec [where h = h])
    case refused
    then show ?thesis using assms(1,5) by auto
  next
    case (returned fs cap)
    have "part_ok M (p\<lparr>pfree := fs, pfree_cap := cap\<rparr>) d"
      by (rule part_ok_give [OF assms(1) returned(2,3) assms(3)]) (rule assms(4))
    then show ?thesis using returned(1,3) assms(5) by auto
  qed
  then show "res \<noteq> Inl Panic" "part_ok M p' d" "owners p' = owners p" "geo p' = geo p" "capacity p' = capacity p"
    "res = Inr u \<Longrightarrow> bytes (pfree p') = bytes (pfree p) \<union> region_bytes r"
    "res \<noteq> Inr () \<Longrightarrow> p' = p \<and> vec_try_reserve (grants_free h) (pfree_cap p) (length (pfree p)) 1 = None"
    by auto
qed

lemma room_for_claim_ok:
  assumes "room_for_claim h p = (res, p')"
  shows "(\<exists>n. res = Inl (Err (OutOfMemory n))) \<and> p' = p \<or> res = Inr () \<and> (\<exists>c. p' = p\<lparr>pfree_cap := c\<rparr>)"
  using assms by (auto simp: room_for_claim_def split: option.splits)

text \<open>A piece taken from the free list: the bytes, and what they came from.\<close>

definition taken_from :: "PartitionPool \<Rightarrow> Region \<Rightarrow> PartitionPool \<Rightarrow> bool" where
  "taken_from p r p' \<longleftrightarrow> (\<exists>fs c. p' = p\<lparr>pfree := fs, pfree_cap := c\<rparr> \<and> piece r \<and> pieces fs \<and>
     region_bytes r \<subseteq> bytes (pfree p) \<and> bytes fs = bytes (pfree p) - region_bytes r)"

lemma taken_from_ok:
  assumes "part_ok M p d" "taken_from p r p'"
  shows "part_ok M p' d" "piece r" "region_bytes r \<subseteq> M" "\<And>h. holds p' d h \<inter> region_bytes r = {}"
    "owners p' = owners p" "geo p' = geo p" "capacity p' = capacity p"
proof -
  from assms(2) obtain fs c where p': "p' = p\<lparr>pfree := fs, pfree_cap := c\<rparr>" and r: "piece r" "pieces fs"
     "region_bytes r \<subseteq> bytes (pfree p)" "bytes fs = bytes (pfree p) - region_bytes r" by (auto simp: taken_from_def)
  show "part_ok M p' d" unfolding p' using r by (intro part_ok_take [OF assms(1)]) auto
  show "piece r" by (rule r(1))
  show "region_bytes r \<subseteq> M" using r(3) part_okD(3) [OF assms(1), of HFree] by auto
  show "holds p' d h \<inter> region_bytes r = {}" for h
  proof (cases "h = HFree")
    case True
    then show ?thesis using r(4) by (auto simp: p')
  next
    case False
    then show ?thesis using holds_apart [OF assms(1) False] r(3) holds_free_upd [OF False] p' by auto
  qed
  show "owners p' = owners p" "geo p' = geo p" "capacity p' = capacity p" by (simp_all add: p')
qed

lemma part_ok_own:
  assumes "part_ok M p d" "SlotVec_insert gr eb (owners p) s (Region_new b n) = Inr (y, own)"
    and "SlotVec_get (owners p) s = None" "owner_ok (geo p) (Region_new b n)"
    and "region_bytes (claim_region (geo p) (Region_new b n)) \<subseteq> M"
    and apart: "\<And>h. holds p d h \<inter> region_bytes (claim_region (geo p) (Region_new b n)) = {}"
  shows "part_ok M (p\<lparr>owners := own\<rparr>) d"
proof -
  let ?p = "p\<lparr>owners := own\<rparr>" and ?X = "region_bytes (claim_region (geo p) (Region_new b n))"
  have get: "SlotVec_get own r = (if r = s then Some (Region_new b n) else SlotVec_get (owners p) r)" for r
    by (rule sv.get_put [OF assms(2)])
  have h: "holds ?p d h = (if h = HSlot s then ?X else holds p d h)" for h
    by (cases h) (simp_all add: get)
  have "holds ?p d h \<inter> holds ?p d k = {}" if "h \<noteq> k" for h k
    unfolding h using holds_apart [OF assms(1) that] apart [of h] apart [of k] that by (auto simp del: holds.simps)
  moreover have "holds ?p d h \<subseteq> M" for h
    unfolding h using part_okD(3) [OF assms(1), of h] assms(5) by (simp del: holds.simps)
  ultimately show ?thesis
    using assms(1,4) by (auto simp: part_ok_def disjoint_family_on_def get)
qed

lemma enter_ledger_ok:
  assumes "part_ok M p d" "taken_from p (Region_new b claim) p2" "SlotVec_get (owners p) s = None"
    and "claim = n + reserve (geo p) n" "unat claim = unat n + unat (reserve (geo p) n)" "0 < unat n"
    and "enter_ledger h p2 s b n claim = (res, p')"
  shows "res \<noteq> Inl Panic" "part_ok M p' d" "geo p' = geo p" "capacity p' = capacity p"
    "res = Inr tok \<Longrightarrow> tok = Partition s (Region_new b n) \<and> pfree p' = pfree p2 \<and>
       SlotVec_get (owners p') r = (if r = s then Some (Region_new b n) else SlotVec_get (owners p) r)"
    "res = Inl e \<Longrightarrow> owners p' = owners p"
proof -
  note t = taken_from_ok [OF assms(1,2)]
  have cr: "claim_region (geo p2) (Region_new b n) = Region_new b claim" using assms(4) t(6) by (simp add: claim_region_def)
  have "res \<noteq> Inl Panic \<and> part_ok M p' d \<and> geo p' = geo p \<and> capacity p' = capacity p \<and>
    (res = Inr tok \<longrightarrow> tok = Partition s (Region_new b n) \<and> pfree p' = pfree p2 \<and>
       SlotVec_get (owners p') r = (if r = s then Some (Region_new b n) else SlotVec_get (owners p) r)) \<and>
    (res = Inl e \<longrightarrow> owners p' = owners p)"
  proof (cases "SlotVec_insert (grants_owner h) (owner_bytes h) (owners p2) s (Region_new b n)")
    case (Inl err)
    obtain ires pi where i: "insert_free h p2 (Region_new b claim) = (ires, pi)" by fastforce
    note f = insert_free_ok [OF t(1-4) i]
    have "res = Inl (Err err) \<and> p' = pi"
      using assms(7) Inl i f(1) by (cases ires rule: sum.exhaust; auto simp: enter_ledger_def put_back_def split: fail.splits)
    then show ?thesis using f(2-5) t(5-7) by simp
  next
    case (Inr yo)
    obtain y own where yo: "yo = (y, own)" by fastforce
    have ok: "owner_ok (geo p2) (Region_new b n)"
      unfolding owner_ok_def cr using t(2,6) assms(4,5,6) by simp
    have "part_ok M (p2\<lparr>owners := own\<rparr>) d"
      using part_ok_own [OF t(1) Inr [unfolded yo] _ ok, unfolded cr, OF _ t(3,4)] assms(3) t(5) by simp
    moreover have "SlotVec_get own r = (if r = s then Some (Region_new b n) else SlotVec_get (owners p2) r)"
      by (rule sv.get_put [OF Inr [unfolded yo]])
    moreover have "res = Inr (Partition s (Region_new b n)) \<and> p' = p2\<lparr>owners := own\<rparr>"
      using assms(7) Inr yo by (simp add: enter_ledger_def)
    ultimately show ?thesis using t(5-7) by simp
  qed
  then show "res \<noteq> Inl Panic" "part_ok M p' d" "geo p' = geo p" "capacity p' = capacity p"
    "res = Inr tok \<Longrightarrow> tok = Partition s (Region_new b n) \<and> pfree p' = pfree p2 \<and>
       SlotVec_get (owners p') r = (if r = s then Some (Region_new b n) else SlotVec_get (owners p) r)"
    "res = Inl e \<Longrightarrow> owners p' = owners p" by blast+
qed

lemma claim_size_ok:
  assumes "claim_size p n = Inr c"
  shows "c = n + reserve (geo p) n" "unat c = unat n + unat (reserve (geo p) n)" "0 < unat n"
    "aligned (unat n) \<Longrightarrow> claimable c"
proof -
  have "n \<noteq> 0" "reserve (geo p) n mod GRAIN_2M = 0" and c: "checked_add n (reserve (geo p) n) = Some c"
    using assms by (auto simp: claim_size_def res_simps split: if_splits)
  then have r: "0 < unat n" "aligned (unat (reserve (geo p) n))" by (simp_all add: unat_mod_GRAIN unat_gt_0)
  show u: "unat c = unat n + unat (reserve (geo p) n)" using c by (simp add: chk_simps)
  show "c = n + reserve (geo p) n" using c by (auto simp: checked_add_def split: if_splits)
  show "0 < unat n" by (rule r(1))
  show "aligned (unat n) \<Longrightarrow> claimable c" using r aligned_add by (auto simp: claimable_def u)
qed

lemma grain_size_ok:
  assumes "grain_size m = Inr n"
  shows "align_grain m = Some n" "claimable n"
proof -
  show a: "align_grain m = Some n" and "claimable n"
    using assms align_grain_Some(1) [of m n] by (auto simp: grain_size_def claimable_def unat_gt_0 split: option.splits if_splits)
qed

lemma carve_taken:
  assumes "part_ok M p d" "claimable c" "carve h p c = (res, p')"
  shows "res = Inr None \<and> p' = p \<and> ((\<forall>r \<in> set (pfree p). \<not> c \<le> rsize r) \<or> \<not> grants_fresh h (max (pfree_cap p) (length (pfree p) + 1))) \<or>
    (\<exists>b i. res = Inr (Some b) \<and> taken_from p (Region_new b c) p' \<and> is_best (pfree p) c 0 (Some i) \<and>
       unat b + unat c = rhi (pfree p ! i))"
  using part_okD(1) [OF assms(1)] assms(2)
proof (cases rule: carve_spec [where h = h])
  case (carved i b fs cap)
  have "piece (Region_new b c)" using carved(5,6) assms(2) by (intro piece_new) (simp_all add: claimable_def)
  then have "taken_from p (Region_new b c) (p\<lparr>pfree := fs, pfree_cap := cap\<rparr>)"
    unfolding taken_from_def region_bytes_new using carved(7-9) by blast
  then show ?thesis using carved(1-3) assms(3) by auto
qed (use assms(3) in auto)

lemma taken_from_cap: "taken_from (p\<lparr>pfree_cap := c\<rparr>) r p' \<Longrightarrow> taken_from p r p'"
  by (auto simp: taken_from_def)

text \<open>\<^verbatim>\<open>alloc\<close> either fails with the ledger as it was, or moves one claim from the free list to the slot.\<close>

lemma alloc_cases:
  assumes "part_ok M p d" "PartitionPool_alloc h p s m = (res, p')"
  obtains (failed) e where "res = Inl (Err e)" "part_ok M p' d" "owners p' = owners p" "geo p' = geo p" "capacity p' = capacity p"
  | (given) b n c p2 i where "res = Inr (Partition s (Region_new b n))" "align_grain m = Some n" "claim_size p n = Inr c"
      "taken_from p (Region_new b c) p2" "pfree p' = pfree p2" "part_ok M p' d" "geo p' = geo p" "capacity p' = capacity p"
      "\<And>r. SlotVec_get (owners p') r = (if r = s then Some (Region_new b n) else SlotVec_get (owners p) r)"
      "SlotVec_get (owners p) s = None" "is_best (pfree p) c 0 (Some i)" "unat b + unat c = rhi (pfree p ! i)"
proof -
  note al = assms(2) [unfolded PartitionPool_alloc_def]
  show thesis
  proof (cases "rbind (grain_size m) (\<lambda>n. rbind (claim_size p n) (\<lambda>c. Inr (n, c)))")
    case (Inl e)
    then show thesis using al assms(1) by (intro failed [of e]) simp_all
  next
    case (Inr nc)
    obtain n c where nc: "nc = (n, c)" "grain_size m = Inr n" "claim_size p n = Inr c"
      using Inr by (auto simp: res_simps)
    note gs = grain_size_ok [OF nc(2)] and cs = claim_size_ok [OF nc(3)]
    have cl: "claimable c" using cs(4) gs(2) by (simp add: claimable_def)
    show thesis
    proof (cases "SlotVec_get (owners p) s")
      case (Some l)
      then show thesis using al Inr nc(1) assms(1) by (intro failed [of "StillOwned (Slot_get s)"]) simp_all
    next
      case None
      obtain r1 p1 where r1: "room_for_claim h p = (r1, p1)" by fastforce
      show thesis
      proof (cases "p1 = p \<and> (\<exists>k. r1 = Inl (Err (OutOfMemory k)))")
        case True
        then obtain k where "r1 = Inl (Err (OutOfMemory k))" "p1 = p" by blast
        then show thesis using al Inr nc(1) assms(1) None r1 by (intro failed [of "OutOfMemory k"]) simp_all
      next
        case False
        then obtain cap where p1: "r1 = Inr ()" "p1 = p\<lparr>pfree_cap := cap\<rparr>" using room_for_claim_ok [OF r1] by blast
        have ok1: "part_ok M p1 d" using assms(1) p1(2) by simp
        obtain r2 p2 where r2: "carve h p1 c = (r2, p2)" by fastforce
        show thesis
        proof (cases "r2 = Inr None \<and> p2 = p1")
          case True
          then have "res = Inl (Err (NoPartition n))" "p' = p1" using al Inr nc(1) None r1 p1(1) r2 by simp_all
          then show thesis using ok1 p1(2) by (intro failed) simp_all
        next
          case False
          then obtain b i where b: "r2 = Inr (Some b)" "taken_from p1 (Region_new b c) p2"
              "is_best (pfree p1) c 0 (Some i)" "unat b + unat c = rhi (pfree p1 ! i)"
            using carve_taken [OF ok1 cl r2] by blast
          have tf: "taken_from p (Region_new b c) p2" using b(2) p1(2) taken_from_cap by simp
          have en: "enter_ledger h p2 s b n c = (res, p')" using al Inr nc(1) None r1 p1(1) r2 b(1) by simp
          note e = enter_ledger_ok [OF assms(1) tf None cs(1,2,3) en]
          show thesis
          proof (cases res)
            case (Inl f)
            then obtain err where "res = Inl (Err err)" using e(1) by (cases f) auto
            then show thesis using e(2,3,4) e(6) [OF Inl] by (intro failed) simp_all
          next
            case (Inr tok)
            then show thesis using e(2,3,4) e(5) [OF Inr] gs(1) nc(3) tf None b(3,4) p1(2) by (intro given [of b n c p2 i]) simp_all
          qed
        qed
      qed
    qed
  qed
qed

lemma part_ok_disown:
  assumes "part_ok M p d"
  shows "part_ok M (p\<lparr>owners := snd (SlotVec_remove (owners p) s)\<rparr>) d"
    and "holds (p\<lparr>owners := snd (SlotVec_remove (owners p) s)\<rparr>) d h = (if h = HSlot s then {} else holds p d h)"
proof -
  let ?p = "p\<lparr>owners := snd (SlotVec_remove (owners p) s)\<rparr>"
  have h: "holds ?p d h = (if h = HSlot s then {} else holds p d h)" for h
    by (cases h) (simp_all add: sv.get_take)
  have sub: "holds ?p d h \<subseteq> holds p d h" for h unfolding h by simp
  show "holds ?p d h = (if h = HSlot s then {} else holds p d h)" by (rule h)
  have "disjoint_family (holds ?p d)" by (rule disjoint_shrink [OF part_okD(2) [OF assms] sub])
  moreover have "holds ?p d h \<subseteq> M" for h using sub part_okD(3) [OF assms] by (rule order_trans)
  ultimately show "part_ok M ?p d" using assms by (auto simp: part_ok_def sv.get_take)
qed

text \<open>A release empties the slot; its claim goes back to the free list unless the heap refuses the entry.\<close>

lemma release_ledger_ok:
  assumes "part_ok M p d" "release_ledger h p s = (res, p')"
  shows "res = Inr ()" "part_ok M p' d" "geo p' = geo p" "capacity p' = capacity p"
    "SlotVec_get (owners p') r = (if r = s then None else SlotVec_get (owners p) r)"
    "bytes (pfree p') = bytes (pfree p) \<union> holds p d (HSlot s) \<or>
     bytes (pfree p') = bytes (pfree p) \<and> vec_try_reserve (grants_free h) (pfree_cap p) (length (pfree p)) 1 = None"
proof -
  obtain o1 own where rm: "SlotVec_remove (owners p) s = (o1, own)" by fastforce
  have o1: "o1 = SlotVec_get (owners p) s" using sv.take_old [of "owners p" s] rm by simp
  have get: "SlotVec_get own r = (if r = s then None else SlotVec_get (owners p) r)" for r
    using sv.get_take [of "owners p" s r] rm by simp
  let ?p = "p\<lparr>owners := own\<rparr>"
  have "res = Inr () \<and> part_ok M p' d \<and> geo p' = geo p \<and> capacity p' = capacity p \<and>
    SlotVec_get (owners p') r = (if r = s then None else SlotVec_get (owners p) r) \<and>
    (bytes (pfree p') = bytes (pfree p) \<union> holds p d (HSlot s) \<or>
     bytes (pfree p') = bytes (pfree p) \<and> vec_try_reserve (grants_free h) (pfree_cap p) (length (pfree p)) 1 = None)"
  proof (cases o1)
    case None
    then have "res = Inr () \<and> p' = p" using assms(2) rm by (simp add: release_ledger_def)
    then show ?thesis using assms(1) o1 None by simp
  next
    case (Some l)
    have ow: "owner_ok (geo p) l" using part_okD(4) [OF assms(1)] o1 Some by simp
    let ?r = "claim_region (geo p) l"
    have pr: "piece ?r" and u: "unat (rsize l + reserve (geo p) (rsize l)) = unat (rsize l) + unat (reserve (geo p) (rsize l))"
      using ow by (simp_all add: owner_ok_def)
    have ad: "add64 (rsize l) (reserve (geo p) (rsize l)) = (Inr (rsize l + reserve (geo p) (rsize l)) :: KernError fail + u64)"
      using u unat64_less by (simp add: add64_def) (metis unat64_less)
    obtain ires pi where i: "insert_free h ?p ?r = (ires, pi)" by fastforce
    have hs: "holds p d (HSlot s) = region_bytes ?r" unfolding holds.simps o1 [symmetric] Some by simp
    have ok1: "part_ok M ?p d" and hold1: "\<And>h. holds ?p d h = (if h = HSlot s then {} else holds p d h)"
      using part_ok_disown [OF assms(1), of s] rm by simp_all
    have "region_bytes ?r \<subseteq> M" using part_okD(3) [OF assms(1), of "HSlot s"] hs by simp
    moreover have "holds ?p d h \<inter> region_bytes ?r = {}" for h
      unfolding hold1 hs [symmetric] using holds_apart [OF assms(1), of h "HSlot s"] by (simp del: holds.simps)
    ultimately have f: "ires \<noteq> Inl Panic" "part_ok M pi d" "owners pi = own" "geo pi = geo p" "capacity pi = capacity p"
      "ires = Inr () \<Longrightarrow> bytes (pfree pi) = bytes (pfree p) \<union> region_bytes ?r"
      "ires \<noteq> Inr () \<Longrightarrow> pi = ?p \<and> vec_try_reserve (grants_free h) (pfree_cap p) (length (pfree p)) 1 = None"
      using insert_free_ok [OF ok1 pr _ _ i] by simp_all
    have "res = Inr () \<and> p' = pi"
      using assms(2) rm Some ad i f(1) unfolding release_ledger_def claim_region_def
      by (cases ires rule: sum.exhaust) (auto split: fail.splits)
    then show ?thesis using f get hs by (cases "ires = Inr ()") auto
  qed
  then show "res = Inr ()" "part_ok M p' d" "geo p' = geo p" "capacity p' = capacity p"
    "SlotVec_get (owners p') r = (if r = s then None else SlotVec_get (owners p) r)"
    "bytes (pfree p') = bytes (pfree p) \<union> holds p d (HSlot s) \<or>
     bytes (pfree p') = bytes (pfree p) \<and> vec_try_reserve (grants_free h) (pfree_cap p) (length (pfree p)) 1 = None"
    by blast+
qed

end
