(* ===== verification/PartReach.thy ===== *)
theory PartReach
  imports PartSafe
begin

unbundle bit_operations_syntax

text \<open>
  The remaining operations of the partition pool, the pool built at boot, and the properties of every
  state the lifecycle can reach: the holders never share a byte, no operation overflows, a claim comes
  from the top of the smallest piece that fits, and a claim that is given back leaves the pool as it was.
\<close>

lemma free_span_spec:
  assumes "list_all piece fs"
  shows "free_span_loop fs b e = Inr (list_ex (\<lambda>r. base r \<le> b \<and> unat e \<le> rhi r) fs)"
  using assms
proof (induction fs)
  case Nil
  then show ?case by (simp add: free_span_loop_def)
next
  case (Cons r fs)
  then obtain t where "region_top r = Inr t" "unat t = rhi r" using piece_top [of r] by auto
  with Cons show ?case by (auto simp: free_span_loop_def word_le_nat_alt)
qed

lemma take_free_range_ok:
  assumes "part_ok M p d" "piece (Region_new b c)" "unat e = unat b + unat c"
    and "take_free_range h p b e nf = (res, p')"
  shows "(\<exists>err. res = Inl (Err err)) \<and> (p' = p \<or> (\<exists>k. p' = p\<lparr>pfree_cap := k\<rparr>)) \<or>
    res = Inr () \<and> taken_from p (Region_new b c) p'"
proof -
  note tf = assms(4) [unfolded take_free_range_def]
  have all: "list_all piece (pfree p)" using part_okD(1) [OF assms(1)] by (simp add: pieces_def)
  have al: "aligned (unat b)" "aligned (unat e)" "unat b < unat e"
    using assms(2,3) aligned_add by (auto simp: piece_def)
  show ?thesis
  proof (cases "list_ex (\<lambda>r. base r \<le> b \<and> unat e \<le> rhi r) (pfree p)")
    case False
    then show ?thesis using tf free_span_spec [OF all, of b e] by (auto simp: free_span_def)
  next
    case True
    then obtain r where r: "r \<in> set (pfree p)" "base r \<le> b" "unat e \<le> rhi r" by (auto simp: list_ex_iff)
    have "region_bytes (Region_new b c) \<subseteq> region_bytes r"
      using r(2,3) assms(3) by (auto simp: region_bytes_def word_le_nat_alt)
    then have sub: "region_bytes (Region_new b c) \<subseteq> bytes (pfree p)" using r(1) by (auto simp: bytes_def)
    obtain r1 p1 where r1: "room_for_claim h p = (r1, p1)" by fastforce
    from room_for_claim_ok [OF r1] show ?thesis
    proof (elim disjE conjE exE)
      fix n assume "r1 = Inl (Err (OutOfMemory n))" "p1 = p"
      then show ?thesis using tf True free_span_spec [OF all, of b e] r1 by (auto simp: free_span_def)
    next
      fix cap assume p1: "r1 = Inr ()" "p1 = p\<lparr>pfree_cap := cap\<rparr>"
      have tr: "(res, p') = (case take_range h p1 b e of (Inl f, q) \<Rightarrow> (Inl f, q) | (Inr _, q) \<Rightarrow> (Inr (), q))"
        using tf True free_span_spec [OF all, of b e] r1 p1(1) by (simp add: free_span_def)
      have ps: "pieces (pfree p1)" using part_okD(1) [OF assms(1)] p1(2) by simp
      show ?thesis
        using ps al(3,1,2)
      proof (cases rule: take_range_spec [where h = h])
        case (refused n)
        then have "res = Inl (Err (OutOfMemory n))" "p' = p1" using tr by simp_all
        then show ?thesis using p1(2) by blast
      next
        case (taken took fs k)
        have "taken_from p1 (Region_new b c) (p1\<lparr>pfree := fs, pfree_cap := k\<rparr>)"
          unfolding taken_from_def using taken(2,3) assms(2,3) sub p1(2)
          by (auto simp: region_bytes_new intro!: exI [of _ fs] exI [of _ k])
        then show ?thesis using tr taken(1) taken_from_cap p1(2) by auto
      qed
    qed
  qed
qed

lemma part_ok_cap_cases: "part_ok M p d \<Longrightarrow> p' = p \<or> (\<exists>k. p' = p\<lparr>pfree_cap := k\<rparr>) \<Longrightarrow> part_ok M p' d"
  by auto

lemma adopt_ok:
  assumes "part_ok M p d" "PartitionPool_adopt h p s b n = (res, p')"
  shows "res \<noteq> Inl Panic" "part_ok M p' d" "geo p' = geo p" "capacity p' = capacity p"
    "res = Inr tok \<Longrightarrow> tok = Partition s (Region_new b n) \<and> SlotVec_get (owners p') s = Some (Region_new b n)"
proof -
  note ad = assms(2) [unfolded PartitionPool_adopt_def]
  have "res \<noteq> Inl Panic \<and> part_ok M p' d \<and> geo p' = geo p \<and> capacity p' = capacity p \<and>
    (res = Inr tok \<longrightarrow> tok = Partition s (Region_new b n) \<and> SlotVec_get (owners p') s = Some (Region_new b n))"
  proof (cases "n = 0 \<or> b mod GRAIN_2M \<noteq> 0 \<or> n mod GRAIN_2M \<noteq> 0 \<or> checked_add b n = None")
    case True
    then have "res = Inl (Err (BadRange b n)) \<and> p' = p" using ad by auto
    then show ?thesis using assms(1) by simp
  next
    case False
    then have al: "aligned (unat b)" "aligned (unat n)" by (simp_all add: unat_mod_GRAIN)
    let ?c = "rbind (claim_size p n) (\<lambda>c. rbind (ok_or (checked_add b c) (BadRange b n)) (\<lambda>e. Inr (c, e)))"
    have ad': "(res, p') = (case ?c of Inl e \<Rightarrow> (Inl (Err e), p) | Inr (claim, e) \<Rightarrow>
          if SlotVec_get (owners p) s \<noteq> None then (Inl (Err (StillOwned (Slot_get s))), p)
          else case take_free_range h p b e (NotFree b n) of
            (Inl f, p') \<Rightarrow> (Inl f, p') | (Inr _, p2) \<Rightarrow> enter_ledger h p2 s b n claim)"
      using ad False by (simp only: if_False)
    show ?thesis
    proof (cases ?c)
      case (Inl e)
      then show ?thesis using ad' assms(1) by simp
    next
      case (Inr ce)
      then obtain c e where ce: "ce = (c, e)" "claim_size p n = Inr c" "checked_add b c = Some e"
        by (auto simp: res_simps)
      note cs = claim_size_ok [OF ce(2)]
      have ue: "unat e = unat b + unat c" using ce(3) by (simp add: chk_simps)
      have pc: "piece (Region_new b c)"
        using cs(4) [OF al(2)] al(1) ue unat64_less [of e] by (intro piece_new) (simp_all add: claimable_def)
      show ?thesis
      proof (cases "SlotVec_get (owners p) s")
        case (Some l)
        then show ?thesis using ad' Inr ce(1) assms(1) by simp
      next
        case None
        obtain r2 p2 where r2: "take_free_range h p b e (NotFree b n) = (r2, p2)" by fastforce
        from take_free_range_ok [OF assms(1) pc ue r2] show ?thesis
        proof (elim disjE)
          assume a: "(\<exists>err. r2 = Inl (Err err)) \<and> (p2 = p \<or> (\<exists>k. p2 = p\<lparr>pfree_cap := k\<rparr>))"
          then have "\<exists>err. res = Inl (Err err)" "p' = p2" using ad' Inr ce(1) None r2 by auto
          then show ?thesis using part_ok_cap_cases [OF assms(1)] a by auto
        next
          assume a: "r2 = Inr () \<and> taken_from p (Region_new b c) p2"
          then have "enter_ledger h p2 s b n c = (res, p')" using ad' Inr ce(1) None r2 by simp
          from enter_ledger_ok [OF assms(1) _ None cs(1,2,3) this] a show ?thesis by auto
        qed
      qed
    qed
  qed
  then show "res \<noteq> Inl Panic" "part_ok M p' d" "geo p' = geo p" "capacity p' = capacity p"
    "res = Inr tok \<Longrightarrow> tok = Partition s (Region_new b n) \<and> SlotVec_get (owners p') s = Some (Region_new b n)"
    by blast+
qed

section \<open>Devices\<close>

text \<open>A piece just taken becomes a device's.\<close>

lemma part_ok_device:
  assumes "part_ok M p d" "taken_from p (Region_new b n) p'" "d b = None"
  shows "part_ok M p' (d(b \<mapsto> n))"
proof -
  note t = taken_from_ok [OF assms(1,2)]
  let ?X = "region_bytes (Region_new b n)"
  have h: "holds p' (d(b \<mapsto> n)) h = (if h = HDevice b then ?X else holds p' d h)" for h
    by (cases h) simp_all
  have "holds p' (d(b \<mapsto> n)) h \<inter> holds p' (d(b \<mapsto> n)) k = {}" if "h \<noteq> k" for h k
    unfolding h using holds_apart [OF t(1) that] t(4) [of h] t(4) [of k] that by (auto simp del: holds.simps)
  moreover have "holds p' (d(b \<mapsto> n)) h \<subseteq> M" for h
    unfolding h using part_okD(3) [OF t(1), of h] t(3) by (simp del: holds.simps)
  ultimately show ?thesis
    using t(1,2) by (auto simp: part_ok_def disjoint_family_on_def)
qed

text \<open>Two devices cannot start at one byte: the ghost map is defined where a device holds something.\<close>

lemma device_fresh: "part_ok M p d \<Longrightarrow> taken_from p (Region_new b n) p' \<Longrightarrow> d b = None"
proof (rule ccontr)
  assume a: "part_ok M p d" "taken_from p (Region_new b n) p'" "d b \<noteq> None"
  then obtain k where k: "d b = Some k" by blast
  have "unat b \<in> holds p d (HDevice b)" using part_okD(5) [OF a(1) k] k by (simp add: piece_def region_bytes_new)
  moreover have "unat b \<in> holds p d HFree" using a(2) by (auto simp: taken_from_def region_bytes_new piece_def)
  ultimately show False using holds_apart [OF a(1), of HFree "HDevice b"] by blast
qed

definition sat_sub :: "u64 \<Rightarrow> u64 \<Rightarrow> u64" where
  "sat_sub c n = (if n \<le> c then c - n else 0)"

lemma reserve_device_ok:
  assumes "part_ok M p d" "reserve_device h p m = (res, p')"
  shows "res \<noteq> Inl Panic" "geo p' = geo p" "res = Inl e \<Longrightarrow> part_ok M p' d \<and> capacity p' = capacity p"
    "res = Inr b \<Longrightarrow> \<exists>n. align_grain m = Some n \<and> part_ok M p' (d(b \<mapsto> n)) \<and> d b = None \<and> capacity p' = sat_sub (capacity p) n"
proof -
  note rd = assms(2) [unfolded reserve_device_def]
  have "res \<noteq> Inl Panic \<and> geo p' = geo p \<and> (res = Inl e \<longrightarrow> part_ok M p' d \<and> capacity p' = capacity p) \<and>
    (res = Inr b \<longrightarrow> (\<exists>n. align_grain m = Some n \<and> part_ok M p' (d(b \<mapsto> n)) \<and> d b = None \<and> capacity p' = sat_sub (capacity p) n))"
  proof (cases "grain_size m")
    case (Inl e)
    then show ?thesis using rd assms(1) by auto
  next
    case (Inr n)
    note gs = grain_size_ok [OF Inr]
    obtain r1 p1 where r1: "room_for_claim h p = (r1, p1)" by fastforce
    from room_for_claim_ok [OF r1] show ?thesis
    proof (elim disjE conjE exE)
      fix k assume "r1 = Inl (Err (OutOfMemory k))" "p1 = p"
      then show ?thesis using rd Inr r1 assms(1) by auto
    next
      fix cap assume p1: "r1 = Inr ()" "p1 = p\<lparr>pfree_cap := cap\<rparr>"
      have ok1: "part_ok M p1 d" using assms(1) p1(2) by simp
      obtain r2 p2 where r2: "carve h p1 n = (r2, p2)" by fastforce
      show ?thesis
      proof (rule disjE [OF carve_taken [OF ok1 gs(2) r2]], goal_cases)
        case 1
        then have "r2 = Inr None" "p2 = p1" by blast+
        then have "res = Inl (Err (NoPartition n))" "p' = p1" using rd Inr r1 p1(1) r2 by simp_all
        then show ?thesis using ok1 p1(2) by simp
      next
        case 2
        then obtain c where c: "r2 = Inr (Some c)" "taken_from p1 (Region_new c n) p2" by blast
        have "res = Inr c" "p' = p2\<lparr>capacity := sat_sub (capacity p2) n\<rparr>"
          using rd Inr r1 p1(1) r2 c(1) by (simp_all add: sat_sub_def)
        moreover have "part_ok M p2 (d(c \<mapsto> n))"
          by (rule part_ok_device [OF ok1 c(2) device_fresh [OF ok1 c(2)]])
        moreover have "geo p2 = geo p" "capacity p2 = capacity p" using taken_from_ok(6,7) [OF ok1 c(2)] p1(2) by simp_all
        moreover note device_fresh [OF ok1 c(2)]
        ultimately show ?thesis using gs(1) by auto
      qed
    qed
  qed
  then show "res \<noteq> Inl Panic" "geo p' = geo p" "res = Inl e \<Longrightarrow> part_ok M p' d \<and> capacity p' = capacity p"
    "res = Inr b \<Longrightarrow> \<exists>n. align_grain m = Some n \<and> part_ok M p' (d(b \<mapsto> n)) \<and> d b = None \<and> capacity p' = sat_sub (capacity p) n" by blast+
qed

lemma adopt_device_ok:
  assumes "part_ok M p d" "adopt_device h p b n = (res, p')"
  shows "res \<noteq> Inl Panic" "geo p' = geo p" "res = Inl e \<Longrightarrow> part_ok M p' d \<and> capacity p' = capacity p"
    "res = Inr u \<Longrightarrow> part_ok M p' (d(b \<mapsto> n)) \<and> d b = None \<and> capacity p' = sat_sub (capacity p) n"
proof -
  note ad = assms(2) [unfolded adopt_device_def]
  have "res \<noteq> Inl Panic \<and> geo p' = geo p \<and> (res = Inl e \<longrightarrow> part_ok M p' d \<and> capacity p' = capacity p) \<and>
    (res = Inr u \<longrightarrow> part_ok M p' (d(b \<mapsto> n)) \<and> d b = None \<and> capacity p' = sat_sub (capacity p) n)"
  proof (cases "checked_add b n")
    case None
    then show ?thesis using ad assms(1) by auto
  next
    case (Some t)
    show ?thesis
    proof (cases "n = 0 \<or> b mod GRAIN_2M \<noteq> 0 \<or> n mod GRAIN_2M \<noteq> 0")
      case True
      then have "res = Inl (Err (BadRange b n)) \<and> p' = p" using ad Some by auto
      then show ?thesis using assms(1) by simp
    next
      case False
      have ue: "unat t = unat b + unat n" using Some by (simp add: chk_simps)
      have pc: "piece (Region_new b n)"
        using False ue unat64_less [of t] by (intro piece_new) (simp_all add: unat_mod_GRAIN unat_gt_0)
      obtain r2 p2 where r2: "take_free_range h p b t (NotFree b n) = (r2, p2)" by fastforce
      from take_free_range_ok [OF assms(1) pc ue r2] show ?thesis
      proof (elim disjE)
        assume a: "(\<exists>err. r2 = Inl (Err err)) \<and> (p2 = p \<or> (\<exists>k. p2 = p\<lparr>pfree_cap := k\<rparr>))"
        then have "\<exists>err. res = Inl (Err err)" "p' = p2" using ad Some False r2 by auto
        then show ?thesis using part_ok_cap_cases [OF assms(1)] a by auto
      next
        assume a: "r2 = Inr () \<and> taken_from p (Region_new b n) p2"
        then have "p' = p2\<lparr>capacity := sat_sub (capacity p2) n\<rparr>" "res = Inr ()"
          using ad Some False r2 by (auto simp: sat_sub_def)
        moreover have "d b = None" using a device_fresh [OF assms(1)] by blast
        moreover have "part_ok M p2 (d(b \<mapsto> n))"
          using a part_ok_device [OF assms(1) _ device_fresh [OF assms(1)]] by blast
        moreover have "geo p2 = geo p" "capacity p2 = capacity p" using a taken_from_ok(6,7) [OF assms(1)] by blast+
        ultimately show ?thesis by auto
      qed
    qed
  qed
  then show "res \<noteq> Inl Panic" "geo p' = geo p" "res = Inl e \<Longrightarrow> part_ok M p' d \<and> capacity p' = capacity p"
    "res = Inr u \<Longrightarrow> part_ok M p' (d(b \<mapsto> n)) \<and> d b = None \<and> capacity p' = sat_sub (capacity p) n" by blast+
qed

text \<open>Giving a device's range back: the range of an entry of the map, whole.\<close>

lemma release_device_ok:
  assumes "part_ok M p d" "d b = Some n" "align_grain m = Some n" "release_device h p b m = (res, p')"
    and cap: "unat (capacity p) + unat n < 2 ^ 64"
  shows "res \<noteq> Inl Panic" "geo p' = geo p" "res = Inl e \<Longrightarrow> p' = p"
    "res = Inr u \<Longrightarrow> part_ok M p' (d(b := None)) \<and> capacity p' = capacity p + n \<and>
       bytes (pfree p') = bytes (pfree p) \<union> region_bytes (Region_new b n)"
proof -
  let ?r = "Region_new b n" and ?d = "d(b := None)"
  have pr: "piece ?r" by (rule part_okD(5) [OF assms(1,2)])
  have n0: "n \<noteq> 0" using pr by (auto simp: piece_def)
  have h: "holds p ?d k = (if k = HDevice b then {} else holds p d k)" for k by (cases k) simp_all
  have hb: "holds p d (HDevice b) = region_bytes ?r" using assms(2) by simp
  have ok: "part_ok M p ?d"
  proof -
    have sub: "holds p ?d k \<subseteq> holds p d k" for k unfolding h by simp
    have "disjoint_family (holds p ?d)" by (rule disjoint_shrink [OF part_okD(2) [OF assms(1)] sub])
    moreover have "holds p ?d k \<subseteq> M" for k using sub part_okD(3) [OF assms(1)] by (rule order_trans)
    ultimately show ?thesis using assms(1) by (auto simp: part_ok_def)
  qed
  have "region_bytes ?r \<subseteq> M" using part_okD(3) [OF assms(1), of "HDevice b"] unfolding hb .
  moreover have "holds p ?d k \<inter> region_bytes ?r = {}" for k
    unfolding h hb [symmetric] using holds_apart [OF assms(1), of k "HDevice b"] by (simp del: holds.simps)
  moreover obtain ires pi where i: "insert_free h p ?r = (ires, pi)" by fastforce
  ultimately have f: "ires \<noteq> Inl Panic" "part_ok M pi ?d" "geo pi = geo p" "capacity pi = capacity p"
    "ires = Inr () \<Longrightarrow> bytes (pfree pi) = bytes (pfree p) \<union> region_bytes ?r" "ires \<noteq> Inr () \<Longrightarrow> pi = p"
    using insert_free_ok [OF ok pr _ _ i] by simp_all
  have ad: "add64 (capacity pi) n = (Inr (capacity pi + n) :: KernError fail + u64)"
    using cap f(4) by (simp add: add64_def)
  have "res \<noteq> Inl Panic \<and> geo p' = geo p \<and> (res = Inl e \<longrightarrow> p' = p) \<and>
    (res = Inr u \<longrightarrow> part_ok M p' ?d \<and> capacity p' = capacity p + n \<and> bytes (pfree p') = bytes (pfree p) \<union> region_bytes ?r)"
  proof (cases ires)
    case (Inl x)
    then have "res = Inl x" "p' = p" using assms(3,4) i n0 f(6) by (auto simp: release_device_def)
    then show ?thesis using assms(1) Inl f(1) by simp
  next
    case (Inr x)
    then have "res = Inr ()" "p' = pi\<lparr>capacity := capacity pi + n\<rparr>"
      using assms(3,4) i n0 ad by (auto simp: release_device_def)
    then show ?thesis using f Inr by simp
  qed
  then show "res \<noteq> Inl Panic" "geo p' = geo p" "res = Inl e \<Longrightarrow> p' = p"
    "res = Inr u \<Longrightarrow> part_ok M p' (d(b := None)) \<and> capacity p' = capacity p + n \<and>
       bytes (pfree p') = bytes (pfree p) \<union> region_bytes (Region_new b n)"
    by blast+
qed

section \<open>The pool at boot\<close>

lemma pad_aligned: "aligned (unat x + unat ((- x) AND (GRAIN_2M - 1)))"
proof -
  define u v where "u = unat x" and "v = unat (- x)"
  have "(u + v) mod 2 ^ LENGTH(64) = unat (x + - x)" unfolding u_def v_def by (rule unat_word_ariths(1) [symmetric])
  then have "(u + v) mod 2 ^ 64 = 0" by simp
  then have "2 ^ 64 dvd u + v" by (rule mod_0_imp_dvd)
  moreover have "(2 ^ 21 :: nat) dvd 2 ^ 64" by (rule le_imp_power_dvd) simp
  ultimately have "2 ^ 21 dvd u + v" by (rule dvd_trans [rotated])
  then have "(u + v) mod 2 ^ 21 = 0" by (rule dvd_imp_mod_0)
  then have "(u + v mod 2 ^ 21) mod 2 ^ 21 = 0" by (simp only: mod_add_right_eq)
  then show ?thesis unfolding aligned_def GRAIN_mask unat_and_mask u_def v_def by simp
qed

text \<open>The list under construction: disjoint pieces, and a capacity that counts their bytes.\<close>

definition building :: "nat set \<Rightarrow> PartitionPool \<Rightarrow> bool" where
  "building M p \<longleftrightarrow> list_all piece (pfree p) \<and>
     sorted_wrt (\<lambda>a b. region_bytes a \<inter> region_bytes b = {}) (pfree p) \<and>
     bytes (pfree p) \<subseteq> M \<and> unat (capacity p) = card (bytes (pfree p)) \<and> owners p = SlotVec_new"

lemma building_add:
  assumes "building M p" "piece r" "region_bytes r \<inter> bytes (pfree p) = {}" "region_bytes r \<subseteq> M'" "M \<subseteq> M'"
  shows "unat (capacity p) + unat (rsize r) < 2 ^ 64"
    "building M' (p\<lparr>pfree := pfree p @ [r], pfree_cap := c, capacity := capacity p + rsize r\<rparr>)"
proof -
  have B: "list_all piece (pfree p)" "sorted_wrt (\<lambda>a b. region_bytes a \<inter> region_bytes b = {}) (pfree p)"
    "bytes (pfree p) \<subseteq> M" "unat (capacity p) = card (bytes (pfree p))" "owners p = SlotVec_new"
    using assms(1) by (simp_all add: building_def)
  have all: "list_all piece (pfree p @ [r])" using B(1) assms(2) by simp
  have cr: "card (region_bytes r) = unat (rsize r)" by (simp add: region_bytes_def)
  have card: "card (bytes (pfree p @ [r])) = unat (capacity p) + unat (rsize r)"
    unfolding bytes_simps B(4) cr [symmetric] using assms(3)
    by (simp add: card_Un_disjoint region_bytes_def Int_commute)
  have "bytes (pfree p @ [r]) \<subseteq> {..< 2 ^ 64 - 1}"
  proof
    fix x assume "x \<in> bytes (pfree p @ [r])"
    then obtain q where "q \<in> set (pfree p @ [r])" "x \<in> region_bytes q" by (auto simp: bytes_def)
    then have "x < rhi q" "rhi q < 2 ^ 64" using all by (auto simp: list_all_iff piece_def region_bytes_def)
    then show "x \<in> {..< 2 ^ 64 - 1}" by simp
  qed
  then have "card (bytes (pfree p @ [r])) \<le> 2 ^ 64 - 1" by (metis card_lessThan card_mono finite_lessThan)
  then show lt: "unat (capacity p) + unat (rsize r) < 2 ^ 64" unfolding card by simp
  then have "unat (capacity p + rsize r) = unat (capacity p) + unat (rsize r)" by (simp add: unat_word_ariths)
  then show "building M' (p\<lparr>pfree := pfree p @ [r], pfree_cap := c, capacity := capacity p + rsize r\<rparr>)"
    using assms(3-5) all card B(2,3,5) unfolding building_def
    by (auto simp: sorted_wrt_append bytes_def)
qed

lemma carve_piece_ok:
  assumes "building M p" "rhi r < 2 ^ 64" "region_bytes r \<inter> M = {}" "carve_piece h p r = (res, p')"
  shows "res \<noteq> Inl Panic" "res = Inr u \<Longrightarrow> building (M \<union> region_bytes r) p' \<and> geo p' = geo p"
proof -
  let ?pad = "(- base r) AND (GRAIN_2M - 1)"
  note cp = assms(4) [unfolded carve_piece_def Let_def]
  have mono: "building (M \<union> region_bytes r) p" using assms(1) by (auto simp: building_def)
  have "res \<noteq> Inl Panic \<and> (res = Inr u \<longrightarrow> building (M \<union> region_bytes r) p' \<and> geo p' = geo p)"
  proof (cases "?pad \<ge> rsize r")
    case True
    then show ?thesis using cp mono by auto
  next
    case False
    then have pl: "unat ?pad < unat (rsize r)" by (simp add: word_le_nat_alt)
    then have lt: "rlo r + unat ?pad < 2 ^ 64" using assms(2) by linarith
    then obtain b where b: "add64 (base r) ?pad = (Inr b :: KernError fail + u64)" "unat b = rlo r + unat ?pad"
      by (simp add: add64_def unat_word_ariths)
    have ab: "aligned (unat b)" unfolding b(2) by (rule pad_aligned)
    obtain t where t: "Region_end r = Some t" "unat t = rhi r"
      using assms(2) Region_end_Some [of r "base r + rsize r"] by (auto simp: unat_word_ariths)
    define e where "e = grain_down t"
    have ae: "aligned (unat e)" "unat e \<le> rhi r" unfolding e_def t(2) [symmetric]
      using unat_grain_down_aligned by (simp_all add: unat_grain_down)
    have cp': "(res, p') = (if e > b then
        (case try_push h p (Region_new b (e - b)) of (Inl f, p') \<Rightarrow> (Inl f, p')
         | (Inr _, p') \<Rightarrow> (case add64 (capacity p') (e - b) of Inl f \<Rightarrow> (Inl f, p')
             | Inr c \<Rightarrow> (Inr (), p'\<lparr>capacity := c\<rparr>))) else (Inr (), p))"
      using cp [unfolded t(1) option.case b(1) sum.case, folded e_def] False by simp
    show ?thesis
    proof (cases "e > b")
      case False
      then show ?thesis using cp' mono by auto
    next
      case True
      then have be: "unat b < unat e" by (simp add: word_less_nat_alt)
      let ?r = "Region_new b (e - b)"
      have ue: "unat (e - b) = unat e - unat b" using True by (intro unat_sub) simp
      have pr: "piece ?r"
        using be ue ab ae assms(2) by (intro piece_new) (simp_all add: aligned_diff)
      have rb: "region_bytes ?r \<subseteq> region_bytes r"
        using be ue b(2) ae(2) by (auto simp: region_bytes_def)
      have dis: "region_bytes ?r \<inter> bytes (pfree p) = {}"
        using rb assms(1,3) by (auto simp: building_def)
      note add = building_add [OF assms(1) pr dis, of "M \<union> region_bytes r"]
      show ?thesis
      proof (cases "vec_try_reserve (grants_free h) (pfree_cap p) (length (pfree p)) 1")
        case None
        then show ?thesis using cp' True by (simp add: try_push_def)
      next
        case (Some c)
        have lt: "unat (capacity p) + unat (e - b) < 2 ^ 64" using add(1) rb by auto
        then have "res = Inr ()" "p' = p\<lparr>pfree := pfree p @ [?r], pfree_cap := c, capacity := capacity p + (e - b)\<rparr>"
          using cp' True Some by (simp_all add: try_push_def add64_def)
        then show ?thesis using add(2) [of c] rb by auto
      qed
    qed
  qed
  then show "res \<noteq> Inl Panic" "res = Inr u \<Longrightarrow> building (M \<union> region_bytes r) p' \<and> geo p' = geo p" by blast+
qed

definition apart :: "Region list \<Rightarrow> bool" where
  "apart rs \<longleftrightarrow> sorted_wrt (\<lambda>a b. region_bytes a \<inter> region_bytes b = {}) rs"

lemma interval_minus: "a < d \<Longrightarrow> c < b \<Longrightarrow> c \<le> d \<Longrightarrow> {a..<b} - {c..<d} = {a..<c} \<union> {d..<b}"
  for a b c d :: nat
  by auto

lemma source_pieces_spec:
  assumes "Region_end src \<noteq> None" "rsize own = 0 \<or> Region_end own \<noteq> None"
  shows "list_all (\<lambda>r. rhi r < 2 ^ 64) (source_pieces src own)" "apart (source_pieces src own)"
    "bytes (source_pieces src own) = region_bytes src - region_bytes own"
proof -
  obtain s where s: "Region_end src = Some s" "unat s = rhi src" using assms(1) Region_end_Some by auto
  have lt: "rhi src < 2 ^ 64" using s(2) unat64_less [of s] by simp
  let ?P = "list_all (\<lambda>r. rhi r < 2 ^ 64) (source_pieces src own) \<and> apart (source_pieces src own) \<and>
    bytes (source_pieces src own) = region_bytes src - region_bytes own"
  have ?P
  proof (cases "rsize own \<noteq> 0 \<and> Region_overlaps src own")
    case False
    have "region_bytes src \<inter> region_bytes own = {}"
    proof (cases "rsize own = 0")
      case True
      then show ?thesis by (simp add: region_bytes_def)
    next
      case c: False
      then show ?thesis using overlaps_iff_share_byte [OF assms(1), of own] False assms(2) by blast
    qed
    then have "region_bytes src - region_bytes own = region_bytes src" by blast
    moreover have "source_pieces src own = [src]" using False by (simp only: source_pieces_def if_False)
    ultimately show ?thesis using lt by (simp add: apart_def)
  next
    case True
    then obtain e where o1: "Region_end own = Some e" "unat e = rhi own" using assms(2) Region_end_Some by auto
    have "region_bytes src \<inter> region_bytes own \<noteq> {}" using overlaps_iff_share_byte [OF assms(1), of own] True o1 by simp
    then have m: "rlo own < rhi src" "rlo src < rhi own" by (auto simp: region_bytes_def)
    let ?A = "Region_new (base src) (base own - base src)" and ?B = "Region_new e (s - e)"
    have sp: "source_pieces src own = (if rlo src < rlo own then [?A] else []) @ (if rhi own < rhi src then [?B] else [])"
      using True s o1 by (simp add: source_pieces_def word_less_nat_alt Let_def)
    have A: "unat (base own - base src) = rlo own - rlo src" if "rlo src < rlo own"
      using that by (intro unat_sub) (simp add: word_le_nat_alt)
    have B: "unat (s - e) = rhi src - rhi own" if "rhi own < rhi src"
      unfolding s(2) [symmetric] o1(2) [symmetric] using that s(2) o1(2) by (intro unat_sub) (simp add: word_le_nat_alt)
    have rA: "region_bytes ?A = {rlo src ..< rlo own}" "rhi ?A = rlo own" if "rlo src < rlo own"
      using A [OF that] that by (simp_all add: region_bytes_new)
    have rB: "region_bytes ?B = {rhi own ..< rhi src}" "rhi ?B = rhi src" if "rhi own < rhi src"
      using B [OF that] that o1(2) by (simp_all add: region_bytes_new)
    have left: "list_all (\<lambda>r. rhi r < 2 ^ 64) (if rlo src < rlo own then [?A] else [])"
      "bytes (if rlo src < rlo own then [?A] else []) = {rlo src ..< rlo own}"
      using rA unat64_less [of "base own"] by (auto simp del: Region_new_simps)
    have right: "list_all (\<lambda>r. rhi r < 2 ^ 64) (if rhi own < rhi src then [?B] else [])"
      "bytes (if rhi own < rhi src then [?B] else []) = {rhi own ..< rhi src}"
      using rB lt by (auto simp del: Region_new_simps)
    have "apart (source_pieces src own)"
      unfolding sp using rA(1) rB(1) by (auto simp: apart_def simp del: Region_new_simps)
    moreover have "region_bytes src - region_bytes own = {rlo src ..< rlo own} \<union> {rhi own ..< rhi src}"
      unfolding region_bytes_def by (rule interval_minus) (use m in simp_all)
    moreover have "bytes (source_pieces src own) = {rlo src ..< rlo own} \<union> {rhi own ..< rhi src}"
      unfolding sp bytes_simps left(2) right(2) ..
    moreover have "list_all (\<lambda>r. rhi r < 2 ^ 64) (source_pieces src own)"
      unfolding sp list_all_append using left(1) right(1) by (rule conjI)
    ultimately show ?thesis by simp
  qed
  then show "list_all (\<lambda>r. rhi r < 2 ^ 64) (source_pieces src own)" "apart (source_pieces src own)"
    "bytes (source_pieces src own) = region_bytes src - region_bytes own" by blast+
qed

lemma carve_pieces_ok:
  assumes "building M p" "list_all (\<lambda>r. rhi r < 2 ^ 64) rs" "apart rs" "bytes rs \<inter> M = {}"
    and "carve_pieces h p rs = (res, p')"
  shows "res \<noteq> Inl Panic \<and> (res = Inr u \<longrightarrow> building (M \<union> bytes rs) p' \<and> geo p' = geo p)"
  using assms
proof (induction rs arbitrary: p M)
  case Nil
  then show ?case by auto
next
  case (Cons r rs)
  obtain r1 p1 where r1: "carve_piece h p r = (r1, p1)" by fastforce
  have d: "region_bytes r \<inter> M = {}" "rhi r < 2 ^ 64" using Cons.prems(2,4) by auto
  note cp = carve_piece_ok [OF Cons.prems(1) d(2,1) r1]
  show ?case
  proof (cases r1)
    case (Inl e)
    then show ?thesis using Cons.prems(5) r1 cp(1) by auto
  next
    case (Inr x)
    have b: "building (M \<union> region_bytes r) p1" "geo p1 = geo p" using cp(2) Inr by auto
    have a: "apart rs" "bytes rs \<inter> (M \<union> region_bytes r) = {}"
      using Cons.prems(3,4) by (auto simp: apart_def bytes_def)
    have "carve_pieces h p1 rs = (res, p')" using Cons.prems(5) r1 Inr by simp
    from Cons.IH [OF b(1) _ a this] Cons.prems(2) b(2) show ?thesis by (simp add: Un_assoc)
  qed
qed

lemma carve_sources_ok:
  assumes "building M p" "list_all (\<lambda>r. Region_end r \<noteq> None) ss" "apart ss" "bytes ss \<inter> M = {}"
    and own: "rsize own = 0 \<or> Region_end own \<noteq> None" and "carve_sources h p ss own = (res, p')"
  shows "res \<noteq> Inl Panic \<and> (res = Inr u \<longrightarrow> building (M \<union> (bytes ss - region_bytes own)) p' \<and> geo p' = geo p)"
  using assms(1-4,6)
proof (induction ss arbitrary: p M)
  case Nil
  then show ?case by auto
next
  case (Cons s ss)
  have s: "Region_end s \<noteq> None" using Cons.prems(2) by simp
  note sp = source_pieces_spec [OF s own]
  obtain r1 p1 where r1: "carve_pieces h p (source_pieces s own) = (r1, p1)" by fastforce
  have d: "bytes (source_pieces s own) \<inter> M = {}" unfolding sp(3) using Cons.prems(4) by auto
  note cp = carve_pieces_ok [OF Cons.prems(1) sp(1,2) d r1, unfolded sp(3)]
  show ?case
  proof (cases r1)
    case (Inl e)
    then show ?thesis using Cons.prems(5) r1 cp by (auto simp: PartitionPool_carve_source_def)
  next
    case (Inr x)
    have b: "building (M \<union> (region_bytes s - region_bytes own)) p1" "geo p1 = geo p" using cp Inr by auto
    have a: "apart ss" "bytes ss \<inter> (M \<union> (region_bytes s - region_bytes own)) = {}"
      using Cons.prems(3,4) by (auto simp: apart_def bytes_def)
    have "carve_sources h p1 ss own = (res, p')" using Cons.prems(5) r1 Inr by (simp add: PartitionPool_carve_source_def)
    from Cons.IH [OF b(1) _ a this] Cons.prems(2) b(2) show ?thesis by (simp add: Un_assoc Un_Diff)
  qed
qed

lemma take_sources_ok:
  "take_sources h cap acc rs = Inr ss \<Longrightarrow>
     \<exists>ys. ss = acc @ ys \<and> ys = filter (\<lambda>r. rsize r \<noteq> 0) rs \<and> list_all (\<lambda>r. Region_end r \<noteq> None) ys"
proof (induction rs arbitrary: cap acc)
  case Nil
  then show ?case by simp
next
  case (Cons r rs)
  show ?case
  proof (cases "rsize r = 0")
    case True
    then show ?thesis using Cons by simp
  next
    case False
    then obtain c where "Region_end r \<noteq> None" "take_sources h c (acc @ [r]) rs = Inr ss"
      using Cons.prems by (auto split: if_splits option.splits)
    then show ?thesis using Cons.IH [of c "acc @ [r]"] False by auto
  qed
qed

lemma sorted_pieces:
  assumes "list_all piece fs" "apart fs"
  shows "pieces (sort_key base fs)" "bytes (sort_key base fs) = bytes fs"
proof -
  let ?s = "sort_key base fs"
  show "bytes ?s = bytes fs" by (simp add: bytes_def)
  have ne: "region_bytes a \<noteq> {}" if "a \<in> set fs" for a
    using assms(1) that by (auto simp: list_all_iff piece_def region_bytes_def)
  have idx: "region_bytes (fs ! i) \<inter> region_bytes (fs ! j) = {}" if "i < length fs" "j < length fs" "i \<noteq> j" for i j
  proof (cases "i < j")
    case True
    then show ?thesis using assms(2) that unfolding apart_def sorted_wrt_iff_nth_less by blast
  next
    case False
    then have "j < i" using that by simp
    then show ?thesis using assms(2) that unfolding apart_def sorted_wrt_iff_nth_less by blast
  qed
  have dist: "distinct fs"
    unfolding distinct_conv_nth
  proof (intro allI impI)
    fix i j assume ij: "i < length fs" "j < length fs" "i \<noteq> j"
    show "fs ! i \<noteq> fs ! j"
    proof
      assume e: "fs ! i = fs ! j"
      show False using idx [OF ij] ne [OF nth_mem [OF ij(1)]] unfolding e by simp
    qed
  qed
  have dis: "region_bytes a \<inter> region_bytes b = {}" if ab: "a \<in> set fs" "b \<in> set fs" "a \<noteq> b" for a b
  proof -
    obtain i where i: "a = fs ! i" "i < length fs" using ab(1) by (auto simp: in_set_conv_nth)
    obtain j where j: "b = fs ! j" "j < length fs" using ab(2) by (auto simp: in_set_conv_nth)
    have "i \<noteq> j" using i j ab(3) by auto
    then show ?thesis using idx [OF i(2) j(2)] i j by simp
  qed
  have "rhi a \<le> rlo b" if "i < j" "j < length ?s" "a = ?s ! i" "b = ?s ! j" for i j a b
  proof -
    have ab: "a \<in> set fs" "b \<in> set fs" using that nth_mem [of i ?s] nth_mem [of j ?s] by auto
    have "distinct ?s" using dist by simp
    then have "a \<noteq> b" using that nth_eq_iff_index_eq [of ?s i j] by simp
    then have d: "region_bytes a \<inter> region_bytes b = {}" using dis ab by blast
    have "base a \<le> base b"
      using that sorted_nth_mono [OF sorted_sort_key [of base fs], of i j] by simp
    then have le: "rlo a \<le> rlo b" by (simp add: word_le_nat_alt)
    show ?thesis
    proof (rule ccontr)
      assume "\<not> rhi a \<le> rlo b"
      moreover have "0 < unat (rsize b)" using assms(1) ab(2) by (simp add: list_all_iff piece_def)
      ultimately have "rlo b \<in> region_bytes a \<inter> region_bytes b" using le by (auto simp: region_bytes_def)
      with d show False by blast
    qed
  qed
  then have "sorted_wrt (\<lambda>a b. rhi a \<le> rlo b) ?s" by (simp add: sorted_wrt_iff_nth_less)
  then show "pieces ?s" using assms(1) by (simp add: pieces_def list_all_iff)
qed

text \<open>The memory of the pool: what the board offers, without the kernel's own region.\<close>

definition pool_memory :: "Region list \<Rightarrow> Region \<Rightarrow> nat set" where
  "pool_memory pool own = bytes pool - region_bytes own"

lemma new_ok:
  assumes "apart pool" "rsize own = 0 \<or> Region_end own \<noteq> None"
  shows "PartitionPool_new h pool own g \<noteq> Inl Panic"
    "PartitionPool_new h pool own g = Inr p \<Longrightarrow> part_ok (pool_memory pool own) p Map.empty \<and>
       unat (capacity p) = card (bytes (pfree p)) \<and> geo p = g \<and> owners p = SlotVec_new"
proof -
  let ?p = "\<lparr>pfree = [], pfree_cap = 0, capacity = 0, owners = SlotVec_new, geo = g\<rparr>"
  have "PartitionPool_new h pool own g \<noteq> Inl Panic \<and> (PartitionPool_new h pool own g = Inr p \<longrightarrow>
      part_ok (pool_memory pool own) p Map.empty \<and> unat (capacity p) = card (bytes (pfree p)) \<and> geo p = g \<and> owners p = SlotVec_new)"
  proof (cases "take_sources h 0 [] pool")
    case (Inl e)
    then show ?thesis by (simp add: PartitionPool_new_def Let_def)
  next
    case (Inr ss)
    have ss: "ss = filter (\<lambda>r. rsize r \<noteq> 0) pool" "list_all (\<lambda>r. Region_end r \<noteq> None) ss"
      using take_sources_ok [OF Inr] by auto
    have ap: "apart ss" using assms(1) unfolding ss(1) apart_def by (rule sorted_wrt_filter)
    have all: "bytes ss = bytes pool" unfolding ss(1) by (auto simp: bytes_def region_bytes_def)
    have b0: "building {} ?p" by (simp add: building_def)
    obtain res q where cs: "carve_sources h ?p ss own = (res, q)" by fastforce
    note c = carve_sources_ok [OF b0 ss(2) ap _ assms(2) cs]
    show ?thesis
    proof (cases res)
      case (Inl e)
      then show ?thesis using Inr cs c by (auto simp: PartitionPool_new_def Let_def)
    next
      case r: (Inr x)
      have b: "building (pool_memory pool own) q" "geo q = g" using c r by (auto simp: all pool_memory_def)
      have sp: "pieces (sort_key base (pfree q))" "bytes (sort_key base (pfree q)) = bytes (pfree q)"
        using sorted_pieces b(1) by (simp_all add: building_def apart_def)
      let ?q = "q\<lparr>pfree := sort_key base (pfree q)\<rparr>"
      have new: "PartitionPool_new h pool own g = Inr ?q" using Inr cs r by (simp add: PartitionPool_new_def Let_def)
      have none: "SlotVec_get (owners q) s = None" for s
        using b(1) by (simp add: building_def SlotVec_new_def SlotVec_get_def list_get_def)
      have h: "holds ?q Map.empty k = (if k = HFree then bytes (pfree q) else {})" for k
        using none sp(2) by (cases k) simp_all
      have "part_ok (pool_memory pool own) ?q Map.empty"
        using sp(1) none b(1) unfolding part_ok_def h by (simp add: disjoint_family_on_def building_def)
      then show ?thesis using new b sp(2) by (auto simp: building_def)
    qed
  qed
  then show "PartitionPool_new h pool own g \<noteq> Inl Panic"
    "PartitionPool_new h pool own g = Inr p \<Longrightarrow> part_ok (pool_memory pool own) p Map.empty \<and>
       unat (capacity p) = card (bytes (pfree p)) \<and> geo p = g \<and> owners p = SlotVec_new" by blast+
qed

end
