(* ===== verification/PartProps.thy ===== *)
theory PartProps
  imports PartReach
begin

unbundle bit_operations_syntax

text \<open>
  The states of the partition pool that its owner, the lifecycle actor, can reach, with the ranges its
  devices hold, and the properties of the pool in every one of them.
\<close>

inductive part_reach :: "Region list \<Rightarrow> Region \<Rightarrow> Geometry \<Rightarrow> PartitionPool \<Rightarrow> (u64 \<rightharpoonup> u64) \<Rightarrow> bool"
  for pool own g where
  boot: "PartitionPool_new h pool own g = Inr p \<Longrightarrow> part_reach pool own g p Map.empty"
| alloc: "part_reach pool own g p d \<Longrightarrow> PartitionPool_alloc h p s m = (r, p') \<Longrightarrow> part_reach pool own g p' d"
| abandon: "part_reach pool own g p d \<Longrightarrow> Partition_abandon h t p = (r, p') \<Longrightarrow> part_reach pool own g p' d"
| release: "part_reach pool own g p d \<Longrightarrow> Partition_release h u p pr = (r, p') \<Longrightarrow> part_reach pool own g p' d"
| adopt: "part_reach pool own g p d \<Longrightarrow> PartitionPool_adopt h p s b n = (r, p') \<Longrightarrow> part_reach pool own g p' d"
| reserve_fails: "part_reach pool own g p d \<Longrightarrow> reserve_device h p m = (Inl e, p') \<Longrightarrow> part_reach pool own g p' d"
| reserves: "part_reach pool own g p d \<Longrightarrow> reserve_device h p m = (Inr b, p') \<Longrightarrow> align_grain m = Some n \<Longrightarrow>
    part_reach pool own g p' (d(b \<mapsto> n))"
| adopt_dev_fails: "part_reach pool own g p d \<Longrightarrow> adopt_device h p b n = (Inl e, p') \<Longrightarrow> part_reach pool own g p' d"
| adopts_dev: "part_reach pool own g p d \<Longrightarrow> adopt_device h p b n = (Inr x, p') \<Longrightarrow>
    part_reach pool own g p' (d(b \<mapsto> n))"
| release_dev: "part_reach pool own g p d \<Longrightarrow> d b = Some n \<Longrightarrow> align_grain m = Some n \<Longrightarrow>
    release_device h p b m = (r, p') \<Longrightarrow> part_reach pool own g p' (if r = Inr () then d(b := None) else d)"

text \<open>The bytes of all devices, and what the reported capacity has to do with them.\<close>

definition device_bytes :: "(u64 \<rightharpoonup> u64) \<Rightarrow> nat set" where
  "device_bytes d = {x. \<exists>b n. d b = Some n \<and> x \<in> region_bytes (Region_new b n)}"

lemma device_bytes_upd:
  assumes "d b = None"
  shows "device_bytes (d(b \<mapsto> n)) = region_bytes (Region_new b n) \<union> device_bytes d"
proof (intro set_eqI iffI)
  fix x assume "x \<in> device_bytes (d(b \<mapsto> n))"
  then show "x \<in> region_bytes (Region_new b n) \<union> device_bytes d" by (auto simp: device_bytes_def split: if_splits)
next
  fix x assume "x \<in> region_bytes (Region_new b n) \<union> device_bytes d"
  then show "x \<in> device_bytes (d(b \<mapsto> n))"
  proof
    assume "x \<in> device_bytes d"
    then obtain c k where c: "d c = Some k" "x \<in> region_bytes (Region_new c k)" by (auto simp: device_bytes_def)
    then have "(d(b \<mapsto> n)) c = Some k" using assms by auto
    then show ?thesis using c(2) unfolding device_bytes_def by blast
  qed (auto simp: device_bytes_def)
qed

lemma device_bytes_del:
  assumes "d b = Some n"
  shows "device_bytes d = region_bytes (Region_new b n) \<union> device_bytes (d(b := None))"
proof -
  have "d = (d(b := None))(b \<mapsto> n)" using assms by (auto simp: fun_upd_idem)
  then show ?thesis using device_bytes_upd [of "d(b := None)" b n] by simp
qed

lemma device_bytes_holds: "x \<in> device_bytes d \<longleftrightarrow> (\<exists>b. x \<in> holds p d (HDevice b))"
  unfolding device_bytes_def holds.simps by (auto split: option.splits)

definition part_inv :: "nat set \<Rightarrow> PartitionPool \<Rightarrow> (u64 \<rightharpoonup> u64) \<Rightarrow> bool" where
  "part_inv M p d \<longleftrightarrow> part_ok M p d \<and> finite M \<and> card M < 2 ^ 64 \<and>
     unat (capacity p) + card (device_bytes d) = card M"

lemma part_inv_add:
  assumes "part_inv M p d" "part_ok M p' (d(b \<mapsto> n))" "d b = None" "capacity p' = sat_sub (capacity p) n"
  shows "part_inv M p' (d(b \<mapsto> n))"
proof -
  let ?X = "region_bytes (Region_new b n)"
  have fin: "finite M" and cap: "unat (capacity p) + card (device_bytes d) = card M" "card M < 2 ^ 64"
    using assms(1) by (simp_all add: part_inv_def)
  have dev: "device_bytes (d(b \<mapsto> n)) = ?X \<union> device_bytes d" by (rule device_bytes_upd [of d b n, OF assms(3)])
  have sub: "device_bytes (d(b \<mapsto> n)) \<subseteq> M"
    using part_okD(3) [OF assms(2)] device_bytes_holds [of _ "d(b \<mapsto> n)" p'] by blast
  have "x \<notin> device_bytes d" if x: "x \<in> ?X" for x
  proof
    assume "x \<in> device_bytes d"
    then obtain c where c: "x \<in> holds p' d (HDevice c)" using device_bytes_holds [of x d p'] by blast
    then have "c \<noteq> b" using assms(3) by auto
    then have "x \<in> holds p' (d(b \<mapsto> n)) (HDevice c)" using c by simp
    moreover have "x \<in> holds p' (d(b \<mapsto> n)) (HDevice b)" using x by simp
    ultimately show False using holds_apart [OF assms(2), of "HDevice c" "HDevice b"] \<open>c \<noteq> b\<close> by auto
  qed
  then have "card (device_bytes (d(b \<mapsto> n))) = unat n + card (device_bytes d)"
    unfolding dev using fin sub dev
    by (subst card_Un_disjoint) (auto simp: region_bytes_new intro: finite_subset)
  moreover have "card (device_bytes (d(b \<mapsto> n))) \<le> card M" by (rule card_mono [OF fin sub])
  ultimately have le: "unat n \<le> unat (capacity p)" and e: "card (device_bytes (d(b \<mapsto> n))) = unat n + card (device_bytes d)"
    using cap by linarith+
  have "unat (capacity p') = unat (capacity p) - unat n"
    using le assms(4) by (simp add: sat_sub_def word_le_nat_alt unat_sub)
  then show ?thesis using assms(2) fin cap e le by (simp add: part_inv_def)
qed

lemma part_inv_del:
  assumes "part_inv M p d" "d b = Some n" "part_ok M p' (d(b := None))" "capacity p' = capacity p + n"
  shows "part_inv M p' (d(b := None))" "unat (capacity p) + unat n < 2 ^ 64"
proof -
  let ?X = "region_bytes (Region_new b n)" and ?d = "d(b := None)"
  have ok: "part_ok M p d" and fin: "finite M" and cap: "unat (capacity p) + card (device_bytes d) = card M" "card M < 2 ^ 64"
    using assms(1) by (simp_all add: part_inv_def)
  have dev: "device_bytes d = ?X \<union> device_bytes ?d" using assms(2) by (rule device_bytes_del)
  have sub: "device_bytes d \<subseteq> M" using part_okD(3) [OF ok] device_bytes_holds [of _ d p] by blast
  have "x \<notin> device_bytes ?d" if x: "x \<in> ?X" for x
  proof
    assume "x \<in> device_bytes ?d"
    then obtain c where c: "x \<in> holds p ?d (HDevice c)" using device_bytes_holds [of x ?d p] by blast
    then have "c \<noteq> b" "x \<in> holds p d (HDevice c)" by (auto split: if_splits)
    moreover have "x \<in> holds p d (HDevice b)" using x assms(2) by simp
    ultimately show False using holds_apart [OF ok, of "HDevice c" "HDevice b"] by auto
  qed
  then have e: "card (device_bytes d) = unat n + card (device_bytes ?d)"
    using fin sub unfolding dev by (subst card_Un_disjoint) (auto simp: region_bytes_new intro: finite_subset)
  then show lt: "unat (capacity p) + unat n < 2 ^ 64" using cap by linarith
  then have "unat (capacity p') = unat (capacity p) + unat n" using assms(4) by (simp add: unat_word_ariths)
  then show "part_inv M p' ?d" using assms(3) fin cap e by (simp add: part_inv_def)
qed

lemma part_inv_same: "part_inv M p d \<Longrightarrow> part_ok M p' d \<Longrightarrow> capacity p' = capacity p \<Longrightarrow> part_inv M p' d"
  by (simp add: part_inv_def)

lemma part_inv_cap: "part_inv M p d \<Longrightarrow> d b = Some n \<Longrightarrow> unat (capacity p) + unat n < 2 ^ 64"
proof -
  assume a: "part_inv M p d" "d b = Some n"
  have ok: "part_ok M p d" and fin: "finite M" and cap: "unat (capacity p) + card (device_bytes d) = card M" "card M < 2 ^ 64"
    using a(1) by (simp_all add: part_inv_def)
  have sub: "device_bytes d \<subseteq> M" using part_okD(3) [OF ok] device_bytes_holds [of _ d p] by blast
  have "region_bytes (Region_new b n) \<subseteq> device_bytes d" using a(2) unfolding device_bytes_def by blast
  note sub = sub this
  have "card (region_bytes (Region_new b n)) \<le> card (device_bytes d)"
    by (rule card_mono [OF finite_subset [OF sub(1) fin] sub(2)])
  then show ?thesis using cap by (simp add: region_bytes_new)
qed

lemma part_inv_release:
  assumes inv: "part_inv M p d" and b: "d b = Some n" and m: "align_grain m = Some n"
    and rel: "release_device h p b m = (r, p')"
  shows "part_inv M p' (if r = Inr () then d(b := None) else d)"
proof -
  have ok: "part_ok M p d" using inv unfolding part_inv_def by blast
  have cap: "unat (capacity p) + unat n < 2 ^ 64" using inv b by (rule part_inv_cap)
  note rd = release_device_ok [where M = M and p = p and d = d and b = b and n = n, OF ok b m rel cap]
  show ?thesis
  proof (cases r)
    case (Inl e)
    then show ?thesis using rd(3) [OF Inl] inv by simp
  next
    case (Inr u)
    have "part_inv M p' (d(b := None))"
      using part_inv_del(1) [where M = M and p = p and d = d and b = b and n = n, OF inv b] rd(4) [OF Inr] by blast
    then show ?thesis using Inr by simp
  qed
qed

text \<open>The boot hypotheses: the board's ranges do not overlap, and the kernel's own region does not wrap.\<close>

definition boot_ok :: "Region list \<Rightarrow> Region \<Rightarrow> bool" where
  "boot_ok pool own \<longleftrightarrow> apart pool \<and> (rsize own = 0 \<or> Region_end own \<noteq> None)"

lemma part_reach_inv:
  assumes "part_reach pool own g p d" "boot_ok pool own"
  shows "\<exists>M \<subseteq> pool_memory pool own. part_inv M p d"
  using assms(1)
proof induction
  case (boot h p)
  have b: "apart pool" "rsize own = 0 \<or> Region_end own \<noteq> None" using assms(2) unfolding boot_ok_def by blast+
  note n = new_ok(2) [OF b boot]
  have ok: "part_ok (pool_memory pool own) p Map.empty" and cap: "unat (capacity p) = card (bytes (pfree p))"
    and own: "owners p = SlotVec_new" using n by blast+
  let ?M = "bytes (pfree p)"
  have none: "SlotVec_get (owners p) s = None" for s
    unfolding own by (simp add: SlotVec_new_def SlotVec_get_def list_get_def)
  have "holds p Map.empty k \<subseteq> ?M" for k by (cases k) (simp_all add: none)
  then have M: "part_ok ?M p Map.empty" using ok unfolding part_ok_def by blast
  have sub: "?M \<subseteq> pool_memory pool own" using part_okD(3) [OF ok, of HFree] by simp
  have "card ?M < 2 ^ 64" unfolding cap [symmetric] by (rule unat64_less)
  moreover have "device_bytes Map.empty = {}" by (simp add: device_bytes_def)
  ultimately have "part_inv ?M p Map.empty" using M cap unfolding part_inv_def by simp
  then show ?case using sub by blast
next
  case (alloc p d h s m r p')
  obtain M where M: "M \<subseteq> pool_memory pool own" "part_inv M p d" using alloc.IH by blast
  have ok: "part_ok M p d" using M(2) unfolding part_inv_def by blast
  have "part_inv M p' d"
    using ok alloc.hyps(2)
  proof (cases rule: alloc_cases)
    case (failed e)
    show ?thesis by (rule part_inv_same [OF M(2) failed(2,5)])
  next
    case (given b n c p2 i)
    show ?thesis by (rule part_inv_same [OF M(2) given(6,8)])
  qed
  then show ?case using M(1) by blast
next
  case (abandon p d h t r p')
  obtain M where M: "M \<subseteq> pool_memory pool own" "part_inv M p d" using abandon.IH by blast
  have ok: "part_ok M p d" using M(2) unfolding part_inv_def by blast
  note r = release_ledger_ok [OF ok abandon.hyps(2) [unfolded Partition_abandon_def]]
  show ?case using part_inv_same [OF M(2) r(2,4)] M(1) by blast
next
  case (release p d h u pr r p')
  obtain M where M: "M \<subseteq> pool_memory pool own" "part_inv M p d" using release.IH by blast
  have ok: "part_ok M p d" using M(2) unfolding part_inv_def by blast
  show ?case
  proof (cases "stopped_slot pr = part_slot u")
    case True
    then have "release_ledger h p (part_slot u) = (r, p')" using release.hyps(2) by (simp add: Partition_release_def)
    note r = release_ledger_ok [OF ok this]
    show ?thesis using part_inv_same [OF M(2) r(2,4)] M(1) by blast
  next
    case False
    then have "p' = p" using release.hyps(2) by (simp add: Partition_release_def)
    then show ?thesis using M by blast
  qed
next
  case (adopt p d h s b n r p')
  obtain M where M: "M \<subseteq> pool_memory pool own" "part_inv M p d" using adopt.IH by blast
  have ok: "part_ok M p d" using M(2) unfolding part_inv_def by blast
  show ?case using part_inv_same [OF M(2) adopt_ok(2,4) [OF ok adopt.hyps(2)]] M(1) by blast
next
  case (reserve_fails p d h m e p')
  obtain M where M: "M \<subseteq> pool_memory pool own" "part_inv M p d" using reserve_fails.IH by blast
  have ok: "part_ok M p d" using M(2) unfolding part_inv_def by blast
  have "part_inv M p' d"
    using part_inv_same [OF M(2), of p'] reserve_device_ok(3) [OF ok reserve_fails.hyps(2) refl] by blast
  then show ?case using M(1) by blast
next
  case (reserves p d h m b p' n)
  obtain M where M: "M \<subseteq> pool_memory pool own" "part_inv M p d" using reserves.IH by blast
  have ok: "part_ok M p d" using M(2) unfolding part_inv_def by blast
  have r: "part_ok M p' (d(b \<mapsto> n))" "d b = None" "capacity p' = sat_sub (capacity p) n"
    using reserve_device_ok(4) [OF ok reserves.hyps(2) refl] reserves.hyps(3) by auto
  show ?case using part_inv_add [OF M(2) r] M(1) by blast
next
  case (adopt_dev_fails p d h b n e p')
  obtain M where M: "M \<subseteq> pool_memory pool own" "part_inv M p d" using adopt_dev_fails.IH by blast
  have ok: "part_ok M p d" using M(2) unfolding part_inv_def by blast
  have "part_inv M p' d"
    using part_inv_same [OF M(2), of p'] adopt_device_ok(3) [OF ok adopt_dev_fails.hyps(2) refl] by blast
  then show ?case using M(1) by blast
next
  case (adopts_dev p d h b n x p')
  obtain M where M: "M \<subseteq> pool_memory pool own" "part_inv M p d" using adopts_dev.IH by blast
  have ok: "part_ok M p d" using M(2) unfolding part_inv_def by blast
  have r: "part_ok M p' (d(b \<mapsto> n))" "d b = None" "capacity p' = sat_sub (capacity p) n"
    using adopt_device_ok(4) [OF ok adopts_dev.hyps(2) refl] by blast+
  show ?case using part_inv_add [OF M(2) r] M(1) by blast
next
  case (release_dev p d b n m h r p')
  obtain M where M: "M \<subseteq> pool_memory pool own" "part_inv M p d" using release_dev.IH by blast
  show ?case using part_inv_release [OF M(2) release_dev.hyps(2-4)] M(1) by blast
qed

lemma part_reach_ok:
  assumes "part_reach pool own g p d" "boot_ok pool own"
  obtains M where "M \<subseteq> pool_memory pool own" "part_inv M p d" "part_ok M p d"
proof -
  obtain M where M: "M \<subseteq> pool_memory pool own" "part_inv M p d" using part_reach_inv [OF assms] by blast
  moreover have "part_ok M p d" using M(2) unfolding part_inv_def by blast
  ultimately show thesis by (rule that)
qed

section \<open>Room for the return\<close>

lemma take_pieces_beyond:
  "\<forall>x \<in> set fs. unat e \<le> rlo x \<Longrightarrow> take_pieces b e fs took = Inr (nxt, t) \<Longrightarrow> nxt = fs"
proof (induction fs arbitrary: took nxt t)
  case (Cons r fs)
  then have "e \<le> base r" by (simp add: word_le_nat_alt)
  with Cons.prems(2) obtain u k where "take_pieces b e fs took = Inr (u, k)" "nxt = r # u"
    by (auto simp: res_simps)
  then show ?case using Cons.IH [of took u k] Cons.prems(1) by simp
qed simp

lemma take_pieces_length:
  "pieces fs \<Longrightarrow> take_pieces b e fs took = Inr (nxt, t) \<Longrightarrow> length nxt \<le> length fs + 1"
proof (induction fs arbitrary: took nxt t)
  case (Cons r fs)
  have r: "piece r" "\<forall>x \<in> set fs. rhi r \<le> rlo x" "pieces fs" using Cons.prems(1) by auto
  obtain top where top: "region_top r = Inr top" "unat top = rhi r" using piece_top [OF r(1)] by blast
  show ?case
  proof (cases "e \<le> base r \<or> top \<le> b")
    case True
    then obtain u k where "take_pieces b e fs took = Inr (u, k)" "nxt = r # u"
      using Cons.prems(2) top(1) by (auto simp: res_simps)
    then show ?thesis using Cons.IH [OF r(3), of took u k] by simp
  next
    case False
    then obtain took' u k where u: "take_pieces b e fs took' = Inr (u, k)"
      "nxt = (if b > base r then [Region_new (base r) (b - base r)] else []) @
             (if e < top then [Region_new e (top - e)] else []) @ u"
      using Cons.prems(2) top(1) by (auto simp: res_simps)
    show ?thesis
    proof (cases "e < top")
      case True
      then have "\<forall>x \<in> set fs. unat e \<le> rlo x" using r(2) top(2) by (auto simp: word_less_nat_alt)
      then have "u = fs" using take_pieces_beyond u(1) by blast
      then show ?thesis using u(2) by simp
    next
      case False
      then show ?thesis using u(2) Cons.IH [OF r(3) u(1)] by simp
    qed
  qed
qed simp

lemma alloc_reserves_room:
  assumes "pieces (pfree p)" "PartitionPool_alloc h p s m = (Inr tok, p')"
  shows "length (pfree p') + 1 \<le> pfree_cap p'"
proof -
  obtain n c where nc: "rbind (grain_size m) (\<lambda>n. rbind (claim_size p n) (\<lambda>c. Inr (n, c))) = Inr (n, c)"
    using assms(2) by (auto simp: PartitionPool_alloc_def split: sum.splits)
  obtain cap where cap: "room_for_claim h p = (Inr (), p\<lparr>pfree_cap := cap\<rparr>)" "length (pfree p) + 2 \<le> cap"
    using assms(2) nc by (auto simp: PartitionPool_alloc_def room_for_claim_def vec_try_reserve_def Let_def
        split: sum.splits option.splits if_splits)
  let ?p = "p\<lparr>pfree_cap := cap\<rparr>"
  obtain b p2 where b: "carve h ?p c = (Inr (Some b), p2)" "enter_ledger h p2 s b n c = (Inr tok, p')"
    using assms(2) nc cap(1) by (auto simp: PartitionPool_alloc_def split: prod.splits sum.splits option.splits if_splits)
  obtain e took where "take_range h ?p b e = (Inr took, p2)"
    using b(1) by (auto simp: carve_def split: prod.splits sum.splits option.splits fail.splits)
  then have "pfree_cap p2 \<ge> cap \<and> length (pfree p2) \<le> length (pfree p) + 1"
    using take_pieces_length [OF assms(1)]
    by (auto simp: take_range_def Let_def split: if_splits sum.splits)
  moreover have "pfree p' = pfree p2 \<and> pfree_cap p' = pfree_cap p2"
    using b(2) by (auto simp: enter_ledger_def put_back_def split: sum.splits prod.splits fail.splits)
  ultimately show ?thesis using cap(2) by simp
qed

section \<open>A granting heap\<close>

definition granting :: "PHeap \<Rightarrow> bool" where
  "granting h \<longleftrightarrow> (\<forall>n. grants_free h n \<and> grants_fresh h n \<and> grants_owner h n)"

lemma granting_simps:
  assumes "granting h"
  shows "vec_try_reserve (grants_free h) cap n k \<noteq> None" "grants_fresh h n"
    "\<exists>own. SlotVec_insert (grants_owner h) eb v s x = Inr (SlotVec_get v s, own)"
  using assms
  by (auto simp: granting_def vec_try_reserve_def Let_def SlotVec_insert_def SlotVec_get_entry slot_entry_def nth_append)

lemma alloc_granted:
  assumes "part_ok M p d" "granting h" "align_grain m = Some n" "n \<noteq> 0" "claim_size p n = Inr c" "SlotVec_get (owners p) s = None"
  shows "(\<exists>r \<in> set (pfree p). c \<le> rsize r) \<Longrightarrow> \<exists>tok. fst (PartitionPool_alloc h p s m) = Inr tok"
    "\<not> (\<exists>r \<in> set (pfree p). c \<le> rsize r) \<Longrightarrow> fst (PartitionPool_alloc h p s m) = Inl (Err (NoPartition n))"
proof -
  have gs: "grain_size m = Inr n" using assms(3,4) by (simp add: grain_size_def)
  have cl: "claimable c" using claim_size_ok(4) [OF assms(5)] align_grain_Some(1) [OF assms(3)] by simp
  have rb: "rbind (grain_size m) (\<lambda>n. rbind (claim_size p n) (\<lambda>c. Inr (n, c))) = Inr (n, c)" using gs assms(5) by simp
  obtain cap where cap: "vec_try_reserve (grants_free h) (pfree_cap p) (length (pfree p)) 2 = Some cap"
    using granting_simps(1) [OF assms(2)] by blast
  let ?p = "p\<lparr>pfree_cap := cap\<rparr>"
  have ok: "part_ok M ?p d" using assms(1) by simp
  obtain r2 p2 where r2: "carve h ?p c = (r2, p2)" by fastforce
  have al: "PartitionPool_alloc h p s m = (case r2 of Inl e \<Rightarrow> (Inl e, p2)
       | Inr None \<Rightarrow> (Inl (Err (NoPartition n)), p2) | Inr (Some b) \<Rightarrow> enter_ledger h p2 s b n c)"
    unfolding PartitionPool_alloc_def rb using assms(6) cap r2
    by (simp add: room_for_claim_def split: sum.splits option.splits)
  note ct = carve_taken [OF ok cl r2]
  {
    assume "\<exists>r \<in> set (pfree p). c \<le> rsize r"
    then obtain b where "r2 = Inr (Some b)" using ct granting_simps(2) [OF assms(2)] by auto
    moreover obtain own where "SlotVec_insert (grants_owner h) (owner_bytes h) (owners p2) s (Region_new b n) = Inr (SlotVec_get (owners p2) s, own)"
      using granting_simps(3) [OF assms(2), where v = "owners p2"] by blast
    ultimately show "\<exists>tok. fst (PartitionPool_alloc h p s m) = Inr tok" using al by (simp add: enter_ledger_def)
  next
    assume no: "\<not> (\<exists>r \<in> set (pfree p). c \<le> rsize r)"
    have "\<not> is_best (pfree p) c 0 (Some i)" for i
      using no nth_mem [of i "pfree p"] unfolding is_best_def option.case by blast
    then have "r2 = Inr None" using ct by auto
    then show "fst (PartitionPool_alloc h p s m) = Inl (Err (NoPartition n))" using al by simp
  }
qed

section \<open>The largest partition\<close>

text \<open>The rules of an architecture that keeps no tables behind a partition and bounds the window.\<close>

definition windowed :: "u64 \<Rightarrow> Geometry" where
  "windowed w = \<lparr>link_window = (\<lambda>n. min n w), reserve = (\<lambda>_. 0)\<rparr>"

lemma shrink_piece: "piece r \<Longrightarrow> shrink_to_fit r (rsize r) = Inr (rsize r)"
proof -
  assume r: "piece r"
  then have c: "claimable (rsize r)" by (simp add: piece_def claimable_def)
  obtain b where b: "piece_base r (rsize r) = Inr b" "base r \<le> b"
    using piece_base_spec [OF r c order_refl] by blast
  then show ?thesis unfolding shrink_to_fit.simps [of r "rsize r"] b(1) using b(2) by (simp add: not_less [symmetric])
qed

lemma largest_loop_windowed:
  "list_all piece fs \<Longrightarrow> \<exists>v. largest_loop (windowed w) fs best = Inr v \<and>
     (\<forall>n. n \<le> v \<longleftrightarrow> n \<le> best \<or> (\<exists>r \<in> set fs. n \<le> rsize r \<and> n \<le> w))"
proof (induction fs arbitrary: best)
  case Nil
  then show ?case by simp
next
  case (Cons r fs)
  then have r: "piece r" by simp
  have g: "grain_down (rsize r) = rsize r" using r by (intro grain_down_aligned) (simp add: piece_def)
  obtain v where v: "largest_loop (windowed w) fs (max best (min (rsize r) w)) = Inr v"
    "\<And>n. n \<le> v \<longleftrightarrow> n \<le> max best (min (rsize r) w) \<or> (\<exists>r \<in> set fs. n \<le> rsize r \<and> n \<le> w)"
    using Cons.IH [of "max best (min (rsize r) w)"] Cons.prems by auto
  have "largest_loop (windowed w) (r # fs) best = Inr v"
    using v(1) shrink_piece [OF r] by (simp add: g windowed_def Let_def)
  moreover have "n \<le> v \<longleftrightarrow> n \<le> best \<or> (\<exists>q \<in> set (r # fs). n \<le> rsize q \<and> n \<le> w)" for n
    unfolding v(2) by (auto simp: le_max_iff_disj)
  ultimately show ?case by blast
qed

lemma claim_windowed: "geo p = windowed w \<Longrightarrow> claim_size p n = (if n = 0 \<or> \<not> n \<le> w then Inl (PartitionSize n) else Inr n)"
proof -
  assume g: "geo p = windowed w"
  have "checked_add n 0 = Some n" by (simp add: chk_simps)
  then show ?thesis by (auto simp: claim_size_def g windowed_def min_def)
qed




section \<open>A small board\<close>

text \<open>Four granules of memory, the lowest of them the kernel's: the concrete state of the examples below.\<close>

definition demo_heap :: PHeap where
  "demo_heap = \<lparr>grants_free = (\<lambda>_. True), grants_fresh = (\<lambda>_. True), grants_owner = (\<lambda>_. True), owner_bytes = 24\<rparr>"

abbreviation demo_board :: "Region list" where "demo_board \<equiv> [Region_new 0x40000000 0x800000]"
abbreviation demo_own :: Region where "demo_own \<equiv> Region_new 0x40000000 0x200000"
abbreviation demo_geo :: Geometry where "demo_geo \<equiv> windowed 0x30000000"
definition demo_pool :: PartitionPool where
  "demo_pool = \<lparr>pfree = [Region_new 0x40200000 0x600000], pfree_cap = 4, capacity = 0x600000, owners = [], geo = demo_geo\<rparr>"

lemmas demo_eval = checked_add_def Region_end_def Region_overlaps_def vec_try_reserve_def add64_def sub64_def
  grain_down_def GRAIN_2M_def region_top_def list_get_def Let_def

lemma demo_boot: "PartitionPool_new demo_heap demo_board demo_own demo_geo = Inr demo_pool"
  by (simp add: PartitionPool_new_def demo_eval PartitionPool_carve_source_def source_pieces_def carve_piece_def try_push_def
   demo_heap_def demo_pool_def SlotVec_new_def)

lemma demo_reach: "part_reach demo_board demo_own demo_geo demo_pool Map.empty"
  by (rule part_reach.boot [OF demo_boot])

lemma demo_boot_ok: "boot_ok demo_board demo_own"
  by (simp add: boot_ok_def apart_def Region_end_def checked_add_def)

lemma demo_align: "align_grain 0x300000 = Some 0x400000"
  by (simp add: align_grain_def demo_eval)
lemma demo_granting: "granting demo_heap" by (simp add: granting_def demo_heap_def)

definition demo_after :: PartitionPool where
  "demo_after = \<lparr>pfree = [Region_new 0x40200000 0x200000], pfree_cap = 4, capacity = 0x600000,
     owners = [None, Some (Region_new 0x40400000 0x400000)], geo = demo_geo\<rparr>"

lemma demo_first: "Slot_get Slot_FIRST = 1" by (rule Slot_FIRST.rep_eq)

lemma demo_alloc: "PartitionPool_alloc demo_heap demo_pool Slot_FIRST 0x300000 =
    (Inr (Partition Slot_FIRST (Region_new 0x40400000 0x400000)), demo_after)"
  by (simp add: PartitionPool_alloc_def grain_size_def demo_align claim_size_def demo_pool_def windowed_def demo_eval SlotVec_get_def
   demo_first room_for_claim_def demo_heap_def carve_def best_fit_def piece_fits_def piece_base_def take_range_def enter_ledger_def SlotVec_insert_def demo_after_def)

lemma demo_reach_after: "part_reach demo_board demo_own demo_geo demo_after Map.empty"
  by (rule part_reach.alloc [OF demo_reach demo_alloc])

lemma demo_geo_pool: "geo demo_pool = demo_geo" "partition_of demo_pool Slot_FIRST = None"
  by (simp_all add: demo_pool_def partition_of_def SlotVec_get_def list_get_def demo_first)

section \<open>Properties\<close>

text \<open>
  C2. In every reachable state the free list, the slots and the devices hold pairwise disjoint sets of
  bytes; all of it lies in the memory the board offered, outside the kernel's own region; and what a
  slot sees of its partition is inside what it holds.
\<close>

theorem part_isolation:
  assumes "part_reach pool own g p d" "boot_ok pool own"
  shows "(h \<noteq> k \<longrightarrow> holds p d h \<inter> holds p d k = {}) \<and> holds p d h \<subseteq> pool_memory pool own \<and>
    (partition_of p s = Some l \<longrightarrow> region_bytes l \<subseteq> holds p d (HSlot s) \<and> region_bytes l \<noteq> {})"
proof -
  obtain M where M: "M \<subseteq> pool_memory pool own" "part_inv M p d" "part_ok M p d"
    using part_reach_ok [OF assms] by blast
  have "region_bytes l \<subseteq> holds p d (HSlot s) \<and> region_bytes l \<noteq> {}" if l: "partition_of p s = Some l"
  proof -
    have g: "SlotVec_get (owners p) s = Some l" using l by (simp add: partition_of_def)
    show ?thesis using part_okD(4) [OF M(3) g] g
      by (auto simp: owner_ok_def claim_region_def region_bytes_def)
  qed
  then show ?thesis using holds_apart [OF M(3)] part_okD(3) [OF M(3), of h] M(1) by blast
qed

theorem part_isolation_witness:
  "holds demo_after Map.empty HFree \<inter> holds demo_after Map.empty (HSlot Slot_FIRST) = {} \<and>
   region_bytes (Region_new 0x40400000 0x400000) \<subseteq> holds demo_after Map.empty (HSlot Slot_FIRST)"
  using part_isolation [OF demo_reach_after demo_boot_ok, of HFree "HSlot Slot_FIRST" Slot_FIRST "Region_new 0x40400000 0x400000"]
  by (simp add: demo_after_def partition_of_def SlotVec_get_def list_get_def demo_first)



text \<open>
  C21. A granted partition has the size asked for rounded up to the granule, and its claim is the top of
  a free piece that is big enough and not bigger than any other piece that is.
\<close>

theorem alloc_best_fit:
  assumes "part_reach pool own g p d" "boot_ok pool own" "PartitionPool_alloc h p s m = (Inr tok, p')"
  shows "\<exists>b n c i. tok = Partition s (Region_new b n) \<and> align_grain m = Some n \<and> claim_size p n = Inr c \<and>
    i < length (pfree p) \<and> c \<le> rsize (pfree p ! i) \<and> unat b + unat c = rhi (pfree p ! i) \<and>
    list_all (\<lambda>r. c \<le> rsize r \<longrightarrow> rsize (pfree p ! i) \<le> rsize r) (pfree p) \<and>
    partition_of p' s = Some (Region_new b n) \<and>
    bytes (pfree p') = bytes (pfree p) - {unat b ..< unat b + unat c}"
proof -
  obtain M where "part_ok M p d" using part_reach_ok [OF assms(1,2)] by blast
  then show ?thesis
    using assms(3)
  proof (cases rule: alloc_cases)
    case (failed e)
    then show ?thesis by simp
  next
    case (given b n c p2 i)
    have "bytes (pfree p') = bytes (pfree p) - {unat b ..< unat b + unat c}"
      using given(4,5) by (auto simp: taken_from_def region_bytes_new)
    moreover have "i < length (pfree p)" "c \<le> rsize (pfree p ! i)"
      "list_all (\<lambda>r. c \<le> rsize r \<longrightarrow> rsize (pfree p ! i) \<le> rsize r) (pfree p)"
      using given(11) unfolding is_best_def option.case list_all_length by (auto simp: order_le_less)
    moreover have "tok = Partition s (Region_new b n)" using given(1) by simp
    moreover have "partition_of p' s = Some (Region_new b n)" using given(9) [of s] by (simp add: partition_of_def)
    ultimately show ?thesis using given(2,3,12) by blast
  qed
qed

theorem alloc_best_fit_witness:
  "\<exists>b n c i. Partition Slot_FIRST (Region_new 0x40400000 0x400000) = (Partition Slot_FIRST (Region_new b n) :: Free Partition) \<and>
     claim_size demo_pool n = Inr c \<and> unat b + unat c = rhi (pfree demo_pool ! i)"
  using alloc_best_fit [OF demo_reach demo_boot_ok demo_alloc] by blast

text \<open>
  With a heap that grants, a slot without a partition is refused exactly when no free piece can carry
  its claim, and then with the capacity error that names the rounded size.
\<close>

theorem alloc_refused_iff:
  assumes "part_reach pool own g p d" "boot_ok pool own" "granting h"
    and "align_grain m = Some n" "claim_size p n = Inr c" "partition_of p s = None"
  shows "if list_all (\<lambda>r. rsize r < c) (pfree p)
     then fst (PartitionPool_alloc h p s m) = Inl (Err (NoPartition n))
     else \<exists>b. fst (PartitionPool_alloc h p s m) = Inr (Partition s (Region_new b n))"
proof -
  obtain M where ok: "part_ok M p d" using part_reach_ok [OF assms(1,2)] by blast
  have n0: "n \<noteq> 0" using claim_size_ok(3) [OF assms(5)] by auto
  have none: "SlotVec_get (owners p) s = None" using assms(6) by (simp add: partition_of_def)
  note gr = alloc_granted [OF ok assms(3,4) n0 assms(5) none]
  have e: "list_all (\<lambda>r. rsize r < c) (pfree p) \<longleftrightarrow> \<not> (\<exists>r \<in> set (pfree p). c \<le> rsize r)"
    by (auto simp: list_all_iff not_le)
  show ?thesis
  proof (cases "\<exists>r \<in> set (pfree p). c \<le> rsize r")
    case False
    then show ?thesis using gr(2) e by simp
  next
    case True
    then obtain tok p' where t: "PartitionPool_alloc h p s m = (Inr tok, p')"
      using gr(1) by (metis prod.collapse)
    from ok t have "\<exists>b. tok = Partition s (Region_new b n)"
      by (cases rule: alloc_cases) (use assms(4) in auto)
    then show ?thesis using t e True by auto
  qed
qed

theorem alloc_refused_iff_witness:
  "fst (PartitionPool_alloc demo_heap demo_pool Slot_FIRST 0x700000) = Inl (Err (NoPartition 0x800000))"
proof -
  have "align_grain 0x700000 = Some 0x800000" by (simp add: align_grain_def demo_eval)
  moreover have "claim_size demo_pool 0x800000 = Inr 0x800000" by (simp add: claim_windowed [OF demo_geo_pool(1)])
  ultimately show ?thesis
    using alloc_refused_iff [OF demo_reach demo_boot_ok demo_granting _ _ demo_geo_pool(2), of "0x700000" "0x800000" "0x800000"]
    by (simp add: demo_pool_def)
qed

text \<open>
  C22. A claim that never ran is given back whole, whatever the heap answers: the free bytes, the ledger
  and the capacity are as before the claim.
\<close>

theorem alloc_abandon_roundtrip:
  assumes "part_reach pool own g p d" "boot_ok pool own" "PartitionPool_alloc h p s m = (Inr tok, p')"
    and "Partition_abandon h' tok p' = (r, p'')"
  shows "r = Inr () \<and> bytes (pfree p'') = bytes (pfree p) \<and> partition_of p'' t = partition_of p t \<and>
    capacity p'' = capacity p"
proof -
  obtain M where ok: "part_ok M p d" using part_reach_ok [OF assms(1,2)] by blast
  show ?thesis
    using ok assms(3)
  proof (cases rule: alloc_cases)
    case (failed e)
    then show ?thesis by simp
  next
    case (given b n c p2 i)
    have tok: "part_slot tok = s" using given(1) by simp
    note rl = release_ledger_ok [OF given(6) assms(4) [unfolded Partition_abandon_def tok]]
    have room: "vec_try_reserve (grants_free h') (pfree_cap p') (length (pfree p')) 1 = Some (pfree_cap p')"
      unfolding vec_try_reserve_def by (rule if_P) (rule alloc_reserves_room [OF part_okD(1) [OF ok] assms(3)])
    have fb: "bytes (pfree p'') = bytes (pfree p') \<union> holds p' d (HSlot s)"
      using rl(6) unfolding room by (elim disjE conjE) (assumption, simp only: option.distinct)
    have "claim_region (geo p) (Region_new b n) = Region_new b c"
      using claim_size_ok(1) [OF given(3)] by (simp add: claim_region_def)
    then have hs: "holds p' d (HSlot s) = region_bytes (Region_new b c)" using given(7) given(9) [of s] by simp
    have "bytes (pfree p2) = bytes (pfree p) - region_bytes (Region_new b c)"
      "region_bytes (Region_new b c) \<subseteq> bytes (pfree p)" using given(4) by (auto simp: taken_from_def)
    then have "bytes (pfree p'') = bytes (pfree p)" unfolding fb hs given(5) by blast
    moreover have "partition_of p'' t = partition_of p t"
      using rl(5) [of t] given(9) [of t] given(10) by (simp add: partition_of_def)
    ultimately show ?thesis using rl(1,4) given(8) by simp
  qed
qed

theorem alloc_abandon_roundtrip_witness:
  "bytes (pfree (snd (Partition_abandon demo_heap (Partition Slot_FIRST (Region_new 0x40400000 0x400000)) demo_after))) =
   bytes (pfree demo_pool)"
  using alloc_abandon_roundtrip [OF demo_reach demo_boot_ok demo_alloc prod.collapse [symmetric]] by blast

text \<open>
  Where the architecture keeps no tables behind a partition, the number the pool reports as its
  largest partition is the admission answer: with a granting heap a slot without a partition gets a
  size exactly when its rounding does not exceed that number.
\<close>

theorem largest_admits:
  assumes "part_reach pool own g p d" "boot_ok pool own" "geo p = windowed w" "granting h"
    and "align_grain m = Some n" "n \<noteq> 0" "partition_of p s = None"
  shows "\<exists>v. largest p = Inr v \<and> (n \<le> v \<longleftrightarrow> (\<exists>tok. fst (PartitionPool_alloc h p s m) = Inr tok))"
proof -
  obtain M where ok: "part_ok M p d" using part_reach_ok [OF assms(1,2)] by blast
  have all: "list_all piece (pfree p)" using part_okD(1) [OF ok] by (simp add: pieces_def)
  have none: "SlotVec_get (owners p) s = None" using assms(7) by (simp add: partition_of_def)
  obtain v where v: "largest_loop (windowed w) (pfree p) 0 = Inr v"
    "\<And>n. n \<le> v \<longleftrightarrow> n \<le> 0 \<or> (\<exists>r \<in> set (pfree p). n \<le> rsize r \<and> n \<le> w)"
    using largest_loop_windowed [OF all, of w 0] by auto
  have l: "largest p = Inr (min v w)" using v(1) by (simp add: largest_def assms(3)) (simp add: windowed_def)
  have iff: "n \<le> min v w \<longleftrightarrow> (\<exists>r \<in> set (pfree p). n \<le> rsize r) \<and> n \<le> w"
    using v(2) [of n] assms(6) by auto
  have "(\<exists>tok. fst (PartitionPool_alloc h p s m) = Inr tok) \<longleftrightarrow> (\<exists>r \<in> set (pfree p). n \<le> rsize r) \<and> n \<le> w"
  proof (cases "n \<le> w")
    case True
    then have "claim_size p n = Inr n" using assms(6) by (simp add: claim_windowed [OF assms(3)])
    note gr = alloc_granted [OF ok assms(4,5,6) this none]
    show ?thesis
    proof (cases "\<exists>r \<in> set (pfree p). n \<le> rsize r")
      case c: True
      then show ?thesis using gr(1) True by blast
    next
      case c: False
      then show ?thesis using gr(2) [OF c] by simp
    qed
  next
    case False
    then have "claim_size p n = Inl (PartitionSize n)" by (simp add: claim_windowed [OF assms(3)])
    then have "fst (PartitionPool_alloc h p s m) = Inl (Err (PartitionSize n))"
      using assms(5,6) by (simp add: PartitionPool_alloc_def grain_size_def)
    then show ?thesis using False by simp
  qed
  then show ?thesis using l iff by blast
qed

theorem largest_admits_witness:
  "\<exists>v. largest demo_pool = Inr v \<and> (0x400000 \<le> v \<longleftrightarrow>
     (\<exists>tok. fst (PartitionPool_alloc demo_heap demo_pool Slot_FIRST 0x300000) = Inr tok))"
  using largest_admits [OF demo_reach demo_boot_ok demo_geo_pool(1) demo_granting demo_align _ demo_geo_pool(2)] by simp

end
