(* ===== verification/Grants.thy ===== *)
theory Grants
  imports Kern
begin

unbundle bit_operations_syntax

text \<open>
  The device grant (\<^verbatim>\<open>kern/src/grants.rs\<close>): one window of a device, held by at most one slot, and the
  environment lines that announce it.  The stage-2 tables behind \<^verbatim>\<open>WindowMap\<close> are a parameter: a state
  of type \<open>'m\<close>, an operation that maps and a question that only reads.
\<close>

section \<open>Windows\<close>

definition FB_IPA :: u64 where
  "FB_IPA = 0x20000000"

definition BLOCK :: u64 where
  "BLOCK = push_bit 20 2"

record GWindow =
  pa :: u64
  wsize :: u64

definition GWindow_ipa :: "GWindow \<Rightarrow> KernError fail + u64" where
  "GWindow_ipa w = add64 FB_IPA (pa w AND (BLOCK - 1))"

definition GWindow_is_valid :: "GWindow \<Rightarrow> bool" where
  "GWindow_is_valid w \<longleftrightarrow> pa w \<noteq> 0 \<and> wsize w \<noteq> 0 \<and> checked_add (pa w) (wsize w) \<noteq> None"

record 'm WindowMap =
  wm_map :: "'m \<Rightarrow> Slot \<Rightarrow> GWindow \<Rightarrow> (KernError + unit) \<times> 'm"
  wm_is_mapped :: "'m \<Rightarrow> Slot \<Rightarrow> GWindow \<Rightarrow> KernError + bool"

section \<open>The grant\<close>

record DeviceGrant =
  dg_name :: string
  dg_window :: "GWindow option"
  dg_holder :: "Slot option"

definition DeviceGrant_new :: "string \<Rightarrow> DeviceGrant" where
  "DeviceGrant_new n = \<lparr>dg_name = n, dg_window = None, dg_holder = None\<rparr>"

definition DeviceGrant_offer :: "DeviceGrant \<Rightarrow> GWindow \<Rightarrow> (KernError + unit) \<times> DeviceGrant" where
  "DeviceGrant_offer g w =
     (if \<not> GWindow_is_valid w then (Inl (BadRange (pa w) (wsize w)), g)
      else case dg_holder g of
        Some h \<Rightarrow> if dg_window g \<noteq> Some w then (Inl (StillOwned (Slot_get h)), g)
                  else (Inr (), g\<lparr>dg_window := Some w\<rparr>)
      | None \<Rightarrow> (Inr (), g\<lparr>dg_window := Some w\<rparr>))"

definition DeviceGrant_claim :: "DeviceGrant \<Rightarrow> Slot \<Rightarrow> (KernError + GWindow) \<times> DeviceGrant" where
  "DeviceGrant_claim g s =
     (case dg_window g of
        None \<Rightarrow> (Inl NoEnt, g)
      | Some w \<Rightarrow>
          (case dg_holder g of
             Some h \<Rightarrow> if h \<noteq> s then (Inl (StillOwned (Slot_get h)), g)
                       else (Inr w, g\<lparr>dg_holder := Some s\<rparr>)
           | None \<Rightarrow> (Inr w, g\<lparr>dg_holder := Some s\<rparr>)))"

definition DeviceGrant_arm :: "'m WindowMap \<Rightarrow> DeviceGrant \<Rightarrow> Slot \<Rightarrow> 'm \<Rightarrow> (KernError + bool) \<times> 'm" where
  "DeviceGrant_arm wm g s m =
     (case (dg_holder g, dg_window g) of
        (Some h, Some w) \<Rightarrow>
          (if h = s then
             (case wm_map wm m s w of
                (Inl e, m') \<Rightarrow> (Inl e, m')
              | (Inr _, m') \<Rightarrow> (Inr True, m'))
           else (Inr False, m))
      | _ \<Rightarrow> (Inr False, m))"

definition DeviceGrant_adopt :: "'m WindowMap \<Rightarrow> DeviceGrant \<Rightarrow> Slot \<Rightarrow> 'm \<Rightarrow> (KernError + bool) \<times> DeviceGrant" where
  "DeviceGrant_adopt wm g s m =
     (case dg_window g of
        None \<Rightarrow> (Inr False, g)
      | Some w \<Rightarrow>
          (case wm_is_mapped wm m s w of
             Inl e \<Rightarrow> (Inl e, g)
           | Inr False \<Rightarrow> (Inr False, g)
           | Inr True \<Rightarrow>
               (case dg_holder g of
                  Some h \<Rightarrow> if h \<noteq> s then (Inl (StillOwned (Slot_get h)), g)
                            else (Inr True, g\<lparr>dg_holder := Some s\<rparr>)
                | None \<Rightarrow> (Inr True, g\<lparr>dg_holder := Some s\<rparr>))))"

definition DeviceGrant_release :: "DeviceGrant \<Rightarrow> Slot \<Rightarrow> bool \<times> DeviceGrant" where
  "DeviceGrant_release g s =
     (if dg_holder g = Some s then (True, g\<lparr>dg_holder := None\<rparr>) else (False, g))"

section \<open>Environment lines\<close>

text \<open>\<^verbatim>\<open>slice.split(p)\<close>: always at least one part.\<close>

fun split_at :: "u8 \<Rightarrow> u8 list \<Rightarrow> u8 list list" where
  "split_at c [] = [[]]"
| "split_at c (b # bs) =
     (if b = c then [] # split_at c bs
      else case split_at c bs of
        [] \<Rightarrow> [[b]]
      | l # ls \<Rightarrow> (b # l) # ls)"

fun strip_prefix :: "u8 list \<Rightarrow> u8 list \<Rightarrow> u8 list option" where
  "strip_prefix [] bs = Some bs"
| "strip_prefix (p # ps) [] = None"
| "strip_prefix (p # ps) (b # bs) = (if p = b then strip_prefix ps bs else None)"

fun find_map :: "('a \<Rightarrow> 'b option) \<Rightarrow> 'a list \<Rightarrow> 'b option" where
  "find_map f [] = None"
| "find_map f (x # xs) = (case f x of Some y \<Rightarrow> Some y | None \<Rightarrow> find_map f xs)"

definition NL :: u8 where "NL = 0x0A"
definition EQS :: u8 where "EQS = 0x3D"

definition env_get :: "u8 list \<Rightarrow> u8 list \<Rightarrow> u8 list option" where
  "env_get env key =
     find_map (\<lambda>line. Option.bind (strip_prefix key line) (strip_prefix [EQS])) (split_at NL env)"

text \<open>The writes of \<^verbatim>\<open>Sink\<close>: \<open>grow n\<close> says whether the vector can hold \<open>n\<close> bytes.  A refused write stops.\<close>

fun sink_all :: "(nat \<Rightarrow> bool) \<Rightarrow> u8 list \<Rightarrow> u8 list list \<Rightarrow> bool \<times> u8 list" where
  "sink_all grow out [] = (True, out)"
| "sink_all grow out (s # ss) =
     (if grow (length out + length s) then sink_all grow (out @ s) ss else (False, out))"

text \<open>The formatted value is the list of strings its formatting writes.\<close>

definition env_put ::
  "(nat \<Rightarrow> bool) \<Rightarrow> u8 list \<Rightarrow> nat \<Rightarrow> nat \<Rightarrow> u8 list \<Rightarrow> u8 list list \<Rightarrow> (KernError + unit) \<times> u8 list" where
  "env_put grow out ebase mx key val =
     (case sink_all grow out ([key, [EQS]] @ val @ [[NL]]) of
        (False, out') \<Rightarrow> (Inl (OutOfMemory (length key)), out')
      | (True, out') \<Rightarrow>
          (let n = ebase + length out' in
           if n > mx then (Inl (TooLarge n mx), take (length out) out') else (Inr (), out')))"

section \<open>Properties\<close>

text \<open>
  What can happen to a grant: the offer of the board, the claim, the adoption and the release.  An
  adoption reads the tables once, so tables of any kind are a \<open>unit\<close>-stated map here.
\<close>

inductive grant_step :: "DeviceGrant \<Rightarrow> Slot option \<Rightarrow> DeviceGrant \<Rightarrow> bool" where
  offer: "DeviceGrant_offer g w = (r, g') \<Longrightarrow> grant_step g None g'"
| claim: "DeviceGrant_claim g s = (r1, g') \<Longrightarrow> grant_step g None g'"
| adopt: "DeviceGrant_adopt (wm :: unit WindowMap) g s m = (r2, g') \<Longrightarrow> grant_step g None g'"
| release: "DeviceGrant_release g s = (b, g') \<Longrightarrow> grant_step g (Some s) g'"

text \<open>A run of steps, with the slots that were released in it.\<close>

inductive grant_run :: "DeviceGrant \<Rightarrow> Slot list \<Rightarrow> DeviceGrant \<Rightarrow> bool" where
  stop: "grant_run g [] g"
| quiet: "grant_step g None g' \<Longrightarrow> grant_run g' rel g'' \<Longrightarrow> grant_run g rel g''"
| give: "grant_step g (Some s) g' \<Longrightarrow> grant_run g' rel g'' \<Longrightarrow> grant_run g (s # rel) g''"


lemma grant_step_holder:
  assumes "grant_step g r g'" "dg_holder g = Some h" "r \<noteq> Some h"
  shows "dg_holder g' = Some h \<and> dg_window g' = dg_window g"
  using assms(1)
proof cases
  case (offer w res)
  then show ?thesis using assms(2) by (auto simp: DeviceGrant_offer_def split: if_splits)
next
  case (claim s res)
  then show ?thesis using assms(2) by (auto simp: DeviceGrant_claim_def split: option.splits if_splits)
next
  case (adopt wm s m res)
  then show ?thesis using assms(2) by (auto simp: DeviceGrant_adopt_def split: option.splits if_splits sum.splits bool.splits)
next
  case (release s b)
  then show ?thesis using assms(2,3) by (auto simp: DeviceGrant_release_def split: if_splits)
qed

text \<open>
  C23. A window is never taken from its holder: over any sequence of offers, claims, adoptions and
  releases of other slots, whatever the tables say, the holder and the window stay what they were.
\<close>

theorem grant_not_stolen:
  assumes "grant_run g rel g'" "dg_holder g = Some h" "h \<notin> set rel"
  shows "dg_holder g' = Some h \<and> dg_window g' = dg_window g"
  using assms
proof (induction rule: grant_run.induct)
  case (stop g)
  then show ?case by simp
next
  case (quiet g g' rel g'')
  then show ?case using grant_step_holder [OF quiet.hyps(1)] by simp
next
  case (give g s g' rel g'')
  then show ?case using grant_step_holder [OF give.hyps(1), of h] by auto
qed

theorem grant_not_stolen_witness:
  "dg_holder (snd (DeviceGrant_claim \<lparr>dg_name = [], dg_window = Some \<lparr>pa = 4096, wsize = 4096\<rparr>, dg_holder = Some Slot_FIRST\<rparr> Slot_FIRST)) = Some Slot_FIRST"
proof -
  let ?g = "\<lparr>dg_name = [], dg_window = Some \<lparr>pa = 4096, wsize = 4096\<rparr>, dg_holder = Some Slot_FIRST\<rparr>"
  have "grant_run ?g [] (snd (DeviceGrant_claim ?g Slot_FIRST))"
    by (rule grant_run.quiet [OF grant_step.claim grant_run.stop]) (rule prod.collapse [symmetric])
  from grant_not_stolen [OF this, of Slot_FIRST] show ?thesis by simp
qed

lemma split_at_append: "c \<notin> set l \<Longrightarrow> split_at c (l @ c # rest) = l # split_at c rest"
  by (induction l) auto

lemma strip_prefix_append: "strip_prefix p (p @ bs) = Some bs"
  by (induction p) auto

lemma sink_all_True: "sink_all grow out ss = (True, out') \<Longrightarrow> out' = out @ concat ss"
  by (induction ss arbitrary: out) (fastforce split: if_splits)+

lemma sink_all_False: "sink_all grow out ss = (False, out') \<Longrightarrow> \<exists>n < length ss. out' = out @ concat (take n ss)"
proof (induction ss arbitrary: out)
  case (Cons s ss)
  show ?case
  proof (cases "grow (length out + length s)")
    case True
    then have "sink_all grow (out @ s) ss = (False, out')" using Cons.prems by simp
    from Cons.IH [OF this] obtain n where "n < length ss" "out' = (out @ s) @ concat (take n ss)" by blast
    then show ?thesis by (intro exI [of _ "Suc n"]) simp
  next
    case False
    then show ?thesis using Cons.prems by (intro exI [of _ 0]) simp
  qed
qed simp

lemma split_at_complete: "out = [] \<or> last out = c \<Longrightarrow> split_at c (out @ bs) = butlast (split_at c out) @ split_at c bs"
proof (induction out)
  case (Cons b out)
  have ne: "split_at c xs \<noteq> []" for xs by (induction xs) (auto split: list.splits)
  show ?case
  proof (cases "b = c")
    case True
    show ?thesis
    proof (cases "out = []")
      case False
      then show ?thesis using Cons True ne [of out] by simp
    qed (use True in simp)
  next
    case False
    then have o: "out \<noteq> []" "last out = c" using Cons.prems by (auto split: if_splits)
    have IH: "split_at c (out @ bs) = butlast (split_at c out) @ split_at c bs" using Cons.IH o by simp
    obtain l ls where l: "split_at c out = l # ls" using ne [of out] by (cases "split_at c out") auto
    have "ls \<noteq> []"
    proof
      assume "ls = []"
      then have "c \<notin> set out" using l by (induction out arbitrary: l) (auto split: if_splits list.splits simp: ne)
      with o show False by (metis last_in_set)
    qed
    then show ?thesis using False IH l by simp
  qed
qed simp

lemma find_map_append: "find_map f (xs @ ys) = (case find_map f xs of Some y \<Rightarrow> Some y | None \<Rightarrow> find_map f ys)"
  by (induction xs) (auto split: option.splits)

text \<open>
  A line that \<^verbatim>\<open>env_put\<close> wrote behind a block of complete lines is what \<^verbatim>\<open>env_get\<close> finds under its
  key, when the key was not bound before and key and value have no line end; the block stays within
  the limit of the control page, and a refusal for size leaves it as it was.
\<close>

theorem env_put_get:
  assumes "out = [] \<or> last out = NL" "env_get out key = None" "NL \<notin> set key" "NL \<notin> set (concat val)"
  shows "case env_put grow out ebase mx key val of
      (Inr _, out') \<Rightarrow> env_get out' key = Some (concat val) \<and> ebase + length out' \<le> mx
    | (Inl (TooLarge n k), out') \<Rightarrow> out' = out \<and> mx < n
    | (Inl e, out') \<Rightarrow> e = OutOfMemory (length key)"
proof -
  let ?line = "key @ [EQS] @ concat val"
  obtain ok out' where s: "sink_all grow out ([key, [EQS]] @ val @ [[NL]]) = (ok, out')" by fastforce
  show ?thesis
  proof (cases ok)
    case False
    then show ?thesis using s by (simp add: env_put_def)
  next
    case True
    have o: "out' = out @ ?line @ [NL]" using sink_all_True [OF s [unfolded eqTrueI [OF True]]] by simp
    have nl: "NL \<notin> set ?line" using assms(3,4) by (auto simp: NL_def EQS_def)
    let ?f = "\<lambda>line. Option.bind (strip_prefix key line) (strip_prefix [EQS])"
    have sp: "split_at NL out' = butlast (split_at NL out) @ ?line # [[]]"
      unfolding o using split_at_complete [OF assms(1)] split_at_append [OF nl, of "[]"] by simp
    have "find_map ?f (butlast (split_at NL out)) = None"
    proof -
      have ne: "split_at NL xs \<noteq> []" for xs by (induction xs) (auto split: list.splits)
      have "find_map ?f (butlast (split_at NL out) @ [last (split_at NL out)]) = None"
        using assms(2) ne [of out] by (simp add: env_get_def)
      then show ?thesis unfolding find_map_append by (simp split: option.splits)
    qed
    moreover have "?f ?line = Some (concat val)"
      using strip_prefix_append [of key "[EQS] @ concat val"] by simp
    ultimately have "env_get out' key = Some (concat val)"
      unfolding env_get_def sp find_map_append by simp
    then show ?thesis using s True o by (simp add: env_put_def Let_def)
  qed
qed

theorem env_put_get_witness:
  "env_get (snd (env_put (\<lambda>_. True) [] 0 100 [0x61] [[0x62], [0x63]])) [0x61] = Some [0x62, 0x63]"
  using env_put_get [where out = "[]" and key = "[0x61]" and val = "[[0x62], [0x63]]" and grow = "\<lambda>_. True" and ebase = 0 and mx = 100]
  by (simp add: env_put_def env_get_def NL_def EQS_def)

text \<open>An allocation that fails half-way leaves the part of the line that was written.\<close>

lemma env_put_oom_partial:
  "\<exists>grow. env_put grow [] 0 100 [0x61] [[0x62]] = (Inl (OutOfMemory 1), [0x61, EQS])"
  by (rule exI [of _ "\<lambda>n. n \<le> 2"]) (simp add: env_put_def)

text \<open>The address a holder sees never wraps and lies in the block of the framebuffer window.\<close>

lemma GWindow_ipa_range: "\<exists>a. GWindow_ipa w = Inr a \<and> unat FB_IPA \<le> unat a \<and> unat a < unat FB_IPA + unat BLOCK"
proof -
  have m: "BLOCK - 1 = mask 21" by (simp add: BLOCK_def mask_eq_exp_minus_1)
  have "unat (pa w AND (BLOCK - 1)) < 2 ^ 21" unfolding m unat_and_mask by simp
  moreover have "unat FB_IPA = 0x20000000" "unat BLOCK = 2 ^ 21" by (simp_all add: FB_IPA_def BLOCK_def)
  ultimately show ?thesis by (simp add: GWindow_ipa_def add64_def unat_word_ariths)
qed

end
