(* ===== verification/Flows.thy ===== *)
theory Flows
  imports Abi
begin

unbundle bit_operations_syntax

text \<open>
  The connection table of the masquerade (\<^verbatim>\<open>net/src/flows.rs\<close>): flows in a fixed slab with two indexes, both
  open-addressed tables with linear probing and backward-shift deletion.  The probing loops have no bound in
  the code; a loop that does not end is the value \<open>None\<close> of the model, and the theories below prove that
  it ends.
\<close>

section \<open>Errors and outcomes\<close>

datatype NetError =
    NetOutOfMemory nat
  | NetSlotRange nat
  | NetPortZero
  | NetAlreadyPublished u16 nat
  | NetFull string nat
  | NetPrefix u32
  | NetBusy

text \<open>An operation that may not return, or abort.\<close>

type_synonym 'a run = "(unit fail + 'a) option"

definition ret :: "'a \<Rightarrow> 'a run" where
  "ret x = Some (Inr x)"

fun runb :: "'a run \<Rightarrow> ('a \<Rightarrow> 'b run) \<Rightarrow> 'b run" where
  "runb None f = None"
| "runb (Some (Inl e)) f = Some (Inl e)"
| "runb (Some (Inr x)) f = f x"

lemma ret_inject [simp]: "ret x = ret y \<longleftrightarrow> x = y"
  by (simp add: ret_def)

lemma runb_ret [simp]: "runb (ret x) f = f x"
  by (simp add: ret_def)

section \<open>Flows and keys\<close>

definition mix :: "u64 \<Rightarrow> u64" where
  "mix x0 =
     (let x1 = x0 XOR drop_bit 30 x0; x2 = x1 * 0xbf58476d1ce4e5b9;
          x3 = x2 XOR drop_bit 27 x2; x4 = x3 * 0x94d049bb133111eb in
      x4 XOR drop_bit 31 x4)"

text \<open>\<^verbatim>\<open>filled\<close>: the heap grants the room or not; the size of an element is the compiler's.\<close>

definition filled :: "bool \<Rightarrow> nat \<Rightarrow> nat \<Rightarrow> 'a \<Rightarrow> NetError + 'a list" where
  "filled granted esz n v = (if granted then Inr (replicate n v) else Inl (NetOutOfMemory (min (n * esz) (2 ^ 64 - 1))))"

definition MAX_FLOWS :: nat where "MAX_FLOWS = 4096"
definition MAX_FLOWS_PER_SLOT :: nat where "MAX_FLOWS_PER_SLOT = 512"
definition EMPTY :: u16 where "EMPTY = - 1"
definition INDEX :: nat where "INDEX = MAX_FLOWS * 2"

record Flow =
  fproto :: u8
  fslot :: u16
  fin_fwd :: bool
  fin_rev :: bool
  slot_ip :: u32
  dst_ip :: u32
  slot_port :: u16
  dst_port :: u16
  node_port :: u16
  seen :: u64

datatype FKey = FKey u8 u32 u32 u16 u16

datatype RKey = RKey u8 u16 u32 u16

definition fkey :: "Flow \<Rightarrow> FKey" where
  "fkey f = FKey (fproto f) (slot_ip f) (dst_ip f) (slot_port f) (dst_port f)"

definition rkey :: "Flow \<Rightarrow> RKey" where
  "rkey f = RKey (fproto f) (node_port f) (dst_ip f) (dst_port f)"

datatype Dir = Fwd | Rev

fun FKey_hash :: "FKey \<Rightarrow> u64" where
  "FKey_hash (FKey k0 k1 k2 k3 k4) =
     mix ((push_bit 32 (ucast k1) OR ucast k2) XOR
          word_rotl 17 (push_bit 24 (ucast k3) OR push_bit 8 (ucast k4) OR ucast k0))"

fun RKey_hash :: "RKey \<Rightarrow> u64" where
  "RKey_hash (RKey k0 k1 k2 k3) =
     mix (push_bit 32 (ucast k2) OR push_bit 16 (ucast k1) OR (ucast k3 XOR push_bit 40 (ucast k0)))"

fun Flow_hash :: "Flow \<Rightarrow> Dir \<Rightarrow> u64" where
  "Flow_hash f Fwd = FKey_hash (fkey f)"
| "Flow_hash f Rev = RKey_hash (rkey f)"

section \<open>The table\<close>

text \<open>\<open>ffree\<close> is a stack with its top at the end; \<open>by_cap\<close> is the capacity of \<^verbatim>\<open>by_slot\<close>.\<close>

record FlowTable =
  slab :: "Flow option list"
  ffree :: "u16 list"
  fwd :: "u16 list"
  rev_ix :: "u16 list"
  flen :: nat
  by_slot :: "(u16 \<times> u16) list"
  by_cap :: nat

text \<open>\<open>granted k\<close> is the heap's answer to the \<open>k\<close>-th request; it may give \<open>spare\<close> entries more than asked.\<close>

definition FlowTable_new :: "(nat \<Rightarrow> bool) \<Rightarrow> nat \<Rightarrow> nat \<Rightarrow> NetError + FlowTable" where
  "FlowTable_new granted flow_size spare =
     rbind (filled (granted 0) 2 MAX_FLOWS (0 :: u16)) (\<lambda>f0.
     rbind (filled (granted 1) flow_size MAX_FLOWS None) (\<lambda>sl.
     rbind (filled (granted 2) 2 INDEX EMPTY) (\<lambda>fw.
     rbind (filled (granted 3) 2 INDEX EMPTY) (\<lambda>rv.
     if granted 4 then
       Inr \<lparr>slab = sl, ffree = map (\<lambda>i. word_of_nat (MAX_FLOWS - 1 - i)) [0..<length f0], fwd = fw, rev_ix = rv, flen = 0,
            by_slot = [], by_cap = MAX_FLOWS + spare\<rparr>
     else Inl (NetOutOfMemory (MAX_FLOWS * 4))))))"

definition is_full :: "FlowTable \<Rightarrow> bool" where
  "is_full t \<longleftrightarrow> flen t \<ge> MAX_FLOWS"

text \<open>
  \<^verbatim>\<open>binary_search_by_key\<close> on a list that is sorted by slot: the place of the entry, or the place where it
  belongs.
\<close>

definition slot_search :: "(u16 \<times> u16) list \<Rightarrow> u16 \<Rightarrow> nat + nat" where
  "slot_search bs s =
     (case position (\<lambda>e. fst e = s) bs of
        Some i \<Rightarrow> Inr i
      | None \<Rightarrow> Inl (length (takeWhile (\<lambda>e. fst e < s) bs)))"

definition FlowTable_count :: "FlowTable \<Rightarrow> u16 \<Rightarrow> nat" where
  "FlowTable_count t s =
     (case slot_search (by_slot t) s of
        Inr i \<Rightarrow> (case list_get (by_slot t) i of None \<Rightarrow> 0 | Some e \<Rightarrow> unat (snd e))
      | Inl _ \<Rightarrow> 0)"

definition tally :: "FlowTable \<Rightarrow> u16 \<Rightarrow> bool \<Rightarrow> unit fail + FlowTable" where
  "tally t s up =
     (case slot_search (by_slot t) s of
        Inr i \<Rightarrow>
          (case list_get (by_slot t) i of
             None \<Rightarrow> Inr t
           | Some (k, n) \<Rightarrow>
               if up then
                 (if unat n + 1 < 2 ^ 16 then Inr (t\<lparr>by_slot := (by_slot t)[i := (k, n + 1)]\<rparr>) else Inl Panic)
               else if n \<le> 1 then Inr (t\<lparr>by_slot := take i (by_slot t) @ drop (i + 1) (by_slot t)\<rparr>)
               else Inr (t\<lparr>by_slot := (by_slot t)[i := (k, n - 1)]\<rparr>))
      | Inl i \<Rightarrow>
          if up \<and> length (by_slot t) < by_cap t
          then Inr (t\<lparr>by_slot := take i (by_slot t) @ (s, 1) # drop i (by_slot t)\<rparr>)
          else Inr t)"

definition slab_get :: "Flow option list \<Rightarrow> u16 \<Rightarrow> Flow option" where
  "slab_get sl i = Option.bind (list_get sl (unat i)) (\<lambda>x. x)"

definition FlowTable_get :: "FlowTable \<Rightarrow> u16 \<Rightarrow> Flow option" where
  "FlowTable_get t i = slab_get (slab t) i"

definition FlowTable_put :: "FlowTable \<Rightarrow> u16 \<Rightarrow> Flow \<Rightarrow> FlowTable" where
  "FlowTable_put t i f = t\<lparr>slab := (slab t)[unat i := Some f]\<rparr>"

fun dir_index :: "FlowTable \<Rightarrow> Dir \<Rightarrow> u16 list" where
  "dir_index t Fwd = fwd t"
| "dir_index t Rev = rev_ix t"

definition cell :: "u16 list \<Rightarrow> nat \<Rightarrow> u16" where
  "cell ix i = (case list_get ix i of None \<Rightarrow> EMPTY | Some x \<Rightarrow> x)"

definition next_cell :: "nat \<Rightarrow> nat" where
  "next_cell i = (i + 1) AND (INDEX - 1)"

definition home :: "u64 \<Rightarrow> nat" where
  "home h = unat h AND (INDEX - 1)"

text \<open>The loop of \<^verbatim>\<open>pos\<close>: \<open>Inr\<close> is the place of the flow, \<open>Inl\<close> the empty place.\<close>

partial_function (option) pos_from :: "u16 list \<Rightarrow> Flow option list \<Rightarrow> (Flow \<Rightarrow> bool) \<Rightarrow> nat \<Rightarrow> (nat + nat) option" where
  "pos_from ix sl is i =
     (if cell ix i = EMPTY then Some (Inl i)
      else if (case slab_get sl (cell ix i) of None \<Rightarrow> False | Some f \<Rightarrow> is f) then Some (Inr i)
      else pos_from ix sl is (next_cell i))"

definition pos :: "FlowTable \<Rightarrow> Dir \<Rightarrow> u64 \<Rightarrow> (Flow \<Rightarrow> bool) \<Rightarrow> (nat + nat) option" where
  "pos t d h is = pos_from (dir_index t d) (slab t) is (home h)"

definition fpos :: "FlowTable \<Rightarrow> FKey \<Rightarrow> (nat + nat) option" where
  "fpos t k = pos t Fwd (FKey_hash k) (\<lambda>f. fkey f = k)"

definition rpos :: "FlowTable \<Rightarrow> RKey \<Rightarrow> (nat + nat) option" where
  "rpos t k = pos t Rev (RKey_hash k) (\<lambda>f. rkey f = k)"

definition by_fwd :: "FlowTable \<Rightarrow> FKey \<Rightarrow> u16 option run" where
  "by_fwd t k = map_option (\<lambda>r. Inr (case r of Inl _ \<Rightarrow> None | Inr i \<Rightarrow> list_get (fwd t) i)) (fpos t k)"

definition by_rev :: "FlowTable \<Rightarrow> RKey \<Rightarrow> u16 option run" where
  "by_rev t k = map_option (\<lambda>r. Inr (case r of Inl _ \<Rightarrow> None | Inr i \<Rightarrow> list_get (rev_ix t) i)) (rpos t k)"

definition lift_run :: "unit fail + 'a \<Rightarrow> 'a run" where
  "lift_run r = Some r"

text \<open>\<^verbatim>\<open>insert\<close>; the places are in range, so the three \<^verbatim>\<open>get_mut\<close> that would return early do not.\<close>

definition FlowTable_insert :: "FlowTable \<Rightarrow> Flow \<Rightarrow> (u16 option \<times> FlowTable) run" where
  "FlowTable_insert t fl =
     (case fpos t (fkey fl) of
        None \<Rightarrow> None
      | Some (Inr _) \<Rightarrow> ret (None, t)
      | Some (Inl fp) \<Rightarrow>
     (case rpos t (rkey fl) of
        None \<Rightarrow> None
      | Some (Inr _) \<Rightarrow> ret (None, t)
      | Some (Inl rp) \<Rightarrow>
          if ffree t = [] then ret (None, t)
          else
            (let i = last (ffree t); t1 = t\<lparr>ffree := butlast (ffree t)\<rparr> in
             if \<not> unat i < length (slab t1) then ret (None, t1)
             else let t2 = t1\<lparr>slab := (slab t1)[unat i := Some fl]\<rparr> in
             if \<not> fp < length (fwd t2) then ret (None, t2)
             else let t3 = t2\<lparr>fwd := (fwd t2)[fp := i]\<rparr> in
             if \<not> rp < length (rev_ix t3) then ret (None, t3)
             else let t4 = t3\<lparr>rev_ix := (rev_ix t3)[rp := i], flen := flen t3 + 1\<rparr> in
             runb (lift_run (tally t4 (fslot fl) True)) (\<lambda>t5. ret (Some i, t5)))))"

text \<open>The loop of \<^verbatim>\<open>unindex\<close>.\<close>

definition stays :: "nat \<Rightarrow> nat \<Rightarrow> nat \<Rightarrow> bool" where
  "stays i j h \<longleftrightarrow> (if i \<le> j then i < h \<and> h \<le> j else i < h \<or> h \<le> j)"

partial_function (option) shift_from :: "Dir \<Rightarrow> Flow option list \<Rightarrow> u16 list \<Rightarrow> nat \<Rightarrow> nat \<Rightarrow> u16 list option" where
  "shift_from d sl ix i j0 =
     (let j = next_cell j0 in
      case slab_get sl (cell ix j) of
        None \<Rightarrow> Some ix
      | Some fl \<Rightarrow>
          if stays i j (home (Flow_hash fl d)) then shift_from d sl ix i j
          else shift_from d sl (ix[i := cell ix j, j := EMPTY]) j j)"

definition unindex :: "FlowTable \<Rightarrow> Dir \<Rightarrow> nat \<Rightarrow> FlowTable option" where
  "unindex t d i =
     map_option (\<lambda>ix. case d of Fwd \<Rightarrow> t\<lparr>fwd := ix\<rparr> | Rev \<Rightarrow> t\<lparr>rev_ix := ix\<rparr>)
       (shift_from d (slab t) ((dir_index t d)[i := EMPTY]) i i)"

definition FlowTable_remove :: "FlowTable \<Rightarrow> u16 \<Rightarrow> (bool \<times> FlowTable) run" where
  "FlowTable_remove t i =
     (case FlowTable_get t i of
        None \<Rightarrow> ret (False, t)
      | Some fl \<Rightarrow>
     (case fpos t (fkey fl) of
        None \<Rightarrow> None
      | Some r \<Rightarrow>
     (case (case r of Inr p \<Rightarrow> unindex t Fwd p | Inl _ \<Rightarrow> Some t) of
        None \<Rightarrow> None
      | Some t1 \<Rightarrow>
     (case rpos t1 (rkey fl) of
        None \<Rightarrow> None
      | Some r \<Rightarrow>
     (case (case r of Inr p \<Rightarrow> if list_get (rev_ix t1) p = Some i then unindex t1 Rev p else Some t1 | Inl _ \<Rightarrow> Some t1) of
        None \<Rightarrow> None
      | Some t2 \<Rightarrow>
          (let t3 = t2\<lparr>slab := (slab t2)[unat i := None], ffree := ffree t2 @ [i]\<rparr> in
           if flen t3 = 0 then Some (Inl Panic)
           else runb (lift_run (tally (t3\<lparr>flen := flen t3 - 1\<rparr>) (fslot fl) False)) (\<lambda>t4. ret (True, t4))))))))"

definition FlowTable_ids :: "FlowTable \<Rightarrow> u16 list" where
  "FlowTable_ids t = map word_of_nat (filter (\<lambda>i. slab t ! i \<noteq> None) [0..<length (slab t)])"

end
