(* ===== verification/FlowProbe.thy ===== *)
theory FlowProbe
  imports Flows
begin

unbundle bit_operations_syntax

text \<open>
  Linear probing: where a search ends, that it ends, and that the backward shift after a deletion leaves
  every entry reachable from its home.
\<close>

section \<open>Cyclic distance\<close>

definition dist :: "nat \<Rightarrow> nat \<Rightarrow> nat" where
  "dist a b = (if a \<le> b then b - a else b + INDEX - a)"

lemma INDEX_val: "INDEX = 8192"
  by (simp add: INDEX_def MAX_FLOWS_def)

lemma dist_less: "a < INDEX \<Longrightarrow> b < INDEX \<Longrightarrow> dist a b < INDEX"
  by (auto simp: dist_def)

lemma dist_self [simp]: "dist a a = 0"
  by (simp add: dist_def)

lemma dist_zero: "a < INDEX \<Longrightarrow> b < INDEX \<Longrightarrow> dist a b = 0 \<longleftrightarrow> a = b"
  by (auto simp: dist_def)

lemma dist_eq: "a < INDEX \<Longrightarrow> b < INDEX \<Longrightarrow> c < INDEX \<Longrightarrow> dist a b = dist a c \<longleftrightarrow> b = c"
  by (auto simp: dist_def)

lemma and_index: "x AND (INDEX - 1) = x mod INDEX"
proof -
  have e: "INDEX - 1 = mask 13" "INDEX = 2 ^ 13" by (simp_all add: INDEX_val mask_eq_exp_minus_1)
  show ?thesis unfolding e(1) take_bit_eq_mask [symmetric] unfolding e(2) by (simp add: take_bit_eq_mod)
qed

lemma next_cell_eq: "i < INDEX \<Longrightarrow> next_cell i = (if i + 1 = INDEX then 0 else i + 1)"
  unfolding next_cell_def and_index by simp

lemma next_cell_less: "next_cell i < INDEX"
  unfolding next_cell_def and_index by (simp add: INDEX_val)

lemma home_less: "home h < INDEX"
  unfolding home_def and_index by (simp add: INDEX_val)

lemma dist_next:
  assumes "a < INDEX" "b < INDEX"
  shows "next_cell b \<noteq> a \<Longrightarrow> dist a (next_cell b) = dist a b + 1" "next_cell b = a \<Longrightarrow> dist a b = INDEX - 1"
    "dist (next_cell b) a + 1 = dist b a \<or> b = a"
  unfolding next_cell_eq [OF assms(2)] using assms by (auto simp: dist_def split: if_splits)

lemma dist_split:
  assumes "h < INDEX" "i < INDEX" "p < INDEX"
  shows "dist h i < dist h p \<Longrightarrow> dist h p = dist h i + dist i p"
    "dist h i + dist i p < INDEX \<Longrightarrow> dist h p = dist h i + dist i p"
  using assms by (auto simp: dist_def split: if_splits)

lemma stays_iff:
  assumes "i < INDEX" "j < INDEX" "h < INDEX" "i \<noteq> j"
  shows "stays i j h \<longleftrightarrow> \<not> dist h i < dist h j"
  using assms by (auto simp: stays_def dist_def split: if_splits)

section \<open>One index\<close>

lemma cell_update: "cell (ix[i := v]) p = (if p = i \<and> i < length ix then v else cell ix p)"
  by (auto simp: cell_def list_get_def)

lemma unat_EMPTY: "unat EMPTY = 65535"
  unfolding EMPTY_def by code_simp

lemma slab_get_EMPTY: "length sl = MAX_FLOWS \<Longrightarrow> slab_get sl EMPTY = None"
  by (simp add: slab_get_def list_get_def unat_EMPTY MAX_FLOWS_def)

definition home_of :: "Dir \<Rightarrow> Flow option list \<Rightarrow> u16 \<Rightarrow> nat" where
  "home_of d sl i = home (Flow_hash (the (slab_get sl i)) d)"

lemma home_of_less: "home_of d sl i < INDEX"
  by (simp add: home_of_def home_less)

text \<open>Every entry can be reached from its home without meeting an empty place, the place \<open>x\<close> apart.\<close>

definition reachable_past :: "(u16 \<Rightarrow> nat) \<Rightarrow> u16 list \<Rightarrow> nat set \<Rightarrow> bool" where
  "reachable_past hm ix X \<longleftrightarrow> (\<forall>p < INDEX. cell ix p \<noteq> EMPTY \<longrightarrow>
     (\<forall>q < INDEX. q \<notin> X \<longrightarrow> dist (hm (cell ix p)) q < dist (hm (cell ix p)) p \<longrightarrow> cell ix q \<noteq> EMPTY))"

text \<open>The places hold exactly the numbers \<open>S\<close>, each once.\<close>

definition holds_ids :: "u16 list \<Rightarrow> u16 set \<Rightarrow> bool" where
  "holds_ids ix S \<longleftrightarrow> length ix = INDEX \<and> EMPTY \<notin> S \<and> (\<forall>p < INDEX. cell ix p = EMPTY \<or> cell ix p \<in> S) \<and>
     (\<forall>i \<in> S. \<exists>p < INDEX. cell ix p = i) \<and>
     (\<forall>p < INDEX. \<forall>q < INDEX. cell ix p = cell ix q \<and> cell ix p \<noteq> EMPTY \<longrightarrow> p = q)"

lemma reachable_pastD:
  "reachable_past hm ix X \<Longrightarrow> p < INDEX \<Longrightarrow> cell ix p \<noteq> EMPTY \<Longrightarrow> q < INDEX \<Longrightarrow> q \<notin> X \<Longrightarrow>
   dist (hm (cell ix p)) q < dist (hm (cell ix p)) p \<Longrightarrow> cell ix q \<noteq> EMPTY"
  unfolding reachable_past_def by blast

lemma holds_idsD:
  assumes "holds_ids ix S"
  shows "length ix = INDEX" "EMPTY \<notin> S" "p < INDEX \<Longrightarrow> cell ix p = EMPTY \<or> cell ix p \<in> S"
    "i \<in> S \<Longrightarrow> \<exists>p < INDEX. cell ix p = i"
    "p < INDEX \<Longrightarrow> q < INDEX \<Longrightarrow> cell ix p = cell ix q \<Longrightarrow> cell ix p \<noteq> EMPTY \<Longrightarrow> p = q"
  using assms unfolding holds_ids_def by blast+

text \<open>At most half of the places are taken.\<close>

lemma empty_place:
  assumes h: "holds_ids ix S" and S: "card S \<le> MAX_FLOWS" "finite S" and X: "card X \<le> 1" "finite X"
  obtains e where "e < INDEX" "cell ix e = EMPTY" "e \<notin> X"
proof -
  let ?T = "{p. p < INDEX \<and> cell ix p \<noteq> EMPTY}"
  have sub: "cell ix ` ?T \<subseteq> S" using holds_idsD(3) [OF h] by blast
  have inj: "inj_on (cell ix) ?T" using holds_idsD(5) [OF h] unfolding inj_on_def by blast
  have "card ?T = card (cell ix ` ?T)" by (rule card_image [OF inj, symmetric])
  also have "\<dots> \<le> card S" by (rule card_mono [OF S(2) sub])
  finally have t: "card ?T \<le> MAX_FLOWS" using S(1) by linarith
  have "card (?T \<union> X) \<le> MAX_FLOWS + 1" using card_Un_le [of ?T X] t X(1) by linarith
  also have "\<dots> < card {..<INDEX}" by (simp add: INDEX_val MAX_FLOWS_def)
  finally have "\<not> {..<INDEX} \<subseteq> ?T \<union> X" using card_mono [of "?T \<union> X" "{..<INDEX}"] X(2) by auto
  then show thesis using that by blast
qed

section \<open>The search\<close>

definition hit :: "Flow option list \<Rightarrow> (Flow \<Rightarrow> bool) \<Rightarrow> u16 \<Rightarrow> bool" where
  "hit sl ok i \<longleftrightarrow> (case slab_get sl i of None \<Rightarrow> False | Some f \<Rightarrow> ok f)"

definition clear_run :: "u16 list \<Rightarrow> Flow option list \<Rightarrow> (Flow \<Rightarrow> bool) \<Rightarrow> nat \<Rightarrow> nat \<Rightarrow> bool" where
  "clear_run ix sl ok a b \<longleftrightarrow> (\<forall>q < INDEX. dist a q < dist a b \<longrightarrow> cell ix q \<noteq> EMPTY \<and> \<not> hit sl ok (cell ix q))"

lemma pos_from_ends:
  assumes a: "a < INDEX" and e: "e < INDEX" "cell ix e = EMPTY"
  shows "i < INDEX \<Longrightarrow> clear_run ix sl ok a i \<Longrightarrow>
    \<exists>r. pos_from ix sl ok i = Some r \<and>
      (case r of Inr p \<Rightarrow> p < INDEX \<and> cell ix p \<noteq> EMPTY \<and> hit sl ok (cell ix p)
       | Inl p \<Rightarrow> p < INDEX \<and> cell ix p = EMPTY \<and> clear_run ix sl ok a p)"
proof (induction "dist a e - dist a i" arbitrary: i rule: less_induct)
  case less
  have le: "dist a i \<le> dist a e"
  proof (rule ccontr)
    assume "\<not> dist a i \<le> dist a e"
    then show False using less.prems(2) e unfolding clear_run_def by auto
  qed
  show ?case
  proof (cases "cell ix i = EMPTY \<or> hit sl ok (cell ix i)")
    case True
    then show ?thesis
      using less.prems by (auto simp: pos_from.simps [of ix sl ok i] hit_def)
  next
    case False
    then have ne: "i \<noteq> e" using e(2) by blast
    have lt: "dist a i < dist a e" using le dist_eq [OF a less.prems(1) e(1)] ne by linarith
    have "next_cell i \<noteq> a"
    proof
      assume "next_cell i = a"
      then have "dist a i = INDEX - 1" by (rule dist_next(2) [OF a less.prems(1)])
      then show False using lt dist_less [OF a e(1)] by linarith
    qed
    then have d: "dist a (next_cell i) = dist a i + 1" by (rule dist_next(1) [OF a less.prems(1)])
    have m: "dist a e - dist a (next_cell i) < dist a e - dist a i" using lt d by linarith
    have c: "clear_run ix sl ok a (next_cell i)"
      unfolding clear_run_def
    proof (intro allI impI)
      fix q
      assume q: "q < INDEX" "dist a q < dist a (next_cell i)"
      show "cell ix q \<noteq> EMPTY \<and> \<not> hit sl ok (cell ix q)"
      proof (cases "q = i")
        case True
        then show ?thesis using False by blast
      next
        case other: False
        have "dist a q < dist a i" using q d dist_eq [OF a q(1) less.prems(1)] other by linarith
        then show ?thesis using less.prems(2) q(1) unfolding clear_run_def by blast
      qed
    qed
    have step: "pos_from ix sl ok i = pos_from ix sl ok (next_cell i)"
      using False by (simp add: pos_from.simps [of ix sl ok i] hit_def)
    show ?thesis unfolding step by (rule less.hyps [OF m next_cell_less c])
  qed
qed

text \<open>The places from \<open>a\<close> up to \<open>b\<close> are taken.\<close>

definition full_run :: "u16 list \<Rightarrow> nat \<Rightarrow> nat \<Rightarrow> bool" where
  "full_run ix a b \<longleftrightarrow> (\<forall>q < INDEX. dist a q < dist a b \<longrightarrow> cell ix q \<noteq> EMPTY)"

lemma clear_run_full: "clear_run ix sl ok a b \<Longrightarrow> full_run ix a b"
  unfolding clear_run_def full_run_def by blast

text \<open>An index of the flows \<open>S\<close> of the slab.\<close>

definition index_ok :: "Dir \<Rightarrow> Flow option list \<Rightarrow> u16 list \<Rightarrow> u16 set \<Rightarrow> bool" where
  "index_ok d sl ix S \<longleftrightarrow> holds_ids ix S \<and> reachable_past (home_of d sl) ix {} \<and> finite S \<and> card S \<le> MAX_FLOWS \<and>
     (\<forall>i \<in> S. slab_get sl i \<noteq> None)"

lemma index_okD:
  assumes "index_ok d sl ix S"
  shows "holds_ids ix S" "reachable_past (home_of d sl) ix {}" "finite S" "card S \<le> MAX_FLOWS"
    "i \<in> S \<Longrightarrow> slab_get sl i \<noteq> None"
  using assms unfolding index_ok_def by blast+

text \<open>An index is searched by a key that determines the hash of a flow.\<close>

locale keyed =
  fixes keyf :: "Flow \<Rightarrow> 'k" and hash :: "'k \<Rightarrow> u64" and d :: Dir
  assumes hash_key: "Flow_hash f d = hash (keyf f)"
begin

definition has_key :: "Flow option list \<Rightarrow> 'k \<Rightarrow> u16 \<Rightarrow> bool" where
  "has_key sl k i \<longleftrightarrow> hit sl (\<lambda>f. keyf f = k) i"

lemma has_key_Some: "has_key sl k i \<longleftrightarrow> (\<exists>f. slab_get sl i = Some f \<and> keyf f = k)"
  unfolding has_key_def hit_def by (cases "slab_get sl i") simp_all

lemma has_key_home: "has_key sl k i \<Longrightarrow> home_of d sl i = home (hash k)"
  unfolding has_key_Some home_of_def using hash_key by auto

lemma probe_cases:
  assumes ok: "index_ok d sl ix S"
  shows "\<exists>r. pos_from ix sl (\<lambda>f. keyf f = k) (home (hash k)) = Some r \<and>
    (case r of
       Inr p \<Rightarrow> p < INDEX \<and> cell ix p \<in> S \<and> has_key sl k (cell ix p)
     | Inl p \<Rightarrow> p < INDEX \<and> cell ix p = EMPTY \<and> full_run ix (home (hash k)) p \<and> (\<forall>i \<in> S. \<not> has_key sl k i))"
proof -
  let ?a = "home (hash k)"
  note h = index_okD(1) [OF ok]
  obtain e where e: "e < INDEX" "cell ix e = EMPTY" "e \<notin> {}"
    using empty_place [OF h index_okD(4,3) [OF ok], of "{}"] by auto
  have c0: "clear_run ix sl (\<lambda>f. keyf f = k) ?a ?a" unfolding clear_run_def by simp
  obtain r where r: "pos_from ix sl (\<lambda>f. keyf f = k) ?a = Some r"
    and rc: "case r of Inr p \<Rightarrow> p < INDEX \<and> cell ix p \<noteq> EMPTY \<and> hit sl (\<lambda>f. keyf f = k) (cell ix p)
       | Inl p \<Rightarrow> p < INDEX \<and> cell ix p = EMPTY \<and> clear_run ix sl (\<lambda>f. keyf f = k) ?a p"
    using pos_from_ends [OF home_less e(1,2) home_less c0] by blast
  show ?thesis
  proof (cases r)
    case (Inr p)
    then have p: "p < INDEX" "cell ix p \<noteq> EMPTY" "has_key sl k (cell ix p)" using rc unfolding has_key_def by simp_all
    have "cell ix p \<in> S" using holds_idsD(3) [OF h p(1)] p(2) by blast
    then show ?thesis using r Inr p by simp
  next
    case (Inl p)
    then have p: "p < INDEX" "cell ix p = EMPTY" and cr: "clear_run ix sl (\<lambda>f. keyf f = k) ?a p" using rc by simp_all
    have "\<not> has_key sl k i" if i: "i \<in> S" for i
    proof
      assume hk: "has_key sl k i"
      obtain q where q: "q < INDEX" "cell ix q = i" using holds_idsD(4) [OF h i] by blast
      have ne: "cell ix q \<noteq> EMPTY" using holds_idsD(2) [OF h] i q(2) by auto
      have hq: "home_of d sl (cell ix q) = ?a" using has_key_home [OF hk] q(2) by simp
      have "\<not> dist ?a q < dist ?a p" using cr q(1) hk q(2) unfolding clear_run_def has_key_def by blast
      moreover have "\<not> dist ?a p < dist ?a q"
        using reachable_pastD [OF index_okD(2) [OF ok] q(1) ne p(1)] hq p(2) by auto
      ultimately have "q = p" using dist_eq [OF home_less q(1) p(1)] by (meson linorder_neqE_nat)
      then show False using ne p(2) by blast
    qed
    then show ?thesis using r Inl p clear_run_full [OF cr] by simp
  qed
qed

end

interpretation fwd_keyed: keyed fkey FKey_hash Fwd
  by unfold_locales simp

interpretation rev_keyed: keyed rkey RKey_hash Rev
  by unfold_locales simp

section \<open>Adding an entry\<close>

lemma holds_ids_add:
  assumes h: "holds_ids ix S" and p: "p < INDEX" "cell ix p = EMPTY" and i: "i \<notin> S" "i \<noteq> EMPTY"
  shows "holds_ids (ix[p := i]) (insert i S)"
proof -
  note l = holds_idsD(1) [OF h]
  have c: "cell (ix[p := i]) q = (if q = p then i else cell ix q)" for q
    using p(1) l by (simp add: cell_update)
  have ni: "cell ix q \<noteq> i" if q: "q < INDEX" for q
    using holds_idsD(3) [OF h q] i by auto
  show ?thesis
    unfolding holds_ids_def c
  proof (intro conjI ballI allI impI)
    show "length (ix[p := i]) = INDEX" using l by simp
    show "EMPTY \<notin> insert i S" using holds_idsD(2) [OF h] i(2) by blast
  next
    fix q
    assume "q < INDEX"
    then show "(if q = p then i else cell ix q) = EMPTY \<or> (if q = p then i else cell ix q) \<in> insert i S"
      using holds_idsD(3) [OF h, of q] by auto
  next
    fix j
    assume j: "j \<in> insert i S"
    show "\<exists>q<INDEX. (if q = p then i else cell ix q) = j"
    proof (cases "j = i")
      case True
      then show ?thesis using p(1) by auto
    next
      case False
      then obtain q where "q < INDEX" "cell ix q = j" using holds_idsD(4) [OF h, of j] j by blast
      moreover have "j \<noteq> EMPTY" using False j holds_idsD(2) [OF h] by blast
      ultimately show ?thesis using p(2) by auto
    qed
  next
    fix q q'
    assume qs: "q < INDEX" "q' < INDEX"
      and e: "(if q = p then i else cell ix q) = (if q' = p then i else cell ix q') \<and> (if q = p then i else cell ix q) \<noteq> EMPTY"
    show "q = q'"
      using e ni [OF qs(1)] ni [OF qs(2)] holds_idsD(5) [OF h qs] by (auto split: if_splits)
  qed
qed

lemma reachable_add:
  assumes r: "reachable_past hm ix X" and l: "length ix = INDEX" and p: "p < INDEX" "cell ix p = EMPTY" and i: "i \<noteq> EMPTY"
    and f: "full_run ix (hm i) p"
  shows "reachable_past hm (ix[p := i]) X"
proof -
  have c: "cell (ix[p := i]) q = (if q = p then i else cell ix q)" for q
    using p(1) l by (simp add: cell_update)
  show ?thesis
    unfolding reachable_past_def
  proof (intro allI impI)
    fix q q'
    assume q: "q < INDEX" and nq: "cell (ix[p := i]) q \<noteq> EMPTY" and q': "q' < INDEX" "q' \<notin> X"
      and d: "dist (hm (cell (ix[p := i]) q)) q' < dist (hm (cell (ix[p := i]) q)) q"
    show "cell (ix[p := i]) q' \<noteq> EMPTY"
    proof (cases "q' = p")
      case True
      then show ?thesis using i by (simp add: c)
    next
      case False
      have "cell ix q' \<noteq> EMPTY"
      proof (cases "q = p")
        case True
        then show ?thesis using f d q' unfolding full_run_def c by simp
      next
        case other: False
        then show ?thesis using reachable_pastD [OF r q _ q'] nq d by (simp add: c)
      qed
      then show ?thesis using False by (simp add: c)
    qed
  qed
qed

lemma reachable_cong:
  assumes r: "reachable_past hm ix X" and e: "\<And>p. p < INDEX \<Longrightarrow> cell ix p \<noteq> EMPTY \<Longrightarrow> hm' (cell ix p) = hm (cell ix p)"
  shows "reachable_past hm' ix X"
  using r unfolding reachable_past_def by (simp add: e)

section \<open>Taking an entry out\<close>

text \<open>
  The hole at \<open>i\<close> with the scan at \<open>j\<close>: an entry whose way from home leads over the hole lies beyond \<open>j\<close>.
\<close>

definition hole_ok :: "(u16 \<Rightarrow> nat) \<Rightarrow> u16 list \<Rightarrow> nat \<Rightarrow> nat \<Rightarrow> bool" where
  "hole_ok hm ix i j \<longleftrightarrow> i < INDEX \<and> j < INDEX \<and> cell ix i = EMPTY \<and> reachable_past hm ix {i} \<and>
     (\<forall>p < INDEX. cell ix p \<noteq> EMPTY \<longrightarrow> dist (hm (cell ix p)) i < dist (hm (cell ix p)) p \<longrightarrow> dist i j < dist i p)"

lemma hole_okD:
  assumes "hole_ok hm ix i j"
  shows "i < INDEX" "j < INDEX" "cell ix i = EMPTY" "reachable_past hm ix {i}"
    "p < INDEX \<Longrightarrow> cell ix p \<noteq> EMPTY \<Longrightarrow> dist (hm (cell ix p)) i < dist (hm (cell ix p)) p \<Longrightarrow> dist i j < dist i p"
  using assms unfolding hole_ok_def by blast+

lemma hole_beyond:
  assumes h: "hole_ok hm ix i j" and p: "p < INDEX" "cell ix p \<noteq> EMPTY" "dist (hm (cell ix p)) i < dist (hm (cell ix p)) p"
  shows "next_cell j \<noteq> i" "p \<noteq> next_cell j \<Longrightarrow> dist i (next_cell j) < dist i p"
proof -
  note b = hole_okD(1,2) [OF h]
  note lt = hole_okD(5) [OF h p]
  show n: "next_cell j \<noteq> i"
    using dist_next(2) [OF b] lt dist_less [OF b(1) p(1)] by linarith
  show "dist i (next_cell j) < dist i p" if "p \<noteq> next_cell j"
    using lt dist_next(1) [OF b n] dist_eq [OF b(1) p(1) next_cell_less] that by (metis Suc_eq_plus1 Suc_lessI)
qed

lemma hole_closed:
  assumes h: "hole_ok hm ix i j" and e: "cell ix (next_cell j) = EMPTY" and hm: "\<And>x. hm x < INDEX"
  shows "reachable_past hm ix {}"
  unfolding reachable_past_def
proof (intro allI impI)
  fix p q
  let ?h = "hm (cell ix p)"
  assume p: "p < INDEX" "cell ix p \<noteq> EMPTY" and q: "q < INDEX" "q \<notin> {}" "dist ?h q < dist ?h p"
  note b = hole_okD(1,2) [OF h]
  have "q \<noteq> i"
  proof
    assume "q = i"
    then have o: "dist ?h i < dist ?h p" using q(3) by simp
    have n: "next_cell j \<noteq> i" by (rule hole_beyond(1) [OF h p o])
    have "p \<noteq> next_cell j" using p(2) e by blast
    then have lt: "dist i (next_cell j) < dist i p" by (rule hole_beyond(2) [OF h p o])
    have s: "dist ?h p = dist ?h i + dist i p" by (rule dist_split(1) [OF hm b(1) p(1) o])
    have "dist ?h (next_cell j) = dist ?h i + dist i (next_cell j)"
      by (rule dist_split(2) [OF hm b(1) next_cell_less]) (use s lt dist_less [OF hm p(1), of "cell ix p"] in linarith)
    then have "dist ?h (next_cell j) < dist ?h p" using s lt by linarith
    then show False
      using reachable_pastD [OF hole_okD(4) [OF h] p next_cell_less] n e by blast
  qed
  then show "cell ix q \<noteq> EMPTY" using reachable_pastD [OF hole_okD(4) [OF h] p q(1)] q(3) by blast
qed

lemma hole_stays:
  assumes h: "hole_ok hm ix i j" and n: "next_cell j \<noteq> i"
    and st: "\<not> dist (hm (cell ix (next_cell j))) i < dist (hm (cell ix (next_cell j))) (next_cell j)"
  shows "hole_ok hm ix i (next_cell j)"
  unfolding hole_ok_def
proof (intro conjI allI impI)
  fix p
  assume p: "p < INDEX" "cell ix p \<noteq> EMPTY" "dist (hm (cell ix p)) i < dist (hm (cell ix p)) p"
  have "p \<noteq> next_cell j" using p(3) st by blast
  then show "dist i (next_cell j) < dist i p" by (rule hole_beyond(2) [OF h p])
qed (use hole_okD(1,3,4) [OF h] next_cell_less in simp_all)

lemma hole_moves:
  assumes h: "hole_ok hm ix i j0" and j: "j < INDEX" "j \<noteq> i" "cell ix j \<noteq> EMPTY" and l: "length ix = INDEX"
    and mv: "dist (hm (cell ix j)) i < dist (hm (cell ix j)) j"
  shows "hole_ok hm (ix[i := cell ix j, j := EMPTY]) j j"
proof -
  let ?x = "ix[i := cell ix j, j := EMPTY]"
  note i = hole_okD(1) [OF h]
  have c: "cell ?x q = (if q = j then EMPTY else if q = i then cell ix j else cell ix q)" for q
    using i j l by (simp add: cell_update)
  have "reachable_past hm ?x {j}"
    unfolding reachable_past_def
  proof (intro allI impI)
    fix p q
    assume p: "p < INDEX" "cell ?x p \<noteq> EMPTY" and q: "q < INDEX" "q \<notin> {j}" "dist (hm (cell ?x p)) q < dist (hm (cell ?x p)) p"
    show "cell ?x q \<noteq> EMPTY"
    proof (cases "q = i")
      case True
      then show ?thesis using j by (simp add: c)
    next
      case False
      have "cell ix q \<noteq> EMPTY"
      proof (cases "p = i")
        case True
        then have "dist (hm (cell ix j)) q < dist (hm (cell ix j)) j" using q(3) mv j(2) by (simp add: c)
        then show ?thesis using reachable_pastD [OF hole_okD(4) [OF h] j(1,3) q(1)] False by blast
      next
        case other: False
        then have "p \<noteq> j" "cell ?x p = cell ix p" using p(2) by (auto simp: c)
        then show ?thesis using reachable_pastD [OF hole_okD(4) [OF h] p(1) _ q(1)] False p(2) q(3) by simp
      qed
      then show ?thesis using False q(2) by (simp add: c)
    qed
  qed
  moreover have "dist j j < dist j p" if "p < INDEX" "cell ?x p \<noteq> EMPTY" for p
    using that dist_zero [OF j(1) that(1)] by (auto simp: c)
  ultimately show ?thesis using j(1) c unfolding hole_ok_def by simp
qed

lemma holds_ids_move:
  assumes h: "holds_ids ix S" and ij: "i < INDEX" "j < INDEX" "i \<noteq> j" and i: "cell ix i = EMPTY" and j: "cell ix j \<noteq> EMPTY"
  shows "holds_ids (ix[i := cell ix j, j := EMPTY]) S"
proof -
  let ?x = "ix[i := cell ix j, j := EMPTY]"
  note l = holds_idsD(1) [OF h]
  have c: "cell ?x q = (if q = j then EMPTY else if q = i then cell ix j else cell ix q)" for q
    using ij l by (simp add: cell_update)
  show ?thesis
    unfolding holds_ids_def c
  proof (intro conjI ballI allI impI)
    show "length ?x = INDEX" using l by simp
    show "EMPTY \<notin> S" by (rule holds_idsD(2) [OF h])
  next
    fix q
    assume "q < INDEX"
    then show "(if q = j then EMPTY else if q = i then cell ix j else cell ix q) = EMPTY \<or>
      (if q = j then EMPTY else if q = i then cell ix j else cell ix q) \<in> S"
      using holds_idsD(3) [OF h, of q] holds_idsD(3) [OF h ij(2)] by simp
  next
    fix k
    assume k: "k \<in> S"
    then obtain q where q: "q < INDEX" "cell ix q = k" using holds_idsD(4) [OF h] by blast
    have "q \<noteq> i" using holds_idsD(2) [OF h] k q(2) i by auto
    then show "\<exists>q<INDEX. (if q = j then EMPTY else if q = i then cell ix j else cell ix q) = k"
      using q ij by (cases "q = j") auto
  next
    fix q q'
    assume qs: "q < INDEX" "q' < INDEX"
      and e: "(if q = j then EMPTY else if q = i then cell ix j else cell ix q) =
          (if q' = j then EMPTY else if q' = i then cell ix j else cell ix q') \<and>
        (if q = j then EMPTY else if q = i then cell ix j else cell ix q) \<noteq> EMPTY"
    show "q = q'"
      using e holds_idsD(5) [OF h qs] holds_idsD(5) [OF h qs(1) ij(2)] holds_idsD(5) [OF h ij(2) qs(2)]
      by (auto split: if_splits)
  qed
qed

text \<open>The loop ends, and closes the hole.\<close>

lemma shift_from_ends:
  assumes live: "\<And>k. k \<in> S \<Longrightarrow> slab_get sl k \<noteq> None" and sl: "length sl = MAX_FLOWS"
  shows "hole_ok (home_of d sl) ix i j \<Longrightarrow> holds_ids ix S \<Longrightarrow> e < INDEX \<Longrightarrow> cell ix e = EMPTY \<Longrightarrow> e \<noteq> i \<Longrightarrow> e \<noteq> j \<Longrightarrow>
    \<exists>ix'. shift_from d sl ix i j = Some ix' \<and> holds_ids ix' S \<and> reachable_past (home_of d sl) ix' {}"
proof (induction "dist j e" arbitrary: ix i j rule: less_induct)
  case less
  let ?n = "next_cell j" and ?hm = "home_of d sl"
  note h = less.prems(1) and ids = less.prems(2)
  note l = holds_idsD(1) [OF ids]
  have m: "dist ?n e < dist j e"
    using dist_next(3) [OF less.prems(3) hole_okD(2) [OF h]] less.prems(6) by linarith
  show ?case
  proof (cases "slab_get sl (cell ix ?n)")
    case None
    then have "cell ix ?n = EMPTY" using holds_idsD(3) [OF ids next_cell_less] live by blast
    then have r: "reachable_past ?hm ix {}" by (rule hole_closed [OF h]) (rule home_of_less)
    show ?thesis using None r ids by (simp add: shift_from.simps [of d sl ix i j])
  next
    case (Some fl)
    then have ne: "cell ix ?n \<noteq> EMPTY" using slab_get_EMPTY [OF sl] by auto
    then have ni: "?n \<noteq> i" and en: "e \<noteq> ?n" using hole_okD(3) [OF h] less.prems(4) by auto
    have hm: "home (Flow_hash fl d) = ?hm (cell ix ?n)" using Some by (simp add: home_of_def)
    have st: "stays i ?n (home (Flow_hash fl d)) \<longleftrightarrow> \<not> dist (?hm (cell ix ?n)) i < dist (?hm (cell ix ?n)) ?n"
      unfolding hm by (rule stays_iff [OF hole_okD(1) [OF h] next_cell_less home_of_less ni [symmetric]])
    show ?thesis
    proof (cases "stays i ?n (home (Flow_hash fl d))")
      case True
      then have h': "hole_ok ?hm ix i ?n" using hole_stays [OF h ni] st by blast
      have "shift_from d sl ix i j = shift_from d sl ix i ?n"
        using True Some by (simp add: shift_from.simps [of d sl ix i j])
      then show ?thesis using less.hyps [OF m h' ids less.prems(3,4,5) en] by simp
    next
      case False
      let ?x = "ix[i := cell ix ?n, ?n := EMPTY]"
      have mv: "dist (?hm (cell ix ?n)) i < dist (?hm (cell ix ?n)) ?n" using False st by blast
      have h': "hole_ok ?hm ?x ?n ?n" by (rule hole_moves [OF h next_cell_less ni ne l mv])
      have i': "holds_ids ?x S"
        by (rule holds_ids_move [OF ids hole_okD(1) [OF h] next_cell_less ni [symmetric] hole_okD(3) [OF h] ne])
      have e': "cell ?x e = EMPTY" using less.prems(4,5) en by (simp add: cell_update)
      have "shift_from d sl ix i j = shift_from d sl ?x ?n ?n"
        using False Some by (simp add: shift_from.simps [of d sl ix i j] Let_def)
      then show ?thesis using less.hyps [OF m h' i' less.prems(3) e' en en] by simp
    qed
  qed
qed

lemma holds_ids_drop:
  assumes h: "holds_ids ix S" and p: "p < INDEX" "cell ix p \<noteq> EMPTY"
  shows "holds_ids (ix[p := EMPTY]) (S - {cell ix p})"
proof -
  note l = holds_idsD(1) [OF h]
  have c: "cell (ix[p := EMPTY]) q = (if q = p then EMPTY else cell ix q)" for q
    using p(1) l by (simp add: cell_update)
  show ?thesis
    unfolding holds_ids_def c
  proof (intro conjI ballI allI impI)
    show "length (ix[p := EMPTY]) = INDEX" using l by simp
    show "EMPTY \<notin> S - {cell ix p}" using holds_idsD(2) [OF h] by blast
  next
    fix q
    assume "q < INDEX"
    then show "(if q = p then EMPTY else cell ix q) = EMPTY \<or> (if q = p then EMPTY else cell ix q) \<in> S - {cell ix p}"
      using holds_idsD(3) [OF h, of q] holds_idsD(5) [OF h, of q p] p(1) by auto
  next
    fix k
    assume "k \<in> S - {cell ix p}"
    then show "\<exists>q<INDEX. (if q = p then EMPTY else cell ix q) = k"
      using holds_idsD(4) [OF h, of k] by auto
  next
    fix q q'
    assume "q < INDEX" "q' < INDEX" "(if q = p then EMPTY else cell ix q) = (if q' = p then EMPTY else cell ix q') \<and>
      (if q = p then EMPTY else cell ix q) \<noteq> EMPTY"
    then show "q = q'" using holds_idsD(5) [OF h, of q q'] by (auto split: if_splits)
  qed
qed

lemma hole_start:
  assumes r: "reachable_past hm ix {}" and p: "p < INDEX" and l: "length ix = INDEX"
  shows "hole_ok hm (ix[p := EMPTY]) p p"
proof -
  have c: "cell (ix[p := EMPTY]) q = (if q = p then EMPTY else cell ix q)" for q
    using p l by (simp add: cell_update)
  have "reachable_past hm (ix[p := EMPTY]) {p}"
    unfolding reachable_past_def
  proof (intro allI impI)
    fix q q'
    assume q: "q < INDEX" "cell (ix[p := EMPTY]) q \<noteq> EMPTY" and q': "q' < INDEX" "q' \<notin> {p}"
      and d: "dist (hm (cell (ix[p := EMPTY]) q)) q' < dist (hm (cell (ix[p := EMPTY]) q)) q"
    have e: "cell (ix[p := EMPTY]) q = cell ix q" "cell ix q \<noteq> EMPTY" using q(2) by (simp_all add: c split: if_splits)
    have "cell ix q' \<noteq> EMPTY" by (rule reachable_pastD [OF r q(1) e(2) q'(1) _ d [unfolded e(1)]]) simp
    then show "cell (ix[p := EMPTY]) q' \<noteq> EMPTY" using q'(2) by (simp add: c)
  qed
  moreover have "dist p p < dist p q" if "q < INDEX" "cell (ix[p := EMPTY]) q \<noteq> EMPTY" for q
    using that dist_zero [OF p that(1)] by (auto simp: c)
  ultimately show ?thesis using p c unfolding hole_ok_def by simp
qed

lemma shift_index_ok:
  assumes ok: "index_ok d sl ix S" and sl: "length sl = MAX_FLOWS" and p: "p < INDEX" "cell ix p \<noteq> EMPTY"
  shows "\<exists>ix'. shift_from d sl (ix[p := EMPTY]) p p = Some ix' \<and> index_ok d sl ix' (S - {cell ix p})"
proof -
  let ?x = "ix[p := EMPTY]" and ?S = "S - {cell ix p}"
  note h = index_okD(1) [OF ok]
  have ids: "holds_ids ?x ?S" by (rule holds_ids_drop [OF h p])
  have fin: "finite ?S" and crd: "card ?S \<le> MAX_FLOWS"
    using index_okD(3,4) [OF ok] card_Diff1_le [of S "cell ix p"] by (auto intro: order_trans)
  have live: "\<And>k. k \<in> ?S \<Longrightarrow> slab_get sl k \<noteq> None" using index_okD(5) [OF ok] by blast
  obtain e where e: "e < INDEX" "cell ?x e = EMPTY" "e \<notin> {p}" by (rule empty_place [OF ids crd fin, of "{p}"]) simp_all
  have ho: "hole_ok (home_of d sl) ?x p p" by (rule hole_start [OF index_okD(2) [OF ok] p(1) holds_idsD(1) [OF h]])
  have "\<exists>ix'. shift_from d sl ?x p p = Some ix' \<and> holds_ids ix' ?S \<and> reachable_past (home_of d sl) ix' {}"
    by (rule shift_from_ends [OF live sl ho ids e(1,2)]) (use e(3) in simp_all)
  then show ?thesis using fin crd live unfolding index_ok_def by blast
qed

end
