(* ===== verification/FlowTally.thy ===== *)
theory FlowTally
  imports FlowProbe
begin

text \<open>
  The per-slot counts of the connection table: the list sorted by slot is the exact count function, and
  counting up or down changes one value of it.
\<close>

section \<open>The sorted list\<close>

text \<open>\<open>bs\<close> lists the slots with a positive count, in order.\<close>

definition tally_ok :: "(u16 \<times> u16) list \<Rightarrow> (u16 \<Rightarrow> nat) \<Rightarrow> bool" where
  "tally_ok bs cnt \<longleftrightarrow> sorted_wrt (<) (map fst bs) \<and>
     (\<forall>e \<in> set bs. 0 < cnt (fst e) \<and> unat (snd e) = cnt (fst e)) \<and> (\<forall>s. 0 < cnt s \<longrightarrow> s \<in> fst ` set bs)"

lemma tally_okD:
  assumes "tally_ok bs cnt"
  shows "sorted_wrt (<) (map fst bs)" "e \<in> set bs \<Longrightarrow> 0 < cnt (fst e)" "e \<in> set bs \<Longrightarrow> unat (snd e) = cnt (fst e)"
    "0 < cnt s \<Longrightarrow> s \<in> fst ` set bs"
  using assms unfolding tally_ok_def by blast+

lemma tally_ok_distinct: "tally_ok bs cnt \<Longrightarrow> distinct (map fst bs)"
  using strict_sorted_iff [of "map fst bs"] tally_okD(1) by blast

lemma tally_ok_slots: "tally_ok bs cnt \<Longrightarrow> set (map fst bs) = {s. 0 < cnt s}"
  unfolding tally_ok_def by auto

lemma slot_search_found:
  assumes "slot_search bs s = Inr i"
  shows "i < length bs" "fst (bs ! i) = s"
  using assms position_eq_SomeD [of "\<lambda>e. fst e = s" bs i] unfolding slot_search_def
  by (simp_all split: option.splits)

lemma slot_search_absent:
  assumes "slot_search bs s = Inl i"
  shows "s \<notin> fst ` set bs" "i = length (takeWhile (\<lambda>e. fst e < s) bs)"
  using assms position_eq_None [of "\<lambda>e. fst e = s" bs] unfolding slot_search_def
  by (auto split: option.splits)

lemma count_tally_ok:
  assumes ok: "tally_ok (by_slot t) cnt"
  shows "FlowTable_count t s = cnt s"
proof (cases "slot_search (by_slot t) s")
  case (Inr i)
  note f = slot_search_found [OF Inr]
  have "unat (snd (by_slot t ! i)) = cnt s" using tally_okD(3) [OF ok nth_mem [OF f(1)]] f(2) by simp
  then show ?thesis using Inr f(1) by (simp add: FlowTable_count_def list_get_def)
next
  case (Inl i)
  have "cnt s = 0" using slot_search_absent(1) [OF Inl] tally_okD(4) [OF ok, of s] by blast
  then show ?thesis using Inl by (simp add: FlowTable_count_def)
qed

section \<open>Changing one entry\<close>

lemma tally_ok_set:
  assumes ok: "tally_ok bs cnt" and i: "i < length bs" and v: "0 < unat v"
  shows "tally_ok (bs[i := (fst (bs ! i), v)]) (cnt(fst (bs ! i) := unat v))"
proof -
  let ?k = "fst (bs ! i)" and ?b = "bs[i := (fst (bs ! i), v)]"
  note d = tally_ok_distinct [OF ok]
  have m: "map fst ?b = map fst bs" using i by (simp add: map_update list_update_same_conv)
  have db: "distinct bs" using d by (simp add: distinct_map)
  have s: "set ?b = insert (?k, v) (set bs - {bs ! i})" by (rule set_update_distinct [OF db i])
  have other: "fst e \<noteq> ?k" if e: "e \<in> set bs" "e \<noteq> bs ! i" for e
    using d e nth_mem [OF i] by (meson distinct_map inj_onD)
  show ?thesis
    unfolding tally_ok_def
  proof (intro conjI ballI allI impI)
    show "sorted_wrt (<) (map fst ?b)" unfolding m by (rule tally_okD(1) [OF ok])
  next
    fix e
    assume "e \<in> set ?b"
    then have e: "e = (?k, v) \<or> e \<in> set bs \<and> e \<noteq> bs ! i" unfolding s by blast
    show "0 < (cnt(?k := unat v)) (fst e)" using e v other [of e] tally_okD(2) [OF ok, of e] by auto
    show "unat (snd e) = (cnt(?k := unat v)) (fst e)" using e other [of e] tally_okD(3) [OF ok, of e] by auto
  next
    fix k
    assume k: "0 < (cnt(?k := unat v)) k"
    have "k \<in> set (map fst bs)"
    proof (cases "k = ?k")
      case True
      then show ?thesis using i by simp
    next
      case False
      then show ?thesis using k tally_okD(4) [OF ok, of k] by simp
    qed
    then show "k \<in> fst ` set ?b" unfolding m [symmetric] by simp
  qed
qed

lemma tally_ok_delete:
  assumes ok: "tally_ok bs cnt" and i: "i < length bs"
  shows "tally_ok (take i bs @ drop (i + 1) bs) (cnt(fst (bs ! i) := 0))"
proof -
  let ?k = "fst (bs ! i)" and ?b = "take i bs @ drop (i + 1) bs"
  have split: "bs = take i bs @ bs ! i # drop (i + 1) bs" using id_take_nth_drop [OF i] by simp
  have st: "sorted_wrt (<) (map fst (take i bs) @ ?k # map fst (drop (i + 1) bs))"
    using tally_okD(1) [OF ok] split by (metis list.simps(9) map_append)
  have srt: "sorted_wrt (<) (map fst ?b)" using st by (simp add: sorted_wrt_append)
  have nk: "?k \<notin> fst ` set ?b" using st by (auto simp: sorted_wrt_append)
  have s: "set bs = insert (bs ! i) (set ?b)" by (subst split) simp
  show ?thesis
    unfolding tally_ok_def
  proof (intro conjI ballI allI impI)
    show "sorted_wrt (<) (map fst ?b)" by (rule srt)
  next
    fix e
    assume e: "e \<in> set ?b"
    then have ne: "fst e \<noteq> ?k" and eb: "e \<in> set bs" using nk s by (metis imageI) (use e s in blast)
    show "0 < (cnt(?k := 0)) (fst e)" "unat (snd e) = (cnt(?k := 0)) (fst e)"
      using ne tally_okD(2,3) [OF ok eb] by simp_all
  next
    fix k
    assume k: "0 < (cnt(?k := 0)) k"
    then have "k \<noteq> ?k" "0 < cnt k" by (auto split: if_splits)
    then show "k \<in> fst ` set ?b" using tally_okD(4) [OF ok, of k] s by auto
  qed
qed

lemma tally_ok_insert:
  assumes ok: "tally_ok bs cnt" and s: "s \<notin> fst ` set bs" and i: "i = length (takeWhile (\<lambda>e. fst e < s) bs)"
    and v: "unat v = 1"
  shows "tally_ok (take i bs @ (s, v) # drop i bs) (cnt(s := 1))"
proof -
  let ?b = "take i bs @ (s, v) # drop i bs"
  have tk: "take i bs = takeWhile (\<lambda>e. fst e < s) bs" unfolding i by (rule takeWhile_eq_take [symmetric])
  have dr: "drop i bs = dropWhile (\<lambda>e. fst e < s) bs" unfolding i by (rule dropWhile_eq_drop [symmetric])
  have srt: "sorted_wrt (<) (map fst (take i bs) @ map fst (drop i bs))"
    using tally_okD(1) [OF ok] by (simp flip: map_append)
  have below: "\<forall>x \<in> set (map fst (take i bs)). x < s" unfolding tk by (auto dest: set_takeWhileD)
  have above: "\<forall>x \<in> set (map fst (drop i bs)). s < x"
  proof (cases "drop i bs")
    case Nil
    then show ?thesis by simp
  next
    case (Cons e r)
    then have "\<not> fst e < s" using hd_dropWhile [of "\<lambda>e. fst e < s" bs] unfolding dr by simp
    moreover have "e \<in> set bs" using Cons in_set_dropD [of e i bs] by simp
    ultimately have "s < fst e" using s by (metis imageI linorder_less_linear)
    moreover have "\<forall>x \<in> set (map fst r). fst e < x" using srt Cons by (auto simp: sorted_wrt_append)
    ultimately show ?thesis using Cons by auto
  qed
  have sb: "set ?b = insert (s, v) (set bs)" by (subst (3) append_take_drop_id [of i bs, symmetric]) (simp del: append_take_drop_id)
  show ?thesis
    unfolding tally_ok_def
  proof (intro conjI ballI allI impI)
    show "sorted_wrt (<) (map fst ?b)" using srt below above by (auto simp: sorted_wrt_append)
  next
    fix e
    assume "e \<in> set ?b"
    then have e: "e = (s, v) \<or> e \<in> set bs \<and> fst e \<noteq> s" using s unfolding sb by auto
    show "0 < (cnt(s := 1)) (fst e)" "unat (snd e) = (cnt(s := 1)) (fst e)"
      using e v tally_okD(2,3) [OF ok, of e] by auto
  next
    fix k
    assume "0 < (cnt(s := 1)) k"
    then show "k \<in> fst ` set ?b" using tally_okD(4) [OF ok, of k] unfolding sb by (auto split: if_splits)
  qed
qed

section \<open>Counting\<close>

lemma tally_counts_up:
  assumes ok: "tally_ok (by_slot t) cnt" and room: "length (by_slot t) < by_cap t" and b: "cnt s + 1 < 2 ^ 16"
  shows "\<exists>bs. tally t s True = Inr (t\<lparr>by_slot := bs\<rparr>) \<and> tally_ok bs (cnt(s := cnt s + 1))"
proof (cases "slot_search (by_slot t) s")
  case (Inr i)
  note f = slot_search_found [OF Inr]
  obtain n where n: "by_slot t ! i = (s, n)" using f(2) by (metis prod.collapse)
  have un: "unat n = cnt s" using tally_okD(3) [OF ok nth_mem [OF f(1)]] n by simp
  have u1: "unat (n + 1) = cnt s + 1" using un b unat_add_exact [of n 1] by simp
  show ?thesis
    using tally_ok_set [OF ok f(1), of "n + 1"] Inr f(1) n un u1 b by (auto simp: tally_def list_get_def)
next
  case (Inl i)
  note a = slot_search_absent [OF Inl]
  have z: "cnt s = 0" using a(1) tally_okD(4) [OF ok, of s] by blast
  show ?thesis
    using tally_ok_insert [OF ok a, of 1] Inl room z by (auto simp: tally_def)
qed

lemma tally_counts_down:
  assumes ok: "tally_ok (by_slot t) cnt" and p: "0 < cnt s"
  shows "\<exists>bs. tally t s False = Inr (t\<lparr>by_slot := bs\<rparr>) \<and> tally_ok bs (cnt(s := cnt s - 1))"
proof (cases "slot_search (by_slot t) s")
  case (Inr i)
  note f = slot_search_found [OF Inr]
  obtain n where n: "by_slot t ! i = (s, n)" using f(2) by (metis prod.collapse)
  have un: "unat n = cnt s" using tally_okD(3) [OF ok nth_mem [OF f(1)]] n by simp
  show ?thesis
  proof (cases "n \<le> 1")
    case True
    then have "cnt s = 1" using un p by (simp add: word_le_nat_alt)
    then show ?thesis
      using tally_ok_delete [OF ok f(1)] Inr f(1) n True by (auto simp: tally_def list_get_def)
  next
    case False
    then have u1: "unat (n - 1) = cnt s - 1" "0 < unat (n - 1)"
      using un unat_sub [of 1 n] by (simp_all add: word_le_nat_alt)
    show ?thesis
      using tally_ok_set [OF ok f(1) u1(2)] Inr f(1) n u1(1) False by (auto simp: tally_def list_get_def)
  qed
next
  case (Inl i)
  then show ?thesis using slot_search_absent(1) [OF Inl] tally_okD(4) [OF ok p] by blast
qed

end
