(* ===== verification/FlowSafe.thy ===== *)
theory FlowSafe
  imports FlowTally
begin

text \<open>
  The invariant of the connection table and the effect of its operations on the partial map from flow
  numbers to flows that it represents.
\<close>

section \<open>The invariant\<close>

definition live :: "Flow option list \<Rightarrow> u16 set" where
  "live sl = {i. slab_get sl i \<noteq> None}"

definition slot_flows :: "Flow option list \<Rightarrow> u16 \<Rightarrow> nat" where
  "slot_flows sl s = card {i. \<exists>f. slab_get sl i = Some f \<and> fslot f = s}"

definition free_ok :: "u16 list \<Rightarrow> Flow option list \<Rightarrow> bool" where
  "free_ok fr sl \<longleftrightarrow> distinct fr \<and> set fr = {i. unat i < MAX_FLOWS} - live sl"

definition keys_apart :: "Flow option list \<Rightarrow> (Flow \<Rightarrow> 'k) \<Rightarrow> bool" where
  "keys_apart sl kf \<longleftrightarrow> (\<forall>i j f g. slab_get sl i = Some f \<longrightarrow> slab_get sl j = Some g \<longrightarrow> kf f = kf g \<longrightarrow> i = j)"

definition flow_inv :: "FlowTable \<Rightarrow> bool" where
  "flow_inv t \<longleftrightarrow> length (slab t) = MAX_FLOWS \<and> free_ok (ffree t) (slab t) \<and> flen t = card (live (slab t)) \<and>
     index_ok Fwd (slab t) (fwd t) (live (slab t)) \<and> index_ok Rev (slab t) (rev_ix t) (live (slab t)) \<and>
     keys_apart (slab t) fkey \<and> keys_apart (slab t) rkey \<and>
     tally_ok (by_slot t) (slot_flows (slab t)) \<and> MAX_FLOWS \<le> by_cap t"

lemma flow_invD:
  assumes "flow_inv t"
  shows "length (slab t) = MAX_FLOWS" "free_ok (ffree t) (slab t)" "flen t = card (live (slab t))"
    "index_ok Fwd (slab t) (fwd t) (live (slab t))" "index_ok Rev (slab t) (rev_ix t) (live (slab t))"
    "keys_apart (slab t) fkey" "keys_apart (slab t) rkey"
    "tally_ok (by_slot t) (slot_flows (slab t))" "MAX_FLOWS \<le> by_cap t"
  using assms unfolding flow_inv_def by blast+

section \<open>The slab\<close>

lemma slab_get_update: "slab_get (sl[unat i := v]) j = (if j = i \<and> unat i < length sl then v else slab_get sl j)"
  by (auto simp: slab_get_def list_get_def word_unat_eq_iff)

lemma slab_get_range: "slab_get sl i \<noteq> None \<Longrightarrow> unat i < length sl"
  by (auto simp: slab_get_def list_get_def split: if_splits)

lemma live_range: "length sl = MAX_FLOWS \<Longrightarrow> live sl \<subseteq> {i. unat i < MAX_FLOWS}"
  unfolding live_def using slab_get_range by fastforce

lemma numbers_card: "card {i :: u16. unat i < MAX_FLOWS} = MAX_FLOWS" "finite {i :: u16. unat i < MAX_FLOWS}"
proof -
  have e: "unat ` {i :: u16. unat i < MAX_FLOWS} = {..<MAX_FLOWS}"
  proof (rule set_eqI)
    fix n
    show "n \<in> unat ` {i :: u16. unat i < MAX_FLOWS} \<longleftrightarrow> n \<in> {..<MAX_FLOWS}"
    proof
      assume "n \<in> {..<MAX_FLOWS}"
      then have n: "unat (word_of_nat n :: u16) = n" "n < MAX_FLOWS"
        by (simp_all add: MAX_FLOWS_def unat_of_nat take_bit_nat_eq_self)
      then show "n \<in> unat ` {i :: u16. unat i < MAX_FLOWS}" by (metis (mono_tags) imageI mem_Collect_eq)
    qed auto
  qed
  have i: "inj_on unat {i :: u16. unat i < MAX_FLOWS}" by (rule inj_onI) (simp add: word_unat_eq_iff)
  show "card {i :: u16. unat i < MAX_FLOWS} = MAX_FLOWS" using card_image [OF i] e by simp
  show "finite {i :: u16. unat i < MAX_FLOWS}" by simp
qed

lemma free_count:
  assumes l: "length sl = MAX_FLOWS" and f: "free_ok fr sl"
  shows "length fr + card (live sl) = MAX_FLOWS"
proof -
  have "length fr = card (set fr)" using f distinct_card unfolding free_ok_def by metis
  also have "\<dots> = MAX_FLOWS - card (live sl)"
    using f card_Diff_subset [OF _ live_range [OF l]] numbers_card finite_subset [OF live_range [OF l]] unfolding free_ok_def
    by simp
  finally show ?thesis using card_mono [OF numbers_card(2) live_range [OF l]] numbers_card(1) by simp
qed

lemma EMPTY_out_of_range: "unat i < MAX_FLOWS \<Longrightarrow> i \<noteq> EMPTY"
  using unat_EMPTY by (auto simp: MAX_FLOWS_def)

lemma live_update:
  assumes "unat i < length sl"
  shows "live (sl[unat i := Some f]) = insert i (live sl)" "live (sl[unat i := None]) = live sl - {i}"
  using assms by (auto simp: live_def slab_get_update split: if_splits)

lemma slot_flows_add:
  assumes i: "unat i < length sl" "slab_get sl i = None"
  shows "slot_flows (sl[unat i := Some f]) = (slot_flows sl)(fslot f := slot_flows sl (fslot f) + 1)"
proof
  fix s
  let ?A = "{j. \<exists>g. slab_get sl j = Some g \<and> fslot g = s}"
  have e: "{j. \<exists>g. slab_get (sl[unat i := Some f]) j = Some g \<and> fslot g = s} = (if fslot f = s then insert i ?A else ?A)"
    using i by (auto simp: slab_get_update)
  have "card (insert i ?A) = card ?A + 1" using i(2) by (subst card_insert_disjoint) auto
  then show "slot_flows (sl[unat i := Some f]) s = ((slot_flows sl)(fslot f := slot_flows sl (fslot f) + 1)) s"
    unfolding slot_flows_def e by auto
qed

lemma slot_flows_del:
  assumes i: "slab_get sl i = Some f"
  shows "slot_flows (sl[unat i := None]) = (slot_flows sl)(fslot f := slot_flows sl (fslot f) - 1)"
    "0 < slot_flows sl (fslot f)"
proof -
  have l: "unat i < length sl" by (rule slab_get_range) (use i in simp)
  show "slot_flows (sl[unat i := None]) = (slot_flows sl)(fslot f := slot_flows sl (fslot f) - 1)"
  proof
    fix s
    let ?A = "{j. \<exists>g. slab_get sl j = Some g \<and> fslot g = s}"
    have e: "{j. \<exists>g. slab_get (sl[unat i := None]) j = Some g \<and> fslot g = s} = ?A - {i}"
      using l by (auto simp: slab_get_update split: if_splits)
    show "slot_flows (sl[unat i := None]) s = ((slot_flows sl)(fslot f := slot_flows sl (fslot f) - 1)) s"
      unfolding slot_flows_def e using i by (auto simp: card_Diff_singleton_if)
  qed
  have "i \<in> {j. \<exists>g. slab_get sl j = Some g \<and> fslot g = fslot f}" using i by simp
  then show "0 < slot_flows sl (fslot f)" unfolding slot_flows_def by (subst card_gt_0_iff) auto
qed

lemma slot_flows_le: "slot_flows sl s \<le> card (live sl)"
  unfolding slot_flows_def live_def by (rule card_mono) auto

lemma by_slot_room:
  assumes "flow_inv t"
  shows "length (by_slot t) \<le> card (live (slab t))"
proof -
  note ok = flow_invD(8) [OF assms]
  have "length (by_slot t) = card {s. 0 < slot_flows (slab t) s}"
    using distinct_card [OF tally_ok_distinct [OF ok]] tally_ok_slots [OF ok] by simp
  also have "\<dots> \<le> card ((\<lambda>i. fslot (the (slab_get (slab t) i))) ` live (slab t))"
  proof (rule card_mono)
    show "{s. 0 < slot_flows (slab t) s} \<subseteq> (\<lambda>i. fslot (the (slab_get (slab t) i))) ` live (slab t)"
    proof
      fix s
      assume "s \<in> {s. 0 < slot_flows (slab t) s}"
      then have "{i. \<exists>f. slab_get (slab t) i = Some f \<and> fslot f = s} \<noteq> {}"
        unfolding slot_flows_def mem_Collect_eq card_gt_0_iff by (rule conjunct1)
      then obtain i f where f: "slab_get (slab t) i = Some f" "fslot f = s" by blast
      show "s \<in> (\<lambda>i. fslot (the (slab_get (slab t) i))) ` live (slab t)"
        by (rule image_eqI [of _ _ i]) (use f in \<open>simp_all add: live_def\<close>)
    qed
  qed simp
  also have "\<dots> \<le> card (live (slab t))" by (rule card_image_le) simp
  finally show ?thesis .
qed

section \<open>Searching\<close>

lemma cell_get: "p < length ix \<Longrightarrow> list_get ix p = Some (cell ix p)"
  by (simp add: cell_def list_get_def)

text \<open>The place where a key is, or where it would be entered.\<close>

lemma fpos_cases:
  assumes inv: "flow_inv t"
  obtains (found) p f where "fpos t k = Some (Inr p)" "p < INDEX" "slab_get (slab t) (cell (fwd t) p) = Some f" "fkey f = k"
  | (absent) p where "fpos t k = Some (Inl p)" "p < INDEX" "cell (fwd t) p = EMPTY" "full_run (fwd t) (home (FKey_hash k)) p"
      "\<And>i f. slab_get (slab t) i = Some f \<Longrightarrow> fkey f \<noteq> k"
proof -
  obtain r where r: "fpos t k = Some r" and c: "case r of
       Inr p \<Rightarrow> p < INDEX \<and> cell (fwd t) p \<in> live (slab t) \<and> fwd_keyed.has_key (slab t) k (cell (fwd t) p)
     | Inl p \<Rightarrow> p < INDEX \<and> cell (fwd t) p = EMPTY \<and> full_run (fwd t) (home (FKey_hash k)) p \<and>
         (\<forall>i \<in> live (slab t). \<not> fwd_keyed.has_key (slab t) k i)"
    using fwd_keyed.probe_cases [OF flow_invD(4) [OF inv], of k] unfolding fpos_def pos_def dir_index.simps by blast
  show thesis
  proof (cases r)
    case (Inr p)
    then obtain f where "p < INDEX" "slab_get (slab t) (cell (fwd t) p) = Some f" "fkey f = k"
      using c unfolding fwd_keyed.has_key_Some by auto
    then show thesis using found r Inr by simp
  next
    case (Inl p)
    then have p: "p < INDEX" "cell (fwd t) p = EMPTY" "full_run (fwd t) (home (FKey_hash k)) p"
      and no: "\<forall>i \<in> live (slab t). \<not> fwd_keyed.has_key (slab t) k i" using c by simp_all
    have "fkey f \<noteq> k" if "slab_get (slab t) i = Some f" for i f
      using no that unfolding fwd_keyed.has_key_Some live_def by auto
    then show thesis using absent r Inl p by simp
  qed
qed

lemma rpos_cases:
  assumes ix: "index_ok Rev (slab t) (rev_ix t) (live (slab t))"
  obtains (found) p f where "rpos t k = Some (Inr p)" "p < INDEX" "slab_get (slab t) (cell (rev_ix t) p) = Some f" "rkey f = k"
  | (absent) p where "rpos t k = Some (Inl p)" "p < INDEX" "cell (rev_ix t) p = EMPTY" "full_run (rev_ix t) (home (RKey_hash k)) p"
      "\<And>i f. slab_get (slab t) i = Some f \<Longrightarrow> rkey f \<noteq> k"
proof -
  obtain r where r: "rpos t k = Some r" and c: "case r of
       Inr p \<Rightarrow> p < INDEX \<and> cell (rev_ix t) p \<in> live (slab t) \<and> rev_keyed.has_key (slab t) k (cell (rev_ix t) p)
     | Inl p \<Rightarrow> p < INDEX \<and> cell (rev_ix t) p = EMPTY \<and> full_run (rev_ix t) (home (RKey_hash k)) p \<and>
         (\<forall>i \<in> live (slab t). \<not> rev_keyed.has_key (slab t) k i)"
    using rev_keyed.probe_cases [OF ix, of k] unfolding rpos_def pos_def dir_index.simps by blast
  show thesis
  proof (cases r)
    case (Inr p)
    then obtain f where "p < INDEX" "slab_get (slab t) (cell (rev_ix t) p) = Some f" "rkey f = k"
      using c unfolding rev_keyed.has_key_Some by auto
    then show thesis using found r Inr by simp
  next
    case (Inl p)
    then have p: "p < INDEX" "cell (rev_ix t) p = EMPTY" "full_run (rev_ix t) (home (RKey_hash k)) p"
      and no: "\<forall>i \<in> live (slab t). \<not> rev_keyed.has_key (slab t) k i" using c by simp_all
    have "rkey f \<noteq> k" if "slab_get (slab t) i = Some f" for i f
      using no that unfolding rev_keyed.has_key_Some live_def by auto
    then show thesis using absent r Inl p by simp
  qed
qed

lemma index_length: "index_ok d sl ix S \<Longrightarrow> length ix = INDEX"
  by (rule holds_idsD(1) [OF index_okD(1)])

lemma keys_apartD:
  "keys_apart sl kf \<Longrightarrow> slab_get sl i = Some f \<Longrightarrow> slab_get sl j = Some g \<Longrightarrow> kf f = kf g \<Longrightarrow> i = j"
  unfolding keys_apart_def by blast

lemma found_iff:
  assumes ka: "keys_apart sl kf" and c: "slab_get sl c = Some f" "kf f = k"
  shows "Some c = Some i \<longleftrightarrow> (\<exists>g. slab_get sl i = Some g \<and> kf g = k)"
proof
  assume "Some c = Some i"
  then show "\<exists>g. slab_get sl i = Some g \<and> kf g = k" using c by simp
next
  assume "\<exists>g. slab_get sl i = Some g \<and> kf g = k"
  then obtain g where "slab_get sl i = Some g" "kf g = k" by blast
  then show "Some c = Some i" using keys_apartD [OF ka c(1)] c(2) by simp
qed

lemma by_fwd_total:
  assumes inv: "flow_inv t"
  shows "\<exists>r. by_fwd t k = ret r \<and> (\<forall>i. r = Some i \<longleftrightarrow> (\<exists>f. FlowTable_get t i = Some f \<and> fkey f = k))"
  using inv
proof (cases rule: fpos_cases [where k = k])
  case (found p f)
  have g: "list_get (fwd t) p = Some (cell (fwd t) p)"
    by (rule cell_get) (use found(2) index_length [OF flow_invD(4) [OF inv]] in simp)
  have b: "by_fwd t k = ret (Some (cell (fwd t) p))" using found(1) g by (simp add: by_fwd_def ret_def)
  show ?thesis
    unfolding FlowTable_get_def by (intro exI conjI allI, rule b) (rule found_iff [OF flow_invD(6) [OF inv] found(3,4)])
next
  case (absent p)
  have b: "by_fwd t k = ret None" using absent(1) by (simp add: by_fwd_def ret_def)
  show ?thesis
    unfolding FlowTable_get_def by (intro exI conjI allI, rule b) (use absent(5) in simp)
qed

lemma by_rev_total:
  assumes inv: "flow_inv t"
  shows "\<exists>r. by_rev t k = ret r \<and> (\<forall>i. r = Some i \<longleftrightarrow> (\<exists>f. FlowTable_get t i = Some f \<and> rkey f = k))"
  using flow_invD(5) [OF inv]
proof (cases rule: rpos_cases [where k = k])
  case (found p f)
  have g: "list_get (rev_ix t) p = Some (cell (rev_ix t) p)"
    by (rule cell_get) (use found(2) index_length [OF flow_invD(5) [OF inv]] in simp)
  have b: "by_rev t k = ret (Some (cell (rev_ix t) p))" using found(1) g by (simp add: by_rev_def ret_def)
  show ?thesis
    unfolding FlowTable_get_def by (intro exI conjI allI, rule b) (rule found_iff [OF flow_invD(7) [OF inv] found(3,4)])
next
  case (absent p)
  have b: "by_rev t k = ret None" using absent(1) by (simp add: by_rev_def ret_def)
  show ?thesis
    unfolding FlowTable_get_def by (intro exI conjI allI, rule b) (use absent(5) in simp)
qed

end
