(* ===== verification/FlowOps.thy ===== *)
theory FlowOps
  imports FlowSafe
begin

text \<open>The operations of the connection table keep its invariant, return, and never abort.\<close>

section \<open>An index and a changed slab\<close>

lemma index_ok_slab:
  assumes ok: "index_ok d sl ix S"
    and same: "\<And>k. k \<in> S \<Longrightarrow> slab_get sl' k \<noteq> None \<and> home_of d sl' k = home_of d sl k"
  shows "index_ok d sl' ix S"
proof -
  have "reachable_past (home_of d sl') ix {}"
  proof (rule reachable_cong [OF index_okD(2) [OF ok]])
    fix p
    assume "p < INDEX" "cell ix p \<noteq> EMPTY"
    then have "cell ix p \<in> S" using holds_idsD(3) [OF index_okD(1) [OF ok]] by blast
    then show "home_of d sl' (cell ix p) = home_of d sl (cell ix p)" using same by blast
  qed
  then show ?thesis using index_okD(1,3,4) [OF ok] same unfolding index_ok_def by blast
qed

lemma home_of_update:
  assumes "unat i < length sl"
  shows "k \<noteq> i \<Longrightarrow> home_of d (sl[unat i := v]) k = home_of d sl k"
    "home_of d (sl[unat i := Some f]) i = home (Flow_hash f d)"
  using assms by (simp_all add: home_of_def slab_get_update)

lemma index_ok_add:
  assumes ok: "index_ok d sl ix S" and i: "i \<notin> S" "unat i < MAX_FLOWS" and l: "length sl = MAX_FLOWS" and c: "card S < MAX_FLOWS"
    and p: "p < INDEX" "cell ix p = EMPTY" "full_run ix (home (Flow_hash fl d)) p"
  shows "index_ok d (sl[unat i := Some fl]) (ix[p := i]) (insert i S)"
proof -
  let ?sl = "sl[unat i := Some fl]"
  note h = index_okD(1) [OF ok]
  have il: "unat i < length sl" using i(2) l by simp
  have ne: "i \<noteq> EMPTY" by (rule EMPTY_out_of_range [OF i(2)])
  have k: "k \<noteq> i" if "k \<in> S" for k using that i(1) by blast
  have ok': "index_ok d ?sl ix S"
  proof (rule index_ok_slab [OF ok], rule conjI)
    fix k
    assume kS: "k \<in> S"
    show "slab_get ?sl k \<noteq> None" using index_okD(5) [OF ok kS] k [OF kS] by (simp add: slab_get_update)
    show "home_of d ?sl k = home_of d sl k" by (rule home_of_update(1) [OF il k [OF kS]])
  qed
  have "holds_ids (ix[p := i]) (insert i S)" by (rule holds_ids_add [OF h p(1,2) i(1) ne])
  moreover have "reachable_past (home_of d ?sl) (ix[p := i]) {}"
    by (rule reachable_add [OF index_okD(2) [OF ok'] holds_idsD(1) [OF h] p(1,2) ne])
      (use p(3) home_of_update(2) [OF il] in simp)
  moreover have "card (insert i S) \<le> MAX_FLOWS" using c card_insert_le_m1 [of "MAX_FLOWS" S i] by (simp add: MAX_FLOWS_def)
  moreover have "slab_get ?sl k \<noteq> None" if "k \<in> insert i S" for k
    using that il index_okD(5) [OF ok', of k] by (cases "k = i") (simp_all add: slab_get_update)
  ultimately show ?thesis using index_okD(3) [OF ok] unfolding index_ok_def by blast
qed

lemma keys_apart_add:
  fixes i :: u16
  assumes ka: "keys_apart sl kf" and i: "unat i < length sl" and new: "\<And>j f. slab_get sl j = Some f \<Longrightarrow> kf f \<noteq> kf fl"
  shows "keys_apart (sl[unat i := Some fl]) kf"
  unfolding keys_apart_def
proof (intro allI impI)
  fix j k f g
  assume a: "slab_get (sl[unat i := Some fl]) j = Some f" "slab_get (sl[unat i := Some fl]) k = Some g" "kf f = kf g"
  show "j = k"
    using a i new [of j f] new [of k g] keys_apartD [OF ka, of j f k g] by (auto simp: slab_get_update split: if_splits)
qed

lemma keys_apart_del:
  fixes i :: u16
  assumes ka: "keys_apart sl kf" and i: "unat i < length sl"
  shows "keys_apart (sl[unat i := None]) kf"
  unfolding keys_apart_def
proof (intro allI impI)
  fix j k f g
  assume a: "slab_get (sl[unat i := None]) j = Some f" "slab_get (sl[unat i := None]) k = Some g" "kf f = kf g"
  show "j = k"
    using a i keys_apartD [OF ka, of j f k g] by (simp add: slab_get_update split: if_splits)
qed

section \<open>Insertion\<close>

lemma free_last:
  assumes f: "free_ok fr sl" and ne: "fr \<noteq> []" and l: "length sl = MAX_FLOWS"
  shows "unat (last fr) < MAX_FLOWS" "slab_get sl (last fr) = None" "free_ok (butlast fr) (sl[unat (last fr) := Some fl])"
proof -
  let ?i = "last fr"
  have "?i \<in> set fr" using ne by simp
  then show r: "unat ?i < MAX_FLOWS" and n: "slab_get sl ?i = None" using f unfolding free_ok_def live_def by auto
  have e: "fr = butlast fr @ [?i]" using ne by simp
  have d: "distinct (butlast fr @ [?i])" using f e unfolding free_ok_def by simp
  have s: "set fr = insert ?i (set (butlast fr))" by (subst e) simp
  have b: "set (butlast fr) = set fr - {?i}" unfolding s using d by auto
  have "set (butlast fr) = {i. unat i < MAX_FLOWS} - live (sl[unat ?i := Some fl])"
    using b f r l live_update(1) [of ?i sl fl] unfolding free_ok_def by auto
  then show "free_ok (butlast fr) (sl[unat ?i := Some fl])" using d unfolding free_ok_def by simp
qed

lemma insert_entered:
  assumes inv: "flow_inv t" and ne: "ffree t \<noteq> []"
    and fp: "fpos t (fkey fl) = Some (Inl fp)" "fp < INDEX" "cell (fwd t) fp = EMPTY" "full_run (fwd t) (home (FKey_hash (fkey fl))) fp"
    and rp: "rpos t (rkey fl) = Some (Inl rp)" "rp < INDEX" "cell (rev_ix t) rp = EMPTY" "full_run (rev_ix t) (home (RKey_hash (rkey fl))) rp"
    and fn: "\<And>i f. slab_get (slab t) i = Some f \<Longrightarrow> fkey f \<noteq> fkey fl" and rn: "\<And>i f. slab_get (slab t) i = Some f \<Longrightarrow> rkey f \<noteq> rkey fl"
  shows "\<exists>t'. FlowTable_insert t fl = ret (Some (last (ffree t)), t') \<and> flow_inv t' \<and> slab t' = (slab t)[unat (last (ffree t)) := Some fl]"
proof -
  let ?i = "last (ffree t)" and ?sl = "(slab t)[unat (last (ffree t)) := Some fl]"
  note l = flow_invD(1) [OF inv]
  note fl = free_last [OF flow_invD(2) [OF inv] ne l]
  have il: "unat ?i < length (slab t)" using fl(1) l by simp
  have "length (ffree t) > 0" using ne by simp
  then have c: "card (live (slab t)) < MAX_FLOWS" using free_count [OF l flow_invD(2) [OF inv]] by linarith
  have nl: "?i \<notin> live (slab t)" using fl(2) by (simp add: live_def)
  have f': "index_ok Fwd ?sl ((fwd t)[fp := ?i]) (insert ?i (live (slab t)))"
    by (rule index_ok_add [OF flow_invD(4) [OF inv] nl fl(1) l c fp(2,3)]) (use fp(4) in simp)
  have r': "index_ok Rev ?sl ((rev_ix t)[rp := ?i]) (insert ?i (live (slab t)))"
    by (rule index_ok_add [OF flow_invD(5) [OF inv] nl fl(1) l c rp(2,3)]) (use rp(4) in simp)
  define t4 where "t4 = t\<lparr>ffree := butlast (ffree t), slab := ?sl, fwd := (fwd t)[fp := ?i], rev_ix := (rev_ix t)[rp := ?i], flen := flen t + 1\<rparr>"
  have bt: "tally_ok (by_slot t4) (slot_flows (slab t))" using flow_invD(8) [OF inv] by (simp add: t4_def)
  have room: "length (by_slot t4) < by_cap t4" using by_slot_room [OF inv] c flow_invD(9) [OF inv] by (simp add: t4_def)
  have small: "slot_flows (slab t) (fslot fl) + 1 < 2 ^ 16"
    using slot_flows_le [of "slab t" "fslot fl"] c by (simp add: MAX_FLOWS_def)
  obtain bs where bs: "tally t4 (fslot fl) True = Inr (t4\<lparr>by_slot := bs\<rparr>)"
    "tally_ok bs ((slot_flows (slab t))(fslot fl := slot_flows (slab t) (fslot fl) + 1))"
    using tally_counts_up [OF bt room small] by blast
  have ins: "FlowTable_insert t fl = ret (Some ?i, t4\<lparr>by_slot := bs\<rparr>)"
    using fp(1,2) rp(1,2) ne il bs(1) index_length [OF flow_invD(4) [OF inv]] index_length [OF flow_invD(5) [OF inv]]
    by (simp add: FlowTable_insert_def Let_def lift_run_def t4_def ret_def)
  have "flow_inv (t4\<lparr>by_slot := bs\<rparr>)"
    unfolding flow_inv_def
  proof (intro conjI)
    show "length (slab (t4\<lparr>by_slot := bs\<rparr>)) = MAX_FLOWS" using l by (simp add: t4_def)
    show "free_ok (ffree (t4\<lparr>by_slot := bs\<rparr>)) (slab (t4\<lparr>by_slot := bs\<rparr>))" using fl(3) by (simp add: t4_def)
    show "flen (t4\<lparr>by_slot := bs\<rparr>) = card (live (slab (t4\<lparr>by_slot := bs\<rparr>)))"
      using flow_invD(3) [OF inv] nl live_update(1) [OF il, of fl] by (simp add: t4_def)
    show "index_ok Fwd (slab (t4\<lparr>by_slot := bs\<rparr>)) (fwd (t4\<lparr>by_slot := bs\<rparr>)) (live (slab (t4\<lparr>by_slot := bs\<rparr>)))"
      using f' live_update(1) [OF il, of fl] by (simp add: t4_def)
    show "index_ok Rev (slab (t4\<lparr>by_slot := bs\<rparr>)) (rev_ix (t4\<lparr>by_slot := bs\<rparr>)) (live (slab (t4\<lparr>by_slot := bs\<rparr>)))"
      using r' live_update(1) [OF il, of fl] by (simp add: t4_def)
    show "keys_apart (slab (t4\<lparr>by_slot := bs\<rparr>)) fkey"
      using keys_apart_add [OF flow_invD(6) [OF inv] il fn] by (simp add: t4_def)
    show "keys_apart (slab (t4\<lparr>by_slot := bs\<rparr>)) rkey"
      using keys_apart_add [OF flow_invD(7) [OF inv] il rn] by (simp add: t4_def)
    show "tally_ok (by_slot (t4\<lparr>by_slot := bs\<rparr>)) (slot_flows (slab (t4\<lparr>by_slot := bs\<rparr>)))"
      using bs(2) slot_flows_add [OF il fl(2), of fl] by (simp add: t4_def)
    show "MAX_FLOWS \<le> by_cap (t4\<lparr>by_slot := bs\<rparr>)" using flow_invD(9) [OF inv] by (simp add: t4_def)
  qed
  then show ?thesis using ins by (intro exI [of _ "t4\<lparr>by_slot := bs\<rparr>"] conjI) (simp_all add: t4_def)
qed

lemma insert_cases:
  assumes inv: "flow_inv t"
  obtains (refused) "FlowTable_insert t fl = ret (None, t)"
      "flen t = MAX_FLOWS \<or> (\<exists>i f. FlowTable_get t i = Some f \<and> (fkey f = fkey fl \<or> rkey f = rkey fl))"
  | (entered) i t' where "FlowTable_insert t fl = ret (Some i, t')" "flow_inv t'" "FlowTable_get t i = None" "unat i < MAX_FLOWS"
      "slab t' = (slab t)[unat i := Some fl]" "flen t < MAX_FLOWS"
      "\<And>j f. FlowTable_get t j = Some f \<Longrightarrow> fkey f \<noteq> fkey fl \<and> rkey f \<noteq> rkey fl"
  using inv
proof (cases rule: fpos_cases [where k = "fkey fl"])
  case (found p f)
  show thesis by (rule refused) (use found in \<open>auto simp: FlowTable_insert_def FlowTable_get_def\<close>)
next
  case fp: (absent fp)
  show thesis using flow_invD(5) [OF inv]
  proof (cases rule: rpos_cases [where k = "rkey fl"])
    case (found p f)
    show thesis by (rule refused) (use fp(1) found in \<open>auto simp: FlowTable_insert_def FlowTable_get_def\<close>)
  next
    case rp: (absent rp)
    note fc = free_count [OF flow_invD(1,2) [OF inv]]
    show thesis
    proof (cases "ffree t = []")
      case True
      show thesis by (rule refused) (use fp(1) rp(1) True fc flow_invD(3) [OF inv] in \<open>simp_all add: FlowTable_insert_def\<close>)
    next
      case False
      note fl = free_last [OF flow_invD(2) [OF inv] False flow_invD(1) [OF inv]]
      obtain t' where t': "FlowTable_insert t fl = ret (Some (last (ffree t)), t')" "flow_inv t'"
        "slab t' = (slab t)[unat (last (ffree t)) := Some fl]"
        using insert_entered [OF inv False fp(1-4) rp(1-4)] fp(5) rp(5) by blast
      have "0 < length (ffree t)" using False by simp
      then have lt: "flen t < MAX_FLOWS" using fc flow_invD(3) [OF inv] by linarith
      show thesis
        by (rule entered [OF t'(1,2) _ fl(1) t'(3) lt]) (use fl(2) fp(5) rp(5) in \<open>auto simp: FlowTable_get_def\<close>)
    qed
  qed
qed

section \<open>Removal\<close>

lemma index_ok_del:
  assumes ok: "index_ok d sl ix (live sl - {i})" and i: "unat i < length sl"
  shows "index_ok d (sl[unat i := None]) ix (live sl - {i})"
proof (rule index_ok_slab [OF ok], rule conjI)
  fix k
  assume k: "k \<in> live sl - {i}"
  then show "slab_get (sl[unat i := None]) k \<noteq> None" by (simp add: slab_get_update live_def)
  show "home_of d (sl[unat i := None]) k = home_of d sl k" by (rule home_of_update(1) [OF i]) (use k in blast)
qed

lemma free_push:
  assumes f: "free_ok fr sl" and i: "slab_get sl i \<noteq> None" and l: "length sl = MAX_FLOWS"
  shows "free_ok (fr @ [i]) (sl[unat i := None])"
proof -
  have r: "unat i < length sl" by (rule slab_get_range [OF i])
  have "i \<notin> set fr" using f i unfolding free_ok_def live_def by auto
  moreover have "set (fr @ [i]) = {i. unat i < MAX_FLOWS} - live (sl[unat i := None])"
    using f r l live_update(2) [OF r] unfolding free_ok_def by auto
  ultimately show ?thesis using f unfolding free_ok_def by simp
qed

lemma unindex_fwd:
  assumes inv: "flow_inv t" and g: "slab_get (slab t) i = Some fl"
  shows "\<exists>p ix. fpos t (fkey fl) = Some (Inr p) \<and> unindex t Fwd p = Some (t\<lparr>fwd := ix\<rparr>) \<and> index_ok Fwd (slab t) ix (live (slab t) - {i})"
  using inv
proof (cases rule: fpos_cases [where k = "fkey fl"])
  case (found p f)
  have c: "cell (fwd t) p = i" by (rule keys_apartD [OF flow_invD(6) [OF inv] found(3) g found(4)])
  have ne: "cell (fwd t) p \<noteq> EMPTY" using g slab_get_EMPTY [OF flow_invD(1) [OF inv]] c by auto
  obtain ix where ix: "shift_from Fwd (slab t) ((fwd t)[p := EMPTY]) p p = Some ix" "index_ok Fwd (slab t) ix (live (slab t) - {cell (fwd t) p})"
    using shift_index_ok [OF flow_invD(4) [OF inv] flow_invD(1) [OF inv] found(2) ne] by blast
  show ?thesis using found(1) ix c by (intro exI [of _ p] exI [of _ ix] conjI) (simp_all add: unindex_def)
next
  case (absent p)
  then show ?thesis using g by blast
qed

lemma unindex_rev:
  assumes ok: "index_ok Rev (slab t) (rev_ix t) (live (slab t))" and ka: "keys_apart (slab t) rkey" and l: "length (slab t) = MAX_FLOWS"
    and g: "slab_get (slab t) i = Some fl"
  shows "\<exists>p ix. rpos t (rkey fl) = Some (Inr p) \<and> list_get (rev_ix t) p = Some i \<and> unindex t Rev p = Some (t\<lparr>rev_ix := ix\<rparr>) \<and>
    index_ok Rev (slab t) ix (live (slab t) - {i})"
  using ok
proof (cases rule: rpos_cases [where k = "rkey fl"])
  case (found p f)
  have c: "cell (rev_ix t) p = i" by (rule keys_apartD [OF ka found(3) g found(4)])
  have ne: "cell (rev_ix t) p \<noteq> EMPTY" using g slab_get_EMPTY [OF l] c by auto
  have lg: "list_get (rev_ix t) p = Some i" using cell_get [of p "rev_ix t"] found(2) index_length [OF ok] c by simp
  obtain ix where ix: "shift_from Rev (slab t) ((rev_ix t)[p := EMPTY]) p p = Some ix" "index_ok Rev (slab t) ix (live (slab t) - {cell (rev_ix t) p})"
    using shift_index_ok [OF ok l found(2) ne] by blast
  show ?thesis using found(1) ix c lg by (intro exI [of _ p] exI [of _ ix] conjI) (simp_all add: unindex_def)
next
  case (absent p)
  then show ?thesis using g by blast
qed

lemma remove_live:
  assumes inv: "flow_inv t" and g: "slab_get (slab t) i = Some fl"
  shows "\<exists>t'. FlowTable_remove t i = ret (True, t') \<and> flow_inv t' \<and> slab t' = (slab t)[unat i := None]"
proof -
  let ?sl = "(slab t)[unat i := None]"
  note l = flow_invD(1) [OF inv]
  have nn: "slab_get (slab t) i \<noteq> None" using g by simp
  note il = slab_get_range [OF nn]
  obtain p fw where f: "fpos t (fkey fl) = Some (Inr p)" "unindex t Fwd p = Some (t\<lparr>fwd := fw\<rparr>)" "index_ok Fwd (slab t) fw (live (slab t) - {i})"
    using unindex_fwd [OF inv g] by blast
  define t1 where "t1 = t\<lparr>fwd := fw\<rparr>"
  have g1: "slab_get (slab t1) i = Some fl" and ok1: "index_ok Rev (slab t1) (rev_ix t1) (live (slab t1))"
    and ka1: "keys_apart (slab t1) rkey" and l1: "length (slab t1) = MAX_FLOWS"
    using g flow_invD(5,7) [OF inv] l by (simp_all add: t1_def)
  obtain q rv where r: "rpos t1 (rkey fl) = Some (Inr q)" "list_get (rev_ix t1) q = Some i" "unindex t1 Rev q = Some (t1\<lparr>rev_ix := rv\<rparr>)"
      "index_ok Rev (slab t1) rv (live (slab t1) - {i})"
    using unindex_rev [OF ok1 ka1 l1 g1] by blast
  have pos: "0 < flen t" "flen t - 1 = card (live (slab t) - {i})"
  proof -
    have "i \<in> live (slab t)" using nn by (simp add: live_def)
    then show "0 < flen t" "flen t - 1 = card (live (slab t) - {i})"
      unfolding flow_invD(3) [OF inv] by (auto simp: card_gt_0_iff)
  qed
  define t3 where "t3 = t\<lparr>fwd := fw, rev_ix := rv, slab := ?sl, ffree := ffree t @ [i], flen := flen t - 1\<rparr>"
  note sd = slot_flows_del [OF g]
  have bt: "tally_ok (by_slot t3) (slot_flows (slab t))" using flow_invD(8) [OF inv] by (simp add: t3_def)
  obtain bs where bs: "tally t3 (fslot fl) False = Inr (t3\<lparr>by_slot := bs\<rparr>)"
    "tally_ok bs ((slot_flows (slab t))(fslot fl := slot_flows (slab t) (fslot fl) - 1))"
    using tally_counts_down [OF bt sd(2)] by blast
  have rm: "FlowTable_remove t i = ret (True, t3\<lparr>by_slot := bs\<rparr>)"
    using g f(1,2) r(1-3) pos(1) bs(1)
    by (simp add: FlowTable_remove_def FlowTable_get_def t1_def t3_def lift_run_def ret_def Let_def)
  have "flow_inv (t3\<lparr>by_slot := bs\<rparr>)"
    unfolding flow_inv_def
  proof (intro conjI)
    show "length (slab (t3\<lparr>by_slot := bs\<rparr>)) = MAX_FLOWS" using l by (simp add: t3_def)
    show "free_ok (ffree (t3\<lparr>by_slot := bs\<rparr>)) (slab (t3\<lparr>by_slot := bs\<rparr>))"
      using free_push [OF flow_invD(2) [OF inv] nn l] by (simp add: t3_def)
    show "flen (t3\<lparr>by_slot := bs\<rparr>) = card (live (slab (t3\<lparr>by_slot := bs\<rparr>)))"
      using pos(2) live_update(2) [OF il] by (simp add: t3_def)
    show "index_ok Fwd (slab (t3\<lparr>by_slot := bs\<rparr>)) (fwd (t3\<lparr>by_slot := bs\<rparr>)) (live (slab (t3\<lparr>by_slot := bs\<rparr>)))"
      using index_ok_del [OF f(3) il] live_update(2) [OF il] by (simp add: t3_def)
    show "index_ok Rev (slab (t3\<lparr>by_slot := bs\<rparr>)) (rev_ix (t3\<lparr>by_slot := bs\<rparr>)) (live (slab (t3\<lparr>by_slot := bs\<rparr>)))"
      using index_ok_del [of Rev "slab t" rv i] r(4) il live_update(2) [OF il] by (simp add: t3_def t1_def)
    show "keys_apart (slab (t3\<lparr>by_slot := bs\<rparr>)) fkey" "keys_apart (slab (t3\<lparr>by_slot := bs\<rparr>)) rkey"
      using keys_apart_del [OF flow_invD(6) [OF inv] il] keys_apart_del [OF flow_invD(7) [OF inv] il] by (simp_all add: t3_def)
    show "tally_ok (by_slot (t3\<lparr>by_slot := bs\<rparr>)) (slot_flows (slab (t3\<lparr>by_slot := bs\<rparr>)))"
      using bs(2) sd(1) by (simp add: t3_def)
    show "MAX_FLOWS \<le> by_cap (t3\<lparr>by_slot := bs\<rparr>)" using flow_invD(9) [OF inv] by (simp add: t3_def)
  qed
  then show ?thesis using rm by (intro exI [of _ "t3\<lparr>by_slot := bs\<rparr>"] conjI) (simp_all add: t3_def)
qed

lemma remove_total:
  assumes inv: "flow_inv t"
  shows "\<exists>t'. FlowTable_remove t i = ret (FlowTable_get t i \<noteq> None, t') \<and> flow_inv t' \<and>
    FlowTable_get t' = (FlowTable_get t)(i := None) \<and> (FlowTable_get t i = None \<longrightarrow> t' = t)"
proof (cases "slab_get (slab t) i")
  case None
  then show ?thesis using inv by (intro exI [of _ t]) (auto simp: FlowTable_remove_def FlowTable_get_def fun_eq_iff)
next
  case (Some fl)
  obtain t' where t': "FlowTable_remove t i = ret (True, t')" "flow_inv t'" "slab t' = (slab t)[unat i := None]"
    using remove_live [OF inv Some] by blast
  have il: "unat i < length (slab t)" by (rule slab_get_range) (use Some in simp)
  have "FlowTable_get t' = (FlowTable_get t)(i := None)"
    using il by (simp add: fun_eq_iff FlowTable_get_def t'(3) slab_get_update)
  then show ?thesis using t' Some by (intro exI [of _ t']) (simp add: FlowTable_get_def)
qed

section \<open>A new table and a touched flow\<close>

lemma table_new_inv:
  assumes "FlowTable_new granted flow_size spare = Inr t"
  shows "flow_inv t" "FlowTable_get t = (\<lambda>_. None)"
proof -
  have t: "slab t = replicate MAX_FLOWS None" "ffree t = map (\<lambda>i. word_of_nat (MAX_FLOWS - 1 - i)) [0..<MAX_FLOWS]"
    "fwd t = replicate INDEX EMPTY" "rev_ix t = replicate INDEX EMPTY" "flen t = 0" "by_slot t = []" "MAX_FLOWS \<le> by_cap t"
    using assms by (auto simp: FlowTable_new_def filled_def split: if_splits)
  have sg: "slab_get (slab t) i = None" for i by (simp add: t(1) slab_get_def list_get_def)
  have lv: "live (slab t) = {}" using sg by (simp add: live_def)
  have ce: "cell (replicate INDEX EMPTY) p = EMPTY" for p by (simp add: cell_def list_get_def)
  have ix: "index_ok d (slab t) (replicate INDEX EMPTY) {}" for d
    by (simp add: index_ok_def holds_ids_def reachable_past_def ce)
  have w: "unat (word_of_nat (MAX_FLOWS - 1 - i) :: u16) = MAX_FLOWS - 1 - i" for i
    by (simp add: unat_of_nat take_bit_nat_eq_self MAX_FLOWS_def)
  have "distinct (ffree t)"
    unfolding t(2) distinct_map
  proof (intro conjI inj_onI)
    fix i j
    assume ij: "i \<in> set [0..<MAX_FLOWS]" "j \<in> set [0..<MAX_FLOWS]"
      "(word_of_nat (MAX_FLOWS - 1 - i) :: u16) = word_of_nat (MAX_FLOWS - 1 - j)"
    then have "MAX_FLOWS - 1 - i = MAX_FLOWS - 1 - j" using w by metis
    then show "i = j" using ij(1,2) by (simp add: MAX_FLOWS_def)
  qed simp
  moreover have "set (ffree t) = {i. unat i < MAX_FLOWS}"
  proof (rule card_subset_eq)
    show "set (ffree t) \<subseteq> {i. unat i < MAX_FLOWS}"
    proof
      fix x
      assume "x \<in> set (ffree t)"
      then obtain i where x: "x = word_of_nat (MAX_FLOWS - 1 - i)" unfolding t(2) set_map by (rule imageE)
      show "x \<in> {i. unat i < MAX_FLOWS}" unfolding x mem_Collect_eq w by (simp add: MAX_FLOWS_def)
    qed
    have "card (set (ffree t)) = length (ffree t)" by (rule distinct_card) fact
    then show "card (set (ffree t)) = card {i :: u16. unat i < MAX_FLOWS}" using numbers_card(1) t(2) by simp
  qed simp
  ultimately have fr: "free_ok (ffree t) (slab t)" unfolding free_ok_def lv by simp
  have ka: "keys_apart (slab t) fkey" "keys_apart (slab t) rkey" unfolding keys_apart_def sg by simp_all
  have tl: "tally_ok (by_slot t) (slot_flows (slab t))" unfolding t(6) tally_ok_def slot_flows_def sg by simp
  show "flow_inv t"
    unfolding flow_inv_def using fr ix ka tl t lv by simp
  show "FlowTable_get t = (\<lambda>_. None)" by (simp add: fun_eq_iff FlowTable_get_def sg)
qed

text \<open>Two flows that differ in nothing the table sorts or counts by.\<close>

definition same_flow :: "Flow \<Rightarrow> Flow \<Rightarrow> bool" where
  "same_flow f g \<longleftrightarrow> fkey f = fkey g \<and> rkey f = rkey g \<and> fslot f = fslot g"

lemma keys_apart_same:
  assumes k: "keys_apart sl kf" and gs: "slab_get sl i = Some f" and e: "kf f = kf h"
  shows "keys_apart (sl[unat i := Some h]) kf"
  unfolding keys_apart_def
proof (intro allI impI)
  have il: "unat i < length sl" by (rule slab_get_range) (use gs in simp)
  fix a b x y
  assume p: "slab_get (sl[unat i := Some h]) a = Some x" "slab_get (sl[unat i := Some h]) b = Some y" "kf x = kf y"
  show "a = b"
  proof (cases "a = i"; cases "b = i")
    assume ab: "a = i" "b \<noteq> i"
    then have "h = x" "slab_get sl b = Some y" using p il by (simp_all add: slab_get_update)
    then show "a = b" using keys_apartD [OF k gs, of b y] e p(3) ab(1) by simp
  next
    assume ab: "a \<noteq> i" "b = i"
    then have "h = y" "slab_get sl a = Some x" using p il by (simp_all add: slab_get_update)
    then show "a = b" using keys_apartD [OF k _ gs, of a x] e p(3) ab(2) by simp
  next
    assume ab: "a \<noteq> i" "b \<noteq> i"
    then have "slab_get sl a = Some x" "slab_get sl b = Some y" using p by (simp_all add: slab_get_update)
    then show "a = b" using keys_apartD [OF k, of a x b y] p(3) by simp
  qed simp
qed

lemma put_inv:
  assumes inv: "flow_inv t" and g: "FlowTable_get t i = Some f" and s: "same_flow f h"
  shows "flow_inv (FlowTable_put t i h)" "FlowTable_get (FlowTable_put t i h) = (FlowTable_get t)(i \<mapsto> h)"
proof -
  let ?sl = "(slab t)[unat i := Some h]"
  have gs: "slab_get (slab t) i = Some f" using g by (simp add: FlowTable_get_def)
  have il: "unat i < length (slab t)" by (rule slab_get_range) (use gs in simp)
  have lv: "live ?sl = live (slab t)" using live_update(1) [OF il] gs by (auto simp: live_def)
  have hh: "Flow_hash h d = Flow_hash f d" for d using s unfolding same_flow_def by (cases d) simp_all
  have ixk: "index_ok d ?sl ix (live (slab t))" if ok: "index_ok d (slab t) ix (live (slab t))" for d ix
  proof (rule index_ok_slab [OF ok], rule conjI)
    fix k
    assume "k \<in> live (slab t)"
    then show "slab_get ?sl k \<noteq> None" by (simp add: live_def slab_get_update)
    show "home_of d ?sl k = home_of d (slab t) k"
      using home_of_update [OF il] hh gs by (cases "k = i") (simp_all add: home_of_def)
  qed
  have sf: "slot_flows ?sl = slot_flows (slab t)"
  proof
    fix u
    have "{j. \<exists>x. slab_get ?sl j = Some x \<and> fslot x = u} = {j. \<exists>x. slab_get (slab t) j = Some x \<and> fslot x = u}"
      using il gs s unfolding same_flow_def by (auto simp: slab_get_update)
    then show "slot_flows ?sl u = slot_flows (slab t) u" by (simp add: slot_flows_def)
  qed
  have k: "fkey f = fkey h" "rkey f = rkey h" using s unfolding same_flow_def by blast+
  show "flow_inv (FlowTable_put t i h)"
    unfolding flow_inv_def
  proof (intro conjI)
    show "length (slab (FlowTable_put t i h)) = MAX_FLOWS" using flow_invD(1) [OF inv] by (simp add: FlowTable_put_def)
    show "free_ok (ffree (FlowTable_put t i h)) (slab (FlowTable_put t i h))"
      using flow_invD(2) [OF inv] lv by (simp add: FlowTable_put_def free_ok_def)
    show "flen (FlowTable_put t i h) = card (live (slab (FlowTable_put t i h)))"
      using flow_invD(3) [OF inv] lv by (simp add: FlowTable_put_def)
    show "index_ok Fwd (slab (FlowTable_put t i h)) (fwd (FlowTable_put t i h)) (live (slab (FlowTable_put t i h)))"
      using ixk [OF flow_invD(4) [OF inv]] lv by (simp add: FlowTable_put_def)
    show "index_ok Rev (slab (FlowTable_put t i h)) (rev_ix (FlowTable_put t i h)) (live (slab (FlowTable_put t i h)))"
      using ixk [OF flow_invD(5) [OF inv]] lv by (simp add: FlowTable_put_def)
    show "keys_apart (slab (FlowTable_put t i h)) fkey" "keys_apart (slab (FlowTable_put t i h)) rkey"
      using keys_apart_same [OF flow_invD(6) [OF inv] gs k(1)] keys_apart_same [OF flow_invD(7) [OF inv] gs k(2)] by (simp_all add: FlowTable_put_def)
    show "tally_ok (by_slot (FlowTable_put t i h)) (slot_flows (slab (FlowTable_put t i h)))"
      using flow_invD(8) [OF inv] sf by (simp add: FlowTable_put_def)
    show "MAX_FLOWS \<le> by_cap (FlowTable_put t i h)" using flow_invD(9) [OF inv] by (simp add: FlowTable_put_def)
  qed
  show "FlowTable_get (FlowTable_put t i h) = (FlowTable_get t)(i \<mapsto> h)"
    using il by (simp add: fun_eq_iff FlowTable_get_def FlowTable_put_def slab_get_update)
qed

end
