(* ===== verification/Wire.thy ===== *)
theory Wire
  imports Abi
begin

unbundle bit_operations_syntax

text \<open>
  The bytes of a frame (\<^verbatim>\<open>net/src/wire.rs\<close>), the plan of the internal net (\<^verbatim>\<open>net/src/plan.rs\<close> and the address
  functions of \<^verbatim>\<open>abi/src/layout/mod.rs\<close>) and the gateway translation (\<^verbatim>\<open>net/src/gw.rs\<close>).  A frame is the list
  of its bytes; the offsets are small, so they are natural numbers.
\<close>

section \<open>Fields of a frame\<close>

definition ETH_LEN :: nat where "ETH_LEN = 14"
definition ET_IPV4 :: u16 where "ET_IPV4 = 0x0800"
definition PROTO_TCP :: u8 where "PROTO_TCP = 6"
definition PROTO_UDP :: u8 where "PROTO_UDP = 17"
definition PROTO_ICMP :: u8 where "PROTO_ICMP = 1"
definition TCP_FIN :: u8 where "TCP_FIN = 0x01"
definition TCP_SYN :: u8 where "TCP_SYN = 0x02"
definition TCP_RST :: u8 where "TCP_RST = 0x04"
definition TCP_ACK :: u8 where "TCP_ACK = 0x10"

text \<open>\<^verbatim>\<open>b.get(off..off + n)\<close> and the write through \<^verbatim>\<open>get_mut\<close> of the same range.\<close>

definition bytes_at :: "u8 list \<Rightarrow> nat \<Rightarrow> nat \<Rightarrow> u8 list option" where
  "bytes_at b off n = (if off + n \<le> length b then Some (take n (drop off b)) else None)"

definition put_bytes :: "u8 list \<Rightarrow> nat \<Rightarrow> u8 list \<Rightarrow> u8 list" where
  "put_bytes b off d = (if off + length d \<le> length b then take off b @ d @ drop (off + length d) b else b)"

definition u16_from_be :: "u8 \<Rightarrow> u8 \<Rightarrow> u16" where
  "u16_from_be h l = push_bit 8 (ucast h) OR ucast l"

definition u32_from_be :: "u8 \<Rightarrow> u8 \<Rightarrow> u8 \<Rightarrow> u8 \<Rightarrow> u32" where
  "u32_from_be a c d e = push_bit 24 (ucast a) OR push_bit 16 (ucast c) OR push_bit 8 (ucast d) OR ucast e"

definition u16_to_be :: "u16 \<Rightarrow> u8 list" where
  "u16_to_be v = [ucast (drop_bit 8 v), ucast v]"

definition u32_to_be :: "u32 \<Rightarrow> u8 list" where
  "u32_to_be v = [ucast (drop_bit 24 v), ucast (drop_bit 16 v), ucast (drop_bit 8 v), ucast v]"

definition be16 :: "u8 list \<Rightarrow> nat \<Rightarrow> u16" where
  "be16 b off = (case bytes_at b off 2 of Some [h, l] \<Rightarrow> u16_from_be h l | _ \<Rightarrow> 0)"

definition be32 :: "u8 list \<Rightarrow> nat \<Rightarrow> u32" where
  "be32 b off = (case bytes_at b off 4 of Some [a, c, d, e] \<Rightarrow> u32_from_be a c d e | _ \<Rightarrow> 0)"

definition put16 :: "u8 list \<Rightarrow> nat \<Rightarrow> u16 \<Rightarrow> u8 list" where
  "put16 b off v = put_bytes b off (u16_to_be v)"

definition put32 :: "u8 list \<Rightarrow> nat \<Rightarrow> u32 \<Rightarrow> u8 list" where
  "put32 b off v = put_bytes b off (u32_to_be v)"

definition put_mac :: "u8 list \<Rightarrow> nat \<Rightarrow> u8 list \<Rightarrow> u8 list" where
  "put_mac b off mac = put_bytes b off mac"

definition mac_at :: "u8 list \<Rightarrow> nat \<Rightarrow> u8 list" where
  "mac_at b off = (case bytes_at b off 6 of Some s \<Rightarrow> s | None \<Rightarrow> replicate 6 0)"

definition byte :: "u8 list \<Rightarrow> nat \<Rightarrow> u8" where
  "byte b off = (case list_get b off of None \<Rightarrow> 0 | Some x \<Rightarrow> x)"

section \<open>Checksums\<close>

text \<open>The folding loop; the sums stay far below the 32 bits of the code.\<close>

function fold16 :: "nat \<Rightarrow> nat" where
  "fold16 s = (if s div 2 ^ 16 \<noteq> 0 then fold16 (s mod 2 ^ 16 + s div 2 ^ 16) else s)"
  by auto

termination fold16
proof (relation "measure id")
  fix s :: nat
  assume "s div 2 ^ 16 \<noteq> 0"
  then have "0 < s div 2 ^ 16" by simp
  then have "s div 2 ^ 16 < s div 2 ^ 16 * 2 ^ 16" by simp
  then have "s mod 2 ^ 16 + s div 2 ^ 16 < s" using div_mult_mod_eq [of s "2 ^ 16"] by linarith
  then show "(s mod 2 ^ 16 + s div 2 ^ 16, s) \<in> measure id" by simp
qed simp

declare fold16.simps [simp del]

definition fix_csum16 :: "u8 list \<Rightarrow> nat \<Rightarrow> u16 \<Rightarrow> u16 \<Rightarrow> u8 list" where
  "fix_csum16 b off old new =
     put16 b off (NOT (word_of_nat (fold16 (unat (NOT (be16 b off)) + unat (NOT old) + unat new))))"

definition fix_csum32 :: "u8 list \<Rightarrow> nat \<Rightarrow> u32 \<Rightarrow> u32 \<Rightarrow> u8 list" where
  "fix_csum32 b off old new =
     fix_csum16 (fix_csum16 b off (ucast (drop_bit 16 old)) (ucast (drop_bit 16 new))) off (ucast old) (ucast new)"

definition l4_csum_off :: "u8 \<Rightarrow> nat" where
  "l4_csum_off proto = (if proto = PROTO_UDP then 6 else 16)"

definition rewrite_l4 :: "u8 list \<Rightarrow> nat \<Rightarrow> u8 \<Rightarrow> nat \<Rightarrow> u32 \<Rightarrow> u32 \<Rightarrow> u16 \<Rightarrow> u16 \<Rightarrow> u8 list" where
  "rewrite_l4 f l4 proto port_off old_ip new_ip old_port new_port =
     (let c = l4 + l4_csum_off proto; f1 = put16 f (l4 + port_off) new_port in
      if proto = PROTO_UDP \<and> be16 f1 c = 0 then f1
      else let f2 = fix_csum16 (fix_csum32 f1 c old_ip new_ip) c old_port new_port in
        if proto = PROTO_UDP \<and> be16 f2 c = 0 then put16 f2 c 0xffff else f2)"

definition fix_l4_ip :: "u8 list \<Rightarrow> nat \<Rightarrow> u8 \<Rightarrow> u32 \<Rightarrow> u32 \<Rightarrow> u8 list" where
  "fix_l4_ip f l4 proto old_ip new_ip =
     (let c = l4 + l4_csum_off proto in
      if proto = PROTO_UDP \<and> be16 f c = 0 then f
      else let f2 = fix_csum32 f c old_ip new_ip in
        if proto = PROTO_UDP \<and> be16 f2 c = 0 then put16 f2 c 0xffff else f2)"

section \<open>Validation\<close>

record Ip4 =
  l4off :: nat
  ip_proto :: u8

definition ipv4_fragmented :: "u8 list \<Rightarrow> bool" where
  "ipv4_fragmented f \<longleftrightarrow> be16 f (ETH_LEN + 6) AND 0x3fff \<noteq> 0"

definition ipv4_head :: "u8 list \<Rightarrow> (nat \<times> u8) option" where
  "ipv4_head f =
     (if length f < ETH_LEN + 20 \<or> be16 f 12 \<noteq> ET_IPV4 then None
      else let v = byte f ETH_LEN; ihl = unat (v AND 0xf) * 4 in
        if drop_bit 4 v \<noteq> 4 \<or> ihl < 20 \<or> length f < ETH_LEN + ihl \<or> ipv4_fragmented f then None
        else Some (ihl, byte f (ETH_LEN + 9)))"

definition ipv4_l4 :: "u8 list \<Rightarrow> Ip4 option" where
  "ipv4_l4 f =
     (case ipv4_head f of
        None \<Rightarrow> None
      | Some (ihl, proto) \<Rightarrow>
          (case (if proto = PROTO_TCP then Some 20 else if proto = PROTO_UDP then Some 8 else None) of
             None \<Rightarrow> None
           | Some need \<Rightarrow>
               if length f < ETH_LEN + ihl + need then None else Some \<lparr>l4off = ETH_LEN + ihl, ip_proto = proto\<rparr>))"

section \<open>The internal net\<close>

definition NET_PREFIX :: nat where "NET_PREFIX = 16"
definition HOST_IP4 :: u32 where "HOST_IP4 = push_bit 24 10 OR push_bit 16 100 OR 1"
definition HOST_MAC :: "u8 list" where "HOST_MAC = [0x02, 0, 0, 0, 0, 0]"

text \<open>The sum stays below \<^verbatim>\<open>2^32\<close>: the host address has its low half almost empty.\<close>

definition port_ip4 :: "nat \<Rightarrow> u32" where
  "port_ip4 i = HOST_IP4 + word_of_nat (i AND 0xffff)"

definition port_mac :: "nat \<Rightarrow> u8 list" where
  "port_mac i = [0x02, 0, 0, 0, word_of_nat (drop_bit 8 i), word_of_nat i]"

definition ip4_port :: "u32 \<Rightarrow> nat option" where
  "ip4_port ip =
     (if drop_bit (32 - NET_PREFIX) ip \<noteq> drop_bit (32 - NET_PREFIX) HOST_IP4 then None
      else let h = unat (ip AND 0xffff) in if h = 0 \<or> h = 0xffff then None else Some (h - 1))"

definition mac_port :: "u8 list \<Rightarrow> nat option" where
  "mac_port m =
     (case m of
        [a, b, c, d, hi, lo] \<Rightarrow>
          if a = 0x02 \<and> b = 0 \<and> c = 0 \<and> d = 0 then Some (push_bit 8 (unat hi) OR unat lo) else None
      | _ \<Rightarrow> None)"

definition is_internal :: "u32 \<Rightarrow> bool" where
  "is_internal ip \<longleftrightarrow> drop_bit (32 - NET_PREFIX) ip = drop_bit (32 - NET_PREFIX) HOST_IP4"

section \<open>The gateway translation\<close>

definition gw_parse :: "u8 list \<Rightarrow> (nat \<times> u8) option" where
  "gw_parse f =
     (case ipv4_head f of
        None \<Rightarrow> None
      | Some (ihl, proto) \<Rightarrow>
          (case (if proto = PROTO_TCP then Some 20 else if proto = PROTO_UDP then Some 8
                 else if proto = PROTO_ICMP then Some 0 else None) of
             None \<Rightarrow> None
           | Some need \<Rightarrow> if length f < ETH_LEN + ihl + need then None else Some (ETH_LEN + ihl, proto)))"

definition to_host :: "u8 list \<Rightarrow> u32 \<Rightarrow> bool \<times> u8 list" where
  "to_host f host_ip =
     (case gw_parse f of
        None \<Rightarrow> (False, f)
      | Some (l4, proto) \<Rightarrow>
          let old = be32 f (ETH_LEN + 16) in
          if old \<noteq> HOST_IP4 then (False, f)
          else
            let f1 = put32 f (ETH_LEN + 16) host_ip;
                f2 = fix_csum32 f1 (ETH_LEN + 10) old host_ip in
            (True, if proto \<noteq> PROTO_ICMP then fix_l4_ip f2 l4 proto old host_ip else f2))"

definition from_host :: "u8 list \<Rightarrow> u32 \<Rightarrow> bool \<times> u8 list" where
  "from_host f host_ip =
     (case gw_parse f of
        None \<Rightarrow> (False, f)
      | Some (l4, proto) \<Rightarrow>
          if be32 f (ETH_LEN + 12) \<noteq> host_ip then (False, f)
          else
            (case Option.bind (ip4_port (be32 f (ETH_LEN + 16))) (\<lambda>s. if 1 \<le> s then Some s else None) of
               None \<Rightarrow> (False, f)
             | Some slot \<Rightarrow>
                 let f1 = put32 f (ETH_LEN + 12) HOST_IP4;
                     f2 = fix_csum32 f1 (ETH_LEN + 10) host_ip HOST_IP4;
                     f3 = (if proto \<noteq> PROTO_ICMP then fix_l4_ip f2 l4 proto host_ip HOST_IP4 else f2) in
                 (True, put_mac (put_mac f3 0 (port_mac slot)) 6 HOST_MAC)))"

section \<open>Reading what was written\<close>

lemma put_bytes_length [simp]: "length (put_bytes b off d) = length b"
  by (simp add: put_bytes_def)

lemma put_length [simp]: "length (put16 b off v) = length b" "length (put32 b off w) = length b" "length (put_mac b off m) = length b"
  by (simp_all add: put16_def put32_def put_mac_def)

lemma nth_put_bytes:
  assumes "off + length d \<le> length b" "i < length b"
  shows "put_bytes b off d ! i = (if off \<le> i \<and> i < off + length d then d ! (i - off) else b ! i)"
  using assms by (auto simp: put_bytes_def nth_append)

lemma bytes2: "off + 2 \<le> length b \<Longrightarrow> take 2 (drop off b) = [b ! off, b ! (off + 1)]"
  by (rule nth_equalityI) (auto simp: less_Suc_eq numeral_2_eq_2)

lemma bytes4: "off + 4 \<le> length b \<Longrightarrow> take 4 (drop off b) = [b ! off, b ! (off + 1), b ! (off + 2), b ! (off + 3)]"
  by (rule nth_equalityI) (auto simp: less_Suc_eq numeral_eq_Suc)

lemma be16_nth: "off + 2 \<le> length b \<Longrightarrow> be16 b off = u16_from_be (b ! off) (b ! (off + 1))"
  by (simp add: be16_def bytes_at_def bytes2)

lemma be32_nth:
  "off + 4 \<le> length b \<Longrightarrow> be32 b off = u32_from_be (b ! off) (b ! (off + 1)) (b ! (off + 2)) (b ! (off + 3))"
  by (simp add: be32_def bytes_at_def bytes4)

lemma u16_from_to: "u16_from_be (ucast (drop_bit 8 v)) (ucast v) = v"
  unfolding u16_from_be_def by (rule bit_word_eqI) (auto simp: bit_simps)

lemma u32_halves:
  "ucast (drop_bit 16 (u32_from_be a c d e)) = u16_from_be a c" "ucast (u32_from_be a c d e) = u16_from_be d e"
  unfolding u16_from_be_def u32_from_be_def by (rule bit_word_eqI; auto simp: bit_simps dest: bit_imp_le_length)+

lemma u32_join: "u32_from_be a c d e = push_bit 16 (ucast (u16_from_be a c)) OR ucast (u16_from_be d e)"
  unfolding u16_from_be_def u32_from_be_def by (rule bit_word_eqI) (auto simp: bit_simps dest: bit_imp_le_length)

lemma u32_split: "push_bit 16 (ucast (ucast (drop_bit 16 v) :: u16)) OR ucast (ucast v :: u16) = (v :: u32)"
  by (rule bit_word_eqI) (auto simp: bit_simps)

lemma be32_halves:
  assumes "off + 4 \<le> length b"
  shows "ucast (drop_bit 16 (be32 b off)) = be16 b off" "ucast (be32 b off) = be16 b (off + 2)"
    "be32 b off = push_bit 16 (ucast (be16 b off)) OR ucast (be16 b (off + 2))"
proof -
  have e: "be16 b off = u16_from_be (b ! off) (b ! (off + 1))" "be16 b (off + 2) = u16_from_be (b ! (off + 2)) (b ! (off + 3))"
    using assms be16_nth [of off b] be16_nth [of "off + 2" b] by (simp_all add: numeral_eq_Suc)
  show "ucast (drop_bit 16 (be32 b off)) = be16 b off" "ucast (be32 b off) = be16 b (off + 2)"
    "be32 b off = push_bit 16 (ucast (be16 b off)) OR ucast (be16 b (off + 2))"
    unfolding be32_nth [OF assms] e by (rule u32_halves u32_join)+
qed

lemma be16_put_other:
  assumes "off + length d \<le> p \<or> p + 2 \<le> off"
  shows "be16 (put_bytes b off d) p = be16 b p"
proof (cases "off + length d \<le> length b \<and> p + 2 \<le> length b")
  case True
  then have "put_bytes b off d ! p = b ! p" "put_bytes b off d ! (p + 1) = b ! (p + 1)"
    using assms by (auto simp: nth_put_bytes)
  then show ?thesis using True by (simp add: be16_nth)
next
  case False
  then show ?thesis by (auto simp: be16_def bytes_at_def put_bytes_def)
qed

lemma be16_put16: "off + 2 \<le> length b \<Longrightarrow> be16 (put16 b off v) off = v"
  by (simp add: be16_nth put16_def nth_put_bytes u16_to_be_def u16_from_to)

lemma be16_put16_other: "off + 2 \<le> p \<or> p + 2 \<le> off \<Longrightarrow> be16 (put16 b off v) p = be16 b p"
  unfolding put16_def by (rule be16_put_other) (simp add: u16_to_be_def)

text \<open>A 32-bit write is two 16-bit writes.\<close>

lemma u32_bytes:
  "ucast (drop_bit 8 (ucast (drop_bit 16 v) :: u16)) = (ucast (drop_bit 24 v) :: u8)"
  "ucast (ucast (drop_bit 16 v) :: u16) = (ucast (drop_bit 16 v) :: u8)"
  "ucast (drop_bit 8 (ucast v :: u16)) = (ucast (drop_bit 8 v) :: u8)" "ucast (ucast v :: u16) = (ucast v :: u8)" for v :: u32
  by (rule bit_word_eqI; auto simp: bit_simps)+

lemma u32_from_to: "u32_from_be (ucast (drop_bit 24 v)) (ucast (drop_bit 16 v)) (ucast (drop_bit 8 v)) (ucast v) = v"
proof -
  have "u16_from_be (ucast (drop_bit 24 v)) (ucast (drop_bit 16 v)) = (ucast (drop_bit 16 v) :: u16)"
    "u16_from_be (ucast (drop_bit 8 v)) (ucast v) = (ucast v :: u16)"
    using u16_from_to [of "ucast (drop_bit 16 v)"] u16_from_to [of "ucast v"] by (simp_all add: u32_bytes)
  then show ?thesis unfolding u32_join by (simp only: u32_split)
qed

lemma put32_put16:
  assumes "off + 4 \<le> length b"
  shows "put32 b off v = put16 (put16 b off (ucast (drop_bit 16 v))) (off + 2) (ucast v)"
proof (rule nth_equalityI)
  fix i
  assume "i < length (put32 b off v)"
  then have i: "i < length b" by simp
  have l: "off + 2 \<le> length b" "off + 2 + 2 \<le> length b" using assms by simp_all
  show "put32 b off v ! i = put16 (put16 b off (ucast (drop_bit 16 v))) (off + 2) (ucast v) ! i"
  proof -
    consider "i = off" | "i = off + 1" | "i = off + 2" | "i = off + 3" | "i < off" | "off + 4 \<le> i" by linarith
    then show ?thesis
      by cases (use i assms l in \<open>simp_all add: put32_def put16_def nth_put_bytes u32_to_be_def u16_to_be_def u32_bytes\<close>)
  qed
qed simp

end
