(* ===== verification/NodeNat.thy ===== *)
theory NodeNat
  imports FlowOps Wire
begin

unbundle bit_operations_syntax

text \<open>
  Address translation between the external card and the internal net (\<^verbatim>\<open>net/src/nat.rs\<close>): published ports,
  the masquerade with its connection table, and the hairpin path.  What the code does to its surroundings
  (\<^verbatim>\<open>NatIo\<close>) is the list of events of the record \<open>NatIo\<close>; the neighbour table of the node stack answers by a
  function of everything that happened before.
\<close>

section \<open>State\<close>

definition SEC :: u64 where "SEC = 1000000000"
definition MASQ_BASE :: u16 where "MASQ_BASE = 20000"
definition MASQ_END :: u16 where "MASQ_END = 49152"
definition TCP_IDLE :: u64 where "TCP_IDLE = 300 * SEC"
definition UDP_IDLE :: u64 where "UDP_IDLE = 60 * SEC"
definition TCP_CLOSING_IDLE :: u64 where "TCP_CLOSING_IDLE = 60 * SEC"
definition FLOW_SWEEP_EVERY :: u64 where "FLOW_SWEEP_EVERY = 30 * SEC"
definition FLOW_LOG_EVERY :: u64 where "FLOW_LOG_EVERY = 30 * SEC"
definition MAX_PUBS :: nat where "MAX_PUBS = 512"

datatype Proto = Tcp | Udp

fun Proto_num :: "Proto \<Rightarrow> u8" where
  "Proto_num Tcp = PROTO_TCP"
| "Proto_num Udp = PROTO_UDP"

record Uplink =
  up_ip :: u32
  up_mask :: u32
  up_mac :: "u8 list"
  gateway :: u32

definition Uplink_new :: "u32 \<Rightarrow> u32 \<Rightarrow> u8 list \<Rightarrow> u32 \<Rightarrow> NetError + Uplink" where
  "Uplink_new ip prefix mac gw =
     (if prefix > 32 then Inl (NetPrefix prefix)
      else Inr \<lparr>up_ip = ip, up_mask = (if prefix = 0 then 0 else push_bit (32 - unat prefix) (- 1)), up_mac = mac, gateway = gw\<rparr>)"

record Pub =
  pub_proto :: u8
  pub_node_port :: u16
  pub_slot :: u16
  pub_slot_port :: u16

datatype Counter = NatReplyIn | NatInUnmatched | NatNoRoute | NatFlowFull

datatype NatEvent =
    Deliver nat "u8 list"
  | UplinkTx "u8 list"
  | Resolve u32 u64
  | ProbeHop u32 u64
  | Confirm u32 "u8 list" u64
  | Counted Counter
  | LogFull
  | LogSlotFull nat nat

record NatIo =
  io_events :: "NatEvent list"
  neigh :: "NatEvent list \<Rightarrow> u32 \<Rightarrow> u64 \<Rightarrow> u8 list option"

definition emit :: "NatIo \<Rightarrow> NatEvent \<Rightarrow> NatIo" where
  "emit io e = io\<lparr>io_events := io_events io @ [e]\<rparr>"

definition neighbor :: "NatIo \<Rightarrow> u32 \<Rightarrow> u64 \<Rightarrow> u8 list option \<times> NatIo" where
  "neighbor io dst now = (neigh io (io_events io) dst now, emit io (Resolve dst now))"

record Nat =
  pubs :: "Pub list"
  uplink :: "Uplink option"
  flows :: FlowTable
  masq_next :: u16
  next_sweep :: u64
  next_full_log :: u64
  next_slot_full_log :: u64

definition masq_start :: "u64 \<Rightarrow> u16" where
  "masq_start seed =
     MASQ_BASE + (let r = unat seed mod (unat MASQ_END - unat MASQ_BASE) in if r < 2 ^ 16 then word_of_nat r else 0)"

definition Nat_new :: "(nat \<Rightarrow> bool) \<Rightarrow> nat \<Rightarrow> nat \<Rightarrow> u16 \<Rightarrow> NetError + Nat" where
  "Nat_new granted flow_size spare first =
     rbind (FlowTable_new granted flow_size spare) (\<lambda>t.
       Inr \<lparr>pubs = [], uplink = None, flows = t, masq_next = first, next_sweep = 0, next_full_log = 0, next_slot_full_log = 0\<rparr>)"

definition set_uplink :: "Nat \<Rightarrow> Uplink \<Rightarrow> Nat" where
  "set_uplink n u = n\<lparr>uplink := Some u\<rparr>"

definition on_subnet :: "Nat \<Rightarrow> u32 \<Rightarrow> bool" where
  "on_subnet n ip = (case uplink n of None \<Rightarrow> False | Some u \<Rightarrow> ip AND up_mask u = up_ip u AND up_mask u)"

definition slot_word :: "nat \<Rightarrow> u16 option" where
  "slot_word slot = Option.bind (Slot_new slot) (\<lambda>s. if Slot_get s < 2 ^ 16 then Some (word_of_nat (Slot_get s)) else None)"

section \<open>Publications\<close>

definition pub_by_node_port :: "Nat \<Rightarrow> u8 \<Rightarrow> u16 \<Rightarrow> Pub option" where
  "pub_by_node_port n proto nport = find (\<lambda>p. pub_proto p = proto \<and> pub_node_port p = nport) (pubs n)"

definition publish :: "Nat \<Rightarrow> Proto \<Rightarrow> u16 \<Rightarrow> nat \<Rightarrow> u16 \<Rightarrow> NetError + Nat" where
  "publish n proto nport slot sport =
     (case slot_word slot of
        None \<Rightarrow> Inl (NetSlotRange slot)
      | Some s \<Rightarrow>
          if nport = 0 \<or> sport = 0 then Inl NetPortZero
          else
            (case pub_by_node_port n (Proto_num proto) nport of
               Some e \<Rightarrow> Inl (NetAlreadyPublished nport (unat (pub_slot e)))
             | None \<Rightarrow>
                 if length (pubs n) < MAX_PUBS
                 then Inr (n\<lparr>pubs := pubs n @ [\<lparr>pub_proto = Proto_num proto, pub_node_port = nport, pub_slot = s, pub_slot_port = sport\<rparr>]\<rparr>)
                 else Inl (NetFull ''publications'' MAX_PUBS)))"

text \<open>The loop over all flow numbers that removes the flows for which \<open>p\<close> holds.\<close>

fun remove_where :: "(Flow \<Rightarrow> bool) \<Rightarrow> u16 list \<Rightarrow> FlowTable \<Rightarrow> FlowTable run" where
  "remove_where p [] t = ret t"
| "remove_where p (i # is) t =
     (if (case FlowTable_get t i of None \<Rightarrow> False | Some f \<Rightarrow> p f)
      then runb (FlowTable_remove t i) (\<lambda>r. remove_where p is (snd r))
      else remove_where p is t)"

definition all_ids :: "u16 list" where
  "all_ids = map word_of_nat [0..<MAX_FLOWS]"

definition unpublish_slot :: "Nat \<Rightarrow> nat \<Rightarrow> Nat run" where
  "unpublish_slot n i =
     (let target = (if slot_word i \<noteq> None then port_ip4 i else 0) in
      runb (remove_where (\<lambda>f. unat (fslot f) = i \<or> target \<noteq> 0 \<and> dst_ip f = target) all_ids (flows n)) (\<lambda>t.
        ret (n\<lparr>pubs := filter (\<lambda>p. unat (pub_slot p) \<noteq> i) (pubs n), flows := t\<rparr>)))"

section \<open>Connection tracking\<close>

definition flow_idle :: "Flow \<Rightarrow> u64" where
  "flow_idle fl = (if fproto fl \<noteq> PROTO_TCP then UDP_IDLE else if fin_fwd fl \<and> fin_rev fl then TCP_CLOSING_IDLE else TCP_IDLE)"

definition flow_expired :: "Flow \<Rightarrow> u64 \<Rightarrow> bool" where
  "flow_expired fl now \<longleftrightarrow> (if seen fl \<le> now then now - seen fl else 0) > flow_idle fl"

definition expired :: "Nat \<Rightarrow> u16 \<Rightarrow> u64 \<Rightarrow> bool" where
  "expired n i now = (case FlowTable_get (flows n) i of None \<Rightarrow> False | Some fl \<Rightarrow> flow_expired fl now)"

definition sweep_expired :: "Nat \<Rightarrow> u64 \<Rightarrow> Nat run" where
  "sweep_expired n now = runb (remove_where (\<lambda>fl. flow_expired fl now) all_ids (flows n)) (\<lambda>t. ret (n\<lparr>flows := t\<rparr>))"

definition sweep :: "Nat \<Rightarrow> u64 \<Rightarrow> Nat run" where
  "sweep n now = runb (sweep_expired n now) (\<lambda>n. ret (n\<lparr>next_sweep := saturating_add now FLOW_SWEEP_EVERY\<rparr>))"

definition maybe_sweep :: "Nat \<Rightarrow> u64 \<Rightarrow> Nat run" where
  "maybe_sweep n now = (if next_sweep n \<noteq> 0 \<and> now < next_sweep n then ret n else sweep n now)"

definition touch :: "Nat \<Rightarrow> u16 \<Rightarrow> u64 \<Rightarrow> Flow option \<times> Nat" where
  "touch n i now =
     (case FlowTable_get (flows n) i of
        None \<Rightarrow> (None, n)
      | Some fl \<Rightarrow> let fl' = fl\<lparr>seen := now\<rparr> in (Some fl', n\<lparr>flows := FlowTable_put (flows n) i fl'\<rparr>))"

definition note_tcp_flags :: "Nat \<Rightarrow> u16 \<Rightarrow> u8 \<Rightarrow> bool \<Rightarrow> bool \<times> Nat" where
  "note_tcp_flags n i flags reverse =
     (case FlowTable_get (flows n) i of
        None \<Rightarrow> (False, n)
      | Some fl \<Rightarrow>
          if fproto fl \<noteq> PROTO_TCP then (False, n)
          else if flags AND TCP_RST \<noteq> 0 then
            (if reverse then (False, n\<lparr>flows := FlowTable_put (flows n) i (fl\<lparr>fin_fwd := True, fin_rev := True\<rparr>)\<rparr>)
             else (True, n))
          else if flags AND TCP_FIN \<noteq> 0 then
            (False, n\<lparr>flows := FlowTable_put (flows n) i (if reverse then fl\<lparr>fin_rev := True\<rparr> else fl\<lparr>fin_fwd := True\<rparr>)\<rparr>)
          else (False, n))"

text \<open>\<^verbatim>\<open>min_by_key\<close>: the first of the least.\<close>

fun min_by_key :: "('a \<Rightarrow> 'k::linorder) \<Rightarrow> 'a list \<Rightarrow> 'a option" where
  "min_by_key key [] = None"
| "min_by_key key (x # xs) =
     (case min_by_key key xs of None \<Rightarrow> Some x | Some y \<Rightarrow> if key y < key x then Some y else Some x)"

definition oldest_closed :: "Nat \<Rightarrow> u16 \<Rightarrow> u16 option" where
  "oldest_closed n slot =
     map_option fst
       (min_by_key (\<lambda>(i, fl). seen fl)
         (filter (\<lambda>(i, fl). fslot fl = slot \<and> fin_fwd fl \<and> fin_rev fl)
           (List.map_filter (\<lambda>i. map_option (Pair i) (FlowTable_get (flows n) i)) (FlowTable_ids (flows n)))))"

text \<open>The search for a port; \<open>p + 1\<close> is checked, as everywhere.\<close>

fun alloc_port_by :: "nat \<Rightarrow> u16 \<Rightarrow> (u16 \<Rightarrow> bool run) \<Rightarrow> (u16 option \<times> u16) run" where
  "alloc_port_by 0 next busy = ret (None, next)"
| "alloc_port_by (Suc k) next busy =
     (if \<not> unat next + 1 < 2 ^ 16 then Some (Inl Panic)
      else
        let next' = (if next + 1 \<ge> MASQ_END then MASQ_BASE else next + 1) in
        runb (busy next) (\<lambda>b. if \<not> b then ret (Some next, next') else alloc_port_by k next' busy))"

definition port_busy :: "Nat \<Rightarrow> u8 \<Rightarrow> u32 \<Rightarrow> u16 \<Rightarrow> u16 \<Rightarrow> bool run" where
  "port_busy n proto dip dport p =
     runb (by_rev (flows n) (RKey proto p dip dport)) (\<lambda>r.
       ret (r \<noteq> None \<or> list_ex (\<lambda>q. pub_proto q = proto \<and> pub_node_port q = p) (pubs n)))"

definition alloc_port :: "Nat \<Rightarrow> u8 \<Rightarrow> u32 \<Rightarrow> u16 \<Rightarrow> (u16 option \<times> Nat) run" where
  "alloc_port n proto dip dport =
     runb (alloc_port_by (unat MASQ_END - unat MASQ_BASE) (masq_next n) (port_busy n proto dip dport)) (\<lambda>(r, next).
       ret (r, n\<lparr>masq_next := next\<rparr>))"

definition lookup_flow :: "Nat \<Rightarrow> FKey \<Rightarrow> u64 \<Rightarrow> (u16 option \<times> Nat) run" where
  "lookup_flow n k now =
     runb (by_fwd (flows n) k) (\<lambda>r.
       case r of
         None \<Rightarrow> ret (None, n)
       | Some i \<Rightarrow>
           if expired n i now
           then runb (FlowTable_remove (flows n) i) (\<lambda>r. ret (None, n\<lparr>flows := snd r\<rparr>))
           else (case touch n i now of (None, n') \<Rightarrow> ret (None, n') | (Some _, n') \<Rightarrow> ret (Some i, n')))"

definition slot_full :: "Nat \<Rightarrow> u16 \<Rightarrow> bool" where
  "slot_full n s \<longleftrightarrow> is_full (flows n) \<or> FlowTable_count (flows n) s \<ge> MAX_FLOWS_PER_SLOT"

text \<open>The part of \<^verbatim>\<open>flow_for\<close> that makes room in a full table.\<close>

definition make_room :: "Nat \<Rightarrow> u16 \<Rightarrow> u64 \<Rightarrow> Nat run" where
  "make_room n s now =
     (if slot_full n s then
        runb (maybe_sweep n now) (\<lambda>n.
          if slot_full n s then
            (case oldest_closed n s of
               None \<Rightarrow> ret n
             | Some old \<Rightarrow> runb (FlowTable_remove (flows n) old) (\<lambda>r. ret (n\<lparr>flows := snd r\<rparr>)))
          else ret n)
      else ret n)"

definition flow_for ::
    "NatIo \<Rightarrow> Nat \<Rightarrow> u8 \<Rightarrow> nat \<Rightarrow> u32 \<Rightarrow> u16 \<Rightarrow> u32 \<Rightarrow> u16 \<Rightarrow> u64 \<Rightarrow> ((u16 \<times> bool) option \<times> NatIo \<times> Nat) run" where
  "flow_for io n proto slot sip sport dip dport now =
     runb (lookup_flow n (FKey proto sip dip sport dport) now) (\<lambda>(r, n).
       case r of
         Some i \<Rightarrow> ret (Some (i, False), io, n)
       | None \<Rightarrow>
     (case slot_word slot of
        None \<Rightarrow> ret (None, io, n)
      | Some s \<Rightarrow>
     runb (make_room n s now) (\<lambda>n.
       if is_full (flows n) then
         (if now \<ge> next_full_log n
          then ret (None, emit io LogFull, n\<lparr>next_full_log := saturating_add now FLOW_LOG_EVERY\<rparr>)
          else ret (None, io, n))
       else if FlowTable_count (flows n) s \<ge> MAX_FLOWS_PER_SLOT then
         (if now \<ge> next_slot_full_log n
          then ret (None, emit io (LogSlotFull slot (FlowTable_count (flows n) s)),
                    n\<lparr>next_slot_full_log := saturating_add now FLOW_LOG_EVERY\<rparr>)
          else ret (None, io, n))
       else
         runb (alloc_port n proto dip dport) (\<lambda>(p, n).
           case p of
             None \<Rightarrow> ret (None, io, n)
           | Some np \<Rightarrow>
               runb (FlowTable_insert (flows n)
                   \<lparr>fproto = proto, fslot = s, fin_fwd = False, fin_rev = False, slot_ip = sip, dst_ip = dip,
                    slot_port = sport, dst_port = dport, node_port = np, seen = now\<rparr>) (\<lambda>(i, t).
                 ret (map_option (\<lambda>i. (i, True)) i, io, n\<lparr>flows := t\<rparr>))))))"

definition flow_for_packet ::
    "NatIo \<Rightarrow> Nat \<Rightarrow> u8 \<Rightarrow> nat \<Rightarrow> u32 \<Rightarrow> u16 \<Rightarrow> u32 \<Rightarrow> u16 \<Rightarrow> u8 \<Rightarrow> u64 \<Rightarrow> ((u16 \<times> bool) option \<times> NatIo \<times> Nat) run" where
  "flow_for_packet io n proto slot sip sport dip dport flags now =
     (if proto = PROTO_TCP \<and> flags AND TCP_RST \<noteq> 0
      then runb (lookup_flow n (FKey proto sip dip sport dport) now) (\<lambda>(r, n).
             ret (map_option (\<lambda>i. (i, False)) r, io, n))
      else flow_for io n proto slot sip sport dip dport now)"

section \<open>The rewriting paths\<close>

definition dnat_to_slot ::
    "NatIo \<Rightarrow> nat \<Rightarrow> u8 list \<Rightarrow> nat \<Rightarrow> u8 \<Rightarrow> u32 \<Rightarrow> u32 \<Rightarrow> u16 \<Rightarrow> u16 \<Rightarrow> NatIo \<times> u8 list" where
  "dnat_to_slot io slot f l4 proto old_ip new_ip old_port new_port =
     (let f1 = put32 f (ETH_LEN + 16) new_ip;
          f2 = fix_csum32 f1 (ETH_LEN + 10) old_ip new_ip;
          f3 = rewrite_l4 f2 l4 proto 2 old_ip new_ip old_port new_port;
          f4 = put_mac (put_mac f3 0 (port_mac slot)) 6 HOST_MAC in
      (emit io (Deliver slot f4), f4))"

definition snat_src :: "Uplink \<Rightarrow> u8 list \<Rightarrow> nat \<Rightarrow> u8 \<Rightarrow> u32 \<Rightarrow> u16 \<Rightarrow> u16 \<Rightarrow> u8 list" where
  "snat_src u f l4 proto old_ip old_port new_port =
     (let f1 = put32 f (ETH_LEN + 12) (up_ip u);
          f2 = fix_csum32 f1 (ETH_LEN + 10) old_ip (up_ip u) in
      rewrite_l4 f2 l4 proto 0 old_ip (up_ip u) old_port new_port)"

definition tx_uplink :: "NatIo \<Rightarrow> Uplink \<Rightarrow> u8 list \<Rightarrow> u8 list \<Rightarrow> NatIo \<times> u8 list" where
  "tx_uplink io u f next_hop = (let f1 = put_mac (put_mac f 0 next_hop) 6 (up_mac u) in (emit io (UplinkTx f1), f1))"

definition remove_flow :: "Nat \<Rightarrow> u16 \<Rightarrow> Nat run" where
  "remove_flow n i = runb (FlowTable_remove (flows n) i) (\<lambda>r. ret (n\<lparr>flows := snd r\<rparr>))"

definition reply_in :: "NatIo \<Rightarrow> Nat \<Rightarrow> u8 list \<Rightarrow> nat \<Rightarrow> u8 \<Rightarrow> Uplink \<Rightarrow> u64 \<Rightarrow> (bool \<times> NatIo \<times> Nat \<times> u8 list) run" where
  "reply_in io n f l4 proto u now =
     (let peer_ip = be32 f (ETH_LEN + 12); peer_port = be16 f l4; np = be16 f (l4 + 2) in
      runb (by_rev (flows n) (RKey proto np peer_ip peer_port)) (\<lambda>r.
        case r of
          None \<Rightarrow> ret (False, io, n, f)
        | Some i \<Rightarrow>
            if expired n i now then runb (remove_flow n i) (\<lambda>n. ret (False, io, n, f))
            else
              (case note_tcp_flags n i (byte f (l4 + 13)) True of (_, n1) \<Rightarrow>
              (case touch n1 i now of
                 (None, n2) \<Rightarrow> ret (False, io, n2, f)
               | (Some fl, n2) \<Rightarrow>
                   (case dnat_to_slot io (unat (fslot fl)) f l4 proto (up_ip u) (slot_ip fl) np (slot_port fl) of
                      (io', f') \<Rightarrow> ret (True, io', n2, f'))))))"

definition dnat_in :: "NatIo \<Rightarrow> Nat \<Rightarrow> u8 list \<Rightarrow> nat \<Rightarrow> u8 \<Rightarrow> Uplink \<Rightarrow> bool \<times> NatIo \<times> u8 list" where
  "dnat_in io n f l4 proto u =
     (let dport = be16 f (l4 + 2) in
      case pub_by_node_port n proto dport of
        None \<Rightarrow> (False, io, f)
      | Some m \<Rightarrow>
          (case dnat_to_slot io (unat (pub_slot m)) f l4 proto (up_ip u) (port_ip4 (unat (pub_slot m))) dport (pub_slot_port m) of
             (io', f') \<Rightarrow> (True, io', f')))"

definition inbound :: "NatIo \<Rightarrow> Nat \<Rightarrow> u8 list \<Rightarrow> u64 \<Rightarrow> (bool \<times> NatIo \<times> Nat \<times> u8 list) run" where
  "inbound io n f now =
     (case ipv4_l4 f of
        None \<Rightarrow> ret (False, io, n, f)
      | Some ip \<Rightarrow>
     (case uplink n of
        None \<Rightarrow> ret (False, io, n, f)
      | Some u \<Rightarrow>
          if be32 f (ETH_LEN + 16) \<noteq> up_ip u then ret (False, io, n, f)
          else
            let src_ip = be32 f (ETH_LEN + 12); src_mac = mac_at f 6 in
            runb (reply_in io n f (l4off ip) (ip_proto ip) u now) (\<lambda>(hit, io, n, f).
              let (claimed, io, f) =
                (if hit then (True, emit io (Counted NatReplyIn), f) else dnat_in io n f (l4off ip) (ip_proto ip) u) in
              if \<not> claimed then ret (False, emit io (Counted NatInUnmatched), n, f)
              else ret (True, emit io (Confirm src_ip src_mac now), n, f))))"

definition hairpin_back ::
    "NatIo \<Rightarrow> Nat \<Rightarrow> u8 list \<Rightarrow> nat \<Rightarrow> u8 \<Rightarrow> Pub \<Rightarrow> Uplink \<Rightarrow> u64 \<Rightarrow> (bool \<times> NatIo \<times> Nat \<times> u8 list) run" where
  "hairpin_back io n f l4 proto m u now =
     (let srv_ip = port_ip4 (unat (pub_slot m)); np = be16 f (l4 + 2) in
      runb (by_rev (flows n) (RKey proto np srv_ip (pub_slot_port m))) (\<lambda>r.
        case r of
          None \<Rightarrow> ret (True, io, n, f)
        | Some i \<Rightarrow>
            if expired n i now then runb (remove_flow n i) (\<lambda>n. ret (True, io, n, f))
            else
              (case note_tcp_flags n i (byte f (l4 + 13)) True of (_, n1) \<Rightarrow>
              (case touch n1 i now of
                 (None, n2) \<Rightarrow> ret (True, io, n2, f)
               | (Some fl, n2) \<Rightarrow>
                   let f1 = snat_src u f l4 proto srv_ip (pub_slot_port m) (pub_node_port m) in
                   (case dnat_to_slot io (unat (fslot fl)) f1 l4 proto (up_ip u) (slot_ip fl) np (slot_port fl) of
                      (io', f') \<Rightarrow> ret (True, io', n2, f'))))))"

definition slot_reply :: "NatIo \<Rightarrow> Nat \<Rightarrow> nat \<Rightarrow> u8 list \<Rightarrow> u64 \<Rightarrow> (bool \<times> NatIo \<times> Nat \<times> u8 list) run" where
  "slot_reply io n src f now =
     (case ipv4_l4 f of
        None \<Rightarrow> ret (False, io, n, f)
      | Some ip \<Rightarrow>
     (case uplink n of
        None \<Rightarrow> ret (False, io, n, f)
      | Some u \<Rightarrow>
     let sport = be16 f (l4off ip) in
     (case find (\<lambda>p. pub_proto p = ip_proto ip \<and> unat (pub_slot p) = src \<and> pub_slot_port p = sport) (pubs n) of
        None \<Rightarrow> ret (False, io, n, f)
      | Some m \<Rightarrow>
          let flags = byte f (l4off ip + 13) in
          if ip_proto ip = PROTO_TCP \<and> flags AND TCP_SYN \<noteq> 0 \<and> flags AND TCP_ACK = 0 then ret (False, io, n, f)
          else
            let dst = be32 f (ETH_LEN + 16) in
            if dst = up_ip u then hairpin_back io n f (l4off ip) (ip_proto ip) m u now
            else
              (case neighbor io dst now of
                 (None, io) \<Rightarrow> ret (True, io, n, f)
               | (Some next_hop, io) \<Rightarrow>
                   let src_ip = be32 f (ETH_LEN + 12);
                       f1 = snat_src u f (l4off ip) (ip_proto ip) src_ip sport (pub_node_port m) in
                   (case tx_uplink io u f1 next_hop of (io', f') \<Rightarrow> ret (True, io', n, f'))))))"

definition hairpin_out ::
    "NatIo \<Rightarrow> Nat \<Rightarrow> nat \<Rightarrow> u8 list \<Rightarrow> nat \<Rightarrow> u8 \<Rightarrow> u32 \<Rightarrow> u16 \<Rightarrow> u16 \<Rightarrow> Uplink \<Rightarrow> u64 \<Rightarrow> (bool \<times> NatIo \<times> Nat \<times> u8 list) run" where
  "hairpin_out io n src f l4 proto sip sport dport u now =
     (case pub_by_node_port n proto dport of
        None \<Rightarrow> ret (True, io, n, f)
      | Some m \<Rightarrow>
          let srv = unat (pub_slot m); srv_ip = port_ip4 srv; flags = byte f (l4 + 13) in
          runb (flow_for_packet io n proto src sip sport srv_ip (pub_slot_port m) flags now) (\<lambda>(r, io, n).
            case r of
              None \<Rightarrow> ret (True, emit io (Counted NatFlowFull), n, f)
            | Some (i, _) \<Rightarrow>
                (case note_tcp_flags n i flags False of (reap, n1) \<Rightarrow>
                (case FlowTable_get (flows n1) i of
                   None \<Rightarrow> ret (True, io, n1, f)
                 | Some fl \<Rightarrow>
                     let f1 = snat_src u f l4 proto sip sport (node_port fl) in
                     (case dnat_to_slot io srv f1 l4 proto (up_ip u) srv_ip dport (pub_slot_port m) of
                        (io', f') \<Rightarrow>
                          if reap then runb (remove_flow n1 i) (\<lambda>n2. ret (True, io', n2, f'))
                          else ret (True, io', n1, f'))))))"

definition outbound :: "NatIo \<Rightarrow> Nat \<Rightarrow> nat \<Rightarrow> u8 list \<Rightarrow> u64 \<Rightarrow> (bool \<times> NatIo \<times> Nat \<times> u8 list) run" where
  "outbound io n src f now =
     (case ipv4_l4 f of
        None \<Rightarrow> ret (False, io, n, f)
      | Some ip \<Rightarrow>
     (case uplink n of
        None \<Rightarrow> ret (False, io, n, f)
      | Some u \<Rightarrow>
     let dip = be32 f (ETH_LEN + 16); sip = port_ip4 src; sport = be16 f (l4off ip); dport = be16 f (l4off ip + 2);
         flags = byte f (l4off ip + 13); proto = ip_proto ip in
     if dip = up_ip u then hairpin_out io n src f (l4off ip) proto sip sport dport u now
     else
       (case neighbor io dip now of (hop0, io) \<Rightarrow>
       let known = (hop0 \<noteq> None) in
       (case (if hop0 = None \<and> on_subnet n dip \<and> gateway u \<noteq> 0 then neighbor io (gateway u) now else (hop0, io)) of
          (None, io) \<Rightarrow> ret (True, emit io (Counted NatNoRoute), n, f)
        | (Some next_hop, io) \<Rightarrow>
            runb (flow_for_packet io n proto src sip sport dip dport flags now) (\<lambda>(r, io, n).
              case r of
                None \<Rightarrow> ret (True, emit io (Counted NatFlowFull), n, f)
              | Some (i, created) \<Rightarrow>
                  let io = (if known \<and> \<not> created \<and> proto = PROTO_TCP \<and> flags AND TCP_SYN \<noteq> 0 \<and> flags AND TCP_ACK = 0
                            then emit io (ProbeHop dip now) else io) in
                  (case note_tcp_flags n i flags False of (reap, n1) \<Rightarrow>
                  (case FlowTable_get (flows n1) i of
                     None \<Rightarrow> ret (True, io, n1, f)
                   | Some fl \<Rightarrow>
                       (case tx_uplink io u (snat_src u f (l4off ip) proto sip sport (node_port fl)) next_hop of
                          (io', f') \<Rightarrow>
                            if reap then runb (remove_flow n1 i) (\<lambda>n2. ret (True, io', n2, f'))
                            else ret (True, io', n1, f')))))))))"

end
