(* ===== verification/NatTable.thy ===== *)
theory NatTable
  imports NodeNat
begin

unbundle bit_operations_syntax

text \<open>
  The invariant of the translation state, the loops over the connection table, and the choice of a node
  port: a port that is free is always found, because the flows and the publications together are fewer than
  the ports of the range.
\<close>

section \<open>The invariant\<close>

abbreviation flow_map :: "Nat \<Rightarrow> u16 \<Rightarrow> Flow option" where
  "flow_map n \<equiv> FlowTable_get (flows n)"

definition slot_count :: "(u16 \<Rightarrow> Flow option) \<Rightarrow> u16 \<Rightarrow> nat" where
  "slot_count m s = card {i. \<exists>f. m i = Some f \<and> fslot f = s}"

definition port_ok :: "u16 \<Rightarrow> bool" where
  "port_ok p \<longleftrightarrow> MASQ_BASE \<le> p \<and> p < MASQ_END"

definition flow_ok :: "Flow \<Rightarrow> bool" where
  "flow_ok f \<longleftrightarrow> port_ok (node_port f) \<and> slot_ip f = port_ip4 (unat (fslot f))"

definition map_ok :: "(u16 \<Rightarrow> Flow option) \<Rightarrow> bool" where
  "map_ok m \<longleftrightarrow> (\<forall>s. slot_count m s \<le> MAX_FLOWS_PER_SLOT) \<and> (\<forall>i f. m i = Some f \<longrightarrow> flow_ok f)"

definition pubs_ok :: "Pub list \<Rightarrow> bool" where
  "pubs_ok ps \<longleftrightarrow> length ps \<le> MAX_PUBS \<and> distinct (map (\<lambda>p. (pub_proto p, pub_node_port p)) ps)"

definition nat_inv :: "Nat \<Rightarrow> bool" where
  "nat_inv n \<longleftrightarrow> flow_inv (flows n) \<and> port_ok (masq_next n) \<and> pubs_ok (pubs n) \<and> map_ok (flow_map n)"

lemma nat_invD:
  assumes "nat_inv n"
  shows "flow_inv (flows n)" "port_ok (masq_next n)" "pubs_ok (pubs n)" "map_ok (flow_map n)"
  using assms unfolding nat_inv_def by blast+

lemma slot_count_slab: "slot_count (FlowTable_get t) s = slot_flows (slab t) s"
  by (simp add: slot_count_def slot_flows_def FlowTable_get_def)

lemma count_exact: "flow_inv t \<Longrightarrow> FlowTable_count t s = slot_count (FlowTable_get t) s"
  unfolding slot_count_slab by (rule count_tally_ok [OF flow_invD(8)])

lemma flen_exact: "flow_inv t \<Longrightarrow> flen t = card (dom (FlowTable_get t))"
  using flow_invD(3) by (simp add: live_def dom_def FlowTable_get_def)

lemma flen_le: "flow_inv t \<Longrightarrow> flen t \<le> MAX_FLOWS"
  using free_count [OF flow_invD(1,2), of t] flow_invD(3) [of t] by linarith

lemma map_ok_shrink:
  assumes m: "map_ok m" and s: "m' \<subseteq>\<^sub>m m"
  shows "map_ok m'"
proof -
  have e: "m i = Some f" if "m' i = Some f" for i f using s that unfolding map_le_def by (metis domI)
  have "slot_count m' x \<le> slot_count m x" for x
    unfolding slot_count_def by (rule card_mono) (use e in auto)
  then show ?thesis using m e unfolding map_ok_def by (meson le_trans)
qed

lemma map_ok_same:
  assumes m: "map_ok m" and i: "m i = Some f" and g: "fslot g = fslot f" "node_port g = node_port f" "slot_ip g = slot_ip f"
  shows "map_ok (m(i \<mapsto> g))"
proof -
  have "slot_count (m(i \<mapsto> g)) s = slot_count m s" for s
    unfolding slot_count_def by (rule arg_cong [where f = card]) (use i g(1) in auto)
  moreover have "flow_ok h" if "(m(i \<mapsto> g)) j = Some h" for j h
    using m i g that unfolding map_ok_def flow_ok_def by (metis fun_upd_apply option.inject)
  ultimately show ?thesis using m unfolding map_ok_def by simp
qed

lemma map_ok_add:
  assumes m: "map_ok m" and i: "m i = None" and c: "slot_count m (fslot f) < MAX_FLOWS_PER_SLOT" and f: "flow_ok f"
  shows "map_ok (m(i \<mapsto> f))"
proof -
  have "slot_count (m(i \<mapsto> f)) s \<le> MAX_FLOWS_PER_SLOT" for s
  proof -
    let ?A = "{j. \<exists>g. m j = Some g \<and> fslot g = s}"
    have "{j. \<exists>g. (m(i \<mapsto> f)) j = Some g \<and> fslot g = s} = (if fslot f = s then insert i ?A else ?A)" using i by auto
    moreover have "card (insert i ?A) \<le> card ?A + 1" by (simp add: card_insert_if)
    ultimately show ?thesis using m c unfolding map_ok_def slot_count_def by (cases "fslot f = s") auto
  qed
  moreover have "flow_ok g" if "(m(i \<mapsto> f)) j = Some g" for j g
    using m f that unfolding map_ok_def by (metis fun_upd_apply option.inject)
  ultimately show ?thesis unfolding map_ok_def by blast
qed

section \<open>The loops over the table\<close>

definition drop_flows :: "(Flow \<Rightarrow> bool) \<Rightarrow> (u16 \<Rightarrow> Flow option) \<Rightarrow> u16 \<Rightarrow> Flow option" where
  "drop_flows p m i = (case m i of None \<Rightarrow> None | Some f \<Rightarrow> if p f then None else Some f)"

lemma drop_flows_le: "drop_flows p m \<subseteq>\<^sub>m m"
  unfolding map_le_def drop_flows_def by (auto split: option.splits if_splits)

lemma drop_flows_Some: "drop_flows p m i = Some f \<longleftrightarrow> m i = Some f \<and> \<not> p f"
  by (auto simp: drop_flows_def split: option.splits)

lemma remove_where_total:
  "flow_inv t \<Longrightarrow> \<exists>t'. remove_where p xs t = ret t' \<and> flow_inv t' \<and>
     FlowTable_get t' = (\<lambda>i. if i \<in> set xs then drop_flows p (FlowTable_get t) i else FlowTable_get t i)"
proof (induction xs arbitrary: t)
  case Nil
  then show ?case by (intro exI [of _ t]) simp
next
  case (Cons x xs)
  show ?case
  proof (cases "case FlowTable_get t x of None \<Rightarrow> False | Some f \<Rightarrow> p f")
    case True
    obtain t1 where t1: "FlowTable_remove t x = ret (FlowTable_get t x \<noteq> None, t1)" "flow_inv t1"
      "FlowTable_get t1 = (FlowTable_get t)(x := None)"
      using remove_total [OF Cons.prems, of x] by blast
    obtain t' where t': "remove_where p xs t1 = ret t'" "flow_inv t'"
      "FlowTable_get t' = (\<lambda>i. if i \<in> set xs then drop_flows p (FlowTable_get t1) i else FlowTable_get t1 i)"
      using Cons.IH [OF t1(2)] by blast
    have "FlowTable_get t' i = (if i \<in> set (x # xs) then drop_flows p (FlowTable_get t) i else FlowTable_get t i)" for i
      using True unfolding t'(3) t1(3) drop_flows_def by (cases "i = x") (auto split: option.splits)
    then show ?thesis using True t1(1) t'(1,2) by (intro exI [of _ t']) (simp add: fun_eq_iff)
  next
    case False
    obtain t' where t': "remove_where p xs t = ret t'" "flow_inv t'"
      "FlowTable_get t' = (\<lambda>i. if i \<in> set xs then drop_flows p (FlowTable_get t) i else FlowTable_get t i)"
      using Cons.IH [OF Cons.prems] by blast
    have "FlowTable_get t' i = (if i \<in> set (x # xs) then drop_flows p (FlowTable_get t) i else FlowTable_get t i)" for i
      using False unfolding t'(3) drop_flows_def by (cases "i = x") (auto split: option.splits)
    then show ?thesis using False t'(1,2) by (intro exI [of _ t']) (auto simp: fun_eq_iff)
  qed
qed

lemma all_ids_set: "set all_ids = {i. unat i < MAX_FLOWS}"
proof (rule set_eqI)
  fix i :: u16
  show "i \<in> set all_ids \<longleftrightarrow> i \<in> {i. unat i < MAX_FLOWS}"
  proof
    assume "i \<in> set all_ids"
    then obtain k where "k < MAX_FLOWS" "i = word_of_nat k" unfolding all_ids_def by auto
    then show "i \<in> {i. unat i < MAX_FLOWS}" by (simp add: MAX_FLOWS_def unat_of_nat take_bit_nat_eq_self)
  next
    assume "i \<in> {i. unat i < MAX_FLOWS}"
    then have "i = word_of_nat (unat i)" "unat i \<in> set [0..<MAX_FLOWS]" by simp_all
    then show "i \<in> set all_ids" unfolding all_ids_def set_map by (rule image_eqI)
  qed
qed

lemma remove_where_all:
  assumes inv: "flow_inv t"
  shows "\<exists>t'. remove_where p all_ids t = ret t' \<and> flow_inv t' \<and> FlowTable_get t' = drop_flows p (FlowTable_get t)"
proof -
  obtain t' where t': "remove_where p all_ids t = ret t'" "flow_inv t'"
    "FlowTable_get t' = (\<lambda>i. if i \<in> set all_ids then drop_flows p (FlowTable_get t) i else FlowTable_get t i)"
    using remove_where_total [OF inv] by blast
  have "FlowTable_get t i = drop_flows p (FlowTable_get t) i" if "i \<notin> set all_ids" for i
  proof -
    have "slab_get (slab t) i = None" using that slab_get_range flow_invD(1) [OF inv] unfolding all_ids_set by fastforce
    then show ?thesis by (simp add: drop_flows_def FlowTable_get_def)
  qed
  then have "FlowTable_get t' = drop_flows p (FlowTable_get t)" unfolding t'(3) by (auto simp: fun_eq_iff)
  then show ?thesis using t'(1,2) by blast
qed

lemma nat_inv_flows:
  assumes inv: "nat_inv n" and t: "flow_inv t" and m: "map_ok (FlowTable_get t)"
  shows "nat_inv (n\<lparr>flows := t\<rparr>)"
  using inv t m unfolding nat_inv_def by simp

lemma sweep_expired_total:
  assumes inv: "nat_inv n"
  shows "\<exists>t. sweep_expired n now = ret (n\<lparr>flows := t\<rparr>) \<and> nat_inv (n\<lparr>flows := t\<rparr>) \<and>
    FlowTable_get t = drop_flows (\<lambda>f. flow_expired f now) (flow_map n)"
proof -
  obtain t where t: "remove_where (\<lambda>f. flow_expired f now) all_ids (flows n) = ret t" "flow_inv t"
    "FlowTable_get t = drop_flows (\<lambda>f. flow_expired f now) (flow_map n)"
    using remove_where_all [OF nat_invD(1) [OF inv]] by blast
  have "map_ok (FlowTable_get t)" unfolding t(3) by (rule map_ok_shrink [OF nat_invD(4) [OF inv] drop_flows_le])
  then show ?thesis using t nat_inv_flows [OF inv t(2)] by (intro exI [of _ t]) (simp add: sweep_expired_def)
qed

lemma sweep_total:
  assumes inv: "nat_inv n"
  shows "\<exists>n'. sweep n now = ret n' \<and> nat_inv n' \<and> flow_map n' = drop_flows (\<lambda>f. flow_expired f now) (flow_map n) \<and>
    pubs n' = pubs n \<and> uplink n' = uplink n \<and> masq_next n' = masq_next n"
proof -
  obtain t where t: "sweep_expired n now = ret (n\<lparr>flows := t\<rparr>)" "nat_inv (n\<lparr>flows := t\<rparr>)"
    "FlowTable_get t = drop_flows (\<lambda>f. flow_expired f now) (flow_map n)"
    using sweep_expired_total [OF inv] by blast
  let ?n = "n\<lparr>flows := t, next_sweep := saturating_add now FLOW_SWEEP_EVERY\<rparr>"
  have "nat_inv ?n" using t(2) unfolding nat_inv_def by simp
  then show ?thesis using t(1,3) by (intro exI [of _ ?n]) (simp add: sweep_def)
qed

section \<open>The node port\<close>

definition next_port :: "u16 \<Rightarrow> u16" where
  "next_port p = (if p + 1 \<ge> MASQ_END then MASQ_BASE else p + 1)"

lemma MASQ_unat: "unat MASQ_BASE = 20000" "unat MASQ_END = 49152"
  by (simp_all add: MASQ_BASE_def MASQ_END_def)

lemma port_ok_unat: "port_ok p \<longleftrightarrow> 20000 \<le> unat p \<and> unat p < 49152"
  unfolding port_ok_def word_le_nat_alt word_less_nat_alt MASQ_unat ..

lemma next_port_unat:
  assumes "port_ok p"
  shows "port_ok (next_port p)" "unat (next_port p) = 20000 + (unat p - 20000 + 1) mod 29152" "unat p + 1 < 2 ^ 16"
proof -
  have p: "20000 \<le> unat p" "unat p < 49152" using assms unfolding port_ok_unat by blast+
  have u: "unat (p + 1) = unat p + 1" using unat_add_exact [of p 1] p(2) by simp
  show e: "unat (next_port p) = 20000 + (unat p - 20000 + 1) mod 29152"
  proof (cases "unat p + 1 = 49152")
    case True
    then have "p + 1 \<ge> MASQ_END" using u by (simp add: word_le_nat_alt MASQ_unat)
    then have "unat (next_port p) = 20000" by (simp add: next_port_def MASQ_unat)
    moreover have "unat p - 20000 + 1 = 29152" using True by simp
    ultimately show ?thesis by simp
  next
    case False
    then have "\<not> p + 1 \<ge> MASQ_END" using u p by (simp add: word_le_nat_alt MASQ_unat)
    then have "unat (next_port p) = unat p + 1" using u by (simp add: next_port_def)
    moreover have "(unat p - 20000 + 1) mod 29152 = unat p - 20000 + 1" using False p by simp
    ultimately show ?thesis using p by simp
  qed
  show "port_ok (next_port p)" unfolding port_ok_unat e by simp
  show "unat p + 1 < 2 ^ 16" using p by simp
qed

lemma next_port_pow:
  assumes "port_ok p"
  shows "port_ok ((next_port ^^ j) p) \<and> unat ((next_port ^^ j) p) = 20000 + (unat p - 20000 + j) mod 29152"
proof (induction j)
  case 0
  have p: "20000 \<le> unat p" "unat p < 49152" using assms unfolding port_ok_unat by blast+
  then have "(unat p - 20000) mod 29152 = unat p - 20000" by simp
  then show ?case using assms p by simp
next
  case (Suc j)
  note n = next_port_unat [OF conjunct1 [OF Suc.IH]]
  have "(unat p - 20000 + j) mod 29152 + 1 = (unat p - 20000 + j) mod 29152 + 1 mod 29152" by simp
  then have "((unat p - 20000 + j) mod 29152 + 1) mod 29152 = (unat p - 20000 + Suc j) mod 29152"
    by (simp add: mod_simps)
  then show ?case using n(1,2) Suc.IH by simp
qed

lemma next_port_covers:
  assumes p: "port_ok p" and q: "port_ok q"
  shows "\<exists>j < 29152. (next_port ^^ j) p = q"
proof -
  have b: "20000 \<le> unat p" "unat p < 49152" "20000 \<le> unat q" "unat q < 49152" using p q unfolding port_ok_unat by blast+
  define j where "j = (unat q + 29152 - unat p) mod 29152"
  have "(unat p - 20000 + j) mod 29152 = (unat p - 20000 + (unat q + 29152 - unat p)) mod 29152"
    unfolding j_def by (simp add: mod_simps)
  also have "\<dots> = (unat q - 20000 + 29152) mod 29152" using b by simp
  also have "\<dots> = (unat q - 20000) mod 29152" by (rule mod_add_self2)
  also have "\<dots> = unat q - 20000" using b by (intro mod_less) linarith
  finally have "unat ((next_port ^^ j) p) = unat q" using next_port_pow [OF p, of j] b by simp
  then have "(next_port ^^ j) p = q" by (simp add: word_unat_eq_iff)
  moreover have "j < 29152" by (simp add: j_def)
  ultimately show ?thesis by blast
qed

lemma alloc_port_by_total:
  assumes busy: "\<And>p. busy p = ret (B p)"
  shows "port_ok p \<Longrightarrow> \<exists>r q. alloc_port_by k p busy = ret (r, q) \<and> port_ok q \<and>
    (case r of Some x \<Rightarrow> port_ok x \<and> \<not> B x | None \<Rightarrow> \<forall>j < k. B ((next_port ^^ j) p))"
proof (induction k arbitrary: p)
  case 0
  then show ?case by (intro exI [of _ None] exI [of _ p]) simp
next
  case (Suc k)
  note n = next_port_unat [OF Suc.prems]
  have st: "alloc_port_by (Suc k) p busy = (if \<not> B p then ret (Some p, next_port p) else alloc_port_by k (next_port p) busy)"
    using n(3) by (simp add: busy next_port_def Let_def)
  show ?case
  proof (cases "B p")
    case False
    then show ?thesis using st Suc.prems n(1) by (intro exI [of _ "Some p"] exI [of _ "next_port p"]) simp
  next
    case True
    obtain r q where rq: "alloc_port_by k (next_port p) busy = ret (r, q)" "port_ok q"
      "case r of Some x \<Rightarrow> port_ok x \<and> \<not> B x | None \<Rightarrow> \<forall>j < k. B ((next_port ^^ j) (next_port p))"
      using Suc.IH [OF n(1)] by blast
    have "\<forall>j < Suc k. B ((next_port ^^ j) p)" if "r = None"
    proof (intro allI impI)
      fix j
      assume "j < Suc k"
      then show "B ((next_port ^^ j) p)"
        using True rq(3) that by (cases j) (simp_all add: funpow_swap1)
    qed
    then show ?thesis using st True rq by (intro exI [of _ r] exI [of _ q]) (auto split: option.splits)
  qed
qed

end
