(* ===== verification/NatFlow.thy ===== *)
theory NatFlow
  imports NatTable
begin

unbundle bit_operations_syntax

text \<open>Finding or making the flow of an outgoing packet.\<close>

section \<open>A free port exists\<close>

definition busy_port :: "Nat \<Rightarrow> u8 \<Rightarrow> u32 \<Rightarrow> u16 \<Rightarrow> u16 \<Rightarrow> bool" where
  "busy_port n proto dip dport p \<longleftrightarrow> (\<exists>i f. flow_map n i = Some f \<and> rkey f = RKey proto p dip dport) \<or>
     (\<exists>q \<in> set (pubs n). pub_proto q = proto \<and> pub_node_port q = p)"

lemma port_busy_total:
  assumes "nat_inv n"
  shows "port_busy n proto dip dport p = ret (busy_port n proto dip dport p)"
proof -
  obtain r where r: "by_rev (flows n) (RKey proto p dip dport) = ret r"
    "\<forall>i. r = Some i \<longleftrightarrow> (\<exists>f. flow_map n i = Some f \<and> rkey f = RKey proto p dip dport)"
    using by_rev_total [OF nat_invD(1) [OF assms]] by blast
  have "r \<noteq> None \<longleftrightarrow> (\<exists>i f. flow_map n i = Some f \<and> rkey f = RKey proto p dip dport)" using r(2) by (metis not_None_eq)
  then show ?thesis unfolding port_busy_def r(1) by (simp add: busy_port_def list_ex_iff)
qed

lemma ports_card: "card {p. port_ok p} = 29152"
proof -
  have e: "unat ` {p. port_ok p} = {20000..<49152}"
  proof (rule set_eqI)
    fix k
    show "k \<in> unat ` {p. port_ok p} \<longleftrightarrow> k \<in> {20000..<49152}"
    proof
      assume k: "k \<in> {20000..<49152}"
      then have u: "unat (word_of_nat k :: u16) = k" by (simp add: unat_of_nat take_bit_nat_eq_self)
      show "k \<in> unat ` {p. port_ok p}"
        by (rule image_eqI [of _ _ "word_of_nat k"]) (use k u in \<open>simp_all add: port_ok_unat\<close>)
    qed (auto simp: port_ok_unat)
  qed
  have "inj_on unat {p. port_ok p}" by (rule inj_onI) (simp add: word_unat_eq_iff)
  then have "card {p. port_ok p} = card {20000..<49152 :: nat}" using card_image e by metis
  then show ?thesis by simp
qed

lemma free_port_exists:
  assumes inv: "nat_inv n"
  shows "\<exists>p. port_ok p \<and> \<not> busy_port n proto dip dport p"
proof (rule ccontr)
  assume no: "\<not> (\<exists>p. port_ok p \<and> \<not> busy_port n proto dip dport p)"
  let ?F = "(\<lambda>i. node_port (the (flow_map n i))) ` dom (flow_map n)" and ?P = "pub_node_port ` set (pubs n)"
  have "{p. port_ok p} \<subseteq> ?F \<union> ?P"
  proof
    fix p
    assume "p \<in> {p. port_ok p}"
    then have "busy_port n proto dip dport p" using no by blast
    then show "p \<in> ?F \<union> ?P"
      unfolding busy_port_def
    proof
      assume "\<exists>i f. flow_map n i = Some f \<and> rkey f = RKey proto p dip dport"
      then obtain i f where f: "flow_map n i = Some f" "rkey f = RKey proto p dip dport" by blast
      have "p \<in> ?F" by (rule image_eqI [of _ _ i]) (use f in \<open>auto simp: rkey_def\<close>)
      then show ?thesis by blast
    qed blast
  qed
  then have "29152 \<le> card (?F \<union> ?P)" unfolding ports_card [symmetric] by (intro card_mono) simp_all
  also have "\<dots> \<le> card ?F + card ?P" by (rule card_Un_le)
  also have "\<dots> \<le> flen (flows n) + length (pubs n)"
    unfolding flen_exact [OF nat_invD(1) [OF inv]]
    by (intro add_mono card_image_le order_trans [OF card_image_le card_length]) simp_all
  also have "\<dots> \<le> MAX_FLOWS + MAX_PUBS"
    using flen_le [OF nat_invD(1) [OF inv]] nat_invD(3) [OF inv] unfolding pubs_ok_def by linarith
  finally show False by (simp add: MAX_FLOWS_def MAX_PUBS_def)
qed

lemma alloc_port_total:
  assumes inv: "nat_inv n"
  shows "\<exists>p q. alloc_port n proto dip dport = ret (Some p, n\<lparr>masq_next := q\<rparr>) \<and> port_ok p \<and> port_ok q \<and>
    \<not> busy_port n proto dip dport p"
proof -
  let ?B = "busy_port n proto dip dport"
  have k: "unat MASQ_END - unat MASQ_BASE = 29152" by (simp add: MASQ_unat)
  obtain r q where rq: "alloc_port_by 29152 (masq_next n) (port_busy n proto dip dport) = ret (r, q)" "port_ok q"
    "case r of Some x \<Rightarrow> port_ok x \<and> \<not> ?B x | None \<Rightarrow> \<forall>j < 29152. ?B ((next_port ^^ j) (masq_next n))"
    using alloc_port_by_total [where B = "?B" and busy = "port_busy n proto dip dport", OF port_busy_total [OF inv] nat_invD(2) [OF inv]]
    by blast
  obtain x where x: "port_ok x" "\<not> ?B x" using free_port_exists [OF inv] by blast
  obtain j where j: "j < 29152" "(next_port ^^ j) (masq_next n) = x" using next_port_covers [OF nat_invD(2) [OF inv] x(1)] by blast
  obtain p where p: "r = Some p" using rq(3) j x(2) by (cases r) auto
  show ?thesis using rq p by (intro exI [of _ p] exI [of _ q]) (simp add: alloc_port_def k)
qed

section \<open>Changing one flow\<close>

lemma put_total:
  assumes inv: "nat_inv n" and f: "flow_map n i = Some f" and s: "same_flow f g" and ip: "slot_ip g = slot_ip f" "node_port g = node_port f"
  shows "nat_inv (n\<lparr>flows := FlowTable_put (flows n) i g\<rparr>)" "FlowTable_get (FlowTable_put (flows n) i g) = (flow_map n)(i \<mapsto> g)"
proof -
  note p = put_inv [OF nat_invD(1) [OF inv] f s]
  show "FlowTable_get (FlowTable_put (flows n) i g) = (flow_map n)(i \<mapsto> g)" by (rule p(2))
  have "fslot g = fslot f" using s unfolding same_flow_def by simp
  then have "map_ok (FlowTable_get (FlowTable_put (flows n) i g))"
    unfolding p(2) using ip by (intro map_ok_same [OF nat_invD(4) [OF inv] f]) simp_all
  then show "nat_inv (n\<lparr>flows := FlowTable_put (flows n) i g\<rparr>)" by (rule nat_inv_flows [OF inv p(1)])
qed

lemma same_flow_touch: "same_flow f (f\<lparr>seen := x\<rparr>)" "same_flow f (f\<lparr>fin_fwd := a\<rparr>)" "same_flow f (f\<lparr>fin_rev := b\<rparr>)"
  "same_flow f (f\<lparr>fin_fwd := a, fin_rev := b\<rparr>)"
  by (simp_all add: same_flow_def fkey_def rkey_def)

lemma touch_total:
  assumes inv: "nat_inv n" and f: "flow_map n i = Some f"
  shows "\<exists>n'. touch n i now = (Some (f\<lparr>seen := now\<rparr>), n') \<and> nat_inv n' \<and> flow_map n' = (flow_map n)(i \<mapsto> f\<lparr>seen := now\<rparr>) \<and>
    pubs n' = pubs n \<and> uplink n' = uplink n"
  using put_total [OF inv f same_flow_touch(1), of now] f
  by (intro exI [of _ "n\<lparr>flows := FlowTable_put (flows n) i (f\<lparr>seen := now\<rparr>)\<rparr>"]) (simp add: touch_def Let_def)

lemma note_tcp_flags_total:
  assumes inv: "nat_inv n"
  shows "\<exists>b n'. note_tcp_flags n i flags rv = (b, n') \<and> nat_inv n' \<and> pubs n' = pubs n \<and> uplink n' = uplink n \<and>
    (case flow_map n i of
       None \<Rightarrow> n' = n
     | Some f \<Rightarrow> \<exists>g. flow_map n' = (flow_map n)(i \<mapsto> g) \<and> same_flow f g \<and> slot_ip g = slot_ip f \<and> slot_port g = slot_port f \<and>
         node_port g = node_port f)"
proof (cases "flow_map n i")
  case None
  then show ?thesis using inv by (intro exI [of _ False] exI [of _ n]) (simp add: note_tcp_flags_def)
next
  case (Some f)
  have id: "flow_map n = (flow_map n)(i \<mapsto> f)" using Some by (simp add: fun_eq_iff)
  have sf: "same_flow f f" by (simp add: same_flow_def)
  consider (skip) b where "note_tcp_flags n i flags rv = (b, n)"
    | (flag) g where "note_tcp_flags n i flags rv = (False, n\<lparr>flows := FlowTable_put (flows n) i g\<rparr>)"
        "g = f\<lparr>fin_fwd := True, fin_rev := True\<rparr> \<or> g = f\<lparr>fin_rev := True\<rparr> \<or> g = f\<lparr>fin_fwd := True\<rparr>"
  proof -
    let ?e = "note_tcp_flags n i flags rv" and ?p = "\<lambda>g. n\<lparr>flows := FlowTable_put (flows n) i g\<rparr>"
    have "?e = (True, n) \<or> ?e = (False, n) \<or> ?e = (False, ?p (f\<lparr>fin_fwd := True, fin_rev := True\<rparr>)) \<or> ?e = (False, ?p (f\<lparr>fin_rev := True\<rparr>)) \<or>
        ?e = (False, ?p (f\<lparr>fin_fwd := True\<rparr>))"
      using Some by (simp add: note_tcp_flags_def)
    then show thesis using skip flag by blast
  qed
  then show ?thesis
  proof cases
    case skip
    then show ?thesis using inv Some id sf by (intro exI [of _ b] exI [of _ n]) auto
  next
    case flag
    have g: "same_flow f g" "slot_ip g = slot_ip f" "slot_port g = slot_port f" "node_port g = node_port f"
      using flag(2) same_flow_touch by auto
    show ?thesis
      using flag(1) put_total [OF inv Some g(1,2,4)] g Some
      by (intro exI [of _ False] exI [of _ "n\<lparr>flows := FlowTable_put (flows n) i g\<rparr>"]) auto
  qed
qed

lemma remove_flow_total:
  assumes inv: "nat_inv n"
  shows "\<exists>t. FlowTable_remove (flows n) i = ret (flow_map n i \<noteq> None, t) \<and> nat_inv (n\<lparr>flows := t\<rparr>) \<and> FlowTable_get t = (flow_map n)(i := None)"
proof -
  obtain t where t: "FlowTable_remove (flows n) i = ret (flow_map n i \<noteq> None, t)" "flow_inv t" "FlowTable_get t = (flow_map n)(i := None)"
    using remove_total [OF nat_invD(1) [OF inv]] by blast
  have "(flow_map n)(i := None) \<subseteq>\<^sub>m flow_map n" by (simp add: map_le_def)
  then have "map_ok (FlowTable_get t)" unfolding t(3) by (rule map_ok_shrink [OF nat_invD(4) [OF inv]])
  then show ?thesis using t nat_inv_flows [OF inv t(2)] by blast
qed

section \<open>Looking a flow up\<close>

lemma lookup_flow_cases:
  assumes inv: "nat_inv n"
  obtains (hit) i f n' where "lookup_flow n k now = ret (Some i, n')" "nat_inv n'" "pubs n' = pubs n" "uplink n' = uplink n"
      "flow_map n i = Some f" "fkey f = k" "\<not> flow_expired f now" "flow_map n' = (flow_map n)(i \<mapsto> f\<lparr>seen := now\<rparr>)"
  | (miss) n' where "lookup_flow n k now = ret (None, n')" "nat_inv n'" "pubs n' = pubs n" "uplink n' = uplink n"
      "\<And>i f. flow_map n' i = Some f \<Longrightarrow> fkey f \<noteq> k" "flow_map n' \<subseteq>\<^sub>m flow_map n" "masq_next n' = masq_next n"
proof -
  obtain r where r: "by_fwd (flows n) k = ret r" "\<forall>i. r = Some i \<longleftrightarrow> (\<exists>f. flow_map n i = Some f \<and> fkey f = k)"
    using by_fwd_total [OF nat_invD(1) [OF inv]] by blast
  show thesis
  proof (cases r)
    case None
    have l: "lookup_flow n k now = ret (None, n)" unfolding lookup_flow_def r(1) None by simp
    show thesis by (rule miss [OF l inv]) (use r(2) None in auto)
  next
    case (Some i)
    then obtain f where f: "flow_map n i = Some f" "fkey f = k" using r(2) by blast
    show thesis
    proof (cases "flow_expired f now")
      case True
      obtain t where t: "FlowTable_remove (flows n) i = ret (flow_map n i \<noteq> None, t)" "nat_inv (n\<lparr>flows := t\<rparr>)" "FlowTable_get t = (flow_map n)(i := None)"
        using remove_flow_total [OF inv] by blast
      have l: "lookup_flow n k now = ret (None, n\<lparr>flows := t\<rparr>)"
        unfolding lookup_flow_def r(1) Some using True f(1) t(1) by (simp add: expired_def)
      have "fkey g \<noteq> k" if "((flow_map n)(i := None)) j = Some g" for j g
        using that r(2) Some by (auto split: if_splits)
      then show thesis by (intro miss [OF l t(2)]) (simp_all add: t(3) map_le_def)
    next
      case False
      obtain n' where n': "touch n i now = (Some (f\<lparr>seen := now\<rparr>), n')" "nat_inv n'" "flow_map n' = (flow_map n)(i \<mapsto> f\<lparr>seen := now\<rparr>)"
        "pubs n' = pubs n" "uplink n' = uplink n"
        using touch_total [OF inv f(1)] by blast
      have l: "lookup_flow n k now = ret (Some i, n')"
        unfolding lookup_flow_def r(1) Some using False f(1) n'(1) by (simp add: expired_def)
      show thesis by (rule hit [OF l n'(2,4,5) f False n'(3)])
    qed
  qed
qed

section \<open>Making room\<close>

lemma min_by_key_spec:
  "min_by_key key xs = None \<longleftrightarrow> xs = []"
  "min_by_key key xs = Some x \<Longrightarrow> x \<in> set xs \<and> (\<forall>y \<in> set xs. key x \<le> key y)"
proof -
  show n: "min_by_key key xs = None \<longleftrightarrow> xs = []" for xs by (cases xs) (auto split: option.splits if_splits)
  show "min_by_key key xs = Some x \<Longrightarrow> x \<in> set xs \<and> (\<forall>y \<in> set xs. key x \<le> key y)"
  proof (induction xs arbitrary: x)
    case Nil
    then show ?case by simp
  next
    case (Cons a xs)
    show ?case
    proof (cases "min_by_key key xs")
      case None
      then show ?thesis using Cons.prems n by simp
    next
      case (Some y)
      have y: "y \<in> set xs" "\<forall>z \<in> set xs. key y \<le> key z" using Cons.IH [OF Some] by blast+
      show ?thesis
      proof (cases "key y < key a")
        case True
        then show ?thesis using Cons.prems Some y by auto
      next
        case False
        then show ?thesis using Cons.prems Some y by (auto intro: order_trans)
      qed
    qed
  qed
qed

text \<open>What is recycled is a closed flow of the slot that was seen least recently.\<close>

lemma oldest_closed_spec:
  assumes "oldest_closed n s = Some i"
  shows "\<exists>f. flow_map n i = Some f \<and> fslot f = s \<and> fin_fwd f \<and> fin_rev f"
proof -
  obtain f where m: "min_by_key (\<lambda>(i, fl). seen fl) (filter (\<lambda>(i, fl). fslot fl = s \<and> fin_fwd fl \<and> fin_rev fl)
      (List.map_filter (\<lambda>i. map_option (Pair i) (flow_map n i)) (FlowTable_ids (flows n)))) = Some (i, f)"
    using assms unfolding oldest_closed_def by auto
  have "(i, f) \<in> set (filter (\<lambda>(i, fl). fslot fl = s \<and> fin_fwd fl \<and> fin_rev fl)
      (List.map_filter (\<lambda>i. map_option (Pair i) (flow_map n i)) (FlowTable_ids (flows n))))"
    by (rule conjunct1 [OF min_by_key_spec(2) [OF m]])
  then show ?thesis by (auto simp: List.map_filter_def)
qed

lemma oldest_closed_none:
  assumes inv: "flow_inv (flows n)" and no: "oldest_closed n s = None" and f: "flow_map n i = Some f" "fslot f = s"
  shows "\<not> (fin_fwd f \<and> fin_rev f)"
proof
  assume c: "fin_fwd f \<and> fin_rev f"
  have g: "slab_get (slab (flows n)) i = Some f" using f(1) by (simp add: FlowTable_get_def)
  have il: "unat i < length (slab (flows n))" by (rule slab_get_range) (use g in simp)
  have sl: "slab (flows n) ! unat i \<noteq> None" using g il by (simp add: slab_get_def list_get_def)
  have "i \<in> set (FlowTable_ids (flows n))"
    unfolding FlowTable_ids_def set_map by (rule image_eqI [of _ _ "unat i"]) (use il sl in simp_all)
  then have "(i, f) \<in> set (filter (\<lambda>(i, fl). fslot fl = s \<and> fin_fwd fl \<and> fin_rev fl)
      (List.map_filter (\<lambda>i. map_option (Pair i) (flow_map n i)) (FlowTable_ids (flows n))))"
    using f c by (force simp: List.map_filter_def)
  then show False using no unfolding oldest_closed_def option.map_disc_iff min_by_key_spec(1) by simp
qed

lemma slot_full_iff: "nat_inv n \<Longrightarrow> slot_full n s \<longleftrightarrow> flen (flows n) = MAX_FLOWS \<or> slot_count (flow_map n) s = MAX_FLOWS_PER_SLOT"
  using flen_le [OF nat_invD(1)] nat_invD(4) count_exact [OF nat_invD(1)]
  unfolding slot_full_def is_full_def map_ok_def by (metis le_antisym order_refl)

lemma remove_makes_room:
  assumes inv: "nat_inv n" and t: "nat_inv (n\<lparr>flows := t\<rparr>)" "FlowTable_get t = (flow_map n)(i := None)" and f: "flow_map n i = Some f"
  shows "\<not> slot_full (n\<lparr>flows := t\<rparr>) (fslot f)"
proof -
  have "flen t = card (dom (flow_map n) - {i})" using flen_exact [OF nat_invD(1) [OF t(1)]] t(2) by simp
  also have "\<dots> < card (dom (flow_map n))" by (rule card_Diff1_less) (use f in auto)
  finally have a: "flen t < MAX_FLOWS" using flen_exact [OF nat_invD(1) [OF inv]] flen_le [OF nat_invD(1) [OF inv]] by simp
  let ?A = "{j. \<exists>g. flow_map n j = Some g \<and> fslot g = fslot f}"
  have "{j. \<exists>g. ((flow_map n)(i := None)) j = Some g \<and> fslot g = fslot f} = ?A - {i}" by auto
  moreover have "card (?A - {i}) < card ?A" by (rule card_Diff1_less) (use f in auto)
  ultimately have "slot_count (FlowTable_get t) (fslot f) < slot_count (flow_map n) (fslot f)" unfolding slot_count_def t(2) by simp
  moreover have "slot_count (flow_map n) (fslot f) \<le> MAX_FLOWS_PER_SLOT" using nat_invD(4) [OF inv] unfolding map_ok_def by blast
  ultimately show ?thesis using a unfolding slot_full_iff [OF t(1)] by simp
qed

text \<open>A slot that is still full afterwards has no closed flow left.\<close>

definition no_closed :: "Nat \<Rightarrow> u16 \<Rightarrow> bool" where
  "no_closed n s \<longleftrightarrow> (\<forall>i f. flow_map n i = Some f \<and> fslot f = s \<longrightarrow> \<not> (fin_fwd f \<and> fin_rev f))"

lemma maybe_sweep_total:
  assumes inv: "nat_inv n"
  shows "\<exists>n'. maybe_sweep n now = ret n' \<and> nat_inv n' \<and> flow_map n' \<subseteq>\<^sub>m flow_map n \<and> pubs n' = pubs n \<and> uplink n' = uplink n"
proof (cases "next_sweep n \<noteq> 0 \<and> now < next_sweep n")
  case True
  then show ?thesis using inv by (intro exI [of _ n]) (simp add: maybe_sweep_def)
next
  case False
  obtain n' where n': "sweep n now = ret n'" "nat_inv n'" "flow_map n' = drop_flows (\<lambda>f. flow_expired f now) (flow_map n)"
    "pubs n' = pubs n" "uplink n' = uplink n" using sweep_total [OF inv] by blast
  show ?thesis unfolding maybe_sweep_def if_not_P [OF False] using n' drop_flows_le by (intro exI [of _ n']) simp
qed

lemma make_room_total:
  assumes inv: "nat_inv n"
  shows "\<exists>n'. make_room n s now = ret n' \<and> nat_inv n' \<and> flow_map n' \<subseteq>\<^sub>m flow_map n \<and> pubs n' = pubs n \<and> uplink n' = uplink n \<and>
    (slot_full n' s \<longrightarrow> no_closed n' s)"
proof (cases "slot_full n s")
  case False
  then show ?thesis using inv by (intro exI [of _ n]) (simp add: make_room_def)
next
  case True
  obtain n1 where n1: "maybe_sweep n now = ret n1" "nat_inv n1" "flow_map n1 \<subseteq>\<^sub>m flow_map n" "pubs n1 = pubs n" "uplink n1 = uplink n"
    using maybe_sweep_total [OF inv] by blast
  show ?thesis
  proof (cases "slot_full n1 s")
    case False
    then show ?thesis using True n1 by (intro exI [of _ n1]) (simp add: make_room_def)
  next
    case full: True
    show ?thesis
    proof (cases "oldest_closed n1 s")
      case None
      have "no_closed n1 s" unfolding no_closed_def using oldest_closed_none [OF nat_invD(1) [OF n1(2)] None] by blast
      then show ?thesis using True n1 None by (intro exI [of _ n1]) (simp add: make_room_def)
    next
      case (Some i)
      then obtain f where f: "flow_map n1 i = Some f" "fslot f = s" using oldest_closed_spec by blast
      obtain t where t: "FlowTable_remove (flows n1) i = ret (flow_map n1 i \<noteq> None, t)" "nat_inv (n1\<lparr>flows := t\<rparr>)" "FlowTable_get t = (flow_map n1)(i := None)"
        using remove_flow_total [OF n1(2)] by blast
      have "flow_map (n1\<lparr>flows := t\<rparr>) \<subseteq>\<^sub>m flow_map n" using n1(3) t(3) by (auto simp: map_le_def)
      moreover have "\<not> slot_full (n1\<lparr>flows := t\<rparr>) s" using remove_makes_room [OF n1(2) t(2,3) f(1)] f(2) by simp
      ultimately show ?thesis
        using True full n1 Some t(1,2) by (intro exI [of _ "n1\<lparr>flows := t\<rparr>"]) (simp add: make_room_def)
    qed
  qed
qed

section \<open>The flow of a packet\<close>

definition new_flow :: "u8 \<Rightarrow> u16 \<Rightarrow> u32 \<Rightarrow> u16 \<Rightarrow> u32 \<Rightarrow> u16 \<Rightarrow> u16 \<Rightarrow> u64 \<Rightarrow> Flow" where
  "new_flow proto s sip sport dip dport np now =
     \<lparr>fproto = proto, fslot = s, fin_fwd = False, fin_rev = False, slot_ip = sip, dst_ip = dip,
      slot_port = sport, dst_port = dport, node_port = np, seen = now\<rparr>"

lemma new_flow_keys:
  "fkey (new_flow proto s sip sport dip dport np now) = FKey proto sip dip sport dport"
  "rkey (new_flow proto s sip sport dip dport np now) = RKey proto np dip dport"
  "fslot (new_flow proto s sip sport dip dport np now) = s" "node_port (new_flow proto s sip sport dip dport np now) = np"
  "slot_ip (new_flow proto s sip sport dip dport np now) = sip" "seen (new_flow proto s sip sport dip dport np now) = now"
  "slot_port (new_flow proto s sip sport dip dport np now) = sport"
  by (simp_all add: new_flow_def fkey_def rkey_def)

lemma slot_word_Some: "slot_word i = Some s \<Longrightarrow> unat s = i \<and> 1 \<le> i \<and> i \<le> SLOT_MAX"
proof -
  assume "slot_word i = Some s"
  then obtain x where x: "Slot_new i = Some x" "Slot_get x < 2 ^ 16" "s = word_of_nat (Slot_get x)"
    unfolding slot_word_def by (auto simp: bind_eq_Some_conv split: if_splits)
  then show ?thesis using Slot_new_eq_Some [of i x] by (auto simp: unat_of_nat take_bit_nat_eq_self)
qed

text \<open>Entering the flow, once there is room: it never fails.\<close>

lemma enter_flow:
  assumes inv: "nat_inv n" and room: "\<not> slot_full n s" and s: "slot_word slot = Some s"
    and new: "\<And>i f. flow_map n i = Some f \<Longrightarrow> fkey f \<noteq> FKey proto (port_ip4 slot) dip sport dport"
  obtains p q i t where "alloc_port n proto dip dport = ret (Some p, n\<lparr>masq_next := q\<rparr>)"
    "FlowTable_insert (flows n) (new_flow proto s (port_ip4 slot) sport dip dport p now) = ret (Some i, t)"
    "nat_inv (n\<lparr>masq_next := q, flows := t\<rparr>)" "flow_map n i = None"
    "FlowTable_get t = (flow_map n)(i \<mapsto> new_flow proto s (port_ip4 slot) sport dip dport p now)"
proof -
  obtain p q where pq: "alloc_port n proto dip dport = ret (Some p, n\<lparr>masq_next := q\<rparr>)" "port_ok p" "port_ok q"
    "\<not> busy_port n proto dip dport p" using alloc_port_total [OF inv] by blast
  let ?f = "new_flow proto s (port_ip4 slot) sport dip dport p now"
  have nr: "rkey f \<noteq> rkey ?f" if "flow_map n i = Some f" for i f
    using pq(4) that unfolding busy_port_def new_flow_keys by blast
  have nf: "fkey f \<noteq> fkey ?f" if "flow_map n i = Some f" for i f using new [OF that] unfolding new_flow_keys .
  have lt: "flen (flows n) \<noteq> MAX_FLOWS" "slot_count (flow_map n) s \<noteq> MAX_FLOWS_PER_SLOT" using room unfolding slot_full_iff [OF inv] by blast+
  show thesis using nat_invD(1) [OF inv]
  proof (cases rule: insert_cases [where fl = ?f])
    case refused
    then show thesis using lt(1) nf nr by blast
  next
    case (entered i t)
    have il: "unat i < length (slab (flows n))" using entered(4) flow_invD(1) [OF nat_invD(1) [OF inv]] by simp
    have g: "FlowTable_get t = (flow_map n)(i \<mapsto> ?f)"
      using il by (simp add: fun_eq_iff FlowTable_get_def entered(5) slab_get_update)
    have cnt: "slot_count (flow_map n) (fslot ?f) < MAX_FLOWS_PER_SLOT"
      using lt(2) nat_invD(4) [OF inv] unfolding map_ok_def new_flow_keys by (metis le_neq_implies_less)
    have ok: "flow_ok ?f" unfolding flow_ok_def new_flow_keys using pq(2) slot_word_Some [OF s] by simp
    have "map_ok (FlowTable_get t)" unfolding g by (rule map_ok_add [OF nat_invD(4) [OF inv] entered(3) cnt ok])
    then have "nat_inv (n\<lparr>masq_next := q, flows := t\<rparr>)" using inv pq(3) entered(2) unfolding nat_inv_def by simp
    then show thesis by (rule that [OF pq(1) entered(1) _ entered(3) g])
  qed
qed

lemma flow_for_cases:
  assumes inv: "nat_inv n"
  obtains (hit) i f n' where "flow_for io n proto slot (port_ip4 slot) sport dip dport now = ret (Some (i, False), io, n')" "nat_inv n'"
      "pubs n' = pubs n" "uplink n' = uplink n" "flow_map n i = Some f" "fkey f = FKey proto (port_ip4 slot) dip sport dport"
      "\<not> flow_expired f now" "flow_map n' = (flow_map n)(i \<mapsto> f\<lparr>seen := now\<rparr>)"
  | (made) i p s n' m where "flow_for io n proto slot (port_ip4 slot) sport dip dport now = ret (Some (i, True), io, n')" "nat_inv n'"
      "pubs n' = pubs n" "uplink n' = uplink n" "slot_word slot = Some s" "m \<subseteq>\<^sub>m flow_map n" "m i = None"
      "flow_map n' = m(i \<mapsto> new_flow proto s (port_ip4 slot) sport dip dport p now)"
  | (refused) io' n' where "flow_for io n proto slot (port_ip4 slot) sport dip dport now = ret (None, io', n')" "nat_inv n'"
      "pubs n' = pubs n" "uplink n' = uplink n" "flow_map n' \<subseteq>\<^sub>m flow_map n"
      "\<And>s. slot_word slot = Some s \<Longrightarrow> slot_full n' s \<and> no_closed n' s"
      "io' = io \<or> io' = emit io LogFull \<or> (\<exists>a b. io' = emit io (LogSlotFull a b))"
proof -
  let ?k = "FKey proto (port_ip4 slot) dip sport dport"
  show thesis using inv
  proof (cases rule: lookup_flow_cases [where k = ?k and now = now])
    case (hit i f n')
    have "flow_for io n proto slot (port_ip4 slot) sport dip dport now = ret (Some (i, False), io, n')"
      unfolding flow_for_def hit(1) by simp
    then show thesis by (rule that(1)) (fact hit)+
  next
    case (miss n1)
    show thesis
    proof (cases "slot_word slot")
      case None
      have "flow_for io n proto slot (port_ip4 slot) sport dip dport now = ret (None, io, n1)"
        unfolding flow_for_def miss(1) using None by simp
      then show thesis by (rule that(3)) (use miss None in simp_all)
    next
      case (Some s)
      obtain n2 where n2: "make_room n1 s now = ret n2" "nat_inv n2" "flow_map n2 \<subseteq>\<^sub>m flow_map n1" "pubs n2 = pubs n1" "uplink n2 = uplink n1"
        "slot_full n2 s \<longrightarrow> no_closed n2 s" using make_room_total [OF miss(2)] by blast
      have le: "flow_map n2 \<subseteq>\<^sub>m flow_map n" by (rule map_le_trans [OF n2(3) miss(6)])
      show thesis
      proof (cases "slot_full n2 s")
        case True
        have "\<exists>io' n'. flow_for io n proto slot (port_ip4 slot) sport dip dport now = ret (None, io', n') \<and> flows n' = flows n2 \<and>
            pubs n' = pubs n2 \<and> uplink n' = uplink n2 \<and> masq_next n' = masq_next n2 \<and>
            (io' = io \<or> io' = emit io LogFull \<or> (\<exists>a b. io' = emit io (LogSlotFull a b)))"
          using True unfolding flow_for_def miss(1) slot_full_def by (auto simp: Some n2(1))
        then obtain io' n' where n': "flow_for io n proto slot (port_ip4 slot) sport dip dport now = ret (None, io', n')" "flows n' = flows n2"
          "pubs n' = pubs n2" "uplink n' = uplink n2" "masq_next n' = masq_next n2"
          "io' = io \<or> io' = emit io LogFull \<or> (\<exists>a b. io' = emit io (LogSlotFull a b))" by blast
        have full: "slot_full n' s \<and> no_closed n' s"
          using True n2(6) unfolding slot_full_def no_closed_def n'(2) by blast
        have "nat_inv n'" using n2(2) n'(2,3,5) unfolding nat_inv_def by simp
        then show thesis
          by (rule that(3) [OF n'(1)]) (use n'(2-4,6) n2(4,5) miss(3,4) le full Some in simp_all)
      next
        case False
        have new: "fkey f \<noteq> ?k" if "flow_map n2 i = Some f" for i f
          using miss(5) that n2(3) unfolding map_le_def by (metis domI)
        obtain p q i t where e: "alloc_port n2 proto dip dport = ret (Some p, n2\<lparr>masq_next := q\<rparr>)"
          "FlowTable_insert (flows n2) (new_flow proto s (port_ip4 slot) sport dip dport p now) = ret (Some i, t)"
          "nat_inv (n2\<lparr>masq_next := q, flows := t\<rparr>)" "flow_map n2 i = None"
          "FlowTable_get t = (flow_map n2)(i \<mapsto> new_flow proto s (port_ip4 slot) sport dip dport p now)"
          by (rule enter_flow [where now = now, OF n2(2) False Some new])
        have "flow_for io n proto slot (port_ip4 slot) sport dip dport now = ret (Some (i, True), io, n2\<lparr>masq_next := q, flows := t\<rparr>)"
          using False e(2) unfolding flow_for_def miss(1) slot_full_def new_flow_def by (simp add: Some n2(1) e(1))
        then show thesis by (rule that(2) [OF _ e(3)]) (use n2 miss Some le e in simp_all)
      qed
    qed
  qed
qed

end
