(* ===== verification/NatPaths.thy ===== *)
theory NatPaths
  imports NatFlow
begin

unbundle bit_operations_syntax

text \<open>Every path of a frame through the translation returns and keeps the invariant.\<close>

section \<open>Publications\<close>

lemma find_port: "find (\<lambda>p. pub_proto p = a \<and> pub_node_port p = b) ps = None \<longleftrightarrow> (a, b) \<notin> set (map (\<lambda>p. (pub_proto p, pub_node_port p)) ps)"
  by (auto simp: find_None_iff)

lemma publish_inv:
  assumes inv: "nat_inv n" and p: "publish n proto np slot sp = Inr n'"
  shows "nat_inv n'" "\<exists>s. slot_word slot = Some s \<and>
    pubs n' = pubs n @ [\<lparr>pub_proto = Proto_num proto, pub_node_port = np, pub_slot = s, pub_slot_port = sp\<rparr>]"
    "flows n' = flows n" "uplink n' = uplink n"
proof -
  obtain s where s: "slot_word slot = Some s" "pub_by_node_port n (Proto_num proto) np = None" "length (pubs n) < MAX_PUBS"
    "n' = n\<lparr>pubs := pubs n @ [\<lparr>pub_proto = Proto_num proto, pub_node_port = np, pub_slot = s, pub_slot_port = sp\<rparr>]\<rparr>"
    using p unfolding publish_def by (auto split: option.splits if_splits)
  show "\<exists>s. slot_word slot = Some s \<and>
    pubs n' = pubs n @ [\<lparr>pub_proto = Proto_num proto, pub_node_port = np, pub_slot = s, pub_slot_port = sp\<rparr>]"
    "flows n' = flows n" "uplink n' = uplink n" using s by simp_all
  have "pubs_ok (pubs n')"
    using nat_invD(3) [OF inv] s(2,3) unfolding pubs_ok_def pub_by_node_port_def find_port s(4) by auto
  then show "nat_inv n'" using inv unfolding nat_inv_def s(4) by simp
qed

lemma unpublish_total:
  assumes inv: "nat_inv n"
  shows "\<exists>n'. unpublish_slot n i = ret n' \<and> nat_inv n' \<and> pubs n' = filter (\<lambda>p. unat (pub_slot p) \<noteq> i) (pubs n) \<and> uplink n' = uplink n \<and>
    flow_map n' = drop_flows (\<lambda>f. unat (fslot f) = i \<or> (slot_word i \<noteq> None \<and> port_ip4 i \<noteq> 0) \<and> dst_ip f = port_ip4 i) (flow_map n)"
proof -
  let ?p = "\<lambda>f. unat (fslot f) = i \<or> (slot_word i \<noteq> None \<and> port_ip4 i \<noteq> 0) \<and> dst_ip f = port_ip4 i"
  have e: "(\<lambda>f. unat (fslot f) = i \<or> (if slot_word i \<noteq> None then port_ip4 i else 0) \<noteq> 0 \<and> dst_ip f = (if slot_word i \<noteq> None then port_ip4 i else 0)) = ?p"
    by auto
  obtain t where t: "remove_where ?p all_ids (flows n) = ret t" "flow_inv t" "FlowTable_get t = drop_flows ?p (flow_map n)"
    using remove_where_all [OF nat_invD(1) [OF inv]] by blast
  let ?n = "n\<lparr>pubs := filter (\<lambda>p. unat (pub_slot p) \<noteq> i) (pubs n), flows := t\<rparr>"
  have "map_ok (FlowTable_get t)" unfolding t(3) by (rule map_ok_shrink [OF nat_invD(4) [OF inv] drop_flows_le])
  moreover have "pubs_ok (filter (\<lambda>p. unat (pub_slot p) \<noteq> i) (pubs n))"
    using nat_invD(3) [OF inv] unfolding pubs_ok_def by (auto simp: distinct_map_filter intro: order_trans [OF length_filter_le])
  ultimately have "nat_inv ?n" using inv t(2) unfolding nat_inv_def by simp
  then show ?thesis using t by (intro exI [of _ ?n]) (simp add: unpublish_slot_def Let_def e [simplified])
qed

section \<open>Replies\<close>

lemma remove_flow_ret:
  assumes "nat_inv n"
  shows "\<exists>n'. remove_flow n i = ret n' \<and> nat_inv n' \<and> flow_map n' = (flow_map n)(i := None) \<and> pubs n' = pubs n \<and> uplink n' = uplink n"
proof -
  obtain t where t: "FlowTable_remove (flows n) i = ret (flow_map n i \<noteq> None, t)" "nat_inv (n\<lparr>flows := t\<rparr>)" "FlowTable_get t = (flow_map n)(i := None)"
    using remove_flow_total [OF assms] by blast
  show ?thesis using t by (intro exI [of _ "n\<lparr>flows := t\<rparr>"]) (simp add: remove_flow_def)
qed

text \<open>The two steps that a reply makes on its flow.\<close>

lemma reply_steps:
  assumes inv: "nat_inv n" and f: "flow_map n i = Some f"
  obtains n1 n2 g b where "note_tcp_flags n i flags True = (b, n1)" "touch n1 i now = (Some g, n2)" "nat_inv n2"
    "fslot g = fslot f" "slot_ip g = slot_ip f" "slot_port g = slot_port f" "node_port g = node_port f" "fkey g = fkey f" "rkey g = rkey f"
    "flow_map n2 = (flow_map n)(i \<mapsto> g)" "pubs n2 = pubs n" "uplink n2 = uplink n"
proof -
  obtain b n1 where n1: "note_tcp_flags n i flags True = (b, n1)" "nat_inv n1" "pubs n1 = pubs n" "uplink n1 = uplink n"
    and "case flow_map n i of
       None \<Rightarrow> n1 = n
     | Some f \<Rightarrow> \<exists>g. flow_map n1 = (flow_map n)(i \<mapsto> g) \<and> same_flow f g \<and> slot_ip g = slot_ip f \<and> slot_port g = slot_port f \<and>
         node_port g = node_port f"
    using note_tcp_flags_total [OF inv] by blast
  then obtain g where g: "flow_map n1 = (flow_map n)(i \<mapsto> g)" "same_flow f g" "slot_ip g = slot_ip f" "slot_port g = slot_port f" "node_port g = node_port f"
    using f by auto
  have gi: "flow_map n1 i = Some g" using g(1) by simp
  obtain n2 where n2: "touch n1 i now = (Some (g\<lparr>seen := now\<rparr>), n2)" "nat_inv n2" "flow_map n2 = (flow_map n1)(i \<mapsto> g\<lparr>seen := now\<rparr>)"
    "pubs n2 = pubs n1" "uplink n2 = uplink n1" using touch_total [OF n1(2) gi] by blast
  show thesis
    by (rule that [OF n1(1) n2(1,2)]) (use g n1(3,4) n2(3-5) in \<open>simp_all add: same_flow_def fkey_def rkey_def\<close>)
qed

lemma reply_in_cases:
  assumes inv: "nat_inv n"
  obtains (reply) i fl g n' io' f' where "flow_map n i = Some fl" "rkey fl = RKey proto (be16 f (lf + 2)) (be32 f (ETH_LEN + 12)) (be16 f lf)"
      "\<not> flow_expired fl now" "dnat_to_slot io (unat (fslot fl)) f lf proto (up_ip u) (slot_ip fl) (be16 f (lf + 2)) (slot_port fl) = (io', f')"
      "reply_in io n f lf proto u now = ret (True, io', n', f')" "nat_inv n'" "pubs n' = pubs n" "uplink n' = uplink n"
      "flow_map n' = (flow_map n)(i \<mapsto> g)" "rkey g = rkey fl" "fslot g = fslot fl"
  | (other) n' where "reply_in io n f lf proto u now = ret (False, io, n', f)" "nat_inv n'" "pubs n' = pubs n" "uplink n' = uplink n"
      "\<And>i fl. flow_map n' i = Some fl \<Longrightarrow> rkey fl \<noteq> RKey proto (be16 f (lf + 2)) (be32 f (ETH_LEN + 12)) (be16 f lf)" "flow_map n' \<subseteq>\<^sub>m flow_map n"
      "\<And>i fl. flow_map n i = Some fl \<Longrightarrow> rkey fl = RKey proto (be16 f (lf + 2)) (be32 f (ETH_LEN + 12)) (be16 f lf) \<Longrightarrow> flow_expired fl now"
proof -
  let ?k = "RKey proto (be16 f (lf + 2)) (be32 f (ETH_LEN + 12)) (be16 f lf)"
  obtain r where r: "by_rev (flows n) ?k = ret r" "\<forall>i. r = Some i \<longleftrightarrow> (\<exists>f. flow_map n i = Some f \<and> rkey f = ?k)"
    using by_rev_total [OF nat_invD(1) [OF inv]] by blast
  show thesis
  proof (cases r)
    case None
    have "reply_in io n f lf proto u now = ret (False, io, n, f)" unfolding reply_in_def Let_def r(1) None by simp
    then show thesis by (rule that(2)) (use inv r(2) None in auto)
  next
    case (Some i)
    then obtain fl where fl: "flow_map n i = Some fl" "rkey fl = ?k" using r(2) by blast
    have uniq: "j = i" if "flow_map n j = Some g" "rkey g = ?k" for j g using r(2) Some that by auto
    show thesis
    proof (cases "flow_expired fl now")
      case True
      obtain n' where n': "remove_flow n i = ret n'" "nat_inv n'" "flow_map n' = (flow_map n)(i := None)" "pubs n' = pubs n" "uplink n' = uplink n"
        using remove_flow_ret [OF inv] by blast
      have "reply_in io n f lf proto u now = ret (False, io, n', f)"
        unfolding reply_in_def Let_def r(1) Some using True fl(1) n'(1) by (simp add: expired_def)
      then show thesis
      proof (rule that(2))
        show "nat_inv n'" "pubs n' = pubs n" "uplink n' = uplink n" by fact+
        show "rkey g \<noteq> ?k" if "flow_map n' j = Some g" for j g
          using that uniq [of j g] unfolding n'(3) by (auto split: if_splits)
        show "flow_map n' \<subseteq>\<^sub>m flow_map n" unfolding n'(3) by (simp add: map_le_def)
        show "flow_expired g now" if "flow_map n j = Some g" "rkey g = ?k" for j g
          using uniq [OF that] that(1) fl(1) True by simp
      qed
    next
      case False
      obtain n1 n2 g b where st: "note_tcp_flags n i (byte f (lf + 13)) True = (b, n1)" "touch n1 i now = (Some g, n2)" "nat_inv n2"
        "fslot g = fslot fl" "slot_ip g = slot_ip fl" "slot_port g = slot_port fl" "node_port g = node_port fl" "fkey g = fkey fl" "rkey g = rkey fl"
        "flow_map n2 = (flow_map n)(i \<mapsto> g)" "pubs n2 = pubs n" "uplink n2 = uplink n"
        by (rule reply_steps [OF inv fl(1)])
      obtain io' f' where d: "dnat_to_slot io (unat (fslot fl)) f lf proto (up_ip u) (slot_ip fl) (be16 f (lf + 2)) (slot_port fl) = (io', f')"
        by (rule prod.exhaust)
      have "reply_in io n f lf proto u now = ret (True, io', n2, f')"
        unfolding reply_in_def Let_def r(1) Some using False fl(1) st(1,2,4-6) d by (simp add: expired_def)
      then show thesis by (rule that(1) [OF fl False d _ st(3,11,12,10,9,4)])
    qed
  qed
qed

lemma reply_in_total:
  assumes inv: "nat_inv n"
  shows "\<exists>b io' n' f'. reply_in io n f lf proto u now = ret (b, io', n', f') \<and> nat_inv n'"
  using inv
proof (cases rule: reply_in_cases [where io = io and f = f and lf = lf and proto = proto and u = u and now = now])
  case (reply i fl g n' io' f')
  then show ?thesis by blast
next
  case (other n')
  then show ?thesis by blast
qed

lemma hairpin_back_total:
  assumes inv: "nat_inv n"
  shows "\<exists>io' n' f'. hairpin_back io n f l4 proto m u now = ret (True, io', n', f') \<and> nat_inv n'"
proof -
  let ?k = "RKey proto (be16 f (l4 + 2)) (port_ip4 (unat (pub_slot m))) (pub_slot_port m)"
  obtain r where r: "by_rev (flows n) ?k = ret r" "\<forall>i. r = Some i \<longleftrightarrow> (\<exists>f. flow_map n i = Some f \<and> rkey f = ?k)"
    using by_rev_total [OF nat_invD(1) [OF inv]] by blast
  show ?thesis
  proof (cases r)
    case None
    then show ?thesis unfolding hairpin_back_def Let_def r(1) using inv by simp
  next
    case (Some i)
    then obtain fl where fl: "flow_map n i = Some fl" using r(2) by blast
    show ?thesis
    proof (cases "flow_expired fl now")
      case True
      obtain n' where "remove_flow n i = ret n'" "nat_inv n'" using remove_flow_ret [OF inv] by blast
      then show ?thesis unfolding hairpin_back_def Let_def r(1) Some using True fl by (simp add: expired_def)
    next
      case False
      obtain n1 n2 g b where st: "note_tcp_flags n i (byte f (l4 + 13)) True = (b, n1)" "touch n1 i now = (Some g, n2)" "nat_inv n2"
        by (rule reply_steps [OF inv fl])
      show ?thesis unfolding hairpin_back_def Let_def r(1) Some using False fl st
        by (simp add: expired_def split: prod.split)
    qed
  qed
qed

lemma inbound_total:
  assumes inv: "nat_inv n"
  shows "\<exists>b io' n' f'. inbound io n f now = ret (b, io', n', f') \<and> nat_inv n'"
proof (cases "ipv4_l4 f")
  case None
  then show ?thesis using inv by (intro exI [of _ False] exI [of _ io] exI [of _ n] exI [of _ f]) (simp add: inbound_def)
next
  case (Some ip)
  show ?thesis
  proof (cases "uplink n")
    case None
    then show ?thesis using inv Some by (intro exI [of _ False] exI [of _ io] exI [of _ n] exI [of _ f]) (simp add: inbound_def)
  next
    case u: (Some u)
    obtain b io1 n1 f1 where r: "reply_in io n f (l4off ip) (ip_proto ip) u now = ret (b, io1, n1, f1)" "nat_inv n1"
      using reply_in_total [OF inv] by blast
    show ?thesis
      using inv Some u r by (auto simp: inbound_def Let_def split: prod.splits)
  qed
qed

lemma slot_reply_total:
  assumes inv: "nat_inv n"
  shows "\<exists>b io' n' f'. slot_reply io n src f now = ret (b, io', n', f') \<and> nat_inv n'"
proof (cases "ipv4_l4 f")
  case None
  then show ?thesis using inv by (intro exI [of _ False] exI [of _ io] exI [of _ n] exI [of _ f]) (simp add: slot_reply_def)
next
  case (Some ip)
  show ?thesis
  proof (cases "uplink n")
    case None
    then show ?thesis using inv Some by (intro exI [of _ False] exI [of _ io] exI [of _ n] exI [of _ f]) (simp add: slot_reply_def)
  next
    case u: (Some u)
    let ?find = "find (\<lambda>p. pub_proto p = ip_proto ip \<and> unat (pub_slot p) = src \<and> pub_slot_port p = be16 f (l4off ip)) (pubs n)"
    show ?thesis
    proof (cases ?find)
      case None
      then show ?thesis using inv Some u by (intro exI [of _ False] exI [of _ io] exI [of _ n] exI [of _ f]) (simp add: slot_reply_def Let_def)
    next
      case m: (Some m)
      show ?thesis
        using inv Some u m hairpin_back_total [OF inv, of io f "l4off ip" "ip_proto ip" m u now]
        by (auto simp: slot_reply_def Let_def split: prod.split option.split)
    qed
  qed
qed

section \<open>Outgoing packets\<close>

text \<open>Nothing but log lines was emitted.\<close>

definition only_logs :: "NatIo \<Rightarrow> NatIo \<Rightarrow> bool" where
  "only_logs io io' \<longleftrightarrow> io' = io \<or> io' = emit io LogFull \<or> (\<exists>a b. io' = emit io (LogSlotFull a b))"

lemma flow_for_packet_total:
  assumes inv: "nat_inv n"
  shows "\<exists>r io' n'. flow_for_packet io n proto slot (port_ip4 slot) sport dip dport flags now = ret (r, io', n') \<and> nat_inv n' \<and>
    (case r of None \<Rightarrow> only_logs io io' | Some (i, c) \<Rightarrow> io' = io \<and> (\<exists>f. flow_map n' i = Some f \<and> fkey f = FKey proto (port_ip4 slot) dip sport dport))"
proof (cases "proto = PROTO_TCP \<and> flags AND TCP_RST \<noteq> 0")
  case True
  show ?thesis using inv
  proof (cases rule: lookup_flow_cases [where k = "FKey proto (port_ip4 slot) dip sport dport" and now = now])
    case (hit i f n')
    have "fkey (f\<lparr>seen := now\<rparr>) = fkey f" by (simp add: fkey_def)
    then show ?thesis unfolding flow_for_packet_def if_P [OF True] hit(1) using hit(2,6,8)
      by (intro exI [of _ "Some (i, False)"] exI [of _ io] exI [of _ n']) simp
  next
    case (miss n')
    then show ?thesis unfolding flow_for_packet_def if_P [OF True]
      by (intro exI [of _ None] exI [of _ io] exI [of _ n']) (simp add: only_logs_def)
  qed
next
  case False
  show ?thesis unfolding flow_for_packet_def if_not_P [OF False] using inv
  proof (cases rule: flow_for_cases [where io = io and proto = proto and slot = slot and sport = sport and dip = dip and dport = dport and now = now])
    case (hit i f n')
    have "fkey (f\<lparr>seen := now\<rparr>) = fkey f" by (simp add: fkey_def)
    then show "\<exists>r io' n'. flow_for io n proto slot (port_ip4 slot) sport dip dport now = ret (r, io', n') \<and> nat_inv n' \<and>
      (case r of None \<Rightarrow> only_logs io io' | Some (i, c) \<Rightarrow> io' = io \<and> (\<exists>f. flow_map n' i = Some f \<and> fkey f = FKey proto (port_ip4 slot) dip sport dport))"
      unfolding hit(1) using hit(2,6,8) by (intro exI [of _ "Some (i, False)"] exI [of _ io] exI [of _ n']) simp
  next
    case (made i p s n' m)
    then show "\<exists>r io' n'. flow_for io n proto slot (port_ip4 slot) sport dip dport now = ret (r, io', n') \<and> nat_inv n' \<and>
      (case r of None \<Rightarrow> only_logs io io' | Some (i, c) \<Rightarrow> io' = io \<and> (\<exists>f. flow_map n' i = Some f \<and> fkey f = FKey proto (port_ip4 slot) dip sport dport))"
      by (intro exI [of _ "Some (i, True)"] exI [of _ io] exI [of _ n']) (simp add: new_flow_keys)
  next
    case (refused io' n')
    then show "\<exists>r io' n'. flow_for io n proto slot (port_ip4 slot) sport dip dport now = ret (r, io', n') \<and> nat_inv n' \<and>
      (case r of None \<Rightarrow> only_logs io io' | Some (i, c) \<Rightarrow> io' = io \<and> (\<exists>f. flow_map n' i = Some f \<and> fkey f = FKey proto (port_ip4 slot) dip sport dport))"
      by (intro exI [of _ None] exI [of _ io'] exI [of _ n']) (simp add: only_logs_def)
  qed
qed

text \<open>What both outgoing paths do once the flow is known: \<open>g\<close> is the frame that leaves for a flow.\<close>

definition reap_step :: "Nat \<Rightarrow> u16 \<Rightarrow> u8 \<Rightarrow> NatIo \<Rightarrow> u8 list \<Rightarrow> (Flow \<Rightarrow> NatIo \<times> u8 list) \<Rightarrow> (bool \<times> NatIo \<times> Nat \<times> u8 list) run" where
  "reap_step n i flags io f g =
     (case note_tcp_flags n i flags False of (reap, n1) \<Rightarrow>
     (case FlowTable_get (flows n1) i of
        None \<Rightarrow> ret (True, io, n1, f)
      | Some fl \<Rightarrow>
          (case g fl of (io', f') \<Rightarrow>
             if reap then runb (remove_flow n1 i) (\<lambda>n2. ret (True, io', n2, f')) else ret (True, io', n1, f'))))"

lemma reap_step_total:
  assumes inv: "nat_inv n"
  shows "\<exists>io' n' f'. reap_step n i flags io f g = ret (True, io', n', f') \<and> nat_inv n'"
proof -
  obtain b n1 where n1: "note_tcp_flags n i flags False = (b, n1)" "nat_inv n1"
    using note_tcp_flags_total [OF inv] by blast
  show ?thesis
  proof (cases "FlowTable_get (flows n1) i")
    case None
    then show ?thesis using n1 by (simp add: reap_step_def)
  next
    case (Some fl)
    obtain io' f' where g: "g fl = (io', f')" by (rule prod.exhaust)
    obtain n2 where n2: "remove_flow n1 i = ret n2" "nat_inv n2" using remove_flow_ret [OF n1(2)] by blast
    show ?thesis using n1 n2 Some g by (cases b) (simp_all add: reap_step_def)
  qed
qed

lemma hairpin_out_total:
  assumes inv: "nat_inv n"
  shows "\<exists>io' n' f'. hairpin_out io n src f l4 proto (port_ip4 src) sport dport u now = ret (True, io', n', f') \<and> nat_inv n'"
proof (cases "pub_by_node_port n proto dport")
  case None
  then show ?thesis using inv by (simp add: hairpin_out_def)
next
  case (Some m)
  let ?srv = "unat (pub_slot m)" and ?flags = "byte f (l4 + 13)"
  obtain r io1 n1 where r: "flow_for_packet io n proto src (port_ip4 src) sport (port_ip4 ?srv) (pub_slot_port m) ?flags now = ret (r, io1, n1)" "nat_inv n1"
    using flow_for_packet_total [OF inv] by blast
  show ?thesis
  proof (cases r)
    case None
    then show ?thesis using Some r by (simp add: hairpin_out_def Let_def)
  next
    case ic: (Some ic)
    obtain i c where i: "ic = (i, c)" by (rule prod.exhaust)
    have "hairpin_out io n src f l4 proto (port_ip4 src) sport dport u now = reap_step n1 i ?flags io1 f
        (\<lambda>fl. dnat_to_slot io1 ?srv (snat_src u f l4 proto (port_ip4 src) sport (node_port fl)) l4 proto (up_ip u) (port_ip4 ?srv) dport (pub_slot_port m))"
      using Some r(1) ic i unfolding hairpin_out_def Let_def reap_step_def by simp
    then show ?thesis using reap_step_total [OF r(2)] by simp
  qed
qed

lemma outbound_flow:
  assumes ip: "ipv4_l4 f = Some ip" and u: "uplink n = Some u" and d: "be32 f (ETH_LEN + 16) \<noteq> up_ip u"
    and hop: "neighbor io (be32 f (ETH_LEN + 16)) now = (hop0, io0)"
      "(if hop0 = None \<and> on_subnet n (be32 f (ETH_LEN + 16)) \<and> gateway u \<noteq> 0 then neighbor io0 (gateway u) now else (hop0, io0)) = (Some next_hop, io1)"
    and r: "flow_for_packet io1 n (ip_proto ip) src (port_ip4 src) (be16 f (l4off ip)) (be32 f (ETH_LEN + 16)) (be16 f (l4off ip + 2))
      (byte f (l4off ip + 13)) now = ret (Some (i, c), io2, n1)"
  shows "\<exists>io3. outbound io n src f now = reap_step n1 i (byte f (l4off ip + 13)) io3 f
    (\<lambda>fl. tx_uplink io3 u (snat_src u f (l4off ip) (ip_proto ip) (port_ip4 src) (be16 f (l4off ip)) (node_port fl)) next_hop)"
proof -
  let ?flags = "byte f (l4off ip + 13)"
  let ?io3 = "if hop0 \<noteq> None \<and> \<not> c \<and> ip_proto ip = PROTO_TCP \<and> ?flags AND TCP_SYN \<noteq> 0 \<and> ?flags AND TCP_ACK = 0
    then emit io2 (ProbeHop (be32 f (ETH_LEN + 16)) now) else io2"
  have "outbound io n src f now = reap_step n1 i ?flags ?io3 f
    (\<lambda>fl. tx_uplink ?io3 u (snat_src u f (l4off ip) (ip_proto ip) (port_ip4 src) (be16 f (l4off ip)) (node_port fl)) next_hop)"
    using ip u d r unfolding outbound_def Let_def hop(1) reap_step_def by (simp only: option.case prod.case if_not_P hop(2) runb_ret not_False_eq_True simp_thms if_False)
  then show ?thesis by blast
qed

lemma outbound_total:
  assumes inv: "nat_inv n"
  shows "\<exists>b io' n' f'. outbound io n src f now = ret (b, io', n', f') \<and> nat_inv n'"
proof (cases "ipv4_l4 f")
  case None
  then show ?thesis using inv by (intro exI [of _ False] exI [of _ io] exI [of _ n] exI [of _ f]) (simp add: outbound_def)
next
  case ip: (Some ip)
  show ?thesis
  proof (cases "uplink n")
    case None
    then show ?thesis using inv ip by (intro exI [of _ False] exI [of _ io] exI [of _ n] exI [of _ f]) (simp add: outbound_def)
  next
    case u: (Some u)
    let ?d = "be32 f (ETH_LEN + 16)"
    show ?thesis
    proof (cases "?d = up_ip u")
      case True
      then show ?thesis using ip u hairpin_out_total [OF inv] by (simp add: outbound_def Let_def) blast
    next
      case False
      obtain hop0 io0 where h0: "neighbor io ?d now = (hop0, io0)" by (rule prod.exhaust)
      obtain hop io1 where h1: "(if hop0 = None \<and> on_subnet n ?d \<and> gateway u \<noteq> 0 then neighbor io0 (gateway u) now else (hop0, io0)) = (hop, io1)"
        by (rule prod.exhaust)
      show ?thesis
      proof (cases hop)
        case None
        have "outbound io n src f now = ret (True, emit io1 (Counted NatNoRoute), n, f)"
          using ip u False h1 unfolding None outbound_def Let_def h0 by (simp only: option.case prod.case if_not_P simp_thms if_False)
        then show ?thesis using inv by blast
      next
        case (Some next_hop)
        obtain r io2 n1 where r: "flow_for_packet io1 n (ip_proto ip) src (port_ip4 src) (be16 f (l4off ip)) ?d (be16 f (l4off ip + 2))
            (byte f (l4off ip + 13)) now = ret (r, io2, n1)" "nat_inv n1"
          using flow_for_packet_total [OF inv] by blast
        show ?thesis
        proof (cases r)
          case None
          have "outbound io n src f now = ret (True, emit io2 (Counted NatFlowFull), n1, f)"
            using ip u False h1 r(1) unfolding None Some outbound_def Let_def h0 by (simp only: option.case prod.case if_not_P simp_thms if_False runb_ret)
          then show ?thesis using r(2) by blast
        next
          case ic: (Some ic)
          obtain i c where i: "ic = (i, c)" by (rule prod.exhaust)
          have "\<exists>io3. outbound io n src f now = reap_step n1 i (byte f (l4off ip + 13)) io3 f
            (\<lambda>fl. tx_uplink io3 u (snat_src u f (l4off ip) (ip_proto ip) (port_ip4 src) (be16 f (l4off ip)) (node_port fl)) next_hop)"
            by (rule outbound_flow [OF ip u False h0 h1 [unfolded Some] r(1) [unfolded ic i]])
          then show ?thesis using reap_step_total [OF r(2)] by metis
        qed
      qed
    qed
  qed
qed

end
