(* ===== verification/WireSum.thy ===== *)
theory WireSum
  imports Wire
begin

unbundle bit_operations_syntax

text \<open>
  The incremental checksum updates of RFC 1624 keep the ones' complement sum that a receiver checks: modulo
  65535 the sum does not change when a word and its checksum are rewritten together.
\<close>

section \<open>Ones' complement\<close>

definition ones_eq :: "nat \<Rightarrow> nat \<Rightarrow> bool" where
  "ones_eq a b \<longleftrightarrow> (65535 :: int) dvd int a - int b"

lemma ones_eq_refl [simp]: "ones_eq a a"
  by (simp add: ones_eq_def)

lemma ones_eq_mod: "ones_eq a b \<longleftrightarrow> a mod 65535 = b mod 65535"
proof -
  have i: "int (x mod 65535) = int x mod 65535" for x :: nat by (simp add: zmod_int)
  have "a mod 65535 = b mod 65535 \<longleftrightarrow> int (a mod 65535) = int (b mod 65535)" by (rule of_nat_eq_iff [symmetric])
  then show ?thesis unfolding ones_eq_def i mod_eq_dvd_iff by (rule sym)
qed

lemma ones_eq_sym: "ones_eq a b \<Longrightarrow> ones_eq b a"
  by (simp add: ones_eq_mod)

lemma ones_eq_trans [trans]: "ones_eq a b \<Longrightarrow> ones_eq b c \<Longrightarrow> ones_eq a c"
  by (simp add: ones_eq_mod)

lemma ones_eq_fold: "ones_eq (s mod 2 ^ 16 + s div 2 ^ 16) s"
proof -
  have "s = s div 2 ^ 16 * 2 ^ 16 + s mod 2 ^ 16" by (rule div_mult_mod_eq [symmetric])
  then have "int s = int (s div 2 ^ 16 * 2 ^ 16 + s mod 2 ^ 16)" by (rule arg_cong)
  then have "int s = int (s div 2 ^ 16) * 65536 + int (s mod 2 ^ 16)" unfolding of_nat_add of_nat_mult by simp
  then have "int (s mod 2 ^ 16 + s div 2 ^ 16) - int s = 65535 * (- int (s div 2 ^ 16))" unfolding of_nat_add by linarith
  then show ?thesis unfolding ones_eq_def by (metis dvd_triv_left)
qed

lemma fold16_spec: "fold16 s < 2 ^ 16 \<and> ones_eq (fold16 s) s \<and> (fold16 s = 0 \<longleftrightarrow> s = 0)"
proof (induction s rule: fold16.induct)
  case (1 s)
  show ?case
  proof (cases "s div 2 ^ 16 = 0")
    case True
    then have "s < 2 ^ 16" by (simp add: div_eq_0_iff)
    then show ?thesis using True by (simp add: fold16.simps [of s])
  next
    case False
    then have "s \<noteq> 0" by auto
    then show ?thesis
      using 1 [OF False] ones_eq_fold [of s] ones_eq_trans False by (simp add: fold16.simps [of s]) blast
  qed
qed

lemma fold16_full: "fold16 s = 0xffff \<longleftrightarrow> 0 < s \<and> ones_eq s 0"
proof -
  note f = fold16_spec [of s]
  have "fold16 s = 0xffff \<longleftrightarrow> fold16 s \<noteq> 0 \<and> fold16 s mod 65535 = 0"
  proof
    assume a: "fold16 s \<noteq> 0 \<and> fold16 s mod 65535 = 0"
    then obtain k where k: "fold16 s = 65535 * k" by (auto simp: mod_eq_0_iff_dvd elim: dvdE)
    then have "k < 2" "k \<noteq> 0" using f a by simp_all
    then show "fold16 s = 0xffff" using k by simp
  qed simp
  then show ?thesis using f unfolding ones_eq_mod by simp
qed

lemma unat_not16: "unat (NOT w) = 65535 - unat w" for w :: u16
proof -
  have "NOT w = (- 1) - w" by (simp add: not_eq_complement)
  moreover have "unat ((- 1) - w) = unat (- 1 :: u16) - unat w" by (rule unat_sub) simp
  moreover have "unat (- 1 :: u16) = 65535" by code_simp
  ultimately show ?thesis by simp
qed

lemma u16_le: "unat w \<le> 65535" for w :: u16
  using unat_less_pow [of w] by simp

lemma fix_csum16_value:
  assumes l: "off + 2 \<le> length b"
  shows "ones_eq (unat (be16 (fix_csum16 b off old new) off) + unat new) (unat (be16 b off) + unat old)"
proof -
  let ?c = "be16 b off" and ?X = "unat (NOT (be16 b off)) + unat (NOT old) + unat new"
  note f = fold16_spec [of ?X]
  have u: "unat (word_of_nat (fold16 ?X) :: u16) = fold16 ?X" using f by (simp add: unat_of_nat take_bit_nat_eq_self)
  have c': "unat (be16 (fix_csum16 b off old new) off) = 65535 - fold16 ?X"
    unfolding fix_csum16_def be16_put16 [OF l] unat_not16 [of "word_of_nat _"] u ..
  have b: "unat ?c \<le> 65535" "unat old \<le> 65535" "fold16 ?X \<le> 65535"
    using u16_le f by (simp_all add: less_Suc_eq_le)
  have x: "int ?X = 2 * 65535 - int (unat ?c) - int (unat old) + int (unat new)"
    using b(1,2) by (simp add: unat_not16)
  have d: "65535 dvd int (fold16 ?X) - int ?X" using f unfolding ones_eq_def by blast
  have "int (65535 - fold16 ?X + unat new) - int (unat ?c + unat old) = - (int (fold16 ?X) - int ?X) - 65535"
    using x b(3) by (simp only: of_nat_add of_nat_diff of_nat_numeral)
  moreover have "65535 dvd - (int (fold16 ?X) - int ?X) - 65535" using d by (simp only: dvd_minus_iff dvd_diff dvd_refl)
  ultimately have "65535 dvd int (65535 - fold16 ?X + unat new) - int (unat ?c + unat old)" by (simp only:)
  then show ?thesis unfolding ones_eq_def c' .
qed

lemma fix_length [simp]: "length (fix_csum16 b off old new) = length b" "length (fix_csum32 b off old' new') = length b"
  by (simp_all add: fix_csum16_def fix_csum32_def)

lemma fix_csum16_other: "off + 2 \<le> p \<or> p + 2 \<le> off \<Longrightarrow> be16 (fix_csum16 b off old new) p = be16 b p"
  unfolding fix_csum16_def by (rule be16_put16_other)

lemma fix_csum32_other: "off + 2 \<le> p \<or> p + 2 \<le> off \<Longrightarrow> be16 (fix_csum32 b off old new) p = be16 b p"
  unfolding fix_csum32_def by (simp add: fix_csum16_other)

lemma fix_csum32_value:
  assumes l: "off + 2 \<le> length b"
  shows "ones_eq (unat (be16 (fix_csum32 b off old new) off) + unat (ucast (drop_bit 16 new) :: u16) + unat (ucast new :: u16))
    (unat (be16 b off) + unat (ucast (drop_bit 16 old) :: u16) + unat (ucast old :: u16))"
proof -
  let ?b = "fix_csum16 b off (ucast (drop_bit 16 old)) (ucast (drop_bit 16 new))"
  have "65535 dvd (int (unat (be16 (fix_csum32 b off old new) off) + unat (ucast new :: u16)) - int (unat (be16 ?b off) + unat (ucast old :: u16)))
      + (int (unat (be16 ?b off) + unat (ucast (drop_bit 16 new) :: u16)) - int (unat (be16 b off) + unat (ucast (drop_bit 16 old) :: u16)))"
    using fix_csum16_value [OF l, of "ucast (drop_bit 16 old)" "ucast (drop_bit 16 new)"]
      fix_csum16_value [of off ?b "ucast old" "ucast new"] l
    unfolding ones_eq_def fix_csum32_def by (intro dvd_add) simp_all
  then show ?thesis unfolding ones_eq_def of_nat_add by (simp only: algebra_simps) (simp add: algebra_simps)
qed

section \<open>Sums over a frame\<close>

definition words_sum :: "u8 list \<Rightarrow> nat \<Rightarrow> nat \<Rightarrow> nat" where
  "words_sum f off n = (\<Sum>i < n. unat (be16 f (off + 2 * i)))"

lemma words_sum_cong: "(\<And>i. i < n \<Longrightarrow> be16 f (off + 2 * i) = be16 g (off + 2 * i)) \<Longrightarrow> words_sum f off n = words_sum g off n"
  unfolding words_sum_def by (rule sum.cong) auto

lemma words_sum_put_out: "p + 2 \<le> off \<or> off + 2 * n \<le> p \<Longrightarrow> words_sum (put16 f p v) off n = words_sum f off n"
  by (rule words_sum_cong, rule be16_put16_other) auto

lemma words_sum_put_in:
  assumes k: "k < n" and l: "off + 2 * k + 2 \<le> length f"
  shows "words_sum (put16 f (off + 2 * k) v) off n + unat (be16 f (off + 2 * k)) = words_sum f off n + unat v"
proof -
  let ?g = "put16 f (off + 2 * k) v"
  have o: "(\<Sum>i \<in> {..<n} - {k}. unat (be16 ?g (off + 2 * i))) = (\<Sum>i \<in> {..<n} - {k}. unat (be16 f (off + 2 * i)))"
    by (rule sum.cong [OF refl], rule arg_cong [where f = unat], rule be16_put16_other) (simp, arith)
  have "words_sum ?g off n = unat v + (\<Sum>i \<in> {..<n} - {k}. unat (be16 f (off + 2 * i)))"
    unfolding words_sum_def sum.remove [OF finite_lessThan lessThan_iff [THEN iffD2, OF k]] o be16_put16 [OF l] ..
  moreover have "words_sum f off n = unat (be16 f (off + 2 * k)) + (\<Sum>i \<in> {..<n} - {k}. unat (be16 f (off + 2 * i)))"
    unfolding words_sum_def by (rule sum.remove [OF finite_lessThan]) (use k in simp)
  ultimately show ?thesis by simp
qed

lemma put16_twice: "put16 (put16 b p v) p w = put16 b p w"
proof (cases "p + 2 \<le> length b")
  case True
  then show ?thesis by (intro nth_equalityI) (simp_all add: put16_def nth_put_bytes u16_to_be_def)
next
  case False
  then show ?thesis by (simp add: put16_def put_bytes_def u16_to_be_def)
qed

lemma fix_csum16_put: "p + 2 \<le> length b \<Longrightarrow> fix_csum16 b p old new = put16 b p (be16 (fix_csum16 b p old new) p)"
  unfolding fix_csum16_def by (simp add: be16_put16)

lemma fix_csum32_put:
  assumes "p + 2 \<le> length b"
  shows "fix_csum32 b p old new = put16 b p (be16 (fix_csum32 b p old new) p)"
proof -
  let ?b = "fix_csum16 b p (ucast (drop_bit 16 old)) (ucast (drop_bit 16 new))"
  have "fix_csum32 b p old new = put16 ?b p (be16 (fix_csum32 b p old new) p)"
    unfolding fix_csum32_def by (rule fix_csum16_put) (use assms in simp)
  also have "\<dots> = put16 b p (be16 (fix_csum32 b p old new) p)" by (subst (1) fix_csum16_def) (rule put16_twice)
  finally show ?thesis .
qed

lemma byte_put16: "p < off \<or> off + 2 \<le> p \<Longrightarrow> byte (put16 f off v) p = byte f p"
proof (cases "off + 2 \<le> length f")
  case True
  moreover assume "p < off \<or> off + 2 \<le> p"
  ultimately show ?thesis by (auto simp: byte_def list_get_def put16_def nth_put_bytes u16_to_be_def)
next
  case False
  then show ?thesis by (simp add: byte_def put16_def put_bytes_def u16_to_be_def)
qed

section \<open>What a receiver checks\<close>

definition ihl_of :: "u8 list \<Rightarrow> nat" where
  "ihl_of f = unat (byte f ETH_LEN AND 0xf) * 4"

definition ip_valid :: "u8 list \<Rightarrow> bool" where
  "ip_valid f \<longleftrightarrow> fold16 (words_sum f ETH_LEN (ihl_of f div 2)) = 0xffff"

definition l4_len :: "u8 list \<Rightarrow> nat" where
  "l4_len f = unat (be16 f (ETH_LEN + 2)) - ihl_of f"

definition l4_sum :: "u8 list \<Rightarrow> nat" where
  "l4_sum f = words_sum f (ETH_LEN + 12) 4 + unat (byte f (ETH_LEN + 9)) + l4_len f +
     words_sum f (ETH_LEN + ihl_of f) (l4_len f div 2) +
     (if odd (l4_len f) then 256 * unat (byte f (ETH_LEN + ihl_of f + l4_len f - 1)) else 0)"

definition l4_valid :: "u8 list \<Rightarrow> bool" where
  "l4_valid f \<longleftrightarrow> byte f (ETH_LEN + 9) = PROTO_UDP \<and> be16 f (ETH_LEN + ihl_of f + 6) = 0 \<or> fold16 (l4_sum f) = 0xffff"

text \<open>The total length covers the header of the transport and lies within the frame.\<close>

definition l4_whole :: "u8 list \<Rightarrow> bool" where
  "l4_whole f \<longleftrightarrow> (if byte f (ETH_LEN + 9) = PROTO_UDP then 8 else 20) \<le> l4_len f \<and> ETH_LEN + ihl_of f + l4_len f \<le> length f"

lemma ipv4_headD:
  assumes "ipv4_head f = Some (ihl, proto)"
  shows "ihl = ihl_of f" "proto = byte f (ETH_LEN + 9)" "20 \<le> ihl" "ETH_LEN + ihl \<le> length f" "even ihl"
  using assms by (auto simp: ipv4_head_def Let_def ihl_of_def split: if_splits)

lemma ipv4_l4D:
  assumes "ipv4_l4 f = Some ip"
  shows "l4off ip = ETH_LEN + ihl_of f" "ip_proto ip = byte f (ETH_LEN + 9)" "20 \<le> ihl_of f" "even (ihl_of f)"
    "l4off ip + (if ip_proto ip = PROTO_UDP then 8 else 20) \<le> length f" "ip_proto ip = PROTO_TCP \<or> ip_proto ip = PROTO_UDP"
proof -
  obtain ihl proto where h: "ipv4_head f = Some (ihl, proto)" using assms unfolding ipv4_l4_def by (auto split: option.splits)
  note d = ipv4_headD [OF h]
  have e: "(if proto = PROTO_TCP then length f < ETH_LEN + ihl + 20 else length f < ETH_LEN + ihl + 8) = False"
    "proto = PROTO_TCP \<or> proto = PROTO_UDP" "l4off ip = ETH_LEN + ihl" "ip_proto ip = proto"
    using assms h unfolding ipv4_l4_def by (auto split: option.splits if_splits)
  show "l4off ip = ETH_LEN + ihl_of f" "ip_proto ip = byte f (ETH_LEN + 9)" "20 \<le> ihl_of f" "even (ihl_of f)"
    "ip_proto ip = PROTO_TCP \<or> ip_proto ip = PROTO_UDP" using d e by simp_all
  show "l4off ip + (if ip_proto ip = PROTO_UDP then 8 else 20) \<le> length f"
    using e d(1) by (auto simp: PROTO_TCP_def PROTO_UDP_def split: if_splits)
qed

lemma valid_sum:
  assumes "fold16 s = 0xffff" "ones_eq s' s" "0 < s'"
  shows "fold16 s' = 0xffff"
  using assms ones_eq_trans unfolding fold16_full by blast

end
