(* ===== verification/Rewrite.thy ===== *)
theory Rewrite
  imports WireSum
begin

unbundle bit_operations_syntax

text \<open>
  Rewriting an address and a port of a frame: the header and the transport checksum stay what a receiver
  accepts, and nothing but the rewritten fields and the two checksums changes.
\<close>

section \<open>The address\<close>

text \<open>The three writes that every path makes to the IPv4 header.\<close>

definition ip_rewrite :: "u8 list \<Rightarrow> nat \<Rightarrow> u32 \<Rightarrow> u8 list" where
  "ip_rewrite f a new = fix_csum32 (put32 f a new) (ETH_LEN + 10) (be32 f a) new"

abbreviation halves :: "u32 \<Rightarrow> nat" where
  "halves x \<equiv> unat (ucast (drop_bit 16 x) :: u16) + unat (ucast x :: u16)"

lemma ip_rewrite_puts:
  assumes l: "34 \<le> length f" and a: "26 \<le> a" "a + 4 \<le> length f"
  shows "ip_rewrite f a new =
    put16 (put16 (put16 f a (ucast (drop_bit 16 new))) (a + 2) (ucast new)) 24 (be16 (ip_rewrite f a new) 24)"
  using fix_csum32_put [of 24 "put32 f a new" "be32 f a" new] l a
  unfolding ip_rewrite_def put32_put16 [OF a(2)] by (simp add: ETH_LEN_def)

lemma ip_rewrite_length [simp]: "length (ip_rewrite f a new) = length f"
  by (simp add: ip_rewrite_def)

lemma ip_rewrite_csum:
  assumes l: "34 \<le> length f" and a: "26 \<le> a" "a + 4 \<le> length f"
  shows "ones_eq (unat (be16 (ip_rewrite f a new) 24) + halves new) (unat (be16 f 24) + halves (be32 f a))"
proof -
  have "be16 (put32 f a new) 24 = be16 f 24" unfolding put32_def by (rule be16_put_other) (use a in simp)
  then show ?thesis using fix_csum32_value [of 24 "put32 f a new" "be32 f a" new] l
    unfolding ip_rewrite_def by (simp add: ETH_LEN_def add.assoc)
qed

lemma ip_rewrite_same:
  assumes l: "34 \<le> length f" and a: "26 \<le> a" "a + 4 \<le> length f"
  shows "p < 24 \<or> 26 \<le> p \<and> p < a \<or> a + 4 \<le> p \<Longrightarrow> byte (ip_rewrite f a new) p = byte f p"
    "p + 2 \<le> 24 \<or> 26 \<le> p \<and> p + 2 \<le> a \<or> a + 4 \<le> p \<Longrightarrow> be16 (ip_rewrite f a new) p = be16 f p"
    "be32 (ip_rewrite f a new) a = new"
proof -
  note e = ip_rewrite_puts [OF assms, of new]
  show "byte (ip_rewrite f a new) p = byte f p" if p: "p < 24 \<or> 26 \<le> p \<and> p < a \<or> a + 4 \<le> p"
  proof -
    have d: "p < 24 \<or> 24 + 2 \<le> p" "p < a \<or> a + 2 \<le> p" "p < a + 2 \<or> a + 2 + 2 \<le> p" using p a(1) by linarith+
    show ?thesis by (subst e) (simp only: byte_put16 [OF d(1)] byte_put16 [OF d(2)] byte_put16 [OF d(3)])
  qed
  show "be16 (ip_rewrite f a new) p = be16 f p" if p: "p + 2 \<le> 24 \<or> 26 \<le> p \<and> p + 2 \<le> a \<or> a + 4 \<le> p"
  proof -
    have d: "24 + 2 \<le> p \<or> p + 2 \<le> 24" "a + 2 \<le> p \<or> p + 2 \<le> a" "a + 2 + 2 \<le> p \<or> p + 2 \<le> a + 2" using p a(1) by linarith+
    show ?thesis by (subst e) (simp only: be16_put16_other [OF d(1)] be16_put16_other [OF d(2)] be16_put16_other [OF d(3)])
  qed
  have "be16 (ip_rewrite f a new) a = ucast (drop_bit 16 new)" "be16 (ip_rewrite f a new) (a + 2) = ucast new"
    using l a by (subst e, simp add: be16_put16_other be16_put16)+
  then show "be32 (ip_rewrite f a new) a = new" using be32_halves(3) [of a "ip_rewrite f a new"] a by (simp add: u32_split)
qed

lemma put2_sum:
  assumes k: "k + 1 < n" and l: "off + 2 * k + 4 \<le> length f"
  shows "words_sum (put16 (put16 f (off + 2 * k) v) (off + 2 * k + 2) w) off n + unat (be16 f (off + 2 * k)) + unat (be16 f (off + 2 * k + 2))
    = words_sum f off n + unat v + unat w"
proof -
  have e: "off + 2 * (k + 1) = off + 2 * k + 2" by simp
  have "be16 (put16 f (off + 2 * k) v) (off + 2 * k + 2) = be16 f (off + 2 * k + 2)" by (rule be16_put16_other) simp
  then show ?thesis
    using words_sum_put_in [of k n off f v] words_sum_put_in [of "k + 1" n off "put16 f (off + 2 * k) v" w] k l unfolding e by simp
qed

lemma ip_rewrite_sum:
  assumes l: "34 \<le> length f" and k: "6 \<le> k" "k + 1 < n" "ETH_LEN + 2 * n \<le> length f"
  shows "ones_eq (words_sum (ip_rewrite f (ETH_LEN + 2 * k) new) ETH_LEN n) (words_sum f ETH_LEN n)"
proof -
  let ?a = "ETH_LEN + 2 * k" and ?g = "ip_rewrite f (ETH_LEN + 2 * k) new"
  let ?b = "put16 (put16 f ?a (ucast (drop_bit 16 new))) (?a + 2) (ucast new)"
  have a: "26 \<le> ?a" "?a + 4 \<le> length f" using k by (simp_all add: ETH_LEN_def)
  have c: "ETH_LEN + 2 * 5 = 24" by (simp add: ETH_LEN_def)
  have b: "be16 ?b 24 = be16 f 24" using a(1) by (simp add: be16_put16_other)
  have "words_sum ?g ETH_LEN n + unat (be16 f 24) = words_sum ?b ETH_LEN n + unat (be16 ?g 24)"
    using words_sum_put_in [of 5 n ETH_LEN ?b "be16 ?g 24"] k l ip_rewrite_puts [OF l a, of new] unfolding c b by simp
  moreover have "words_sum ?b ETH_LEN n + halves (be32 f ?a) = words_sum f ETH_LEN n + halves new"
    using put2_sum [of k n ETH_LEN f "ucast (drop_bit 16 new)" "ucast new"] k be32_halves [OF a(2)] by simp
  ultimately have "int (words_sum ?g ETH_LEN n) - int (words_sum f ETH_LEN n) =
      int (unat (be16 ?g 24) + halves new) - int (unat (be16 f 24) + halves (be32 f ?a))"
    by linarith
  then show ?thesis using ip_rewrite_csum [OF l a, of new] unfolding ones_eq_def by simp
qed

lemma ip_rewrite_pseudo:
  assumes l: "34 \<le> length f" and k: "k = 0 \<or> k = 2"
  shows "words_sum (ip_rewrite f (26 + 2 * k) new) 26 4 + halves (be32 f (26 + 2 * k)) = words_sum f 26 4 + halves new"
proof -
  let ?a = "26 + 2 * k"
  have a: "26 \<le> ?a" "?a + 4 \<le> length f" using k l by auto
  have "words_sum (ip_rewrite f ?a new) 26 4 =
      words_sum (put16 (put16 f ?a (ucast (drop_bit 16 new))) (?a + 2) (ucast new)) 26 4"
    by (subst ip_rewrite_puts [OF l a]) (rule words_sum_put_out, simp)
  then show ?thesis
    using put2_sum [of k 4 26 f "ucast (drop_bit 16 new)" "ucast new"] k a be32_halves [OF a(2)] by auto
qed

lemma ip_rewrite_after:
  assumes l: "34 \<le> length f" and a: "26 \<le> a" "a + 4 \<le> 34" and o: "34 \<le> off"
  shows "words_sum (ip_rewrite f a new) off n = words_sum f off n"
  by (rule words_sum_cong, rule ip_rewrite_same(2)) (use assms in auto)

section \<open>The transport header\<close>

text \<open>The checksum part that the two rewriting routines share.\<close>

definition csum_done :: "u8 \<Rightarrow> nat \<Rightarrow> u8 list \<Rightarrow> u8 list" where
  "csum_done proto c f = (if proto = PROTO_UDP \<and> be16 f c = 0 then put16 f c 0xffff else f)"

lemma rewrite_l4_eq:
  "rewrite_l4 f l4 proto po old new op np =
     (let c = l4 + l4_csum_off proto; f1 = put16 f (l4 + po) np in
      if proto = PROTO_UDP \<and> be16 f1 c = 0 then f1 else csum_done proto c (fix_csum16 (fix_csum32 f1 c old new) c op np))"
  unfolding rewrite_l4_def csum_done_def Let_def ..

lemma put16_self:
  assumes "c + 2 \<le> length f"
  shows "put16 f c (be16 f c) = f"
proof (rule nth_equalityI)
  have b: "ucast (drop_bit 8 (u16_from_be h l)) = h" "ucast (u16_from_be h l) = l" for h l
    unfolding u16_from_be_def by (rule bit_word_eqI; auto simp: bit_simps dest: bit_imp_le_length)+
  fix i
  assume "i < length (put16 f c (be16 f c))"
  then have i: "i < length f" by simp
  consider "i = c" | "i = c + 1" | "i < c" | "c + 2 \<le> i" by linarith
  then show "put16 f c (be16 f c) ! i = f ! i"
    by cases (use i assms in \<open>simp_all add: put16_def nth_put_bytes u16_to_be_def be16_nth b\<close>)
qed simp

lemma csum_done_spec:
  assumes "c + 2 \<le> length f"
  shows "csum_done proto c f = put16 f c (be16 (csum_done proto c f) c)" "ones_eq (unat (be16 (csum_done proto c f) c)) (unat (be16 f c))"
    "proto = PROTO_UDP \<Longrightarrow> be16 (csum_done proto c f) c \<noteq> 0"
proof -
  show "csum_done proto c f = put16 f c (be16 (csum_done proto c f) c)"
    using put16_self [OF assms] assms by (simp add: csum_done_def be16_put16)
  show "ones_eq (unat (be16 (csum_done proto c f) c)) (unat (be16 f c))"
    using assms by (simp add: csum_done_def be16_put16 ones_eq_mod)
  show "proto = PROTO_UDP \<Longrightarrow> be16 (csum_done proto c f) c \<noteq> 0"
    using assms by (simp add: csum_done_def be16_put16)
qed

lemma csum_done_length [simp]: "length (csum_done proto c f) = length f"
  by (simp add: csum_done_def)

lemma fix_l4_ip_eq:
  "fix_l4_ip f l4 proto old new =
     (let c = l4 + l4_csum_off proto in
      if proto = PROTO_UDP \<and> be16 f c = 0 then f else csum_done proto c (fix_csum32 f c old new))"
  unfolding fix_l4_ip_def csum_done_def Let_def ..

lemma l4_csum_even: "l4 + l4_csum_off proto = l4 + 2 * (l4_csum_off proto div 2)"
  by (simp add: l4_csum_off_def)

text \<open>The checksum is skipped, or the sum over the transport and the pseudo header stays the same.\<close>

definition l4_kept :: "u8 \<Rightarrow> nat \<Rightarrow> u8 list \<Rightarrow> u8 list \<Rightarrow> u32 \<Rightarrow> u32 \<Rightarrow> nat \<Rightarrow> bool" where
  "l4_kept proto l4 g h old new m \<longleftrightarrow>
     (if proto = PROTO_UDP \<and> be16 g (l4 + l4_csum_off proto) = 0 then be16 h (l4 + l4_csum_off proto) = 0
      else ones_eq (words_sum h l4 m + halves new) (words_sum g l4 m + halves old))"

lemma rewrite_l4_put:
  assumes c: "l4 + l4_csum_off proto + 2 \<le> length g" and po: "po = 0 \<or> po = 2"
  obtains v where "rewrite_l4 g l4 proto po old new op np = put16 (put16 g (l4 + po) np) (l4 + l4_csum_off proto) v"
    "if proto = PROTO_UDP \<and> be16 g (l4 + l4_csum_off proto) = 0 then v = 0
     else ones_eq (unat v + unat np + halves new) (unat (be16 g (l4 + l4_csum_off proto)) + unat op + halves old)"
proof -
  let ?c = "l4 + l4_csum_off proto" and ?f = "put16 g (l4 + po) np" and ?h = "rewrite_l4 g l4 proto po old new op np"
  have d: "l4 + po + 2 \<le> ?c" using po by (auto simp: l4_csum_off_def)
  have same: "be16 ?f ?c = be16 g ?c" by (rule be16_put16_other) (use d in blast)
  have lf: "?c + 2 \<le> length ?f" using c by simp
  show thesis
  proof (cases "proto = PROTO_UDP \<and> be16 g ?c = 0")
    case True
    have "?h = ?f" unfolding rewrite_l4_eq Let_def same if_P [OF True] ..
    also have "\<dots> = put16 ?f ?c 0"
      using put16_self [OF lf] unfolding same conjunct2 [OF True] by (rule sym)
    finally show thesis by (rule that) (simp only: if_P [OF True])
  next
    case False
    let ?a = "fix_csum32 ?f ?c old new"
    let ?b = "fix_csum16 ?a ?c op np"
    have h: "?h = csum_done proto ?c ?b" unfolding rewrite_l4_eq Let_def same if_not_P [OF False] ..
    have la: "?c + 2 \<le> length ?a" and lb: "?c + 2 \<le> length ?b" using lf by simp_all
    have "?h = put16 ?f ?c (be16 ?h ?c)"
      using csum_done_spec(1) [OF lb, of proto] fix_csum16_put [OF la, of op np] fix_csum32_put [OF lf, of old new] put16_twice
      unfolding h by metis
    moreover have "ones_eq (unat (be16 ?h ?c) + unat np + halves new) (unat (be16 g ?c) + unat op + halves old)"
    proof -
      have "65535 dvd (int (unat (be16 ?h ?c)) - int (unat (be16 ?b ?c))) + (int (unat (be16 ?b ?c) + unat np) - int (unat (be16 ?a ?c) + unat op)) +
          (int (unat (be16 ?a ?c) + unat (ucast (drop_bit 16 new) :: u16) + unat (ucast new :: u16))
           - int (unat (be16 ?f ?c) + unat (ucast (drop_bit 16 old) :: u16) + unat (ucast old :: u16)))"
        using csum_done_spec(2) [OF lb, of proto] fix_csum16_value [OF la, of op np] fix_csum32_value [OF lf, of old new]
        unfolding h ones_eq_def by (intro dvd_add) simp_all
      moreover have "(int (unat (be16 ?h ?c)) - int (unat (be16 ?b ?c))) + (int (unat (be16 ?b ?c) + unat np) - int (unat (be16 ?a ?c) + unat op)) +
          (int (unat (be16 ?a ?c) + unat (ucast (drop_bit 16 new) :: u16) + unat (ucast new :: u16))
           - int (unat (be16 ?f ?c) + unat (ucast (drop_bit 16 old) :: u16) + unat (ucast old :: u16)))
         = int (unat (be16 ?h ?c) + unat np + halves new) - int (unat (be16 ?f ?c) + unat op + halves old)"
        unfolding of_nat_add by linarith
      ultimately show ?thesis unfolding ones_eq_def same by (simp only:)
    qed
    ultimately show thesis by (rule that [unfolded if_not_P [OF False]])
  qed
qed

lemma rewrite_l4_kept:
  assumes c: "l4 + l4_csum_off proto + 2 \<le> length g" and po: "po = 0 \<or> po = 2" and m: "l4_csum_off proto + 2 \<le> 2 * m"
    and op: "op = be16 g (l4 + po)" and h: "h = rewrite_l4 g l4 proto po old new op np"
  shows "l4_kept proto l4 g h old new m" "length h = length g" "be16 h (l4 + po) = np"
    "p < l4 + po \<or> l4 + po + 2 \<le> p \<and> p < l4 + l4_csum_off proto \<or> l4 + l4_csum_off proto + 2 \<le> p \<Longrightarrow> byte h p = byte g p"
    "p + 2 \<le> l4 + po \<or> l4 + po + 2 \<le> p \<and> p + 2 \<le> l4 + l4_csum_off proto \<or> l4 + l4_csum_off proto + 2 \<le> p \<Longrightarrow> be16 h p = be16 g p"
proof -
  let ?c = "l4 + l4_csum_off proto" and ?f = "put16 g (l4 + po) np"
  obtain v where hv: "h = put16 ?f ?c v" and v: "if proto = PROTO_UDP \<and> be16 g ?c = 0 then v = 0
     else ones_eq (unat v + unat np + halves new) (unat (be16 g ?c) + unat op + halves old)"
    unfolding h by (rule rewrite_l4_put [OF c po])
  have d: "l4 + po + 2 \<le> ?c" using po by (auto simp: l4_csum_off_def)
  show "length h = length g" by (simp add: hv)
  show "be16 h (l4 + po) = np" unfolding hv using d c by (simp add: be16_put16_other be16_put16)
  show "byte h p = byte g p" if "p < l4 + po \<or> l4 + po + 2 \<le> p \<and> p < ?c \<or> ?c + 2 \<le> p"
  proof -
    have "p < ?c \<or> ?c + 2 \<le> p" "p < l4 + po \<or> l4 + po + 2 \<le> p" using that d by linarith+
    then show ?thesis unfolding hv by (simp only: byte_put16)
  qed
  show "be16 h p = be16 g p" if "p + 2 \<le> l4 + po \<or> l4 + po + 2 \<le> p \<and> p + 2 \<le> ?c \<or> ?c + 2 \<le> p"
  proof -
    have "?c + 2 \<le> p \<or> p + 2 \<le> ?c" "l4 + po + 2 \<le> p \<or> p + 2 \<le> l4 + po" using that d by linarith+
    then show ?thesis unfolding hv by (simp only: be16_put16_other)
  qed
  have pe: "l4 + po = l4 + 2 * (po div 2)" using po by auto
  have kc: "l4_csum_off proto div 2 < m" and kp: "po div 2 < m" using m po by (auto simp: l4_csum_off_def split: if_splits)
  have same: "be16 ?f ?c = be16 g ?c" by (rule be16_put16_other) (use d in blast)
  have lp: "l4 + 2 * (po div 2) + 2 \<le> length g" and lc: "l4 + 2 * (l4_csum_off proto div 2) + 2 \<le> length ?f"
    using c d pe l4_csum_even [of l4 proto] by simp_all
  have s1: "words_sum ?f l4 m + unat op = words_sum g l4 m + unat np"
    using words_sum_put_in [OF kp lp, of np] unfolding op pe [symmetric] .
  have s2: "words_sum h l4 m + unat (be16 g ?c) = words_sum ?f l4 m + unat v"
    using words_sum_put_in [OF kc lc, of v] unfolding l4_csum_even [symmetric] hv same .
  show "l4_kept proto l4 g h old new m"
  proof (cases "proto = PROTO_UDP \<and> be16 g ?c = 0")
    case True
    have "be16 h ?c = v" unfolding hv by (rule be16_put16) (use c in simp)
    then show ?thesis using v unfolding l4_kept_def if_P [OF True] by simp
  next
    case False
    have "int (words_sum h l4 m + halves new) - int (words_sum g l4 m + halves old)
      = int (unat v + unat np + halves new) - int (unat (be16 g ?c) + unat op + halves old)"
      using s1 s2 by linarith
    then show ?thesis using v unfolding l4_kept_def ones_eq_def if_not_P [OF False] by (simp only:)
  qed
qed

lemma fix_l4_ip_kept:
  assumes c: "l4 + l4_csum_off proto + 2 \<le> length g" and m: "l4_csum_off proto + 2 \<le> 2 * m"
    and h: "h = fix_l4_ip g l4 proto old new"
  shows "l4_kept proto l4 g h old new m" "length h = length g"
    "p < l4 + l4_csum_off proto \<or> l4 + l4_csum_off proto + 2 \<le> p \<Longrightarrow> byte h p = byte g p"
    "p + 2 \<le> l4 + l4_csum_off proto \<or> l4 + l4_csum_off proto + 2 \<le> p \<Longrightarrow> be16 h p = be16 g p"
proof -
  let ?c = "l4 + l4_csum_off proto" and ?a = "fix_csum32 g (l4 + l4_csum_off proto) old new"
  have la: "?c + 2 \<le> length ?a" using c by simp
  have put: "csum_done proto ?c ?a = put16 g ?c (be16 (csum_done proto ?c ?a) ?c)"
    using csum_done_spec(1) [OF la, of proto] fix_csum32_put [OF c, of old new] put16_twice by metis
  have hp: "h = g \<or> h = put16 g ?c (be16 (csum_done proto ?c ?a) ?c)"
    unfolding h fix_l4_ip_eq Let_def using put by auto
  show "length h = length g" using hp by auto
  show "p < ?c \<or> ?c + 2 \<le> p \<Longrightarrow> byte h p = byte g p" using hp byte_put16 by auto
  show "p + 2 \<le> ?c \<or> ?c + 2 \<le> p \<Longrightarrow> be16 h p = be16 g p" using hp be16_put16_other by auto
  show "l4_kept proto l4 g h old new m"
  proof (cases "proto = PROTO_UDP \<and> be16 g ?c = 0")
    case True
    then show ?thesis unfolding l4_kept_def h fix_l4_ip_eq Let_def if_P [OF True] by blast
  next
    case False
    let ?v = "be16 (csum_done proto ?c ?a) ?c"
    have hv: "h = put16 g ?c ?v" unfolding h fix_l4_ip_eq Let_def if_not_P [OF False] by (rule put)
    have kc: "l4_csum_off proto div 2 < m" using m by (auto simp: l4_csum_off_def split: if_splits)
    have lc: "l4 + 2 * (l4_csum_off proto div 2) + 2 \<le> length g" using c l4_csum_even [of l4 proto] by simp
    have s: "words_sum h l4 m + unat (be16 g ?c) = words_sum g l4 m + unat ?v"
      using words_sum_put_in [OF kc lc, of ?v] unfolding l4_csum_even [symmetric] hv .
    have "65535 dvd (int (unat ?v) - int (unat (be16 ?a ?c))) +
        (int (unat (be16 ?a ?c) + unat (ucast (drop_bit 16 new) :: u16) + unat (ucast new :: u16))
         - int (unat (be16 g ?c) + unat (ucast (drop_bit 16 old) :: u16) + unat (ucast old :: u16)))"
      using csum_done_spec(2) [OF la, of proto] fix_csum32_value [OF c, of old new] unfolding ones_eq_def by (intro dvd_add) simp_all
    moreover have "(int (unat ?v) - int (unat (be16 ?a ?c))) +
        (int (unat (be16 ?a ?c) + unat (ucast (drop_bit 16 new) :: u16) + unat (ucast new :: u16))
         - int (unat (be16 g ?c) + unat (ucast (drop_bit 16 old) :: u16) + unat (ucast old :: u16)))
       = int (words_sum h l4 m + halves new) - int (words_sum g l4 m + halves old)"
      using s unfolding of_nat_add by linarith
    ultimately show ?thesis unfolding l4_kept_def if_not_P [OF False] ones_eq_def by (simp only:)
  qed
qed

section \<open>The whole frame\<close>

lemma be16_bytes:
  assumes "length h = length g" "byte h p = byte g p" "byte h (p + 1) = byte g (p + 1)"
  shows "be16 h p = be16 g p"
proof (cases "p + 2 \<le> length g")
  case True
  then show ?thesis using assms by (simp add: be16_nth byte_def list_get_def)
next
  case False
  then show ?thesis using assms(1) by (simp add: be16_def bytes_at_def)
qed

lemma ipv4_head_nonzero:
  assumes "ipv4_head f = Some r"
  shows "be16 f ETH_LEN \<noteq> 0" "34 \<le> length f"
proof -
  have l: "34 \<le> length f" and v: "drop_bit 4 (byte f ETH_LEN) = 4"
    using assms by (auto simp: ipv4_head_def ETH_LEN_def Let_def split: if_splits)
  show "34 \<le> length f" by (rule l)
  have "be16 f ETH_LEN = u16_from_be (byte f ETH_LEN) (f ! (ETH_LEN + 1))"
    using l by (simp add: be16_nth byte_def list_get_def ETH_LEN_def)
  moreover have "u16_from_be h x \<noteq> 0" if h: "drop_bit 4 h = 4" for h x
  proof
    assume "u16_from_be h x = 0"
    then have "ucast (drop_bit 8 (u16_from_be h x)) = (0 :: u8)" by simp
    moreover have "ucast (drop_bit 8 (u16_from_be h x)) = h"
      unfolding u16_from_be_def by (rule bit_word_eqI) (auto simp: bit_simps dest: bit_imp_le_length)
    ultimately show False using h by simp
  qed
  ultimately show "be16 f ETH_LEN \<noteq> 0" using v by simp
qed

text \<open>A frame whose header was rewritten at \<open>a\<close>, and whose transport was kept in step.\<close>

lemma rewritten_valid:
  assumes hd: "ipv4_head f = Some (ihl, proto)" and k: "k = 0 \<or> k = 2" and g: "g = ip_rewrite f (26 + 2 * k) new"
    and len: "length h = length g" and low: "\<And>p. p < 34 \<Longrightarrow> byte h p = byte g p"
  shows "ip_valid f \<Longrightarrow> words_sum h ETH_LEN (ihl div 2) = words_sum g ETH_LEN (ihl div 2) \<Longrightarrow> ip_valid h" "ihl_of h = ihl"
    "byte h (ETH_LEN + 9) = proto" "l4_len h = l4_len f"
proof -
  note d = ipv4_headD [OF hd] and n = ipv4_head_nonzero [OF hd]
  let ?a = "26 + 2 * k"
  have a: "26 \<le> ?a" "?a + 4 \<le> length f" using k n(2) by auto
  have b: "byte h p = byte f p" if "p < 24" for p
    using low [of p] ip_rewrite_same(1) [OF n(2) a, of p new] that unfolding g by simp
  have b16: "be16 h p = be16 f p" if "p + 2 \<le> 24" for p
    using be16_bytes [OF len, of p] low [of p] low [of "p + 1"] ip_rewrite_same(2) [OF n(2) a, of p new] that unfolding g by simp
  show i: "ihl_of h = ihl" using b [of ETH_LEN] d(1) by (simp add: ihl_of_def ETH_LEN_def)
  show "byte h (ETH_LEN + 9) = proto" using b [of "ETH_LEN + 9"] d(2) by (simp add: ETH_LEN_def)
  show "l4_len h = l4_len f" using b16 [of "ETH_LEN + 2"] i d(1) by (simp add: l4_len_def ETH_LEN_def)
  assume v: "ip_valid f" and s: "words_sum h ETH_LEN (ihl div 2) = words_sum g ETH_LEN (ihl div 2)"
  have ae: "?a = ETH_LEN + 2 * (k + 6)" by (simp add: ETH_LEN_def)
  have "ones_eq (words_sum h ETH_LEN (ihl div 2)) (words_sum f ETH_LEN (ihl div 2))"
    unfolding s g ae by (rule ip_rewrite_sum [OF n(2)]) (use k d(3,4,5) in auto)
  moreover have "0 < words_sum h ETH_LEN (ihl div 2)"
  proof -
    have nz: "0 < unat (be16 h ETH_LEN)" using b16 [of ETH_LEN] n(1) by (simp add: ETH_LEN_def unat_gt_0)
    have "unat (be16 h (ETH_LEN + 2 * 0)) \<le> words_sum h ETH_LEN (ihl div 2)"
      unfolding words_sum_def by (rule member_le_sum) (use d(3) in auto)
    then show ?thesis using nz by simp
  qed
  ultimately show "ip_valid h" using v d(1) i unfolding ip_valid_def by (simp add: valid_sum)
qed

lemma rewritten_l4_valid:
  assumes hd: "ipv4_head f = Some (ihl, proto)" and k: "k = 0 \<or> k = 2" and g: "g = ip_rewrite f (26 + 2 * k) new"
    and len: "length h = length g" and low: "\<And>p. p < 34 \<Longrightarrow> byte h p = byte g p"
    and kept: "l4_kept proto (ETH_LEN + ihl) g h (be32 f (26 + 2 * k)) new (l4_len f div 2)"
    and tail: "odd (l4_len f) \<Longrightarrow> byte h (ETH_LEN + ihl + l4_len f - 1) = byte g (ETH_LEN + ihl + l4_len f - 1)"
    and whole: "l4_whole f" and pr: "proto = PROTO_TCP \<or> proto = PROTO_UDP" and v: "l4_valid f"
  shows "l4_valid h"
proof -
  note d = ipv4_headD [OF hd] and n = ipv4_head_nonzero [OF hd]
  note r = rewritten_valid [OF hd k g len low]
  let ?a = "26 + 2 * k" and ?l4 = "ETH_LEN + ihl" and ?n = "l4_len f"
  have a: "26 \<le> ?a" "?a + 4 \<le> length f" "?a + 4 \<le> 34" using k n(2) by auto
  have l34: "34 \<le> ?l4" using d(3) by (simp add: ETH_LEN_def)
  have gl: "be16 g p = be16 f p" if "34 \<le> p" for p using ip_rewrite_same(2) [OF n(2) a(1,2), of p new] that a(3) unfolding g by simp
  have sl: "words_sum g ?l4 (?n div 2) = words_sum f ?l4 (?n div 2)"
    unfolding g by (rule ip_rewrite_after [OF n(2) a(1,3) l34])
  have n8: "8 \<le> ?n" "?l4 + ?n \<le> length f" using whole d(1,2) by (auto simp: l4_whole_def split: if_splits)
  show ?thesis
  proof (cases "proto = PROTO_UDP \<and> be16 f (?l4 + 6) = 0")
    case True
    then have z: "proto = PROTO_UDP \<and> be16 g (?l4 + l4_csum_off proto) = 0" using gl [of "?l4 + 6"] l34 by (simp add: l4_csum_off_def)
    have "be16 h (?l4 + l4_csum_off proto) = 0" using kept unfolding l4_kept_def if_P [OF z] .
    then show ?thesis using True r(2,3) by (simp add: l4_valid_def l4_csum_off_def)
  next
    case False
    then have z: "\<not> (proto = PROTO_UDP \<and> be16 g (?l4 + l4_csum_off proto) = 0)" using gl [of "?l4 + 6"] l34 by (auto simp: l4_csum_off_def)
    have o: "ones_eq (words_sum h ?l4 (?n div 2) + halves new) (words_sum g ?l4 (?n div 2) + halves (be32 f ?a))"
      using kept unfolding l4_kept_def if_not_P [OF z] .
    have ps: "words_sum h 26 4 + halves (be32 f ?a) = words_sum f 26 4 + halves new"
    proof -
      have "words_sum h 26 4 = words_sum g 26 4"
        by (rule words_sum_cong, rule be16_bytes [OF len]) (simp_all add: low)
      then show ?thesis using ip_rewrite_pseudo [OF n(2) k, of new] unfolding g by simp
    qed
    let ?T = "if odd ?n then 256 * unat (byte f (?l4 + ?n - 1)) else 0"
    have t: "byte h (?l4 + ?n - 1) = byte f (?l4 + ?n - 1)" if "odd ?n"
    proof -
      have "?a + 4 \<le> ?l4 + ?n - 1" using l34 n8(1) a(3) by linarith
      then have "byte g (?l4 + ?n - 1) = byte f (?l4 + ?n - 1)" unfolding g by (intro ip_rewrite_same(1) [OF n(2) a(1,2)]) blast
      then show ?thesis using tail [OF that] by simp
    qed
    have fs: "l4_sum f = words_sum f 26 4 + unat proto + ?n + words_sum f ?l4 (?n div 2) + ?T"
      using d(1,2) by (simp add: l4_sum_def ETH_LEN_def)
    have hs: "l4_sum h = words_sum h 26 4 + unat proto + ?n + words_sum h ?l4 (?n div 2) + ?T"
      using r(2-4) t by (simp add: l4_sum_def ETH_LEN_def)
    have "int (l4_sum h) - int (l4_sum f) = int (words_sum h ?l4 (?n div 2) + halves new) - int (words_sum g ?l4 (?n div 2) + halves (be32 f ?a))"
      using ps unfolding fs hs sl by linarith
    then have e: "ones_eq (l4_sum h) (l4_sum f)" using o unfolding ones_eq_def by (simp only:)
    have "0 < l4_sum h" using pr unfolding hs by (auto simp: PROTO_TCP_def PROTO_UDP_def)
    moreover have "fold16 (l4_sum f) = 0xffff" using v False unfolding l4_valid_def d(1,2) by blast
    ultimately show ?thesis using valid_sum [OF _ e] unfolding l4_valid_def by simp
  qed
qed

end
