(* ===== verification/NatRewrite.thy ===== *)
theory NatRewrite
  imports NodeNat Rewrite
begin

unbundle bit_operations_syntax

text \<open>What the rewriting paths make of a frame: the new addresses, and checksums that a receiver accepts.\<close>

section \<open>Fields after rewriting\<close>

lemma csum_off_bounds: "6 \<le> l4_csum_off proto" "l4_csum_off proto + 2 \<le> (if proto = PROTO_UDP then 8 else 20)"
  by (simp_all add: l4_csum_off_def)

lemma ipv4_l4_head: "ipv4_l4 f = Some ip \<Longrightarrow> ipv4_head f = Some (ihl_of f, ip_proto ip)"
proof -
  assume a: "ipv4_l4 f = Some ip"
  then obtain ihl proto where h: "ipv4_head f = Some (ihl, proto)" unfolding ipv4_l4_def by (auto split: option.splits)
  have "ip_proto ip = proto" using a h unfolding ipv4_l4_def by (auto split: option.splits if_splits)
  then show ?thesis using h ipv4_headD(1) [OF h] by simp
qed

text \<open>One address, its checksum and one port of the transport header; \<open>k\<close> says which address.\<close>

definition nat_rewrite :: "u8 list \<Rightarrow> nat \<Rightarrow> nat \<Rightarrow> u8 \<Rightarrow> nat \<Rightarrow> u32 \<Rightarrow> u32 \<Rightarrow> u16 \<Rightarrow> u16 \<Rightarrow> u8 list" where
  "nat_rewrite f k l4 proto po old new op np =
     rewrite_l4 (fix_csum32 (put32 f (26 + 2 * k) new) (ETH_LEN + 10) old new) l4 proto po old new op np"

lemma snat_nat_rewrite: "snat_src u f l4 proto old op np = nat_rewrite f 0 l4 proto 0 old (up_ip u) op np"
  by (simp add: snat_src_def nat_rewrite_def Let_def ETH_LEN_def)

lemma dnat_nat_rewrite:
  "dnat_to_slot io slot f l4 proto old new op np =
     (emit io (Deliver slot (put_mac (put_mac (nat_rewrite f 2 l4 proto 2 old new op np) 0 (port_mac slot)) 6 HOST_MAC)),
      put_mac (put_mac (nat_rewrite f 2 l4 proto 2 old new op np) 0 (port_mac slot)) 6 HOST_MAC)"
  by (simp add: dnat_to_slot_def nat_rewrite_def Let_def ETH_LEN_def)

lemma nat_rewrite_fields:
  assumes ip: "ipv4_l4 f = Some ip" and k: "k = 0 \<or> k = 2" and po: "po = 0 \<or> po = 2"
    and h: "h = nat_rewrite f k (l4off ip) (ip_proto ip) po old new op np"
  shows "be32 h (26 + 2 * k) = new" "be32 h (26 + 2 * (2 - k)) = be32 f (26 + 2 * (2 - k))" "be16 h (l4off ip + po) = np"
    "be16 h (l4off ip + (2 - po)) = be16 f (l4off ip + (2 - po))" "length h = length f"
proof -
  note d = ipv4_l4D [OF ip]
  let ?a = "26 + 2 * k" and ?l4 = "l4off ip" and ?c = "l4off ip + l4_csum_off (ip_proto ip)"
  let ?f1 = "put32 f (26 + 2 * k) new"
  let ?g = "fix_csum32 ?f1 (ETH_LEN + 10) old new"
  have l34: "34 \<le> ?l4" and len: "?c + 2 \<le> length f" "34 \<le> length f"
    using d(1,3,5) csum_off_bounds [of "ip_proto ip"] by (auto simp: ETH_LEN_def split: if_splits)
  have g: "be16 ?g p = be16 ?f1 p" if "26 \<le> p" for p by (rule fix_csum32_other) (use that in \<open>simp add: ETH_LEN_def\<close>)
  have f1: "?f1 = put16 (put16 f ?a (ucast (drop_bit 16 new))) (?a + 2) (ucast new)" by (rule put32_put16) (use k len(2) in auto)
  obtain v where hv: "h = put16 (put16 ?g (?l4 + po) np) ?c v"
    unfolding h nat_rewrite_def by (rule rewrite_l4_put [OF _ po, of ?l4 "ip_proto ip" ?g]) (use len(1) in simp_all)
  have pc: "?l4 + po + 2 \<le> ?c" using po csum_off_bounds(1) [of "ip_proto ip"] by auto
  have low: "be16 h p = be16 ?f1 p" if "26 \<le> p" "p + 2 \<le> 34" for p
    unfolding hv using that l34 pc g [of p] by (simp add: be16_put16_other)
  show "length h = length f" by (simp add: hv)
  then have lh: "?a + 4 \<le> length h" "26 + 2 * (2 - k) + 4 \<le> length h" using k len(2) by auto
  have "be16 h ?a = ucast (drop_bit 16 new)" "be16 h (?a + 2) = ucast new"
    using low [of ?a] low [of "?a + 2"] k len(2) unfolding f1 by (auto simp: be16_put16_other be16_put16)
  then show "be32 h ?a = new" using be32_halves(3) [OF lh(1)] by (simp add: u32_split)
  have "be16 h p = be16 f p" if "p = 26 + 2 * (2 - k) \<or> p = 26 + 2 * (2 - k) + 2" for p
  proof -
    have "be16 h p = be16 ?f1 p" by (rule low) (use that k in auto)
    also have "\<dots> = be16 f p" unfolding put32_def by (rule be16_put_other) (use that k in \<open>auto simp: u32_to_be_def\<close>)
    finally show ?thesis .
  qed
  then show "be32 h (26 + 2 * (2 - k)) = be32 f (26 + 2 * (2 - k))"
    using be32_halves(3) [OF lh(2)] be32_halves(3) [of "26 + 2 * (2 - k)" f] k len(2) by auto
  show "be16 h (?l4 + po) = np" unfolding hv using pc len(1) by (simp add: be16_put16_other be16_put16)
  have "be16 h (?l4 + (2 - po)) = be16 ?g (?l4 + (2 - po))" unfolding hv using po csum_off_bounds(1) [of "ip_proto ip"]
    by (auto simp: be16_put16_other)
  also have "\<dots> = be16 ?f1 (?l4 + (2 - po))" by (rule g) (use l34 in simp)
  also have "\<dots> = be16 f (?l4 + (2 - po))" unfolding put32_def by (rule be16_put_other) (use k l34 in \<open>auto simp: u32_to_be_def\<close>)
  finally show "be16 h (?l4 + (2 - po)) = be16 f (?l4 + (2 - po))" .
qed

section \<open>Checksums after rewriting\<close>

lemma nat_rewrite_valid:
  assumes ip: "ipv4_l4 f = Some ip" and k: "k = 0 \<or> k = 2" and po: "po = 0 \<or> po = 2" and w: "l4_whole f"
    and h: "h = nat_rewrite f k (l4off ip) (ip_proto ip) po (be32 f (26 + 2 * k)) new (be16 f (l4off ip + po)) np"
  shows "ip_valid f \<Longrightarrow> ip_valid h" "l4_valid f \<Longrightarrow> l4_valid h"
proof -
  note d = ipv4_l4D [OF ip] and hd = ipv4_l4_head [OF ip]
  let ?a = "26 + 2 * k" and ?l4 = "l4off ip" and ?proto = "ip_proto ip"
  let ?g = "ip_rewrite f ?a new" and ?m = "l4_len f div 2"
  have l34: "34 \<le> ?l4" and len: "?l4 + l4_csum_off ?proto + 2 \<le> length f" "34 \<le> length f"
    using d(1,3,5) csum_off_bounds [of ?proto] by (auto simp: ETH_LEN_def split: if_splits)
  have a: "26 \<le> ?a" "?a + 4 \<le> length f" "?a + 4 \<le> 34" using k len(2) by auto
  have lg: "?l4 + l4_csum_off ?proto + 2 \<le> length ?g" using len(1) by simp
  have n: "(if ?proto = PROTO_UDP then 8 else 20) \<le> l4_len f" using w d(2) unfolding l4_whole_def by simp
  then have m: "l4_csum_off ?proto + 2 \<le> 2 * ?m" by (auto simp: l4_csum_off_def split: if_splits)
  have op: "be16 f (?l4 + po) = be16 ?g (?l4 + po)" using ip_rewrite_same(2) [OF len(2) a(1,2), of "?l4 + po" new] l34 a(3) by simp
  have h': "h = rewrite_l4 ?g ?l4 ?proto po (be32 f ?a) new (be16 f (?l4 + po)) np"
    unfolding h nat_rewrite_def ip_rewrite_def ..
  note r = rewrite_l4_kept [OF lg po m op h']
  have low: "byte h p = byte ?g p" if "p < 34" for p by (rule r(4)) (use that l34 in linarith)
  have ws: "words_sum h ETH_LEN (ihl_of f div 2) = words_sum ?g ETH_LEN (ihl_of f div 2)"
  proof (rule words_sum_cong, rule r(5))
    fix i
    assume "i < ihl_of f div 2"
    then have "ETH_LEN + 2 * i + 2 \<le> ?l4" using d(1,4) by auto
    then show "ETH_LEN + 2 * i + 2 \<le> ?l4 + po \<or> ?l4 + po + 2 \<le> ETH_LEN + 2 * i \<and> ETH_LEN + 2 * i + 2 \<le> ?l4 + l4_csum_off ?proto \<or>
      ?l4 + l4_csum_off ?proto + 2 \<le> ETH_LEN + 2 * i" by linarith
  qed
  show "ip_valid f \<Longrightarrow> ip_valid h" by (rule rewritten_valid(1) [OF hd k refl r(2) _ _ ws]) (simp_all add: low)
  have kept: "l4_kept ?proto (ETH_LEN + ihl_of f) ?g h (be32 f ?a) new ?m" using r(1) d(1) by simp
  have tail: "byte h (ETH_LEN + ihl_of f + l4_len f - 1) = byte ?g (ETH_LEN + ihl_of f + l4_len f - 1)" if o: "odd (l4_len f)"
  proof (rule r(4))
    have "l4_csum_off ?proto + 2 \<le> l4_len f - 1" using n o by (cases "?proto = PROTO_UDP") (auto simp: l4_csum_off_def elim: oddE)
    then have "?l4 + l4_csum_off ?proto + 2 \<le> ETH_LEN + ihl_of f + l4_len f - 1" unfolding d(1) by linarith
    then show "ETH_LEN + ihl_of f + l4_len f - 1 < ?l4 + po \<or> ?l4 + po + 2 \<le> ETH_LEN + ihl_of f + l4_len f - 1 \<and>
        ETH_LEN + ihl_of f + l4_len f - 1 < ?l4 + l4_csum_off ?proto \<or> ?l4 + l4_csum_off ?proto + 2 \<le> ETH_LEN + ihl_of f + l4_len f - 1"
      by blast
  qed
  show "l4_valid f \<Longrightarrow> l4_valid h" by (rule rewritten_l4_valid [OF hd k refl r(2) _ kept _ w d(6)]) (simp_all add: low tail del: One_nat_def)
qed

text \<open>The addresses of the Ethernet header are outside every sum.\<close>

lemma put_mac_byte: "length m = 6 \<Longrightarrow> off + 6 \<le> p \<Longrightarrow> byte (put_mac f off m) p = byte f p"
  by (auto simp: byte_def list_get_def put_mac_def put_bytes_def nth_append)

lemma put_mac_be16: "length m = 6 \<Longrightarrow> off + 6 \<le> p \<Longrightarrow> be16 (put_mac f off m) p = be16 f p"
  unfolding put_mac_def by (rule be16_put_other) simp

lemma put_mac_sum: "length m = 6 \<Longrightarrow> off + 6 \<le> p \<Longrightarrow> words_sum (put_mac f off m) p n = words_sum f p n"
  by (rule words_sum_cong, rule put_mac_be16) simp_all

lemma put_mac_be32: "length m = 6 \<Longrightarrow> off + 6 \<le> p \<Longrightarrow> be32 (put_mac f off m) p = be32 f p"
proof (cases "p + 4 \<le> length f")
  case True
  assume "length m = 6" "off + 6 \<le> p"
  then show ?thesis
    using be32_halves(3) [of p f] be32_halves(3) [of p "put_mac f off m"] put_mac_be16 [of m off p f] put_mac_be16 [of m off "p + 2" f] True by simp
next
  case False
  then show ?thesis by (simp add: be32_def bytes_at_def)
qed

lemma put_mac_valid:
  assumes "length m = 6" "off = 0 \<or> off = 6"
  shows "ip_valid (put_mac f off m) = ip_valid f" "l4_valid (put_mac f off m) = l4_valid f"
proof -
  have b: "byte (put_mac f off m) p = byte f p" "be16 (put_mac f off m) p = be16 f p" "words_sum (put_mac f off m) p n = words_sum f p n"
    if "14 \<le> p" for p n
    using that assms put_mac_byte [OF assms(1)] put_mac_be16 [OF assms(1)] put_mac_sum [OF assms(1)] by auto
  have i: "ihl_of (put_mac f off m) = ihl_of f" by (simp add: ihl_of_def b ETH_LEN_def)
  have l: "l4_len (put_mac f off m) = l4_len f" by (simp add: l4_len_def b i ETH_LEN_def)
  show "ip_valid (put_mac f off m) = ip_valid f" by (simp add: ip_valid_def i b ETH_LEN_def)
  have "l4_sum (put_mac f off m) = l4_sum f"
  proof (cases "l4_len f = 0")
    case True
    then show ?thesis by (simp add: l4_sum_def i l b ETH_LEN_def)
  next
    case False
    then have "14 \<le> ETH_LEN + ihl_of f + l4_len f - 1" by (simp add: ETH_LEN_def)
    then show ?thesis by (simp add: l4_sum_def i l b ETH_LEN_def)
  qed
  then show "l4_valid (put_mac f off m) = l4_valid f" by (simp add: l4_valid_def i b ETH_LEN_def)
qed

lemma mac_lengths: "length (port_mac i) = 6" "length HOST_MAC = 6"
  by (simp_all add: port_mac_def HOST_MAC_def)

end
