(* ===== verification/NatEvents.thy ===== *)
theory NatEvents
  imports NatPaths NatRewrite
begin

unbundle bit_operations_syntax

text \<open>What the translation does to its surroundings: which frames it delivers, and to whom.\<close>

section \<open>Events\<close>

definition emits :: "NatIo \<Rightarrow> NatIo \<Rightarrow> (NatEvent \<Rightarrow> bool) \<Rightarrow> bool" where
  "emits io io' p \<longleftrightarrow> (\<exists>evs. io_events io' = io_events io @ evs \<and> list_all p evs)"

lemma emits_refl [simp]: "emits io io p"
  by (simp add: emits_def)

lemma emits_emit: "p e \<Longrightarrow> emits io (emit io e) p"
  by (simp add: emits_def emit_def)

lemma emits_trans: "emits a b p \<Longrightarrow> emits b c p \<Longrightarrow> emits a c p"
  unfolding emits_def by (metis append.assoc list_all_append)

lemma emits_then: "emits a b p \<Longrightarrow> p e \<Longrightarrow> emits a (emit b e) p"
  by (rule emits_trans [OF _ emits_emit])

lemma emits_logs: "only_logs io io' \<Longrightarrow> p LogFull \<Longrightarrow> (\<And>a b. p (LogSlotFull a b)) \<Longrightarrow> emits io io' p"
  unfolding only_logs_def by (auto intro: emits_emit)

lemma emits_neighbor: "neighbor io d now = (h, io') \<Longrightarrow> p (Resolve d now) \<Longrightarrow> emits io io' p"
  unfolding neighbor_def by (auto intro: emits_emit)

section \<open>Frames from outside\<close>

text \<open>Who a frame from outside may be delivered to: the slot of its connection, or of the published port.\<close>

definition owner :: "Nat \<Rightarrow> u64 \<Rightarrow> u8 list \<Rightarrow> Ip4 \<Rightarrow> nat \<Rightarrow> u32 \<Rightarrow> u16 \<Rightarrow> bool" where
  "owner n now f ip slot addr port \<longleftrightarrow>
     (\<exists>i fl. flow_map n i = Some fl \<and> \<not> flow_expired fl now \<and> slot = unat (fslot fl) \<and> addr = slot_ip fl \<and> port = slot_port fl \<and>
        rkey fl = RKey (ip_proto ip) (be16 f (l4off ip + 2)) (be32 f (ETH_LEN + 12)) (be16 f (l4off ip))) \<or>
     (\<exists>m \<in> set (pubs n). pub_proto m = ip_proto ip \<and> pub_node_port m = be16 f (l4off ip + 2) \<and> slot = unat (pub_slot m) \<and>
        addr = port_ip4 slot \<and> port = pub_slot_port m)"

definition delivered_right :: "Nat \<Rightarrow> u64 \<Rightarrow> u8 list \<Rightarrow> NatEvent \<Rightarrow> bool" where
  "delivered_right n now f e \<longleftrightarrow> (\<forall>slot g. e = Deliver slot g \<longrightarrow>
     (\<exists>ip u. ipv4_l4 f = Some ip \<and> uplink n = Some u \<and> be32 f (ETH_LEN + 16) = up_ip u \<and>
        owner n now f ip slot (be32 g (ETH_LEN + 16)) (be16 g (l4off ip + 2)) \<and> be32 g (ETH_LEN + 12) = be32 f (ETH_LEN + 12) \<and>
        be16 g (l4off ip) = be16 f (l4off ip)))"

lemma dnat_fields:
  assumes ip: "ipv4_l4 f = Some ip" and d: "dnat_to_slot io slot f (l4off ip) (ip_proto ip) old new op np = (io', f')"
  shows "io' = emit io (Deliver slot f')" "be32 f' (ETH_LEN + 16) = new" "be16 f' (l4off ip + 2) = np"
    "be32 f' (ETH_LEN + 12) = be32 f (ETH_LEN + 12)" "be16 f' (l4off ip) = be16 f (l4off ip)"
proof -
  let ?h = "nat_rewrite f 2 (l4off ip) (ip_proto ip) 2 old new op np"
  have f': "f' = put_mac (put_mac ?h 0 (port_mac slot)) 6 HOST_MAC" and "io' = emit io (Deliver slot f')"
    using d unfolding dnat_nat_rewrite by auto
  then show "io' = emit io (Deliver slot f')" by blast
  have l: "34 \<le> l4off ip" using ipv4_l4D(1,3) [OF ip] by (simp add: ETH_LEN_def)
  note n = nat_rewrite_fields [OF ip, of 2 2 ?h old new op np]
  have "be32 f' p = be32 ?h p" "be16 f' p = be16 ?h p" if "12 \<le> p" for p
    unfolding f' using that by (simp_all add: put_mac_be32 put_mac_be16 mac_lengths)
  then show "be32 f' (ETH_LEN + 16) = new" "be16 f' (l4off ip + 2) = np"
    "be32 f' (ETH_LEN + 12) = be32 f (ETH_LEN + 12)" "be16 f' (l4off ip) = be16 f (l4off ip)"
    using n l by (simp_all add: ETH_LEN_def)
qed

lemma inbound_cases:
  assumes inv: "nat_inv n" and ip: "ipv4_l4 f = Some ip" and u: "uplink n = Some u" and d: "be32 f (ETH_LEN + 16) = up_ip u"
  obtains (reply) i fl n' io1 f' where "flow_map n i = Some fl" "\<not> flow_expired fl now"
      "rkey fl = RKey (ip_proto ip) (be16 f (l4off ip + 2)) (be32 f (ETH_LEN + 12)) (be16 f (l4off ip))"
      "dnat_to_slot io (unat (fslot fl)) f (l4off ip) (ip_proto ip) (up_ip u) (slot_ip fl) (be16 f (l4off ip + 2)) (slot_port fl) = (io1, f')"
      "inbound io n f now = ret (True, emit (emit io1 (Counted NatReplyIn)) (Confirm (be32 f (ETH_LEN + 12)) (mac_at f 6) now), n', f')"
  | (publication) m n' io1 f' where "m \<in> set (pubs n)" "pub_proto m = ip_proto ip" "pub_node_port m = be16 f (l4off ip + 2)"
      "dnat_to_slot io (unat (pub_slot m)) f (l4off ip) (ip_proto ip) (up_ip u) (port_ip4 (unat (pub_slot m))) (be16 f (l4off ip + 2))
        (pub_slot_port m) = (io1, f')"
      "inbound io n f now = ret (True, emit io1 (Confirm (be32 f (ETH_LEN + 12)) (mac_at f 6) now), n', f')"
  | (unmatched) n' where "inbound io n f now = ret (False, emit io (Counted NatInUnmatched), n', f)"
      "pub_by_node_port n (ip_proto ip) (be16 f (l4off ip + 2)) = None"
      "\<And>i fl. flow_map n i = Some fl \<Longrightarrow> rkey fl = RKey (ip_proto ip) (be16 f (l4off ip + 2)) (be32 f (ETH_LEN + 12)) (be16 f (l4off ip)) \<Longrightarrow>
        flow_expired fl now"
  using inv
proof (cases rule: reply_in_cases [where io = io and f = f and lf = "l4off ip" and proto = "ip_proto ip" and u = u and now = now])
  case (reply i fl g n' io' f')
  have "inbound io n f now = ret (True, emit (emit io' (Counted NatReplyIn)) (Confirm (be32 f (ETH_LEN + 12)) (mac_at f 6) now), n', f')"
    using ip u d reply(5) by (simp add: inbound_def Let_def)
  then show thesis by (rule that(1) [OF reply(1,3,2,4)])
next
  case (other n')
  have pb: "pub_by_node_port n' x y = pub_by_node_port n x y" for x y by (simp add: pub_by_node_port_def other(3))
  show thesis
  proof (cases "pub_by_node_port n (ip_proto ip) (be16 f (l4off ip + 2))")
    case None
    have "inbound io n f now = ret (False, emit io (Counted NatInUnmatched), n', f)"
      using ip u d other(1) None by (simp add: inbound_def Let_def dnat_in_def pb)
    then show thesis by (rule that(3) [OF _ None other(7)])
  next
    case (Some m)
    then have m: "m \<in> set (pubs n)" "pub_proto m = ip_proto ip" "pub_node_port m = be16 f (l4off ip + 2)"
      unfolding pub_by_node_port_def by (auto simp: find_Some_iff)
    obtain io1 f1 where dn: "dnat_to_slot io (unat (pub_slot m)) f (l4off ip) (ip_proto ip) (up_ip u) (port_ip4 (unat (pub_slot m)))
        (be16 f (l4off ip + 2)) (pub_slot_port m) = (io1, f1)" by (rule prod.exhaust)
    have "inbound io n f now = ret (True, emit io1 (Confirm (be32 f (ETH_LEN + 12)) (mac_at f 6) now), n', f1)"
      using ip u d other(1) Some dn by (simp add: inbound_def Let_def dnat_in_def pb)
    then show thesis by (rule that(2) [OF m dn])
  qed
qed

lemma inbound_emits:
  assumes inv: "nat_inv n" and r: "inbound io n f now = ret (b, io', n', f')"
  shows "emits io io' (delivered_right n now f)"
proof (cases "\<exists>ip u. ipv4_l4 f = Some ip \<and> uplink n = Some u \<and> be32 f (ETH_LEN + 16) = up_ip u")
  case False
  then have "inbound io n f now = ret (False, io, n, f)" by (auto simp: inbound_def split: option.split)
  then show ?thesis using r by simp
next
  case True
  then obtain ip u where ip: "ipv4_l4 f = Some ip" and u: "uplink n = Some u" and d: "be32 f (ETH_LEN + 16) = up_ip u" by blast
  have other: "delivered_right n now f (Counted c)" "delivered_right n now f (Confirm x y z)" for c x y z by (simp_all add: delivered_right_def)
  show ?thesis
  proof (rule inbound_cases [OF inv ip u d, of now io])
    fix i fl n1 io1 f1
    assume fl: "flow_map n i = Some fl" "\<not> flow_expired fl now"
        "rkey fl = RKey (ip_proto ip) (be16 f (l4off ip + 2)) (be32 f (ETH_LEN + 12)) (be16 f (l4off ip))"
      and dn: "dnat_to_slot io (unat (fslot fl)) f (l4off ip) (ip_proto ip) (up_ip u) (slot_ip fl) (be16 f (l4off ip + 2)) (slot_port fl) = (io1, f1)"
      and e: "inbound io n f now = ret (True, emit (emit io1 (Counted NatReplyIn)) (Confirm (be32 f (ETH_LEN + 12)) (mac_at f 6) now), n1, f1)"
    note f1 = dnat_fields [OF ip dn]
    have "owner n now f ip (unat (fslot fl)) (slot_ip fl) (slot_port fl)" unfolding owner_def using fl by blast
    then have "delivered_right n now f (Deliver (unat (fslot fl)) f1)" using ip u d f1(2-5) unfolding delivered_right_def by auto
    then have "emits io io1 (delivered_right n now f)" unfolding f1(1) by (rule emits_emit)
    moreover have "io' = emit (emit io1 (Counted NatReplyIn)) (Confirm (be32 f (ETH_LEN + 12)) (mac_at f 6) now)" using e r by simp
    ultimately show ?thesis by (simp add: emits_then other)
  next
    fix m n1 io1 f1
    assume m: "m \<in> set (pubs n)" "pub_proto m = ip_proto ip" "pub_node_port m = be16 f (l4off ip + 2)"
      and dn: "dnat_to_slot io (unat (pub_slot m)) f (l4off ip) (ip_proto ip) (up_ip u) (port_ip4 (unat (pub_slot m))) (be16 f (l4off ip + 2))
        (pub_slot_port m) = (io1, f1)"
      and e: "inbound io n f now = ret (True, emit io1 (Confirm (be32 f (ETH_LEN + 12)) (mac_at f 6) now), n1, f1)"
    note f1 = dnat_fields [OF ip dn]
    have "owner n now f ip (unat (pub_slot m)) (port_ip4 (unat (pub_slot m))) (pub_slot_port m)" unfolding owner_def using m by blast
    then have "delivered_right n now f (Deliver (unat (pub_slot m)) f1)" using ip u d f1(2-5) unfolding delivered_right_def by auto
    then have "emits io io1 (delivered_right n now f)" unfolding f1(1) by (rule emits_emit)
    moreover have "io' = emit io1 (Confirm (be32 f (ETH_LEN + 12)) (mac_at f 6) now)" using e r by simp
    ultimately show ?thesis by (simp add: emits_then other)
  next
    fix n1
    assume "inbound io n f now = ret (False, emit io (Counted NatInUnmatched), n1, f)"
    then have "io' = emit io (Counted NatInUnmatched)" using r by simp
    then show ?thesis by (simp add: emits_emit other)
  qed
qed

section \<open>Frames to the outside\<close>

text \<open>A frame that leaves carries the address of the node and a port of the masquerade range as its source.\<close>

definition sent_masked :: "Nat \<Rightarrow> u8 list \<Rightarrow> NatEvent \<Rightarrow> bool" where
  "sent_masked n f e \<longleftrightarrow> (\<forall>g. e = UplinkTx g \<longrightarrow>
     (\<exists>ip u. ipv4_l4 f = Some ip \<and> uplink n = Some u \<and> be32 g (ETH_LEN + 12) = up_ip u \<and> port_ok (be16 g (l4off ip)) \<and>
        be32 g (ETH_LEN + 16) = be32 f (ETH_LEN + 16) \<and> be16 g (l4off ip + 2) = be16 f (l4off ip + 2)))"

lemma reap_step_io:
  assumes inv: "nat_inv n" and r: "reap_step n i flags io f g = ret (b, io', n', f')"
  shows "io' = io \<or> (\<exists>fl. flow_ok fl \<and> io' = fst (g fl))"
proof -
  obtain c n1 where n1: "note_tcp_flags n i flags False = (c, n1)" "nat_inv n1" using note_tcp_flags_total [OF inv] by blast
  show ?thesis
  proof (cases "FlowTable_get (flows n1) i")
    case None
    then show ?thesis using r n1(1) by (simp add: reap_step_def)
  next
    case (Some fl)
    obtain io1 f1 where g: "g fl = (io1, f1)" by (rule prod.exhaust)
    obtain n2 where n2: "remove_flow n1 i = ret n2" using remove_flow_ret [OF n1(2)] by blast
    have "flow_ok fl" using nat_invD(4) [OF n1(2)] Some unfolding map_ok_def by blast
    moreover have "io' = io1" using r n1(1) Some g n2 by (cases c) (simp_all add: reap_step_def)
    ultimately show ?thesis using g by force
  qed
qed

lemma tx_masked:
  assumes ip: "ipv4_l4 f = Some ip" and u: "uplink n = Some u" and fl: "flow_ok fl" and mac: "length hop = 6" "length (up_mac u) = 6"
  shows "emits io (fst (tx_uplink io u (snat_src u f (l4off ip) (ip_proto ip) old op (node_port fl)) hop)) (sent_masked n f)"
proof -
  let ?h = "nat_rewrite f 0 (l4off ip) (ip_proto ip) 0 old (up_ip u) op (node_port fl)"
  let ?g = "put_mac (put_mac ?h 0 hop) 6 (up_mac u)"
  have l: "34 \<le> l4off ip" using ipv4_l4D(1,3) [OF ip] by (simp add: ETH_LEN_def)
  note n = nat_rewrite_fields [OF ip, of 0 0 ?h old "up_ip u" op "node_port fl"]
  have "be32 ?g p = be32 ?h p" "be16 ?g p = be16 ?h p" if "12 \<le> p" for p
    using that by (simp_all add: put_mac_be32 put_mac_be16 mac)
  then have "sent_masked n f (UplinkTx ?g)"
    using n l ip u fl unfolding sent_masked_def flow_ok_def by (simp add: ETH_LEN_def)
  then show ?thesis unfolding tx_uplink_def snat_nat_rewrite Let_def by (simp add: emits_emit)
qed

lemma hairpin_out_emits:
  assumes inv: "nat_inv n" and r: "hairpin_out io n src f l4 proto (port_ip4 src) sport dport u now = ret (b, io', n', f')"
  shows "emits io io' (sent_masked k f)"
proof (cases "pub_by_node_port n proto dport")
  case None
  then show ?thesis using r by (simp add: hairpin_out_def)
next
  case (Some m)
  have other: "sent_masked k f e" if "\<And>g. e \<noteq> UplinkTx g" for e using that by (simp add: sent_masked_def)
  let ?srv = "unat (pub_slot m)" and ?flags = "byte f (l4 + 13)"
  obtain q io1 n1 where q: "flow_for_packet io n proto src (port_ip4 src) sport (port_ip4 ?srv) (pub_slot_port m) ?flags now = ret (q, io1, n1)" "nat_inv n1"
    and qc: "case q of None \<Rightarrow> only_logs io io1 | Some (i, c) \<Rightarrow> io1 = io \<and>
      (\<exists>f. flow_map n1 i = Some f \<and> fkey f = FKey proto (port_ip4 src) (port_ip4 ?srv) sport (pub_slot_port m))"
    using flow_for_packet_total [OF inv] by blast
  show ?thesis
  proof (cases q)
    case None
    then have "io' = emit io1 (Counted NatFlowFull)" using Some q(1) r by (simp add: hairpin_out_def Let_def)
    moreover have "emits io io1 (sent_masked k f)" using qc None by (intro emits_logs) (simp_all add: other)
    ultimately show ?thesis by (simp add: emits_then other)
  next
    case ic: (Some ic)
    obtain i c where i: "ic = (i, c)" by (rule prod.exhaust)
    let ?g = "\<lambda>fl. dnat_to_slot io1 ?srv (snat_src u f l4 proto (port_ip4 src) sport (node_port fl)) l4 proto (up_ip u) (port_ip4 ?srv) dport (pub_slot_port m)"
    have "reap_step n1 i ?flags io1 f ?g = ret (b, io', n', f')"
      using Some q(1) ic i r unfolding hairpin_out_def Let_def reap_step_def by simp
    then have "io' = io1 \<or> (\<exists>fl. flow_ok fl \<and> io' = fst (?g fl))" by (rule reap_step_io [OF q(2)])
    moreover have "emits io1 (fst (?g fl)) (sent_masked k f)" for fl
      unfolding dnat_nat_rewrite by (simp add: emits_emit other)
    moreover have "io1 = io" using qc ic i by simp
    ultimately show ?thesis by auto
  qed
qed

text \<open>The hardware addresses are six bytes, as their type in the code says.\<close>

definition macs_ok :: "NatIo \<Rightarrow> Nat \<Rightarrow> bool" where
  "macs_ok io n \<longleftrightarrow> (\<forall>evs d t m. neigh io evs d t = Some m \<longrightarrow> length m = 6) \<and> (\<forall>u. uplink n = Some u \<longrightarrow> length (up_mac u) = 6)"

lemma emit_neigh [simp]: "neigh (emit io e) = neigh io"
  by (simp add: emit_def)

lemma neighbor_mac: "macs_ok io n \<Longrightarrow> neighbor io d now = (Some hop, io') \<Longrightarrow> length hop = 6"
  unfolding macs_ok_def neighbor_def by auto

lemma neighbor_ok: "macs_ok io n \<Longrightarrow> neighbor io d now = (h, io') \<Longrightarrow> macs_ok io' n"
  unfolding macs_ok_def neighbor_def by auto

lemma outbound_emits:
  assumes inv: "nat_inv n" and mac: "macs_ok io n" and r: "outbound io n src f now = ret (b, io', n', f')"
  shows "emits io io' (sent_masked n f)"
proof (cases "\<exists>ip u. ipv4_l4 f = Some ip \<and> uplink n = Some u")
  case False
  then have "outbound io n src f now = ret (False, io, n, f)" by (auto simp: outbound_def split: option.split)
  then show ?thesis using r by simp
next
  case True
  then obtain ip u where ip: "ipv4_l4 f = Some ip" and u: "uplink n = Some u" by blast
  have other: "sent_masked n f e" if "\<And>g. e \<noteq> UplinkTx g" for e using that by (simp add: sent_masked_def)
  let ?d = "be32 f (ETH_LEN + 16)" and ?flags = "byte f (l4off ip + 13)"
  show ?thesis
  proof (cases "?d = up_ip u")
    case True
    then have "hairpin_out io n src f (l4off ip) (ip_proto ip) (port_ip4 src) (be16 f (l4off ip)) (be16 f (l4off ip + 2)) u now = ret (b, io', n', f')"
      using ip u r by (simp add: outbound_def Let_def)
    then show ?thesis by (rule hairpin_out_emits [OF inv])
  next
    case False
    obtain hop0 io0 where h0: "neighbor io ?d now = (hop0, io0)" by (rule prod.exhaust)
    obtain hop io1 where h1: "(if hop0 = None \<and> on_subnet n ?d \<and> gateway u \<noteq> 0 then neighbor io0 (gateway u) now else (hop0, io0)) = (hop, io1)"
      by (rule prod.exhaust)
    have e0: "emits io io0 (sent_masked n f)" by (rule emits_neighbor [OF h0 other]) simp
    have "emits io0 io1 (sent_masked n f)"
      using h1 emits_neighbor [of io0 "gateway u" now hop io1 "sent_masked n f"] other by (auto split: if_splits)
    then have e1: "emits io io1 (sent_masked n f)" by (rule emits_trans [OF e0])
    show ?thesis
    proof (cases hop)
      case None
      have "outbound io n src f now = ret (True, emit io1 (Counted NatNoRoute), n, f)"
        using ip u False h1 unfolding None outbound_def Let_def h0 by (simp only: option.case prod.case if_not_P simp_thms if_False)
      then have "io' = emit io1 (Counted NatNoRoute)" using r by simp
      then show ?thesis by (simp add: emits_then [OF e1] other)
    next
      case (Some next_hop)
      have hl: "length next_hop = 6"
        using h1 neighbor_mac [OF mac, of ?d now next_hop] neighbor_mac [OF neighbor_ok [OF mac h0], of "gateway u" now next_hop] h0
        unfolding Some by (auto split: if_splits)
      obtain q io2 n1 where q: "flow_for_packet io1 n (ip_proto ip) src (port_ip4 src) (be16 f (l4off ip)) ?d (be16 f (l4off ip + 2)) ?flags now = ret (q, io2, n1)" "nat_inv n1"
        and qc: "case q of None \<Rightarrow> only_logs io1 io2 | Some (i, c) \<Rightarrow> io2 = io1 \<and>
          (\<exists>g. flow_map n1 i = Some g \<and> fkey g = FKey (ip_proto ip) (port_ip4 src) ?d (be16 f (l4off ip)) (be16 f (l4off ip + 2)))"
        using flow_for_packet_total [OF inv] by blast
      show ?thesis
      proof (cases q)
        case None
        have "outbound io n src f now = ret (True, emit io2 (Counted NatFlowFull), n1, f)"
          using ip u False h1 q(1) unfolding None Some outbound_def Let_def h0 by (simp only: option.case prod.case if_not_P simp_thms if_False runb_ret)
        then have "io' = emit io2 (Counted NatFlowFull)" using r by simp
        moreover have "emits io1 io2 (sent_masked n f)" using qc None by (intro emits_logs) (simp_all add: other)
        ultimately show ?thesis using emits_then [OF emits_trans [OF e1], of io2 "Counted NatFlowFull"] other by simp
      next
        case ic: (Some ic)
        obtain i c where i: "ic = (i, c)" by (rule prod.exhaust)
        have io2: "io2 = io1" using qc ic i by simp
        let ?io3 = "if hop0 \<noteq> None \<and> \<not> c \<and> ip_proto ip = PROTO_TCP \<and> ?flags AND TCP_SYN \<noteq> 0 \<and> ?flags AND TCP_ACK = 0
          then emit io2 (ProbeHop ?d now) else io2"
        let ?g = "\<lambda>fl. tx_uplink ?io3 u (snat_src u f (l4off ip) (ip_proto ip) (port_ip4 src) (be16 f (l4off ip)) (node_port fl)) next_hop"
        have "outbound io n src f now = reap_step n1 i ?flags ?io3 f ?g"
          using ip u False q(1) h1 unfolding Some ic i outbound_def Let_def h0 reap_step_def
          by (simp only: option.case prod.case if_not_P runb_ret not_False_eq_True simp_thms if_False)
        then have st: "reap_step n1 i ?flags ?io3 f ?g = ret (b, io', n', f')" using r by (rule trans [OF sym])
        have e3: "emits io ?io3 (sent_masked n f)"
        proof (cases "hop0 \<noteq> None \<and> \<not> c \<and> ip_proto ip = PROTO_TCP \<and> ?flags AND TCP_SYN \<noteq> 0 \<and> ?flags AND TCP_ACK = 0")
          case True
          show ?thesis unfolding if_P [OF True] io2 by (rule emits_then [OF e1]) (simp add: other)
        next
          case False
          show ?thesis unfolding if_not_P [OF False] io2 by (rule e1)
        qed
        have e4: "emits ?io3 (fst (?g fl)) (sent_masked n f)" if "flow_ok fl" for fl
          by (rule tx_masked [OF ip u that hl]) (use mac u in \<open>simp add: macs_ok_def\<close>)
        show ?thesis using reap_step_io [OF q(2) st]
        proof
          assume "io' = ?io3"
          then show ?thesis using e3 by (simp only:)
        next
          assume "\<exists>fl. flow_ok fl \<and> io' = fst (?g fl)"
          then obtain fl where "flow_ok fl" "io' = fst (?g fl)" by (elim exE conjE)
          then show ?thesis using emits_trans [OF e3 e4] by (simp only:)
        qed
      qed
    qed
  qed
qed

end
