(* ===== verification/FlowProps.thy ===== *)
theory FlowProps
  imports FlowOps
begin

text \<open>
  The tables that the connection table can reach, and what its operations do on every one of them: they
  implement a partial map from numbers to flows in which no two flows share a forward or a reverse key.
\<close>

section \<open>Reachable tables\<close>

text \<open>The owner of the table changes a flow in place only where neither a key nor the slot is concerned.\<close>

inductive flow_reach :: "FlowTable \<Rightarrow> bool" where
  fr_new: "FlowTable_new granted flow_size spare = Inr t \<Longrightarrow> flow_reach t"
| fr_insert: "flow_reach t \<Longrightarrow> FlowTable_insert t fl = ret (r, t') \<Longrightarrow> flow_reach t'"
| fr_remove: "flow_reach t \<Longrightarrow> FlowTable_remove t i = ret (b, t') \<Longrightarrow> flow_reach t'"
| fr_touch: "flow_reach t \<Longrightarrow> FlowTable_get t i = Some f \<Longrightarrow> same_flow f g \<Longrightarrow> flow_reach (FlowTable_put t i g)"

lemma insert_inv:
  assumes inv: "flow_inv t" and i: "FlowTable_insert t fl = ret (r, t')"
  shows "flow_inv t'"
  using inv
proof (cases rule: insert_cases [where fl = fl])
  case refused
  then show ?thesis using i inv by simp
next
  case (entered j u)
  then show ?thesis using i by simp
qed

lemma flow_reach_inv: "flow_reach t \<Longrightarrow> flow_inv t"
proof (induction rule: flow_reach.induct)
  case (fr_new granted flow_size spare t)
  then show ?case by (rule table_new_inv(1))
next
  case (fr_insert t fl r t')
  show ?case by (rule insert_inv [OF fr_insert.IH fr_insert.hyps(2)])
next
  case (fr_remove t i b t')
  then show ?case using remove_total [of t i] by auto
next
  case (fr_touch t i f g)
  show ?case by (rule put_inv(1) [OF fr_touch.IH fr_touch.hyps(2,3)])
qed

lemma by_fwd_Some: "flow_inv t \<Longrightarrow> FlowTable_get t i = Some f \<Longrightarrow> by_fwd t (fkey f) = ret (Some i)"
  using by_fwd_total [of t "fkey f"] by (metis not_None_eq)

lemma by_rev_Some: "flow_inv t \<Longrightarrow> FlowTable_get t i = Some f \<Longrightarrow> by_rev t (rkey f) = ret (Some i)"
  using by_rev_total [of t "rkey f"] by (metis not_None_eq)

lemma by_fwd_None: "flow_inv t \<Longrightarrow> (\<And>i f. FlowTable_get t i = Some f \<Longrightarrow> fkey f \<noteq> k) \<Longrightarrow> by_fwd t k = ret None"
  using by_fwd_total [of t k] by (metis not_None_eq)

lemma by_rev_None: "flow_inv t \<Longrightarrow> (\<And>i f. FlowTable_get t i = Some f \<Longrightarrow> rkey f \<noteq> k) \<Longrightarrow> by_rev t k = ret None"
  using by_rev_total [of t k] by (metis not_None_eq)

section \<open>A table for the examples\<close>

definition table0 :: FlowTable where
  "table0 = \<lparr>slab = replicate MAX_FLOWS None, ffree = map (\<lambda>i. word_of_nat (MAX_FLOWS - 1 - i)) [0..<MAX_FLOWS],
     fwd = replicate INDEX EMPTY, rev_ix = replicate INDEX EMPTY, flen = 0, by_slot = [], by_cap = MAX_FLOWS\<rparr>"

definition flow0 :: Flow where
  "flow0 = \<lparr>fproto = 6, fslot = 3, fin_fwd = False, fin_rev = False, slot_ip = 0x0A640004, dst_ip = 0x01010101,
     slot_port = 5000, dst_port = 443, node_port = 20000, seen = 7\<rparr>"

lemma table0_new: "FlowTable_new (\<lambda>_. True) 48 0 = Inr table0"
  by (simp add: FlowTable_new_def filled_def table0_def)

lemma table0_reach: "flow_reach table0"
  by (rule fr_new [OF table0_new])

lemma table0_get: "FlowTable_get table0 = (\<lambda>_. None)"
  by (rule table_new_inv(2) [OF table0_new])

lemma table0_flen: "flen table0 = 0"
  by (simp add: table0_def)

lemma table1_exists: "\<exists>t i. flow_reach t \<and> FlowTable_get t i = Some flow0"
  using flow_reach_inv [OF table0_reach]
proof (cases rule: insert_cases [where fl = flow0])
  case refused
  then show ?thesis by (simp add: table0_get table0_flen MAX_FLOWS_def)
next
  case (entered i t)
  have "unat i < length (slab table0)" using entered(4) by (simp add: table0_def)
  then have "FlowTable_get t i = Some flow0" by (simp add: FlowTable_get_def entered(5) slab_get_update)
  moreover have "flow_reach t" by (rule fr_insert [OF table0_reach entered(1)])
  ultimately show ?thesis by blast
qed

section \<open>Properties\<close>

text \<open>C6. Looking a flow up always returns, in both indexes, and finds exactly the flow that has the key: the
  probing ends because half of each index is empty, and backward-shift deletion leaves no hole between a
  flow and its home.\<close>

theorem flow_lookup_exact:
  assumes "flow_reach t"
  shows "(\<exists>r. by_fwd t k = ret r \<and> (\<forall>i. r = Some i \<longleftrightarrow> (\<exists>f. FlowTable_get t i = Some f \<and> fkey f = k))) \<and>
    (\<exists>r. by_rev t k' = ret r \<and> (\<forall>i. r = Some i \<longleftrightarrow> (\<exists>f. FlowTable_get t i = Some f \<and> rkey f = k')))"
  using by_fwd_total [OF flow_reach_inv [OF assms]] by_rev_total [OF flow_reach_inv [OF assms]] by blast

theorem flow_lookup_exact_witness:
  "\<exists>t i. FlowTable_get t i = Some flow0 \<and> by_fwd t (fkey flow0) = ret (Some i) \<and> by_rev t (rkey flow0) = ret (Some i)"
proof -
  obtain t i where t: "flow_reach t" "FlowTable_get t i = Some flow0" using table1_exists by blast
  have "by_fwd t (fkey flow0) = ret (Some i)" "by_rev t (rkey flow0) = ret (Some i)"
    using flow_lookup_exact [OF t(1), of "fkey flow0" "rkey flow0"] t(2) by (metis not_None_eq)+
  then show ?thesis using t(2) by blast
qed

text \<open>C24. Inserting a flow always returns.  It refuses, without changing the table, exactly when the table
  holds 4096 flows or one of the two keys is taken; otherwise the flow is entered under a free number, every
  other flow stays, and both keys lead to it.\<close>

theorem flow_insert_exact:
  assumes "flow_reach t"
  shows "\<exists>r t'. FlowTable_insert t fl = ret (r, t') \<and>
    (case r of
       None \<Rightarrow> t' = t \<and> (flen t = MAX_FLOWS \<or> (\<exists>i f. FlowTable_get t i = Some f \<and> (fkey f = fkey fl \<or> rkey f = rkey fl)))
     | Some i \<Rightarrow> FlowTable_get t i = None \<and> FlowTable_get t' = (FlowTable_get t)(i \<mapsto> fl) \<and>
         flen t < MAX_FLOWS \<and> (\<forall>j f. FlowTable_get t j = Some f \<longrightarrow> fkey f \<noteq> fkey fl \<and> rkey f \<noteq> rkey fl) \<and>
         by_fwd t' (fkey fl) = ret (Some i) \<and> by_rev t' (rkey fl) = ret (Some i))"
  using flow_reach_inv [OF assms]
proof (cases rule: insert_cases [where fl = fl])
  case refused
  then show ?thesis by (intro exI [of _ None] exI [of _ t]) simp
next
  case (entered i t')
  have il: "unat i < length (slab t)" using entered(4) flow_invD(1) [OF flow_reach_inv [OF assms]] by simp
  have g: "FlowTable_get t' = (FlowTable_get t)(i \<mapsto> fl)"
    using il by (simp add: fun_eq_iff FlowTable_get_def entered(5) slab_get_update)
  then have "by_fwd t' (fkey fl) = ret (Some i)" "by_rev t' (rkey fl) = ret (Some i)"
    using by_fwd_Some [OF entered(2), of i fl] by_rev_Some [OF entered(2), of i fl] by simp_all
  then show ?thesis using entered(1,3,6,7) g by (intro exI [of _ "Some i"] exI [of _ t']) simp
qed

theorem flow_insert_exact_witness:
  "\<exists>i t'. FlowTable_insert table0 flow0 = ret (Some i, t') \<and> by_fwd t' (fkey flow0) = ret (Some i)"
proof -
  obtain r t' where r: "FlowTable_insert table0 flow0 = ret (r, t')" and
    "case r of
       None \<Rightarrow> t' = table0 \<and> (flen table0 = MAX_FLOWS \<or> (\<exists>i f. FlowTable_get table0 i = Some f \<and> (fkey f = fkey flow0 \<or> rkey f = rkey flow0)))
     | Some i \<Rightarrow> FlowTable_get table0 i = None \<and> FlowTable_get t' = (FlowTable_get table0)(i \<mapsto> flow0) \<and>
         flen table0 < MAX_FLOWS \<and> (\<forall>j f. FlowTable_get table0 j = Some f \<longrightarrow> fkey f \<noteq> fkey flow0 \<and> rkey f \<noteq> rkey flow0) \<and>
         by_fwd t' (fkey flow0) = ret (Some i) \<and> by_rev t' (rkey flow0) = ret (Some i)"
    using flow_insert_exact [OF table0_reach, of flow0] by blast
  then show ?thesis by (cases r) (simp_all add: table0_get table0_flen MAX_FLOWS_def)
qed

text \<open>C25. Removing a number always returns and never aborts.  It takes away exactly the flow with that number:
  afterwards neither of its keys finds anything, and every other flow is still found under its own keys.\<close>

theorem flow_remove_exact:
  assumes "flow_reach t"
  shows "\<exists>t'. FlowTable_remove t i = ret (FlowTable_get t i \<noteq> None, t') \<and> FlowTable_get t' = (FlowTable_get t)(i := None) \<and>
    (\<forall>f. FlowTable_get t i = Some f \<longrightarrow> by_fwd t' (fkey f) = ret None \<and> by_rev t' (rkey f) = ret None) \<and>
    (\<forall>j f. j \<noteq> i \<longrightarrow> FlowTable_get t j = Some f \<longrightarrow> by_fwd t' (fkey f) = ret (Some j) \<and> by_rev t' (rkey f) = ret (Some j))"
proof -
  note inv = flow_reach_inv [OF assms]
  obtain t' where t': "FlowTable_remove t i = ret (FlowTable_get t i \<noteq> None, t')" "flow_inv t'"
    "FlowTable_get t' = (FlowTable_get t)(i := None)" using remove_total [OF inv] by blast
  have "by_fwd t' (fkey f) = ret None \<and> by_rev t' (rkey f) = ret None" if f: "FlowTable_get t i = Some f" for f
  proof
    have fi: "slab_get (slab t) i = Some f" using f by (simp add: FlowTable_get_def)
    show "by_fwd t' (fkey f) = ret None"
    proof (rule by_fwd_None [OF t'(2)])
      fix j g
      assume "FlowTable_get t' j = Some g"
      then have j: "j \<noteq> i" "slab_get (slab t) j = Some g" unfolding t'(3) by (auto simp: FlowTable_get_def split: if_splits)
      then show "fkey g \<noteq> fkey f" using keys_apartD [OF flow_invD(6) [OF inv] j(2) fi] by blast
    qed
    show "by_rev t' (rkey f) = ret None"
    proof (rule by_rev_None [OF t'(2)])
      fix j g
      assume "FlowTable_get t' j = Some g"
      then have j: "j \<noteq> i" "slab_get (slab t) j = Some g" unfolding t'(3) by (auto simp: FlowTable_get_def split: if_splits)
      then show "rkey g \<noteq> rkey f" using keys_apartD [OF flow_invD(7) [OF inv] j(2) fi] by blast
    qed
  qed
  moreover have "by_fwd t' (fkey f) = ret (Some j) \<and> by_rev t' (rkey f) = ret (Some j)"
    if "j \<noteq> i" "FlowTable_get t j = Some f" for j f
    using by_fwd_Some [OF t'(2), of j f] by_rev_Some [OF t'(2), of j f] that unfolding t'(3) by simp
  ultimately show ?thesis using t'(1,3) by (intro exI [of _ t']) simp
qed

theorem flow_remove_exact_witness:
  "\<exists>t i t'. FlowTable_get t i = Some flow0 \<and> FlowTable_remove t i = ret (True, t') \<and> by_fwd t' (fkey flow0) = ret None"
proof -
  obtain t i where t: "flow_reach t" "FlowTable_get t i = Some flow0" using table1_exists by blast
  obtain t' where t': "FlowTable_remove t i = ret (FlowTable_get t i \<noteq> None, t')"
    "\<forall>f. FlowTable_get t i = Some f \<longrightarrow> by_fwd t' (fkey f) = ret None \<and> by_rev t' (rkey f) = ret None"
    using flow_remove_exact [OF t(1), of i] by blast
  then show ?thesis using t(2) by (intro exI [of _ t] exI [of _ i] exI [of _ t']) simp
qed

text \<open>The counters are exact: the number of flows is the number of entries and at most 4096, and the count
  of a slot is the number of its flows, whatever was inserted, removed and touched before.\<close>

theorem flow_counts_exact:
  assumes "flow_reach t"
  shows "flen t = card {i. FlowTable_get t i \<noteq> None} \<and> flen t \<le> MAX_FLOWS \<and>
    FlowTable_count t s = card {i. \<exists>f. FlowTable_get t i = Some f \<and> fslot f = s}"
proof -
  note inv = flow_reach_inv [OF assms]
  have "flen t \<le> MAX_FLOWS" using free_count [OF flow_invD(1,2) [OF inv]] flow_invD(3) [OF inv] by linarith
  then show ?thesis
    using flow_invD(3) [OF inv] count_tally_ok [OF flow_invD(8) [OF inv], of s] by (simp add: live_def slot_flows_def FlowTable_get_def)
qed

theorem flow_counts_exact_witness: "\<exists>t. flow_reach t \<and> 0 < FlowTable_count t 3"
proof -
  obtain t i where t: "flow_reach t" "FlowTable_get t i = Some flow0" using table1_exists by blast
  have "FlowTable_count t 3 = card {i. \<exists>f. FlowTable_get t i = Some f \<and> fslot f = 3}"
    using flow_counts_exact [OF t(1), of 3] by blast
  moreover have "{i. \<exists>f. FlowTable_get t i = Some f \<and> fslot f = 3} \<noteq> {}"
  proof -
    have "fslot flow0 = 3" by (simp add: flow0_def)
    then show ?thesis using t(2) by blast
  qed
  ultimately have "0 < FlowTable_count t 3" by (simp only: card_gt_0_iff finite simp_thms)
  then show ?thesis using t(1) by blast
qed

end
