(* ===== verification/NatProps.thy ===== *)
theory NatProps
  imports NatEvents FlowProps
begin

unbundle bit_operations_syntax

text \<open>
  The states the translation can reach from a boot, and the properties that hold in all of them: every
  operation returns, the quotas hold, a reply finds its slot, and nothing is left of a slot that has gone.
\<close>

section \<open>Reachable states\<close>

lemma u16_mask: "unat x AND 0xffff = unat x" for x :: u16
proof -
  have "unat x AND mask 16 = unat x mod 2 ^ 16" by (simp add: take_bit_eq_mask [symmetric] take_bit_eq_mod)
  then show ?thesis using unat_less_pow [of x] by (simp add: mask_eq_exp_minus_1)
qed

lemma port_ip4_inj: "port_ip4 (unat a) = port_ip4 (unat b) \<Longrightarrow> a = b" for a b :: u16
proof -
  assume e: "port_ip4 (unat a) = port_ip4 (unat b)"
  have "(word_of_nat (unat a) :: u32) = word_of_nat (unat b)" using e unfolding port_ip4_def u16_mask by simp
  then have "unat (word_of_nat (unat a) :: u32) = unat (word_of_nat (unat b) :: u32)" by simp
  moreover have "unat (word_of_nat (unat x) :: u32) = unat x" for x :: u16
    using unat_less_pow [of x] unfolding unat_of_nat by simp
  ultimately show "a = b" by (simp add: word_unat_eq_iff)
qed

inductive nat_reach :: "Nat \<Rightarrow> bool" where
  nr_new: "Nat_new granted flow_size spare (masq_start seed) = Inr n \<Longrightarrow> nat_reach n"
| nr_uplink: "nat_reach n \<Longrightarrow> nat_reach (set_uplink n u)"
| nr_publish: "nat_reach n \<Longrightarrow> publish n proto np slot sp = Inr n' \<Longrightarrow> nat_reach n'"
| nr_unpublish: "nat_reach n \<Longrightarrow> unpublish_slot n i = ret n' \<Longrightarrow> nat_reach n'"
| nr_sweep: "nat_reach n \<Longrightarrow> sweep n now = ret n' \<Longrightarrow> nat_reach n'"
| nr_inbound: "nat_reach n \<Longrightarrow> inbound io n f now = ret (b, io', n', f') \<Longrightarrow> nat_reach n'"
| nr_slot_reply: "nat_reach n \<Longrightarrow> slot_reply io n src f now = ret (b, io', n', f') \<Longrightarrow> nat_reach n'"
| nr_outbound: "nat_reach n \<Longrightarrow> outbound io n src f now = ret (b, io', n', f') \<Longrightarrow> nat_reach n'"

lemma masq_start_ok: "port_ok (masq_start seed)"
proof -
  let ?r = "unat seed mod 29152"
  have r: "?r < 29152" by simp
  have u: "unat (word_of_nat ?r :: u16) = ?r" using r by (simp add: unat_of_nat take_bit_nat_eq_self)
  have e: "masq_start seed = MASQ_BASE + word_of_nat ?r" using r by (simp add: masq_start_def MASQ_unat Let_def)
  have "unat (masq_start seed) = 20000 + ?r" unfolding e using unat_add_exact [of MASQ_BASE "word_of_nat ?r"] r u by (simp add: MASQ_unat)
  then show ?thesis using r unfolding port_ok_unat by simp
qed

lemma new_nat_inv:
  assumes "Nat_new granted flow_size spare (masq_start seed) = Inr n"
  shows "nat_inv n"
proof -
  obtain t where t: "FlowTable_new granted flow_size spare = Inr t"
    "n = \<lparr>pubs = [], uplink = None, flows = t, masq_next = masq_start seed, next_sweep = 0, next_full_log = 0, next_slot_full_log = 0\<rparr>"
    using assms by (auto simp: Nat_new_def res_simps)
  have "map_ok (FlowTable_get t)" unfolding table_new_inv(2) [OF t(1)] by (simp add: map_ok_def slot_count_def)
  then show ?thesis using table_new_inv(1) [OF t(1)] masq_start_ok t(2) by (simp add: nat_inv_def pubs_ok_def)
qed

lemma nat_reach_inv: "nat_reach n \<Longrightarrow> nat_inv n"
proof (induction rule: nat_reach.induct)
  case (nr_new granted flow_size spare seed n)
  then show ?case by (rule new_nat_inv)
next
  case (nr_uplink n u)
  then show ?case by (simp add: nat_inv_def set_uplink_def)
next
  case (nr_publish n proto np slot sp n')
  then show ?case using publish_inv(1) by blast
next
  case (nr_unpublish n i n')
  then show ?case using unpublish_total [of n i] by auto
next
  case (nr_sweep n now n')
  then show ?case using sweep_total [of n now] by auto
next
  case (nr_inbound n io f now b io' n' f')
  then show ?case using inbound_total [of n io f now] by auto
next
  case (nr_slot_reply n io src f now b io' n' f')
  then show ?case using slot_reply_total [of n io src f now] by auto
next
  case (nr_outbound n io src f now b io' n' f')
  then show ?case using outbound_total [of n io src f now] by auto
qed

section \<open>A state for the examples\<close>

definition nat0 :: Nat where
  "nat0 = \<lparr>pubs = [], uplink = None, flows = table0, masq_next = masq_start 0, next_sweep = 0, next_full_log = 0, next_slot_full_log = 0\<rparr>"

definition up0 :: Uplink where
  "up0 = \<lparr>up_ip = 0xC0A80002, up_mask = 0xFFFFFF00, up_mac = [2, 1, 1, 1, 1, 1], gateway = 0xC0A80001\<rparr>"

definition nat1 :: Nat where
  "nat1 = set_uplink nat0 up0"

definition io0 :: NatIo where
  "io0 = \<lparr>io_events = [], neigh = \<lambda>_ _ _. Some [2, 9, 9, 9, 9, 9]\<rparr>"

text \<open>An Ethernet frame with an IPv4 header and a TCP header, and nothing in it.\<close>

definition tcp_frame :: "u32 \<Rightarrow> u32 \<Rightarrow> u16 \<Rightarrow> u16 \<Rightarrow> u8 \<Rightarrow> u8 list" where
  "tcp_frame src dst sport dport flags =
     [0, 0, 0, 0, 0, 0, 0, 0, 0, 0, 0, 0, 8, 0, 0x45, 0, 0, 40, 0, 0, 0, 0, 64, 6, 0, 0,
      ucast (drop_bit 24 src), ucast (drop_bit 16 src), ucast (drop_bit 8 src), ucast src,
      ucast (drop_bit 24 dst), ucast (drop_bit 16 dst), ucast (drop_bit 8 dst), ucast dst,
      ucast (drop_bit 8 sport), ucast sport, ucast (drop_bit 8 dport), ucast dport,
      0, 0, 0, 0, 0, 0, 0, 0, 0x50, flags, 0, 0, 0, 0, 0, 0]"

lemma nat0_new: "Nat_new (\<lambda>_. True) 48 0 (masq_start 0) = Inr nat0"
  by (simp add: Nat_new_def table0_new nat0_def)

lemma nat1_reach: "nat_reach nat1"
  unfolding nat1_def by (rule nr_uplink [OF nr_new [OF nat0_new]])

lemma nat1_fields: "uplink nat1 = Some up0" "flow_map nat1 = (\<lambda>_. None)" "pubs nat1 = []"
  by (simp_all add: nat1_def set_uplink_def nat0_def table0_get)

lemma tcp_frame_fields:
  "ipv4_l4 (tcp_frame src dst sport dport flags) = Some \<lparr>l4off = 34, ip_proto = 6\<rparr>"
  "be32 (tcp_frame src dst sport dport flags) 26 = src" "be32 (tcp_frame src dst sport dport flags) 30 = dst"
  "be16 (tcp_frame src dst sport dport flags) 34 = sport" "be16 (tcp_frame src dst sport dport flags) 36 = dport"
  "byte (tcp_frame src dst sport dport flags) 47 = flags"
proof -
  let ?f = "tcp_frame src dst sport dport flags"
  have l: "length ?f = 54" by (simp add: tcp_frame_def)
  have v: "be16 ?f 12 = ET_IPV4" "byte ?f 14 = 0x45" "be16 ?f 20 = 0" "byte ?f 23 = 6"
    by (simp_all add: be16_nth byte_def list_get_def tcp_frame_def u16_from_be_def ET_IPV4_def)
  have "ipv4_head ?f = Some (20, 6)"
    using l v by (simp add: ipv4_head_def ETH_LEN_def ipv4_fragmented_def)
  then show "ipv4_l4 ?f = Some \<lparr>l4off = 34, ip_proto = 6\<rparr>"
    using l by (simp add: ipv4_l4_def PROTO_TCP_def ETH_LEN_def)
  show "be32 ?f 26 = src" "be32 ?f 30 = dst" using l by (simp_all add: be32_nth tcp_frame_def u32_from_to)
  show "be16 ?f 34 = sport" "be16 ?f 36 = dport" using l by (simp_all add: be16_nth tcp_frame_def u16_from_to)
  show "byte ?f 47 = flags" by (simp add: byte_def list_get_def tcp_frame_def)
qed

lemma slot3: "slot_word 3 = Some 3"
  by (simp add: slot_word_def Slot_new_def SLOT_MAX_def)

lemma empty_not_full:
  assumes inv: "nat_inv n" and le: "flow_map n \<subseteq>\<^sub>m (\<lambda>_. None)"
  shows "\<not> slot_full n s"
proof -
  have e: "flow_map n = (\<lambda>_. None)" using le unfolding map_le_def by (auto simp: fun_eq_iff dom_def)
  have "flen (flows n) = 0" using flen_exact [OF nat_invD(1) [OF inv]] e by (simp add: dom_def)
  then show ?thesis unfolding slot_full_iff [OF inv] slot_count_def e by (simp add: MAX_FLOWS_def MAX_FLOWS_PER_SLOT_def)
qed

text \<open>Slot 3 calls 1.1.1.1 on port 443.\<close>

definition syn0 :: "u8 list" where
  "syn0 = tcp_frame (port_ip4 3) 0x01010101 5000 443 2"

lemma syn0_flow:
  obtains i p n' where "nat_inv n'" "flow_map n' = [i \<mapsto> new_flow 6 3 (port_ip4 3) 5000 0x01010101 443 p 7]" "uplink n' = Some up0" "pubs n' = []"
    "flow_for_packet (emit io0 (Resolve 0x01010101 7)) nat1 6 3 (port_ip4 3) 5000 0x01010101 443 2 7 = ret (Some (i, True), emit io0 (Resolve 0x01010101 7), n')"
proof -
  note inv = nat_reach_inv [OF nat1_reach]
  let ?io = "emit io0 (Resolve 0x01010101 7)"
  have p: "flow_for_packet ?io nat1 6 3 (port_ip4 3) 5000 0x01010101 443 2 7 = flow_for ?io nat1 6 3 (port_ip4 3) 5000 0x01010101 443 7"
    by (simp add: flow_for_packet_def TCP_RST_def)
  show thesis using inv
  proof (cases rule: flow_for_cases [where io = ?io and proto = 6 and slot = 3 and sport = 5000 and dip = "0x01010101" and dport = 443 and now = 7])
    case (hit i f n')
    then show thesis by (simp add: nat1_fields)
  next
    case (refused io' n')
    then show thesis using empty_not_full [OF refused(2), of 3] slot3 by (simp add: nat1_fields)
  next
    case (made i q s n' m)
    have "m = (\<lambda>_. None)" using made(6) unfolding nat1_fields map_le_def by (auto simp: fun_eq_iff dom_def)
    then show thesis using made slot3 p by (intro that [of n' i q]) (simp_all add: nat1_fields)
  qed
qed

lemma flow_example:
  obtains i p n where "nat_reach n" "flow_map n = [i \<mapsto> new_flow 6 3 (port_ip4 3) 5000 0x01010101 443 p 7]" "uplink n = Some up0" "pubs n = []"
proof -
  obtain i p n' where n': "nat_inv n'" "flow_map n' = [i \<mapsto> new_flow 6 3 (port_ip4 3) 5000 0x01010101 443 p 7]" "uplink n' = Some up0" "pubs n' = []"
    "flow_for_packet (emit io0 (Resolve 0x01010101 7)) nat1 6 3 (port_ip4 3) 5000 0x01010101 443 2 7 = ret (Some (i, True), emit io0 (Resolve 0x01010101 7), n')"
    by (rule syn0_flow)
  have nb: "neighbor io0 0x01010101 7 = (Some [2, 9, 9, 9, 9, 9], emit io0 (Resolve 0x01010101 7))" by (simp add: neighbor_def io0_def)
  have nt: "note_tcp_flags n' i 2 False = (False, n')"
    using n'(2) by (simp add: note_tcp_flags_def TCP_RST_def TCP_FIN_def)
  have "\<exists>io3. outbound io0 nat1 3 syn0 7 = reap_step n' i 2 io3 syn0
    (\<lambda>fl. tx_uplink io3 up0 (snat_src up0 syn0 34 6 (port_ip4 3) 5000 (node_port fl)) [2, 9, 9, 9, 9, 9])"
    using outbound_flow [of syn0 "\<lparr>l4off = 34, ip_proto = 6\<rparr>" nat1 up0 io0 7 "Some [2, 9, 9, 9, 9, 9]" "emit io0 (Resolve 0x01010101 7)" "[2, 9, 9, 9, 9, 9]"
        "emit io0 (Resolve 0x01010101 7)" 3 i True "emit io0 (Resolve 0x01010101 7)" n'] n'(5) nb
    by (simp add: syn0_def tcp_frame_fields nat1_fields up0_def ETH_LEN_def)
  then obtain io3 where "outbound io0 nat1 3 syn0 7 = reap_step n' i 2 io3 syn0
    (\<lambda>fl. tx_uplink io3 up0 (snat_src up0 syn0 34 6 (port_ip4 3) 5000 (node_port fl)) [2, 9, 9, 9, 9, 9])" by blast
  then have "\<exists>io' f'. outbound io0 nat1 3 syn0 7 = ret (True, io', n', f')"
    unfolding reap_step_def nt using n'(2) by (simp add: tx_uplink_def Let_def)
  then obtain io' f' where "outbound io0 nat1 3 syn0 7 = ret (True, io', n', f')" by blast
  then have "nat_reach n'" by (rule nr_outbound [OF nat1_reach])
  then show thesis by (rule that [OF _ n'(2,3,4)])
qed

section \<open>Properties\<close>

text \<open>C30. In every reachable state no slot has more than 512 connections and there are at most 4096; every
  connection has a node port of the masquerade range and the internal address of its own slot; a port is
  published at most once per protocol.\<close>

theorem nat_quotas:
  assumes "nat_reach n"
  shows "card {i. \<exists>f. FlowTable_get (flows n) i = Some f \<and> fslot f = s} \<le> MAX_FLOWS_PER_SLOT \<and>
    card {i. FlowTable_get (flows n) i \<noteq> None} \<le> MAX_FLOWS \<and>
    (FlowTable_get (flows n) i = Some f \<longrightarrow> MASQ_BASE \<le> node_port f \<and> node_port f < MASQ_END \<and> slot_ip f = port_ip4 (unat (fslot f))) \<and>
    length (pubs n) \<le> MAX_PUBS \<and> distinct (map (\<lambda>p. (pub_proto p, pub_node_port p)) (pubs n))"
proof -
  note inv = nat_reach_inv [OF assms]
  have "card {i. FlowTable_get (flows n) i \<noteq> None} \<le> MAX_FLOWS"
    using flen_exact [OF nat_invD(1) [OF inv]] flen_le [OF nat_invD(1) [OF inv]] by (simp add: dom_def)
  then show ?thesis
    using nat_invD(3,4) [OF inv] unfolding map_ok_def slot_count_def flow_ok_def port_ok_def pubs_ok_def by blast
qed

theorem nat_quotas_witness:
  "\<exists>(n :: Nat) i f. FlowTable_get (flows n) i = Some f \<and> slot_ip f = port_ip4 3 \<and> MASQ_BASE \<le> node_port f"
proof -
  obtain i p n where n: "nat_reach n" "flow_map n = [i \<mapsto> new_flow 6 3 (port_ip4 3) 5000 0x01010101 443 p 7]" "uplink n = Some up0" "pubs n = []"
    by (rule flow_example)
  have g: "FlowTable_get (flows n) i = Some (new_flow 6 3 (port_ip4 3) 5000 0x01010101 443 p 7)" using n(2) by simp
  then have "MASQ_BASE \<le> node_port (new_flow 6 3 (port_ip4 3) 5000 0x01010101 443 p 7)" using nat_quotas [OF n(1), of 3 i] by blast
  then show ?thesis using g
    by (intro exI [of _ n] exI [of _ i] exI [of _ "new_flow 6 3 (port_ip4 3) 5000 0x01010101 443 p 7"]) (simp add: new_flow_keys)
qed

text \<open>C31. No frame can stop or abort the translation: in every reachable state, for every frame from outside or
  from a slot, every path returns, and so do the sweep and the withdrawal of a slot.\<close>

theorem nat_returns:
  assumes "nat_reach n"
  shows "(\<exists>r. inbound io n f now = ret r) \<and> (\<exists>r. slot_reply io n src f now = ret r) \<and> (\<exists>r. outbound io n src f now = ret r) \<and>
    (\<exists>r. unpublish_slot n i = ret r) \<and> (\<exists>r. sweep n now = ret r)"
  using inbound_total [OF nat_reach_inv [OF assms], of io f now] slot_reply_total [OF nat_reach_inv [OF assms], of io src f now]
    outbound_total [OF nat_reach_inv [OF assms], of io src f now] unpublish_total [OF nat_reach_inv [OF assms], of i]
    sweep_total [OF nat_reach_inv [OF assms], of now] by blast

theorem nat_returns_witness: "\<exists>r. outbound io0 nat1 3 syn0 7 = ret r"
  using nat_returns [OF nat1_reach, of io0 syn0 7 3 0] by blast

text \<open>C32. Asking for the connection of an outgoing packet returns one with exactly the addresses and ports of
  the packet, owned by its slot and marked as seen now; it is refused only when the table or the slot is full
  and no connection of the slot is closed in both directions.\<close>

theorem flow_for_outcome:
  assumes "nat_reach n" "slot_word slot = Some s"
  shows "\<exists>r io' n'. flow_for io n proto slot (port_ip4 slot) sport dip dport now = ret (r, io', n') \<and>
    (case r of
       Some (i, created) \<Rightarrow> \<exists>f. FlowTable_get (flows n') i = Some f \<and> fkey f = FKey proto (port_ip4 slot) dip sport dport \<and>
         fslot f = s \<and> seen f = now \<and> by_rev (flows n') (rkey f) = ret (Some i)
     | None \<Rightarrow> (flen (flows n') = MAX_FLOWS \<or> FlowTable_count (flows n') s = MAX_FLOWS_PER_SLOT) \<and>
         (\<forall>i f. FlowTable_get (flows n') i = Some f \<and> fslot f = s \<longrightarrow> \<not> (fin_fwd f \<and> fin_rev f)))"
  using nat_reach_inv [OF assms(1)]
proof (cases rule: flow_for_cases [where io = io and proto = proto and slot = slot and sport = sport and dip = dip and dport = dport and now = now])
  case (hit i f n')
  note inv = nat_reach_inv [OF assms(1)]
  let ?f = "f\<lparr>seen := now\<rparr>"
  have g: "flow_map n' i = Some ?f" unfolding hit(8) by simp
  have "slot_ip f = port_ip4 (unat (fslot f))" using nat_invD(4) [OF inv] hit(5) unfolding map_ok_def flow_ok_def by blast
  moreover have "slot_ip f = port_ip4 (unat s)" using hit(6) slot_word_Some [OF assms(2)] by (simp add: fkey_def)
  ultimately have "fslot f = s" using port_ip4_inj by metis
  then show ?thesis
    using hit(1,6) g by_rev_Some [OF nat_invD(1) [OF hit(2)] g] by (intro exI [of _ "Some (i, False)"] exI [of _ io] exI [of _ n']) (simp add: fkey_def)
next
  case (made i p t n' m)
  let ?f = "new_flow proto t (port_ip4 slot) sport dip dport p now"
  have g: "flow_map n' i = Some ?f" unfolding made(8) by simp
  have "t = s" using made(5) assms(2) by simp
  then show ?thesis
    using made(1) g by_rev_Some [OF nat_invD(1) [OF made(2)] g]
    by (intro exI [of _ "Some (i, True)"] exI [of _ io] exI [of _ n']) (simp add: new_flow_keys)
next
  case (refused io' n')
  note f = refused(6) [OF assms(2)]
  have "flen (flows n') = MAX_FLOWS \<or> FlowTable_count (flows n') s = MAX_FLOWS_PER_SLOT"
    using f slot_full_iff [OF refused(2), of s] count_exact [OF nat_invD(1) [OF refused(2)], of s] by simp
  moreover note conjunct2 [OF f, unfolded no_closed_def]
  ultimately show ?thesis using refused(1) by (intro exI [of _ None] exI [of _ io'] exI [of _ n'] conjI) (simp_all only: option.case simp_thms)
qed

theorem flow_for_outcome_witness:
  "\<exists>r io' n'. flow_for io0 nat1 6 3 (port_ip4 3) 5000 0x01010101 443 7 = ret (r, io', n') \<and> slot_word 3 = Some 3"
  using flow_for_outcome [OF nat1_reach slot3, of io0 6 5000 "0x01010101" 443 7] slot3 by blast

text \<open>C29. A reply comes home: a frame from outside that carries the reverse key of a live connection is claimed and
  delivered to the slot of that connection, with the slot's own address and port as its destination and the
  peer's address and port untouched.\<close>

theorem reply_delivered:
  assumes "nat_reach n" "uplink n = Some u" "FlowTable_get (flows n) i = Some fl" "\<not> flow_expired fl now"
    "ipv4_l4 f = Some ip" "be32 f (ETH_LEN + 16) = up_ip u"
    "rkey fl = RKey (ip_proto ip) (be16 f (l4off ip + 2)) (be32 f (ETH_LEN + 12)) (be16 f (l4off ip))"
  shows "\<exists>io' n' f'. inbound io n f now = ret (True, io', n', f') \<and> Deliver (unat (fslot fl)) f' \<in> set (io_events io') \<and>
    be32 f' (ETH_LEN + 16) = slot_ip fl \<and> be16 f' (l4off ip + 2) = slot_port fl \<and>
    be32 f' (ETH_LEN + 12) = be32 f (ETH_LEN + 12) \<and> be16 f' (l4off ip) = be16 f (l4off ip)"
proof -
  note inv = nat_reach_inv [OF assms(1)]
  have uniq: "fl' = fl" if "flow_map n j = Some fl'" "rkey fl' = rkey fl" for j fl'
    using keys_apartD [OF flow_invD(7) [OF nat_invD(1) [OF inv]], of j fl' i fl] that assms(3) by (simp add: FlowTable_get_def)
  show ?thesis
  proof (rule inbound_cases [OF inv assms(5,2,6), of now io])
    fix j fl' n' io1 f'
    assume fl': "flow_map n j = Some fl'" "rkey fl' = RKey (ip_proto ip) (be16 f (l4off ip + 2)) (be32 f (ETH_LEN + 12)) (be16 f (l4off ip))"
      and d: "dnat_to_slot io (unat (fslot fl')) f (l4off ip) (ip_proto ip) (up_ip u) (slot_ip fl') (be16 f (l4off ip + 2)) (slot_port fl') = (io1, f')"
      and e: "inbound io n f now = ret (True, emit (emit io1 (Counted NatReplyIn)) (Confirm (be32 f (ETH_LEN + 12)) (mac_at f 6) now), n', f')"
    have "fl' = fl" by (rule uniq [OF fl'(1)]) (use fl'(2) assms(7) in simp)
    then show ?thesis using e dnat_fields [OF assms(5) d] by (simp add: emit_def)
  next
    fix m n' io1 f'
    assume e: "inbound io n f now = ret (True, emit io1 (Confirm (be32 f (ETH_LEN + 12)) (mac_at f 6) now), n', f')"
    show ?thesis using inv
    proof (cases rule: reply_in_cases [where io = io and f = f and lf = "l4off ip" and proto = "ip_proto ip" and u = u and now = now])
      case (reply j fl' g n2 io2 f2)
      have "fl' = fl" by (rule uniq [OF reply(1)]) (use reply(2) assms(7) in simp)
      moreover have "inbound io n f now = ret (True, emit (emit io2 (Counted NatReplyIn)) (Confirm (be32 f (ETH_LEN + 12)) (mac_at f 6) now), n2, f2)"
        using assms(2,5,6) reply(5) by (simp add: inbound_def Let_def)
      ultimately show ?thesis using dnat_fields [OF assms(5) reply(4)] by (simp add: emit_def)
    next
      case (other n2)
      then show ?thesis using assms(3,4,7) by blast
    qed
  next
    fix n'
    assume "\<And>i fl. flow_map n i = Some fl \<Longrightarrow> rkey fl = RKey (ip_proto ip) (be16 f (l4off ip + 2)) (be32 f (ETH_LEN + 12)) (be16 f (l4off ip)) \<Longrightarrow>
        flow_expired fl now"
    then show ?thesis using assms(3,4,7) by blast
  qed
qed

theorem reply_delivered_witness:
  "\<exists>(n :: Nat) p io' n' f'. inbound io0 n (tcp_frame 0x01010101 0xC0A80002 443 p 0x12) 8 = ret (True, io', n', f') \<and>
     Deliver 3 f' \<in> set (io_events io') \<and> be32 f' 30 = port_ip4 3 \<and> be16 f' 36 = 5000"
proof -
  obtain i p n where n: "nat_reach n" "flow_map n = [i \<mapsto> new_flow 6 3 (port_ip4 3) 5000 0x01010101 443 p 7]" "uplink n = Some up0" "pubs n = []"
    by (rule flow_example)
  let ?fl = "new_flow 6 3 (port_ip4 3) 5000 0x01010101 443 p 7" and ?f = "tcp_frame 0x01010101 0xC0A80002 443 p 0x12"
  have g: "FlowTable_get (flows n) i = Some ?fl" using n(2) by simp
  have x: "\<not> flow_expired ?fl 8" by (simp add: flow_expired_def flow_idle_def new_flow_def PROTO_TCP_def TCP_IDLE_def SEC_def)
  have d: "be32 ?f (ETH_LEN + 16) = up_ip up0" by (simp add: tcp_frame_fields ETH_LEN_def up0_def)
  have k: "rkey ?fl = RKey (ip_proto \<lparr>l4off = 34, ip_proto = 6\<rparr>) (be16 ?f (l4off \<lparr>l4off = 34, ip_proto = 6\<rparr> + 2))
      (be32 ?f (ETH_LEN + 12)) (be16 ?f (l4off \<lparr>l4off = 34, ip_proto = 6\<rparr>))"
    by (simp add: new_flow_keys tcp_frame_fields ETH_LEN_def)
  have "\<exists>io' n' f'. inbound io0 n ?f 8 = ret (True, io', n', f') \<and> Deliver (unat (fslot ?fl)) f' \<in> set (io_events io') \<and>
      be32 f' (ETH_LEN + 16) = slot_ip ?fl \<and> be16 f' (l4off \<lparr>l4off = 34, ip_proto = 6\<rparr> + 2) = slot_port ?fl \<and>
      be32 f' (ETH_LEN + 12) = be32 ?f (ETH_LEN + 12) \<and> be16 f' (l4off \<lparr>l4off = 34, ip_proto = 6\<rparr>) = be16 ?f (l4off \<lparr>l4off = 34, ip_proto = 6\<rparr>)"
    by (rule reply_delivered [OF n(1,3) g x tcp_frame_fields(1) d k])
  then show ?thesis by (simp add: new_flow_keys ETH_LEN_def) blast
qed

text \<open>C7. A frame from outside reaches no other slot: whatever the translation delivers for it goes to the slot of a
  live connection with its reverse key, or to the slot that published the port, under that slot's address, and
  only if the frame was addressed to the node.\<close>

theorem inbound_only_owner:
  assumes "nat_reach n" "inbound io n f now = ret (b, io', n', f')"
  shows "emits io io' (delivered_right n now f)"
  by (rule inbound_emits [OF nat_reach_inv [OF assms(1)] assms(2)])

theorem inbound_only_owner_witness:
  "\<exists>b io' n' f'. inbound io0 nat1 syn0 7 = ret (b, io', n', f') \<and> emits io0 io' (delivered_right nat1 7 syn0)"
proof -
  obtain b io' n' f' where r: "inbound io0 nat1 syn0 7 = ret (b, io', n', f')"
    using inbound_total [OF nat_reach_inv [OF nat1_reach]] by blast
  show ?thesis using r inbound_only_owner [OF nat1_reach r] by blast
qed

text \<open>C28. A slot's address never leaves the node: whatever an outgoing frame makes the translation send carries the
  node's address and a port of the masquerade range as its source, and the destination it had.\<close>

theorem outbound_masked:
  assumes "nat_reach n" "macs_ok io n" "outbound io n src f now = ret (b, io', n', f')"
  shows "emits io io' (sent_masked n f)"
  by (rule outbound_emits [OF nat_reach_inv [OF assms(1)] assms(2,3)])

theorem outbound_masked_witness:
  "\<exists>b io' n' f'. outbound io0 nat1 3 syn0 7 = ret (b, io', n', f') \<and> emits io0 io' (sent_masked nat1 syn0)"
proof -
  obtain b io' n' f' where r: "outbound io0 nat1 3 syn0 7 = ret (b, io', n', f')"
    using outbound_total [OF nat_reach_inv [OF nat1_reach]] by blast
  have "macs_ok io0 nat1" by (simp add: macs_ok_def io0_def nat1_fields up0_def)
  then show ?thesis using r outbound_masked [OF nat1_reach _ r] by blast
qed

text \<open>A node port is always found: with at most 4096 connections and 512 publications the range of 29152 ports
  cannot be exhausted, and the port that is chosen belongs to no connection with the same peer and to no
  publication of the protocol.\<close>

theorem port_always_found:
  assumes "nat_reach n"
  shows "\<exists>p n'. alloc_port n proto dip dport = ret (Some p, n') \<and> MASQ_BASE \<le> p \<and> p < MASQ_END \<and>
    by_rev (flows n) (RKey proto p dip dport) = ret None \<and> (\<forall>q \<in> set (pubs n). pub_proto q = proto \<longrightarrow> pub_node_port q \<noteq> p)"
proof -
  note inv = nat_reach_inv [OF assms]
  obtain p q where p: "alloc_port n proto dip dport = ret (Some p, n\<lparr>masq_next := q\<rparr>)" "port_ok p" "port_ok q" "\<not> busy_port n proto dip dport p"
    using alloc_port_total [OF inv] by blast
  have "by_rev (flows n) (RKey proto p dip dport) = ret None"
    by (rule by_rev_None [OF nat_invD(1) [OF inv]]) (use p(4) in \<open>auto simp: busy_port_def\<close>)
  then show ?thesis using p unfolding port_ok_def busy_port_def by blast
qed

theorem port_always_found_witness: "\<exists>p n'. alloc_port nat1 6 0x01010101 443 = ret (Some p, n') \<and> MASQ_BASE \<le> p"
  using port_always_found [OF nat1_reach, of 6 "0x01010101" 443] by blast

text \<open>C33. Withdrawing a slot leaves nothing of it: no publication, no connection that it owns and no hairpin
  connection to its services; everything of the other slots is kept.\<close>

theorem unpublish_clears:
  assumes "nat_reach n" "slot_word i = Some s"
  shows "\<exists>n'. unpublish_slot n i = ret n' \<and> pubs n' = filter (\<lambda>p. pub_slot p \<noteq> s) (pubs n) \<and>
    (\<forall>j f. FlowTable_get (flows n') j = Some f \<longleftrightarrow> FlowTable_get (flows n) j = Some f \<and> fslot f \<noteq> s \<and> dst_ip f \<noteq> port_ip4 i)"
proof -
  have i: "unat s = i" "i \<le> SLOT_MAX" using slot_word_Some [OF assms(2)] by blast+
  have e: "(unat x = i) = (x = s)" for x :: u16 using i(1) by (auto simp: word_unat_eq_iff)
  have nz: "port_ip4 i \<noteq> 0"
  proof
    assume "port_ip4 i = 0"
    then have "port_ip4 (unat s) = 0" using i(1) by simp
    then have "word_of_nat (unat s AND 0xffff) = - HOST_IP4" unfolding port_ip4_def add_eq_0_iff .
    then have u: "unat (word_of_nat (unat s AND 0xffff) :: u32) = unat (- HOST_IP4)" by simp
    have "unat (word_of_nat (unat s AND 0xffff) :: u32) \<le> unat s" unfolding u16_mask unat_of_nat by (rule mod_less_eq_dividend)
    moreover have "unat (- HOST_IP4) = 4120641535" unfolding HOST_IP4_def by code_simp
    ultimately show False using u unat_less_pow [of s] by simp
  qed
  obtain n' where n': "unpublish_slot n i = ret n'" "nat_inv n'" "pubs n' = filter (\<lambda>p. unat (pub_slot p) \<noteq> i) (pubs n)" "uplink n' = uplink n"
    "flow_map n' = drop_flows (\<lambda>f. unat (fslot f) = i \<or> (slot_word i \<noteq> None \<and> port_ip4 i \<noteq> 0) \<and> dst_ip f = port_ip4 i) (flow_map n)"
    using unpublish_total [OF nat_reach_inv [OF assms(1)]] by blast
  show ?thesis
    by (intro exI [of _ n'] conjI allI) (use n'(1,3) nz assms(2) in \<open>simp_all add: e n'(5) drop_flows_Some\<close>)
qed

theorem unpublish_clears_witness:
  "\<exists>(n :: Nat) n' i. FlowTable_get (flows n) i \<noteq> None \<and> unpublish_slot n 3 = ret n' \<and> FlowTable_get (flows n') i = None"
proof -
  obtain i p n where n: "nat_reach n" "flow_map n = [i \<mapsto> new_flow 6 3 (port_ip4 3) 5000 0x01010101 443 p 7]" "uplink n = Some up0" "pubs n = []"
    by (rule flow_example)
  obtain n' where n': "unpublish_slot n 3 = ret n'"
    "\<forall>j f. FlowTable_get (flows n') j = Some f \<longleftrightarrow> FlowTable_get (flows n) j = Some f \<and> fslot f \<noteq> 3 \<and> dst_ip f \<noteq> port_ip4 3"
    using unpublish_clears [OF n(1) slot3] by blast
  have "FlowTable_get (flows n') i \<noteq> Some f" for f using n'(2) n(2) by (auto simp: new_flow_keys)
  then have "FlowTable_get (flows n') i = None" by (cases "FlowTable_get (flows n') i") auto
  then show ?thesis using n(2) n'(1) by (intro exI [of _ n] exI [of _ n'] exI [of _ i]) simp
qed

text \<open>The sweep removes exactly the connections that were idle too long: 300 seconds for TCP, 60 for a TCP
  connection closed in both directions and for every other protocol; the others are untouched.\<close>

theorem sweep_exact:
  assumes "nat_reach n"
  shows "\<exists>n'. sweep n now = ret n' \<and> pubs n' = pubs n \<and>
    (\<forall>j f. FlowTable_get (flows n') j = Some f \<longleftrightarrow> FlowTable_get (flows n) j = Some f \<and>
      unat now - unat (seen f) \<le> (if fproto f = PROTO_TCP \<and> \<not> (fin_fwd f \<and> fin_rev f) then 300 else 60) * 1000000000)"
proof -
  obtain n' where n': "sweep n now = ret n'" "nat_inv n'" "flow_map n' = drop_flows (\<lambda>f. flow_expired f now) (flow_map n)" "pubs n' = pubs n"
    "uplink n' = uplink n" using sweep_total [OF nat_reach_inv [OF assms]] by blast
  have "flow_expired f now \<longleftrightarrow> \<not> unat now - unat (seen f) \<le> (if fproto f = PROTO_TCP \<and> \<not> (fin_fwd f \<and> fin_rev f) then 300 else 60) * 1000000000" for f :: Flow
  proof -
    have a: "unat (if seen f \<le> now then now - seen f else 0) = unat now - unat (seen f)"
      by (auto simp: unat_sub word_le_nat_alt)
    have b: "unat (flow_idle f) = (if fproto f = PROTO_TCP \<and> \<not> (fin_fwd f \<and> fin_rev f) then 300 else 60) * 1000000000"
      by (auto simp: flow_idle_def UDP_IDLE_def TCP_IDLE_def TCP_CLOSING_IDLE_def SEC_def)
    show ?thesis unfolding flow_expired_def word_less_nat_alt a b by linarith
  qed
  then show ?thesis using n'(1,4) by (intro exI [of _ n'] conjI allI) (simp_all add: n'(3) drop_flows_Some)
qed

theorem sweep_exact_witness: "\<exists>n'. sweep nat1 7 = ret n' \<and> pubs n' = []"
  using sweep_exact [OF nat1_reach, of 7] by (auto simp: nat1_fields)

end
