(* ===== verification/GwProps.thy ===== *)
theory GwProps
  imports NatProps
begin

unbundle bit_operations_syntax

text \<open>Checksums through every rewriting path, the gateway translation, and the address plan of the internal net.\<close>

section \<open>The gateway translation\<close>

lemma gw_parseD:
  assumes "gw_parse f = Some (l4, proto)"
  shows "ipv4_head f = Some (ihl_of f, proto)" "l4 = ETH_LEN + ihl_of f" "proto = PROTO_TCP \<or> proto = PROTO_UDP \<or> proto = PROTO_ICMP"
    "proto \<noteq> PROTO_ICMP \<Longrightarrow> l4 + (if proto = PROTO_UDP then 8 else 20) \<le> length f" "34 \<le> length f" "20 \<le> ihl_of f" "even (ihl_of f)"
proof -
  obtain ihl p where h: "ipv4_head f = Some (ihl, p)" using assms unfolding gw_parse_def by (auto split: option.splits)
  have e: "p = proto" "l4 = ETH_LEN + ihl" "proto = PROTO_TCP \<or> proto = PROTO_UDP \<or> proto = PROTO_ICMP"
    "proto \<noteq> PROTO_ICMP \<Longrightarrow> l4 + (if proto = PROTO_UDP then 8 else 20) \<le> length f"
    using assms h unfolding gw_parse_def by (auto simp: PROTO_TCP_def PROTO_UDP_def split: if_splits)
  note d = ipv4_headD [OF h]
  show "ipv4_head f = Some (ihl_of f, proto)" "l4 = ETH_LEN + ihl_of f" "proto = PROTO_TCP \<or> proto = PROTO_UDP \<or> proto = PROTO_ICMP"
    "proto \<noteq> PROTO_ICMP \<Longrightarrow> l4 + (if proto = PROTO_UDP then 8 else 20) \<le> length f" "20 \<le> ihl_of f" "even (ihl_of f)"
    using h d e by simp_all
  show "34 \<le> length f" by (rule ipv4_head_nonzero(2) [OF h])
qed

text \<open>The address \<open>k\<close> is rewritten, and with it the transport checksum unless the frame is ICMP.\<close>

definition gw_rewrite :: "u8 list \<Rightarrow> nat \<Rightarrow> nat \<Rightarrow> u8 \<Rightarrow> u32 \<Rightarrow> u8 list" where
  "gw_rewrite f k l4 proto new =
     (let g = ip_rewrite f (26 + 2 * k) new in
      if proto \<noteq> PROTO_ICMP then fix_l4_ip g l4 proto (be32 f (26 + 2 * k)) new else g)"

lemma gw_rewrite_low:
  assumes p: "gw_parse f = Some (l4, proto)" and k: "k = 0 \<or> k = 2"
  shows "length (gw_rewrite f k l4 proto new) = length f" "q < l4 \<Longrightarrow> byte (gw_rewrite f k l4 proto new) q = byte (ip_rewrite f (26 + 2 * k) new) q"
    "q + 2 \<le> l4 \<Longrightarrow> be16 (gw_rewrite f k l4 proto new) q = be16 (ip_rewrite f (26 + 2 * k) new) q"
proof -
  note d = gw_parseD [OF p]
  let ?g = "ip_rewrite f (26 + 2 * k) new"
  have "length (gw_rewrite f k l4 proto new) = length f \<and> (q < l4 \<longrightarrow> byte (gw_rewrite f k l4 proto new) q = byte ?g q) \<and>
      (q + 2 \<le> l4 \<longrightarrow> be16 (gw_rewrite f k l4 proto new) q = be16 ?g q)"
  proof (cases "proto = PROTO_ICMP")
    case True
    then show ?thesis by (simp add: gw_rewrite_def)
  next
    case False
    have c: "l4 + l4_csum_off proto + 2 \<le> length ?g" using d(4) [OF False] csum_off_bounds(2) [of proto] by (simp split: if_splits)
    have e: "gw_rewrite f k l4 proto new = fix_l4_ip ?g l4 proto (be32 f (26 + 2 * k)) new" using False by (simp add: gw_rewrite_def)
    have m: "l4_csum_off proto + 2 \<le> 2 * 9" by (simp add: l4_csum_off_def)
    note r = fix_l4_ip_kept [OF c m e]
    show ?thesis using r(2) r(3) [of q] r(4) [of q] by auto
  qed
  then show "length (gw_rewrite f k l4 proto new) = length f" "q < l4 \<Longrightarrow> byte (gw_rewrite f k l4 proto new) q = byte ?g q"
    "q + 2 \<le> l4 \<Longrightarrow> be16 (gw_rewrite f k l4 proto new) q = be16 ?g q" by blast+
qed

lemma gw_rewrite_valid:
  assumes p: "gw_parse f = Some (l4, proto)" and k: "k = 0 \<or> k = 2"
  shows "ip_valid f \<Longrightarrow> ip_valid (gw_rewrite f k l4 proto new)"
    "proto \<noteq> PROTO_ICMP \<Longrightarrow> l4_whole f \<Longrightarrow> l4_valid f \<Longrightarrow> l4_valid (gw_rewrite f k l4 proto new)"
proof -
  note d = gw_parseD [OF p] and low = gw_rewrite_low [OF p k, where new = new]
  let ?g = "ip_rewrite f (26 + 2 * k) new" and ?h = "gw_rewrite f k l4 proto new"
  have l34: "34 \<le> l4" using d(2,6) by (simp add: ETH_LEN_def)
  have lo: "byte ?h q = byte ?g q" if "q < 34" for q by (rule low(2)) (use that l34 in linarith)
  have len: "length ?h = length ?g" using low(1) by simp
  have ws: "words_sum ?h ETH_LEN (ihl_of f div 2) = words_sum ?g ETH_LEN (ihl_of f div 2)"
  proof (rule words_sum_cong, rule low(3))
    fix i
    assume "i < ihl_of f div 2"
    then show "ETH_LEN + 2 * i + 2 \<le> l4" unfolding d(2) using d(7) by auto
  qed
  show "ip_valid f \<Longrightarrow> ip_valid ?h" by (rule rewritten_valid(1) [OF d(1) k refl len _ _ ws]) (simp_all add: lo)
  assume np: "proto \<noteq> PROTO_ICMP" and w: "l4_whole f" and v: "l4_valid f"
  have c: "l4 + l4_csum_off proto + 2 \<le> length ?g" using d(4) [OF np] csum_off_bounds(2) [of proto] by (simp split: if_splits)
  have pb: "byte f (ETH_LEN + 9) = proto" using ipv4_headD(2) [OF d(1)] by simp
  have n: "(if proto = PROTO_UDP then 8 else 20) \<le> l4_len f" using w pb unfolding l4_whole_def by simp
  then have m: "l4_csum_off proto + 2 \<le> 2 * (l4_len f div 2)" by (auto simp: l4_csum_off_def split: if_splits)
  have e: "?h = fix_l4_ip ?g l4 proto (be32 f (26 + 2 * k)) new" using np by (simp add: gw_rewrite_def)
  note r = fix_l4_ip_kept [OF c m e]
  have kept: "l4_kept proto (ETH_LEN + ihl_of f) ?g ?h (be32 f (26 + 2 * k)) new (l4_len f div 2)" using r(1) d(2) by simp
  have tail: "byte ?h (ETH_LEN + ihl_of f + l4_len f - 1) = byte ?g (ETH_LEN + ihl_of f + l4_len f - 1)" if o: "odd (l4_len f)"
  proof (rule r(3))
    have "l4_csum_off proto + 2 \<le> l4_len f - 1" using n o by (cases "proto = PROTO_UDP") (auto simp: l4_csum_off_def elim: oddE)
    then have "l4 + l4_csum_off proto + 2 \<le> ETH_LEN + ihl_of f + l4_len f - 1" unfolding d(2) by linarith
    then show "ETH_LEN + ihl_of f + l4_len f - 1 < l4 + l4_csum_off proto \<or> l4 + l4_csum_off proto + 2 \<le> ETH_LEN + ihl_of f + l4_len f - 1" by blast
  qed
  have pr: "proto = PROTO_TCP \<or> proto = PROTO_UDP" using d(3) np by blast
  show "l4_valid ?h" by (rule rewritten_l4_valid [OF d(1) k refl len _ kept _ w pr v]) (simp_all add: lo tail del: One_nat_def)
qed

lemma gw_rewrite_addr:
  assumes p: "gw_parse f = Some (l4, proto)" and k: "k = 0 \<or> k = 2"
  shows "be32 (gw_rewrite f k l4 proto new) (26 + 2 * k) = new"
    "be32 (gw_rewrite f k l4 proto new) (26 + 2 * (2 - k)) = be32 f (26 + 2 * (2 - k))"
proof -
  note d = gw_parseD [OF p] and low = gw_rewrite_low [OF p k, where new = new]
  let ?g = "ip_rewrite f (26 + 2 * k) new" and ?h = "gw_rewrite f k l4 proto new"
  have l34: "34 \<le> l4" using d(2,6) by (simp add: ETH_LEN_def)
  have a: "26 \<le> 26 + 2 * k" "26 + 2 * k + 4 \<le> length f" using k d(5) by auto
  have h: "be32 ?h q = be32 ?g q" if "q + 4 \<le> 34" for q
    using be32_halves(3) [of q ?h] be32_halves(3) [of q ?g] low(1) low(3) [of q] low(3) [of "q + 2"] that l34 d(5) by simp
  have "be32 ?h (26 + 2 * k) = be32 ?g (26 + 2 * k)" by (rule h) (use k in auto)
  then show "be32 ?h (26 + 2 * k) = new" using ip_rewrite_same(3) [OF d(5) a] by simp
  let ?b = "26 + 2 * (2 - k)"
  have b: "?b + 4 \<le> length f" "?b + 4 \<le> length ?g" using k d(5) by auto
  have s: "be16 ?g q = be16 f q" if "q = ?b \<or> q = ?b + 2" for q
    by (rule ip_rewrite_same(2) [OF d(5) a]) (use that k in auto)
  have "be32 ?h ?b = be32 ?g ?b" by (rule h) (use k in auto)
  also have "\<dots> = be32 f ?b" using be32_halves(3) [OF b(1)] be32_halves(3) [OF b(2)] s by simp
  finally show "be32 ?h ?b = be32 f ?b" .
qed

lemma to_host_cases:
  assumes "to_host f hip = (True, f')"
  obtains l4 proto where "gw_parse f = Some (l4, proto)" "be32 f 30 = HOST_IP4" "f' = gw_rewrite f 2 l4 proto hip"
proof -
  obtain l4 proto where p: "gw_parse f = Some (l4, proto)" using assms unfolding to_host_def by (auto split: option.splits)
  have "be32 f 30 = HOST_IP4" "f' = gw_rewrite f 2 l4 proto hip"
    using assms p by (auto simp: to_host_def Let_def gw_rewrite_def ip_rewrite_def ETH_LEN_def split: if_splits)
  then show thesis by (rule that [OF p])
qed

lemma from_host_cases:
  assumes "from_host f hip = (True, f')"
  obtains l4 proto slot where "gw_parse f = Some (l4, proto)" "be32 f 26 = hip" "ip4_port (be32 f 30) = Some slot" "1 \<le> slot"
    "f' = put_mac (put_mac (gw_rewrite f 0 l4 proto HOST_IP4) 0 (port_mac slot)) 6 HOST_MAC"
proof -
  obtain l4 proto where p: "gw_parse f = Some (l4, proto)" using assms unfolding from_host_def by (auto split: option.splits)
  have h: "be32 f 26 = hip" using assms p by (auto simp: from_host_def ETH_LEN_def split: if_splits)
  obtain slot where s: "Option.bind (ip4_port (be32 f 30)) (\<lambda>s. if 1 \<le> s then Some s else None) = Some slot"
    using assms p by (auto simp: from_host_def ETH_LEN_def split: if_splits option.splits)
  have b: "ip4_port (be32 f 30) = Some slot" "1 \<le> slot" using s by (auto simp: bind_eq_Some_conv split: if_splits)
  have "f' = put_mac (put_mac (gw_rewrite f 0 l4 proto HOST_IP4) 0 (port_mac slot)) 6 HOST_MAC"
    using assms p h s by (cases "proto = PROTO_ICMP") (simp_all add: from_host_def Let_def gw_rewrite_def ip_rewrite_def ETH_LEN_def)
  then show thesis by (rule that [OF p h b])
qed

section \<open>Properties\<close>

text \<open>A UDP datagram of slot 3 to the gateway, with three bytes in it.\<close>

definition udp0 :: "u8 list" where
  "udp0 = [2, 0, 0, 0, 0, 0, 2, 0, 0, 0, 0, 3, 8, 0, 69, 0, 0, 31, 0, 0, 0, 0, 64, 17, 102, 2, 10, 100, 0, 4, 10, 100, 0, 1,
     19, 136, 0, 53, 0, 11, 18, 236, 97, 98, 99]"

lemma udp0_parse: "ipv4_l4 udp0 = Some \<lparr>l4off = 34, ip_proto = 17\<rparr>"
  unfolding udp0_def by code_simp

lemma udp0_whole: "l4_whole udp0"
  unfolding udp0_def by code_simp

lemma udp0_valid: "ip_valid udp0" "l4_valid udp0"
  unfolding udp0_def by code_simp+

text \<open>C26. Translation keeps a packet valid: for every datagram whose length covers its transport header, if the
  checksums of the IPv4 header and of the transport were right before, they are right after the source was
  rewritten, and after the destination was; a UDP datagram without a checksum stays without one.\<close>

theorem nat_keeps_checksums:
  assumes "ipv4_l4 f = Some ip" "l4_whole f" "ip_valid f" "l4_valid f"
  shows "ip_valid (snat_src u f (l4off ip) (ip_proto ip) (be32 f (ETH_LEN + 12)) (be16 f (l4off ip)) np) \<and>
    l4_valid (snat_src u f (l4off ip) (ip_proto ip) (be32 f (ETH_LEN + 12)) (be16 f (l4off ip)) np) \<and>
    ip_valid (snd (dnat_to_slot io slot f (l4off ip) (ip_proto ip) (be32 f (ETH_LEN + 16)) new (be16 f (l4off ip + 2)) np)) \<and>
    l4_valid (snd (dnat_to_slot io slot f (l4off ip) (ip_proto ip) (be32 f (ETH_LEN + 16)) new (be16 f (l4off ip + 2)) np))"
proof -
  note a = nat_rewrite_valid [OF assms(1) disjI1 [OF refl] disjI1 [OF refl] assms(2) refl, of "up_ip u" np]
  note b = nat_rewrite_valid [OF assms(1) disjI2 [OF refl] disjI2 [OF refl] assms(2) refl, of new np]
  show ?thesis
    using a [simplified] b [simplified] assms(3,4) unfolding snat_nat_rewrite dnat_nat_rewrite
    by (simp add: ETH_LEN_def put_mac_valid mac_lengths)
qed

theorem nat_keeps_checksums_witness:
  "l4_valid (snat_src up0 udp0 34 17 (be32 udp0 26) (be16 udp0 34) 20000)"
  using nat_keeps_checksums [OF udp0_parse udp0_whole udp0_valid, of up0 20000] by (simp add: ETH_LEN_def)

text \<open>C27. The gateway translation carries valid packets both ways: a frame for 10.100.0.1 that is taken reaches the
  stack with the node's address as its destination, a frame of the stack that is taken reaches the internal
  net with 10.100.0.1 as its source, and the checksums of both stay right.\<close>

theorem gateway_keeps_checksums:
  assumes "ip_valid f"
  shows "(to_host f hip = (True, g) \<longrightarrow> be32 f (ETH_LEN + 16) = HOST_IP4 \<and> be32 g (ETH_LEN + 16) = hip \<and>
      be32 g (ETH_LEN + 12) = be32 f (ETH_LEN + 12) \<and> ip_valid g \<and>
      (byte f (ETH_LEN + 9) \<noteq> PROTO_ICMP \<and> l4_whole f \<and> l4_valid f \<longrightarrow> l4_valid g)) \<and>
    (from_host f hip = (True, g) \<longrightarrow> be32 f (ETH_LEN + 12) = hip \<and> be32 g (ETH_LEN + 12) = HOST_IP4 \<and>
      be32 g (ETH_LEN + 16) = be32 f (ETH_LEN + 16) \<and> ip_valid g \<and>
      (byte f (ETH_LEN + 9) \<noteq> PROTO_ICMP \<and> l4_whole f \<and> l4_valid f \<longrightarrow> l4_valid g))"
proof (intro conjI impI)
  assume t: "to_host f hip = (True, g)"
  obtain l4 proto where p: "gw_parse f = Some (l4, proto)" "be32 f 30 = HOST_IP4" "g = gw_rewrite f 2 l4 proto hip" by (rule to_host_cases [OF t])
  have pr: "byte f (ETH_LEN + 9) = proto" using ipv4_headD(2) [OF gw_parseD(1) [OF p(1)]] by simp
  note a = gw_rewrite_addr [OF p(1) disjI2 [OF refl], of hip] and v = gw_rewrite_valid [OF p(1) disjI2 [OF refl], of hip]
  show "be32 f (ETH_LEN + 16) = HOST_IP4" "be32 g (ETH_LEN + 16) = hip" "be32 g (ETH_LEN + 12) = be32 f (ETH_LEN + 12)"
    using p a by (simp_all add: ETH_LEN_def)
  show "ip_valid g" using v(1) assms p(3) by simp
  assume "byte f (ETH_LEN + 9) \<noteq> PROTO_ICMP \<and> l4_whole f \<and> l4_valid f"
  then show "l4_valid g" using v(2) p(3) pr by simp
next
  assume t: "from_host f hip = (True, g)"
  obtain l4 proto slot where p: "gw_parse f = Some (l4, proto)" "be32 f 26 = hip" "ip4_port (be32 f 30) = Some slot" "1 \<le> slot"
    "g = put_mac (put_mac (gw_rewrite f 0 l4 proto HOST_IP4) 0 (port_mac slot)) 6 HOST_MAC" by (rule from_host_cases [OF t])
  have pr: "byte f (ETH_LEN + 9) = proto" using ipv4_headD(2) [OF gw_parseD(1) [OF p(1)]] by simp
  note a = gw_rewrite_addr [OF p(1) disjI1 [OF refl], of HOST_IP4] and v = gw_rewrite_valid [OF p(1) disjI1 [OF refl], of HOST_IP4]
  show "be32 f (ETH_LEN + 12) = hip" "be32 g (ETH_LEN + 12) = HOST_IP4" "be32 g (ETH_LEN + 16) = be32 f (ETH_LEN + 16)"
    using p(2) a unfolding p(5) by (simp_all add: ETH_LEN_def put_mac_be32 mac_lengths)
  show "ip_valid g" using v(1) assms unfolding p(5) by (simp add: put_mac_valid mac_lengths)
  assume "byte f (ETH_LEN + 9) \<noteq> PROTO_ICMP \<and> l4_whole f \<and> l4_valid f"
  then show "l4_valid g" using v(2) pr unfolding p(5) by (simp add: put_mac_valid mac_lengths)
qed

theorem gateway_keeps_checksums_witness:
  "\<exists>g. to_host udp0 0xC0A80002 = (True, g) \<and> ip_valid g \<and> be32 g (ETH_LEN + 16) = 0xC0A80002"
proof -
  have "fst (to_host udp0 0xC0A80002)" unfolding udp0_def by code_simp
  then obtain g where g: "to_host udp0 0xC0A80002 = (True, g)" by (metis prod.collapse)
  then show ?thesis using gateway_keeps_checksums [OF udp0_valid(1), of "0xC0A80002" g] by blast
qed

text \<open>The address plan is one to one: the port behind the address and behind the hardware address of every slot
  is that slot, so a frame's addresses name its sender.\<close>

theorem plan_roundtrip:
  assumes "i \<le> SLOT_MAX"
  shows "ip4_port (port_ip4 i) = Some i \<and> mac_port (port_mac i) = Some i \<and> is_internal (port_ip4 i)"
proof -
  have i: "i < 65534" using assms by (simp add: SLOT_MAX_def)
  have m: "i AND 0xffff = i"
  proof -
    have "i AND mask 16 = i mod 2 ^ 16" by (simp add: take_bit_eq_mask [symmetric] take_bit_eq_mod)
    then show ?thesis using i by (simp add: mask_eq_exp_minus_1)
  qed
  have h: "HOST_IP4 = word_of_nat (2660 * 2 ^ 16 + 1)" unfolding HOST_IP4_def by code_simp
  have e: "port_ip4 i = word_of_nat (2660 * 2 ^ 16 + (i + 1))" unfolding port_ip4_def m h by simp
  have u: "unat (port_ip4 i) = 2660 * 2 ^ 16 + (i + 1)" unfolding e unat_of_nat using i by simp
  have hu: "unat HOST_IP4 = 2660 * 2 ^ 16 + 1" unfolding h unat_of_nat by simp
  have d: "unat (drop_bit 16 (port_ip4 i)) = 2660" "unat (drop_bit 16 HOST_IP4) = 2660"
    unfolding unat_drop_bit_eq u hu using i by (simp_all add: drop_bit_eq_div)
  have dd: "drop_bit 16 (port_ip4 i) = drop_bit 16 HOST_IP4" using d by (simp add: word_unat_eq_iff)
  have "unat (port_ip4 i AND mask 16) = i + 1" unfolding unat_and_mask u mod_mult_self3 using i by (intro mod_less) simp
  then have lo: "unat (port_ip4 i AND 0xffff) = i + 1" by (simp add: mask_eq_exp_minus_1)
  have a: "ip4_port (port_ip4 i) = Some i" using dd lo i by (simp add: ip4_port_def NET_PREFIX_def Let_def)
  have b: "is_internal (port_ip4 i)" using dd by (simp add: is_internal_def NET_PREFIX_def)
  have t: "unat (word_of_nat k :: u8) = take_bit 8 k" for k unfolding unat_of_nat by (simp add: take_bit_eq_mod)
  have "push_bit 8 (take_bit 8 (drop_bit 8 i)) OR take_bit 8 i = take_bit 16 i"
    by (rule bit_eqI) (auto simp: bit_simps)
  also have "\<dots> = i" using i by (simp add: take_bit_nat_eq_self)
  finally have "mac_port (port_mac i) = Some i" by (simp add: mac_port_def port_mac_def t)
  then show ?thesis using a b by blast
qed

theorem plan_roundtrip_witness: "ip4_port (port_ip4 3) = Some 3 \<and> mac_port (port_mac 3) = Some 3"
  using plan_roundtrip [of 3] by (simp add: SLOT_MAX_def)

end
