(* ===== verification/BoardPlan.thy ===== *)
theory BoardPlan
  imports Abi "HOL-Library.Multiset"
begin

unbundle bit_operations_syntax

text \<open>
  The physical memory plan of a board (\<^verbatim>\<open>abi/src/layout/plan.rs\<close>): how the pool of free memory is made from
  the banks and the holes that the firmware reports, and the check that turns the description of a board into
  a plan.  The kernel reads its addresses only from a plan.  A \<open>Pool\<close> is a \<open>BoundedVec\<close> of \<open>POOL_MAX\<close>
  regions, here the list with that capacity of \<open>Bounded\<close>.

  The order in which \<^verbatim>\<open>sort_unstable_by_key\<close> leaves equal keys is open: the sort is the parameter \<open>srt\<close>, and
  \<open>unstable_sort\<close> is what the standard library says of it.
\<close>

section \<open>Sizes and offsets\<close>

definition POOL_MAX :: nat where "POOL_MAX = 64"
definition PLAN_GRAIN :: u64 where "PLAN_GRAIN = push_bit 20 2"

definition HOP_RAM_START :: u64 where "HOP_RAM_START = 0x40000000"
definition USB_DMA_SIZE :: u64 where "USB_DMA_SIZE = 0x200000"
definition CTRL_STRIDE :: u64 where "CTRL_STRIDE = 0x1000"
definition FACTS_OFF :: u64 where "FACTS_OFF = 0x80"
definition BOOT_SCRATCH_LEN :: u64 where "BOOT_SCRATCH_LEN = FACTS_OFF + 16"
definition CAGE_STRIDE :: u64 where "CAGE_STRIDE = 0x10000"
definition PARK_CODE_OFF :: u64 where "PARK_CODE_OFF = 0x1000"
definition PARK_MBOX_OFF :: u64 where "PARK_MBOX_OFF = 0x1100"
definition PARK_MBOX_LEN :: u64 where "PARK_MBOX_LEN = 256"
definition SWITCH_CODE_OFF :: u64 where "SWITCH_CODE_OFF = 0xA000"
definition SWITCH_CODE_MAX :: u64 where "SWITCH_CODE_MAX = CAGE_STRIDE - SWITCH_CODE_OFF"
definition CORES_MAX :: nat where "CORES_MAX = unat ((SWITCH_CODE_OFF - PARK_MBOX_OFF) div PARK_MBOX_LEN)"
definition CORE_CTX_OFF :: u64 where "CORE_CTX_OFF = CAGE_STRIDE"
definition CTX_LEN :: u64 where "CTX_LEN = 1024"

lemmas plan_consts = POOL_MAX_def HOP_RAM_START_def USB_DMA_SIZE_def CTRL_STRIDE_def FACTS_OFF_def
  BOOT_SCRATCH_LEN_def CAGE_STRIDE_def PARK_CODE_OFF_def PARK_MBOX_OFF_def PARK_MBOX_LEN_def
  SWITCH_CODE_OFF_def SWITCH_CODE_MAX_def CORE_CTX_OFF_def CTX_LEN_def

lemma CORES_MAX_eq: "CORES_MAX = 143"
  by (simp add: CORES_MAX_def plan_consts)

text \<open>\<^verbatim>\<open>n.next_multiple_of(m)\<close>.  Both lengths are taken of a clamped number of cores only, far below \<open>2^64\<close>.\<close>

definition next_multiple_of :: "nat \<Rightarrow> nat \<Rightarrow> nat" where
  "next_multiple_of n m = (if n mod m = 0 then n else n + (m - n mod m))"

definition cage_len :: "nat \<Rightarrow> u64" where
  "cage_len app_cores = CORE_CTX_OFF + of_nat (next_multiple_of ((app_cores + 1) * unat CTX_LEN) (unat CAGE_STRIDE))"

definition node_ctrl_len :: "nat \<Rightarrow> u64" where
  "node_ctrl_len app_cores = of_nat ((app_cores + 1) * unat CTRL_STRIDE)"

text \<open>A logical core number of the layout; \<open>LCore_new\<close> bounds it.\<close>

definition LCore_new :: "nat \<Rightarrow> nat option" where
  "LCore_new i = (if i \<ge> CORES_MAX then None else Some i)"

section \<open>Loops that stop at an error\<close>

fun rfold :: "('a \<Rightarrow> 'b \<Rightarrow> 'e + 'a) \<Rightarrow> 'a \<Rightarrow> 'b list \<Rightarrow> 'e + 'a" where
  "rfold f a [] = Inr a"
| "rfold f a (x # xs) = rbind (f a x) (\<lambda>a'. rfold f a' xs)"

text \<open>\<^verbatim>\<open>xs[i]\<close> and \<^verbatim>\<open>xs[i] = x\<close>: out of range is a panic.\<close>

definition slice_at :: "'a list \<Rightarrow> nat \<Rightarrow> 'e fail + 'a" where
  "slice_at xs i = ok_or (list_get xs i) Panic"

definition slice_put :: "'a list \<Rightarrow> nat \<Rightarrow> 'a \<Rightarrow> 'e fail + 'a list" where
  "slice_put xs i x = (if i < length xs then Inr (xs[i := x]) else Inl Panic)"

section \<open>The pool\<close>

definition check_region :: "Region \<Rightarrow> AbiError fail + unit" where
  "check_region r =
     (case Region_end r of
        Some _ \<Rightarrow> Inr ()
      | None \<Rightarrow> Inl (Err (RegionOverflow (base r) (rsize r))))"

definition pool_push :: "Region list \<Rightarrow> Region \<Rightarrow> AbiError fail + Region list" where
  "pool_push out r =
     (case blist_push POOL_MAX out r of
        Inl _ \<Rightarrow> Inl (Err (TooMany ''pool regions'' POOL_MAX))
      | Inr out' \<Rightarrow> Inr out')"

definition pool_of :: "Region list \<Rightarrow> AbiError fail + Region list" where
  "pool_of regions = rfold pool_push [] regions"

definition unstable_sort :: "(Region list \<Rightarrow> Region list) \<Rightarrow> bool" where
  "unstable_sort srt \<longleftrightarrow> (\<forall>xs. mset (srt xs) = mset xs \<and> sorted (map base (srt xs)))"

text \<open>One region against the last one kept: \<open>Some\<close> when it melts into it.\<close>

definition melt :: "Region list \<Rightarrow> nat \<Rightarrow> Region \<Rightarrow> AbiError fail + Region list option" where
  "melt regs n r =
     (if n > 0 then
        rbind (slice_at regs (n - 1)) (\<lambda>last.
        rbind (add64 (base last) (rsize last)) (\<lambda>last_end.
          if base r \<le> last_end then
            rbind (add64 (base r) (rsize r)) (\<lambda>r_top.
              if r_top > last_end
              then rbind (sub64 r_top (base last)) (\<lambda>s.
                     rbind (slice_put regs (n - 1) (last\<lparr>rsize := s\<rparr>)) (\<lambda>regs'. Inr (Some regs')))
              else Inr (Some regs))
          else Inr None))
      else Inr None)"

text \<open>The loop of \<^verbatim>\<open>coalesce\<close> over the indices, in place: the first \<open>n\<close> cells are the result so far.\<close>

fun coalesce_from :: "Region list \<Rightarrow> nat list \<Rightarrow> nat \<Rightarrow> AbiError fail + Region list \<times> nat" where
  "coalesce_from regs [] n = Inr (regs, n)"
| "coalesce_from regs (i # is) n =
     rbind (slice_at regs i) (\<lambda>r.
       if rsize r = 0 then coalesce_from regs is n
       else rbind (melt regs n r) (\<lambda>m.
         case m of
           Some regs' \<Rightarrow> coalesce_from regs' is n
         | None \<Rightarrow> rbind (slice_put regs n r) (\<lambda>regs'. coalesce_from regs' is (n + 1))))"

definition coalesce :: "(Region list \<Rightarrow> Region list) \<Rightarrow> Region list \<Rightarrow> AbiError fail + Region list \<times> nat" where
  "coalesce srt regs =
     rbind (rfold (\<lambda>_ r. check_region r) () regs) (\<lambda>_. coalesce_from (srt regs) [0..<length regs] 0)"

text \<open>What is left of one region without the hole from \<open>b\<close> to \<open>e\<close>; \<^verbatim>\<open>exclude_from_pool\<close> has the same loop.\<close>

definition cut_hole :: "u64 \<Rightarrow> u64 \<Rightarrow> Region list \<Rightarrow> Region \<Rightarrow> AbiError fail + Region list" where
  "cut_hole b e out r =
     rbind (add64 (base r) (rsize r)) (\<lambda>r_end.
       if e \<le> base r \<or> b \<ge> r_end then pool_push out r
       else
         rbind (if b > base r then pool_push out (Region_new (base r) (b - base r)) else Inr out) (\<lambda>out.
           if e < r_end then pool_push out (Region_new e (r_end - e)) else Inr out))"

definition carve_hole :: "Region list \<Rightarrow> Region \<Rightarrow> AbiError fail + Region list" where
  "carve_hole regs h =
     rbind (check_region h) (\<lambda>_.
       if rsize h = 0 then Inr regs
       else rbind (add64 (base h) (rsize h)) (\<lambda>h_end. rfold (cut_hole (base h) h_end) [] regs))"

definition align_piece :: "u64 \<Rightarrow> Region list \<Rightarrow> Region \<Rightarrow> AbiError fail + Region list" where
  "align_piece mn out r =
     (let pad = (- base r) AND (PLAN_GRAIN - 1) in
      if pad \<ge> rsize r then Inr out
      else
        rbind (add64 (base r) pad) (\<lambda>b.
        rbind (add64 (base r) (rsize r)) (\<lambda>t.
          let r_top = t AND NOT (PLAN_GRAIN - 1) in
          if r_top > b \<and> r_top - b \<ge> mn then pool_push out (Region_new b (r_top - b)) else Inr out)))"

definition carve_pool ::
    "(Region list \<Rightarrow> Region list) \<Rightarrow> Region list \<Rightarrow> Region list \<Rightarrow> u64 \<Rightarrow> AbiError fail + Region list" where
  "carve_pool srt banks holes mn =
     rbind (rfold pool_push [] banks) (\<lambda>regs.
     rbind (coalesce srt regs) (\<lambda>(regs, n).
     rbind (rfold carve_hole (take n regs) holes) (\<lambda>regs.
       rfold (align_piece mn) [] regs)))"

section \<open>The plan\<close>

record PlanSpec =
  sp_node_ctrl_pa :: u64
  sp_cage_pa :: u64
  sp_device_window :: Region
  sp_black_box :: Region
  sp_trap_vec_pa :: u64
  sp_boot_scratch_pa :: u64
  sp_net_dma_pa :: u64
  sp_usb_dma_pa :: u64
  sp_pool :: "Region list"
  sp_kernel :: Region
  sp_ram_base :: u64
  sp_app_cores :: nat
  sp_os_core :: nat

datatype Plan = Plan (plan_spec: PlanSpec)

definition aligned_to :: "string \<Rightarrow> u64 \<Rightarrow> u64 \<Rightarrow> AbiError fail + unit" where
  "aligned_to what v align = reject_if (v mod align \<noteq> 0) (Err (Misaligned what v align))"

definition required :: "string \<Rightarrow> u64 \<Rightarrow> u64 \<Rightarrow> AbiError fail + unit" where
  "required what v align = (if v = 0 then Inl (Err (Missing what)) else aligned_to what v align)"

definition clamp_cores :: "nat \<Rightarrow> nat" where
  "clamp_cores n = (if n = 0 then 3 else min n (CORES_MAX - 1))"

definition cage_region :: "PlanSpec \<Rightarrow> Region" where
  "cage_region s = Region_new (sp_cage_pa s) (cage_len (sp_app_cores s))"

text \<open>The regions that \<^verbatim>\<open>Plan::new\<close> reserves, of a specification with its cores clamped.\<close>

definition reserved_regions :: "PlanSpec \<Rightarrow> Region list" where
  "reserved_regions s =
     [Region_new (sp_node_ctrl_pa s) (node_ctrl_len (sp_app_cores s)), cage_region s,
      Region_new (sp_boot_scratch_pa s) BOOT_SCRATCH_LEN] @
     filter (\<lambda>r. base r \<noteq> 0)
       [Region_new (sp_trap_vec_pa s) 0x800, sp_black_box s, Region_new (sp_usb_dma_pa s) USB_DMA_SIZE,
        Region_new (sp_net_dma_pa s) 1]"

definition reserve_region :: "Region list \<Rightarrow> Region \<Rightarrow> AbiError fail + Region list" where
  "reserve_region reserved r =
     rbind (check_region r) (\<lambda>_.
       case blist_push 8 reserved r of
         Inl _ \<Rightarrow> Inl (Err (TooMany ''reserved regions'' 8))
       | Inr reserved' \<Rightarrow> Inr reserved')"

definition see_region :: "Region list \<Rightarrow> Region list \<Rightarrow> Region \<Rightarrow> AbiError fail + Region list" where
  "see_region reserved seen r =
     rbind (check_region r) (\<lambda>_.
     rbind (reject_if (rsize r = 0) (Err (Misaligned ''empty pool region'' (base r) PLAN_GRAIN))) (\<lambda>_.
     rbind (aligned_to ''pool region base'' (base r) PLAN_GRAIN) (\<lambda>_.
     rbind (aligned_to ''pool region size'' (rsize r) PLAN_GRAIN) (\<lambda>_.
       case find (Region_overlaps r) (seen @ reserved) of
         Some q \<Rightarrow> Inl (Err (Overlap r q))
       | None \<Rightarrow>
           (case blist_push (POOL_MAX + 1) seen r of
              Inl _ \<Rightarrow> Inl (Err (TooMany ''pool regions'' POOL_MAX))
            | Inr seen' \<Rightarrow> Inr seen')))))"

definition kernel_list :: "PlanSpec \<Rightarrow> Region list" where
  "kernel_list s = (if rsize (sp_kernel s) \<noteq> 0 then [sp_kernel s] else [])"

definition window_holds_cage :: "PlanSpec \<Rightarrow> bool" where
  "window_holds_cage s \<longleftrightarrow>
     (let w = sp_device_window s; cage = cage_region s in
      rsize w = 0 \<or> \<not> (base cage < base w \<or> saturating_add (base cage) (rsize cage) > saturating_add (base w) (rsize w)))"

definition Plan_new :: "PlanSpec \<Rightarrow> AbiError fail + Plan" where
  "Plan_new spec =
     rbind (required ''node_ctrl_pa'' (sp_node_ctrl_pa spec) 0x1000) (\<lambda>_.
     rbind (required ''boot_scratch_pa'' (sp_boot_scratch_pa spec) 8) (\<lambda>_.
     rbind (reject_if (sp_pool spec = []) (Err EmptyPool)) (\<lambda>_.
     rbind (required ''cage_pa'' (sp_cage_pa spec) 0x800) (\<lambda>_.
     rbind (aligned_to ''trap_vec_pa'' (sp_trap_vec_pa spec) 0x800) (\<lambda>_.
       let s = spec\<lparr>sp_app_cores := clamp_cores (sp_app_cores spec)\<rparr> in
     rbind (reject_if (sp_os_core s > sp_app_cores s) (Err (OutOfPlan (sp_os_core s) (sp_app_cores s)))) (\<lambda>_.
     rbind (reject_if (\<not> window_holds_cage s) (Err (Overlap (cage_region s) (sp_device_window s)))) (\<lambda>_.
     rbind (rfold reserve_region [] (reserved_regions s)) (\<lambda>reserved.
     rbind (rfold (see_region reserved) [] (sp_pool s @ kernel_list s)) (\<lambda>_.
       Inr (Plan s))))))))))"

section \<open>What the kernel reads from a plan\<close>

definition Plan_app_cores :: "Plan \<Rightarrow> nat" where
  "Plan_app_cores p = sp_app_cores (plan_spec p)"

definition Plan_os_core :: "Plan \<Rightarrow> nat" where
  "Plan_os_core p = sp_os_core (plan_spec p)"

definition phys_core :: "Plan \<Rightarrow> nat \<Rightarrow> nat" where
  "phys_core p core =
     (if core = 0 then sp_os_core (plan_spec p)
      else if core \<le> sp_os_core (plan_spec p) then core - 1 else core)"

definition logical_core :: "Plan \<Rightarrow> nat \<Rightarrow> nat option" where
  "logical_core p phys =
     (let os = sp_os_core (plan_spec p);
          i = (if phys = os then 0 else if phys < os then phys + 1 else phys) in
      if i > sp_app_cores (plan_spec p) then None else LCore_new i)"

definition within :: "Plan \<Rightarrow> nat \<Rightarrow> AbiError fail + unit" where
  "within p i = reject_if (i > sp_app_cores (plan_spec p)) (Err (OutOfPlan i (sp_app_cores (plan_spec p))))"

text \<open>A core number is below \<open>CORES_MAX\<close>, so its product with a block length does not overflow.\<close>

definition node_ctrl_pa :: "Plan \<Rightarrow> nat \<Rightarrow> AbiError fail + u64" where
  "node_ctrl_pa p core =
     rbind (within p core) (\<lambda>_. add64 (sp_node_ctrl_pa (plan_spec p)) (of_nat core * CTRL_STRIDE))"

definition black_box :: "Plan \<Rightarrow> Region option" where
  "black_box p = (let b = sp_black_box (plan_spec p) in if base b \<noteq> 0 \<and> rsize b \<noteq> 0 then Some b else None)"

definition trap_vec_pa :: "Plan \<Rightarrow> u64 option" where
  "trap_vec_pa p = (if sp_trap_vec_pa (plan_spec p) \<noteq> 0 then Some (sp_trap_vec_pa (plan_spec p)) else None)"

definition net_dma_pa :: "Plan \<Rightarrow> u64 option" where
  "net_dma_pa p = (if sp_net_dma_pa (plan_spec p) \<noteq> 0 then Some (sp_net_dma_pa (plan_spec p)) else None)"

definition usb_dma_pa :: "Plan \<Rightarrow> u64 option" where
  "usb_dma_pa p = (if sp_usb_dma_pa (plan_spec p) \<noteq> 0 then Some (sp_usb_dma_pa (plan_spec p)) else None)"

definition vec_base_pa :: "Plan \<Rightarrow> u64" where
  "vec_base_pa p = sp_cage_pa (plan_spec p)"

definition smp_ctx_pa :: "Plan \<Rightarrow> nat \<Rightarrow> AbiError fail + u64" where
  "smp_ctx_pa p core =
     rbind (within p core) (\<lambda>_.
     rbind (reject_if (core < 2) (Err (OutOfPlan core (sp_app_cores (plan_spec p))))) (\<lambda>_.
     rbind (add64 (sp_cage_pa (plan_spec p)) CORE_CTX_OFF) (\<lambda>a. add64 a (of_nat core * CTX_LEN))))"

definition park_code_pa :: "Plan \<Rightarrow> AbiError fail + u64" where
  "park_code_pa p = add64 (sp_cage_pa (plan_spec p)) PARK_CODE_OFF"

definition park_mbox_pa :: "Plan \<Rightarrow> nat \<Rightarrow> AbiError fail + u64" where
  "park_mbox_pa p core =
     rbind (within p core) (\<lambda>_.
     rbind (add64 (sp_cage_pa (plan_spec p)) PARK_MBOX_OFF) (\<lambda>a. add64 a (of_nat core * PARK_MBOX_LEN)))"

definition switch_code_pa :: "Plan \<Rightarrow> AbiError fail + u64" where
  "switch_code_pa p = add64 (sp_cage_pa (plan_spec p)) SWITCH_CODE_OFF"

definition Plan_pool :: "Plan \<Rightarrow> Region list" where
  "Plan_pool p = sp_pool (plan_spec p)"

definition Plan_kernel :: "Plan \<Rightarrow> Region option" where
  "Plan_kernel p = (if rsize (sp_kernel (plan_spec p)) \<noteq> 0 then Some (sp_kernel (plan_spec p)) else None)"

definition ram_base :: "Plan \<Rightarrow> u64" where
  "ram_base p = (if sp_ram_base (plan_spec p) \<noteq> 0 then sp_ram_base (plan_spec p) else HOP_RAM_START)"

definition top_addr :: "Plan \<Rightarrow> AbiError fail + u64" where
  "top_addr p =
     (let s = plan_spec p in
      rbind (add64 (sp_node_ctrl_pa s) (node_ctrl_len (sp_app_cores s))) (\<lambda>top.
      rbind (add64 (sp_cage_pa s) (cage_len (sp_app_cores s))) (\<lambda>c.
        rfold (\<lambda>top r. rbind (add64 (base r) (rsize r)) (\<lambda>t. Inr (max top t))) (max top c) (sp_pool s))))"

definition required_ram :: "Plan \<Rightarrow> AbiError fail + u64" where
  "required_ram p = rbind (top_addr p) (\<lambda>t. Inr (if ram_base p \<le> t then t - ram_base p else 0))"

text \<open>On an error the plan keeps its pool.\<close>

definition exclude_from_pool :: "Plan \<Rightarrow> u64 \<Rightarrow> u64 \<Rightarrow> AbiError fail + Plan" where
  "exclude_from_pool p b n =
     (if n = 0 then Inr p
      else
        rbind (check_region (Region_new b n)) (\<lambda>_.
        rbind (add64 b n) (\<lambda>r_top.
        rbind (rfold (cut_hole b r_top) [] (sp_pool (plan_spec p))) (\<lambda>out.
          Inr (Plan ((plan_spec p)\<lparr>sp_pool := out\<rparr>))))))"

end
