(* ===== verification/PlanPool.thy ===== *)
theory PlanPool
  imports BoardPlan PartReach
begin

unbundle bit_operations_syntax

text \<open>
  The pool of a plan: \<^verbatim>\<open>coalesce\<close> keeps the bytes and leaves regions with a gap between them, cutting a hole
  takes exactly its bytes away, and the aligned result is the largest one.  Regions with gaps (\<open>spans\<close>)
  matter because an interval inside their bytes then lies inside one of them.
\<close>

section \<open>Regions with gaps\<close>

definition span_ok :: "Region \<Rightarrow> bool" where
  "span_ok r \<longleftrightarrow> 0 < unat (rsize r) \<and> rhi r < 2 ^ 64"

definition spans :: "Region list \<Rightarrow> bool" where
  "spans rs \<longleftrightarrow> sorted_wrt (\<lambda>a b. rhi a < rlo b) rs \<and> (\<forall>r \<in> set rs. span_ok r)"

lemma spans_Nil [simp]: "spans []"
  by (simp add: spans_def)

lemma spans_Cons: "spans (r # rs) \<longleftrightarrow> span_ok r \<and> (\<forall>x \<in> set rs. rhi r < rlo x) \<and> spans rs"
  by (auto simp: spans_def)

lemma spans_append:
  "spans (xs @ ys) \<longleftrightarrow> spans xs \<and> spans ys \<and> (\<forall>x \<in> set xs. \<forall>y \<in> set ys. rhi x < rlo y)"
  by (auto simp: spans_def sorted_wrt_append)

lemma interval_in_one:
  assumes "spans rs" "a < b" "{a..<b} \<subseteq> bytes rs"
  shows "\<exists>r \<in> set rs. rlo r \<le> a \<and> b \<le> rhi r"
  using assms
proof (induction rs)
  case Nil
  then show ?case by simp
next
  case (Cons r rs)
  have later: "rhi r < x" if "x \<in> bytes rs" for x
    using that Cons.prems(1) by (fastforce simp: bytes_def region_bytes_def spans_Cons)
  show ?case
  proof (cases "{a..<b} \<inter> region_bytes r = {}")
    case True
    then have "{a..<b} \<subseteq> bytes rs" using Cons.prems(3) by auto
    then show ?thesis using Cons.IH Cons.prems(1,2) by (auto simp: spans_Cons)
  next
    case False
    then obtain x where "x \<in> {a..<b} \<inter> region_bytes r" by blast
    then have x: "a \<le> x" "x < b" "rlo r \<le> x" "x < rhi r" by (simp_all add: region_bytes_def)
    have "a \<in> region_bytes r \<union> bytes rs" using Cons.prems(2,3) by auto
    then have lo: "rlo r \<le> a" using later [of a] x by (auto simp: region_bytes_def)
    have "b \<le> rhi r"
    proof (rule ccontr)
      assume "\<not> b \<le> rhi r"
      then have "rhi r \<in> {a..<b}" using x by auto
      then have "rhi r \<in> region_bytes r \<union> bytes rs" using Cons.prems(3) by auto
      then show False using later by (auto simp: region_bytes_def)
    qed
    then show ?thesis using lo by auto
  qed
qed

lemma span_add64: "span_ok r \<Longrightarrow> \<exists>t. (add64 (base r) (rsize r) :: 'e fail + u64) = Inr t \<and> unat t = rhi r"
  by (rule exI [of _ "base r + rsize r"]) (simp add: span_ok_def add64_def unat_word_ariths)

lemma check_region_iff: "check_region r = Inr u \<longleftrightarrow> rhi r < 2 ^ 64"
  by (auto simp: check_region_def Region_end_def checked_add_def split: option.splits)

lemma check_region_cases: "check_region r = (if rhi r < 2 ^ 64 then Inr () else Inl (Err (RegionOverflow (base r) (rsize r))))"
  by (simp add: check_region_def Region_end_def checked_add_def)

section \<open>Loops\<close>

lemma rbind_Inr [simp]: "rbind r Inr = r"
  by (cases r) simp_all

lemma rfold_append: "rfold f a (xs @ ys) = rbind (rfold f a xs) (\<lambda>b. rfold f b ys)"
  by (induction xs arbitrary: a) (simp_all add: rbind_assoc)

lemma rfold_concat:
  assumes "\<And>a x. x \<in> set xs \<Longrightarrow> f a x = rfold g a (h x)"
  shows "rfold f a xs = rfold g a (concat (map h xs))"
  using assms by (induction xs arbitrary: a) (simp_all add: rfold_append)

lemma rfold_check: "rfold (\<lambda>_ r. check_region r) u rs = Inr v \<longleftrightarrow> (\<forall>r \<in> set rs. rhi r < 2 ^ 64)"
  by (induction rs arbitrary: u) (auto simp: res_simps check_region_iff)

lemma rfold_check_no_panic: "rfold (\<lambda>_ r. check_region r) u rs \<noteq> Inl Panic"
  by (induction rs arbitrary: u) (auto simp: res_simps check_region_cases)

abbreviation pool_full :: "AbiError fail" where
  "pool_full \<equiv> Err (TooMany ''pool regions'' POOL_MAX)"

lemma pool_push_all:
  assumes "length out \<le> POOL_MAX"
  shows "rfold pool_push out xs = (if length out + length xs \<le> POOL_MAX then Inr (out @ xs) else Inl pool_full)"
  using assms by (induction xs arbitrary: out) (auto simp: pool_push_def blist_push_def)

section \<open>Coalescing\<close>

lemma take_put: "n < length xs \<Longrightarrow> take (Suc n) (xs[n := x]) = take n xs @ [x]"
  by (simp add: take_Suc_conv_app_nth)

lemma take_last: "0 < n \<Longrightarrow> n \<le> length xs \<Longrightarrow> take n xs = take (n - 1) xs @ [xs ! (n - 1)]"
  using take_Suc_conv_app_nth [of "n - 1" xs] by simp

text \<open>One round: the region at hand joins the kept ones.\<close>

lemma melt_ok:
  assumes n: "n < length regs" and sp: "spans (take n regs)" and y: "span_ok y"
    and le: "\<forall>x \<in> set (take n regs). rlo x \<le> rlo y"
  obtains (melted) regs' where "melt regs n y = Inr (Some regs')" "length regs' = length regs"
      "drop n regs' = drop n regs" "spans (take n regs')" "bytes (take n regs') = bytes (take n regs) \<union> region_bytes y"
      "\<forall>z. rlo y \<le> z \<longrightarrow> (\<forall>x \<in> set (take n regs'). rlo x \<le> z)"
  | (kept) "melt regs n y = Inr None" "spans (take n regs @ [y])"
proof (cases "n = 0")
  case True
  show thesis by (rule kept) (use True y in \<open>simp_all add: melt_def spans_Cons\<close>)
next
  case False
  define l where "l = regs ! (n - 1)"
  have tk: "take n regs = take (n - 1) regs @ [l]" unfolding l_def using False n by (intro take_last) simp_all
  have l: "span_ok l" "\<forall>x \<in> set (take (n - 1) regs). rhi x < rlo l" "spans (take (n - 1) regs)" "rlo l \<le> rlo y"
    using sp le unfolding tk spans_append by (simp_all add: spans_Cons)
  have at: "slice_at regs (n - 1) = (Inr l :: AbiError fail + Region)" using n by (simp add: slice_at_def list_get_def l_def)
  obtain t where t: "(add64 (base l) (rsize l) :: AbiError fail + u64) = Inr t" "unat t = rhi l" using span_add64 [OF l(1)] by blast
  obtain e where e: "(add64 (base y) (rsize y) :: AbiError fail + u64) = Inr e" "unat e = rhi y" using span_add64 [OF y] by blast
  note m = melt_def [of regs n y, unfolded at t(1) e(1) rbind.simps]
  show thesis
  proof (cases "base y \<le> t")
    case out: False
    then have "rhi l < rlo y" using t(2) by (simp add: word_le_nat_alt)
    moreover have "rhi x < rlo y" if "x \<in> set (take (n - 1) regs)" for x using l(2,4) that by fastforce
    ultimately have "spans (take n regs @ [y])" using sp y unfolding spans_append tk by (auto simp: spans_Cons)
    then show thesis by (rule kept [rotated]) (use m out False in simp)
  next
    case inn: True
    then have ly: "rlo y \<le> rhi l" using t(2) by (simp add: word_le_nat_alt)
    show thesis
    proof (cases "e > t")
      case False2: False
      then have "rhi y \<le> rhi l" using t(2) e(2) by (simp add: word_less_nat_alt)
      then have "region_bytes y \<subseteq> region_bytes l" using l(4) by (auto simp: region_bytes_def)
      then have "bytes (take n regs) = bytes (take n regs) \<union> region_bytes y" unfolding tk by auto
      then show thesis by (intro melted [of regs]) (use m inn False False2 sp le in \<open>auto\<close>)
    next
      case True
      then have gt: "rhi l < rhi y" using t(2) e(2) by (simp add: word_less_nat_alt)
      obtain s where s: "(sub64 e (base l) :: AbiError fail + u64) = Inr s" "unat s = rhi y - rlo l"
        using gt e(2) chk_simps(5) [of e "base l" "e - base l"] by (auto simp: sub64_def word_le_nat_alt unat_sub)
      let ?l = "l\<lparr>rsize := s\<rparr>" and ?r = "regs[n - 1 := l\<lparr>rsize := s\<rparr>]"
      have hi: "rhi ?l = rhi y" "rlo ?l = rlo l" using s(2) gt by simp_all
      have tk': "take n ?r = take (n - 1) regs @ [?l]"
        using take_put [of "n - 1" regs ?l] False n by simp
      have "region_bytes ?l = region_bytes l \<union> region_bytes y"
        using ly gt l(4) s(2) by (auto simp: region_bytes_def)
      then have b: "bytes (take n ?r) = bytes (take n regs) \<union> region_bytes y" unfolding tk tk' by auto
      have "span_ok ?l" using y s(2) gt hi unfolding span_ok_def by auto
      then have "spans (take n ?r)" unfolding tk' spans_append using l(2,3) hi by (simp add: spans_Cons)
      moreover have "melt regs n y = Inr (Some ?r)" using m inn True False s(1) n by (simp add: slice_put_def)
      moreover have "\<forall>z. rlo y \<le> z \<longrightarrow> (\<forall>x \<in> set (take n ?r). rlo x \<le> z)"
        unfolding tk' using le l(4) unfolding tk by auto
      ultimately show thesis by (intro melted [of ?r]) (use b False in simp_all)
    qed
  qed
qed

lemma coalesce_from_ok:
  assumes "n \<le> i" "i \<le> length regs" "spans (take n regs)" "sorted (map base (drop i regs))"
    and "\<forall>y \<in> set (drop i regs). rhi y < 2 ^ 64" "\<forall>y \<in> set (drop i regs). \<forall>x \<in> set (take n regs). rlo x \<le> rlo y"
  shows "\<exists>regs' k. coalesce_from regs [i..<length regs] n = Inr (regs', k) \<and> length regs' = length regs \<and>
    k \<le> length regs \<and> spans (take k regs') \<and> bytes (take k regs') = bytes (take n regs) \<union> bytes (drop i regs)"
  using assms
proof (induction "length regs - i" arbitrary: regs i n)
  case 0
  then show ?case by simp
next
  case (Suc d)
  then have i: "i < length regs" and d: "d = length regs - Suc i" by simp_all
  define y where "y = regs ! i"
  have dr: "drop i regs = y # drop (Suc i) regs" unfolding y_def by (rule Cons_nth_drop_Suc [OF i, symmetric])
  have up: "[i..<length regs] = i # [Suc i..<length regs]" using i by (rule upt_conv_Cons)
  have at: "slice_at regs i = (Inr y :: AbiError fail + Region)" using i by (simp add: slice_at_def list_get_def y_def)
  have srt: "sorted (map base (drop (Suc i) regs))" "\<forall>z \<in> set (drop (Suc i) regs). rlo y \<le> rlo z"
    using Suc.prems(4) unfolding dr by (simp_all add: word_le_nat_alt)
  have hi: "rhi y < 2 ^ 64" "\<forall>z \<in> set (drop (Suc i) regs). rhi z < 2 ^ 64" using Suc.prems(5) unfolding dr by simp_all
  have le: "\<forall>x \<in> set (take n regs). rlo x \<le> rlo y" using Suc.prems(6) unfolding dr by simp
  have lz: "\<forall>z \<in> set (drop (Suc i) regs). \<forall>x \<in> set (take n regs). rlo x \<le> rlo z" using Suc.prems(6) unfolding dr by simp
  show ?case
  proof (cases "rsize y = 0")
    case True
    then have "region_bytes y = {}" by (simp add: region_bytes_def)
    then show ?thesis
      using Suc.hyps(1) [OF d _ _ Suc.prems(3) srt(1) hi(2) lz] True Suc.prems(1) i unfolding up dr by (simp add: at)
  next
    case False
    have y: "span_ok y" using hi(1) False by (simp add: span_ok_def unat_gt_0)
    have nl: "n < length regs" using i Suc.prems(1) by simp
    from nl Suc.prems(3) y le show ?thesis
    proof (cases rule: melt_ok)
      case (melted regs')
      have "drop (Suc i) regs' = drop (Suc i - n) (drop n regs')" using Suc.prems(1) by simp
      also have "\<dots> = drop (Suc i) regs" unfolding melted(3) using Suc.prems(1) by simp
      finally have dr': "drop (Suc i) regs' = drop (Suc i) regs" .
      have "\<forall>z \<in> set (drop (Suc i) regs'). \<forall>x \<in> set (take n regs'). rlo x \<le> rlo z"
        unfolding dr' using melted(6) srt(2) by blast
      then have "\<exists>regs'' k. coalesce_from regs' [Suc i..<length regs'] n = Inr (regs'', k) \<and> length regs'' = length regs' \<and>
          k \<le> length regs' \<and> spans (take k regs'') \<and> bytes (take k regs'') = bytes (take n regs') \<union> bytes (drop (Suc i) regs')"
        using Suc.prems(1) i srt(1) hi(2) d melted(2,4) dr' by (intro Suc.hyps(1)) simp_all
      then show ?thesis unfolding up dr using False melted(1,2,5) dr' by (simp add: at Un_assoc)
    next
      case kept
      let ?r = "regs[n := y]"
      have tk: "take (Suc n) ?r = take n regs @ [y]" using nl by (rule take_put)
      have dr': "drop (Suc i) ?r = drop (Suc i) regs" using Suc.prems(1) by simp
      have "\<forall>z \<in> set (drop (Suc i) ?r). \<forall>x \<in> set (take (Suc n) ?r). rlo x \<le> rlo z"
        unfolding dr' tk using lz srt(2) by auto
      then have "\<exists>regs'' k. coalesce_from ?r [Suc i..<length ?r] (Suc n) = Inr (regs'', k) \<and> length regs'' = length ?r \<and>
          k \<le> length ?r \<and> spans (take k regs'') \<and> bytes (take k regs'') = bytes (take (Suc n) ?r) \<union> bytes (drop (Suc i) ?r)"
        using Suc.prems(1) i srt(1) hi(2) d kept(2) dr' tk by (intro Suc.hyps(1)) simp_all
      then show ?thesis unfolding up dr using False kept(1) nl dr' tk by (simp add: at slice_put_def Un_assoc)
    qed
  qed
qed

text \<open>\<^verbatim>\<open>coalesce\<close> refuses only a region that wraps; otherwise it keeps the bytes and leaves gaps.\<close>

lemma coalesce_ok:
  assumes "unstable_sort srt"
  obtains (wraps) r where "coalesce srt regs = Inl (Err (RegionOverflow (base r) (rsize r)))" "r \<in> set regs" "2 ^ 64 \<le> rhi r"
  | (merged) regs' n where "coalesce srt regs = Inr (regs', n)" "n \<le> length regs" "length regs' = length regs"
      "spans (take n regs')" "bytes (take n regs') = bytes regs" "\<forall>r \<in> set regs. rhi r < 2 ^ 64"
proof (cases "\<forall>r \<in> set regs. rhi r < 2 ^ 64")
  case True
  let ?s = "srt regs"
  have ms: "mset ?s = mset regs" "sorted (map base ?s)" using assms by (simp_all add: unstable_sort_def)
  have st: "set ?s = set regs" "length ?s = length regs" using ms(1) mset_eq_setD mset_eq_length by blast+
  have "\<exists>regs' k. coalesce_from ?s [0..<length ?s] 0 = Inr (regs', k) \<and> length regs' = length ?s \<and>
    k \<le> length ?s \<and> spans (take k regs') \<and> bytes (take k regs') = bytes (take 0 ?s) \<union> bytes (drop 0 ?s)"
    using ms(2) True st(1) by (intro coalesce_from_ok) simp_all
  moreover have "rfold (\<lambda>_ r. check_region r) () regs = Inr ()" using True by (simp add: rfold_check)
  moreover have "bytes ?s = bytes regs" using st(1) by (simp add: bytes_def)
  ultimately show thesis using merged True st(2) by (auto simp: coalesce_def)
next
  case False
  have "\<exists>r \<in> set regs. 2 ^ 64 \<le> rhi r \<and> rfold (\<lambda>_ r. check_region r) u regs = Inl (Err (RegionOverflow (base r) (rsize r)))" for u
    using False by (induction regs arbitrary: u) (auto simp: check_region_cases)
  then show thesis using wraps by (auto simp: coalesce_def)
qed

end
