(* ===== verification/PlanCarve.thy ===== *)
theory PlanCarve
  imports PlanPool
begin

unbundle bit_operations_syntax

text \<open>
  Holes and alignment: every loop over a pool is a list of pieces per region that is pushed into a new pool,
  so its only error is a full pool.
\<close>

section \<open>Cutting a hole\<close>

definition hole_left :: "u64 \<Rightarrow> u64 \<Rightarrow> Region \<Rightarrow> Region list" where
  "hole_left b e r =
     (let t = base r + rsize r in
      if e \<le> base r \<or> b \<ge> t then [r]
      else (if b > base r then [Region_new (base r) (b - base r)] else []) @
           (if e < t then [Region_new e (t - e)] else []))"

lemma cut_hole_pushes:
  assumes "rhi r < 2 ^ 64"
  shows "cut_hole b e out r = rfold pool_push out (hole_left b e r)"
proof -
  have "(add64 (base r) (rsize r) :: AbiError fail + u64) = Inr (base r + rsize r)" using assms by (simp add: add64_def)
  then show ?thesis by (simp add: cut_hole_def hole_left_def Let_def)
qed

lemma hole_left_ok:
  assumes r: "rhi r < 2 ^ 64" "0 < unat (rsize r)" and be: "unat b < unat e"
  shows "spans (hole_left b e r)" "bytes (hole_left b e r) = region_bytes r - {unat b ..< unat e}"
    "\<forall>x \<in> set (hole_left b e r). rlo r \<le> rlo x \<and> rhi x \<le> rhi r"
proof -
  define t where "t = base r + rsize r"
  have t: "unat t = rhi r" unfolding t_def using r(1) by (simp add: unat_word_ariths)
  let ?P = "spans (hole_left b e r) \<and> bytes (hole_left b e r) = region_bytes r - {unat b ..< unat e} \<and>
    (\<forall>x \<in> set (hole_left b e r). rlo r \<le> rlo x \<and> rhi x \<le> rhi r)"
  have ?P
  proof (cases "e \<le> base r \<or> b \<ge> t")
    case True
    then have "unat e \<le> rlo r \<or> rhi r \<le> unat b" using t by (simp add: word_le_nat_alt)
    then have "region_bytes r - {unat b ..< unat e} = region_bytes r" by (auto simp: region_bytes_def)
    moreover have "hole_left b e r = [r]" using True by (simp add: hole_left_def t_def)
    ultimately show ?thesis using r by (simp add: spans_Cons span_ok_def)
  next
    case False
    then have m: "rlo r < unat e" "unat b < rhi r" using t by (simp_all add: word_le_nat_alt)
    define A where "A = (if rlo r < unat b then [Region_new (base r) (b - base r)] else [])"
    define B where "B = (if unat e < rhi r then [Region_new e (t - e)] else [])"
    have hl: "hole_left b e r = A @ B"
      using False t by (simp add: hole_left_def Let_def t_def [symmetric] A_def B_def word_less_nat_alt)
    have uA: "unat (b - base r) = unat b - rlo r" if "rlo r < unat b"
      using that by (intro unat_sub) (simp add: word_le_nat_alt)
    have uB: "unat (t - e) = rhi r - unat e" if "unat e < rhi r"
      unfolding t [symmetric] using that t by (intro unat_sub) (simp add: word_le_nat_alt)
    have A: "spans A" "bytes A = {rlo r ..< unat b}" "\<forall>x \<in> set A. rlo x = rlo r \<and> rhi x = unat b"
      unfolding A_def using uA m(2) r(1) by (auto simp: spans_Cons span_ok_def region_bytes_new)
    have B: "spans B" "bytes B = {unat e ..< rhi r}" "\<forall>x \<in> set B. rlo x = unat e \<and> rhi x = rhi r"
      unfolding B_def using uB r(1) by (auto simp: spans_Cons span_ok_def region_bytes_new)
    have "spans (A @ B)" using A(1,3) B(1,3) be by (auto simp: spans_append)
    moreover have "bytes (A @ B) = region_bytes r - {unat b ..< unat e}"
      using A(2) B(2) m be by (auto simp: region_bytes_def)
    ultimately show ?thesis unfolding hl using A(3) B(3) m by auto
  qed
  then show "spans (hole_left b e r)" "bytes (hole_left b e r) = region_bytes r - {unat b ..< unat e}"
    "\<forall>x \<in> set (hole_left b e r). rlo r \<le> rlo x \<and> rhi x \<le> rhi r" by blast+
qed

definition holes_left :: "u64 \<Rightarrow> u64 \<Rightarrow> Region list \<Rightarrow> Region list" where
  "holes_left b e rs = concat (map (hole_left b e) rs)"

lemma bytes_holes_left:
  assumes "\<forall>r \<in> set rs. rhi r < 2 ^ 64 \<and> 0 < unat (rsize r)" "unat b < unat e"
  shows "bytes (holes_left b e rs) = bytes rs - {unat b ..< unat e}"
  using assms(1) hole_left_ok(2) [OF _ _ assms(2)] by (induction rs) (auto simp: holes_left_def)

lemma spans_holes_left:
  assumes "spans rs" "unat b < unat e"
  shows "spans (holes_left b e rs)"
  using assms(1)
proof (induction rs)
  case Nil
  then show ?case by (simp add: holes_left_def)
next
  case (Cons r rs)
  then have r: "rhi r < 2 ^ 64" "0 < unat (rsize r)" and later: "\<forall>x \<in> set rs. rhi r < rlo x"
    by (simp_all add: spans_Cons span_ok_def)
  note h = hole_left_ok [OF r assms(2)]
  have "rhi r < rlo y" if y: "y \<in> set (holes_left b e rs)" for y
  proof -
    obtain x where x: "x \<in> set rs" "y \<in> set (hole_left b e x)" using y unfolding holes_left_def by auto
    have "span_ok x" using Cons.prems x(1) by (simp add: spans_def)
    then have "rlo x \<le> rlo y" using hole_left_ok(3) [OF _ _ assms(2), of x] x(2) by (auto simp: span_ok_def)
    then show ?thesis using later x(1) by fastforce
  qed
  then have "\<forall>x \<in> set (hole_left b e r). \<forall>y \<in> set (holes_left b e rs). rhi x < rlo y" using h(3) by fastforce
  moreover have "spans (holes_left b e rs)" using Cons by (simp add: spans_Cons)
  moreover have "holes_left b e (r # rs) = hole_left b e r @ holes_left b e rs" by (simp add: holes_left_def)
  ultimately show ?case using h(1) by (simp add: spans_append)
qed

lemma cut_holes_pushes:
  assumes "\<forall>r \<in> set rs. rhi r < 2 ^ 64"
  shows "rfold (cut_hole b e) [] rs = (if length (holes_left b e rs) \<le> POOL_MAX then Inr (holes_left b e rs) else Inl pool_full)"
proof -
  have "rfold (cut_hole b e) [] rs = rfold pool_push [] (holes_left b e rs)"
    unfolding holes_left_def using assms by (intro rfold_concat cut_hole_pushes) simp
  then show ?thesis by (simp add: pool_push_all)
qed

lemma carve_hole_ok:
  assumes "spans regs"
  shows "carve_hole regs h \<noteq> Inl Panic"
    "carve_hole regs h = Inr regs' \<Longrightarrow> spans regs' \<and> bytes regs' = bytes regs - region_bytes h"
proof -
  have al: "\<forall>r \<in> set regs. rhi r < 2 ^ 64 \<and> 0 < unat (rsize r)" using assms by (simp add: spans_def span_ok_def)
  have "carve_hole regs h \<noteq> Inl Panic \<and> (carve_hole regs h = Inr regs' \<longrightarrow> spans regs' \<and> bytes regs' = bytes regs - region_bytes h)"
  proof (cases "rhi h < 2 ^ 64 \<and> rsize h \<noteq> 0")
    case True
    then have "span_ok h" by (simp add: span_ok_def unat_gt_0)
    then obtain e where e: "(add64 (base h) (rsize h) :: AbiError fail + u64) = Inr e" "unat e = rhi h" using span_add64 by blast
    have lt: "rlo h < unat e" using e(2) True by (simp add: unat_gt_0)
    have "carve_hole regs h = (if length (holes_left (base h) e regs) \<le> POOL_MAX then Inr (holes_left (base h) e regs) else Inl pool_full)"
      using True e(1) cut_holes_pushes [of regs "base h" e] al by (simp add: carve_hole_def check_region_cases)
    moreover have "spans (holes_left (base h) e regs)" "bytes (holes_left (base h) e regs) = bytes regs - region_bytes h"
      using spans_holes_left [OF assms lt] bytes_holes_left [OF al lt] e(2) by (simp_all add: region_bytes_def)
    ultimately show ?thesis by auto
  next
    case False
    then show ?thesis using assms by (auto simp: carve_hole_def check_region_cases region_bytes_def)
  qed
  then show "carve_hole regs h \<noteq> Inl Panic"
    "carve_hole regs h = Inr regs' \<Longrightarrow> spans regs' \<and> bytes regs' = bytes regs - region_bytes h" by blast+
qed

lemma carve_holes_ok:
  assumes "spans regs"
  shows "rfold carve_hole regs hs \<noteq> Inl Panic"
    "rfold carve_hole regs hs = Inr regs' \<Longrightarrow> spans regs' \<and> bytes regs' = bytes regs - bytes hs"
proof -
  have "rfold carve_hole regs hs \<noteq> Inl Panic \<and> (\<forall>regs'. rfold carve_hole regs hs = Inr regs' \<longrightarrow> spans regs' \<and> bytes regs' = bytes regs - bytes hs)"
    using assms
  proof (induction hs arbitrary: regs)
    case Nil
    then show ?case by simp
  next
    case (Cons h hs)
    show ?case
    proof (cases "carve_hole regs h")
      case (Inl e)
      then show ?thesis using carve_hole_ok(1) [OF Cons.prems, of h] by simp
    next
      case (Inr r1)
      from carve_hole_ok(2) [OF Cons.prems this] have r1: "spans r1" "bytes r1 = bytes regs - region_bytes h" by blast+
      show ?thesis using Cons.IH [OF r1(1)] Inr r1(2) by (simp add: Diff_Un Diff_Int_distrib set_diff_eq)
    qed
  qed
  then show "rfold carve_hole regs hs \<noteq> Inl Panic"
    "rfold carve_hole regs hs = Inr regs' \<Longrightarrow> spans regs' \<and> bytes regs' = bytes regs - bytes hs" by blast+
qed

section \<open>Aligning inwards\<close>

definition plan_pad :: "u64 \<Rightarrow> u64" where
  "plan_pad b = (- b) AND (PLAN_GRAIN - 1)"

lemma PLAN_GRAIN_eq: "PLAN_GRAIN = GRAIN_2M"
  by (simp add: PLAN_GRAIN_def GRAIN_2M_def)

lemma plan_pad_least:
  "aligned (unat b + unat (plan_pad b))" "aligned a \<Longrightarrow> unat b \<le> a \<Longrightarrow> unat b + unat (plan_pad b) \<le> a"
proof -
  show al: "aligned (unat b + unat (plan_pad b))" unfolding plan_pad_def PLAN_GRAIN_eq by (rule pad_aligned)
  assume a: "aligned a" "unat b \<le> a"
  have lt: "unat (plan_pad b) < grain" unfolding plan_pad_def PLAN_GRAIN_eq GRAIN_mask unat_and_mask by simp
  obtain k m where "unat b + unat (plan_pad b) = grain * k" "a = grain * m"
    using al a(1) unfolding aligned_def mod_eq_0_iff_dvd dvd_def by blast
  then have "grain * k < grain * (m + 1)" using lt a(2) by simp
  then show "unat b + unat (plan_pad b) \<le> a"
    using \<open>unat b + _ = _\<close> \<open>a = _\<close> by simp
qed

definition aligned_part :: "u64 \<Rightarrow> Region \<Rightarrow> Region list" where
  "aligned_part mn r =
     (let b = base r + plan_pad (base r); e = grain_down (base r + rsize r) in
      if plan_pad (base r) < rsize r \<and> e > b \<and> e - b \<ge> mn then [Region_new b (e - b)] else [])"

lemma align_piece_pushes:
  assumes "rhi r < 2 ^ 64"
  shows "align_piece mn out r = rfold pool_push out (aligned_part mn r)"
proof (cases "plan_pad (base r) < rsize r")
  case True
  then have "rlo r + unat (plan_pad (base r)) < 2 ^ 64" using assms by (simp add: word_less_nat_alt)
  then have a: "(add64 (base r) (plan_pad (base r)) :: AbiError fail + u64) = Inr (base r + plan_pad (base r))"
    "(add64 (base r) (rsize r) :: AbiError fail + u64) = Inr (base r + rsize r)"
    using assms by (simp_all add: add64_def)
  have d: "x AND NOT (PLAN_GRAIN - 1) = grain_down x" for x by (simp add: grain_down_def PLAN_GRAIN_eq)
  show ?thesis
    unfolding align_piece_def plan_pad_def [symmetric] Let_def d aligned_part_def
    using a True not_le [THEN iffD2, OF True] by simp
next
  case False
  then show ?thesis unfolding align_piece_def plan_pad_def [symmetric] Let_def aligned_part_def
    using not_less [THEN iffD1, OF False] by simp
qed

lemma aligned_part_ok:
  assumes "rhi r < 2 ^ 64"
  shows "\<forall>x \<in> set (aligned_part mn r). piece x \<and> rlo r \<le> rlo x \<and> rhi x \<le> rhi r \<and> mn \<le> rsize x" "pieces (aligned_part mn r)"
    "aligned a \<Longrightarrow> aligned c \<Longrightarrow> rlo r \<le> a \<Longrightarrow> a < c \<Longrightarrow> c \<le> rhi r \<Longrightarrow> unat mn \<le> c - a \<Longrightarrow> {a..<c} \<subseteq> bytes (aligned_part mn r)"
proof -
  define b where "b = base r + plan_pad (base r)"
  define e where "e = grain_down (base r + rsize r)"
  have ap: "aligned_part mn r = (if plan_pad (base r) < rsize r \<and> e > b \<and> e - b \<ge> mn then [Region_new b (e - b)] else [])"
    by (simp add: aligned_part_def b_def e_def Let_def)
  have ue: "unat e = rhi r div grain * grain" using assms unat_grain_down [of "base r + rsize r"] by (simp add: e_def unat_word_ariths)
  then have e: "aligned (unat e)" "unat e \<le> rhi r" by (simp_all add: aligned_def)
  have b: "unat b = rlo r + unat (plan_pad (base r))" if "plan_pad (base r) < rsize r"
    unfolding b_def using that assms by (intro unat_add_exact) (simp add: word_less_nat_alt)
  show P: "\<forall>x \<in> set (aligned_part mn r). piece x \<and> rlo r \<le> rlo x \<and> rhi x \<le> rhi r \<and> mn \<le> rsize x"
  proof
    fix x assume "x \<in> set (aligned_part mn r)"
    then have x: "plan_pad (base r) < rsize r" "e > b" "e - b \<ge> mn" "x = Region_new b (e - b)" unfolding ap by (auto split: if_splits)
    have "unat b < unat e" using x(2) by (simp add: word_less_nat_alt)
    moreover have u: "unat (e - b) = unat e - unat b" using x(2) by (intro unat_sub) simp
    moreover have "aligned (unat b)" unfolding b [OF x(1)] by (rule plan_pad_least)
    ultimately have "piece x" unfolding x(4) using e assms by (intro piece_new) (simp_all add: aligned_diff)
    then show "piece x \<and> rlo r \<le> rlo x \<and> rhi x \<le> rhi r \<and> mn \<le> rsize x"
      using x(3,4) b [OF x(1)] u e(2) \<open>unat b < unat e\<close> by simp
  qed
  then show "pieces (aligned_part mn r)" unfolding ap by (auto split: if_splits)
  assume h: "aligned a" "aligned c" "rlo r \<le> a" "a < c" "c \<le> rhi r" "unat mn \<le> c - a"
  have lo: "rlo r + unat (plan_pad (base r)) \<le> a" by (rule plan_pad_least(2) [OF h(1,3)])
  then have lt: "plan_pad (base r) < rsize r" using h(4,5) by (simp add: word_less_nat_alt)
  have "c = c div grain * grain" using h(2) by (auto simp: aligned_def)
  then have hi: "c \<le> unat e" unfolding ue by (metis div_le_mono h(5) mult_le_mono1)
  have be: "unat b < unat e" "unat b \<le> a" using lo hi h(4) b [OF lt] by simp_all
  have u: "unat (e - b) = unat e - unat b" using be(1) by (intro unat_sub) (simp add: word_le_nat_alt)
  then have "mn \<le> e - b" using be(2) hi h(6) by (simp add: word_le_nat_alt)
  then have "aligned_part mn r = [Region_new b (e - b)]" unfolding ap using lt be(1) by (simp add: word_less_nat_alt)
  then show "{a..<c} \<subseteq> bytes (aligned_part mn r)" using u be hi by (auto simp: region_bytes_new)
qed

definition aligned_parts :: "u64 \<Rightarrow> Region list \<Rightarrow> Region list" where
  "aligned_parts mn rs = concat (map (aligned_part mn) rs)"

lemma align_pieces_pushes:
  assumes "\<forall>r \<in> set rs. rhi r < 2 ^ 64"
  shows "rfold (align_piece mn) [] rs = (if length (aligned_parts mn rs) \<le> POOL_MAX then Inr (aligned_parts mn rs) else Inl pool_full)"
proof -
  have "rfold (align_piece mn) [] rs = rfold pool_push [] (aligned_parts mn rs)"
    unfolding aligned_parts_def using assms by (intro rfold_concat align_piece_pushes) simp
  then show ?thesis by (simp add: pool_push_all)
qed

lemma aligned_parts_ok:
  assumes "spans rs"
  shows "pieces (aligned_parts mn rs)" "\<forall>x \<in> set (aligned_parts mn rs). mn \<le> rsize x \<and> (\<exists>r \<in> set rs. rlo r \<le> rlo x \<and> rhi x \<le> rhi r)"
proof -
  have "pieces (aligned_parts mn rs) \<and> (\<forall>x \<in> set (aligned_parts mn rs). mn \<le> rsize x \<and> (\<exists>r \<in> set rs. rlo r \<le> rlo x \<and> rhi x \<le> rhi r))"
    using assms
  proof (induction rs)
    case Nil
    then show ?case by (simp add: aligned_parts_def)
  next
    case (Cons r rs)
    then have r: "rhi r < 2 ^ 64" "\<forall>x \<in> set rs. rhi r < rlo x" "spans rs" by (simp_all add: spans_Cons span_ok_def)
    note a = aligned_part_ok(1,2) [OF r(1), of mn] and ih = Cons.IH [OF r(3)]
    have "rhi x \<le> rlo y" if x: "x \<in> set (aligned_part mn r)" and y: "y \<in> set (aligned_parts mn rs)" for x y
    proof -
      obtain q where q: "q \<in> set rs" "rlo q \<le> rlo y" using ih y by blast
      have "rhi x \<le> rhi r" using a(1) x by blast
      also have "rhi r < rlo q" using r(2) q(1) by blast
      finally show ?thesis using q(2) by simp
    qed
    moreover have "aligned_parts mn (r # rs) = aligned_part mn r @ aligned_parts mn rs" by (simp add: aligned_parts_def)
    ultimately show ?case using a ih by (auto simp: pieces_append)
  qed
  then show "pieces (aligned_parts mn rs)" "\<forall>x \<in> set (aligned_parts mn rs). mn \<le> rsize x \<and> (\<exists>r \<in> set rs. rlo r \<le> rlo x \<and> rhi x \<le> rhi r)"
    by blast+
qed

lemma bytes_aligned_parts: "spans rs \<Longrightarrow> bytes (aligned_parts mn rs) \<subseteq> bytes rs"
proof
  fix z assume sp: "spans rs" and "z \<in> bytes (aligned_parts mn rs)"
  then obtain x where x: "x \<in> set (aligned_parts mn rs)" "rlo x \<le> z" "z < rhi x" by (auto simp: bytes_def region_bytes_def)
  obtain r where "r \<in> set rs" "rlo r \<le> rlo x" "rhi x \<le> rhi r" using aligned_parts_ok(2) [OF sp] x(1) by blast
  then have "z \<in> region_bytes r" using x(2,3) by (simp add: region_bytes_def)
  then show "z \<in> bytes rs" using \<open>r \<in> set rs\<close> by (auto simp: bytes_def)
qed

section \<open>The whole pool\<close>

lemma carve_pool_steps:
  assumes "unstable_sort srt"
  shows "carve_pool srt banks holes mn \<noteq> Inl Panic"
    "carve_pool srt banks holes mn = Inr out \<Longrightarrow>
       \<exists>rs. spans rs \<and> bytes rs = bytes banks - bytes holes \<and> out = aligned_parts mn rs \<and> length out \<le> POOL_MAX"
proof -
  let ?P = "carve_pool srt banks holes mn \<noteq> Inl Panic \<and> (carve_pool srt banks holes mn = Inr out \<longrightarrow>
       (\<exists>rs. spans rs \<and> bytes rs = bytes banks - bytes holes \<and> out = aligned_parts mn rs \<and> length out \<le> POOL_MAX))"
  have ?P
  proof (cases "length banks \<le> POOL_MAX")
    case False
    then show ?thesis by (simp add: carve_pool_def pool_push_all)
  next
    case True
    then have c0: "carve_pool srt banks holes mn = rbind (coalesce srt banks) (\<lambda>(regs, n). rbind (rfold carve_hole (take n regs) holes) (rfold (align_piece mn) []))"
      by (simp add: carve_pool_def pool_push_all)
    from assms show ?thesis
    proof (cases rule: coalesce_ok [where regs = banks])
      case (wraps r)
      then show ?thesis unfolding c0 by simp
    next
      case (merged regs n)
      then have c1: "carve_pool srt banks holes mn = rbind (rfold carve_hole (take n regs) holes) (rfold (align_piece mn) [])"
        unfolding c0 by simp
      show ?thesis
      proof (cases "rfold carve_hole (take n regs) holes")
        case (Inl e)
        then show ?thesis unfolding c1 using carve_holes_ok(1) [OF merged(4), of holes] by simp
      next
        case (Inr rs)
        have rs: "spans rs" "bytes rs = bytes banks - bytes holes" using carve_holes_ok(2) [OF merged(4) Inr] merged(5) by simp_all
        then have "rfold (align_piece mn) [] rs = (if length (aligned_parts mn rs) \<le> POOL_MAX then Inr (aligned_parts mn rs) else Inl pool_full)"
          by (intro align_pieces_pushes) (simp add: spans_def span_ok_def)
        then show ?thesis unfolding c1 Inr using rs by auto
      qed
    qed
  qed
  then show "carve_pool srt banks holes mn \<noteq> Inl Panic"
    "carve_pool srt banks holes mn = Inr out \<Longrightarrow>
       \<exists>rs. spans rs \<and> bytes rs = bytes banks - bytes holes \<and> out = aligned_parts mn rs \<and> length out \<le> POOL_MAX" by blast+
qed

lemma aligned_parts_largest:
  assumes "spans rs" "aligned a" "aligned c" "a < c" "unat mn \<le> c - a" "{a..<c} \<subseteq> bytes rs"
  shows "{a..<c} \<subseteq> bytes (aligned_parts mn rs)"
proof -
  obtain r where r: "r \<in> set rs" "rlo r \<le> a" "c \<le> rhi r" using interval_in_one [OF assms(1,4,6)] by blast
  have "rhi r < 2 ^ 64" using assms(1) r(1) by (simp add: spans_def span_ok_def)
  from aligned_part_ok(3) [OF this assms(2,3) r(2) assms(4) r(3) assms(5)] show ?thesis
    using r(1) by (auto simp: aligned_parts_def bytes_def)
qed

end
