(* ===== verification/PlanProps.thy ===== *)
theory PlanProps
  imports PlanCarve PartProps
begin

unbundle bit_operations_syntax

text \<open>
  What a plan promises: the check accepts exactly the descriptions that keep the memory of the kernel apart
  from that of the slots, the addresses read from a plan lie in the memory reserved for them, and the pool
  that the lifecycle builds from a plan never gives a reserved byte to a slot.
\<close>

section \<open>The check\<close>

lemma window_subset:
  assumes "rhi (cage_region s) < 2 ^ 64" "0 < unat (rsize (cage_region s))"
  shows "window_holds_cage s \<longleftrightarrow>
    rsize (sp_device_window s) = 0 \<or> region_bytes (cage_region s) \<subseteq> region_bytes (sp_device_window s)"
proof -
  define c where "c = cage_region s"
  define w where "w = sp_device_window s"
  have c: "rhi c < 2 ^ 64" "0 < unat (rsize c)" using assms by (simp_all add: c_def)
  have uc: "unat (saturating_add (base c) (rsize c)) = rhi c" using c(1) by (simp add: saturating_add_def unat_word_ariths)
  have uw: "unat (saturating_add (base w) (rsize w)) = (if rhi w < 2 ^ 64 then rhi w else 2 ^ 64 - 1)"
    by (simp add: saturating_add_def unat_word_ariths unsigned_minus_1_eq_mask mask_eq_exp_minus_1)
  have "region_bytes c \<subseteq> region_bytes w \<longleftrightarrow> rlo w \<le> rlo c \<and> rhi c \<le> rhi w"
    using c(2) by (simp add: region_bytes_def ivl_subset)
  moreover have "rhi c \<le> rhi w \<longleftrightarrow> rhi c \<le> (if rhi w < 2 ^ 64 then rhi w else 2 ^ 64 - 1)" using c(1) by auto
  ultimately show ?thesis
    unfolding window_holds_cage_def Let_def c_def [symmetric] w_def [symmetric]
    by (simp only: word_less_nat_alt uc uw not_less de_Morgan_disj)
qed

lemma mod_unat: "v mod a = 0 \<longleftrightarrow> unat v mod unat a = 0" for v a :: u64
  by (metis unat_eq_0 unat_mod)

lemma required_iff: "required w v a = Inr u \<longleftrightarrow> v \<noteq> 0 \<and> unat v mod unat a = 0"
  by (simp add: required_def aligned_to_def res_simps mod_unat)

lemma reserve_all:
  assumes "length out + length rs \<le> 8"
  shows "rfold reserve_region out rs = Inr x \<longleftrightarrow> x = out @ rs \<and> (\<forall>r \<in> set rs. rhi r < 2 ^ 64)"
    "rfold reserve_region out rs \<noteq> Inl Panic"
  using assms
  by (induction rs arbitrary: out)
    (auto simp: reserve_region_def check_region_cases blist_push_def res_simps)

lemma reserved_length: "length (reserved_regions s) \<le> 8"
  using length_filter_le [of "\<lambda>r. base r \<noteq> 0" "[Region_new (sp_trap_vec_pa s) 0x800, sp_black_box s,
    Region_new (sp_usb_dma_pa s) USB_DMA_SIZE, Region_new (sp_net_dma_pa s) 1]"]
  by (simp add: reserved_regions_def)

lemma no_overlap_iff:
  assumes "rhi r < 2 ^ 64" "\<forall>q \<in> set qs. rhi q < 2 ^ 64"
  shows "find (Region_overlaps r) qs = None \<longleftrightarrow> region_bytes r \<inter> bytes qs = {}"
proof -
  have e: "Region_end q \<noteq> None \<longleftrightarrow> rhi q < 2 ^ 64" for q by (simp add: Region_end_def checked_add_def)
  have "Region_overlaps r q \<longleftrightarrow> region_bytes r \<inter> region_bytes q \<noteq> {}" if "q \<in> set qs" for q
    using assms that by (intro overlaps_iff_share_byte) (simp_all only: e)
  then show ?thesis by (auto simp: find_None_iff bytes_def)
qed

lemma see_region_iff:
  assumes "length seen \<le> POOL_MAX" "\<forall>q \<in> set (seen @ reserved). rhi q < 2 ^ 64"
  shows "see_region reserved seen r = Inr x \<longleftrightarrow>
      x = seen @ [r] \<and> piece r \<and> region_bytes r \<inter> bytes seen = {} \<and> region_bytes r \<inter> bytes reserved = {}"
    "see_region reserved seen r \<noteq> Inl Panic"
proof -
  have al: "unat PLAN_GRAIN = grain" by (simp add: PLAN_GRAIN_eq unat_GRAIN)
  have push: "blist_push (POOL_MAX + 1) seen r = Inr (seen @ [r])" using assms(1) by (simp add: blist_push_def)
  have at: "aligned_to w v PLAN_GRAIN = Inr u \<longleftrightarrow> aligned (unat v)" for w v u
    by (simp add: aligned_to_def res_simps mod_unat al aligned_def)
  have nf: "find (Region_overlaps r) (seen @ reserved) = None \<longleftrightarrow>
      region_bytes r \<inter> bytes seen = {} \<and> region_bytes r \<inter> bytes reserved = {}" if "rhi r < 2 ^ 64"
    using no_overlap_iff [OF that assms(2)] by (simp add: Int_Un_distrib)
  have "see_region reserved seen r = Inr x \<longleftrightarrow> rhi r < 2 ^ 64 \<and> rsize r \<noteq> 0 \<and> aligned (rlo r) \<and> aligned (unat (rsize r)) \<and>
      find (Region_overlaps r) (seen @ reserved) = None \<and> x = seen @ [r]"
    unfolding see_region_def push
    by (auto simp: res_simps check_region_iff at split: option.splits)
  then show "see_region reserved seen r = Inr x \<longleftrightarrow>
      x = seen @ [r] \<and> piece r \<and> region_bytes r \<inter> bytes seen = {} \<and> region_bytes r \<inter> bytes reserved = {}"
    using nf by (auto simp: piece_def unat_gt_0)
  show "see_region reserved seen r \<noteq> Inl Panic"
    unfolding see_region_def push
    by (auto simp: res_simps check_region_cases aligned_to_def split: option.splits)
qed

lemma piece_hi: "piece r \<Longrightarrow> rhi r < 2 ^ 64"
  by (simp add: piece_def)

lemma see_all:
  assumes "length seen + length rs \<le> POOL_MAX + 1" "\<forall>q \<in> set (seen @ reserved). rhi q < 2 ^ 64"
  shows "(\<exists>x. rfold (see_region reserved) seen rs = Inr x) \<longleftrightarrow>
      (\<forall>r \<in> set rs. piece r) \<and> apart rs \<and> bytes rs \<inter> (bytes seen \<union> bytes reserved) = {}"
    "rfold (see_region reserved) seen rs \<noteq> Inl Panic"
proof -
  have "((\<exists>x. rfold (see_region reserved) seen rs = Inr x) \<longleftrightarrow>
      (\<forall>r \<in> set rs. piece r) \<and> apart rs \<and> bytes rs \<inter> (bytes seen \<union> bytes reserved) = {}) \<and>
      rfold (see_region reserved) seen rs \<noteq> Inl Panic"
    using assms
  proof (induction rs arbitrary: seen)
    case Nil
    then show ?case by (simp add: apart_def)
  next
    case (Cons r rs)
    have len: "length seen \<le> POOL_MAX" using Cons.prems(1) by simp
    note s = see_region_iff [OF len Cons.prems(2)]
    show ?case
    proof (cases "piece r \<and> region_bytes r \<inter> bytes seen = {} \<and> region_bytes r \<inter> bytes reserved = {}")
      case True
      then have f: "see_region reserved seen r = Inr (seen @ [r])" by (simp add: s(1))
      have ap: "apart (r # rs) \<longleftrightarrow> region_bytes r \<inter> bytes rs = {} \<and> apart rs" by (auto simp: apart_def bytes_def)
      have "length (seen @ [r]) + length rs \<le> POOL_MAX + 1" "\<forall>q \<in> set ((seen @ [r]) @ reserved). rhi q < 2 ^ 64"
        using Cons.prems True piece_hi by auto
      from Cons.IH [OF this] show ?thesis using True ap f by auto
    next
      case False
      have "see_region reserved seen r \<noteq> Inr x" for x using False s(1) by blast
      then obtain e where e: "see_region reserved seen r = Inl e" by (cases "see_region reserved seen r") auto
      then show ?thesis using False s(2) by auto
    qed
  qed
  then show "(\<exists>x. rfold (see_region reserved) seen rs = Inr x) \<longleftrightarrow>
      (\<forall>r \<in> set rs. piece r) \<and> apart rs \<and> bytes rs \<inter> (bytes seen \<union> bytes reserved) = {}"
    "rfold (see_region reserved) seen rs \<noteq> Inl Panic" by blast+
qed

text \<open>What a description has to satisfy, with its cores clamped.\<close>

definition plan_valid :: "PlanSpec \<Rightarrow> bool" where
  "plan_valid s \<longleftrightarrow>
     sp_node_ctrl_pa s \<noteq> 0 \<and> unat (sp_node_ctrl_pa s) mod 4096 = 0 \<and>
     sp_boot_scratch_pa s \<noteq> 0 \<and> unat (sp_boot_scratch_pa s) mod 8 = 0 \<and>
     sp_cage_pa s \<noteq> 0 \<and> unat (sp_cage_pa s) mod 2048 = 0 \<and> unat (sp_trap_vec_pa s) mod 2048 = 0 \<and>
     sp_os_core s \<le> sp_app_cores s \<and>
     (rsize (sp_device_window s) = 0 \<or> region_bytes (cage_region s) \<subseteq> region_bytes (sp_device_window s)) \<and>
     (\<forall>r \<in> set (reserved_regions s). rhi r < 2 ^ 64) \<and>
     sp_pool s \<noteq> [] \<and> (\<forall>r \<in> set (sp_pool s @ kernel_list s). piece r) \<and> apart (sp_pool s @ kernel_list s) \<and>
     bytes (sp_pool s @ kernel_list s) \<inter> bytes (reserved_regions s) = {}"

definition clamped :: "PlanSpec \<Rightarrow> PlanSpec" where
  "clamped s = s\<lparr>sp_app_cores := clamp_cores (sp_app_cores s)\<rparr>"

lemma clamped_cores: "1 \<le> sp_app_cores (clamped s)" "sp_app_cores (clamped s) < CORES_MAX"
  by (auto simp: clamped_def clamp_cores_def CORES_MAX_eq)

lemma next_multiple_bound:
  assumes "k \<le> 146432"
  shows "next_multiple_of k 65536 \<le> 196608"
proof -
  have q: "k div 65536 \<le> 2" using div_le_mono [OF assms, of 65536] by simp
  have "65536 * (k div 65536) + k mod 65536 = k" by (rule mult_div_mod_eq)
  moreover have "k mod 65536 < 65536" by (rule mod_less_divisor) simp
  ultimately have "k + (65536 - k mod 65536) \<le> 196608" using q by linarith
  then show ?thesis using assms by (simp add: next_multiple_of_def)
qed

lemma unat_cage_len:
  assumes "n < CORES_MAX"
  shows "unat (cage_len n) = 65536 + next_multiple_of ((n + 1) * 1024) 65536"
    "next_multiple_of ((n + 1) * 1024) 65536 \<le> 196608"
proof -
  define m where "m = next_multiple_of ((n + 1) * 1024) 65536"
  show le: "next_multiple_of ((n + 1) * 1024) 65536 \<le> 196608"
    using assms by (intro next_multiple_bound) (simp add: CORES_MAX_eq)
  have u: "unat (of_nat m :: u64) = m" using le by (simp add: unat_of_nat m_def)
  have c: "cage_len n = 65536 + of_nat m" unfolding cage_len_def m_def by (simp add: plan_consts)
  have "unat (65536 + of_nat m :: u64) = unat (65536 :: u64) + unat (of_nat m :: u64)"
    using le u by (intro unat_add_exact) (simp add: m_def)
  then show "unat (cage_len n) = 65536 + next_multiple_of ((n + 1) * 1024) 65536"
    unfolding c u by (simp add: m_def)
qed

lemma cage_pos: "n < CORES_MAX \<Longrightarrow> 0 < unat (cage_len n)"
  by (simp add: unat_cage_len)

lemma cage_in_reserved: "cage_region s \<in> set (reserved_regions s)"
  by (simp add: reserved_regions_def)

lemma Plan_new_spec:
  assumes "length (sp_pool s) \<le> POOL_MAX"
  shows "Plan_new s = Inr p \<longleftrightarrow> p = Plan (clamped s) \<and> plan_valid (clamped s)" "Plan_new s \<noteq> Inl Panic"
proof -
  define c where "c = clamped s"
  have f: "sp_node_ctrl_pa c = sp_node_ctrl_pa s" "sp_boot_scratch_pa c = sp_boot_scratch_pa s" "sp_pool c = sp_pool s"
    "sp_cage_pa c = sp_cage_pa s" "sp_trap_vec_pa c = sp_trap_vec_pa s" by (simp_all add: c_def clamped_def)
  have fold_c: "s\<lparr>sp_app_cores := clamp_cores (sp_app_cores s)\<rparr> = c" by (simp add: c_def clamped_def)
  note N = Plan_new_def [of s, unfolded fold_c Let_def, folded f]
  have len: "length ([] :: Region list) + length (sp_pool c @ kernel_list c) \<le> POOL_MAX + 1"
    using assms f by (simp add: kernel_list_def)
  have rl: "length ([] :: Region list) + length (reserved_regions c) \<le> 8" using reserved_length [of c] by simp
  note res = reserve_all [OF rl]
  have win: "window_holds_cage c \<longleftrightarrow> rsize (sp_device_window c) = 0 \<or> region_bytes (cage_region c) \<subseteq> region_bytes (sp_device_window c)"
    if "\<forall>r \<in> set (reserved_regions c). rhi r < 2 ^ 64"
  proof (rule window_subset)
    show "rhi (cage_region c) < 2 ^ 64" using that cage_in_reserved by blast
    show "0 < unat (rsize (cage_region c))" using cage_pos [OF clamped_cores(2) [of s]] by (simp add: cage_region_def c_def)
  qed
  have see: "(\<exists>x. rfold (see_region (reserved_regions c)) [] (sp_pool c @ kernel_list c) = Inr x) \<longleftrightarrow>
      (\<forall>r \<in> set (sp_pool c @ kernel_list c). piece r) \<and> apart (sp_pool c @ kernel_list c) \<and>
      bytes (sp_pool c @ kernel_list c) \<inter> bytes (reserved_regions c) = {}"
    "rfold (see_region (reserved_regions c)) [] (sp_pool c @ kernel_list c) \<noteq> Inl Panic"
    if "\<forall>r \<in> set (reserved_regions c). rhi r < 2 ^ 64"
    using see_all [OF len, of "reserved_regions c"] that by auto
  have al: "aligned_to w v a = Inr u \<longleftrightarrow> unat v mod unat a = 0" for w v a u by (simp add: aligned_to_def res_simps mod_unat)
  have "Plan_new s = Inr p \<longleftrightarrow> p = Plan c \<and>
     sp_node_ctrl_pa c \<noteq> 0 \<and> unat (sp_node_ctrl_pa c) mod 4096 = 0 \<and>
     sp_boot_scratch_pa c \<noteq> 0 \<and> unat (sp_boot_scratch_pa c) mod 8 = 0 \<and> sp_pool c \<noteq> [] \<and>
     sp_cage_pa c \<noteq> 0 \<and> unat (sp_cage_pa c) mod 2048 = 0 \<and> unat (sp_trap_vec_pa c) mod 2048 = 0 \<and>
     sp_os_core c \<le> sp_app_cores c \<and> window_holds_cage c \<and> (\<forall>r \<in> set (reserved_regions c). rhi r < 2 ^ 64) \<and>
     (\<exists>x. rfold (see_region (reserved_regions c)) [] (sp_pool c @ kernel_list c) = Inr x)"
    unfolding N by (auto simp: rbind_eq_Inr reject_if_eq_Inr required_iff al res(1))
  then show "Plan_new s = Inr p \<longleftrightarrow> p = Plan (clamped s) \<and> plan_valid (clamped s)"
    unfolding plan_valid_def c_def [symmetric] using win see(1) by auto
  have "required w v a \<noteq> Inl Panic" "aligned_to w v a \<noteq> Inl Panic" for w v a
    by (simp_all add: required_def aligned_to_def res_simps)
  then show "Plan_new s \<noteq> Inl Panic"
    unfolding N using see(2) res by (auto simp: rbind_eq_Inl reject_if_eq_Inl reject_if_eq_Inr)
qed

section \<open>The life of a plan\<close>

text \<open>A plan of a board, and the bytes taken out of its pool since.\<close>

inductive plan_reach :: "Plan \<Rightarrow> nat set \<Rightarrow> bool" where
  made: "length (sp_pool s) \<le> POOL_MAX \<Longrightarrow> Plan_new s = Inr p \<Longrightarrow> plan_reach p {}"
| excluded: "plan_reach p X \<Longrightarrow> exclude_from_pool p b n = Inr p' \<Longrightarrow> plan_reach p' (X \<union> region_bytes (Region_new b n))"

definition plan_inv :: "Plan \<Rightarrow> nat set \<Rightarrow> bool" where
  "plan_inv p X \<longleftrightarrow>
     (let s = plan_spec p in
      1 \<le> sp_app_cores s \<and> sp_app_cores s < CORES_MAX \<and> sp_os_core s \<le> sp_app_cores s \<and>
      (\<forall>r \<in> set (reserved_regions s). rhi r < 2 ^ 64) \<and>
      (\<forall>r \<in> set (sp_pool s @ kernel_list s). span_ok r) \<and> apart (sp_pool s @ kernel_list s) \<and>
      bytes (sp_pool s @ kernel_list s) \<inter> bytes (reserved_regions s) = {} \<and> bytes (sp_pool s) \<inter> X = {} \<and>
      length (sp_pool s) \<le> POOL_MAX)"

lemma apart_append:
  "apart (xs @ ys) \<longleftrightarrow> apart xs \<and> apart ys \<and> bytes xs \<inter> bytes ys = {}"
  by (auto simp: apart_def sorted_wrt_append bytes_def)

lemma spans_apart: "spans rs \<Longrightarrow> apart rs"
proof (induction rs)
  case (Cons r rs)
  then have "region_bytes r \<inter> region_bytes x = {}" if "x \<in> set rs" for x
    using that by (fastforce simp: spans_Cons region_bytes_def)
  then show ?case using Cons by (auto simp: apart_def spans_Cons)
qed (simp add: apart_def)

lemma apart_holes_left:
  assumes "apart rs" "\<forall>r \<in> set rs. span_ok r" "unat b < unat e"
  shows "apart (holes_left b e rs)" "\<forall>r \<in> set (holes_left b e rs). span_ok r"
proof -
  have "apart (holes_left b e rs) \<and> (\<forall>r \<in> set (holes_left b e rs). span_ok r)"
    using assms(1,2)
  proof (induction rs)
    case Nil
    then show ?case by (simp add: holes_left_def apart_def)
  next
    case (Cons r rs)
    have ih: "apart (holes_left b e rs)" "\<forall>r \<in> set (holes_left b e rs). span_ok r"
      using Cons by (simp_all add: apart_def)
    have h: "spans (hole_left b e r)" "bytes (hole_left b e r) \<subseteq> region_bytes r"
      using hole_left_ok [OF _ _ assms(3), of r] Cons.prems(2) by (auto simp: span_ok_def)
    have "bytes (holes_left b e rs) \<subseteq> bytes rs"
      using bytes_holes_left [OF _ assms(3), of rs] Cons.prems(2) by (auto simp: span_ok_def)
    moreover have "region_bytes r \<inter> bytes rs = {}" using Cons.prems(1) by (auto simp: apart_def bytes_def)
    ultimately have "bytes (hole_left b e r) \<inter> bytes (holes_left b e rs) = {}" using h(2) by blast
    moreover have "holes_left b e (r # rs) = hole_left b e r @ holes_left b e rs" by (simp add: holes_left_def)
    ultimately show ?case using h(1) ih spans_apart [OF h(1)] by (auto simp: apart_append spans_def)
  qed
  then show "apart (holes_left b e rs)" "\<forall>r \<in> set (holes_left b e rs). span_ok r" by blast+
qed

text \<open>Excluding takes exactly the bytes of the hole out of the pool and touches nothing else of the plan.\<close>

lemma exclude_cases:
  assumes "\<forall>r \<in> set (sp_pool (plan_spec p)). span_ok r"
  obtains (none) "n = 0" "exclude_from_pool p b n = Inr p"
  | (wraps) "exclude_from_pool p b n = Inl (Err (RegionOverflow b n))" "n \<noteq> 0"
  | (full) "exclude_from_pool p b n = Inl pool_full" "n \<noteq> 0"
  | (cut) e where "n \<noteq> 0" "unat e = unat b + unat n" "length (holes_left b e (sp_pool (plan_spec p))) \<le> POOL_MAX"
      "exclude_from_pool p b n = Inr (Plan ((plan_spec p)\<lparr>sp_pool := holes_left b e (sp_pool (plan_spec p))\<rparr>))"
proof (cases "n = 0")
  case True
  then show thesis using none by (simp add: exclude_from_pool_def)
next
  case False
  let ?pool = "sp_pool (plan_spec p)"
  have hi: "\<forall>r \<in> set ?pool. rhi r < 2 ^ 64" using assms by (simp add: span_ok_def)
  show thesis
  proof (cases "unat b + unat n < 2 ^ 64")
    case True
    then have a: "(add64 b n :: AbiError fail + u64) = Inr (b + n)" "unat (b + n) = unat b + unat n"
      by (simp_all add: add64_def unat_word_ariths)
    have "exclude_from_pool p b n = rbind (rfold (cut_hole b (b + n)) [] ?pool) (\<lambda>out. Inr (Plan ((plan_spec p)\<lparr>sp_pool := out\<rparr>)))"
      using False True a(1) by (simp add: exclude_from_pool_def check_region_cases)
    then show thesis using full cut [of "b + n"] False a(2) cut_holes_pushes [OF hi, of b "b + n"]
      by (cases "length (holes_left b (b + n) ?pool) \<le> POOL_MAX") simp_all
  next
    case no: False
    then show thesis using wraps False by (simp add: exclude_from_pool_def check_region_cases)
  qed
qed

lemma plan_reach_inv: "plan_reach p X \<Longrightarrow> plan_inv p X"
proof (induction rule: plan_reach.induct)
  case (made s p)
  then have p: "p = Plan (clamped s)" "plan_valid (clamped s)" using Plan_new_spec(1) by blast+
  have "length (sp_pool (clamped s)) \<le> POOL_MAX" using made(1) by (simp add: clamped_def)
  then show ?case using p clamped_cores [of s] unfolding plan_inv_def plan_valid_def by (auto simp: piece_def span_ok_def)
next
  case (excluded p X b n p')
  let ?s = "plan_spec p"
  have inv: "1 \<le> sp_app_cores ?s" "sp_app_cores ?s < CORES_MAX" "sp_os_core ?s \<le> sp_app_cores ?s"
    "\<forall>r \<in> set (reserved_regions ?s). rhi r < 2 ^ 64" "\<forall>r \<in> set (sp_pool ?s @ kernel_list ?s). span_ok r"
    "apart (sp_pool ?s @ kernel_list ?s)" "bytes (sp_pool ?s @ kernel_list ?s) \<inter> bytes (reserved_regions ?s) = {}"
    "bytes (sp_pool ?s) \<inter> X = {}"
    using excluded.IH by (simp_all add: plan_inv_def Let_def)
  have ok: "\<forall>r \<in> set (sp_pool ?s). span_ok r" using inv(5) by simp
  from ok show ?case
  proof (cases rule: exclude_cases [where b = b and n = n])
    case none
    then show ?thesis using excluded by (simp add: region_bytes_new)
  next
    case wraps
    then show ?thesis using excluded.hyps(2) by simp
  next
    case full
    then show ?thesis using excluded.hyps(2) by simp
  next
    case (cut e)
    let ?out = "holes_left b e (sp_pool ?s)"
    have p': "p' = Plan (?s\<lparr>sp_pool := ?out\<rparr>)" using cut(4) excluded.hyps(2) by simp
    have be: "unat b < unat e" using cut(1,2) by (simp add: unat_gt_0)
    have ap: "apart (sp_pool ?s)" "apart (kernel_list ?s)" "bytes (sp_pool ?s) \<inter> bytes (kernel_list ?s) = {}"
      using inv(6) by (simp_all add: apart_append)
    note h = apart_holes_left [OF ap(1) ok be]
    have bo: "bytes ?out = bytes (sp_pool ?s) - {unat b ..< unat e}"
      using ok by (intro bytes_holes_left [OF _ be]) (simp add: span_ok_def)
    have f: "reserved_regions (?s\<lparr>sp_pool := ?out\<rparr>) = reserved_regions ?s" "kernel_list (?s\<lparr>sp_pool := ?out\<rparr>) = kernel_list ?s"
      by (simp_all add: reserved_regions_def cage_region_def kernel_list_def)
    have "apart (?out @ kernel_list ?s)" using h(1) ap bo unfolding apart_append by auto
    moreover have "bytes (?out @ kernel_list ?s) \<inter> bytes (reserved_regions ?s) = {}" using inv(7) bo by auto
    moreover have "bytes ?out \<inter> (X \<union> region_bytes (Region_new b n)) = {}"
      using bo inv(8) cut(2) by (auto simp: region_bytes_new)
    ultimately show ?thesis unfolding plan_inv_def p' Let_def using inv(1-5) h(2) cut(3) f by auto
  qed
qed

section \<open>Addresses\<close>

lemma plan_invD:
  assumes "plan_inv p X"
  shows "sp_app_cores (plan_spec p) < CORES_MAX" "sp_os_core (plan_spec p) \<le> sp_app_cores (plan_spec p)"
    "r \<in> set (reserved_regions (plan_spec p)) \<Longrightarrow> rhi r < 2 ^ 64" "rhi (cage_region (plan_spec p)) < 2 ^ 64"
    "r \<in> set (Plan_pool p) \<Longrightarrow> rhi r < 2 ^ 64"
    "apart (Plan_pool p)" "bytes (Plan_pool p) \<inter> bytes (reserved_regions (plan_spec p)) = {}"
    "bytes (Plan_pool p) \<inter> bytes (kernel_list (plan_spec p)) = {}" "bytes (Plan_pool p) \<inter> X = {}"
  using assms cage_in_reserved [of "plan_spec p"]
  by (auto simp: plan_inv_def Let_def Plan_pool_def apart_append span_ok_def)

lemma unat_core_mult: "c < CORES_MAX \<Longrightarrow> unat l \<le> 4096 \<Longrightarrow> unat (of_nat c * l) = c * unat l" for l :: u64
proof -
  assume c: "c < CORES_MAX" and l: "unat l \<le> 4096"
  have "c * unat l \<le> 143 * 4096" using c l by (intro mult_le_mono) (simp_all add: CORES_MAX_eq)
  moreover have "unat (of_nat c :: u64) = c" using c by (simp add: unat_of_nat CORES_MAX_eq)
  ultimately show ?thesis by (simp add: unat_word_ariths)
qed

lemma in_cage:
  assumes "plan_inv p X" "unat x + unat y \<le> unat (cage_len (sp_app_cores (plan_spec p)))"
  shows "\<exists>a b. (add64 (sp_cage_pa (plan_spec p)) x :: AbiError fail + u64) = Inr a \<and> unat a = rlo (cage_region (plan_spec p)) + unat x \<and>
    (add64 a y :: AbiError fail + u64) = Inr b \<and> unat b = rlo (cage_region (plan_spec p)) + unat x + unat y"
proof -
  let ?c = "sp_cage_pa (plan_spec p)"
  have hi: "unat ?c + unat x + unat y < 2 ^ 64" using plan_invD(4) [OF assms(1)] assms(2) by (simp add: cage_region_def)
  then have "unat (?c + x) = unat ?c + unat x" by (intro unat_add_exact) simp
  moreover from this hi have "unat (?c + x + y) = unat ?c + unat x + unat y" by (simp add: unat_add_exact)
  ultimately show ?thesis using hi by (intro exI [of _ "?c + x"] exI [of _ "?c + x + y"]) (simp add: add64_def cage_region_def)
qed

lemma next_multiple_of_ge: "k \<le> next_multiple_of k m"
  by (simp add: next_multiple_of_def)

lemma cage_room:
  assumes "plan_inv p X"
  shows "65536 + (sp_app_cores (plan_spec p) + 1) * 1024 \<le> unat (cage_len (sp_app_cores (plan_spec p)))"
  unfolding unat_cage_len(1) [OF plan_invD(1) [OF assms]] by (simp only: add_le_cancel_left next_multiple_of_ge)

lemma mbox_at:
  assumes "plan_inv p X" "c \<le> sp_app_cores (plan_spec p)"
  obtains a where "park_mbox_pa p c = Inr a" "unat a = rlo (cage_region (plan_spec p)) + 4352 + 256 * c" "c < 143"
proof -
  have c: "c < CORES_MAX" using plan_invD(1) [OF assms(1)] assms(2) by simp
  have u: "unat PARK_MBOX_OFF = 4352" "unat (of_nat c * PARK_MBOX_LEN) = 256 * c"
    using unat_core_mult [OF c, of PARK_MBOX_LEN] by (simp_all add: plan_consts)
  have "unat PARK_MBOX_OFF + unat (of_nat c * PARK_MBOX_LEN) \<le> unat (cage_len (sp_app_cores (plan_spec p)))"
    using cage_room [OF assms(1)] c u by (simp add: CORES_MAX_eq)
  from in_cage [OF assms(1) this] show thesis using that assms(2) u c by (auto simp: park_mbox_pa_def within_def CORES_MAX_eq)
qed

lemma ctx_at:
  assumes "plan_inv p X" "c \<le> sp_app_cores (plan_spec p)" "2 \<le> c"
  obtains a where "smp_ctx_pa p c = Inr a" "unat a = rlo (cage_region (plan_spec p)) + 65536 + 1024 * c"
proof -
  have c: "c < CORES_MAX" using plan_invD(1) [OF assms(1)] assms(2) by simp
  have u: "unat CORE_CTX_OFF = 65536" "unat (of_nat c * CTX_LEN) = 1024 * c"
    using unat_core_mult [OF c, of CTX_LEN] by (simp_all add: plan_consts)
  have "unat CORE_CTX_OFF + unat (of_nat c * CTX_LEN) \<le> unat (cage_len (sp_app_cores (plan_spec p)))"
    using cage_room [OF assms(1)] assms(2) u by (simp add: algebra_simps)
  from in_cage [OF assms(1) this] show thesis using that assms(2,3) u by (auto simp: smp_ctx_pa_def within_def)
qed

lemma codes_at:
  assumes "plan_inv p X"
  obtains k t where "park_code_pa p = Inr k" "unat k = rlo (cage_region (plan_spec p)) + 4096"
    "switch_code_pa p = Inr t" "unat t = rlo (cage_region (plan_spec p)) + 40960"
proof -
  have "unat PARK_CODE_OFF + unat (0 :: u64) \<le> unat (cage_len (sp_app_cores (plan_spec p)))"
    "unat SWITCH_CODE_OFF + unat (0 :: u64) \<le> unat (cage_len (sp_app_cores (plan_spec p)))"
    using cage_room [OF assms] by (simp_all add: plan_consts)
  from in_cage [OF assms this(1)] in_cage [OF assms this(2)] show thesis
    using that by (auto simp: park_code_pa_def switch_code_pa_def plan_consts)
qed

text \<open>All blocks of the cage, in the order of their addresses: an ascending list has no two that meet.\<close>

definition cage_blocks :: "u64 \<Rightarrow> (nat \<Rightarrow> u64) \<Rightarrow> u64 \<Rightarrow> (nat \<Rightarrow> u64) \<Rightarrow> nat \<Rightarrow> Region list" where
  "cage_blocks k mb t cx n =
     Region_new k 0x100 # map (\<lambda>c. Region_new (mb c) PARK_MBOX_LEN) [0..<Suc n] @
     Region_new t SWITCH_CODE_MAX # map (\<lambda>c. Region_new (cx c) CTX_LEN) [2..<Suc n]"

lemma ascending_apart: "sorted_wrt (\<lambda>a b. rhi a \<le> rlo b) rs \<Longrightarrow> apart rs"
  unfolding apart_def by (erule sorted_wrt_mono_rel [rotated]) (auto simp: region_bytes_def)

lemma ascending_cores:
  assumes "\<And>c. c \<in> {a..<b} \<Longrightarrow> unat (f c) = C + unat bl * c"
  shows "sorted_wrt (\<lambda>x y. rhi x \<le> rlo y) (map (\<lambda>c. Region_new (f c) bl) [a..<b])"
proof -
  have "rhi (Region_new (f c) bl) \<le> rlo (Region_new (f d) bl)" if "c < d" "c \<in> {a..<b}" "d \<in> {a..<b}" for c d
  proof -
    have "unat bl * (c + 1) \<le> unat bl * d" using that(1) by (intro mult_le_mono2) simp
    then show ?thesis using assms [OF that(2)] assms [OF that(3)] by simp
  qed
  then show ?thesis unfolding sorted_wrt_map by (intro sorted_wrt_mono_rel [OF _ sorted_wrt_upt]) auto
qed

lemma cage_blocks_apart:
  assumes k: "unat k = C + 4096" and t: "unat t = C + 40960"
    and mb: "\<And>c. c \<le> n \<Longrightarrow> unat (mb c) = C + 4352 + 256 * c"
    and cx: "\<And>c. c \<le> n \<Longrightarrow> 2 \<le> c \<Longrightarrow> unat (cx c) = C + 65536 + 1024 * c" and n: "n < 143"
  shows "apart (cage_blocks k mb t cx n)"
proof (rule ascending_apart)
  have m: "sorted_wrt (\<lambda>x y. rhi x \<le> rlo y) (map (\<lambda>c. Region_new (mb c) PARK_MBOX_LEN) [0..<Suc n])"
    by (rule ascending_cores [where C = "C + 4352"]) (use mb in \<open>simp add: plan_consts\<close>)
  have x: "sorted_wrt (\<lambda>x y. rhi x \<le> rlo y) (map (\<lambda>c. Region_new (cx c) CTX_LEN) [2..<Suc n])"
    by (rule ascending_cores [where C = "C + 65536"]) (use cx in \<open>simp add: plan_consts\<close>)
  show "sorted_wrt (\<lambda>x y. rhi x \<le> rlo y) (cage_blocks k mb t cx n)"
    unfolding cage_blocks_def sorted_wrt.simps sorted_wrt_append
    using m x k t mb cx n by (auto simp: plan_consts less_Suc_eq_le)
qed

lemma cage_blocks_inside:
  assumes k: "unat k = rlo r + 4096" and t: "unat t = rlo r + 40960"
    and mb: "\<And>c. c \<le> n \<Longrightarrow> unat (mb c) = rlo r + 4352 + 256 * c"
    and cx: "\<And>c. c \<le> n \<Longrightarrow> 2 \<le> c \<Longrightarrow> unat (cx c) = rlo r + 65536 + 1024 * c" and n: "n < 143"
    and room: "65536 + 1024 * (n + 1) \<le> unat (rsize r)"
  shows "bytes (cage_blocks k mb t cx n) \<subseteq> region_bytes r"
proof -
  have "region_bytes x \<subseteq> region_bytes r" if "rlo r \<le> rlo x" "rhi x \<le> rhi r" for x
    using that by (auto simp: region_bytes_def)
  moreover have "rlo r \<le> rlo x \<and> rhi x \<le> rhi r" if "x \<in> set (cage_blocks k mb t cx n)" for x
    using that k t mb cx n room by (auto simp: cage_blocks_def plan_consts less_Suc_eq_le)
  ultimately show ?thesis by (auto simp: bytes_def)
qed

section \<open>A board\<close>

definition demo_spec :: PlanSpec where
  "demo_spec =
     \<lparr>sp_node_ctrl_pa = 0x10000000, sp_cage_pa = 0x10100000, sp_device_window = Region_new 0x10000000 0x1000000,
      sp_black_box = Region_new 0 0, sp_trap_vec_pa = 0x10008000, sp_boot_scratch_pa = 0x10009000,
      sp_net_dma_pa = 0, sp_usb_dma_pa = 0x10200000, sp_pool = demo_board, sp_kernel = Region_new 0x41000000 0x200000,
      sp_ram_base = 0, sp_app_cores = 0, sp_os_core = 1\<rparr>"

lemmas demo_plan_simps = demo_spec_def clamped_def clamp_cores_def plan_consts node_ctrl_len_def cage_len_def
  next_multiple_of_def kernel_list_def cage_region_def reserved_regions_def

lemma demo_plan_valid: "plan_valid (clamped demo_spec)"
  by (simp add: plan_valid_def demo_plan_simps piece_def aligned_def apart_def region_bytes_def
      Int_Un_distrib Int_Un_distrib2)

lemma demo_plan_new: "Plan_new demo_spec = Inr (Plan (clamped demo_spec))"
proof -
  have "length (sp_pool demo_spec) \<le> POOL_MAX" by (simp add: demo_spec_def POOL_MAX_def)
  then show ?thesis using Plan_new_spec(1) [of demo_spec] demo_plan_valid by blast
qed

lemma demo_plan_reach: "plan_reach (Plan (clamped demo_spec)) {}"
  by (rule made [OF _ demo_plan_new]) (simp add: demo_spec_def POOL_MAX_def)

lemma sort_key_unstable: "unstable_sort (sort_key base)"
  by (simp add: unstable_sort_def)

lemma demo_carve:
  "carve_pool (sort_key base) [Region_new 0x40800000 0x800000, Region_new 0x40000000 0x800000]
     [Region_new 0x40100000 0x1000] 0x200000 = Inr [Region_new 0x40200000 0xE00000]"
  by (simp add: carve_pool_def coalesce_def pool_push_def blist_push_def plan_consts check_region_cases slice_at_def
      slice_put_def list_get_def melt_def add64_def sub64_def carve_hole_def cut_hole_def align_piece_def
      PLAN_GRAIN_def upt_rec)

section \<open>Promises\<close>

text \<open>
  C8. The check of a plan never panics and accepts exactly the descriptions that are valid: every required
  address is there and aligned, the cage lies in the device window, no reserved region wraps, and the regions
  of the pool and the kernel are aligned, not empty, and share no byte with each other or with a reserved one.
\<close>

theorem plan_accepts_iff:
  assumes "length (sp_pool s) \<le> POOL_MAX"
  shows "Plan_new s \<noteq> Inl Panic \<and> (Plan_new s = Inr p \<longleftrightarrow> p = Plan (clamped s) \<and> plan_valid (clamped s))"
  using Plan_new_spec [OF assms] by blast

theorem plan_accepts_iff_witness:
  "length (sp_pool demo_spec) \<le> POOL_MAX \<and> Plan_new demo_spec = Inr (Plan (clamped demo_spec))"
proof -
  have "length (sp_pool demo_spec) \<le> POOL_MAX" by (simp add: demo_spec_def POOL_MAX_def)
  then show ?thesis using plan_accepts_iff [of demo_spec "Plan (clamped demo_spec)"] demo_plan_valid by blast
qed

text \<open>
  C35. The pool carved from the banks is exact: its regions are sorted, aligned to the granule and at least
  as large as asked, they hold only bytes of a bank that no hole covers, and every aligned interval of such
  bytes that is large enough lies in them.  Whatever order the sort leaves equal bases in, nothing overflows.
\<close>

theorem carve_pool_exact:
  assumes "unstable_sort srt"
  shows "carve_pool srt banks holes mn \<noteq> Inl Panic \<and>
    (carve_pool srt banks holes mn = Inr out \<longrightarrow>
       pieces out \<and> length out \<le> POOL_MAX \<and> (\<forall>r \<in> set out. mn \<le> rsize r) \<and> bytes out \<subseteq> bytes banks - bytes holes \<and>
       (\<forall>a c. aligned a \<and> aligned c \<and> a < c \<and> unat mn \<le> c - a \<and> {a..<c} \<subseteq> bytes banks - bytes holes \<longrightarrow>
          {a..<c} \<subseteq> bytes out))"
proof -
  have "pieces out \<and> length out \<le> POOL_MAX \<and> (\<forall>r \<in> set out. mn \<le> rsize r) \<and> bytes out \<subseteq> bytes banks - bytes holes \<and>
       (\<forall>a c. aligned a \<and> aligned c \<and> a < c \<and> unat mn \<le> c - a \<and> {a..<c} \<subseteq> bytes banks - bytes holes \<longrightarrow>
          {a..<c} \<subseteq> bytes out)" if o: "carve_pool srt banks holes mn = Inr out"
  proof -
    obtain rs where rs: "spans rs" "bytes rs = bytes banks - bytes holes" "out = aligned_parts mn rs" "length out \<le> POOL_MAX"
      using carve_pool_steps(2) [OF assms o] by blast
    show ?thesis
      using aligned_parts_ok [OF rs(1), of mn] bytes_aligned_parts [OF rs(1), of mn] aligned_parts_largest [OF rs(1), of _ _ mn] rs(2-4)
      by auto
  qed
  then show ?thesis using carve_pool_steps(1) [OF assms] by blast
qed

theorem carve_pool_exact_witness:
  "pieces [Region_new 0x40200000 0xE00000] \<and>
   carve_pool (sort_key base) [Region_new 0x40800000 0x800000, Region_new 0x40000000 0x800000]
     [Region_new 0x40100000 0x1000] 0x200000 = Inr [Region_new 0x40200000 0xE00000]"
  using carve_pool_exact [OF sort_key_unstable, of "[Region_new 0x40800000 0x800000, Region_new 0x40000000 0x800000]"
      "[Region_new 0x40100000 0x1000]" "0x200000" "[Region_new 0x40200000 0xE00000]"] demo_carve by blast

text \<open>
  C34. No slot, no device and no free piece ever holds a byte of the kernel's: in every state of the pool
  built from a plan, the bytes of each holder avoid the reserved regions of the plan, the region of the kernel,
  everything excluded from the pool, and the memory the running kernel calls its own.
\<close>

theorem plan_keeps_kernel:
  assumes "plan_reach p X" "part_reach (Plan_pool p) own g q d" "rsize own = 0 \<or> Region_end own \<noteq> None"
  shows "holds q d h \<inter> (bytes (reserved_regions (plan_spec p)) \<union> bytes (kernel_list (plan_spec p)) \<union> X \<union> region_bytes own) = {}"
proof -
  note inv = plan_invD [OF plan_reach_inv [OF assms(1)]]
  have "boot_ok (Plan_pool p) own" using inv(6) assms(3) by (simp add: boot_ok_def)
  then obtain M where M: "M \<subseteq> pool_memory (Plan_pool p) own" "part_ok M q d" using part_reach_ok [OF assms(2)] by blast
  have "holds q d h \<subseteq> bytes (Plan_pool p) - region_bytes own" using part_okD(3) [OF M(2), of h] M(1) by (auto simp: pool_memory_def)
  then show ?thesis using inv(7-9) by blast
qed

theorem plan_keeps_kernel_witness:
  "holds demo_after Map.empty (HSlot Slot_FIRST) \<inter> bytes (reserved_regions (clamped demo_spec)) = {}"
proof -
  have pool: "Plan_pool (Plan (clamped demo_spec)) = demo_board" by (simp add: Plan_pool_def clamped_def demo_spec_def)
  have own: "rsize demo_own = 0 \<or> Region_end demo_own \<noteq> None" by (simp add: Region_end_def checked_add_def)
  have r: "part_reach (Plan_pool (Plan (clamped demo_spec))) demo_own demo_geo demo_after Map.empty"
    unfolding pool by (rule demo_reach_after)
  show ?thesis using plan_keeps_kernel [OF demo_plan_reach r own, of "HSlot Slot_FIRST"] by auto
qed

text \<open>
  The numbering of the cores is a bijection: a logical core of the plan comes back from its physical
  index, a physical core from its logical number, and a physical index outside the plan has none.
\<close>

theorem plan_cores_roundtrip:
  assumes "plan_reach p X"
  shows "(c \<le> Plan_app_cores p \<longrightarrow> phys_core p c \<le> Plan_app_cores p \<and> logical_core p (phys_core p c) = Some c) \<and>
    (k \<le> Plan_app_cores p \<longrightarrow> (\<exists>i. logical_core p k = Some i \<and> i \<le> Plan_app_cores p \<and> phys_core p i = k)) \<and>
    (Plan_app_cores p < k \<longrightarrow> logical_core p k = None)"
  using plan_invD(1,2) [OF plan_reach_inv [OF assms]]
  by (auto simp: phys_core_def logical_core_def LCore_new_def Plan_app_cores_def Let_def)

theorem plan_cores_roundtrip_witness:
  "logical_core (Plan (clamped demo_spec)) (phys_core (Plan (clamped demo_spec)) 1) = Some 1 \<and>
   phys_core (Plan (clamped demo_spec)) 1 = 0"
proof -
  have "(1 :: nat) \<le> Plan_app_cores (Plan (clamped demo_spec))" "phys_core (Plan (clamped demo_spec)) 1 = 0"
    by (simp_all add: Plan_app_cores_def phys_core_def clamped_def clamp_cores_def demo_spec_def)
  then show ?thesis using plan_cores_roundtrip [OF demo_plan_reach, of 1 0] by blast
qed

text \<open>
  C36. The blocks of the cage never meet: the parking loop, the mailboxes of all cores (the OS core 0 and
  every app core, also on a board with one or none), the copy of the switch code and the context blocks of
  all secondary cores are inside the reserved region of the cage, and no two of them share a byte; none of
  the address computations overflows, and a core outside the plan gets no block at all.
\<close>

theorem plan_blocks_apart:
  assumes "plan_reach p X"
  shows "\<exists>k t mb cx. park_code_pa p = Inr k \<and> switch_code_pa p = Inr t \<and>
    (\<forall>c. park_mbox_pa p c = (if c \<le> Plan_app_cores p then Inr (mb c) else Inl (Err (OutOfPlan c (Plan_app_cores p))))) \<and>
    (\<forall>c. smp_ctx_pa p c = (if 2 \<le> c \<and> c \<le> Plan_app_cores p then Inr (cx c) else Inl (Err (OutOfPlan c (Plan_app_cores p))))) \<and>
    apart (cage_blocks k mb t cx (Plan_app_cores p)) \<and>
    bytes (cage_blocks k mb t cx (Plan_app_cores p)) \<subseteq> region_bytes (cage_region (plan_spec p))"
proof -
  note inv = plan_reach_inv [OF assms]
  let ?n = "sp_app_cores (plan_spec p)" and ?C = "rlo (cage_region (plan_spec p))"
  obtain k t where kt: "park_code_pa p = Inr k" "unat k = ?C + 4096" "switch_code_pa p = Inr t" "unat t = ?C + 40960"
    by (rule codes_at [OF inv])
  have "\<forall>c. \<exists>a. c \<le> ?n \<longrightarrow> park_mbox_pa p c = Inr a \<and> unat a = ?C + 4352 + 256 * c" using mbox_at [OF inv] by metis
  then obtain mb where mb: "\<And>c. c \<le> ?n \<Longrightarrow> park_mbox_pa p c = Inr (mb c) \<and> unat (mb c) = ?C + 4352 + 256 * c" by metis
  have "\<forall>c. \<exists>a. c \<le> ?n \<and> 2 \<le> c \<longrightarrow> smp_ctx_pa p c = Inr a \<and> unat a = ?C + 65536 + 1024 * c" using ctx_at [OF inv] by metis
  then obtain cx where cx: "\<And>c. c \<le> ?n \<Longrightarrow> 2 \<le> c \<Longrightarrow> smp_ctx_pa p c = Inr (cx c) \<and> unat (cx c) = ?C + 65536 + 1024 * c" by metis
  have n: "?n < 143" using plan_invD(1) [OF inv] by (simp add: CORES_MAX_eq)
  have room: "65536 + 1024 * (?n + 1) \<le> unat (rsize (cage_region (plan_spec p)))"
    using cage_room [OF inv] by (simp add: cage_region_def)
  note lay = cage_blocks_apart [where C = ?C and n = ?n and k = k and t = t and mb = mb and cx = cx, OF kt(2,4) _ _ n]
    cage_blocks_inside [where r = "cage_region (plan_spec p)" and n = ?n and k = k and t = t and mb = mb and cx = cx, OF kt(2,4) _ _ n room]
  have "park_mbox_pa p c = (if c \<le> ?n then Inr (mb c) else Inl (Err (OutOfPlan c ?n)))" for c
    using mb [of c] by (simp add: park_mbox_pa_def within_def)
  moreover have "smp_ctx_pa p c = (if 2 \<le> c \<and> c \<le> ?n then Inr (cx c) else Inl (Err (OutOfPlan c ?n)))" for c
    using cx [of c] by (auto simp: smp_ctx_pa_def within_def reject_if_def)
  ultimately show ?thesis unfolding Plan_app_cores_def using kt(1,3) lay mb cx by blast
qed

theorem plan_blocks_apart_witness:
  "\<exists>a b x y. park_mbox_pa (Plan (clamped demo_spec)) 0 = Inr a \<and> park_mbox_pa (Plan (clamped demo_spec)) 1 = Inr b \<and>
     smp_ctx_pa (Plan (clamped demo_spec)) 2 = Inr x \<and> smp_ctx_pa (Plan (clamped demo_spec)) 3 = Inr y \<and>
     apart [Region_new a PARK_MBOX_LEN, Region_new b PARK_MBOX_LEN, Region_new x CTX_LEN, Region_new y CTX_LEN]"
proof -
  have c: "Plan_app_cores (Plan (clamped demo_spec)) = 3"
    by (simp add: Plan_app_cores_def clamped_def clamp_cores_def demo_spec_def)
  obtain k t mb cx where m: "\<forall>c. park_mbox_pa (Plan (clamped demo_spec)) c = (if c \<le> 3 then Inr (mb c) else Inl (Err (OutOfPlan c 3)))"
    "\<forall>c. smp_ctx_pa (Plan (clamped demo_spec)) c = (if 2 \<le> c \<and> c \<le> 3 then Inr (cx c) else Inl (Err (OutOfPlan c 3)))"
    "apart (cage_blocks k mb t cx 3)"
    using plan_blocks_apart [OF demo_plan_reach] unfolding c by blast
  have "apart [Region_new (mb 0) PARK_MBOX_LEN, Region_new (mb 1) PARK_MBOX_LEN, Region_new (cx 2) CTX_LEN, Region_new (cx 3) CTX_LEN]"
    using m(3) by (simp add: apart_def cage_blocks_def numeral_3_eq_3 numeral_2_eq_2 upt_rec)
  then show ?thesis using m(1) [rule_format, of 0] m(1) [rule_format, of 1] m(2) [rule_format, of 2] m(2) [rule_format, of 3] by auto
qed

text \<open>
  The documented invariant of a plan says that every region of its pool is aligned to the granule; a hole
  that is not aligned leaves a region that is not.  The partition pool aligns its sources again, so no
  partition is affected.
\<close>

lemma exclude_leaves_unaligned:
  "\<exists>p. exclude_from_pool (Plan (clamped demo_spec)) 0x40000000 0x1000 = Inr p \<and>
     Plan_pool p = [Region_new 0x40001000 0x7FF000] \<and> \<not> piece (Region_new 0x40001000 0x7FF000)"
  by (simp add: exclude_from_pool_def check_region_cases add64_def cut_hole_def pool_push_def blist_push_def
      clamped_def demo_spec_def Plan_pool_def POOL_MAX_def piece_def aligned_def)

end
