(* ===== verification/Gpt.thy ===== *)
theory Gpt
  imports Dev Bounded
begin

unbundle bit_operations_syntax

text \<open>
  The partition table of a disk that is shared with another operating system (\<^verbatim>\<open>fw/src/gpt.rs\<close>,
  \<^verbatim>\<open>fw/src/bytes.rs\<close>): reading it, and choosing the window that HopOS may write.  The reader of blocks is a
  parameter: it has a state of its own and fills the buffer, or says that the block did not come.
\<close>

section \<open>Numbers in a blob\<close>

definition blob_array :: "nat \<Rightarrow> u8 list \<Rightarrow> nat \<Rightarrow> u8 list option" where
  "blob_array n b off = (if off + n \<le> length b then Some (take n (drop off b)) else None)"

definition blob_le16 :: "u8 list \<Rightarrow> nat \<Rightarrow> u16 option" where
  "blob_le16 b off = map_option (\<lambda>bs. ucast (from_le_bytes bs)) (blob_array 2 b off)"

definition blob_le32 :: "u8 list \<Rightarrow> nat \<Rightarrow> u32 option" where
  "blob_le32 b off = map_option (\<lambda>bs. ucast (from_le_bytes bs)) (blob_array 4 b off)"

definition blob_le64 :: "u8 list \<Rightarrow> nat \<Rightarrow> u64 option" where
  "blob_le64 b off = map_option from_le_bytes (blob_array 8 b off)"

definition unwrap_or :: "'a \<Rightarrow> 'a option \<Rightarrow> 'a" where
  "unwrap_or d x = (case x of None \<Rightarrow> d | Some v \<Rightarrow> v)"

section \<open>The table\<close>

definition MAX_PARTS :: nat where "MAX_PARTS = 16"
definition MAX_ENTRIES :: u32 where "MAX_ENTRIES = 1024"
definition NAME_LEN :: nat where "NAME_LEN = 36"

datatype GptError =
    GptRead u64
  | GptNoSignature
  | GptEntrySize u32 nat
  | GptBackwards u32 u64 u64
  | GptTooMany u32

record Part =
  first :: u64
  last_lba :: u64
  pname :: "u8 list"
  pname_len :: nat

record Table =
  first_usable :: u64
  last_usable :: u64
  parts :: "Part list"

text \<open>The letters that \<^verbatim>\<open>read\<close> stores are ASCII, so the conversion to a string never falls back.\<close>

definition Part_name :: "Part \<Rightarrow> u8 list" where
  "Part_name p = (if pname_len p \<le> length (pname p) then take (pname_len p) (pname p) else [])"

definition Part_blocks :: "Part \<Rightarrow> unit fail + u64" where
  "Part_blocks p = rbind (sub64 (last_lba p) (first p)) (\<lambda>d. add64 d 1)"

text \<open>The loop that takes the name over, letter by letter, until a zero.\<close>

fun take_name :: "u8 list \<Rightarrow> nat list \<Rightarrow> Part \<Rightarrow> Part" where
  "take_name e [] p = p"
| "take_name e (k # ks) p =
     (let c = unwrap_or 0 (blob_le16 e (56 + 2 * k)) in
      if c = 0 then p
      else take_name e ks (p\<lparr>pname := (pname p)[k := if 0x20 \<le> c \<and> c \<le> 0x7e then ucast c else 0x3f], pname_len := k + 1\<rparr>))"

definition entry_part :: "u8 list \<Rightarrow> Part" where
  "entry_part e =
     take_name e [0..<NAME_LEN]
       \<lparr>first = unwrap_or 0 (blob_le64 e 32), last_lba = unwrap_or 0 (blob_le64 e 40),
        pname = replicate NAME_LEN 0, pname_len = 0\<rparr>"

definition empty_entry :: "u8 list \<Rightarrow> bool" where
  "empty_entry e \<longleftrightarrow> 16 \<le> length e \<and> list_all (\<lambda>b. b = 0) (take 16 e)"

text \<open>One turn of the loop: entry \<open>i\<close> of the block at hand.\<close>

definition read_entry :: "u8 list \<Rightarrow> nat \<Rightarrow> nat \<Rightarrow> nat \<Rightarrow> GptError + Part option" where
  "read_entry block per_block esize i =
     rbind (ok_or (blob_array esize block ((i mod per_block) * esize)) (GptEntrySize (of_nat esize) (length block))) (\<lambda>e.
       if empty_entry e then Inr None
       else if unwrap_or 0 (blob_le64 e 40) < unwrap_or 0 (blob_le64 e 32)
       then Inl (GptBackwards (of_nat i) (unwrap_or 0 (blob_le64 e 32)) (unwrap_or 0 (blob_le64 e 40)))
       else Inr (Some (entry_part e)))"

type_synonym 'd reader = "'d \<Rightarrow> u64 \<Rightarrow> u8 list \<Rightarrow> bool \<times> u8 list \<times> 'd"

definition load_block :: "'d reader \<Rightarrow> 'd \<Rightarrow> u8 list \<Rightarrow> u64 \<Rightarrow> nat \<Rightarrow> nat \<Rightarrow> GptError + u8 list \<times> 'd" where
  "load_block rd d block entry_lba per_block i =
     (if i mod per_block = 0 then
        (let lba = saturating_add entry_lba (of_nat (i div per_block)); (ok, block', d') = rd d lba block in
         if ok then Inr (block', d') else Inl (GptRead lba))
      else Inr (block, d))"

fun read_entries ::
    "'d reader \<Rightarrow> 'd \<Rightarrow> u8 list \<Rightarrow> u64 \<Rightarrow> nat \<Rightarrow> nat \<Rightarrow> nat list \<Rightarrow> Part list \<Rightarrow> GptError + Part list" where
  "read_entries rd d block entry_lba per_block esize [] ps = Inr ps"
| "read_entries rd d block entry_lba per_block esize (i # is) ps =
     rbind (load_block rd d block entry_lba per_block i) (\<lambda>(block, d).
     rbind (read_entry block per_block esize i) (\<lambda>r.
       case r of
         None \<Rightarrow> read_entries rd d block entry_lba per_block esize is ps
       | Some p \<Rightarrow>
           (case blist_push MAX_PARTS ps p of
              Inl _ \<Rightarrow> Inl (GptTooMany (of_nat (i + 1)))
            | Inr ps' \<Rightarrow> read_entries rd d block entry_lba per_block esize is ps')))"

text \<open>\<^verbatim>\<open>b"EFI PART"\<close>.\<close>

definition EFI_PART :: "u8 list" where
  "EFI_PART = [0x45, 0x46, 0x49, 0x20, 0x50, 0x41, 0x52, 0x54]"

definition read_header :: "u8 list \<Rightarrow> (u64 \<times> u64 \<times> u64 \<times> u32 \<times> u32) option" where
  "read_header block =
     (case (blob_le64 block 40, blob_le64 block 48, blob_le64 block 72, blob_le32 block 80, blob_le32 block 84) of
        (Some a, Some b, Some c, Some n, Some s) \<Rightarrow> Some (a, b, c, n, s)
      | _ \<Rightarrow> None)"

definition gpt_read :: "'d reader \<Rightarrow> 'd \<Rightarrow> u8 list \<Rightarrow> GptError + Table" where
  "gpt_read rd d block0 =
     (let bs = length block0; (ok, block, d) = rd d 1 block0 in
      if \<not> ok then Inl (GptRead 1)
      else if blob_array 8 block 0 \<noteq> Some EFI_PART then Inl GptNoSignature
      else case read_header block of
        None \<Rightarrow> Inl (GptEntrySize 0 bs)
      | Some (fu, lu, entry_lba, count, esize) \<Rightarrow>
          if esize < 128 \<or> unat esize > bs then Inl (GptEntrySize esize bs)
          else if count > MAX_ENTRIES then Inl (GptTooMany count)
          else
            rbind (read_entries rd d block entry_lba (bs div unat esize) (unat esize) [0..<unat count] []) (\<lambda>ps.
              Inr \<lparr>first_usable = fu, last_usable = lu, parts = ps\<rparr>))"

section \<open>The largest gap\<close>

definition gap_end :: "Table \<Rightarrow> u64 \<Rightarrow> u64" where
  "gap_end t pos =
     (let stop = saturating_add (last_usable t) 1;
          fs = map first (filter (\<lambda>p. first p > pos) (parts t)) in
      min (if fs = [] then stop else Min (set fs)) stop)"

text \<open>The loop of \<^verbatim>\<open>largest_gap\<close>; it has no bound of its own.\<close>

partial_function (option) gap_from :: "Table \<Rightarrow> u64 \<Rightarrow> u64 \<times> u64 \<Rightarrow> (unit fail + u64 \<times> u64) option" where
  "gap_from t pos best =
     (if pos \<le> last_usable t then
        (case find (\<lambda>p. first p \<le> pos \<and> pos \<le> last_lba p) (parts t) of
           Some p \<Rightarrow>
             (case checked_add (last_lba p) 1 of
                Some nxt \<Rightarrow> gap_from t nxt best
              | None \<Rightarrow> Some (Inr best))
         | None \<Rightarrow>
             (let e = gap_end t pos in
              case sub64 e pos of
                Inl f \<Rightarrow> Some (Inl f)
              | Inr d \<Rightarrow> gap_from t e (if d > snd best then (pos, d) else best)))
      else Some (Inr best))"

definition largest_gap :: "Table \<Rightarrow> (unit fail + u64 \<times> u64) option" where
  "largest_gap t = gap_from t (first_usable t) (0, 0)"

end
