(* ===== verification/GptProps.thy ===== *)
theory GptProps
  imports Gpt
begin

unbundle bit_operations_syntax

text \<open>
  The window that HopOS writes on a shared disk: the table that is read is the one on the disk, the search for
  a gap returns, and what it returns is the largest run of blocks that no partition covers.  The one
  exception is a table whose last usable block is the largest number there is: there the search never ends.
\<close>

section \<open>Runs of free blocks\<close>

definition free_lba :: "Table \<Rightarrow> nat \<Rightarrow> bool" where
  "free_lba t x \<longleftrightarrow> (\<forall>p \<in> set (parts t). \<not> (unat (first p) \<le> x \<and> x \<le> unat (last_lba p)))"

definition free_run :: "Table \<Rightarrow> nat \<Rightarrow> nat \<Rightarrow> bool" where
  "free_run t a b \<longleftrightarrow>
     unat (first_usable t) \<le> a \<and> b \<le> unat (last_usable t) + 1 \<and> (\<forall>x. a \<le> x \<and> x < b \<longrightarrow> free_lba t x)"

definition parts_ok :: "Table \<Rightarrow> bool" where
  "parts_ok t \<longleftrightarrow> (\<forall>p \<in> set (parts t). first p \<le> last_lba p)"

definition gap_ok :: "Table \<Rightarrow> u64 \<times> u64 \<Rightarrow> bool" where
  "gap_ok t g \<longleftrightarrow> snd g = 0 \<or> free_run t (unat (fst g)) (unat (fst g) + unat (snd g))"

text \<open>A position the walk can be at: no free run crosses it.\<close>

definition edge :: "Table \<Rightarrow> u64 \<Rightarrow> bool" where
  "edge t pos \<longleftrightarrow> pos = first_usable t \<or> \<not> free_lba t (unat pos - 1) \<or> \<not> free_lba t (unat pos) \<or> last_usable t < pos"

definition covered :: "Table \<Rightarrow> nat \<Rightarrow> nat \<Rightarrow> bool" where
  "covered t n c \<longleftrightarrow> (\<forall>a b. a < b \<and> b \<le> n \<and> free_run t a b \<longrightarrow> b - a \<le> c)"

lemma coveredD: "covered t n c \<Longrightarrow> a < b \<Longrightarrow> b \<le> n \<Longrightarrow> free_run t a b \<Longrightarrow> b - a \<le> c"
  unfolding covered_def by blast

lemma edge_splits:
  assumes "edge t pos" "free_run t a b" "pos \<le> last_usable t" "\<not> b \<le> unat pos"
  shows "unat pos \<le> a"
proof (rule ccontr)
  assume "\<not> unat pos \<le> a"
  then have "a \<le> unat pos - 1" "unat pos - 1 < b" "a \<le> unat pos" "unat pos < b" "unat pos \<noteq> unat (first_usable t)"
    using assms(2,4) by (auto simp: free_run_def)
  then show False using assms(1-3) unfolding edge_def free_run_def by (auto simp: not_less)
qed

lemma find_part_None: "find (\<lambda>p. first p \<le> pos \<and> pos \<le> last_lba p) (parts t) = None \<longleftrightarrow> free_lba t (unat pos)"
  by (auto simp: find_None_iff free_lba_def word_le_nat_alt)

section \<open>The search\<close>

lemma gap_end_ok:
  assumes "parts_ok t" "pos \<le> last_usable t" "last_usable t \<noteq> - 1" "free_lba t (unat pos)"
  defines "e \<equiv> gap_end t pos"
  shows "pos < e" "unat e \<le> unat (last_usable t) + 1" "\<And>x. unat pos \<le> x \<Longrightarrow> x < unat e \<Longrightarrow> free_lba t x" "edge t e"
proof -
  let ?fs = "map first (filter (\<lambda>p. first p > pos) (parts t))"
  have lt: "unat (last_usable t) + 1 < 2 ^ 64"
  proof -
    have "unat (last_usable t) \<noteq> unat (- 1 :: u64)" using assms(3) by (simp add: word_unat_eq_iff)
    moreover have "unat (- 1 :: u64) = 2 ^ 64 - 1" by (simp add: unsigned_minus_1_eq_mask mask_eq_exp_minus_1)
    ultimately show ?thesis using unat64_less [of "last_usable t"] by linarith
  qed
  define stop where "stop = saturating_add (last_usable t) 1"
  have stop: "unat stop = unat (last_usable t) + 1"
    using lt unat_add_exact [of "last_usable t" 1] by (simp add: stop_def saturating_add_def)
  have e: "e = min (if ?fs = [] then stop else Min (set ?fs)) stop" by (simp add: e_def gap_end_def stop_def Let_def)
  have cases: "e = stop \<or> (\<exists>p \<in> set (parts t). first p > pos \<and> e = first p)"
  proof (cases "?fs = []")
    case False
    then have "Min (set ?fs) \<in> set ?fs" by (intro Min_in) (simp_all only: List.finite_set set_empty not_False_eq_True)
    then show ?thesis unfolding e using False by (auto simp: min_def split: if_splits)
  qed (simp add: e)
  have below: "e \<le> first p" if "p \<in> set (parts t)" "first p > pos" for p
  proof -
    have m: "first p \<in> set ?fs" using that by auto
    then have "Min (set ?fs) \<le> first p" by (intro Min_le) auto
    moreover have "?fs \<noteq> []" using m by (metis list.set(1) empty_iff)
    ultimately show ?thesis unfolding e using min.coboundedI1 by (simp only: if_False)
  qed
  have "pos < stop" using assms(2) stop by (simp add: word_less_nat_alt word_le_nat_alt)
  then show "pos < e" using cases by auto
  have "e \<le> stop" unfolding e by (rule min.cobounded2)
  then show "unat e \<le> unat (last_usable t) + 1" unfolding stop [symmetric] by (simp add: word_le_nat_alt)
  show "free_lba t x" if x: "unat pos \<le> x" "x < unat e" for x
    unfolding free_lba_def
  proof (intro ballI notI)
    fix p assume p: "p \<in> set (parts t)" "unat (first p) \<le> x \<and> x \<le> unat (last_lba p)"
    show False
    proof (cases "first p > pos")
      case True
      then show False using below [OF p(1)] p(2) x(2) by (simp add: word_le_nat_alt)
    next
      case False
      then have "unat (first p) \<le> unat pos" "unat pos \<le> unat (last_lba p)" using p(2) x(1) by (simp_all add: word_less_nat_alt)
      then show False using assms(4) p(1) by (auto simp: free_lba_def)
    qed
  qed
  show "edge t e"
    using cases
  proof
    assume "e = stop"
    then show ?thesis using stop by (simp add: edge_def word_less_nat_alt)
  next
    assume "\<exists>p \<in> set (parts t). first p > pos \<and> e = first p"
    then have "\<not> free_lba t (unat e)" using assms(1) by (auto simp: free_lba_def parts_ok_def word_le_nat_alt)
    then show ?thesis by (simp add: edge_def)
  qed
qed

lemma covered_all:
  assumes "covered t (unat pos) c" "last_usable t < pos"
  shows "a < b \<Longrightarrow> free_run t a b \<Longrightarrow> b - a \<le> c"
  using assms coveredD [of t "unat pos" c a b] by (auto simp: free_run_def word_less_nat_alt)

text \<open>A partition in the way: nothing up to its end is free.\<close>

lemma skip_part:
  assumes "p \<in> set (parts t)" "first p \<le> pos" "edge t pos" "covered t (unat pos) c" "pos \<le> last_usable t"
    and "\<not> b \<le> unat pos" "a < b" "free_run t a b"
  shows "unat (last_lba p) < a"
proof -
  have "unat pos \<le> a" by (rule edge_splits [OF assms(3,8,5,6)])
  moreover have "free_lba t a" using assms(7,8) by (auto simp: free_run_def)
  ultimately show ?thesis using assms(1,2) unfolding free_lba_def word_le_nat_alt by force
qed

lemma gap_from_ok:
  assumes "parts_ok t" "last_usable t \<noteq> - 1"
    and "first_usable t \<le> pos" "edge t pos" "gap_ok t best" "covered t (unat pos) (unat (snd best))"
  shows "\<exists>g. gap_from t pos best = Some (Inr g) \<and> gap_ok t g \<and> (\<forall>a b. a < b \<and> free_run t a b \<longrightarrow> b - a \<le> unat (snd g))"
  using assms(3-6)
proof (induction "2 ^ 64 - unat pos" arbitrary: pos best rule: less_induct)
  case less
  show ?case
  proof (cases "pos \<le> last_usable t")
    case False
    then show ?thesis using less.prems(3) covered_all [OF less.prems(4)] by (auto simp: gap_from.simps [of t pos])
  next
    case le: True
    have decr: "2 ^ 64 - unat q < 2 ^ 64 - unat pos" if "pos < q" for q
      using that unat64_less [of q] by (simp add: word_less_nat_alt diff_less_mono2)
    show ?thesis
    proof (cases "find (\<lambda>p. first p \<le> pos \<and> pos \<le> last_lba p) (parts t)")
      case (Some p)
      then have p: "p \<in> set (parts t)" "first p \<le> pos" "pos \<le> last_lba p" by (auto simp: find_Some_iff)
      note skip = skip_part [OF p(1,2) less.prems(2,4) le]
      show ?thesis
      proof (cases "checked_add (last_lba p) 1")
        case None
        then have "unat (last_lba p) = 2 ^ 64 - 1" using unat64_less [of "last_lba p"] by (simp add: chk_simps)
        then have "b \<le> unat pos" if "a < b" "free_run t a b" for a b
          using skip [OF _ that] that unat64_less [of "last_usable t"] by (auto simp: free_run_def)
        then have "\<forall>a b. a < b \<and> free_run t a b \<longrightarrow> b - a \<le> unat (snd best)" using coveredD [OF less.prems(4)] by blast
        then show ?thesis using Some None le less.prems(3) by (simp add: gap_from.simps [of t pos])
      next
        case n: (Some nxt)
        then have un: "unat nxt = unat (last_lba p) + 1" by (simp add: chk_simps)
        have lt: "pos < nxt" using p(3) un by (simp add: word_less_nat_alt word_le_nat_alt)
        have "\<not> free_lba t (unat nxt - 1)" using p un unfolding free_lba_def word_le_nat_alt by (auto intro!: bexI [of _ p])
        then have ed: "edge t nxt" by (simp add: edge_def)
        have "b - a \<le> unat (snd best)" if h: "a < b" "b \<le> unat nxt" "free_run t a b" for a b
        proof (cases "b \<le> unat pos")
          case True
          then show ?thesis by (rule coveredD [OF less.prems(4) h(1) _ h(3)])
        next
          case False
          then show ?thesis using skip [OF False h(1,3)] h(1,2) un by simp
        qed
        then have "covered t (unat nxt) (unat (snd best))" by (simp add: covered_def)
        then show ?thesis
          using less.hyps [OF decr [OF lt] _ ed less.prems(3)] less.prems(1) lt Some n le by (simp add: gap_from.simps [of t pos])
      qed
    next
      case None
      then have fr: "free_lba t (unat pos)" by (simp add: find_part_None)
      define e where "e = gap_end t pos"
      note ge = gap_end_ok [OF assms(1) le assms(2) fr, folded e_def]
      have pe: "unat pos < unat e" using ge(1) by (simp add: word_less_nat_alt)
      have ud: "unat (e - pos) = unat e - unat pos" using ge(1) by (intro unat_sub) simp
      have sub: "(sub64 e pos :: unit fail + u64) = Inr (e - pos)" using ge(1) by (simp add: sub64_def)
      define best' where "best' = (if e - pos > snd best then (pos, e - pos) else best)"
      have run: "free_run t (unat pos) (unat e)" using ge(2,3) less.prems(1) by (simp add: free_run_def word_le_nat_alt)
      have "gap_ok t best'" using less.prems(3) run ud pe by (simp add: best'_def gap_ok_def)
      moreover have "covered t (unat e) (unat (snd best'))"
        unfolding covered_def
      proof (intro allI impI, elim conjE)
        fix a b assume h: "a < b" "b \<le> unat e" "free_run t a b"
        have ge': "unat (snd best) \<le> unat (snd best')" "unat e - unat pos \<le> unat (snd best')"
          unfolding ud [symmetric] by (auto simp: best'_def word_less_nat_alt)
        show "b - a \<le> unat (snd best')"
        proof (cases "b \<le> unat pos")
          case True
          then show ?thesis using coveredD [OF less.prems(4) h(1) _ h(3)] ge'(1) by simp
        next
          case False
          then show ?thesis using edge_splits [OF less.prems(2) h(3) le False] h(2) ge'(2) by simp
        qed
      qed
      moreover have "gap_from t pos best = gap_from t e best'"
        using None le sub by (simp add: gap_from.simps [of t pos] e_def [symmetric] best'_def)
      ultimately show ?thesis
        using less.hyps [OF decr [OF ge(1)] _ ge(4), of best'] less.prems(1) ge(1) by simp
    qed
  qed
qed

lemma largest_gap_ok:
  assumes "parts_ok t" "last_usable t \<noteq> - 1"
  shows "\<exists>g. largest_gap t = Some (Inr g) \<and> gap_ok t g \<and> (\<forall>a b. a < b \<and> free_run t a b \<longrightarrow> b - a \<le> unat (snd g))"
  unfolding largest_gap_def
proof (rule gap_from_ok [OF assms])
  show "covered t (unat (first_usable t)) (unat (snd (0 :: u64, 0 :: u64)))" by (auto simp: covered_def free_run_def)
qed (simp_all add: edge_def gap_ok_def)

text \<open>The exception.\<close>

lemma gap_from_stuck:
  assumes "last_usable t = - 1" "free_lba t (2 ^ 64 - 1)"
  shows "gap_from t (- 1) best = None"
proof -
  have u: "unat (- 1 :: u64) = 2 ^ 64 - 1" by (simp add: unsigned_minus_1_eq_mask mask_eq_exp_minus_1)
  have no: "find (\<lambda>p. first p \<le> - 1 \<and> - 1 \<le> last_lba p) (parts t) = None"
    using assms(2) find_part_None [of "- 1" t] u by simp
  have "filter (\<lambda>p. first p > - 1) (parts t) = []" by (simp add: filter_empty_conv)
  then have e: "gap_end t (- 1) = - 1" using assms(1) u by (simp add: gap_end_def saturating_add_def)
  have "\<not> (tt = t \<and> pos = - 1)" if r: "gap_from tt pos bb = Some r" for tt pos bb r
  proof (rule gap_from.raw_induct [OF _ r, where P = "\<lambda>tt pos bb r. \<not> (tt = t \<and> pos = - 1)"], rule notI)
    fix f :: "Table \<Rightarrow> u64 \<Rightarrow> u64 \<times> u64 \<Rightarrow> (unit fail + u64 \<times> u64) option" and tt pos bb y
    assume ih: "\<And>tt pos bb y. f tt pos bb = Some y \<Longrightarrow> \<not> (tt = t \<and> pos = - 1)"
      and b: "(if pos \<le> last_usable tt then
        (case find (\<lambda>p. first p \<le> pos \<and> pos \<le> last_lba p) (parts tt) of
           None \<Rightarrow> (let e = gap_end tt pos in
              case sub64 e pos of Inl f \<Rightarrow> Some (Inl f) | Inr d \<Rightarrow> f tt e (if snd bb < d then (pos, d) else bb))
         | Some p \<Rightarrow> (case checked_add (last_lba p) 1 of None \<Rightarrow> Some (Inr bb) | Some nxt \<Rightarrow> f tt nxt bb))
      else Some (Inr bb)) = Some y"
      and q: "tt = t \<and> pos = - 1"
    have "f t (- 1) bb = Some y" using b q assms(1) no e by (simp add: sub64_def word_less_nat_alt)
    then show False using ih by blast
  qed
  then show ?thesis by (cases "gap_from t (- 1) best") (blast | simp)+
qed

section \<open>Reading\<close>

lemma take_name_keeps [simp]: "first (take_name e ks p) = first p" "last_lba (take_name e ks p) = last_lba p"
  by (induction ks arbitrary: p) (simp_all add: Let_def)

lemma entry_part_lbas [simp]:
  "first (entry_part e) = unwrap_or 0 (blob_le64 e 32)" "last_lba (entry_part e) = unwrap_or 0 (blob_le64 e 40)"
  by (simp_all add: entry_part_def)

lemma read_entry_SomeD: "read_entry b per sz i = Inr (Some p) \<Longrightarrow> first p \<le> last_lba p"
  by (auto simp: read_entry_def res_simps not_less split: if_splits)

text \<open>Whatever the reader gives, the entries that are kept run forwards.\<close>

lemma read_entries_sound:
  assumes "read_entries rd d block lba per sz is ps = Inr out" "\<forall>p \<in> set ps. first p \<le> last_lba p" "length ps \<le> MAX_PARTS"
  shows "(\<forall>p \<in> set out. first p \<le> last_lba p) \<and> length out \<le> MAX_PARTS"
  using assms
proof (induction "is" arbitrary: d block ps)
  case Nil
  then show ?case by simp
next
  case (Cons i "is")
  obtain b2 d2 where l: "load_block rd d block lba per i = Inr (b2, d2)" using Cons.prems(1) by (auto simp: res_simps)
  obtain r where r: "read_entry b2 per sz i = Inr r" using Cons.prems(1) l by (auto simp: res_simps)
  show ?case
  proof (cases r)
    case None
    then show ?thesis using Cons l r by auto
  next
    case (Some p)
    then have "length ps < MAX_PARTS" "read_entries rd d2 b2 lba per sz is (ps @ [p]) = Inr out"
      using Cons.prems(1,3) l r by (auto simp: blist_push_def split: if_splits)
    then show ?thesis using Cons.IH [of d2 b2 "ps @ [p]"] Cons.prems(2) read_entry_SomeD r Some by auto
  qed
qed

lemma gpt_read_sound:
  assumes "gpt_read rd d block = Inr t"
  shows "parts_ok t" "length (parts t) \<le> MAX_PARTS"
proof -
  obtain ok b d2 where rd: "rd d 1 block = (ok, b, d2)" by (cases "rd d 1 block") auto
  obtain fu lu lba n sz where h: "read_header b = Some (fu, lu, lba, n, sz)"
    using assms rd by (auto simp: gpt_read_def Let_def split: if_splits option.splits)
  obtain ps where ps: "read_entries rd d2 b lba (length block div unat sz) (unat sz) [0..<unat n] [] = Inr ps" "t = \<lparr>first_usable = fu, last_usable = lu, parts = ps\<rparr>"
    using assms rd h by (auto simp: gpt_read_def Let_def res_simps split: if_splits)
  from read_entries_sound [OF ps(1)] show "parts_ok t" "length (parts t) \<le> MAX_PARTS" by (simp_all add: ps(2) parts_ok_def)
qed

text \<open>A disk whose blocks all come.\<close>

definition plain :: "(u64 \<Rightarrow> u8 list) \<Rightarrow> unit reader" where
  "plain dk = (\<lambda>d lba b. (True, dk lba, ()))"

definition entry_at :: "(u64 \<Rightarrow> u8 list) \<Rightarrow> u64 \<Rightarrow> nat \<Rightarrow> nat \<Rightarrow> nat \<Rightarrow> u8 list" where
  "entry_at dk lba per sz i = take sz (drop (i mod per * sz) (dk (saturating_add lba (of_nat (i div per)))))"

definition forwards :: "u8 list \<Rightarrow> bool" where
  "forwards e \<longleftrightarrow> empty_entry e \<or> first (entry_part e) \<le> last_lba (entry_part e)"

definition kept_parts :: "u8 list list \<Rightarrow> Part list" where
  "kept_parts es = map entry_part (filter (\<lambda>e. \<not> empty_entry e) es)"

lemma load_plain:
  "load_block (plain dk) d block lba per i = Inr (if i mod per = 0 then dk (saturating_add lba (of_nat (i div per))) else block, ())"
  by (simp add: load_block_def plain_def Let_def)

lemma read_entry_plain:
  assumes "\<And>l. length (dk l) = bs" "0 < sz" "sz \<le> bs"
  shows "read_entry (dk (saturating_add lba (of_nat (i div (bs div sz))))) (bs div sz) sz i =
    (let e = entry_at dk lba (bs div sz) sz i in
     if empty_entry e then Inr None
     else if forwards e then Inr (Some (entry_part e))
     else Inl (GptBackwards (of_nat i) (unwrap_or 0 (blob_le64 e 32)) (unwrap_or 0 (blob_le64 e 40))))"
proof -
  have "0 < bs div sz" using assms(2,3) by (simp add: div_greater_zero_iff)
  then have "i mod (bs div sz) + 1 \<le> bs div sz" by (simp add: Suc_leI)
  then have "(i mod (bs div sz) + 1) * sz \<le> bs div sz * sz" by (rule mult_le_mono1)
  also have "\<dots> \<le> bs" by simp
  finally have "i mod (bs div sz) * sz + sz \<le> bs" by simp
  then show ?thesis by (simp add: read_entry_def blob_array_def assms(1) entry_at_def Let_def forwards_def not_le [symmetric])
qed

lemma mod_zero_or_same_block: "0 < per \<Longrightarrow> Suc i mod per \<noteq> 0 \<Longrightarrow> Suc i div per = i div per"
  by (simp add: div_Suc)

lemma read_entries_plain:
  assumes dk: "\<And>l. length (dk l) = bs" "0 < sz" "sz \<le> bs" and "i \<le> n" "length ps \<le> MAX_PARTS"
    and "i mod (bs div sz) = 0 \<or> block = dk (saturating_add lba (of_nat (i div (bs div sz))))"
  shows "read_entries (plain dk) () block lba (bs div sz) sz [i..<n] ps = Inr out \<longleftrightarrow>
    (\<forall>e \<in> set (map (entry_at dk lba (bs div sz) sz) [i..<n]). forwards e) \<and>
    out = ps @ kept_parts (map (entry_at dk lba (bs div sz) sz) [i..<n]) \<and> length out \<le> MAX_PARTS"
  using assms(4-6)
proof (induction "n - i" arbitrary: i block ps)
  case 0
  then show ?case by (auto simp: kept_parts_def)
next
  case (Suc k)
  let ?per = "bs div sz"
  let ?b = "dk (saturating_add lba (of_nat (i div ?per)))" and ?e = "entry_at dk lba ?per sz i"
  have per: "0 < ?per" using dk(2,3) by (simp add: div_greater_zero_iff)
  have up: "[i..<n] = i # [Suc i..<n]" using Suc.hyps(2) by (intro upt_conv_Cons) simp
  have l: "load_block (plain dk) () block lba ?per i = Inr (?b, ())" using Suc.prems(3) by (auto simp: load_plain)
  have nb: "Suc i mod ?per = 0 \<or> ?b = dk (saturating_add lba (of_nat (Suc i div ?per)))"
    using mod_zero_or_same_block [OF per, of i] by (cases "Suc i mod ?per = 0") simp_all
  have ih: "read_entries (plain dk) () ?b lba ?per sz [Suc i..<n] qs = Inr out \<longleftrightarrow>
    (\<forall>e \<in> set (map (entry_at dk lba ?per sz) [Suc i..<n]). forwards e) \<and>
    out = qs @ kept_parts (map (entry_at dk lba ?per sz) [Suc i..<n]) \<and> length out \<le> MAX_PARTS" if "length qs \<le> MAX_PARTS" for qs
    using Suc.hyps(2) that nb by (intro Suc.hyps(1)) simp_all
  note re = read_entry_plain [where dk = dk and lba = lba and i = i, OF dk, unfolded Let_def]
  consider (empty) "empty_entry ?e" | (kept) "\<not> empty_entry ?e" "forwards ?e" | (turned) "\<not> empty_entry ?e" "\<not> forwards ?e" by blast
  then show ?case
  proof cases
    case empty
    then show ?thesis unfolding up using l re ih [OF Suc.prems(2)] by (simp add: kept_parts_def forwards_def)
  next
    case kept
    then show ?thesis unfolding up using l re ih [of "ps @ [entry_part ?e]"] Suc.prems(2)
      by (auto simp: kept_parts_def blist_push_def)
  next
    case turned
    then show ?thesis unfolding up using l re by simp
  qed
qed

lemma gpt_read_iff:
  assumes "\<And>l. length (dk l) = length block"
  shows "gpt_read (plain dk) () block = Inr t \<longleftrightarrow>
    blob_array 8 (dk 1) 0 = Some EFI_PART \<and>
    (\<exists>fu lu lba n sz. read_header (dk 1) = Some (fu, lu, lba, n, sz) \<and> 128 \<le> sz \<and> unat sz \<le> length block \<and> n \<le> MAX_ENTRIES \<and>
       (let es = map (entry_at dk lba (length block div unat sz) (unat sz)) [0..<unat n] in
        (\<forall>e \<in> set es. forwards e) \<and> length (kept_parts es) \<le> MAX_PARTS \<and>
        t = \<lparr>first_usable = fu, last_usable = lu, parts = kept_parts es\<rparr>))"
proof (cases "read_header (dk 1)")
  case None
  then show ?thesis by (simp add: gpt_read_def plain_def Let_def)
next
  case (Some h)
  obtain fu lu lba n sz where h: "h = (fu, lu, lba, n, sz)" by (cases h)
  show ?thesis
  proof (cases "128 \<le> sz \<and> unat sz \<le> length block")
    case True
    then have "0 < unat sz" "unat sz \<le> length block" by (simp_all add: word_le_nat_alt)
    note re = read_entries_plain [where dk = dk and i = 0 and n = "unat n" and ps = "[]" and block = "dk 1" and lba = lba, OF assms this]
    show ?thesis
      using re Some h True
      by (auto simp: gpt_read_def plain_def [symmetric] Let_def res_simps plain_def [of dk, THEN fun_cong, THEN fun_cong, THEN fun_cong] not_less)
  next
    case False
    then show ?thesis using Some h by (auto simp: gpt_read_def plain_def Let_def not_less not_le)
  qed
qed

section \<open>A disk\<close>

text \<open>A disk of small blocks: the header, and one entry that runs from block 10 to block 19.\<close>

definition disk_header :: "u64 \<Rightarrow> u64 \<Rightarrow> u8 \<Rightarrow> u8 list" where
  "disk_header fu lu n =
     EFI_PART @ replicate 32 0 @ to_le_bytes fu @ to_le_bytes lu @ replicate 16 0 @ to_le_bytes 2 @ [n, 0, 0, 0, 128, 0, 0, 0] @ replicate 40 0"

definition disk_entry :: "u8 list" where
  "disk_entry = 1 # replicate 31 0 @ to_le_bytes 10 @ to_le_bytes 19 @ replicate 80 0"

definition small_disk :: "u64 \<Rightarrow> u64 \<Rightarrow> u8 \<Rightarrow> u64 \<Rightarrow> u8 list" where
  "small_disk fu lu n lba = (if lba = 1 then disk_header fu lu n else disk_entry)"

lemma small_disk_length: "length (small_disk fu lu n lba) = 128"
  by (simp add: small_disk_def disk_header_def disk_entry_def EFI_PART_def)

lemmas small_disk_simps = small_disk_def disk_header_def disk_entry_def EFI_PART_def blob_le64_def blob_le32_def
  blob_array_def unwrap_or_def

lemma four_bytes: "from_le_bytes [b, 0, 0, 0] = ucast b"
  by (simp add: from_le_bytes_def)

lemma small_disk_parts:
  "blob_array 8 (small_disk 6 1000 1 1) 0 = Some EFI_PART" "blob_array 8 (small_disk 6 (- 1) 0 1) 0 = Some EFI_PART"
  "read_header (small_disk 6 1000 1 1) = Some (6, 1000, 2, 1, 128)" "read_header (small_disk 6 (- 1) 0 1) = Some (6, - 1, 2, 0, 128)"
  "entry_at (small_disk 6 1000 1) 2 1 128 0 = disk_entry" "empty_entry disk_entry = False"
  "first (entry_part disk_entry) = 10" "last_lba (entry_part disk_entry) = 19"
  by (simp_all add: small_disk_simps read_header_def entry_at_def saturating_add_def empty_entry_def four_bytes)

lemma small_disk_reads:
  "gpt_read (plain (small_disk 6 1000 1)) () (replicate 128 0) =
     Inr \<lparr>first_usable = 6, last_usable = 1000, parts = [entry_part disk_entry]\<rparr>"
  "gpt_read (plain (small_disk 6 (- 1) 0)) () (replicate 128 0) = Inr \<lparr>first_usable = 6, last_usable = - 1, parts = []\<rparr>"
proof -
  have l: "length (small_disk a b c l) = length (replicate 128 (0 :: u8))" for a b c l by (simp add: small_disk_length)
  have f: "forwards disk_entry" unfolding forwards_def small_disk_parts(7,8) by simp
  show "gpt_read (plain (small_disk 6 1000 1)) () (replicate 128 0) =
     Inr \<lparr>first_usable = 6, last_usable = 1000, parts = [entry_part disk_entry]\<rparr>"
    using small_disk_parts f by (simp add: gpt_read_iff [where dk = "small_disk 6 1000 1", OF l] kept_parts_def MAX_ENTRIES_def MAX_PARTS_def Let_def)
  show "gpt_read (plain (small_disk 6 (- 1) 0)) () (replicate 128 0) = Inr \<lparr>first_usable = 6, last_usable = - 1, parts = []\<rparr>"
    using small_disk_parts by (simp add: gpt_read_iff [where dk = "small_disk 6 (- 1) 0", OF l] kept_parts_def MAX_ENTRIES_def MAX_PARTS_def Let_def)
qed

section \<open>Promises\<close>

text \<open>
  C37. The window on a shared disk touches no partition.  For every table that is read, from whatever
  reader, the search returns; the run it returns is inside the usable blocks, no block of it belongs to a
  partition, and no other such run is longer.  The hypothesis leaves out one value of the header, for which
  the search does not end.
\<close>

theorem gpt_window_safe:
  assumes "gpt_read rd d block = Inr t" "last_usable t \<noteq> - 1"
  shows "\<exists>f n. largest_gap t = Some (Inr (f, n)) \<and>
    (n \<noteq> 0 \<longrightarrow> first_usable t \<le> f \<and> unat f + unat n \<le> unat (last_usable t) + 1) \<and>
    (\<forall>p \<in> set (parts t). {unat f ..< unat f + unat n} \<inter> {unat (first p) .. unat (last_lba p)} = {}) \<and>
    (\<forall>a b. a < b \<and> free_run t a b \<longrightarrow> b - a \<le> unat n)"
proof -
  obtain g where g: "largest_gap t = Some (Inr g)" "gap_ok t g" "\<forall>a b. a < b \<and> free_run t a b \<longrightarrow> b - a \<le> unat (snd g)"
    using largest_gap_ok [OF gpt_read_sound(1) [OF assms(1)] assms(2)] by blast
  obtain f n where fn: "g = (f, n)" by (cases g)
  have run: "n \<noteq> 0 \<Longrightarrow> free_run t (unat f) (unat f + unat n)" using g(2) by (auto simp: gap_ok_def fn)
  have "{unat f ..< unat f + unat n} \<inter> {unat (first p) .. unat (last_lba p)} = {}" if p: "p \<in> set (parts t)" for p
  proof (cases "n = 0")
    case False
    then show ?thesis using run p unfolding free_run_def free_lba_def by fastforce
  qed simp
  moreover have "n \<noteq> 0 \<longrightarrow> first_usable t \<le> f \<and> unat f + unat n \<le> unat (last_usable t) + 1"
    using run by (simp add: free_run_def word_le_nat_alt)
  ultimately show ?thesis using g(1,3) fn by (intro exI [of _ f] exI [of _ n]) simp
qed

theorem gpt_window_safe_witness:
  "\<exists>f n. largest_gap \<lparr>first_usable = 6, last_usable = 1000, parts = [entry_part disk_entry]\<rparr> = Some (Inr (f, n)) \<and>
     {unat f ..< unat f + unat n} \<inter> {10 .. 19} = {} \<and> 981 \<le> unat n"
proof -
  let ?t = "\<lparr>first_usable = 6, last_usable = 1000, parts = [entry_part disk_entry]\<rparr>"
  have "last_usable ?t \<noteq> - 1" by simp
  from gpt_window_safe [OF small_disk_reads(1) this] obtain f n where
    g: "largest_gap ?t = Some (Inr (f, n))"
      "\<forall>p \<in> set (parts ?t). {unat f ..< unat f + unat n} \<inter> {unat (first p) .. unat (last_lba p)} = {}"
      "\<forall>a b. a < b \<and> free_run ?t a b \<longrightarrow> b - a \<le> unat n" by blast
  have "free_run ?t 20 1001" using small_disk_parts(7,8) by (auto simp: free_run_def free_lba_def simp del: entry_part_lbas)
  then have "981 \<le> unat n" using g(3) [rule_format, of 20 1001] by simp
  then show ?thesis using g(1,2) small_disk_parts(7,8) by (auto simp del: entry_part_lbas)
qed

text \<open>
  C38. Reading is exact.  On a disk whose blocks come, the reader accepts exactly a signed header with an
  entry that fits its block, at most \<open>MAX_ENTRIES\<close> entries that each run forwards, and at most \<open>MAX_PARTS\<close>
  filled ones; the partitions of the table are then the filled entries, in the order of the disk.
\<close>

theorem gpt_read_exact:
  assumes "\<And>l. length (dk l) = length block"
  shows "gpt_read (plain dk) () block = Inr t \<longleftrightarrow>
    blob_array 8 (dk 1) 0 = Some EFI_PART \<and>
    (\<exists>fu lu lba n sz. read_header (dk 1) = Some (fu, lu, lba, n, sz) \<and> 128 \<le> sz \<and> unat sz \<le> length block \<and> n \<le> MAX_ENTRIES \<and>
       (let es = map (entry_at dk lba (length block div unat sz) (unat sz)) [0..<unat n] in
        (\<forall>e \<in> set es. forwards e) \<and> length (kept_parts es) \<le> MAX_PARTS \<and>
        t = \<lparr>first_usable = fu, last_usable = lu, parts = kept_parts es\<rparr>))"
  using gpt_read_iff [of dk block t] assms by blast

theorem gpt_read_exact_witness:
  "blob_array 8 (small_disk 6 1000 1 1) 0 = Some EFI_PART"
proof -
  have "\<And>l. length (small_disk 6 1000 1 l) = length (replicate 128 (0 :: u8))" by (simp add: small_disk_length)
  from gpt_read_exact [where dk = "small_disk 6 1000 1" and t = "\<lparr>first_usable = 6, last_usable = 1000, parts = [entry_part disk_entry]\<rparr>", OF this]
  show ?thesis using small_disk_reads(1) by blast
qed

text \<open>
  C39. The search does not end when the header says that the last usable block is the largest number there is: the
  end of the gap is cut off at that number and the walk stays on it.  The reader accepts such a header.
\<close>

theorem gpt_search_hangs:
  "\<exists>t. gpt_read (plain (small_disk 6 (- 1) 0)) () (replicate 128 0) = Inr t \<and> largest_gap t = None"
proof -
  let ?t = "\<lparr>first_usable = 6, last_usable = - 1, parts = []\<rparr> :: Table"
  have u: "unat (- 1 :: u64) = 2 ^ 64 - 1" by (simp add: unsigned_minus_1_eq_mask mask_eq_exp_minus_1)
  have e: "gap_end ?t 6 = - 1" using u by (simp add: gap_end_def saturating_add_def)
  have "largest_gap ?t = gap_from ?t (- 1) (if 0 < (- 7 :: u64) then (6, - 7) else (0, 0))"
    using e by (simp add: largest_gap_def gap_from.simps [of ?t 6] sub64_def Let_def)
  also have "\<dots> = None" by (rule gap_from_stuck) (simp_all add: free_lba_def)
  finally have "largest_gap ?t = None" .
  then show ?thesis using small_disk_reads(2) by blast
qed

text \<open>The size of a partition that covers every block does not fit in a number: the code aborts on it.\<close>

lemma blocks_panics: "first p = 0 \<Longrightarrow> last_lba p = - 1 \<Longrightarrow> Part_blocks p = Inl Panic"
  by (simp add: Part_blocks_def sub64_def add64_def unsigned_minus_1_eq_mask mask_eq_exp_minus_1)

end
