(* ===== verification/Watchdog.thy ===== *)
theory Watchdog
  imports HopPrelude
begin

text \<open>
  The policy of the node watchdog (\<^verbatim>\<open>kern/src/watchdog.rs\<close>): when the hardware is petted, and when petting stops
  so that the hardware resets the node.  The two verbs of the hardware are the boundary: the answer of \<^verbatim>\<open>arm\<close>
  is an argument, and a tick says whether it called \<^verbatim>\<open>pet\<close>.  The owner of the policy calls \<open>tick\<close> and
  \<open>request_reset\<close> one after the other; such a sequence is a run.
\<close>

definition GUARD_SECS :: u64 where "GUARD_SECS = 120"

datatype Phase = Idle | Guard | Live | Withheld

datatype WEvent =
    Unguarded
  | Armed
  | GuardExpired
  | WentLive
  | Miss u64
  | ResetRequested string

record Policy =
  deadline :: u64
  phase :: Phase
  misses :: u64
  reset :: "string option"

definition saturating_mul :: "u64 \<Rightarrow> u64 \<Rightarrow> u64" where
  "saturating_mul a b = (if unat a * unat b < 2 ^ 64 then a * b else - 1)"

definition Policy_start :: "bool \<Rightarrow> u64 \<Rightarrow> u64 \<Rightarrow> Policy \<times> WEvent" where
  "Policy_start arms counter hz =
     (let p = \<lparr>deadline = saturating_add counter (saturating_mul GUARD_SECS hz), phase = Idle, misses = 0, reset = None\<rparr> in
      if \<not> arms then (p, Unguarded) else (p\<lparr>phase := Guard\<rparr>, Armed))"

definition request_reset :: "Policy \<Rightarrow> string \<Rightarrow> Policy" where
  "request_reset p reason = (case reset p of None \<Rightarrow> p\<lparr>reset := Some reason\<rparr> | Some _ \<Rightarrow> p)"

text \<open>One round: the event, whether the hardware was petted, and the new state.\<close>

definition tick :: "Policy \<Rightarrow> u64 \<Rightarrow> bool \<Rightarrow> unit fail + WEvent option \<times> bool \<times> Policy" where
  "tick p counter alive =
     (if phase p = Idle \<or> phase p = Withheld then Inr (None, False, p)
      else case reset p of
        Some r \<Rightarrow> Inr (Some (ResetRequested r), False, p\<lparr>phase := Withheld\<rparr>)
      | None \<Rightarrow>
          if phase p = Guard then
            (if alive then Inr (Some WentLive, True, p\<lparr>phase := Live\<rparr>)
             else if counter \<ge> deadline p then Inr (Some GuardExpired, False, p\<lparr>phase := Withheld\<rparr>)
             else Inr (None, True, p))
          else if alive then Inr (None, True, p\<lparr>misses := 0\<rparr>)
          else rbind (add64 (misses p) 1) (\<lambda>m. Inr (Some (Miss m), False, p\<lparr>misses := m\<rparr>)))"

section \<open>Runs\<close>

datatype call = Ask string | Tick u64 bool

fun wd_call :: "Policy \<Rightarrow> call \<Rightarrow> unit fail + bool \<times> Policy" where
  "wd_call p (Ask r) = Inr (False, request_reset p r)"
| "wd_call p (Tick c alive) = rbind (tick p c alive) (\<lambda>(_, pet, p'). Inr (pet, p'))"

fun wd_run :: "Policy \<Rightarrow> call list \<Rightarrow> unit fail + Policy" where
  "wd_run p [] = Inr p"
| "wd_run p (c # cs) = rbind (wd_call p c) (\<lambda>(_, p'). wd_run p' cs)"

lemma wd_run_append: "wd_run p (xs @ ys) = rbind (wd_run p xs) (\<lambda>q. wd_run q ys)"
  by (induction xs arbitrary: p) (auto simp: rbind_assoc intro!: rbind_cong)

definition no_ask :: "call list \<Rightarrow> bool" where
  "no_ask cs \<longleftrightarrow> (\<forall>r. Ask r \<notin> set cs)"

definition never_alive :: "call list \<Rightarrow> bool" where
  "never_alive cs \<longleftrightarrow> (\<forall>c. Tick c True \<notin> set cs)"

definition before :: "u64 \<Rightarrow> call list \<Rightarrow> bool" where
  "before d cs \<longleftrightarrow> (\<forall>c alive. Tick c alive \<in> set cs \<longrightarrow> c < d)"

text \<open>What the state remembers of the calls so far.\<close>

definition wd_inv :: "u64 \<Rightarrow> call list \<Rightarrow> Policy \<Rightarrow> bool" where
  "wd_inv d cs p \<longleftrightarrow> deadline p = d \<and> phase p \<noteq> Idle \<and> (reset p = None \<longrightarrow> no_ask cs) \<and>
     (phase p = Guard \<longrightarrow> never_alive cs \<and> before d cs) \<and> unat (misses p) \<le> length cs"

lemma wd_call_inv:
  assumes "wd_inv d cs p" "length cs + 1 < 2 ^ 64"
  shows "\<exists>pet q. wd_call p c = Inr (pet, q) \<and> wd_inv d (cs @ [c]) q"
proof (cases c)
  case (Ask r)
  then show ?thesis using assms(1)
    by (auto simp: request_reset_def wd_inv_def no_ask_def never_alive_def before_def split: option.splits)
next
  case (Tick n alive)
  have m: "unat (misses p) + 1 < 2 ^ 64" using assms by (simp add: wd_inv_def)
  then have "(add64 (misses p) 1 :: unit fail + u64) = Inr (misses p + 1)" "unat (misses p + 1) = unat (misses p) + 1"
    by (simp_all add: add64_def unat_word_ariths)
  then show ?thesis using assms(1) Tick
    by (cases "phase p") (auto simp: tick_def wd_inv_def no_ask_def never_alive_def before_def not_le split: option.splits)
qed

lemma wd_run_inv:
  assumes "Policy_start True counter hz = (p, e)" "length cs < 2 ^ 64"
  shows "\<exists>q. wd_run p cs = Inr q \<and> wd_inv (saturating_add counter (saturating_mul GUARD_SECS hz)) cs q"
  using assms(2)
proof (induction cs rule: rev_induct)
  case Nil
  then show ?case using assms(1)
    by (auto simp: Policy_start_def wd_inv_def no_ask_def never_alive_def before_def)
next
  case (snoc c cs)
  then obtain q where q: "wd_run p cs = Inr q" "wd_inv (saturating_add counter (saturating_mul GUARD_SECS hz)) cs q" by auto
  show ?case using wd_call_inv [OF q(2), of c] snoc.prems q(1) by (auto simp: wd_run_append)
qed

text \<open>
  C40. Petting needs a reason.  After any sequence of calls the policy is still running, and a round pets the
  hardware only if no reset was ever asked for, and either this round has proof that the node lives, or no
  round so far had it and the counter of this round and of every earlier one is below the deadline of the boot.
  So a node that shows no life is reset, and nothing that comes later starts the petting again.
\<close>

theorem watchdog_pets_justified:
  assumes "Policy_start True counter hz = (p, e)" "length cs + 1 < 2 ^ 64"
  shows "\<exists>q pet q'. wd_run p cs = Inr q \<and> wd_call q (Tick n alive) = Inr (pet, q') \<and>
    (pet \<longrightarrow> no_ask cs \<and> (alive \<or> never_alive cs \<and>
       before (saturating_add counter (saturating_mul GUARD_SECS hz)) (cs @ [Tick n alive])))"
proof -
  let ?d = "saturating_add counter (saturating_mul GUARD_SECS hz)"
  have "length cs < 2 ^ 64" using assms(2) by simp
  then obtain q where q: "wd_run p cs = Inr q" "wd_inv ?d cs q" using wd_run_inv [OF assms(1)] by blast
  obtain pet q' where c: "wd_call q (Tick n alive) = Inr (pet, q')" using wd_call_inv [OF q(2) assms(2)] by blast
  have "no_ask cs \<and> (alive \<or> never_alive cs \<and> before ?d (cs @ [Tick n alive]))" if pet
    using c q(2) that
    by (auto simp: tick_def wd_inv_def before_def not_le res_simps split: if_splits option.splits)
  then show ?thesis using q(1) c by blast
qed

theorem watchdog_pets_justified_witness:
  "\<exists>q pet q'. wd_run (fst (Policy_start True 1000 10)) [Tick 2300 False] = Inr q \<and>
     wd_call q (Tick 2301 False) = Inr (pet, q') \<and> \<not> pet"
proof -
  obtain q pet q' where h: "wd_run (fst (Policy_start True 1000 10)) [Tick 2300 False] = Inr q"
    "wd_call q (Tick 2301 False) = Inr (pet, q')"
    "pet \<longrightarrow> before (saturating_add 1000 (saturating_mul GUARD_SECS 10)) [Tick 2300 False, Tick 2301 False]"
    using watchdog_pets_justified [where counter = 1000 and hz = 10 and cs = "[Tick 2300 False]" and n = 2301 and alive = False, OF prod.collapse [symmetric]] by auto
  have "\<not> before (saturating_add 1000 (saturating_mul GUARD_SECS 10)) [Tick 2300 False, Tick 2301 False]"
    by (auto simp: before_def saturating_add_def saturating_mul_def GUARD_SECS_def)
  then show ?thesis using h by blast
qed

end
