(* ===== verification/Checksum.thy ===== *)
theory Checksum
  imports HopPrelude
begin

unbundle bit_operations_syntax

text \<open>
  The content sum that kernel and apps compute over the same file (\<^verbatim>\<open>abi/src/checksum.rs\<close>): FNV-1a over 64 bits,
  in one go or in pieces.
\<close>

definition FNV_OFFSET :: u64 where "FNV_OFFSET = 0xcbf29ce484222325"
definition FNV_PRIME :: u64 where "FNV_PRIME = 0x00000100000001b3"

datatype Fnv64 = Fnv64 (Fnv64_sum: u64)

definition Fnv64_new :: Fnv64 where
  "Fnv64_new = Fnv64 FNV_OFFSET"

primrec Fnv64_write :: "Fnv64 \<Rightarrow> u8 list \<Rightarrow> Fnv64" where
  "Fnv64_write h [] = h"
| "Fnv64_write h (x # xs) = Fnv64_write (Fnv64 ((Fnv64_sum h XOR ucast x) * FNV_PRIME)) xs"

definition fnv64 :: "u8 list \<Rightarrow> u64" where
  "fnv64 b = Fnv64_sum (Fnv64_write Fnv64_new b)"

text \<open>A file in pieces has the sum of the whole.\<close>

lemma write_append: "Fnv64_write h (xs @ ys) = Fnv64_write (Fnv64_write h xs) ys"
  by (induction xs arbitrary: h) simp_all

text \<open>The prime is odd, so the product with it can be undone.\<close>

lemma prime_inverse: "a * FNV_PRIME * 0xce965057aff6957b = a" for a :: u64
proof -
  have "FNV_PRIME * 0xce965057aff6957b = 1" by (simp add: FNV_PRIME_def)
  then show ?thesis unfolding mult.assoc by simp
qed

lemma step_inj: "a * FNV_PRIME = b * FNV_PRIME \<longleftrightarrow> a = b" for a b :: u64
proof
  assume "a * FNV_PRIME = b * FNV_PRIME"
  then have "a * FNV_PRIME * 0xce965057aff6957b = b * FNV_PRIME * 0xce965057aff6957b" by (rule arg_cong)
  then show "a = b" unfolding prime_inverse .
qed simp

lemma xor_right_inj: "a XOR c = b XOR c \<longleftrightarrow> a = b" for a b c :: u64
proof
  assume "a XOR c = b XOR c"
  then have "(a XOR c) XOR c = (b XOR c) XOR c" by (rule arg_cong)
  then show "a = b" by (simp add: xor.assoc)
qed simp

lemma write_inj: "Fnv64_sum (Fnv64_write g xs) = Fnv64_sum (Fnv64_write h xs) \<longleftrightarrow> Fnv64_sum g = Fnv64_sum h"
proof (induction xs arbitrary: g h)
  case (Cons x xs)
  then show ?case by (simp add: step_inj xor_right_inj)
qed simp

lemma ucast_byte_inj: "(ucast x :: u64) = ucast y \<longleftrightarrow> x = y" for x y :: u8
proof
  assume "(ucast x :: u64) = ucast y"
  then have "unat (ucast x :: u64) = unat (ucast y :: u64)" by (rule arg_cong)
  then show "x = y" by (simp add: unsigned_ucast_eq take_bit_nat_eq_self unsigned_less [THEN less_trans] word_unat_eq_iff)
qed simp

text \<open>
  One changed byte always changes the sum: two files of the same length that differ in exactly one place never
  have the same sum.
\<close>

theorem fnv_detects_one_byte: "fnv64 (xs @ a # ys) = fnv64 (xs @ b # ys) \<longleftrightarrow> a = b"
proof -
  let ?s = "Fnv64_sum (Fnv64_write Fnv64_new xs)"
  have "fnv64 (xs @ a # ys) = fnv64 (xs @ b # ys) \<longleftrightarrow> ?s XOR ucast a = ?s XOR ucast b"
    unfolding fnv64_def write_append by (simp add: write_inj step_inj)
  also have "\<dots> \<longleftrightarrow> (ucast a :: u64) = ucast b" using xor_right_inj [of "ucast a" ?s "ucast b"] by (simp add: xor.commute)
  finally show ?thesis by (simp add: ucast_byte_inj)
qed

text \<open>The sums of the tests of the source: the empty file and \<^verbatim>\<open>"a"\<close>.\<close>

lemma fnv_samples: "fnv64 [] = 0xcbf29ce484222325" "fnv64 [0x61] = 0xaf63dc4c8601ec8c"
  by (simp_all add: fnv64_def Fnv64_new_def FNV_OFFSET_def FNV_PRIME_def)

end
