(* ===== verification/Spec2Isabelle.thy ===== *)
theory Spec2Isabelle
  imports Bounded Place PoolSafe RingFifo HeapLock PartProps Grants GwProps PlanProps GptProps Watchdog Checksum
begin

text \<open>
  A verification library for HopOS, a bare-metal operating system in Rust that runs apps in cages: each
  slot has cores, a memory partition, device grants and a pair of rings towards the kernel of its own.  The
  library models the parts of the system that make this isolation true, and proves it.

  \<^bold>\<open>The program.\<close>  A slot gets its cores from the core placement (\<^verbatim>\<open>kern/src/pool.rs\<close>), its memory and its
  device ranges from the partition pool (\<^verbatim>\<open>kern/src/partmem.rs\<close>), and the windows on its devices from a grant
  (\<^verbatim>\<open>kern/src/grants.rs\<close>).  Its image is checked before it is placed (\<^verbatim>\<open>abi/src/place.rs\<close>).  It talks to the
  kernel over rings in shared memory (\<^verbatim>\<open>abi/src/ring.rs\<close>), which neither side may trust.  Kernel and apps
  allocate from one heap type (\<^verbatim>\<open>heap/src/lib.rs\<close>) and keep small fixed collections (\<^verbatim>\<open>bounded/src/lib.rs\<close>).
  Frames of a slot reach the outside, and those of the outside a slot, only through the address translation of
  the node (\<^verbatim>\<open>net/src/nat.rs\<close>), which keeps its connections in a table (\<^verbatim>\<open>net/src/flows.rs\<close>) and rewrites the
  headers in place (\<^verbatim>\<open>net/src/wire.rs\<close>, \<^verbatim>\<open>net/src/gw.rs\<close>).  Which memory there is to give comes from the plan of the board
  (\<^verbatim>\<open>abi/src/layout/plan.rs\<close>), and which part of a shared disk from its partition table (\<^verbatim>\<open>fw/src/gpt.rs\<close>).

  \<^bold>\<open>Conventions.\<close>  The build has overflow checks and aborts on a panic, so an unchecked \<^verbatim>\<open>+\<close> that overflows is
  the value \<open>Panic\<close> of the error type \<open>fail\<close> and theorems say that it does not happen.  A \<^verbatim>\<open>Result\<close> is a sum
  with the error on the left and \<open>rbind\<close> is the \<^verbatim>\<open>?\<close> operator (\<open>HopPrelude\<close>).  \<^verbatim>\<open>u64\<close> and smaller integers
  are words where wrapping or bits matter; \<^verbatim>\<open>usize\<close> counters that the code bounds are natural numbers.  Where
  code asks the global heap for room, the answer is an argument of the model (a function or a flag), so the
  theorems hold for a heap that refuses at any point.

  \<^bold>\<open>Theories, in the order of their dependence.\<close>

  \<^item> \<open>HopPrelude\<close>: the result type, machine integer types, and the lemmas on lists, options and words that
    the components share.
  \<^item> \<open>Bounded\<close> (\<^verbatim>\<open>bounded/src/lib.rs\<close>): \<open>BoundedVec\<close> and \<open>Text\<close>.  Any sequence of operations refines the
    same sequence on a plain list that refuses when full (\<open>bv_run_refines\<close>), and text is cut on a letter.
    The locale \<open>bounded_seq\<close> states the contract of a bounded sequence; it is interpreted on the array and on
    its abstract list.
  \<^item> \<open>Abi\<close>, \<open>Place\<close> (\<^verbatim>\<open>abi/src\<close>): regions, errors, slot numbers, and the check of an image.  \<open>build\<close> never
    panics, and it accepts exactly the images that a declarative specification accepts.
  \<^item> \<open>Dev\<close> (\<^verbatim>\<open>dev/src/lib.rs\<close>): physical memory as a store of bytes, with views, copies and word accesses;
    the copies are the byte copy and make word accesses at aligned addresses only.
  \<^item> \<open>Kern\<close> (\<^verbatim>\<open>kern/src\<close>): the error enum, core numbers, and \<open>SlotVec\<close>, whose contract is the locale
    \<open>slot_table\<close>.
  \<^item> \<open>Pool\<close> (model), \<open>PoolInv\<close> (every operation keeps \<open>places_inv\<close>), \<open>Adopt\<close> (\<^verbatim>\<open>kern/src/slots.rs\<close>: the
    check of a handoff and the loop that restores its claims), \<open>PoolSafe\<close> (reachable states): a
    slot without a core group has its cores to itself, a pool core serves one group, and a release undoes a
    placement.  A handoff comes in as the code's check and loop let it in, under one condition that they leave
    to the previous kernel (\<open>os_pools\<close>); \<open>handoff_os_pools\<close> shows when a kernel meets it, and
    \<open>adopt_foreign_pool\<close> what happens when it does not.
  \<^item> \<open>Ring\<close> (model), \<open>RingSafe\<close> (a hostile peer may write anything into the shared memory, and, for the reader,
    between any two of its accesses; each side stays inside the ring and the record), \<open>RingFifo\<close> (two honest sides implement a queue; the locale \<open>channel\<close>
    is interpreted on the ring).
  \<^item> \<open>Heap\<close> (model over the words of the region), \<open>HeapView\<close>, \<open>HeapList\<close>, \<open>HeapInv\<close> (the invariant: the
    blocks tile the region, no two free ones are neighbours, and the lists of the size classes hold exactly
    the free ones), \<open>HeapMid\<close>, \<open>HeapAlloc\<close>, \<open>HeapFind\<close>,
    \<open>HeapOps\<close> (alloc and free keep it), \<open>HeapCheck\<close> (the code's own check agrees), \<open>HeapReach\<close>, \<open>HeapRun\<close>,
    \<open>HeapProps\<close> (live blocks are disjoint, aligned, untouched; alloc succeeds when a block fits; the statistics
    are exact; a second release that is not caught), \<open>HeapLock\<close>
    (the spin lock as a step relation over cores, in which a call works on the shared state in many steps: mutual
    exclusion, and every interleaving is a sequential run; the locale \<open>allocator\<close> is interpreted on the heap).
  \<^item> \<open>PartMem\<close> (model), \<open>PartSafe\<close>, \<open>PartReach\<close>, \<open>PartProps\<close>: partitions and device ranges of different
    slots never overlap, over every sequence of claims, adoptions and returns, with the typestate tokens as
    values that a step consumes; claims are best fit and refused only when nothing fits.
  \<^item> \<open>Grants\<close>: a window stays with its holder whatever other slots claim, adopt or release; the environment
    lines read back.
  \<^item> \<open>Flows\<close> (model), \<open>FlowProbe\<close> (linear probing with backward shift, once for both indexes through the
    locale \<open>keyed\<close>, interpreted as \<open>fwd_keyed\<close> and \<open>rev_keyed\<close>), \<open>FlowTally\<close> (the counts per slot),
    \<open>FlowSafe\<close>, \<open>FlowOps\<close> (the invariant and every operation), \<open>FlowProps\<close>: in every reachable table both
    lookups end and answer exactly for the connections in it, and insert and remove are those of a map.
  \<^item> \<open>Wire\<close> (frames, checksums and the address plan), \<open>WireSum\<close> (ones'-complement arithmetic), \<open>Rewrite\<close>: the
    incremental update of RFC 1624 keeps a valid checksum valid, for IP, TCP and UDP headers.
  \<^item> \<open>NodeNat\<close> (the whole of the translation), \<open>NatTable\<close>, \<open>NatFlow\<close>, \<open>NatPaths\<close> (the invariant along each
    path), \<open>NatRewrite\<close>, \<open>NatEvents\<close> (what each path can emit), \<open>NatProps\<close> (over the reachable states
    \<open>nat_reach\<close>): a frame from outside reaches a slot only on a published port or as the reply to a connection
    of that slot; a frame to the outside bears the address of the node; a reply finds its way back; quotas
    hold; no call panics or runs forever.
  \<^item> \<open>GwProps\<close>: the translation, the gateway and the checksums together, and the address plan.

  \<^item> \<open>BoardPlan\<close> (model), \<open>PlanPool\<close> (coalescing), \<open>PlanCarve\<close> (holes and alignment), \<open>PlanProps\<close>: the pool carved
    from banks and holes is the largest aligned one, the check of a plan accepts exactly the valid descriptions,
    the blocks of the cage never meet, and, with \<open>PartProps\<close>, no slot ever holds a reserved byte.
  \<^item> \<open>Gpt\<close> (model), \<open>GptProps\<close>: the table that is read is the one on the disk, and the window that HopOS
    writes is the largest gap between the partitions.  \<open>gpt_search_hangs\<close> is the header for which the search
    does not end.
  \<^item> \<open>Watchdog\<close> (\<^verbatim>\<open>kern/src/watchdog.rs\<close>): the hardware is petted only for a reason.
  \<^item> \<open>Checksum\<close> (\<^verbatim>\<open>abi/src/checksum.rs\<close>): the content sum changes with any single byte.

  \<^bold>\<open>Loops, bounds and fuel.\<close>  The heap walks carry the budget of the source, and the completeness theorems show
  that a reachable heap never exhausts it.  The probing loops of the connection table have no bound in the source:
  they are partial functions into \<^typ>\<open>'a option\<close>, and \<open>flow_lookup_exact\<close> proves that they return in every
  reachable table, because at least half of an index is empty.  So is the search for a gap on a
  disk, and \<open>gpt_window_safe\<close> proves that it returns for every table but those of one value of the header.  The search for a masquerade port tries each port of
  its range once, as the code does.  The folding of a checksum is recursive with a measure.  The waiting loop of
  the heap lock is a step that may repeat; the theorems on it are about safety and order, not about fairness.
  The reader of a ring looks at the head again in every round: \<open>reader_next_safe\<close> bounds its rounds once the head
  stays the same, and shows that a producer which goes on publishing pads keeps it going; \<open>Reader_next\<close>, which
  \<open>RingFifo\<close> uses, is the same loop on a memory at rest, a recursion with a measure.
  The sum of a core number and a core count is taken not to overflow, since a machine has far fewer cores.

  \<^bold>\<open>Parameters.\<close>  The stage-2 tables behind the window map of a grant, the cores of the board, the neighbour
  table of the stack of the node, the answers of the global heap, the reader of disk
  blocks and the unstable sort of the standard library are arguments of the definitions.  The effects of the translation on its surroundings are a list of events in the order of the calls.

  \<^bold>\<open>Not modelled.\<close>  The kernel services, the slot lifecycle but for its adoption, the switch and the pumps are asynchronous actors
  on an executor, and their logic is inseparable from wakers and from hardware behind traits; the calls they make
  into the components above are the steps of the reachability relations.  The object store, the configuration
  parser, the device trees and the message formats of the system interface are data formats left for later work.  The
  synchronisation crate needs a weak memory model.  Processor code, drivers and boards are assembly, registers and
  constants, whose meaning is that of the hardware.  Apps, their library, the display and codec flavours and the
  host tools are clients of what is modelled.  In the memory model there is one store, so cache maintenance and
  barriers have no effect; printing is left out everywhere.
\<close>

end
